(* ===== verification/Prelude.thy ===== *)
theory Prelude
  imports Main "HOL-Library.Word"
begin

text \<open>
  Shared material of the development: the machine types of the 64-bit, little-endian
  target, byte-addressed memory with its read and write laws, little-endian splitting of
  words, and the two combinators for the source's pattern
  \<^verbatim>\<open>if (!f(...)) return false; ...\<close>.
\<close>

unbundle bit_operations_syntax

section \<open>Machine types\<close>

type_synonym u8 = "8 word"
type_synonym u16 = "16 word"
type_synonym u32 = "32 word"
type_synonym u64 = "64 word"

text \<open>Addresses are integers, so that signed offsets can be added; \<open>0\<close> is the null pointer.\<close>

type_synonym addr = int
type_synonym mem = "addr \<Rightarrow> u8"

named_theorems mem_simps \<open>reading memory after a write\<close>
named_theorems stream_simps \<open>how a stream operation changes each component of the state\<close>

section \<open>Sequencing of fallible commands\<close>

text \<open>
  A command returns the C function's boolean and the new state. \<open>seq_ok a b\<close> is
  \<^verbatim>\<open>if (!a) return false; return b;\<close>.
\<close>

definition seq_ok :: "('s \<Rightarrow> bool \<times> 's) \<Rightarrow> ('s \<Rightarrow> bool \<times> 's) \<Rightarrow> 's \<Rightarrow> bool \<times> 's" where
  "seq_ok a b s = (let (ok, s') = a s in if ok then b s' else (False, s'))"

text \<open>The same where a step may also fail to return (out of fuel, a callback that loops).\<close>

definition seq_opt ::
  "('s \<Rightarrow> (bool \<times> 's) option) \<Rightarrow> ('s \<Rightarrow> (bool \<times> 's) option) \<Rightarrow> 's \<Rightarrow> (bool \<times> 's) option" where
  "seq_opt a b s =
     (case a s of None \<Rightarrow> None | Some (ok, s') \<Rightarrow> if ok then b s' else Some (False, s'))"

definition ret_opt :: "('s \<Rightarrow> bool \<times> 's) \<Rightarrow> 's \<Rightarrow> (bool \<times> 's) option" where
  "ret_opt a s = Some (a s)"

lemma seq_ok_simps [simp]:
  "a s = (True, s') \<Longrightarrow> seq_ok a b s = b s'"
  "a s = (False, s') \<Longrightarrow> seq_ok a b s = (False, s')"
  by (simp_all add: seq_ok_def)

lemma seq_ok_True_iff:
  "seq_ok a b s = (True, t) \<longleftrightarrow> (\<exists>s'. a s = (True, s') \<and> b s' = (True, t))"
  by (auto simp: seq_ok_def split: prod.splits)

lemma seq_ok_invariant:
  assumes "\<And>ok t. a s = (ok, t) \<Longrightarrow> P t" and "\<And>t ok u. P t \<Longrightarrow> b t = (ok, u) \<Longrightarrow> P u"
    and "seq_ok a b s = (ok, u)"
  shows "P u"
  using assms by (auto simp: seq_ok_def split: prod.splits if_splits)

section \<open>Memory\<close>

definition mem_read :: "mem \<Rightarrow> addr \<Rightarrow> nat \<Rightarrow> u8 list" where
  "mem_read m a n = map (\<lambda>i. m (a + int i)) [0..<n]"

definition mem_write :: "mem \<Rightarrow> addr \<Rightarrow> u8 list \<Rightarrow> mem" where
  "mem_write m a bs = (\<lambda>x. if a \<le> x \<and> x < a + int (length bs) then bs ! nat (x - a) else m x)"

lemma length_mem_read [simp]: "length (mem_read m a n) = n"
  by (simp add: mem_read_def)

lemma nth_mem_read [simp]: "i < n \<Longrightarrow> mem_read m a n ! i = m (a + int i)"
  by (simp add: mem_read_def)

lemma mem_read_0 [simp]: "mem_read m a 0 = []"
  by (simp add: mem_read_def)

lemma mem_read_Suc: "mem_read m a (Suc n) = m a # mem_read m (a + 1) n"
  by (rule nth_equalityI) (auto simp: nth_Cons split: nat.splits simp: algebra_simps)

lemma mem_read_add: "mem_read m a (n + k) = mem_read m a n @ mem_read m (a + int n) k"
  by (rule nth_equalityI) (auto simp: nth_append algebra_simps)

lemma mem_write_Nil [simp]: "mem_write m a [] = m"
  by (rule ext) (auto simp: mem_write_def)

lemma mem_write_outside [mem_simps]:
  "x < a \<or> a + int (length bs) \<le> x \<Longrightarrow> mem_write m a bs x = m x"
  by (auto simp: mem_write_def)

lemma mem_write_inside:
  "i < length bs \<Longrightarrow> mem_write m a bs (a + int i) = bs ! i"
  by (simp add: mem_write_def)

lemma mem_read_write_same [mem_simps]:
  "n = length bs \<Longrightarrow> mem_read (mem_write m a bs) a n = bs"
  by (rule nth_equalityI) (auto simp: mem_write_inside)

lemma mem_read_write_disjoint [mem_simps]:
  "b + int n \<le> a \<or> a + int (length bs) \<le> b \<Longrightarrow> mem_read (mem_write m a bs) b n = mem_read m b n"
  by (rule nth_equalityI) (auto simp: mem_write_def)

lemma mem_write_append:
  "mem_write (mem_write m a xs) (a + int (length xs)) ys = mem_write m a (xs @ ys)"
proof
  fix x
  show "mem_write (mem_write m a xs) (a + int (length xs)) ys x = mem_write m a (xs @ ys) x"
    by (auto simp: mem_write_def nth_append nat_diff_distrib' nat_less_iff intro!: arg_cong [where f = "(!) ys"])
qed

lemma mem_write_update [mem_simps]:
  "i < length xs \<Longrightarrow> (mem_write m a xs)(a + int i := w) = mem_write m a (xs[i := w])"
  by (auto simp: mem_write_def fun_eq_iff nth_list_update)

lemma mem_write_snoc [mem_simps]:
  "(mem_write m a xs)(a + int (length xs) := w) = mem_write m a (xs @ [w])"
  by (auto simp: mem_write_def fun_eq_iff nth_append)

section \<open>Bytes bit by bit\<close>

lemma u8_eqI:
  fixes a b :: u8
  assumes "bit a 0 = bit b 0" "bit a 1 = bit b 1" "bit a 2 = bit b 2" "bit a 3 = bit b 3"
    "bit a 4 = bit b 4" "bit a 5 = bit b 5" "bit a 6 = bit b 6" "bit a 7 = bit b 7"
  shows "a = b"
proof (rule bit_word_eqI)
  fix n assume "n < LENGTH(8)"
  then have "n = 0 \<or> n = 1 \<or> n = 2 \<or> n = 3 \<or> n = 4 \<or> n = 5 \<or> n = 6 \<or> n = 7"
    by (simp, presburger)
  with assms show "bit a n = bit b n" by auto
qed

lemma no_high_bit [simp]: "\<not> bit (a :: u8) 8"
  "\<not> bit (a :: u8) 9" "\<not> bit (a :: u8) 10" "\<not> bit (a :: u8) 11" "\<not> bit (a :: u8) 12" "\<not> bit (a :: u8) 13"
  by (auto dest!: bit_imp_le_length)

section \<open>Little-endian words\<close>

lemma unat_add_one:
  fixes a b :: "'a::len word"
  assumes "a < b"
  shows "unat (a + 1) = Suc (unat a)"
proof -
  have "Suc (unat a) < 2 ^ LENGTH('a)"
    using assms unsigned_less [of b, where 'a = nat]
    unfolding word_less_nat_alt by linarith
  then show ?thesis by (simp add: unat_word_ariths)
qed

fun word_to_le :: "nat \<Rightarrow> 'a::len word \<Rightarrow> u8 list" where
  "word_to_le 0 w = []"
| "word_to_le (Suc n) w = ucast w # word_to_le n (drop_bit 8 w)"

fun word_of_le :: "u8 list \<Rightarrow> 'a::len word" where
  "word_of_le [] = 0"
| "word_of_le (b # bs) = ucast b OR push_bit 8 (word_of_le bs)"

lemma length_word_to_le [simp]: "length (word_to_le n w) = n"
  by (induction n arbitrary: w) auto

lemma word_of_le_to_le_take: "word_of_le (word_to_le n w) = take_bit (8 * n) w"
proof (induction n arbitrary: w)
  case 0
  then show ?case by simp
next
  case (Suc n)
  show ?case
  proof (rule bit_word_eqI)
    fix k assume "k < LENGTH('a)"
    then show "bit (word_of_le (word_to_le (Suc n) w) :: 'a word) k = bit (take_bit (8 * Suc n) w) k"
      by (auto simp: Suc.IH bit_simps)
  qed
qed

lemma word_of_le_to_le [simp]:
  "LENGTH('a) \<le> 8 * n \<Longrightarrow> word_of_le (word_to_le n w) = (w :: 'a::len word)"
  by (simp add: word_of_le_to_le_take take_bit_word_eq_self)

lemma nth_word_to_le: "i < n \<Longrightarrow> word_to_le n w ! i = ucast (drop_bit (8 * i) w)"
proof (induction n arbitrary: w i)
  case (Suc n)
  then show ?case by (cases i) (auto simp: add.commute)
qed simp

lemma bit_word_of_le:
  "bit (word_of_le bs :: 'a::len word) k \<longleftrightarrow>
     k < LENGTH('a) \<and> k < 8 * length bs \<and> bit (bs ! (k div 8)) (k mod 8)"
proof (induction bs arbitrary: k)
  case (Cons b bs)
  show ?case
  proof (cases "k < 8")
    case True
    then show ?thesis by (auto simp: bit_simps)
  next
    case False
    then obtain j where "k = j + 8" by (metis add.commute le_Suc_ex not_less)
    moreover have "(j + 8) div 8 = Suc (j div 8)" by simp
    ultimately show ?thesis using bit_imp_le_length [of b] by (auto simp: bit_simps Cons.IH)
  qed
qed simp

lemma word_to_le_of_le:
  assumes "8 * length bs \<le> LENGTH('a)"
  shows "word_to_le (length bs) (word_of_le bs :: 'a::len word) = bs"
proof (rule nth_equalityI)
  fix i assume "i < length (word_to_le (length bs) (word_of_le bs :: 'a word))"
  then have i: "i < length bs" by simp
  show "word_to_le (length bs) (word_of_le bs :: 'a word) ! i = bs ! i"
  proof (rule bit_word_eqI)
    fix k assume "k < LENGTH(8)"
    with i assms show "bit (word_to_le (length bs) (word_of_le bs :: 'a word) ! i) k = bit (bs ! i) k"
      by (auto simp: nth_word_to_le bit_simps bit_word_of_le)
  qed
qed simp

definition load_le :: "nat \<Rightarrow> mem \<Rightarrow> addr \<Rightarrow> 'a::len word" where
  "load_le n m a = word_of_le (mem_read m a n)"

definition store_le :: "nat \<Rightarrow> 'a::len word \<Rightarrow> addr \<Rightarrow> mem \<Rightarrow> mem" where
  "store_le n w a m = mem_write m a (word_to_le n w)"

lemma load_store_le [mem_simps]:
  "LENGTH('a) \<le> 8 * n \<Longrightarrow> load_le n (store_le n w a m) a = (w :: 'a::len word)"
  by (simp add: load_le_def store_le_def mem_simps)

lemma word_to_le_load:
  "8 * n \<le> LENGTH('a) \<Longrightarrow> word_to_le n (load_le n m a :: 'a::len word) = mem_read m a n"
  using word_to_le_of_le [of "mem_read m a n", where 'a = 'a] by (simp add: load_le_def)

end
