(* ===== verification/Pb_Types.thy ===== *)
theory Pb_Types
  imports Prelude
begin

text \<open>
  The data of \<^verbatim>\<open>nanopb/pb.h\<close> in the configuration the project builds
  (\<^verbatim>\<open>PB_FIELD_32BIT\<close>, \<^verbatim>\<open>PB_NO_PACKED_STRUCTS\<close>, no \<^verbatim>\<open>PB_ENABLE_MALLOC\<close>, no
  \<^verbatim>\<open>PB_BUFFER_ONLY\<close>): type codes, field descriptors and the macros that fill them in,
  wire types, the C layout of callbacks, extensions and byte arrays, and the error macros.
\<close>

section \<open>Field type codes\<close>

definition PB_LTYPE_VARINT :: u8 where [simp]: "PB_LTYPE_VARINT = 0x00"
definition PB_LTYPE_UVARINT :: u8 where [simp]: "PB_LTYPE_UVARINT = 0x01"
definition PB_LTYPE_SVARINT :: u8 where [simp]: "PB_LTYPE_SVARINT = 0x02"
definition PB_LTYPE_FIXED32 :: u8 where [simp]: "PB_LTYPE_FIXED32 = 0x03"
definition PB_LTYPE_FIXED64 :: u8 where [simp]: "PB_LTYPE_FIXED64 = 0x04"
definition PB_LTYPE_LAST_PACKABLE :: u8 where [simp]: "PB_LTYPE_LAST_PACKABLE = 0x04"
definition PB_LTYPE_BYTES :: u8 where [simp]: "PB_LTYPE_BYTES = 0x05"
definition PB_LTYPE_STRING :: u8 where [simp]: "PB_LTYPE_STRING = 0x06"
definition PB_LTYPE_SUBMESSAGE :: u8 where [simp]: "PB_LTYPE_SUBMESSAGE = 0x07"
definition PB_LTYPE_EXTENSION :: u8 where [simp]: "PB_LTYPE_EXTENSION = 0x08"
definition PB_LTYPE_FIXED_LENGTH_BYTES :: u8 where [simp]: "PB_LTYPE_FIXED_LENGTH_BYTES = 0x09"

definition PB_HTYPE_REQUIRED :: u8 where [simp]: "PB_HTYPE_REQUIRED = 0x00"
definition PB_HTYPE_OPTIONAL :: u8 where [simp]: "PB_HTYPE_OPTIONAL = 0x10"
definition PB_HTYPE_REPEATED :: u8 where [simp]: "PB_HTYPE_REPEATED = 0x20"
definition PB_HTYPE_ONEOF :: u8 where [simp]: "PB_HTYPE_ONEOF = 0x30"

definition PB_ATYPE_STATIC :: u8 where [simp]: "PB_ATYPE_STATIC = 0x00"
definition PB_ATYPE_POINTER :: u8 where [simp]: "PB_ATYPE_POINTER = 0x80"
definition PB_ATYPE_CALLBACK :: u8 where [simp]: "PB_ATYPE_CALLBACK = 0x40"

definition PB_ATYPE :: "u8 \<Rightarrow> u8" where "PB_ATYPE x = x AND 0xC0"
definition PB_HTYPE :: "u8 \<Rightarrow> u8" where "PB_HTYPE x = x AND 0x30"
definition PB_LTYPE :: "u8 \<Rightarrow> u8" where "PB_LTYPE x = x AND 0x0F"

section \<open>Field descriptors\<close>

text \<open>
  \<^verbatim>\<open>pb_size_t\<close> is \<^verbatim>\<open>uint32_t\<close>; \<open>f_size_offset\<close> is a \<^verbatim>\<open>pb_ssize_t\<close>, read with \<open>sint\<close>.
  \<open>f_ptr\<close> is the address of the default value, or of the submessage's descriptor array,
  which the environments of the encoder and the decoder resolve.
\<close>

record pb_field =
  f_tag :: u32
  f_type :: u8
  f_data_offset :: u32
  f_size_offset :: u32
  f_data_size :: u32
  f_array_size :: u32
  f_ptr :: addr

definition PB_SIZE_MAX :: u32 where "PB_SIZE_MAX = - 1"

definition PB_LAST_FIELD :: pb_field where
  "PB_LAST_FIELD = \<lparr>f_tag = 0, f_type = 0, f_data_offset = 0, f_size_offset = 0,
     f_data_size = 0, f_array_size = 0, f_ptr = 0\<rparr>"

abbreviation ltype :: "pb_field \<Rightarrow> u8" where "ltype f \<equiv> PB_LTYPE (f_type f)"
abbreviation htype :: "pb_field \<Rightarrow> u8" where "htype f \<equiv> PB_HTYPE (f_type f)"
abbreviation atype :: "pb_field \<Rightarrow> u8" where "atype f \<equiv> PB_ATYPE (f_type f)"

subsection \<open>The macros of the generated descriptor tables\<close>

text \<open>
  \<^verbatim>\<open>offsetof\<close> and \<^verbatim>\<open>sizeof\<close> of a struct member, which the compiler supplies:
  \<open>mb_off\<close> is the member's offset, \<open>mb_size\<close> its size, \<open>mb_elem\<close> the size of
  \<^verbatim>\<open>m[0]\<close>.
\<close>

record member =
  mb_off :: nat
  mb_size :: nat
  mb_elem :: nat

definition pb_membersize :: "member \<Rightarrow> u32" where
  "pb_membersize m = of_nat (mb_size m)"

definition pb_arraysize :: "member \<Rightarrow> u32" where
  "pb_arraysize m = of_nat (mb_size m div mb_elem m)"

definition pb_delta :: "member \<Rightarrow> member \<Rightarrow> u32" where
  "pb_delta m1 m2 = of_int (int (mb_off m1) - int (mb_off m2))"

definition PB_DATAOFFSET_FIRST :: "member \<Rightarrow> member \<Rightarrow> u32" where
  "PB_DATAOFFSET_FIRST m1 m2 = of_nat (mb_off m1)"

definition PB_DATAOFFSET_OTHER :: "member \<Rightarrow> member \<Rightarrow> u32" where
  "PB_DATAOFFSET_OTHER m1 m2 = of_int (int (mb_off m1) - int (mb_off m2) - int (mb_size m2))"

definition PB_DATAOFFSET_UNION :: "member \<Rightarrow> member \<Rightarrow> u32" where
  "PB_DATAOFFSET_UNION m1 m2 = PB_SIZE_MAX"

definition PB_DATAOFFSET_CHOOSE :: "member \<Rightarrow> member \<Rightarrow> u32" where
  "PB_DATAOFFSET_CHOOSE m1 m2 =
     (if mb_off m1 = mb_off m2 then PB_DATAOFFSET_FIRST m1 m2 else PB_DATAOFFSET_OTHER m1 m2)"

definition PB_REQUIRED_STATIC :: "u32 \<Rightarrow> member \<Rightarrow> u32 \<Rightarrow> u8 \<Rightarrow> addr \<Rightarrow> pb_field" where
  "PB_REQUIRED_STATIC tag m fd lt p =
     \<lparr>f_tag = tag, f_type = PB_ATYPE_STATIC OR PB_HTYPE_REQUIRED OR lt,
      f_data_offset = fd, f_size_offset = 0, f_data_size = pb_membersize m,
      f_array_size = 0, f_ptr = p\<rparr>"

definition PB_OPTIONAL_STATIC :: "u32 \<Rightarrow> member \<Rightarrow> member \<Rightarrow> u32 \<Rightarrow> u8 \<Rightarrow> addr \<Rightarrow> pb_field" where
  "PB_OPTIONAL_STATIC tag has m fd lt p =
     \<lparr>f_tag = tag, f_type = PB_ATYPE_STATIC OR PB_HTYPE_OPTIONAL OR lt,
      f_data_offset = fd, f_size_offset = pb_delta has m, f_data_size = pb_membersize m,
      f_array_size = 0, f_ptr = p\<rparr>"

definition PB_SINGULAR_STATIC :: "u32 \<Rightarrow> member \<Rightarrow> u32 \<Rightarrow> u8 \<Rightarrow> addr \<Rightarrow> pb_field" where
  "PB_SINGULAR_STATIC tag m fd lt p =
     \<lparr>f_tag = tag, f_type = PB_ATYPE_STATIC OR PB_HTYPE_OPTIONAL OR lt,
      f_data_offset = fd, f_size_offset = 0, f_data_size = pb_membersize m,
      f_array_size = 0, f_ptr = p\<rparr>"

definition PB_REPEATED_STATIC :: "u32 \<Rightarrow> member \<Rightarrow> member \<Rightarrow> u32 \<Rightarrow> u8 \<Rightarrow> addr \<Rightarrow> pb_field" where
  "PB_REPEATED_STATIC tag cnt m fd lt p =
     \<lparr>f_tag = tag, f_type = PB_ATYPE_STATIC OR PB_HTYPE_REPEATED OR lt,
      f_data_offset = fd, f_size_offset = pb_delta cnt m, f_data_size = of_nat (mb_elem m),
      f_array_size = pb_arraysize m, f_ptr = p\<rparr>"

definition PB_ONEOF_STATIC :: "u32 \<Rightarrow> member \<Rightarrow> member \<Rightarrow> u32 \<Rightarrow> u8 \<Rightarrow> addr \<Rightarrow> pb_field" where
  "PB_ONEOF_STATIC tag which m fd lt p =
     \<lparr>f_tag = tag, f_type = PB_ATYPE_STATIC OR PB_HTYPE_ONEOF OR lt,
      f_data_offset = fd, f_size_offset = pb_delta which m, f_data_size = pb_membersize m,
      f_array_size = 0, f_ptr = p\<rparr>"

definition PB_REQUIRED_POINTER :: "u32 \<Rightarrow> member \<Rightarrow> u32 \<Rightarrow> u8 \<Rightarrow> addr \<Rightarrow> pb_field" where
  "PB_REQUIRED_POINTER tag m fd lt p =
     \<lparr>f_tag = tag, f_type = PB_ATYPE_POINTER OR PB_HTYPE_REQUIRED OR lt,
      f_data_offset = fd, f_size_offset = 0, f_data_size = of_nat (mb_elem m),
      f_array_size = 0, f_ptr = p\<rparr>"

definition PB_OPTIONAL_POINTER :: "u32 \<Rightarrow> member \<Rightarrow> u32 \<Rightarrow> u8 \<Rightarrow> addr \<Rightarrow> pb_field" where
  "PB_OPTIONAL_POINTER tag m fd lt p =
     \<lparr>f_tag = tag, f_type = PB_ATYPE_POINTER OR PB_HTYPE_OPTIONAL OR lt,
      f_data_offset = fd, f_size_offset = 0, f_data_size = of_nat (mb_elem m),
      f_array_size = 0, f_ptr = p\<rparr>"

definition PB_REPEATED_POINTER :: "u32 \<Rightarrow> member \<Rightarrow> member \<Rightarrow> u32 \<Rightarrow> u8 \<Rightarrow> addr \<Rightarrow> pb_field" where
  "PB_REPEATED_POINTER tag cnt m fd lt p =
     \<lparr>f_tag = tag, f_type = PB_ATYPE_POINTER OR PB_HTYPE_REPEATED OR lt,
      f_data_offset = fd, f_size_offset = pb_delta cnt m, f_data_size = of_nat (mb_elem m),
      f_array_size = 0, f_ptr = p\<rparr>"

definition PB_REQUIRED_CALLBACK :: "u32 \<Rightarrow> member \<Rightarrow> u32 \<Rightarrow> u8 \<Rightarrow> addr \<Rightarrow> pb_field" where
  "PB_REQUIRED_CALLBACK tag m fd lt p =
     \<lparr>f_tag = tag, f_type = PB_ATYPE_CALLBACK OR PB_HTYPE_REQUIRED OR lt,
      f_data_offset = fd, f_size_offset = 0, f_data_size = pb_membersize m,
      f_array_size = 0, f_ptr = p\<rparr>"

definition PB_OPTIONAL_CALLBACK :: "u32 \<Rightarrow> member \<Rightarrow> u32 \<Rightarrow> u8 \<Rightarrow> addr \<Rightarrow> pb_field" where
  "PB_OPTIONAL_CALLBACK tag m fd lt p =
     \<lparr>f_tag = tag, f_type = PB_ATYPE_CALLBACK OR PB_HTYPE_OPTIONAL OR lt,
      f_data_offset = fd, f_size_offset = 0, f_data_size = pb_membersize m,
      f_array_size = 0, f_ptr = p\<rparr>"

definition PB_REPEATED_CALLBACK :: "u32 \<Rightarrow> member \<Rightarrow> u32 \<Rightarrow> u8 \<Rightarrow> addr \<Rightarrow> pb_field" where
  "PB_REPEATED_CALLBACK tag m fd lt p =
     \<lparr>f_tag = tag, f_type = PB_ATYPE_CALLBACK OR PB_HTYPE_REPEATED OR lt,
      f_data_offset = fd, f_size_offset = 0, f_data_size = pb_membersize m,
      f_array_size = 0, f_ptr = p\<rparr>"

definition PB_OPTEXT_STATIC :: "u32 \<Rightarrow> member \<Rightarrow> u8 \<Rightarrow> addr \<Rightarrow> pb_field" where
  "PB_OPTEXT_STATIC tag m lt p =
     \<lparr>f_tag = tag, f_type = PB_ATYPE_STATIC OR PB_HTYPE_REQUIRED OR lt,
      f_data_offset = 0, f_size_offset = 0, f_data_size = pb_membersize m,
      f_array_size = 0, f_ptr = p\<rparr>"

definition PB_SINGULAR_POINTER :: "u32 \<Rightarrow> member \<Rightarrow> u32 \<Rightarrow> u8 \<Rightarrow> addr \<Rightarrow> pb_field" where
  "PB_SINGULAR_POINTER tag m fd lt p =
     \<lparr>f_tag = tag, f_type = PB_ATYPE_POINTER OR PB_HTYPE_OPTIONAL OR lt,
      f_data_offset = fd, f_size_offset = 0, f_data_size = of_nat (mb_elem m),
      f_array_size = 0, f_ptr = p\<rparr>"

definition PB_SINGULAR_CALLBACK :: "u32 \<Rightarrow> member \<Rightarrow> u32 \<Rightarrow> u8 \<Rightarrow> addr \<Rightarrow> pb_field" where
  "PB_SINGULAR_CALLBACK tag m fd lt p =
     \<lparr>f_tag = tag, f_type = PB_ATYPE_CALLBACK OR PB_HTYPE_OPTIONAL OR lt,
      f_data_offset = fd, f_size_offset = 0, f_data_size = pb_membersize m,
      f_array_size = 0, f_ptr = p\<rparr>"

definition PB_OPTEXT_POINTER :: "u32 \<Rightarrow> member \<Rightarrow> u32 \<Rightarrow> u8 \<Rightarrow> addr \<Rightarrow> pb_field" where
  "PB_OPTEXT_POINTER tag m fd lt p = PB_OPTIONAL_POINTER tag m fd lt p"

definition PB_OPTEXT_CALLBACK :: "u32 \<Rightarrow> member \<Rightarrow> u32 \<Rightarrow> u8 \<Rightarrow> addr \<Rightarrow> pb_field" where
  "PB_OPTEXT_CALLBACK tag m fd lt p = PB_OPTIONAL_CALLBACK tag m fd lt p"

definition PB_ONEOF_POINTER :: "u32 \<Rightarrow> member \<Rightarrow> member \<Rightarrow> u32 \<Rightarrow> u8 \<Rightarrow> addr \<Rightarrow> pb_field" where
  "PB_ONEOF_POINTER tag which m fd lt p =
     \<lparr>f_tag = tag, f_type = PB_ATYPE_POINTER OR PB_HTYPE_ONEOF OR lt,
      f_data_offset = fd, f_size_offset = pb_delta which m, f_data_size = of_nat (mb_elem m),
      f_array_size = 0, f_ptr = p\<rparr>"

text \<open>
  The protobuf types and the \<^verbatim>\<open>PB_LTYPE_MAP_\<close> macros, the placements and the field macro
  itself. \<open>aux\<close> is the member \<^verbatim>\<open>has_m\<close> or \<^verbatim>\<open>m_count\<close> the rule refers to. The token pasting of
  \<^verbatim>\<open>PB_FIELD\<close> is the case distinction over rule and allocation.
\<close>

datatype proto_type = T_BOOL | T_BYTES | T_DOUBLE | T_ENUM | T_UENUM | T_FIXED32 | T_FIXED64
  | T_FLOAT | T_INT32 | T_INT64 | T_MESSAGE | T_SFIXED32 | T_SFIXED64 | T_SINT32 | T_SINT64
  | T_STRING | T_UINT32 | T_UINT64 | T_EXTENSION | T_FIXED_LENGTH_BYTES

primrec PB_LTYPE_MAP :: "proto_type \<Rightarrow> u8" where
  "PB_LTYPE_MAP T_BOOL = PB_LTYPE_VARINT"
| "PB_LTYPE_MAP T_BYTES = PB_LTYPE_BYTES"
| "PB_LTYPE_MAP T_DOUBLE = PB_LTYPE_FIXED64"
| "PB_LTYPE_MAP T_ENUM = PB_LTYPE_VARINT"
| "PB_LTYPE_MAP T_UENUM = PB_LTYPE_UVARINT"
| "PB_LTYPE_MAP T_FIXED32 = PB_LTYPE_FIXED32"
| "PB_LTYPE_MAP T_FIXED64 = PB_LTYPE_FIXED64"
| "PB_LTYPE_MAP T_FLOAT = PB_LTYPE_FIXED32"
| "PB_LTYPE_MAP T_INT32 = PB_LTYPE_VARINT"
| "PB_LTYPE_MAP T_INT64 = PB_LTYPE_VARINT"
| "PB_LTYPE_MAP T_MESSAGE = PB_LTYPE_SUBMESSAGE"
| "PB_LTYPE_MAP T_SFIXED32 = PB_LTYPE_FIXED32"
| "PB_LTYPE_MAP T_SFIXED64 = PB_LTYPE_FIXED64"
| "PB_LTYPE_MAP T_SINT32 = PB_LTYPE_SVARINT"
| "PB_LTYPE_MAP T_SINT64 = PB_LTYPE_SVARINT"
| "PB_LTYPE_MAP T_STRING = PB_LTYPE_STRING"
| "PB_LTYPE_MAP T_UINT32 = PB_LTYPE_UVARINT"
| "PB_LTYPE_MAP T_UINT64 = PB_LTYPE_UVARINT"
| "PB_LTYPE_MAP T_EXTENSION = PB_LTYPE_EXTENSION"
| "PB_LTYPE_MAP T_FIXED_LENGTH_BYTES = PB_LTYPE_FIXED_LENGTH_BYTES"

datatype field_rule = REQUIRED | OPTIONAL | SINGULAR | REPEATED
datatype allocation = STATIC | POINTER | CALLBACK
datatype placement = FIRST | OTHER | UNION

primrec PB_DATAOFFSET :: "placement \<Rightarrow> member \<Rightarrow> member \<Rightarrow> u32" where
  "PB_DATAOFFSET FIRST m1 m2 = PB_DATAOFFSET_FIRST m1 m2"
| "PB_DATAOFFSET OTHER m1 m2 = PB_DATAOFFSET_OTHER m1 m2"
| "PB_DATAOFFSET UNION m1 m2 = PB_DATAOFFSET_UNION m1 m2"

fun PB_FIELD ::
  "u32 \<Rightarrow> proto_type \<Rightarrow> field_rule \<Rightarrow> allocation \<Rightarrow> placement \<Rightarrow> member \<Rightarrow> member \<Rightarrow> member \<Rightarrow> addr \<Rightarrow> pb_field" where
  "PB_FIELD tag ty REQUIRED STATIC pl aux m prev p =
     PB_REQUIRED_STATIC tag m (PB_DATAOFFSET pl m prev) (PB_LTYPE_MAP ty) p"
| "PB_FIELD tag ty OPTIONAL STATIC pl aux m prev p =
     PB_OPTIONAL_STATIC tag aux m (PB_DATAOFFSET pl m prev) (PB_LTYPE_MAP ty) p"
| "PB_FIELD tag ty SINGULAR STATIC pl aux m prev p =
     PB_SINGULAR_STATIC tag m (PB_DATAOFFSET pl m prev) (PB_LTYPE_MAP ty) p"
| "PB_FIELD tag ty REPEATED STATIC pl aux m prev p =
     PB_REPEATED_STATIC tag aux m (PB_DATAOFFSET pl m prev) (PB_LTYPE_MAP ty) p"
| "PB_FIELD tag ty REQUIRED POINTER pl aux m prev p =
     PB_REQUIRED_POINTER tag m (PB_DATAOFFSET pl m prev) (PB_LTYPE_MAP ty) p"
| "PB_FIELD tag ty OPTIONAL POINTER pl aux m prev p =
     PB_OPTIONAL_POINTER tag m (PB_DATAOFFSET pl m prev) (PB_LTYPE_MAP ty) p"
| "PB_FIELD tag ty SINGULAR POINTER pl aux m prev p =
     PB_SINGULAR_POINTER tag m (PB_DATAOFFSET pl m prev) (PB_LTYPE_MAP ty) p"
| "PB_FIELD tag ty REPEATED POINTER pl aux m prev p =
     PB_REPEATED_POINTER tag aux m (PB_DATAOFFSET pl m prev) (PB_LTYPE_MAP ty) p"
| "PB_FIELD tag ty REQUIRED CALLBACK pl aux m prev p =
     PB_REQUIRED_CALLBACK tag m (PB_DATAOFFSET pl m prev) (PB_LTYPE_MAP ty) p"
| "PB_FIELD tag ty OPTIONAL CALLBACK pl aux m prev p =
     PB_OPTIONAL_CALLBACK tag m (PB_DATAOFFSET pl m prev) (PB_LTYPE_MAP ty) p"
| "PB_FIELD tag ty SINGULAR CALLBACK pl aux m prev p =
     PB_SINGULAR_CALLBACK tag m (PB_DATAOFFSET pl m prev) (PB_LTYPE_MAP ty) p"
| "PB_FIELD tag ty REPEATED CALLBACK pl aux m prev p =
     PB_REPEATED_CALLBACK tag m (PB_DATAOFFSET pl m prev) (PB_LTYPE_MAP ty) p"

text \<open>\<^verbatim>\<open>PB_ONEOF_FIELD\<close>; there is no oneof member with callback allocation.\<close>

fun PB_ONEOF_FIELD ::
  "u32 \<Rightarrow> proto_type \<Rightarrow> allocation \<Rightarrow> placement \<Rightarrow> member \<Rightarrow> member \<Rightarrow> member \<Rightarrow> addr \<Rightarrow> pb_field option" where
  "PB_ONEOF_FIELD tag ty STATIC pl which m prev p =
     Some (PB_ONEOF_STATIC tag which m (PB_DATAOFFSET pl m prev) (PB_LTYPE_MAP ty) p)"
| "PB_ONEOF_FIELD tag ty POINTER pl which m prev p =
     Some (PB_ONEOF_POINTER tag which m (PB_DATAOFFSET pl m prev) (PB_LTYPE_MAP ty) p)"
| "PB_ONEOF_FIELD tag ty CALLBACK pl which m prev p = None"

section \<open>Wire types\<close>

text \<open>
  The decoder casts any three-bit value to \<^verbatim>\<open>pb_wire_type_t\<close>, so a wire type is a number.
\<close>

type_synonym pb_wire_type = u32

definition PB_WT_VARINT :: pb_wire_type where [simp]: "PB_WT_VARINT = 0"
definition PB_WT_64BIT :: pb_wire_type where [simp]: "PB_WT_64BIT = 1"
definition PB_WT_STRING :: pb_wire_type where [simp]: "PB_WT_STRING = 2"
definition PB_WT_32BIT :: pb_wire_type where [simp]: "PB_WT_32BIT = 5"

section \<open>Structures in memory\<close>

text \<open>
  The layout of the library's structs on the 64-bit target: \<^verbatim>\<open>pb_callback_t\<close> is a function
  pointer and an argument, \<^verbatim>\<open>pb_extension_t\<close> holds \<open>type\<close>, \<open>dest\<close>, \<open>next\<close> and \<open>found\<close>,
  \<^verbatim>\<open>pb_bytes_array_t\<close> a size and the bytes.
\<close>

definition load_ptr :: "mem \<Rightarrow> addr \<Rightarrow> addr" where
  "load_ptr m a = uint (load_le 8 m a :: u64)"

definition callback_funcs :: "mem \<Rightarrow> addr \<Rightarrow> addr" where
  "callback_funcs m p = load_ptr m p"

definition callback_arg :: "addr \<Rightarrow> addr" where
  "callback_arg p = p + 8"

definition ext_type :: "mem \<Rightarrow> addr \<Rightarrow> addr" where
  "ext_type m e = load_ptr m e"

definition ext_dest :: "addr \<Rightarrow> addr" where
  "ext_dest e = e + 8"

definition ext_next :: "mem \<Rightarrow> addr \<Rightarrow> addr" where
  "ext_next m e = load_ptr m (e + 16)"

definition ext_found :: "addr \<Rightarrow> addr" where
  "ext_found e = e + 24"

definition bytes_size :: "mem \<Rightarrow> addr \<Rightarrow> u32" where
  "bytes_size m p = load_le 4 m p"

definition bytes_bytes :: "addr \<Rightarrow> addr" where
  "bytes_bytes p = p + 4"

definition PB_BYTES_ARRAY_T_ALLOCSIZE :: "u32 \<Rightarrow> u64" where
  "PB_BYTES_ARRAY_T_ALLOCSIZE n = ucast n + 4"

text \<open>
  \<^verbatim>\<open>pb_extension_type_t\<close>: the two function pointers (\<open>0\<close> for \<^verbatim>\<open>NULL\<close>) and the descriptor
  that \<^verbatim>\<open>arg\<close> points to for the default handlers.
\<close>

record pb_extension_type =
  et_decode :: addr
  et_encode :: addr
  et_arg :: pb_field

section \<open>Error messages\<close>

definition PB_SET_ERROR :: "string \<Rightarrow> string option \<Rightarrow> string option" where
  "PB_SET_ERROR msg e = (case e of None \<Rightarrow> Some msg | Some old \<Rightarrow> Some old)"

definition PB_GET_ERROR :: "string option \<Rightarrow> string" where
  "PB_GET_ERROR e = (case e of None \<Rightarrow> ''(none)'' | Some msg \<Rightarrow> msg)"

section \<open>The code of a type byte\<close>

text \<open>
  The three parts of a type byte do not overlap: a code built from an allocation, a
  repetition rule and a data type is taken apart again.
\<close>

lemma type_code_parts:
  assumes "a \<in> {PB_ATYPE_STATIC, PB_ATYPE_POINTER, PB_ATYPE_CALLBACK}"
    and "h \<in> {PB_HTYPE_REQUIRED, PB_HTYPE_OPTIONAL, PB_HTYPE_REPEATED, PB_HTYPE_ONEOF}"
    and "PB_LTYPE l = l"
  shows "PB_ATYPE (a OR h OR l) = a" "PB_HTYPE (a OR h OR l) = h" "PB_LTYPE (a OR h OR l) = l"
proof -
  have l: "l = l AND 15" using assms(3) by (simp add: PB_LTYPE_def)
  have 1: "(l AND 15) AND (192::u8) = 0" "(l AND 15) AND (48::u8) = 0"
    by (simp_all add: and.assoc)
  have l0: "l AND (192::u8) = 0" "l AND (48::u8) = 0" "l AND (15::u8) = l"
    using 1 l by metis+
  show "PB_ATYPE (a OR h OR l) = a" "PB_HTYPE (a OR h OR l) = h" "PB_LTYPE (a OR h OR l) = l"
    using assms(1,2) l0
    by (auto simp: PB_ATYPE_def PB_HTYPE_def PB_LTYPE_def bit.conj_disj_distrib2)
qed

lemma htype_cases:
  "htype f = PB_HTYPE_REQUIRED \<or> htype f = PB_HTYPE_OPTIONAL \<or>
   htype f = PB_HTYPE_REPEATED \<or> htype f = PB_HTYPE_ONEOF"
proof -
  have "x AND 0x30 = (if bit x 4 then 0x10 else 0) OR (if bit x 5 then 0x20 else (0::u8))" for x
    by (rule bit_word_eqI) (auto simp: bit_simps less_Suc_eq eval_nat_numeral)
  then show ?thesis by (simp add: PB_HTYPE_def)
qed

end
