(* ===== verification/Pb_Ostream.thy ===== *)
theory Pb_Ostream
  imports Pb_Types
begin

text \<open>
  Output streams and the primitive encoders of \<^verbatim>\<open>nanopb/pb_encode.c\<close>:
  \<^verbatim>\<open>buf_write\<close>, \<^verbatim>\<open>pb_ostream_from_buffer\<close>, \<^verbatim>\<open>pb_write\<close> and the encoders of variable-length
  and fixed-width integers, tags and length-prefixed strings.

  The output memory \<open>omem\<close> is apart from the memory the message is read from (the source
  takes the message as \<^verbatim>\<open>const\<close>). A stream callback of the application is a parameter: it
  is given the bytes and may change the stream's \<open>state\<close> pointer and the application's own
  world \<open>'w\<close>, which is what \<^verbatim>\<open>pb_encode.h\<close> allows it to do.
\<close>

section \<open>Streams\<close>

datatype ocallback = OC_Null | OC_BufWrite | OC_User addr

record pb_ostream =
  os_callback :: ocallback
  os_state :: addr
  os_max_size :: u64
  os_bytes_written :: u64
  os_errmsg :: "string option"

record 'w ostate =
  os :: pb_ostream
  omem :: mem
  ouser :: 'w

text \<open>
  What the application and the generated code supply to the encoder: stream callbacks,
  field callbacks, extension encoders (which may not return), descriptor arrays and
  extension types by address.
\<close>

record 'w oenv =
  oe_write :: "addr \<Rightarrow> u8 list \<Rightarrow> addr \<times> 'w \<Rightarrow> bool \<times> addr \<times> 'w"
  oe_encode :: "addr \<Rightarrow> pb_field \<Rightarrow> addr \<Rightarrow> 'w ostate \<Rightarrow> (bool \<times> 'w ostate) option"
  oe_ext_encode :: "addr \<Rightarrow> addr \<Rightarrow> 'w ostate \<Rightarrow> (bool \<times> 'w ostate) option"
  oe_fields :: "addr \<Rightarrow> pb_field list"
  oe_ext_type :: "addr \<Rightarrow> pb_extension_type"

definition os_return_error :: "string \<Rightarrow> 'w ostate \<Rightarrow> bool \<times> 'w ostate" where
  "os_return_error msg s =
     (False, s\<lparr>os := (os s)\<lparr>os_errmsg := PB_SET_ERROR msg (os_errmsg (os s))\<rparr>\<rparr>)"

definition PB_OSTREAM_SIZING :: pb_ostream where
  "PB_OSTREAM_SIZING = \<lparr>os_callback = OC_Null, os_state = 0, os_max_size = 0,
     os_bytes_written = 0, os_errmsg = None\<rparr>"

definition pb_ostream_from_buffer :: "addr \<Rightarrow> u64 \<Rightarrow> pb_ostream" where
  "pb_ostream_from_buffer buf bufsize = \<lparr>os_callback = OC_BufWrite, os_state = buf,
     os_max_size = bufsize, os_bytes_written = 0, os_errmsg = None\<rparr>"

definition buf_write :: "u8 list \<Rightarrow> 'w ostate \<Rightarrow> bool \<times> 'w ostate" where
  "buf_write buf s =
     (let dest = os_state (os s) in
      (True, s\<lparr>os := (os s)\<lparr>os_state := dest + int (length buf)\<rparr>,
               omem := mem_write (omem s) dest buf\<rparr>))"

definition os_call :: "'w oenv \<Rightarrow> u8 list \<Rightarrow> 'w ostate \<Rightarrow> bool \<times> 'w ostate" where
  "os_call env buf s =
     (case os_callback (os s) of
        OC_Null \<Rightarrow> (True, s)
      | OC_BufWrite \<Rightarrow> buf_write buf s
      | OC_User f \<Rightarrow>
          (let (ok, st, w) = oe_write env f buf (os_state (os s), ouser s)
           in (ok, s\<lparr>os := (os s)\<lparr>os_state := st\<rparr>, ouser := w\<rparr>)))"

text \<open>
  \<open>buf\<close> holds the bytes at the buffer pointer; a null pointer, which the source passes only
  to a sizing stream, is the empty list.
\<close>

definition pb_write :: "'w oenv \<Rightarrow> u8 list \<Rightarrow> u64 \<Rightarrow> 'w ostate \<Rightarrow> bool \<times> 'w ostate" where
  "pb_write env buf count s =
     (if os_callback (os s) \<noteq> OC_Null then
        if os_bytes_written (os s) + count > os_max_size (os s)
        then os_return_error ''stream full'' s
        else
          let (ok, s1) = os_call env (take (unat count) buf) s in
          if \<not> ok then os_return_error ''io error'' s1
          else (True, s1\<lparr>os := (os s1)\<lparr>os_bytes_written := os_bytes_written (os s1) + count\<rparr>\<rparr>)
      else (True, s\<lparr>os := (os s)\<lparr>os_bytes_written := os_bytes_written (os s) + count\<rparr>\<rparr>))"

section \<open>Primitive encoders\<close>

text \<open>The loop that fills \<^verbatim>\<open>buffer\<close>; the bytes are in the order of their index.\<close>

function varint_loop :: "u64 \<Rightarrow> u8 list" where
  "varint_loop v =
     (if v = 0 then [] else (ucast (v AND 0x7F) OR 0x80) # varint_loop (drop_bit 7 v))"
  by pat_completeness auto
termination
proof (relation "measure unat")
  fix v :: u64 assume "v \<noteq> 0"
  then have "0 < unat v" by (simp add: unat_gt_0)
  then have "unat v div 128 < unat v" by simp
  then show "(drop_bit 7 v, v) \<in> measure unat"
    by (simp add: unat_drop_bit_eq) (simp add: drop_bit_eq_div)
qed simp

declare varint_loop.simps [simp del]

definition pb_encode_varint :: "'w oenv \<Rightarrow> u64 \<Rightarrow> 'w ostate \<Rightarrow> bool \<times> 'w ostate" where
  "pb_encode_varint env value =
     (if value \<le> 0x7F then pb_write env [ucast value] 1
      else
        let buffer = varint_loop value; i = length buffer;
            buffer' = buffer[i - 1 := buffer ! (i - 1) AND 0x7F]
        in pb_write env buffer' (of_nat i))"

definition zigzag :: "u64 \<Rightarrow> u64" where
  "zigzag value = (if sint value < 0 then NOT (push_bit 1 value) else push_bit 1 value)"

definition pb_encode_svarint :: "'w oenv \<Rightarrow> u64 \<Rightarrow> 'w ostate \<Rightarrow> bool \<times> 'w ostate" where
  "pb_encode_svarint env value = pb_encode_varint env (zigzag value)"

definition pb_encode_fixed32 :: "'w oenv \<Rightarrow> mem \<Rightarrow> addr \<Rightarrow> 'w ostate \<Rightarrow> bool \<times> 'w ostate" where
  "pb_encode_fixed32 env m value =
     (let val = load_le 4 m value :: u32 in
      pb_write env
        [ucast (val AND 0xFF), ucast (drop_bit 8 val AND 0xFF),
         ucast (drop_bit 16 val AND 0xFF), ucast (drop_bit 24 val AND 0xFF)] 4)"

definition pb_encode_fixed64 :: "'w oenv \<Rightarrow> mem \<Rightarrow> addr \<Rightarrow> 'w ostate \<Rightarrow> bool \<times> 'w ostate" where
  "pb_encode_fixed64 env m value =
     (let val = load_le 8 m value :: u64 in
      pb_write env
        [ucast (val AND 0xFF), ucast (drop_bit 8 val AND 0xFF),
         ucast (drop_bit 16 val AND 0xFF), ucast (drop_bit 24 val AND 0xFF),
         ucast (drop_bit 32 val AND 0xFF), ucast (drop_bit 40 val AND 0xFF),
         ucast (drop_bit 48 val AND 0xFF), ucast (drop_bit 56 val AND 0xFF)] 8)"

definition tag_key :: "pb_wire_type \<Rightarrow> u32 \<Rightarrow> u64" where
  "tag_key wiretype field_number = push_bit 3 (ucast field_number) OR ucast wiretype"

definition pb_encode_tag :: "'w oenv \<Rightarrow> pb_wire_type \<Rightarrow> u32 \<Rightarrow> 'w ostate \<Rightarrow> bool \<times> 'w ostate" where
  "pb_encode_tag env wiretype field_number = pb_encode_varint env (tag_key wiretype field_number)"

text \<open>The \<^verbatim>\<open>switch\<close> of \<^verbatim>\<open>pb_encode_tag_for_field\<close>; \<open>None\<close> is its default branch.\<close>

definition field_wiretype :: "u8 \<Rightarrow> pb_wire_type option" where
  "field_wiretype lt =
     (if lt = PB_LTYPE_VARINT \<or> lt = PB_LTYPE_UVARINT \<or> lt = PB_LTYPE_SVARINT
      then Some PB_WT_VARINT
      else if lt = PB_LTYPE_FIXED32 then Some PB_WT_32BIT
      else if lt = PB_LTYPE_FIXED64 then Some PB_WT_64BIT
      else if lt = PB_LTYPE_BYTES \<or> lt = PB_LTYPE_STRING \<or> lt = PB_LTYPE_SUBMESSAGE
           \<or> lt = PB_LTYPE_FIXED_LENGTH_BYTES
      then Some PB_WT_STRING
      else None)"

definition pb_encode_tag_for_field :: "'w oenv \<Rightarrow> pb_field \<Rightarrow> 'w ostate \<Rightarrow> bool \<times> 'w ostate" where
  "pb_encode_tag_for_field env field =
     (case field_wiretype (PB_LTYPE (f_type field)) of
        None \<Rightarrow> os_return_error ''invalid field type''
      | Some wiretype \<Rightarrow> pb_encode_tag env wiretype (f_tag field))"

definition pb_encode_string :: "'w oenv \<Rightarrow> u8 list \<Rightarrow> u64 \<Rightarrow> 'w ostate \<Rightarrow> bool \<times> 'w ostate" where
  "pb_encode_string env buffer sz =
     seq_ok (pb_encode_varint env sz) (pb_write env buffer sz)"

section \<open>Effects of a write\<close>

text \<open>The state after a sizing stream has counted \<open>n\<close> bytes, and after a buffer took \<open>bs\<close>.\<close>

definition os_advance :: "nat \<Rightarrow> 'w ostate \<Rightarrow> 'w ostate" where
  "os_advance n s = s\<lparr>os := (os s)\<lparr>os_bytes_written := os_bytes_written (os s) + of_nat n\<rparr>\<rparr>"

definition os_put :: "u8 list \<Rightarrow> 'w ostate \<Rightarrow> 'w ostate" where
  "os_put bs s = s\<lparr>os := (os s)\<lparr>os_state := os_state (os s) + int (length bs),
       os_bytes_written := os_bytes_written (os s) + of_nat (length bs)\<rparr>,
     omem := mem_write (omem s) (os_state (os s)) bs\<rparr>"

definition obuf_ok :: "'w ostate \<Rightarrow> bool" where
  "obuf_ok s \<longleftrightarrow> os_callback (os s) = OC_BufWrite
     \<and> uint (os_bytes_written (os s)) \<le> uint (os_max_size (os s))
     \<and> uint (os_max_size (os s)) < 2 ^ 63"

abbreviation os_used :: "'w ostate \<Rightarrow> int" where
  "os_used s \<equiv> uint (os_bytes_written (os s))"

abbreviation os_limit :: "'w ostate \<Rightarrow> int" where
  "os_limit s \<equiv> uint (os_max_size (os s))"

text \<open>
  \<open>owithin s t\<close>: from \<open>s\<close> to \<open>t\<close> a buffer stream wrote only inside the rest of its buffer,
  and its position and its count moved together.
\<close>

definition owithin :: "'w ostate \<Rightarrow> 'w ostate \<Rightarrow> bool" where
  "owithin s t \<longleftrightarrow> os_callback (os t) = os_callback (os s) \<and> os_max_size (os t) = os_max_size (os s)
     \<and> os_state (os t) - os_used t = os_state (os s) - os_used s
     \<and> os_used s \<le> os_used t \<and> os_used t \<le> os_limit s
     \<and> (\<forall>x. x < os_state (os s) \<or> os_state (os s) + (os_limit s - os_used s) \<le> x
          \<longrightarrow> omem t x = omem s x)"

lemma os_advance_sel [stream_simps]:
  "os_callback (os (os_advance n s)) = os_callback (os s)"
  "os_max_size (os (os_advance n s)) = os_max_size (os s)"
  "os_bytes_written (os (os_advance n s)) = os_bytes_written (os s) + of_nat n"
  "os_errmsg (os (os_advance n s)) = os_errmsg (os s)"
  "omem (os_advance n s) = omem s" "ouser (os_advance n s) = ouser s"
  "os_state (os (os_advance n s)) = os_state (os s)"
  by (simp_all add: os_advance_def)

lemma os_put_sel [stream_simps]:
  "os_callback (os (os_put bs s)) = os_callback (os s)"
  "os_max_size (os (os_put bs s)) = os_max_size (os s)"
  "os_errmsg (os (os_put bs s)) = os_errmsg (os s)"
  "os_state (os (os_put bs s)) = os_state (os s) + int (length bs)"
  "omem (os_put bs s) = mem_write (omem s) (os_state (os s)) bs" "ouser (os_put bs s) = ouser s"
  by (simp_all add: os_put_def)

lemma os_put_written:
  "os_bytes_written (os (os_put bs s)) = os_bytes_written (os s) + of_nat (length bs)"
  by (simp add: os_put_def)

lemma os_advance_advance [simp]: "os_advance n (os_advance k s) = os_advance (k + n) s"
  by (simp add: os_advance_def add.assoc)

lemma os_put_append: "os_put ys (os_put xs s) = os_put (xs @ ys) s"
  by (simp add: os_put_def mem_write_append add.assoc)

lemma uint_add_small:
  fixes w m :: u64
  assumes "uint w + int n \<le> uint m"
  shows "uint (w + of_nat n) = uint w + int n"
proof -
  have "uint m < 2 ^ 64" using uint_lt2p [of m] by simp
  with assms have "uint w + int n < 2 ^ 64" by linarith
  moreover have "uint (w + of_nat n) = (uint w + int n) mod 2 ^ 64"
    by (simp add: uint_word_ariths unsigned_of_nat take_bit_eq_mod zmod_int mod_simps)
  ultimately show ?thesis by simp
qed

lemma os_used_put [stream_simps]:
  "os_used s + int (length bs) \<le> os_limit s \<Longrightarrow> os_used (os_put bs s) = os_used s + int (length bs)"
  by (simp add: os_put_written uint_add_small)

lemma owithin_refl: "obuf_ok s \<Longrightarrow> owithin s s"
  by (simp add: owithin_def obuf_ok_def)

lemma owithin_trans:
  assumes "owithin s t" "owithin t u"
  shows "owithin s u"
proof -
  have "omem u x = omem s x"
    if "x < os_state (os s) \<or> os_state (os s) + (os_limit s - os_used s) \<le> x" for x
  proof -
    from that assms have "omem t x = omem s x" unfolding owithin_def by blast
    moreover have "x < os_state (os t) \<or> os_state (os t) + (os_limit t - os_used t) \<le> x"
      using that assms by (auto simp: owithin_def)
    ultimately show ?thesis using assms(2) unfolding owithin_def by metis
  qed
  with assms show ?thesis by (auto simp: owithin_def)
qed

lemma owithin_ok: "owithin s t \<Longrightarrow> obuf_ok s \<Longrightarrow> obuf_ok t"
  by (simp add: owithin_def obuf_ok_def)

lemma owithin_put:
  assumes "os_used s + int (length bs) \<le> os_limit s"
  shows "owithin s (os_put bs s)"
  using assms os_used_put [OF assms]
  by (auto simp: owithin_def os_put_sel mem_write_outside)

lemma owithin_error: "obuf_ok s \<Longrightarrow> os_return_error msg s = (ok, t) \<Longrightarrow> owithin s t"
  by (auto simp: owithin_def os_return_error_def obuf_ok_def)

section \<open>Contracts of encoding commands\<close>

text \<open>
  \<open>bounded_writer\<close>: whatever the outcome, a buffer stream is written only inside its buffer.
  \<open>emitter cmd ok bs\<close>: the command appends exactly the bytes \<open>bs\<close> and then returns \<open>ok\<close>: a
  sizing stream counts them, a buffer takes them when they fit and refuses otherwise, without
  writing behind its end. States are compared without the error message, which nested
  streams overwrite.
\<close>

definition os_noerr :: "'w ostate \<Rightarrow> 'w ostate" where
  "os_noerr s = s\<lparr>os := (os s)\<lparr>os_errmsg := None\<rparr>\<rparr>"

lemma os_noerr_put: "os_noerr s = os_noerr t \<Longrightarrow> os_noerr (os_put bs s) = os_noerr (os_put bs t)"
  by (cases s; cases t; cases "os s"; cases "os t") (simp add: os_noerr_def os_put_def)

lemma os_noerr_advance: "os_noerr s = os_noerr t \<Longrightarrow> os_noerr (os_advance n s) = os_noerr (os_advance n t)"
  by (cases s; cases t; cases "os s"; cases "os t") (simp add: os_noerr_def os_advance_def)

lemma os_noerr_error: "os_return_error msg s = (ok, t) \<Longrightarrow> os_noerr t = os_noerr s"
  by (auto simp: os_return_error_def os_noerr_def)

lemma os_noerr_sel:
  assumes "os_noerr s = os_noerr t"
  shows "os_callback (os s) = os_callback (os t)" "os_max_size (os s) = os_max_size (os t)"
    "os_bytes_written (os s) = os_bytes_written (os t)" "os_state (os s) = os_state (os t)"
    "omem s = omem t" "ouser s = ouser t"
  using assms by (cases s; cases t; cases "os s"; cases "os t"; simp add: os_noerr_def)+

lemma owithin_noerr:
  assumes "os_noerr t = os_noerr u"
  shows "owithin s t = owithin s u"
  using os_noerr_sel [OF assms] by (simp add: owithin_def)

locale bounded_writer =
  fixes cmd :: "'w ostate \<Rightarrow> (bool \<times> 'w ostate) option"
  assumes within: "obuf_ok s \<Longrightarrow> cmd s = Some (ok, t) \<Longrightarrow> owithin s t"
begin

lemma writer_ok: "obuf_ok s \<Longrightarrow> cmd s = Some (ok, t) \<Longrightarrow> obuf_ok t"
  using within owithin_ok by blast

lemma never_past_end:
  assumes "obuf_ok s" "cmd s = Some (ok, t)" "os_state (os s) + (os_limit s - os_used s) \<le> x"
  shows "omem t x = omem s x"
  using within [OF assms(1,2)] assms(3) by (simp add: owithin_def)

end

locale emitter =
  fixes cmd :: "'w ostate \<Rightarrow> (bool \<times> 'w ostate) option" and ok :: bool and bs :: "u8 list"
  assumes emit_null:
    "os_callback (os s) = OC_Null
      \<Longrightarrow> \<exists>t. cmd s = Some (ok, t) \<and> os_noerr t = os_noerr (os_advance (length bs) s)"
  and emit_fits:
    "os_callback (os s) = OC_BufWrite \<Longrightarrow> os_used s + int (length bs) \<le> os_limit s
      \<Longrightarrow> \<exists>t. cmd s = Some (ok, t) \<and> os_noerr t = os_noerr (os_put bs s)"
  and emit_full:
    "obuf_ok s \<Longrightarrow> length bs < 2 ^ 63 \<Longrightarrow> os_limit s < os_used s + int (length bs)
      \<Longrightarrow> \<exists>t. cmd s = Some (False, t) \<and> owithin s t"
begin

lemma emit_returns:
  assumes "obuf_ok s" "length bs < 2 ^ 63"
  shows "\<exists>t. cmd s = Some (ok \<and> os_used s + int (length bs) \<le> os_limit s, t) \<and> owithin s t"
proof (cases "os_used s + int (length bs) \<le> os_limit s")
  case True
  with emit_fits [of s] assms obtain t where
    t: "cmd s = Some (ok, t)" "os_noerr t = os_noerr (os_put bs s)" by (auto simp: obuf_ok_def)
  have "owithin s t" using owithin_noerr [OF t(2)] owithin_put [OF True] by blast
  with t True show ?thesis by auto
next
  case False
  with emit_full [OF assms] show ?thesis by auto
qed

end

locale small_emitter = emitter +
  assumes small: "length bs < 2 ^ 63"

sublocale small_emitter \<subseteq> bounded_writer
proof
  fix s k t
  assume "obuf_ok s" "cmd s = Some (k, t)"
  with emit_returns [OF \<open>obuf_ok s\<close> small] show "owithin s t" by auto
qed

lemma emitter_fail_seq:
  assumes "emitter a False xs"
  shows "emitter (seq_opt a b) False xs"
  by standard
    (use emitter.emit_null [OF assms] emitter.emit_fits [OF assms] emitter.emit_full [OF assms]
      in \<open>fastforce simp: seq_opt_def\<close>)+

lemma emitter_seq:
  assumes a: "emitter a True xs" and b: "emitter b k ys"
  shows "emitter (seq_opt a b) k (xs @ ys)"
proof
  fix s :: "'a ostate"
  assume n: "os_callback (os s) = OC_Null"
  then obtain s1 where s1: "a s = Some (True, s1)" "os_noerr s1 = os_noerr (os_advance (length xs) s)"
    using emitter.emit_null [OF a] by blast
  moreover have "os_callback (os s1) = OC_Null" using os_noerr_sel(1) [OF s1(2)] n by (simp add: stream_simps)
  ultimately obtain t where "b s1 = Some (k, t)" "os_noerr t = os_noerr (os_advance (length ys) s1)"
    using emitter.emit_null [OF b] by blast
  with s1 os_noerr_advance [OF s1(2), of "length ys"]
  show "\<exists>t. seq_opt a b s = Some (k, t) \<and> os_noerr t = os_noerr (os_advance (length (xs @ ys)) s)"
    by (simp add: seq_opt_def)
next
  fix s :: "'a ostate"
  assume c: "os_callback (os s) = OC_BufWrite" and l: "os_used s + int (length (xs @ ys)) \<le> os_limit s"
  have "os_used s + int (length xs) \<le> os_limit s" using l by simp
  note put = os_used_put [OF this]
  obtain s1 where s1: "a s = Some (True, s1)" "os_noerr s1 = os_noerr (os_put xs s)"
    using emitter.emit_fits [OF a c] l by auto
  note sel = os_noerr_sel [OF s1(2)]
  have "os_callback (os s1) = OC_BufWrite" "os_used s1 + int (length ys) \<le> os_limit s1"
    using sel put c l by (simp_all add: stream_simps)
  then obtain t where "b s1 = Some (k, t)" "os_noerr t = os_noerr (os_put ys s1)"
    using emitter.emit_fits [OF b] by blast
  with s1 os_noerr_put [OF s1(2), of ys]
  show "\<exists>t. seq_opt a b s = Some (k, t) \<and> os_noerr t = os_noerr (os_put (xs @ ys) s)"
    by (simp add: seq_opt_def os_put_append)
next
  fix s :: "'a ostate"
  assume s: "obuf_ok s" and n: "length (xs @ ys) < 2 ^ 63"
    and l: "os_limit s < os_used s + int (length (xs @ ys))"
  show "\<exists>t. seq_opt a b s = Some (False, t) \<and> owithin s t"
  proof (cases "os_used s + int (length xs) \<le> os_limit s")
    case False
    then obtain t where "a s = Some (False, t)" "owithin s t"
      using emitter.emit_full [OF a s] n by auto
    then show ?thesis by (simp add: seq_opt_def)
  next
    case True
    then obtain s1 where 1: "a s = Some (True, s1)" "os_noerr s1 = os_noerr (os_put xs s)"
      using s emitter.emit_fits [OF a] by (auto simp: obuf_ok_def)
    have w: "owithin s s1" using owithin_noerr [OF 1(2)] owithin_put [OF True] by blast
    have "os_limit s1 < os_used s1 + int (length ys)"
      using os_noerr_sel [OF 1(2)] os_used_put [OF True] l by (simp add: stream_simps)
    then have "\<exists>t. b s1 = Some (False, t) \<and> owithin s1 t"
      using n owithin_ok [OF w s] by (intro emitter.emit_full [OF b]) auto
    then show ?thesis using 1 w owithin_trans by (fastforce simp: seq_opt_def)
  qed
qed

text \<open>A command that only reports an error emits nothing.\<close>

lemma emitter_error: "emitter (ret_opt (os_return_error msg)) False []"
proof
  fix s :: "'a ostate"
  show "\<exists>t. ret_opt (os_return_error msg) s = Some (False, t) \<and>
      os_noerr t = os_noerr (os_advance (length []) s)"
    by (simp add: ret_opt_def os_return_error_def os_noerr_def os_advance_def)
  show "\<exists>t. ret_opt (os_return_error msg) s = Some (False, t) \<and> os_noerr t = os_noerr (os_put [] s)"
    by (simp add: ret_opt_def os_return_error_def os_noerr_def os_put_def)
  show "obuf_ok s \<Longrightarrow> \<exists>t. ret_opt (os_return_error msg) s = Some (False, t) \<and> owithin s t"
    using owithin_error [of s msg] by (fastforce simp: ret_opt_def os_return_error_def)
qed

lemma emitter_skip: "emitter (\<lambda>s. Some (True, s)) True []"
  by standard (auto simp: os_advance_def os_put_def obuf_ok_def)

lemma bounded_writer_seq:
  assumes "bounded_writer a" "bounded_writer b"
  shows "bounded_writer (seq_opt a b)"
proof
  fix s :: "'a ostate" and ok t
  assume s: "obuf_ok s" and "seq_opt a b s = Some (ok, t)"
  then consider "a s = Some (False, t)" | s' where "a s = Some (True, s')" "b s' = Some (ok, t)"
    by (auto simp: seq_opt_def split: option.splits if_splits)
  then show "owithin s t"
    by cases (meson assms bounded_writer.within bounded_writer.writer_ok s owithin_trans)+
qed

lemma seq_opt_ret_opt: "seq_opt (ret_opt a) (ret_opt b) = ret_opt (seq_ok a b)"
  by (rule ext) (auto simp: seq_opt_def ret_opt_def seq_ok_def split: prod.splits)

section \<open>The primitive encoders meet the contract\<close>

lemma word_gt_iff: "(a :: u64) > b \<longleftrightarrow> uint b < uint a"
  by (simp add: word_less_def)

lemma pb_write_emitter:
  assumes n: "length bs < 2 ^ 64"
  shows "emitter (ret_opt (pb_write env bs (of_nat (length bs)))) True bs"
proof
  fix s :: "'a ostate"
  assume "os_callback (os s) = OC_Null"
  then have "pb_write env bs (of_nat (length bs)) s = (True, os_advance (length bs) s)"
    by (simp add: pb_write_def os_advance_def)
  then show "\<exists>t. ret_opt (pb_write env bs (of_nat (length bs))) s = Some (True, t)
      \<and> os_noerr t = os_noerr (os_advance (length bs) s)"
    by (simp add: ret_opt_def)
next
  fix s :: "'a ostate"
  assume c: "os_callback (os s) = OC_BufWrite" and l: "os_used s + int (length bs) \<le> os_limit s"
  have u: "unat (of_nat (length bs) :: u64) = length bs" using n by (simp add: unat_of_nat)
  have "pb_write env bs (of_nat (length bs)) s = (True, os_put bs s)"
    using c l u uint_add_small [OF l]
    by (simp add: pb_write_def os_call_def buf_write_def os_put_def Let_def word_gt_iff)
  then show "\<exists>t. ret_opt (pb_write env bs (of_nat (length bs))) s = Some (True, t)
      \<and> os_noerr t = os_noerr (os_put bs s)"
    by (simp add: ret_opt_def)
next
  fix s :: "'a ostate"
  assume s: "obuf_ok s" and n: "length bs < 2 ^ 63" and l: "os_limit s < os_used s + int (length bs)"
  have "uint (os_bytes_written (os s)) + int (length bs) \<le> uint (- 1 :: u64)"
    using s n by (simp add: obuf_ok_def unsigned_minus_1_eq_mask mask_eq_exp_minus_1)
  from uint_add_small [OF this] s l
  have "ret_opt (pb_write env bs (of_nat (length bs))) s = Some (os_return_error ''stream full'' s)"
    by (simp add: ret_opt_def pb_write_def obuf_ok_def word_gt_iff)
  then show "\<exists>t. ret_opt (pb_write env bs (of_nat (length bs))) s = Some (False, t) \<and> owithin s t"
    using owithin_error [OF s] by (metis fst_conv os_return_error_def prod.collapse)
qed

text \<open>The base-128 form of a number: groups of seven bits, the lowest first, all but the last
  with the top bit set.\<close>

function varint_bytes :: "u64 \<Rightarrow> u8 list" where
  "varint_bytes v =
     (if v < 128 then [ucast v] else (ucast (take_bit 7 v) OR 0x80) # varint_bytes (drop_bit 7 v))"
  by pat_completeness auto
termination
proof (relation "measure unat")
  fix v :: u64 assume "\<not> v < 128"
  then have "v \<noteq> 0" by auto
  then have "0 < unat v" by (simp add: unat_gt_0)
  then have "unat v div 128 < unat v" by simp
  then show "(drop_bit 7 v, v) \<in> measure unat"
    by (simp add: unat_drop_bit_eq) (simp add: drop_bit_eq_div)
qed simp

declare varint_bytes.simps [simp del]

lemma unat_drop7: "unat (drop_bit 7 v) = unat v div 128" for v :: u64
  by (simp add: unat_drop_bit_eq) (simp add: drop_bit_eq_div)

lemma less128_iff: "v < 128 \<longleftrightarrow> unat v < 128" for v :: u64
  by (simp add: word_less_nat_alt)

lemma drop7_eq_0_iff: "drop_bit 7 v = 0 \<longleftrightarrow> v < 128" for v :: u64
  by (simp add: less128_iff flip: unat_eq_0 add: unat_drop7) (metis div_eq_0_iff zero_neq_numeral)

lemma take7_small: "v < 128 \<Longrightarrow> take_bit 7 v = v" for v :: u64
  by (simp add: word_unat_eq_iff unsigned_take_bit_eq take_bit_nat_eq_self less128_iff)

lemma low7_msb: "(ucast (v AND 0x7F) OR 0x80) AND (0x7F :: u8) = ucast (v AND 0x7F)" for v :: u64
  by (rule bit_word_eqI) (auto simp: bit_simps less_Suc_eq eval_nat_numeral)

lemma varint_bytes_Nil [simp]: "varint_bytes v \<noteq> []"
  by (subst varint_bytes.simps) simp

lemma and_mask7: "v AND 0x7F = take_bit 7 v" for v :: u64
  by (simp add: take_bit_eq_mask mask_eq_exp_minus_1)

text \<open>The loop with its final correction of the last byte computes the base-128 form.\<close>

lemma varint_loop_fixup:
  assumes "v \<noteq> 0"
  shows "(varint_loop v)[length (varint_loop v) - 1 :=
           varint_loop v ! (length (varint_loop v) - 1) AND 0x7F] = varint_bytes v"
  using assms
proof (induction v rule: varint_loop.induct)
  case (1 v)
  let ?w = "drop_bit 7 v" and ?b = "ucast (v AND 0x7F) OR (0x80 :: u8)"
  have unf: "varint_loop v = ?b # varint_loop ?w"
    using "1.prems" by (subst varint_loop.simps) simp
  show ?case
  proof (cases "v < 128")
    case True
    then have "?w = 0" by (simp add: drop7_eq_0_iff)
    then have "varint_loop ?w = []" by (subst varint_loop.simps) simp
    moreover have "take_bit 7 v = v" using True by (rule take7_small)
    ultimately show ?thesis
      using True unf low7_msb [of v] by (simp add: varint_bytes.simps [of v] and_mask7)
  next
    case False
    then have w: "?w \<noteq> 0" by (simp add: drop7_eq_0_iff)
    then have ne: "varint_loop ?w \<noteq> []" by (subst varint_loop.simps) simp
    then obtain n where n: "length (varint_loop ?w) = Suc n" by (cases "varint_loop ?w") auto
    have IH: "(varint_loop ?w)[n := varint_loop ?w ! n AND 0x7F] = varint_bytes ?w"
      using "1.IH" [OF "1.prems" w] n by simp
    show ?thesis
      using False unf n IH by (simp add: varint_bytes.simps [of v] and_mask7)
  qed
qed

lemma pb_encode_varint_eq:
  "pb_encode_varint env v = pb_write env (varint_bytes v) (of_nat (length (varint_bytes v)))"
proof (cases "v \<le> 0x7F")
  case True
  then have "v < 128" by (simp add: word_le_nat_alt less128_iff)
  with True show ?thesis by (simp add: pb_encode_varint_def varint_bytes.simps [of v])
next
  case False
  then have "v \<noteq> 0" by auto
  from varint_loop_fixup [OF this] have "length (varint_loop v) = length (varint_bytes v)"
    by (metis length_list_update)
  with varint_loop_fixup [OF \<open>v \<noteq> 0\<close>] False show ?thesis
    by (simp add: pb_encode_varint_def Let_def)
qed

lemma length_varint_bytes: "unat v < 128 ^ Suc n \<Longrightarrow> length (varint_bytes v) \<le> Suc n"
proof (induction n arbitrary: v)
  case 0
  then show ?case by (subst varint_bytes.simps) (simp add: less128_iff)
next
  case (Suc n)
  then have "unat (drop_bit 7 v) < 128 ^ Suc n" by (simp add: unat_drop7 less_mult_imp_div_less)
  from Suc.IH [OF this] show ?case by (subst varint_bytes.simps) simp
qed

lemma varint_bytes_le_10: "length (varint_bytes v) \<le> 10"
proof -
  have "unat v < 2 ^ 64" using unsigned_less [of v, where 'a = nat] by simp
  then have "unat v < 128 ^ Suc 9" by simp
  from length_varint_bytes [OF this] show ?thesis by simp
qed

interpretation varint: small_emitter "ret_opt (pb_encode_varint env v)" True "varint_bytes v" for env v
proof -
  have "length (varint_bytes v) < 2 ^ 63" using varint_bytes_le_10 [of v] by simp
  moreover from this have "emitter (ret_opt (pb_encode_varint env v)) True (varint_bytes v)"
    unfolding pb_encode_varint_eq by (intro pb_write_emitter) simp
  ultimately show "small_emitter (ret_opt (pb_encode_varint env v)) True (varint_bytes v)"
    by (simp add: small_emitter_def small_emitter_axioms_def)
qed

interpretation svarint: small_emitter "ret_opt (pb_encode_svarint env v)" True "varint_bytes (zigzag v)" for env v
  unfolding pb_encode_svarint_def by (rule varint.small_emitter_axioms)

interpretation tag: small_emitter "ret_opt (pb_encode_tag env wt n)" True "varint_bytes (tag_key wt n)" for env wt n
  unfolding pb_encode_tag_def by (rule varint.small_emitter_axioms)

lemma ucast_and_FF: "ucast (x AND 0xFF) = (ucast x :: u8)" for x :: "'a::len word"
  by (rule bit_word_eqI)
    (auto simp: bit_simps less_Suc_eq eval_nat_numeral dest: bit_imp_le_length)

lemma pb_encode_fixed32_eq:
  "pb_encode_fixed32 env m p = pb_write env (word_to_le 4 (load_le 4 m p :: u32)) (of_nat 4)"
  by (simp add: pb_encode_fixed32_def Let_def ucast_and_FF numeral_eq_Suc)

lemma pb_encode_fixed64_eq:
  "pb_encode_fixed64 env m p = pb_write env (word_to_le 8 (load_le 8 m p :: u64)) (of_nat 8)"
  by (simp add: pb_encode_fixed64_def Let_def ucast_and_FF numeral_eq_Suc)

lemma small_emitterI: "emitter cmd ok bs \<Longrightarrow> length bs < 2 ^ 63 \<Longrightarrow> small_emitter cmd ok bs"
  by (simp add: small_emitter_def small_emitter_axioms_def)

interpretation fixed32: small_emitter "ret_opt (pb_encode_fixed32 env m p)" True
    "word_to_le 4 (load_le 4 m p :: u32)" for env m p
  unfolding pb_encode_fixed32_eq
  by (rule small_emitterI) (use pb_write_emitter [of "word_to_le 4 (load_le 4 m p :: u32)"] in auto)

interpretation fixed64: small_emitter "ret_opt (pb_encode_fixed64 env m p)" True
    "word_to_le 8 (load_le 8 m p :: u64)" for env m p
  unfolding pb_encode_fixed64_eq
  by (rule small_emitterI) (use pb_write_emitter [of "word_to_le 8 (load_le 8 m p :: u64)"] in auto)

lemma pb_encode_string_emitter:
  assumes "length bs < 2 ^ 64"
  shows "emitter (ret_opt (pb_encode_string env bs (of_nat (length bs)))) True
    (varint_bytes (of_nat (length bs)) @ bs)"
  unfolding pb_encode_string_def seq_opt_ret_opt [symmetric]
  by (intro emitter_seq varint.emitter_axioms pb_write_emitter assms)

text \<open>The message key of a field, as the library's callers see it.\<close>

lemma pb_encode_tag_for_field_eq:
  "field_wiretype (ltype f) = Some wt \<Longrightarrow>
   pb_encode_tag_for_field env f = pb_encode_tag env wt (f_tag f)"
  by (simp add: pb_encode_tag_for_field_def)

end
