(* ===== verification/Pb_Common.thy ===== *)
theory Pb_Common
  imports Pb_Types
begin

text \<open>
  The field iterator of \<^verbatim>\<open>nanopb/pb_common.c\<close>. A descriptor array is a list without its
  terminator; \<open>field_at\<close> reads the terminator \<^verbatim>\<open>PB_LAST_FIELD\<close> behind its end. The
  position is the index of the current descriptor, so comparing positions is the source's
  comparison of descriptor pointers.
\<close>

section \<open>The iterator\<close>

record pb_field_iter =
  it_start :: "pb_field list"
  it_pos :: nat
  it_required_field_index :: u32
  it_dest_struct :: addr
  it_pData :: addr
  it_pSize :: addr

definition field_at :: "pb_field list \<Rightarrow> nat \<Rightarrow> pb_field" where
  "field_at flds i = (if i < length flds then flds ! i else PB_LAST_FIELD)"

abbreviation it_field :: "pb_field_iter \<Rightarrow> pb_field" where
  "it_field it \<equiv> field_at (it_start it) (it_pos it)"

definition pb_field_iter_begin :: "pb_field list \<Rightarrow> addr \<Rightarrow> bool \<times> pb_field_iter" where
  "pb_field_iter_begin flds dest_struct =
     (let pos = field_at flds 0;
          pData = dest_struct + uint (f_data_offset pos);
          pSize = pData + sint (f_size_offset pos)
      in (f_tag pos \<noteq> 0,
          \<lparr>it_start = flds, it_pos = 0, it_required_field_index = 0,
           it_dest_struct = dest_struct, it_pData = pData, it_pSize = pSize\<rparr>))"

text \<open>The size of the previous field in the struct, by which the data pointer advances.\<close>

definition iter_prev_size :: "pb_field \<Rightarrow> int" where
  "iter_prev_size prev =
     (if PB_ATYPE (f_type prev) = PB_ATYPE_STATIC \<and> PB_HTYPE (f_type prev) = PB_HTYPE_REPEATED
      then uint (f_data_size prev) * uint (f_array_size prev)
      else if PB_ATYPE (f_type prev) = PB_ATYPE_POINTER then 8
      else uint (f_data_size prev))"

definition pb_field_iter_next :: "pb_field_iter \<Rightarrow> bool \<times> pb_field_iter" where
  "pb_field_iter_next it =
     (let prev = it_field it in
      if f_tag prev = 0 then (False, it)
      else
        let it1 = it\<lparr>it_pos := it_pos it + 1\<rparr>; cur = it_field it1 in
        if f_tag cur = 0
        then (False, snd (pb_field_iter_begin (it_start it) (it_dest_struct it)))
        else if PB_HTYPE (f_type prev) = PB_HTYPE_ONEOF \<and> PB_HTYPE (f_type cur) = PB_HTYPE_ONEOF
             \<and> f_data_offset cur = PB_SIZE_MAX
        then (True, it1)
        else
          let it2 = (if PB_HTYPE (f_type prev) = PB_HTYPE_REQUIRED
                     then it1\<lparr>it_required_field_index := it_required_field_index it1 + 1\<rparr>
                     else it1);
              pData = it_pData it + iter_prev_size prev + uint (f_data_offset cur)
          in (True, it2\<lparr>it_pData := pData, it_pSize := pData + sint (f_size_offset cur)\<rparr>))"

text \<open>
  The search loop \<^verbatim>\<open>do { if (...) return true; pb_field_iter_next(iter); } while (iter->pos != start)\<close>,
  here for any test of the descriptor. It ends within one round of the array
  (\<open>pb_field_iter_find_spec\<close>); \<open>n\<close> bounds the rounds and \<open>None\<close> stands for a loop that has
  not come back.
\<close>

fun iter_find_loop ::
  "nat \<Rightarrow> nat \<Rightarrow> (pb_field \<Rightarrow> bool) \<Rightarrow> pb_field_iter \<Rightarrow> (bool \<times> pb_field_iter) option" where
  "iter_find_loop 0 start P it = None"
| "iter_find_loop (Suc n) start P it =
     (if P (it_field it) then Some (True, it)
      else
        let it' = snd (pb_field_iter_next it) in
        if it_pos it' \<noteq> start then iter_find_loop n start P it' else Some (False, it'))"

definition field_matches :: "u32 \<Rightarrow> pb_field \<Rightarrow> bool" where
  "field_matches tag f \<longleftrightarrow> f_tag f = tag \<and> PB_LTYPE (f_type f) \<noteq> PB_LTYPE_EXTENSION"

definition pb_field_iter_find :: "pb_field_iter \<Rightarrow> u32 \<Rightarrow> (bool \<times> pb_field_iter) option" where
  "pb_field_iter_find it tag =
     iter_find_loop (Suc (length (it_start it))) (it_pos it) (field_matches tag) it"

lemma iter_next_True:
  "pb_field_iter_next it = (True, it') \<Longrightarrow>
   it_pos it' = Suc (it_pos it) \<and> it_start it' = it_start it \<and> it_dest_struct it' = it_dest_struct it
   \<and> it_pos it < length (it_start it)"
  by (auto simp: pb_field_iter_next_def Let_def field_at_def PB_LAST_FIELD_def split: if_splits)

text \<open>
  The \<^verbatim>\<open>do ... while (pb_field_iter_next(&iter))\<close> loop of the encoder and of the
  initialisation code, over a body that may fail or not return.
\<close>

function iter_loop ::
  "(pb_field_iter \<Rightarrow> 's \<Rightarrow> (bool \<times> 's) option) \<Rightarrow> pb_field_iter \<Rightarrow> 's \<Rightarrow> (bool \<times> 's) option" where
  "iter_loop body it =
     seq_opt (body it)
       (let (more, it') = pb_field_iter_next it
        in if more then iter_loop body it' else (\<lambda>s. Some (True, s)))"
  by pat_completeness auto
termination
  by (relation "measure (\<lambda>(body, it). length (it_start it) - it_pos it)")
    (auto dest!: iter_next_True [OF sym])

declare iter_loop.simps [simp del]

section \<open>Canonical positions\<close>

text \<open>The fields in front of the first descriptor with tag 0: what the iterator visits.\<close>

definition live_fields :: "pb_field list \<Rightarrow> pb_field list" where
  "live_fields flds = takeWhile (\<lambda>f. f_tag f \<noteq> 0) flds"

abbreviation nfields :: "pb_field list \<Rightarrow> nat" where
  "nfields flds \<equiv> length (live_fields flds)"

primrec iter_at :: "pb_field list \<Rightarrow> addr \<Rightarrow> nat \<Rightarrow> pb_field_iter" where
  "iter_at flds dest 0 = snd (pb_field_iter_begin flds dest)"
| "iter_at flds dest (Suc i) = snd (pb_field_iter_next (iter_at flds dest i))"

definition iter_ok :: "pb_field_iter \<Rightarrow> bool" where
  "iter_ok it \<longleftrightarrow> (it_pos it = 0 \<or> it_pos it < nfields (it_start it))
     \<and> it = iter_at (it_start it) (it_dest_struct it) (it_pos it)"

lemma live_fieldsD:
  "i < nfields flds \<Longrightarrow> i < length flds \<and> live_fields flds ! i = flds ! i"
  by (metis length_takeWhile_le less_le_trans live_fields_def takeWhile_nth)

lemma field_at_live: "i < nfields flds \<Longrightarrow> field_at flds i = live_fields flds ! i"
  by (simp add: field_at_def live_fieldsD)

lemma tag_live: "i < nfields flds \<Longrightarrow> f_tag (field_at flds i) \<noteq> 0"
  unfolding field_at_live by (metis (mono_tags, lifting) live_fields_def nth_mem set_takeWhileD)

lemma tag_end: "f_tag (field_at flds (nfields flds)) = 0"
proof (cases "nfields flds < length flds")
  case True
  then have "\<not> f_tag (flds ! nfields flds) \<noteq> 0"
    unfolding live_fields_def by (rule nth_length_takeWhile)
  with True show ?thesis by (simp add: field_at_def)
next
  case False
  then show ?thesis by (simp add: field_at_def PB_LAST_FIELD_def)
qed

lemma iter_begin_sel [simp]:
  "it_pos (snd (pb_field_iter_begin flds d)) = 0"
  "it_start (snd (pb_field_iter_begin flds d)) = flds"
  "it_dest_struct (snd (pb_field_iter_begin flds d)) = d"
  "fst (pb_field_iter_begin flds d) = (nfields flds \<noteq> 0)"
  using tag_live [of 0 flds] tag_end [of flds]
  by (auto simp: pb_field_iter_begin_def Let_def)

lemma iter_begin_eq: "pb_field_iter_begin flds d = (nfields flds \<noteq> 0, iter_at flds d 0)"
  by (simp add: prod_eq_iff)

lemma iter_at_sel [simp]:
  "it_start (iter_at flds d i) = flds" "it_dest_struct (iter_at flds d i) = d"
  by (induction i) (auto simp: pb_field_iter_next_def Let_def)

lemma iter_at_pos [simp]: "i = 0 \<or> i < nfields flds \<Longrightarrow> it_pos (iter_at flds d i) = i"
proof (induction i)
  case (Suc i)
  then have "it_pos (iter_at flds d i) = i" "Suc i < nfields flds" by auto
  then show ?case
    using tag_live [of i flds] tag_live [of "Suc i" flds]
    by (simp add: pb_field_iter_next_def Let_def)
qed simp

lemma iter_ok_at: "iter_ok (iter_at flds d i)" if "i = 0 \<or> i < nfields flds"
  using that by (simp add: iter_ok_def)

lemma iter_okE:
  assumes "iter_ok it"
  obtains "it = iter_at (it_start it) (it_dest_struct it) (it_pos it)"
    and "it_pos it = 0 \<or> it_pos it < nfields (it_start it)"
  using assms by (auto simp: iter_ok_def)

lemma iter_next_at:
  assumes "i = 0 \<or> i < nfields flds"
  shows "pb_field_iter_next (iter_at flds d i) =
    (Suc i < nfields flds, iter_at flds d (if Suc i < nfields flds then Suc i else 0))"
proof -
  let ?it = "iter_at flds d i"
  have pos: "it_pos ?it = i" using assms by simp
  show ?thesis
  proof (cases "Suc i < nfields flds")
    case True
    then have "fst (pb_field_iter_next ?it)"
      using tag_live [of i flds] tag_live [of "Suc i" flds] pos
      by (simp add: pb_field_iter_next_def Let_def)
    with True show ?thesis by (simp add: prod_eq_iff)
  next
    case last: False
    show ?thesis
    proof (cases "nfields flds = 0")
      case True
      with assms tag_end [of flds] pos show ?thesis
        by (simp add: pb_field_iter_next_def Let_def)
    next
      case False
      then have "0 < nfields flds" by blast
      with last assms have "Suc i = nfields flds" by arith
      then show ?thesis
        using tag_live [of i flds] tag_end [of flds] pos
        by (simp add: pb_field_iter_next_def Let_def)
    qed
  qed
qed

lemma iter_loop_at:
  assumes "i < nfields flds"
  shows "iter_loop body (iter_at flds d i) =
    seq_opt (body (iter_at flds d i))
      (if Suc i < nfields flds then iter_loop body (iter_at flds d (Suc i)) else (\<lambda>s. Some (True, s)))"
  using assms by (subst iter_loop.simps) (simp add: iter_next_at del: iter_at.simps)

lemma iter_ok_next: "iter_ok it \<Longrightarrow> iter_ok (snd (pb_field_iter_next it))"
proof (elim iter_okE)
  let ?F = "it_start it" and ?d = "it_dest_struct it" and ?i = "it_pos it"
  assume at: "it = iter_at ?F ?d ?i" and i: "?i = 0 \<or> ?i < nfields ?F"
  have "iter_ok (snd (pb_field_iter_next (iter_at ?F ?d ?i)))"
    unfolding iter_next_at [OF i] by (simp add: iter_ok_at)
  then show ?thesis using at by simp
qed

section \<open>Commands that return\<close>

text \<open>\<open>returns\<close>: the command comes back from every state.\<close>

definition returns :: "('s \<Rightarrow> 'r option) \<Rightarrow> bool" where
  "returns c \<longleftrightarrow> (\<forall>s. c s \<noteq> None)"

lemma returnsI: "(\<And>s. \<exists>r. c s = Some r) \<Longrightarrow> returns c"
  by (simp add: returns_def)

lemma returnsD: "returns c \<Longrightarrow> \<exists>r. c s = Some r"
  by (auto simp: returns_def)

named_theorems ret_intros \<open>building blocks that return when their parts do\<close>

lemma returns_Some [ret_intros]: "returns (\<lambda>s. Some (g s))"
  by (simp add: returns_def)

lemma returns_ret_opt [ret_intros]: "returns (ret_opt c)"
  by (simp add: returns_def ret_opt_def)

lemma returns_seq [ret_intros]: "returns a \<Longrightarrow> returns b \<Longrightarrow> returns (seq_opt a b)"
  by (auto simp: returns_def seq_opt_def split: option.splits)

lemma returns_iter_loop:
  assumes "\<And>i. i < nfields flds \<Longrightarrow> returns (body (iter_at flds d i))" and "i < nfields flds"
  shows "returns (iter_loop body (iter_at flds d i))"
  using assms(2)
proof (induction "nfields flds - i" arbitrary: i)
  case (Suc k)
  then have "returns (iter_loop body (iter_at flds d (Suc i)))" if "Suc i < nfields flds"
    using that by (metis Suc_diff_Suc Suc_inject)
  then show ?case
    unfolding iter_loop_at [OF Suc.prems] using assms(1) Suc.prems by (auto intro!: ret_intros)
qed simp

section \<open>The search\<close>

lemma iter_find_loop_spec:
  assumes n: "n = nfields flds" "start < n" "k < n" "n \<le> m + k"
    and none: "\<And>j. j < k \<Longrightarrow> \<not> P (field_at flds ((start + j) mod n))"
  shows "iter_find_loop (Suc m) start P (iter_at flds d ((start + k) mod n)) =
     (if \<exists>j<n. P (field_at flds ((start + j) mod n))
      then Some (True, iter_at flds d
             ((start + (LEAST j. P (field_at flds ((start + j) mod n)))) mod n))
      else Some (False, iter_at flds d start))"
  using n(3,4) none
proof (induction m arbitrary: k)
  case 0
  then show ?case by simp
next
  case (Suc m)
  let ?P = "\<lambda>j. P (field_at flds ((start + j) mod n))"
  let ?p = "(start + k) mod n" and ?q = "(start + Suc k) mod n"
  have "?p < n" using n(2) by simp
  then have p: "?p < nfields flds" using n(1) by simp
  then have pos: "it_pos (iter_at flds d ?p) = ?p" by simp
  have q: "(if Suc ?p < nfields flds then Suc ?p else 0) = ?q"
    using p n(1) by (auto simp: mod_Suc)
  show ?case
  proof (cases "?P k")
    case True
    then have "(LEAST j. ?P j) = k"
      by (rule Least_equality) (use Suc.prems(3) in \<open>metis not_less\<close>)
    moreover have "\<exists>j<n. ?P j" using True Suc.prems(1) by blast
    ultimately show ?thesis
      using True pos by simp
  next
    case False
    have step: "snd (pb_field_iter_next (iter_at flds d ?p)) = iter_at flds d ?q"
      using iter_next_at [of ?p flds d] p q by simp
    have "?q < n" using n(2) by simp
    then have qpos: "it_pos (iter_at flds d ?q) = ?q" using n(1) by simp
    have wrap: "?q = start \<longleftrightarrow> Suc k = n"
    proof
      assume "?q = start"
      then have "(start + Suc k) mod n = (start + 0) mod n" using n(2) by simp
      then have "n dvd Suc k" by (metis add_diff_cancel_left' mod_eq_dvd_iff_nat add_0_right le_add1)
      with Suc.prems(1) show "Suc k = n" by (metis Suc_leI dvd_imp_le le_antisym zero_less_Suc)
    next
      assume "Suc k = n"
      then show "?q = start" using n(2) by simp
    qed
    have none': "\<not> ?P j" if "j < Suc k" for j
      using that Suc.prems(3) False by (metis less_antisym)
    have unf: "iter_find_loop (Suc (Suc m)) start P (iter_at flds d ?p) =
        (if ?q \<noteq> start then iter_find_loop (Suc m) start P (iter_at flds d ?q)
         else Some (False, iter_at flds d ?q))"
      unfolding iter_find_loop.simps(2) [of "Suc m"] Let_def step qpos
      using False pos by auto
    show ?thesis
    proof (cases "Suc k = n")
      case True
      with none' have "\<not> (\<exists>j<n. ?P j)" by blast
      with True wrap unf show ?thesis by simp
    next
      case False
      with Suc.prems(1,2) wrap have "?q \<noteq> start" "Suc k < n" "n \<le> m + Suc k" by auto
      with Suc.IH [of "Suc k"] none' unf show ?thesis by (simp del: iter_find_loop.simps)
    qed
  qed
qed

lemma ex_field_cyclic:
  assumes "start < nfields flds"
  shows "(\<exists>j<nfields flds. P (field_at flds ((start + j) mod nfields flds)))
    \<longleftrightarrow> (\<exists>f\<in>set (live_fields flds). P f)"
proof -
  let ?n = "nfields flds"
  have n: "0 < ?n" using assms by linarith
  have "\<exists>j<?n. (start + j) mod ?n = i" if "i < ?n" for i
  proof (cases "start \<le> i")
    case True
    with that show ?thesis by (intro exI [of _ "i - start"]) auto
  next
    case False
    with that assms show ?thesis
      by (intro exI [of _ "?n + i - start"]) (auto simp: mod_if)
  qed
  moreover have "(start + j) mod ?n < ?n" for j using n by simp
  ultimately show ?thesis
    by (metis field_at_live in_set_conv_nth)
qed

lemma iter_search_spec:
  assumes ok: "iter_ok it" and none: "nfields (it_start it) = 0 \<Longrightarrow> \<not> P (it_field it)"
  shows "\<exists>it'. iter_find_loop (Suc (length (it_start it))) (it_pos it) P it =
      Some (\<exists>f\<in>set (live_fields (it_start it)). P f, it')
    \<and> iter_ok it' \<and> it_start it' = it_start it \<and> it_dest_struct it' = it_dest_struct it
    \<and> (if \<exists>f\<in>set (live_fields (it_start it)). P f
       then it_pos it' < nfields (it_start it) \<and> P (it_field it')
       else it' = it)"
proof -
  let ?F = "it_start it" and ?d = "it_dest_struct it" and ?p = "it_pos it"
  let ?n = "nfields ?F"
  let ?P = "\<lambda>j. P (field_at ?F ((?p + j) mod ?n))"
  have at: "it = iter_at ?F ?d ?p" and p: "?p = 0 \<or> ?p < ?n"
    using ok by (auto simp: iter_ok_def)
  show ?thesis
  proof (cases "?n = 0")
    case True
    then have "live_fields ?F = []" by simp
    moreover have next0: "pb_field_iter_next it = (False, it)"
      using iter_next_at [of ?p ?F ?d] p at True by auto
    ultimately show ?thesis using ok none [OF True] by auto
  next
    case False
    with p have pn: "?p < ?n" by auto
    have len: "?n \<le> length ?F" unfolding live_fields_def by (rule length_takeWhile_le)
    have spec: "iter_find_loop (Suc (length ?F)) ?p P it =
       (if \<exists>j<?n. ?P j then Some (True, iter_at ?F ?d ((?p + (LEAST j. ?P j)) mod ?n))
        else Some (False, it))"
    proof -
      have "iter_find_loop (Suc (length ?F)) ?p P (iter_at ?F ?d ((?p + 0) mod ?n)) =
         (if \<exists>j<?n. ?P j then Some (True, iter_at ?F ?d ((?p + (LEAST j. ?P j)) mod ?n))
          else Some (False, iter_at ?F ?d ?p))"
        by (rule iter_find_loop_spec) (use pn len in auto)
      moreover have "(?p + 0) mod ?n = ?p" using pn by simp
      ultimately show ?thesis
        using at by (simp only:)
    qed
    have ex: "(\<exists>j<?n. ?P j) \<longleftrightarrow> (\<exists>f\<in>set (live_fields ?F). P f)"
      using ex_field_cyclic [OF pn] .
    show ?thesis
    proof (cases "\<exists>j<?n. ?P j")
      case True
      let ?q = "(?p + (LEAST j. ?P j)) mod ?n"
      have "?P (LEAST j. ?P j)" using True by (metis LeastI)
      moreover have "?q < ?n" by (rule mod_less_divisor) (use pn in linarith)
      ultimately show ?thesis using True ex spec by (simp add: iter_ok_at)
    next
      case False
      then show ?thesis using ex spec ok by auto
    qed
  qed
qed

lemma pb_field_iter_find_spec:
  assumes ok: "iter_ok it" and tag: "tag \<noteq> 0"
  shows "\<exists>it'. pb_field_iter_find it tag =
      Some (\<exists>f\<in>set (live_fields (it_start it)). field_matches tag f, it')
    \<and> iter_ok it' \<and> it_start it' = it_start it \<and> it_dest_struct it' = it_dest_struct it
    \<and> (if \<exists>f\<in>set (live_fields (it_start it)). field_matches tag f
       then it_pos it' < nfields (it_start it) \<and> field_matches tag (it_field it')
       else it' = it)"
  unfolding pb_field_iter_find_def
proof (rule iter_search_spec [OF ok])
  assume "nfields (it_start it) = 0"
  moreover from this ok have "it_pos it = 0" by (auto simp: iter_ok_def)
  ultimately have "f_tag (it_field it) = 0" using tag_end [of "it_start it"] by simp
  with tag show "\<not> field_matches tag (it_field it)" by (simp add: field_matches_def)
qed

end
