(* ===== verification/Pb_Encode.thy ===== *)
theory Pb_Encode
  imports Pb_Ostream Pb_Common
begin

text \<open>
  The message encoder of \<^verbatim>\<open>nanopb/pb_encode.c\<close>: field encoders, arrays, the proto3 default
  check, callback and extension fields, submessages and \<^verbatim>\<open>pb_encode\<close> itself.

  The message is read from a memory \<open>m\<close> apart from the output memory. A command returns
  \<open>None\<close> where the C code has no defined result: a call through a null or out-of-range entry
  of \<^verbatim>\<open>PB_ENCODERS\<close>, a \<^verbatim>\<open>pb_size_t\<close> read from the one-byte local \<^verbatim>\<open>implicit_has\<close>, a
  callback that does not return, and nesting deeper than the fuel. The functions that take
  \<open>rec\<close> are the bodies of the mutual recursion through \<^verbatim>\<open>pb_encode\<close>, which \<open>pb_encode\<close> ties
  on its fuel; the fuel bounds the depth of submessages and the length of an extension chain.
\<close>

section \<open>Field encoders\<close>

type_synonym 'w ocmd = "'w ostate \<Rightarrow> (bool \<times> 'w ostate) option"
type_synonym 'w msg_encoder = "pb_field list \<Rightarrow> addr \<Rightarrow> 'w ocmd"

text \<open>The integer at \<open>src\<close>, read at the width \<open>data_size\<close> and extended to 64 bits.\<close>

definition load_signed :: "mem \<Rightarrow> u32 \<Rightarrow> addr \<Rightarrow> u64 option" where
  "load_signed m data_size src =
     (if data_size = 1 then Some (scast (load_le 1 m src :: u8))
      else if data_size = 2 then Some (scast (load_le 2 m src :: u16))
      else if data_size = 4 then Some (scast (load_le 4 m src :: u32))
      else if data_size = 8 then Some (load_le 8 m src)
      else None)"

definition load_unsigned :: "mem \<Rightarrow> u32 \<Rightarrow> addr \<Rightarrow> u64 option" where
  "load_unsigned m data_size src =
     (if data_size = 1 then Some (ucast (load_le 1 m src :: u8))
      else if data_size = 2 then Some (ucast (load_le 2 m src :: u16))
      else if data_size = 4 then Some (ucast (load_le 4 m src :: u32))
      else if data_size = 8 then Some (load_le 8 m src)
      else None)"

definition pb_enc_varint :: "'w oenv \<Rightarrow> mem \<Rightarrow> pb_field \<Rightarrow> addr \<Rightarrow> 'w ostate \<Rightarrow> bool \<times> 'w ostate" where
  "pb_enc_varint env m field src =
     (case load_signed m (f_data_size field) src of
        None \<Rightarrow> os_return_error ''invalid data_size''
      | Some value \<Rightarrow> pb_encode_varint env value)"

definition pb_enc_uvarint :: "'w oenv \<Rightarrow> mem \<Rightarrow> pb_field \<Rightarrow> addr \<Rightarrow> 'w ostate \<Rightarrow> bool \<times> 'w ostate" where
  "pb_enc_uvarint env m field src =
     (case load_unsigned m (f_data_size field) src of
        None \<Rightarrow> os_return_error ''invalid data_size''
      | Some value \<Rightarrow> pb_encode_varint env value)"

definition pb_enc_svarint :: "'w oenv \<Rightarrow> mem \<Rightarrow> pb_field \<Rightarrow> addr \<Rightarrow> 'w ostate \<Rightarrow> bool \<times> 'w ostate" where
  "pb_enc_svarint env m field src =
     (case load_signed m (f_data_size field) src of
        None \<Rightarrow> os_return_error ''invalid data_size''
      | Some value \<Rightarrow> pb_encode_svarint env value)"

definition pb_enc_fixed64 :: "'w oenv \<Rightarrow> mem \<Rightarrow> pb_field \<Rightarrow> addr \<Rightarrow> 'w ostate \<Rightarrow> bool \<times> 'w ostate" where
  "pb_enc_fixed64 env m field src = pb_encode_fixed64 env m src"

definition pb_enc_fixed32 :: "'w oenv \<Rightarrow> mem \<Rightarrow> pb_field \<Rightarrow> addr \<Rightarrow> 'w ostate \<Rightarrow> bool \<times> 'w ostate" where
  "pb_enc_fixed32 env m field src = pb_encode_fixed32 env m src"

definition pb_enc_bytes :: "'w oenv \<Rightarrow> mem \<Rightarrow> pb_field \<Rightarrow> addr \<Rightarrow> 'w ostate \<Rightarrow> bool \<times> 'w ostate" where
  "pb_enc_bytes env m field src =
     (if src = 0 then pb_encode_string env [] 0
      else
        let sz = bytes_size m src in
        if PB_ATYPE (f_type field) = PB_ATYPE_STATIC
           \<and> PB_BYTES_ARRAY_T_ALLOCSIZE sz > ucast (f_data_size field)
        then os_return_error ''bytes size exceeded''
        else pb_encode_string env (mem_read m (bytes_bytes src) (unat sz)) (ucast sz))"

text \<open>The \<^verbatim>\<open>strnlen\<close> loop of \<^verbatim>\<open>pb_enc_string\<close>.\<close>

function strlen_loop :: "mem \<Rightarrow> u64 \<Rightarrow> addr \<Rightarrow> u64 \<Rightarrow> u64" where
  "strlen_loop m max_size p sz =
     (if sz < max_size \<and> m p \<noteq> 0 then strlen_loop m max_size (p + 1) (sz + 1) else sz)"
  by pat_completeness auto
termination
proof (relation "measure (\<lambda>(m, max_size, p, sz). unat max_size - unat sz)")
  fix m :: mem and p :: addr and max_size sz :: u64
  assume "sz < max_size \<and> m p \<noteq> 0"
  then show "((m, max_size, p + 1, sz + 1), (m, max_size, p, sz))
      \<in> measure (\<lambda>(m, max_size, p, sz). unat max_size - unat sz)"
    using unat_add_one [of sz max_size] by (auto simp: word_less_nat_alt)
qed simp

declare strlen_loop.simps [simp del]

definition pb_enc_string :: "'w oenv \<Rightarrow> mem \<Rightarrow> pb_field \<Rightarrow> addr \<Rightarrow> 'w ostate \<Rightarrow> bool \<times> 'w ostate" where
  "pb_enc_string env m field src =
     (let max_size = (if PB_ATYPE (f_type field) = PB_ATYPE_POINTER then - 1
                      else ucast (f_data_size field));
          sz = (if src = 0 then 0 else strlen_loop m max_size src 0)
      in pb_encode_string env (mem_read m src (unat sz)) sz)"

definition pb_enc_fixed_length_bytes ::
  "'w oenv \<Rightarrow> mem \<Rightarrow> pb_field \<Rightarrow> addr \<Rightarrow> 'w ostate \<Rightarrow> bool \<times> 'w ostate" where
  "pb_enc_fixed_length_bytes env m field src =
     pb_encode_string env (mem_read m src (unat (f_data_size field))) (ucast (f_data_size field))"

section \<open>Submessages\<close>

text \<open>A command on another stream: the stream of the state is put aside and restored.\<close>

definition on_stream ::
  "pb_ostream \<Rightarrow> 'w ocmd \<Rightarrow> 'w ostate \<Rightarrow> (bool \<times> pb_ostream \<times> 'w ostate) option" where
  "on_stream sub cmd s =
     (case cmd (s\<lparr>os := sub\<rparr>) of None \<Rightarrow> None
      | Some (ok, t) \<Rightarrow> Some (ok, os t, t\<lparr>os := os s\<rparr>))"

text \<open>The second pass of \<^verbatim>\<open>pb_encode_submessage\<close>, into a substream of the size found.\<close>

definition encode_sized :: "'w ocmd \<Rightarrow> u64 \<Rightarrow> 'w ocmd" where
  "encode_sized cmd sz s =
     (case on_stream \<lparr>os_callback = os_callback (os s), os_state = os_state (os s),
                       os_max_size = sz, os_bytes_written = 0, os_errmsg = None\<rparr> cmd s of
        None \<Rightarrow> None
      | Some (status, sub, t) \<Rightarrow>
          let u = t\<lparr>os := (os t)\<lparr>os_bytes_written := os_bytes_written (os t) + os_bytes_written sub,
                                  os_state := os_state sub, os_errmsg := os_errmsg sub\<rparr>\<rparr>
          in if os_bytes_written sub \<noteq> sz
             then Some (os_return_error ''submsg size changed'' u)
             else Some (status, u))"

definition pb_encode_submessage ::
  "'w msg_encoder \<Rightarrow> 'w oenv \<Rightarrow> pb_field list \<Rightarrow> addr \<Rightarrow> 'w ocmd" where
  "pb_encode_submessage rec env flds src s =
     (case on_stream PB_OSTREAM_SIZING (rec flds src) s of
        None \<Rightarrow> None
      | Some (False, sub, t) \<Rightarrow> Some (False, t\<lparr>os := (os t)\<lparr>os_errmsg := os_errmsg sub\<rparr>\<rparr>)
      | Some (True, sub, t) \<Rightarrow>
          let sz = os_bytes_written sub in
          seq_opt (ret_opt (pb_encode_varint env sz))
            (\<lambda>t. if os_callback (os t) = OC_Null then Some (pb_write env [] sz t)
                 else if os_bytes_written (os t) + sz > os_max_size (os t)
                 then Some (os_return_error ''stream full'' t)
                 else encode_sized (rec flds src) sz t) t)"

definition pb_enc_submessage :: "'w msg_encoder \<Rightarrow> 'w oenv \<Rightarrow> pb_field \<Rightarrow> addr \<Rightarrow> 'w ocmd" where
  "pb_enc_submessage rec env field src =
     (if f_ptr field = 0 then ret_opt (os_return_error ''invalid field descriptor'')
      else pb_encode_submessage rec env (oe_fields env (f_ptr field)) src)"

text \<open>The entries of \<^verbatim>\<open>PB_ENCODERS\<close>, and a call through one of them.\<close>

datatype encoder = Enc_varint | Enc_uvarint | Enc_svarint | Enc_fixed32 | Enc_fixed64
  | Enc_bytes | Enc_string | Enc_submessage | Enc_null | Enc_fixed_length_bytes

definition PB_ENCODERS :: "encoder list" where
  "PB_ENCODERS = [Enc_varint, Enc_uvarint, Enc_svarint, Enc_fixed32, Enc_fixed64,
     Enc_bytes, Enc_string, Enc_submessage, Enc_null, Enc_fixed_length_bytes]"

primrec call_encoder ::
  "'w msg_encoder \<Rightarrow> 'w oenv \<Rightarrow> mem \<Rightarrow> encoder \<Rightarrow> pb_field \<Rightarrow> addr \<Rightarrow> 'w ocmd" where
  "call_encoder rec env m Enc_varint field src = ret_opt (pb_enc_varint env m field src)"
| "call_encoder rec env m Enc_uvarint field src = ret_opt (pb_enc_uvarint env m field src)"
| "call_encoder rec env m Enc_svarint field src = ret_opt (pb_enc_svarint env m field src)"
| "call_encoder rec env m Enc_fixed32 field src = ret_opt (pb_enc_fixed32 env m field src)"
| "call_encoder rec env m Enc_fixed64 field src = ret_opt (pb_enc_fixed64 env m field src)"
| "call_encoder rec env m Enc_bytes field src = ret_opt (pb_enc_bytes env m field src)"
| "call_encoder rec env m Enc_string field src = ret_opt (pb_enc_string env m field src)"
| "call_encoder rec env m Enc_submessage field src = pb_enc_submessage rec env field src"
| "call_encoder rec env m Enc_null field src = (\<lambda>s. None)"
| "call_encoder rec env m Enc_fixed_length_bytes field src =
     ret_opt (pb_enc_fixed_length_bytes env m field src)"

section \<open>Arrays\<close>

text \<open>The loop over the entries of an array, \<open>data_size\<close> apart.\<close>

primrec array_loop :: "(addr \<Rightarrow> 'w ocmd) \<Rightarrow> u32 \<Rightarrow> nat \<Rightarrow> addr \<Rightarrow> 'w ocmd" where
  "array_loop f data_size 0 p = (\<lambda>s. Some (True, s))"
| "array_loop f data_size (Suc n) p = seq_opt (f p) (array_loop f data_size n (p + uint data_size))"

text \<open>The total size of a packed array: computed, or counted on a sizing stream.\<close>

definition packed_size ::
  "(addr \<Rightarrow> 'w ocmd) \<Rightarrow> pb_field \<Rightarrow> u64 \<Rightarrow> addr \<Rightarrow> 'w ostate \<Rightarrow> (u64 option \<times> 'w ostate) option" where
  "packed_size func field count pData s =
     (if PB_LTYPE (f_type field) = PB_LTYPE_FIXED32 then Some (Some (4 * count), s)
      else if PB_LTYPE (f_type field) = PB_LTYPE_FIXED64 then Some (Some (8 * count), s)
      else
        case on_stream PB_OSTREAM_SIZING (array_loop func (f_data_size field) (unat count) pData) s of
          None \<Rightarrow> None
        | Some (ok, sub, t) \<Rightarrow> Some (if ok then Some (os_bytes_written sub) else None, t))"

definition encode_packed ::
  "'w oenv \<Rightarrow> (addr \<Rightarrow> 'w ocmd) \<Rightarrow> pb_field \<Rightarrow> u64 \<Rightarrow> addr \<Rightarrow> 'w ocmd" where
  "encode_packed env func field count pData s =
     (case packed_size func field count pData s of
        None \<Rightarrow> None
      | Some (None, t) \<Rightarrow> Some (False, t)
      | Some (Some sz, t) \<Rightarrow>
          seq_opt (ret_opt (pb_encode_varint env sz))
            (\<lambda>t. if os_callback (os t) = OC_Null then Some (pb_write env [] sz t)
                 else array_loop func (f_data_size field) (unat count) pData t) t)"

text \<open>The address the encoder of an unpacked entry is given.\<close>

definition array_entry :: "mem \<Rightarrow> pb_field \<Rightarrow> addr \<Rightarrow> addr" where
  "array_entry m field p =
     (if PB_ATYPE (f_type field) = PB_ATYPE_POINTER
         \<and> (PB_LTYPE (f_type field) = PB_LTYPE_STRING \<or> PB_LTYPE (f_type field) = PB_LTYPE_BYTES)
      then load_ptr m p else p)"

definition encode_array ::
  "'w oenv \<Rightarrow> mem \<Rightarrow> pb_field \<Rightarrow> addr \<Rightarrow> u64 \<Rightarrow> (pb_field \<Rightarrow> addr \<Rightarrow> 'w ocmd) \<Rightarrow> 'w ocmd" where
  "encode_array env m field pData count func =
     (if count = 0 then (\<lambda>s. Some (True, s))
      else if PB_ATYPE (f_type field) \<noteq> PB_ATYPE_POINTER \<and> count > ucast (f_array_size field)
      then ret_opt (os_return_error ''array max size exceeded'')
      else if PB_LTYPE (f_type field) \<le> PB_LTYPE_LAST_PACKABLE
      then seq_opt (ret_opt (pb_encode_tag env PB_WT_STRING (f_tag field)))
             (encode_packed env (func field) field count pData)
      else array_loop
             (\<lambda>p. seq_opt (ret_opt (pb_encode_tag_for_field env field))
                     (func field (array_entry m field p)))
             (f_data_size field) (unat count) pData)"

section \<open>Fields\<close>

text \<open>
  \<^verbatim>\<open>pb_check_proto3_default_value\<close>; the fuel bounds the depth of static submessages.
\<close>

definition all_zero :: "mem \<Rightarrow> addr \<Rightarrow> u32 \<Rightarrow> bool" where
  "all_zero m p n = list_all (\<lambda>b. b = 0) (mem_read m p (unat n))"

fun pb_check_proto3_default_value ::
  "nat \<Rightarrow> (addr \<Rightarrow> pb_field list) \<Rightarrow> mem \<Rightarrow> pb_field \<Rightarrow> addr \<Rightarrow> bool option" where
  "pb_check_proto3_default_value 0 desc m field pData = None"
| "pb_check_proto3_default_value (Suc n) desc m field pData =
     (if PB_ATYPE (f_type field) = PB_ATYPE_STATIC \<and> PB_LTYPE (f_type field) = PB_LTYPE_BYTES
      then Some (bytes_size m pData = 0)
      else if PB_ATYPE (f_type field) = PB_ATYPE_STATIC \<and> PB_LTYPE (f_type field) = PB_LTYPE_STRING
      then Some (m pData = 0)
      else if PB_ATYPE (f_type field) = PB_ATYPE_STATIC
              \<and> PB_LTYPE (f_type field) = PB_LTYPE_FIXED_LENGTH_BYTES
      then Some (f_data_size field = 0)
      else if PB_ATYPE (f_type field) = PB_ATYPE_STATIC
              \<and> PB_LTYPE (f_type field) = PB_LTYPE_SUBMESSAGE
      then let (begun, iter) = pb_field_iter_begin (desc (f_ptr field)) pData in
           if begun
           then map_option fst (iter_loop
                  (\<lambda>it (u::unit). map_option (\<lambda>b. (b, u))
                     (pb_check_proto3_default_value n desc m (it_field it) (it_pData it))) iter ())
           else Some True
      else Some (all_zero m pData (f_data_size field)))"

text \<open>The presence test of \<^verbatim>\<open>encode_basic_field\<close>: \<^verbatim>\<open>implicit_has\<close> before the pointer is followed.\<close>

definition implicit_has ::
  "nat \<Rightarrow> 'w oenv \<Rightarrow> mem \<Rightarrow> pb_field \<Rightarrow> addr \<Rightarrow> bool option" where
  "implicit_has n env m field pData =
     (if f_size_offset field \<noteq> 0 then Some False
      else if PB_HTYPE (f_type field) = PB_HTYPE_OPTIONAL
      then map_option Not (pb_check_proto3_default_value n (oe_fields env) m field pData)
      else Some True)"

definition encode_basic_field ::
  "nat \<Rightarrow> 'w msg_encoder \<Rightarrow> 'w oenv \<Rightarrow> mem \<Rightarrow> pb_field \<Rightarrow> addr \<Rightarrow> 'w ocmd" where
  "encode_basic_field n rec env m field pData0 =
     (if length PB_ENCODERS \<le> unat (PB_LTYPE (f_type field)) then (\<lambda>s. None)
      else case implicit_has n env m field pData0 of None \<Rightarrow> (\<lambda>s. None)
      | Some has0 \<Rightarrow>
      (let func = call_encoder rec env m (PB_ENCODERS ! unat (PB_LTYPE (f_type field)));
           pSize = pData0 + sint (f_size_offset field);
           is_ptr = PB_ATYPE (f_type field) = PB_ATYPE_POINTER;
           pData = (if is_ptr then load_ptr m pData0 else pData0);
           has = (if is_ptr then pData \<noteq> 0 else has0);
           emit = seq_opt (ret_opt (pb_encode_tag_for_field env field)) (func field pData)
       in if PB_HTYPE (f_type field) = PB_HTYPE_REQUIRED then
            if pData = 0 then ret_opt (os_return_error ''missing required field'') else emit
          else if PB_HTYPE (f_type field) = PB_HTYPE_OPTIONAL then
            if (if f_size_offset field \<noteq> 0 then m pSize \<noteq> 0 else has) then emit
            else (\<lambda>s. Some (True, s))
          else if f_size_offset field = 0 then (\<lambda>s. None)
          else if PB_HTYPE (f_type field) = PB_HTYPE_REPEATED then
            encode_array env m field pData (ucast (load_le 4 m pSize :: u32)) func
          else
            if (load_le 4 m pSize :: u32) = f_tag field then emit else (\<lambda>s. Some (True, s))))"

definition encode_callback_field :: "'w oenv \<Rightarrow> mem \<Rightarrow> pb_field \<Rightarrow> addr \<Rightarrow> 'w ocmd" where
  "encode_callback_field env m field pData s =
     (if callback_funcs m pData \<noteq> 0 then
        case oe_encode env (callback_funcs m pData) field (callback_arg pData) s of
          None \<Rightarrow> None
        | Some (ok, t) \<Rightarrow> if \<not> ok then Some (os_return_error ''callback error'' t) else Some (True, t)
      else Some (True, s))"

definition encode_field ::
  "nat \<Rightarrow> 'w msg_encoder \<Rightarrow> 'w oenv \<Rightarrow> mem \<Rightarrow> pb_field \<Rightarrow> addr \<Rightarrow> 'w ocmd" where
  "encode_field n rec env m field pData =
     (if PB_ATYPE (f_type field) = PB_ATYPE_STATIC \<or> PB_ATYPE (f_type field) = PB_ATYPE_POINTER
      then encode_basic_field n rec env m field pData
      else if PB_ATYPE (f_type field) = PB_ATYPE_CALLBACK
      then encode_callback_field env m field pData
      else ret_opt (os_return_error ''invalid field type''))"

definition default_extension_encoder ::
  "nat \<Rightarrow> 'w msg_encoder \<Rightarrow> 'w oenv \<Rightarrow> mem \<Rightarrow> addr \<Rightarrow> 'w ocmd" where
  "default_extension_encoder n rec env m extension =
     (let field = et_arg (oe_ext_type env (ext_type m extension)) in
      if PB_ATYPE (f_type field) = PB_ATYPE_POINTER
      then encode_field n rec env m field (ext_dest extension)
      else encode_field n rec env m field (load_ptr m (ext_dest extension)))"

text \<open>One extension of the chain, and the walk along \<^verbatim>\<open>next\<close>.\<close>

definition encode_extension ::
  "nat \<Rightarrow> 'w msg_encoder \<Rightarrow> 'w oenv \<Rightarrow> mem \<Rightarrow> addr \<Rightarrow> 'w ocmd" where
  "encode_extension n rec env m extension =
     (let t = oe_ext_type env (ext_type m extension) in
      if et_encode t \<noteq> 0 then oe_ext_encode env (et_encode t) extension
      else default_extension_encoder n rec env m extension)"

fun extension_loop :: "nat \<Rightarrow> (addr \<Rightarrow> 'w ocmd) \<Rightarrow> mem \<Rightarrow> addr \<Rightarrow> 'w ocmd" where
  "extension_loop 0 one m extension = (if extension = 0 then (\<lambda>s. Some (True, s)) else (\<lambda>s. None))"
| "extension_loop (Suc k) one m extension =
     (if extension = 0 then (\<lambda>s. Some (True, s))
      else seq_opt (one extension) (extension_loop k one m (ext_next m extension)))"

definition encode_extension_field ::
  "nat \<Rightarrow> 'w msg_encoder \<Rightarrow> 'w oenv \<Rightarrow> mem \<Rightarrow> pb_field \<Rightarrow> addr \<Rightarrow> 'w ocmd" where
  "encode_extension_field n rec env m field pData =
     extension_loop n (encode_extension n rec env m) m (load_ptr m pData)"

section \<open>Messages\<close>

definition encode_one ::
  "nat \<Rightarrow> 'w msg_encoder \<Rightarrow> 'w oenv \<Rightarrow> mem \<Rightarrow> pb_field_iter \<Rightarrow> 'w ocmd" where
  "encode_one n rec env m it =
     (if PB_LTYPE (f_type (it_field it)) = PB_LTYPE_EXTENSION
      then encode_extension_field n rec env m (it_field it) (it_pData it)
      else encode_field n rec env m (it_field it) (it_pData it))"

primrec pb_encode :: "nat \<Rightarrow> 'w oenv \<Rightarrow> mem \<Rightarrow> 'w msg_encoder" where
  "pb_encode 0 env m = (\<lambda>flds src s. None)"
| "pb_encode (Suc n) env m = (\<lambda>flds src.
     let (begun, iter) = pb_field_iter_begin flds src in
     if begun then iter_loop (encode_one (Suc n) (pb_encode n env m) env m) iter
     else (\<lambda>s. Some (True, s)))"

definition pb_encode_delimited :: "nat \<Rightarrow> 'w oenv \<Rightarrow> mem \<Rightarrow> 'w msg_encoder" where
  "pb_encode_delimited n env m flds src = pb_encode_submessage (pb_encode n env m) env flds src"

text \<open>\<^verbatim>\<open>pb_get_encoded_size\<close>: the size where the call succeeds.\<close>

definition pb_get_encoded_size ::
  "nat \<Rightarrow> 'w oenv \<Rightarrow> mem \<Rightarrow> pb_field list \<Rightarrow> addr \<Rightarrow> 'w ostate \<Rightarrow> (u64 option \<times> 'w ostate) option" where
  "pb_get_encoded_size n env m flds src s =
     (case on_stream PB_OSTREAM_SIZING (pb_encode n env m flds src) s of
        None \<Rightarrow> None
      | Some (ok, sub, t) \<Rightarrow> Some (if ok then Some (os_bytes_written sub) else None, t))"

end
