(* ===== verification/Pb_Encode_Spec.thy ===== *)
theory Pb_Encode_Spec
  imports Pb_Encode
begin

text \<open>
  What the encoder promises: the bytes of a message as a function of its descriptors and its
  memory, without streams, buffers, sizing passes and errors of the output, and the proof
  that the encoder of \<^verbatim>\<open>nanopb/pb_encode.c\<close> implements it on sizing and on buffer streams.
\<close>

section \<open>The byte-level specification\<close>

text \<open>
  A specification gives the returned boolean and the bytes appended before returning;
  \<open>None\<close> is no promise.
\<close>

type_synonym espec = "(bool \<times> u8 list) option"

fun spec_seq :: "espec \<Rightarrow> espec \<Rightarrow> espec" where
  "spec_seq None y = None"
| "spec_seq (Some (False, xs)) y = Some (False, xs)"
| "spec_seq (Some (True, xs)) y = map_option (\<lambda>(ok, ys). (ok, xs @ ys)) y"

definition spec_all :: "espec list \<Rightarrow> espec" where
  "spec_all xs = foldr spec_seq xs (Some (True, []))"

lemma spec_all_simps [simp]:
  "spec_all [] = Some (True, [])" "spec_all (x # xs) = spec_seq x (spec_all xs)"
  by (simp_all add: spec_all_def)

definition delimited :: "u8 list \<Rightarrow> u8 list" where
  "delimited bs = varint_bytes (of_nat (length bs)) @ bs"

text \<open>A nested message: nothing is written when it cannot be sized.\<close>

fun spec_delim :: "espec \<Rightarrow> espec" where
  "spec_delim None = None"
| "spec_delim (Some (False, bs)) = Some (False, [])"
| "spec_delim (Some (True, bs)) = (if int (length bs) < 2 ^ 63 then Some (True, delimited bs) else None)"

definition spec_varint :: "u64 option \<Rightarrow> espec" where
  "spec_varint v = Some (case v of None \<Rightarrow> (False, []) | Some x \<Rightarrow> (True, varint_bytes x))"

definition c_string :: "mem \<Rightarrow> addr \<Rightarrow> nat \<Rightarrow> u8 list" where
  "c_string m p n = takeWhile (\<lambda>b. b \<noteq> 0) (mem_read m p n)"

primrec spec_value ::
  "(pb_field list \<Rightarrow> addr \<Rightarrow> espec) \<Rightarrow> 'w oenv \<Rightarrow> mem \<Rightarrow> encoder \<Rightarrow> pb_field \<Rightarrow> addr \<Rightarrow> espec" where
  "spec_value sub env m Enc_varint f p = spec_varint (load_signed m (f_data_size f) p)"
| "spec_value sub env m Enc_uvarint f p = spec_varint (load_unsigned m (f_data_size f) p)"
| "spec_value sub env m Enc_svarint f p = spec_varint (map_option zigzag (load_signed m (f_data_size f) p))"
| "spec_value sub env m Enc_fixed32 f p = Some (True, mem_read m p 4)"
| "spec_value sub env m Enc_fixed64 f p = Some (True, mem_read m p 8)"
| "spec_value sub env m Enc_bytes f p =
     (if p = 0 then Some (True, delimited [])
      else if atype f = PB_ATYPE_STATIC \<and> unat (f_data_size f) < unat (bytes_size m p) + 4
      then Some (False, [])
      else Some (True, delimited (mem_read m (bytes_bytes p) (unat (bytes_size m p)))))"
| "spec_value sub env m Enc_string f p =
     Some (True, delimited (if p = 0 then []
       else c_string m p (if atype f = PB_ATYPE_POINTER then 2 ^ 64 - 1 else unat (f_data_size f))))"
| "spec_value sub env m Enc_submessage f p =
     (if f_ptr f = 0 then Some (False, []) else spec_delim (sub (oe_fields env (f_ptr f)) p))"
| "spec_value sub env m Enc_null f p = None"
| "spec_value sub env m Enc_fixed_length_bytes f p =
     Some (True, delimited (mem_read m p (unat (f_data_size f))))"

text \<open>The key in front of a value, and a key with its value.\<close>

definition spec_key :: "pb_field \<Rightarrow> espec" where
  "spec_key f = Some (case field_wiretype (ltype f) of
     None \<Rightarrow> (False, []) | Some wt \<Rightarrow> (True, varint_bytes (tag_key wt (f_tag f))))"

definition entries :: "pb_field \<Rightarrow> nat \<Rightarrow> addr \<Rightarrow> addr list" where
  "entries f n p = map (\<lambda>i. p + int i * uint (f_data_size f)) [0..<n]"

definition spec_array :: "mem \<Rightarrow> (addr \<Rightarrow> espec) \<Rightarrow> pb_field \<Rightarrow> addr \<Rightarrow> nat \<Rightarrow> espec" where
  "spec_array m val f p n =
     (if n = 0 then Some (True, [])
      else if atype f \<noteq> PB_ATYPE_POINTER \<and> unat (f_array_size f) < n then Some (False, [])
      else if ltype f \<le> PB_LTYPE_LAST_PACKABLE
      then spec_seq (Some (True, varint_bytes (tag_key PB_WT_STRING (f_tag f))))
             (spec_delim (spec_all (map val (entries f n p))))
      else spec_all (map (\<lambda>q. spec_seq (spec_key f) (val (array_entry m f q))) (entries f n p)))"

definition spec_basic ::
  "nat \<Rightarrow> (pb_field list \<Rightarrow> addr \<Rightarrow> espec) \<Rightarrow> 'w oenv \<Rightarrow> mem \<Rightarrow> pb_field \<Rightarrow> addr \<Rightarrow> espec" where
  "spec_basic n sub env m f p =
     (if length PB_ENCODERS \<le> unat (ltype f) then None
      else case implicit_has n env m f p of None \<Rightarrow> None
      | Some has0 \<Rightarrow>
      (let val = spec_value sub env m (PB_ENCODERS ! unat (ltype f)) f;
           q = (if atype f = PB_ATYPE_POINTER then load_ptr m p else p);
           psize = p + sint (f_size_offset f);
           present =
             (if htype f = PB_HTYPE_OPTIONAL then
                if f_size_offset f \<noteq> 0 then m psize \<noteq> 0
                else if atype f = PB_ATYPE_POINTER then q \<noteq> 0 else has0
              else (load_le 4 m psize :: u32) = f_tag f)
       in if htype f = PB_HTYPE_REQUIRED
          then if q = 0 then Some (False, []) else spec_seq (spec_key f) (val q)
          else if htype f \<noteq> PB_HTYPE_OPTIONAL \<and> f_size_offset f = 0 then None
          else if htype f = PB_HTYPE_REPEATED
          then spec_array m val f q (unat (load_le 4 m psize :: u32))
          else if present then spec_seq (spec_key f) (val q) else Some (True, [])))"

text \<open>Callbacks of the application promise bytes too; \<open>cb\<close> and \<open>xcb\<close> say which.\<close>

type_synonym cb_spec = "addr \<Rightarrow> pb_field \<Rightarrow> addr \<Rightarrow> espec"
type_synonym xcb_spec = "addr \<Rightarrow> addr \<Rightarrow> espec"

definition spec_field ::
  "cb_spec \<Rightarrow> nat \<Rightarrow> (pb_field list \<Rightarrow> addr \<Rightarrow> espec) \<Rightarrow> 'w oenv \<Rightarrow> mem \<Rightarrow> pb_field \<Rightarrow> addr \<Rightarrow> espec" where
  "spec_field cb n sub env m f p =
     (if atype f = PB_ATYPE_STATIC \<or> atype f = PB_ATYPE_POINTER then spec_basic n sub env m f p
      else if atype f = PB_ATYPE_CALLBACK
      then if callback_funcs m p = 0 then Some (True, []) else cb (callback_funcs m p) f (callback_arg p)
      else Some (False, []))"

definition spec_extension ::
  "cb_spec \<Rightarrow> xcb_spec \<Rightarrow> nat \<Rightarrow> (pb_field list \<Rightarrow> addr \<Rightarrow> espec) \<Rightarrow> 'w oenv \<Rightarrow> mem \<Rightarrow> addr \<Rightarrow> espec" where
  "spec_extension cb xcb n sub env m e =
     (let t = oe_ext_type env (ext_type m e); f = et_arg t in
      if et_encode t \<noteq> 0 then xcb (et_encode t) e
      else spec_field cb n sub env m f
             (if atype f = PB_ATYPE_POINTER then ext_dest e else load_ptr m (ext_dest e)))"

fun spec_chain :: "nat \<Rightarrow> (addr \<Rightarrow> espec) \<Rightarrow> mem \<Rightarrow> addr \<Rightarrow> espec" where
  "spec_chain 0 one m e = (if e = 0 then Some (True, []) else None)"
| "spec_chain (Suc k) one m e =
     (if e = 0 then Some (True, []) else spec_seq (one e) (spec_chain k one m (ext_next m e)))"

definition spec_one ::
  "cb_spec \<Rightarrow> xcb_spec \<Rightarrow> nat \<Rightarrow> (pb_field list \<Rightarrow> addr \<Rightarrow> espec) \<Rightarrow> 'w oenv \<Rightarrow> mem \<Rightarrow> pb_field_iter \<Rightarrow> espec" where
  "spec_one cb xcb n sub env m it =
     (if ltype (it_field it) = PB_LTYPE_EXTENSION
      then spec_chain n (spec_extension cb xcb n sub env m) m (load_ptr m (it_pData it))
      else spec_field cb n sub env m (it_field it) (it_pData it))"

primrec spec_message ::
  "nat \<Rightarrow> cb_spec \<Rightarrow> xcb_spec \<Rightarrow> 'w oenv \<Rightarrow> mem \<Rightarrow> pb_field list \<Rightarrow> addr \<Rightarrow> espec" where
  "spec_message 0 cb xcb env m = (\<lambda>flds src. None)"
| "spec_message (Suc n) cb xcb env m = (\<lambda>flds src.
     spec_all (map (\<lambda>i. spec_one cb xcb (Suc n) (spec_message n cb xcb env m) env m (iter_at flds src i))
       [0..<nfields flds]))"

section \<open>Refinement\<close>

definition implements :: "'w ocmd \<Rightarrow> espec \<Rightarrow> bool" where
  "implements cmd sp \<longleftrightarrow> (\<forall>ok bs. sp = Some (ok, bs) \<longrightarrow> emitter cmd ok bs)"

lemma implementsI: "(\<And>ok bs. sp = Some (ok, bs) \<Longrightarrow> emitter cmd ok bs) \<Longrightarrow> implements cmd sp"
  by (simp add: implements_def)

lemma implementsD: "implements cmd sp \<Longrightarrow> sp = Some (ok, bs) \<Longrightarrow> emitter cmd ok bs"
  by (simp add: implements_def)

lemma implements_None [simp]: "implements cmd None"
  by (simp add: implements_def)

lemma implements_Some [simp]: "implements cmd (Some (ok, bs)) \<longleftrightarrow> emitter cmd ok bs"
  by (simp add: implements_def)

lemma implements_skip [simp]: "emitter (\<lambda>s. Some (True, s)) True []"
  by (rule emitter_skip)

lemma implements_seq:
  assumes a: "implements a x" and b: "implements b y"
  shows "implements (seq_opt a b) (spec_seq x y)"
proof (rule implementsI)
  fix ok bs
  assume sp: "spec_seq x y = Some (ok, bs)"
  then obtain k xs where x: "x = Some (k, xs)" by (cases x) auto
  have xa: "emitter a k xs" by (rule implementsD [OF a x])
  show "emitter (seq_opt a b) ok bs"
  proof (cases k)
    case True
    with x sp obtain ys where "y = Some (ok, ys)" "bs = xs @ ys" by auto
    with xa True emitter_seq [of a xs b ok ys] implementsD [OF b, of ok ys]
    show ?thesis by simp
  next
    case False
    with x sp have "ok = False" "bs = xs" by auto
    with xa False emitter_fail_seq [of a xs b] show ?thesis by simp
  qed
qed

lemma entries_Suc: "entries f (Suc n) p = p # entries f n (p + uint (f_data_size f))"
  by (simp add: entries_def map_upt_Suc algebra_simps del: upt_Suc)

lemma implements_array_loop:
  assumes "\<And>p. implements (func p) (val p)"
  shows "implements (array_loop func (f_data_size f) n p) (spec_all (map val (entries f n p)))"
proof (induction n arbitrary: p)
  case 0
  then show ?case by (simp add: entries_def)
next
  case (Suc n)
  then show ?case by (simp add: entries_Suc implements_seq assms)
qed

lemma implements_iter_loop:
  assumes "\<And>it. implements (body it) (val it)" and "i < nfields flds"
  shows "implements (iter_loop body (iter_at flds d i))
    (spec_all (map (\<lambda>i. val (iter_at flds d i)) [i..<nfields flds]))"
  using assms(2)
proof (induction "nfields flds - i" arbitrary: i)
  case (Suc k)
  have split: "[i..<nfields flds] = i # [Suc i..<nfields flds]"
    using Suc.prems by (simp add: upt_conv_Cons)
  show ?case
  proof (cases "Suc i < nfields flds")
    case True
    with Suc have "implements (iter_loop body (iter_at flds d (Suc i)))
        (spec_all (map (\<lambda>i. val (iter_at flds d i)) [Suc i..<nfields flds]))"
      by (metis Suc_diff_Suc Suc_inject)
    with True show ?thesis
      unfolding iter_loop_at [OF Suc.prems] split by (simp add: implements_seq assms(1))
  next
    case False
    with Suc.prems have "[Suc i..<nfields flds] = []" by simp
    with False show ?thesis
      unfolding iter_loop_at [OF Suc.prems] split
      using implements_seq [OF assms(1), of "\<lambda>s. Some (True, s)" "Some (True, [])"] by simp
  qed
qed simp

section \<open>Values\<close>

lemma length_c_string: "length (c_string m p n) \<le> n"
  by (metis c_string_def length_mem_read length_takeWhile_le)

lemma mem_read_c_string: "mem_read m p (length (c_string m p n)) = c_string m p n"
proof (rule nth_equalityI)
  fix i assume i: "i < length (mem_read m p (length (c_string m p n)))"
  then have "i < n" using length_c_string [of m p n] by simp
  with i show "mem_read m p (length (c_string m p n)) ! i = c_string m p n ! i"
    by (simp add: c_string_def takeWhile_nth)
qed simp

lemma strlen_loop_eq:
  "sz \<le> max_size \<Longrightarrow>
   unat (strlen_loop m max_size p sz) = unat sz + length (c_string m p (unat max_size - unat sz))"
proof (induction m max_size p sz rule: strlen_loop.induct)
  case (1 m max_size p sz)
  show ?case
  proof (cases "sz < max_size")
    case less: True
    then have n: "unat max_size - unat sz = Suc (unat max_size - unat (sz + 1))"
      using unat_add_one [OF less] by (simp add: word_less_nat_alt)
    show ?thesis
    proof (cases "m p = 0")
      case True
      then show ?thesis
        unfolding n by (subst strlen_loop.simps) (simp add: c_string_def mem_read_Suc)
    next
      case False
      have "sz + 1 \<le> max_size"
        using less unat_add_one [OF less] by (simp add: word_le_nat_alt word_less_nat_alt)
      with "1.IH" less False have "unat (strlen_loop m max_size (p + 1) (sz + 1)) =
          unat (sz + 1) + length (c_string m (p + 1) (unat max_size - unat (sz + 1)))" by blast
      with less False unat_add_one [OF less] show ?thesis
        unfolding n by (subst strlen_loop.simps) (simp add: c_string_def mem_read_Suc)
    qed
  next
    case False
    with "1.prems" have "sz = max_size" by simp
    then show ?thesis by (subst strlen_loop.simps) (simp add: c_string_def)
  qed
qed

lemma emit_string:
  assumes "unat n = length bs"
  shows "emitter (ret_opt (pb_encode_string env bs n)) True (delimited bs)"
proof -
  have "length bs < 2 ^ 64" using assms unsigned_less [of n, where 'a = nat] by simp
  moreover from this have "n = of_nat (length bs)" using assms
    by (simp add: word_unat_eq_iff unsigned_of_nat take_bit_nat_eq_self)
  ultimately show ?thesis using pb_encode_string_emitter [of bs env] by (simp add: delimited_def)
qed

lemma emit_varint_opt:
  "emitter (ret_opt (case v of None \<Rightarrow> os_return_error msg | Some x \<Rightarrow> pb_encode_varint env x))
     (v \<noteq> None) (case v of None \<Rightarrow> [] | Some x \<Rightarrow> varint_bytes x)"
  by (cases v) (auto simp: emitter_error varint.emitter_axioms)

lemma implements_varint_opt:
  "implements (ret_opt (case v of None \<Rightarrow> os_return_error msg | Some x \<Rightarrow> pb_encode_varint env x))
     (spec_varint v)"
  using emit_varint_opt [of msg env v] by (cases v) (auto simp: spec_varint_def)

lemma unat_ucast_u32 [simp]: "unat (ucast (x :: u32) :: u64) = unat x"
  using unsigned_less [of x, where 'a = nat] by (simp add: unsigned_ucast_eq take_bit_nat_eq_self)

lemma allocsize_gt_iff:
  "PB_BYTES_ARRAY_T_ALLOCSIZE n > ucast (d :: u32) \<longleftrightarrow> unat d < unat n + 4"
proof -
  have "unat n < 2 ^ 32" using unsigned_less [of n, where 'a = nat] by simp
  then have "unat (ucast n + 4 :: u64) = unat n + 4" by (simp add: unat_word_ariths)
  then show ?thesis by (simp add: PB_BYTES_ARRAY_T_ALLOCSIZE_def word_less_nat_alt)
qed

lemma emit_bytes: "implements (ret_opt (pb_enc_bytes env m f p)) (spec_value sub env m Enc_bytes f p)"
  by (auto simp: pb_enc_bytes_def Let_def allocsize_gt_iff emitter_error intro!: emit_string)

lemma emit_cstring: "implements (ret_opt (pb_enc_string env m f p)) (spec_value sub env m Enc_string f p)"
proof -
  let ?max = "if atype f = PB_ATYPE_POINTER then - 1 else ucast (f_data_size f) :: u64"
  have u: "unat ?max = (if atype f = PB_ATYPE_POINTER then 2 ^ 64 - 1 else unat (f_data_size f))"
    by (simp add: unsigned_minus_1_eq_mask mask_eq_exp_minus_1)
  have len: "unat (strlen_loop m ?max p 0) = length (c_string m p (unat ?max))"
    using strlen_loop_eq [of 0 ?max m p] by (simp only: word_zero_le unat_0 diff_zero add_0)
  have "emitter (ret_opt (pb_encode_string env (mem_read m p (unat (strlen_loop m ?max p 0)))
      (strlen_loop m ?max p 0))) True (delimited (c_string m p (unat ?max)))"
    using emit_string [of _ "c_string m p (unat ?max)" env] len mem_read_c_string by metis
  moreover have "emitter (ret_opt (pb_encode_string env (mem_read m 0 0) 0)) True (delimited [])"
    using emit_string [of 0 "[]" env] by simp
  ultimately show ?thesis using u by (simp add: pb_enc_string_def Let_def)
qed

section \<open>Two passes: sizing, then writing\<close>

lemma on_stream_sizing:
  assumes "emitter cmd ok bs"
  shows "\<exists>sub. on_stream PB_OSTREAM_SIZING cmd s = Some (ok, sub, s)
    \<and> os_bytes_written sub = of_nat (length bs)"
proof -
  let ?s = "s\<lparr>os := PB_OSTREAM_SIZING\<rparr>"
  have "os_callback (os ?s) = OC_Null" by (simp add: PB_OSTREAM_SIZING_def)
  from emitter.emit_null [OF assms this] obtain t where
    t: "cmd ?s = Some (ok, t)" "os_noerr t = os_noerr (os_advance (length bs) ?s)" by blast
  note sel = os_noerr_sel [OF t(2)]
  have "t\<lparr>os := os s\<rparr> = s" using sel by (cases s; cases t) (simp add: os_advance_def)
  moreover have "os_bytes_written (os t) = of_nat (length bs)"
    using sel by (simp add: stream_simps PB_OSTREAM_SIZING_def)
  ultimately show ?thesis using t by (simp add: on_stream_def)
qed

lemma encode_sized_put:
  assumes e: "emitter cmd True bs" and n: "length bs < 2 ^ 64" and c: "os_callback (os s) = OC_BufWrite"
  shows "\<exists>t. encode_sized cmd (of_nat (length bs)) s = Some (True, t) \<and> os_noerr t = os_noerr (os_put bs s)"
proof -
  let ?sub = "\<lparr>os_callback = os_callback (os s), os_state = os_state (os s),
     os_max_size = of_nat (length bs), os_bytes_written = 0, os_errmsg = None\<rparr>"
  let ?s = "s\<lparr>os := ?sub\<rparr>"
  have "os_callback (os ?s) = OC_BufWrite" "os_used ?s + int (length bs) \<le> os_limit ?s"
    using c n by (simp_all add: unsigned_of_nat take_bit_nat_eq_self)
  from emitter.emit_fits [OF e this] obtain t where
    t: "cmd ?s = Some (True, t)" "os_noerr t = os_noerr (os_put bs ?s)" by blast
  note sel = os_noerr_sel [OF t(2)]
  have "os_bytes_written (os t) = of_nat (length bs)" "os_state (os t) = os_state (os s) + int (length bs)"
    using sel by (simp_all add: os_put_def)
  with t(1) have "encode_sized cmd (of_nat (length bs)) s = Some (True, t\<lparr>os := (os s)
      \<lparr>os_bytes_written := os_bytes_written (os s) + of_nat (length bs),
       os_state := os_state (os s) + int (length bs), os_errmsg := os_errmsg (os t)\<rparr>\<rparr>)"
    by (simp add: encode_sized_def on_stream_def)
  moreover have "omem t = mem_write (omem s) (os_state (os s)) bs" "ouser t = ouser s"
    using sel(5,6) by (simp_all add: os_put_def)
  ultimately show ?thesis by (simp add: os_noerr_def os_put_def)
qed

text \<open>On a sizing stream the body is replaced by its known length.\<close>

lemma emitter_sizing:
  assumes fits: "\<And>s. os_callback (os s) = OC_BufWrite \<Longrightarrow> os_used s + int (length bs) \<le> os_limit s
      \<Longrightarrow> \<exists>t. body s = Some (True, t) \<and> os_noerr t = os_noerr (os_put bs s)"
    and full: "\<And>s. obuf_ok s \<Longrightarrow> length bs < 2 ^ 63 \<Longrightarrow> os_limit s < os_used s + int (length bs)
      \<Longrightarrow> \<exists>t. body s = Some (False, t) \<and> owithin s t"
  shows "emitter (\<lambda>t. if os_callback (os t) = OC_Null
      then Some (pb_write env [] (of_nat (length bs)) t) else body t) True bs"
proof
  fix s :: "'a ostate" assume "os_callback (os s) = OC_Null"
  then show "\<exists>t. (if os_callback (os s) = OC_Null
      then Some (pb_write env [] (of_nat (length bs)) s) else body s) = Some (True, t)
      \<and> os_noerr t = os_noerr (os_advance (length bs) s)"
    by (simp add: pb_write_def os_advance_def)
qed (use fits full in \<open>auto simp: obuf_ok_def\<close>)

lemma sized_body_emitter:
  assumes e: "emitter cmd True bs" and n: "length bs < 2 ^ 63"
  shows "emitter (\<lambda>t. if os_callback (os t) = OC_Null
      then Some (pb_write env [] (of_nat (length bs)) t)
      else if os_bytes_written (os t) + of_nat (length bs) > os_max_size (os t)
      then Some (os_return_error ''stream full'' t)
      else encode_sized cmd (of_nat (length bs)) t) True bs"
proof (rule emitter_sizing)
  fix s :: "'a ostate"
  assume c: "os_callback (os s) = OC_BufWrite" and l: "os_used s + int (length bs) \<le> os_limit s"
  have "\<not> os_bytes_written (os s) + of_nat (length bs) > os_max_size (os s)"
    using uint_add_small [OF l] l by (simp add: word_gt_iff)
  with encode_sized_put [OF e _ c] n
  show "\<exists>t. (if os_bytes_written (os s) + of_nat (length bs) > os_max_size (os s)
      then Some (os_return_error ''stream full'' s)
      else encode_sized cmd (of_nat (length bs)) s) = Some (True, t) \<and> os_noerr t = os_noerr (os_put bs s)"
    by simp
next
  fix s :: "'a ostate"
  assume s: "obuf_ok s" and l: "os_limit s < os_used s + int (length bs)"
  have "uint (os_bytes_written (os s)) + int (length bs) \<le> uint (- 1 :: u64)"
    using s n by (simp add: obuf_ok_def unsigned_minus_1_eq_mask mask_eq_exp_minus_1)
  from uint_add_small [OF this] l have "os_bytes_written (os s) + of_nat (length bs) > os_max_size (os s)"
    by (simp add: word_gt_iff)
  then show "\<exists>t. (if os_bytes_written (os s) + of_nat (length bs) > os_max_size (os s)
      then Some (os_return_error ''stream full'' s)
      else encode_sized cmd (of_nat (length bs)) s) = Some (False, t) \<and> owithin s t"
    using owithin_error [OF s] by (auto simp: os_return_error_def)
qed

lemma emitter_no_output:
  assumes "\<And>s. \<exists>t. cmd s = Some (False, t) \<and> os_noerr t = os_noerr s"
  shows "emitter cmd False []"
proof
  fix s :: "'a ostate"
  obtain t where t: "cmd s = Some (False, t)" "os_noerr t = os_noerr s" using assms by blast
  then show "\<exists>t. cmd s = Some (False, t) \<and> os_noerr t = os_noerr (os_advance (length []) s)"
    by (simp add: os_advance_def)
  from t show "\<exists>t. cmd s = Some (False, t) \<and> os_noerr t = os_noerr (os_put [] s)"
    by (simp add: os_put_def)
  from t show "\<exists>t. cmd s = Some (False, t) \<and> owithin s t" if "obuf_ok s"
    using owithin_noerr [OF t(2), of s] owithin_refl [OF that] by blast
qed

lemma implements_delim:
  assumes "implements (rec flds src) sp"
  shows "implements (pb_encode_submessage rec env flds src) (spec_delim sp)"
proof (rule implementsI)
  fix ok bs assume sd: "spec_delim sp = Some (ok, bs)"
  then obtain k xs where sp: "sp = Some (k, xs)" by (cases sp) auto
  have e: "emitter (rec flds src) k xs" by (rule implementsD [OF assms sp])
  show "emitter (pb_encode_submessage rec env flds src) ok bs"
  proof (cases k)
    case False
    with sp sd have b: "\<not> ok" "bs = []" by auto
    have "\<exists>t. pb_encode_submessage rec env flds src s = Some (False, t) \<and> os_noerr t = os_noerr s" for s
      using on_stream_sizing [OF e, of s] False
      by (auto simp: pb_encode_submessage_def os_noerr_def)
    then have "emitter (pb_encode_submessage rec env flds src) False []"
      by (rule emitter_no_output)
    with b show ?thesis by simp
  next
    case True
    with sp sd have b: "ok" "bs = delimited xs" "length xs < 2 ^ 63" by (auto split: if_splits)
    let ?n = "of_nat (length xs) :: u64"
    have "pb_encode_submessage rec env flds src =
      seq_opt (ret_opt (pb_encode_varint env ?n))
        (\<lambda>t. if os_callback (os t) = OC_Null then Some (pb_write env [] ?n t)
             else if os_bytes_written (os t) + ?n > os_max_size (os t)
             then Some (os_return_error ''stream full'' t)
             else encode_sized (rec flds src) ?n t)" (is "_ = ?cmd")
    proof
      fix s
      show "pb_encode_submessage rec env flds src s = ?cmd s"
        using on_stream_sizing [OF e, of s] True
        by (auto simp: pb_encode_submessage_def Let_def cong: if_cong)
    qed
    moreover have "emitter ?cmd True (varint_bytes ?n @ xs)"
      using e True b(3) by (intro emitter_seq varint.emitter_axioms sized_body_emitter) auto
    ultimately show ?thesis using b by (simp add: delimited_def)
  qed
qed

lemma implements_value:
  assumes "\<And>flds p. implements (rec flds p) (sub flds p)"
  shows "implements (call_encoder rec env m e f p) (spec_value sub env m e f p)"
proof (cases e)
  case Enc_varint
  then show ?thesis by (simp add: pb_enc_varint_def implements_varint_opt)
next
  case Enc_uvarint
  then show ?thesis by (simp add: pb_enc_uvarint_def implements_varint_opt)
next
  case Enc_svarint
  have "pb_enc_svarint env m f p =
      (case map_option zigzag (load_signed m (f_data_size f) p) of
         None \<Rightarrow> os_return_error ''invalid data_size'' | Some x \<Rightarrow> pb_encode_varint env x)"
    by (simp add: pb_enc_svarint_def pb_encode_svarint_def split: option.split)
  with Enc_svarint implements_varint_opt show ?thesis
    by (metis call_encoder.simps(3) spec_value.simps(3))
next
  case Enc_fixed32
  then show ?thesis
    using fixed32.emitter_axioms [of env m p] by (simp add: pb_enc_fixed32_def word_to_le_load)
next
  case Enc_fixed64
  then show ?thesis
    using fixed64.emitter_axioms [of env m p] by (simp add: pb_enc_fixed64_def word_to_le_load)
next
  case Enc_bytes
  then show ?thesis using emit_bytes [of env m f p sub] by simp
next
  case Enc_string
  then show ?thesis using emit_cstring [of env m f p sub] by simp
next
  case Enc_submessage
  then show ?thesis
    by (simp add: pb_enc_submessage_def emitter_error implements_delim assms)
next
  case Enc_fixed_length_bytes
  then show ?thesis by (simp add: pb_enc_fixed_length_bytes_def emit_string)
qed simp

section \<open>Arrays, fields and messages\<close>

lemma field_wiretype_key: "implements (ret_opt (pb_encode_tag_for_field env f)) (spec_key f)"
  by (cases "field_wiretype (ltype f)")
    (auto simp: pb_encode_tag_for_field_def spec_key_def emitter_error tag.emitter_axioms)

text \<open>The size of a packed array of fixed-width entries needs no sizing pass.\<close>

definition entry_width :: "u8 \<Rightarrow> nat option" where
  "entry_width lt = (if lt = PB_LTYPE_FIXED32 then Some 4 else if lt = PB_LTYPE_FIXED64 then Some 8 else None)"

lemma spec_all_width:
  assumes "\<And>x. x \<in> set xs \<Longrightarrow> \<exists>bs. x = Some (True, bs) \<and> length bs = w"
  shows "\<exists>bs. spec_all xs = Some (True, bs) \<and> length bs = w * length xs"
  using assms by (induction xs) fastforce+

lemma length_entries [simp]: "length (entries f n p) = n"
  by (simp add: entries_def)

lemma packed_size_eq:
  assumes impl: "\<And>p. implements (func p) (val p)"
    and width: "\<And>w p. entry_width (ltype f) = Some w \<Longrightarrow> \<exists>bs. val p = Some (True, bs) \<and> length bs = w"
    and sp: "spec_all (map val (entries f (unat count) p)) = Some (ok, bs)"
  shows "packed_size func f count p s = Some (if ok then Some (of_nat (length bs)) else None, s)"
proof (cases "entry_width (ltype f)")
  case None
  have "emitter (array_loop func (f_data_size f) (unat count) p) ok bs"
    by (rule implementsD [OF implements_array_loop [OF impl] sp])
  from on_stream_sizing [OF this, of s] None show ?thesis
    by (auto simp: packed_size_def entry_width_def split: if_splits)
next
  case (Some w)
  have "\<exists>bs. spec_all (map val (entries f (unat count) p)) = Some (True, bs) \<and>
      length bs = w * length (map val (entries f (unat count) p))"
    by (rule spec_all_width) (use width [OF Some] in auto)
  with sp have "ok" "length bs = w * unat count" by auto
  with Some show ?thesis
    by (auto simp: packed_size_def entry_width_def split: if_splits)
qed

lemma implements_packed:
  assumes impl: "\<And>p. implements (func p) (val p)"
    and width: "\<And>w p. entry_width (ltype f) = Some w \<Longrightarrow> \<exists>bs. val p = Some (True, bs) \<and> length bs = w"
  shows "implements (encode_packed env func f count p)
    (spec_delim (spec_all (map val (entries f (unat count) p))))"
proof (rule implementsI)
  fix ok bs
  assume sd: "spec_delim (spec_all (map val (entries f (unat count) p))) = Some (ok, bs)"
  then obtain k xs where sp: "spec_all (map val (entries f (unat count) p)) = Some (k, xs)"
    by (cases "spec_all (map val (entries f (unat count) p))") auto
  note size = packed_size_eq [OF impl width sp]
  have e: "emitter (array_loop func (f_data_size f) (unat count) p) k xs"
    by (rule implementsD [OF implements_array_loop [OF impl] sp])
  show "emitter (encode_packed env func f count p) ok bs"
  proof (cases k)
    case False
    with sd sp have "\<not> ok" "bs = []" by auto
    moreover have "emitter (encode_packed env func f count p) False []"
      by (rule emitter_no_output) (use False size in \<open>simp add: encode_packed_def\<close>)
    ultimately show ?thesis by simp
  next
    case True
    with sd sp have b: "ok" "bs = delimited xs" by (auto split: if_splits)
    let ?n = "of_nat (length xs) :: u64"
    have "encode_packed env func f count p = seq_opt (ret_opt (pb_encode_varint env ?n))
        (\<lambda>t. if os_callback (os t) = OC_Null then Some (pb_write env [] ?n t)
             else array_loop func (f_data_size f) (unat count) p t)" (is "_ = ?cmd")
      by (rule ext) (use size True in \<open>simp add: encode_packed_def\<close>)
    moreover have "emitter ?cmd True (varint_bytes ?n @ xs)"
      using e True
      by (intro emitter_seq varint.emitter_axioms emitter_sizing)
        (auto intro: emitter.emit_fits emitter.emit_full)
    ultimately show ?thesis using b by (simp add: delimited_def)
  qed
qed

lemma implements_array:
  assumes impl: "\<And>p. implements (func f p) (val p)"
    and width: "\<And>w p. entry_width (ltype f) = Some w \<Longrightarrow> \<exists>bs. val p = Some (True, bs) \<and> length bs = w"
  shows "implements (encode_array env m f p count func) (spec_array m val f p (unat count))"
proof -
  have gt: "count > ucast (f_array_size f) \<longleftrightarrow> unat (f_array_size f) < unat count"
    by (simp add: word_less_nat_alt)
  have un: "implements (array_loop (\<lambda>p. seq_opt (ret_opt (pb_encode_tag_for_field env f))
        (func f (array_entry m f p))) (f_data_size f) (unat count) p)
      (spec_all (map (\<lambda>q. spec_seq (spec_key f) (val (array_entry m f q))) (entries f (unat count) p)))"
    by (intro implements_array_loop implements_seq field_wiretype_key impl)
  have pk: "implements (seq_opt (ret_opt (pb_encode_tag env PB_WT_STRING (f_tag f)))
        (encode_packed env (func f) f count p))
      (spec_seq (Some (True, varint_bytes (tag_key PB_WT_STRING (f_tag f))))
        (spec_delim (spec_all (map val (entries f (unat count) p)))))"
    by (intro implements_seq implements_packed impl width) (auto simp: tag.emitter_axioms)
  show ?thesis
    unfolding encode_array_def spec_array_def gt
    using un pk by (simp add: emitter_error unat_eq_0)
qed

lemma entry_width_value:
  assumes "entry_width lt = Some w" "unat lt < length PB_ENCODERS"
  shows "\<exists>bs. spec_value sub env m (PB_ENCODERS ! unat lt) f p = Some (True, bs) \<and> length bs = w"
  using assms by (auto simp: entry_width_def PB_ENCODERS_def split: if_splits)

lemma implements_basic:
  assumes sub: "\<And>flds p. implements (rec flds p) (sub flds p)"
  shows "implements (encode_basic_field n rec env m f p) (spec_basic n sub env m f p)"
proof (cases "length PB_ENCODERS \<le> unat (ltype f)")
  case True
  then show ?thesis by (simp add: spec_basic_def)
next
  case False
  let ?e = "PB_ENCODERS ! unat (ltype f)"
  let ?q = "if atype f = PB_ATYPE_POINTER then load_ptr m p else p"
  let ?count = "load_le 4 m (p + sint (f_size_offset f)) :: u32"
  have val: "implements (call_encoder rec env m ?e f q) (spec_value sub env m ?e f q)" for q
    by (rule implements_value [OF sub])
  have emit: "implements (seq_opt (ret_opt (pb_encode_tag_for_field env f)) (call_encoder rec env m ?e f ?q))
      (spec_seq (spec_key f) (spec_value sub env m ?e f ?q))"
    by (intro implements_seq field_wiretype_key val)
  have arr: "implements (encode_array env m f ?q (ucast ?count) (call_encoder rec env m ?e))
      (spec_array m (spec_value sub env m ?e f) f ?q (unat ?count))"
    using implements_array [of "call_encoder rec env m ?e" f "spec_value sub env m ?e f" env m ?q "ucast ?count"]
      val entry_width_value [of "ltype f" _ sub env m f] False by simp
  show ?thesis
  proof (cases "implicit_has n env m f p")
    case None
    then show ?thesis by (simp add: spec_basic_def)
  next
    case (Some has)
    note defs = encode_basic_field_def spec_basic_def Let_def
    consider "htype f = PB_HTYPE_REQUIRED" | "htype f = PB_HTYPE_OPTIONAL"
      | "htype f = PB_HTYPE_REPEATED" | "htype f = PB_HTYPE_ONEOF"
      using htype_cases by blast
    then show ?thesis
    proof cases
      case 1
      with Some False emit show ?thesis by (simp add: defs emitter_error)
    next
      case 2
      with Some False emit show ?thesis
        by (cases "atype f = PB_ATYPE_POINTER") (simp_all add: defs)
    next
      case 3
      with Some False arr show ?thesis by (simp add: defs)
    next
      case 4
      with Some False emit show ?thesis by (simp add: defs)
    qed
  qed
qed

text \<open>The application's callbacks keep their promises.\<close>

definition callbacks_promise :: "'w oenv \<Rightarrow> cb_spec \<Rightarrow> xcb_spec \<Rightarrow> bool" where
  "callbacks_promise env cb xcb \<longleftrightarrow>
     (\<forall>fn f a. implements (oe_encode env fn f a) (cb fn f a))
     \<and> (\<forall>fn e. implements (oe_ext_encode env fn e) (xcb fn e))"

lemma no_callbacks_promise: "callbacks_promise env (\<lambda>_ _ _. None) (\<lambda>_ _. None)"
  by (simp add: callbacks_promise_def)

lemma emitter_callback_field:
  assumes e: "emitter (oe_encode env (callback_funcs m p) f (callback_arg p)) ok bs"
    and f: "callback_funcs m p \<noteq> 0"
  shows "emitter (encode_callback_field env m f p) ok bs"
proof -
  let ?g = "oe_encode env (callback_funcs m p) f (callback_arg p)"
  have run: "\<exists>u. encode_callback_field env m f p s = Some (k, u) \<and> os_noerr u = os_noerr t"
    if "?g s = Some (k, t)" for s k t
    using that f by (auto simp: encode_callback_field_def os_return_error_def os_noerr_def)
  show ?thesis
  proof
    fix s :: "'a ostate"
    show "\<exists>t. encode_callback_field env m f p s = Some (ok, t) \<and> os_noerr t = os_noerr (os_advance (length bs) s)"
      if "os_callback (os s) = OC_Null"
      using emitter.emit_null [OF e that] run by metis
    show "\<exists>t. encode_callback_field env m f p s = Some (ok, t) \<and> os_noerr t = os_noerr (os_put bs s)"
      if "os_callback (os s) = OC_BufWrite" "os_used s + int (length bs) \<le> os_limit s"
      using emitter.emit_fits [OF e that] run by metis
    show "\<exists>t. encode_callback_field env m f p s = Some (False, t) \<and> owithin s t"
      if "obuf_ok s" "length bs < 2 ^ 63" "os_limit s < os_used s + int (length bs)"
      using emitter.emit_full [OF e that] run owithin_noerr by metis
  qed
qed

lemma implements_field:
  assumes sub: "\<And>flds p. implements (rec flds p) (sub flds p)" and cb: "callbacks_promise env cb xcb"
  shows "implements (encode_field n rec env m f p) (spec_field cb n sub env m f p)"
proof -
  have "encode_callback_field env m f p = (\<lambda>s. Some (True, s))" if "callback_funcs m p = 0"
    using that by (auto simp: encode_callback_field_def)
  moreover have "implements (encode_callback_field env m f p) (cb (callback_funcs m p) f (callback_arg p))"
    if "callback_funcs m p \<noteq> 0"
    using that cb by (auto simp: callbacks_promise_def implements_def intro: emitter_callback_field)
  ultimately show ?thesis
    using implements_basic [OF sub] by (simp add: encode_field_def spec_field_def emitter_error)
qed

lemma implements_chain:
  assumes "\<And>e. implements (one e) (sone e)"
  shows "implements (extension_loop k one m e) (spec_chain k sone m e)"
  by (induction k arbitrary: e) (simp_all add: implements_seq assms)

lemma implements_one:
  assumes sub: "\<And>flds p. implements (rec flds p) (sub flds p)" and cb: "callbacks_promise env cb xcb"
  shows "implements (encode_one n rec env m it) (spec_one cb xcb n sub env m it)"
proof -
  have "implements (encode_extension n rec env m e) (spec_extension cb xcb n sub env m e)" for e
    using cb implements_field [OF sub cb]
    by (simp add: encode_extension_def spec_extension_def default_extension_encoder_def Let_def
        callbacks_promise_def)
  from implements_chain [OF this] implements_field [OF sub cb] show ?thesis
    by (simp add: encode_one_def spec_one_def encode_extension_field_def)
qed

lemma implements_message:
  assumes "callbacks_promise env cb xcb"
  shows "implements (pb_encode n env m flds src) (spec_message n cb xcb env m flds src)"
proof (induction n arbitrary: flds src)
  case (Suc n)
  show ?case
  proof (cases "nfields flds = 0")
    case True
    then show ?thesis by (simp add: iter_begin_eq del: iter_at.simps)
  next
    case False
    then have "0 < nfields flds" by blast
    then have "implements (iter_loop (encode_one (Suc n) (pb_encode n env m) env m) (iter_at flds src 0))
        (spec_all (map (\<lambda>i. spec_one cb xcb (Suc n) (spec_message n cb xcb env m) env m (iter_at flds src i))
          [0..<nfields flds]))"
      by (rule implements_iter_loop [OF implements_one [OF Suc.IH assms]])
    with False show ?thesis by (simp add: iter_begin_eq del: iter_at.simps)
  qed
qed simp

section \<open>Encoding into a buffer\<close>

text \<open>The state with which an application starts to encode into a buffer.\<close>

definition buffer_state :: "addr \<Rightarrow> u64 \<Rightarrow> mem \<Rightarrow> 'w \<Rightarrow> 'w ostate" where
  "buffer_state buf bufsize out w = \<lparr>os = pb_ostream_from_buffer buf bufsize, omem = out, ouser = w\<rparr>"

lemma buffer_state_sel [simp]:
  "os_callback (os (buffer_state buf n out w)) = OC_BufWrite" "os_max_size (os (buffer_state buf n out w)) = n"
  "os_bytes_written (os (buffer_state buf n out w)) = 0" "os_state (os (buffer_state buf n out w)) = buf"
  "omem (buffer_state buf n out w) = out" "ouser (buffer_state buf n out w) = w"
  by (simp_all add: buffer_state_def pb_ostream_from_buffer_def)

lemma emit_into_buffer:
  assumes "emitter cmd ok bs" "length bs \<le> unat n"
  shows "\<exists>t. cmd (buffer_state buf n out w) = Some (ok, t) \<and> omem t = mem_write out buf bs
    \<and> os_bytes_written (os t) = of_nat (length bs) \<and> os_state (os t) = buf + int (length bs) \<and> ouser t = w"
proof -
  let ?s = "buffer_state buf n out w"
  have "int (length bs) \<le> int (unat n)" using assms(2) by (simp only: of_nat_le_iff)
  then have "os_used ?s + int (length bs) \<le> os_limit ?s" by simp
  from emitter.emit_fits [OF assms(1) _ this] obtain t where
    t: "cmd ?s = Some (ok, t)" "os_noerr t = os_noerr (os_put bs ?s)" by auto
  from os_noerr_sel [OF t(2)] t(1) show ?thesis by (auto simp: stream_simps os_put_written)
qed

lemma emit_size:
  assumes "emitter cmd True bs"
  shows "(case on_stream PB_OSTREAM_SIZING cmd s of None \<Rightarrow> None
    | Some (ok, sub, t) \<Rightarrow> Some (if ok then Some (os_bytes_written sub) else None, t)) =
    Some (Some (of_nat (length bs)), s)"
  using on_stream_sizing [OF assms, of s] by auto

end
