(* ===== verification/Pb_Encode_Fuel.thy ===== *)
theory Pb_Encode_Fuel
  imports Pb_Encode
begin

text \<open>
  The role of the fuel of the encoder: a result does not depend on it (more fuel gives the
  same result on every stream), and for message types that do not contain themselves, the
  nesting depth of the descriptors is enough of it.
\<close>

section \<open>More fuel, same result\<close>

definition cmd_le :: "('s \<Rightarrow> 'r option) \<Rightarrow> ('s \<Rightarrow> 'r option) \<Rightarrow> bool" where
  "cmd_le a b \<longleftrightarrow> (\<forall>s r. a s = Some r \<longrightarrow> b s = Some r)"

named_theorems fuel_mono \<open>monotonicity of the encoder's building blocks\<close>

lemma cmd_leI: "(\<And>s r. a s = Some r \<Longrightarrow> b s = Some r) \<Longrightarrow> cmd_le a b"
  by (simp add: cmd_le_def)

lemma cmd_leD: "cmd_le a b \<Longrightarrow> a s = Some r \<Longrightarrow> b s = Some r"
  by (simp add: cmd_le_def)

lemma cmd_le_refl [simp]: "cmd_le a a"
  by (simp add: cmd_le_def)

lemma cmd_le_trans: "cmd_le a b \<Longrightarrow> cmd_le b c \<Longrightarrow> cmd_le a c"
  by (simp add: cmd_le_def)

lemma cmd_le_None [simp]: "cmd_le (\<lambda>s. None) b"
  by (simp add: cmd_le_def)

lemma cmd_le_seq [fuel_mono]: "cmd_le a a' \<Longrightarrow> cmd_le b b' \<Longrightarrow> cmd_le (seq_opt a b) (seq_opt a' b')"
  by (auto simp: cmd_le_def seq_opt_def split: option.splits if_splits)

lemma cmd_le_array_loop [fuel_mono]:
  assumes "\<And>p. cmd_le (f p) (g p)"
  shows "cmd_le (array_loop f d n p) (array_loop g d n p)"
  by (induction n arbitrary: p) (auto intro!: cmd_le_seq assms)

lemma cmd_le_iter_loop:
  assumes "\<And>it. cmd_le (f it) (g it)"
  shows "cmd_le (iter_loop f it) (iter_loop g it)"
proof (induction "length (it_start it) - it_pos it" arbitrary: it rule: less_induct)
  case less
  obtain more it' where nx: "pb_field_iter_next it = (more, it')" by force
  have "cmd_le (iter_loop f it') (iter_loop g it')" if more
  proof (rule less)
    show "length (it_start it') - it_pos it' < length (it_start it) - it_pos it"
      using iter_next_True [of it it'] nx that by auto
  qed
  then show ?case
    unfolding iter_loop.simps [of f it] iter_loop.simps [of g it] nx
    by (auto intro!: cmd_le_seq assms)
qed

lemma cmd_le_on_stream: "cmd_le a b \<Longrightarrow> cmd_le (on_stream sub a) (on_stream sub b)"
  by (auto simp: cmd_le_def on_stream_def split: option.splits)

lemma cmd_le_sized: "cmd_le a b \<Longrightarrow> cmd_le (encode_sized a n) (encode_sized b n)"
  by (rule cmd_leI)
    (auto simp: encode_sized_def split: option.splits dest: cmd_leD [OF cmd_le_on_stream])

lemma cmd_le_submessage [fuel_mono]:
  assumes rec: "\<And>flds p. cmd_le (rec flds p) (rec' flds p)"
  shows "cmd_le (pb_encode_submessage rec env flds p) (pb_encode_submessage rec' env flds p)"
proof (rule cmd_leI)
  fix s r
  assume r: "pb_encode_submessage rec env flds p s = Some r"
  then obtain ok sub t where 1: "on_stream PB_OSTREAM_SIZING (rec flds p) s = Some (ok, sub, t)"
    by (auto simp: pb_encode_submessage_def split: option.splits)
  note 2 = cmd_leD [OF cmd_le_on_stream [OF rec] 1]
  let ?n = "os_bytes_written sub"
  let ?body = "\<lambda>rec t. if os_callback (os t) = OC_Null then Some (pb_write env [] ?n t)
      else if os_bytes_written (os t) + ?n > os_max_size (os t)
      then Some (os_return_error ''stream full'' t) else encode_sized (rec flds p) ?n t"
  have "cmd_le (?body rec) (?body rec')"
    using cmd_leD [OF cmd_le_sized [OF rec]] by (auto intro!: cmd_leI split: if_splits)
  from cmd_leD [OF cmd_le_seq [OF cmd_le_refl this]] r 1 2
  show "pb_encode_submessage rec' env flds p s = Some r"
    by (cases ok) (auto simp: pb_encode_submessage_def Let_def)
qed

lemma cmd_le_call [fuel_mono]:
  assumes "\<And>flds p. cmd_le (rec flds p) (rec' flds p)"
  shows "cmd_le (call_encoder rec env m e f p) (call_encoder rec' env m e f p)"
  by (cases e) (auto simp: pb_enc_submessage_def intro!: cmd_le_submessage assms)

lemma cmd_le_packed:
  assumes "\<And>p. cmd_le (f p) (g p)"
  shows "cmd_le (encode_packed env f fld n p) (encode_packed env g fld n p)"
proof (rule cmd_leI)
  fix s r
  assume r: "encode_packed env f fld n p s = Some r"
  have loop: "cmd_le (array_loop f (f_data_size fld) (unat n) p) (array_loop g (f_data_size fld) (unat n) p)"
    by (intro fuel_mono assms)
  obtain sz t where 1: "packed_size f fld n p s = Some (sz, t)"
    using r by (auto simp: encode_packed_def split: option.splits)
  then have 2: "packed_size g fld n p s = Some (sz, t)"
    using cmd_leD [OF cmd_le_on_stream [OF loop], of _ s]
    by (auto simp: packed_size_def split: if_splits option.splits)
  show "encode_packed env g fld n p s = Some r"
  proof (cases sz)
    case None
    with r 1 2 show ?thesis by (simp add: encode_packed_def)
  next
    case (Some k)
    let ?body = "\<lambda>h t. if os_callback (os t) = OC_Null then Some (pb_write env [] k t)
      else array_loop h (f_data_size fld) (unat n) p t"
    have "cmd_le (?body f) (?body g)"
      using cmd_leD [OF loop] by (auto intro!: cmd_leI split: if_splits)
    from cmd_leD [OF cmd_le_seq [OF cmd_le_refl this]] r 1 2 Some show ?thesis
      by (auto simp: encode_packed_def)
  qed
qed

lemma cmd_le_array [fuel_mono]:
  assumes "\<And>f p. cmd_le (func f p) (func' f p)"
  shows "cmd_le (encode_array env m fld p n func) (encode_array env m fld p n func')"
  by (auto simp: encode_array_def intro!: fuel_mono cmd_le_packed assms)

lemma proto3_mono:
  "pb_check_proto3_default_value n desc m f p = Some b \<Longrightarrow>
   pb_check_proto3_default_value (Suc n) desc m f p = Some b"
proof (induction n arbitrary: f p b)
  case (Suc n)
  let ?body = "\<lambda>n it (u::unit). map_option (\<lambda>b. (b, u))
    (pb_check_proto3_default_value n desc m (it_field it) (it_pData it))"
  have "cmd_le (iter_loop (?body n) it) (iter_loop (?body (Suc n)) it)" for it
  proof (rule cmd_le_iter_loop)
    fix it
    show "cmd_le (?body n it) (?body (Suc n) it)"
      using Suc.IH by (intro cmd_leI) (auto simp del: pb_check_proto3_default_value.simps)
  qed
  from cmd_leD [OF this] Suc.prems show ?case
    unfolding pb_check_proto3_default_value.simps(2) Let_def
    by (simp split: if_splits prod.splits del: pb_check_proto3_default_value.simps) blast+
qed simp

lemma implicit_has_mono: "implicit_has n env m f p = Some b \<Longrightarrow> implicit_has (Suc n) env m f p = Some b"
  using proto3_mono [of n "oe_fields env" m f p]
  by (auto simp: implicit_has_def simp del: pb_check_proto3_default_value.simps split: if_splits)

lemma cmd_le_basic:
  assumes "\<And>flds p. cmd_le (rec flds p) (rec' flds p)"
  shows "cmd_le (encode_basic_field n rec env m f p) (encode_basic_field (Suc n) rec' env m f p)"
proof (cases "implicit_has n env m f p")
  case None
  then show ?thesis by (auto simp: encode_basic_field_def cmd_le_def)
next
  case (Some has)
  note more = implicit_has_mono [OF Some]
  show ?thesis
    unfolding encode_basic_field_def Some more Let_def option.case
    by (auto intro!: fuel_mono assms)
qed

lemma cmd_le_field:
  assumes "\<And>flds p. cmd_le (rec flds p) (rec' flds p)"
  shows "cmd_le (encode_field n rec env m f p) (encode_field (Suc n) rec' env m f p)"
  by (auto simp: encode_field_def intro!: cmd_le_basic assms)

lemma cmd_le_extension_loop:
  assumes "\<And>e. cmd_le (one e) (one' e)"
  shows "cmd_le (extension_loop k one m e) (extension_loop (Suc k) one' m e)"
proof (induction k arbitrary: e)
  case (Suc k)
  then show ?case
    unfolding extension_loop.simps(2) [of "Suc k"] extension_loop.simps(2) [of k one]
    by (auto intro!: cmd_le_seq assms simp del: extension_loop.simps)
qed simp

lemma cmd_le_one:
  assumes "\<And>flds p. cmd_le (rec flds p) (rec' flds p)"
  shows "cmd_le (encode_one n rec env m it) (encode_one (Suc n) rec' env m it)"
proof -
  have "cmd_le (encode_extension n rec env m e) (encode_extension (Suc n) rec' env m e)" for e
    by (auto simp: encode_extension_def default_extension_encoder_def Let_def intro!: cmd_le_field assms)
  then show ?thesis
    by (auto simp: encode_one_def encode_extension_field_def simp del: extension_loop.simps
        intro!: cmd_le_extension_loop cmd_le_field assms)
qed

lemma cmd_le_encode_Suc: "cmd_le (pb_encode n env m flds src) (pb_encode (Suc n) env m flds src)"
proof (induction n arbitrary: flds src)
  case (Suc n)
  have "cmd_le (iter_loop (encode_one (Suc n) (pb_encode n env m) env m) it)
      (iter_loop (encode_one (Suc (Suc n)) (pb_encode (Suc n) env m) env m) it)" for it
    by (rule cmd_le_iter_loop [OF cmd_le_one [OF Suc]])
  then show ?case
    unfolding pb_encode.simps(2) [of "Suc n"] pb_encode.simps(2) [of n env m] Let_def
    by (simp del: pb_encode.simps split: prod.splits)
qed simp

lemma cmd_le_encode: "n \<le> n' \<Longrightarrow> cmd_le (pb_encode n env m flds src) (pb_encode n' env m flds src)"
proof (induction n' rule: dec_induct)
  case (step k)
  show ?case by (rule cmd_le_trans [OF step.IH cmd_le_encode_Suc])
qed simp

section \<open>Enough fuel\<close>

text \<open>
  \<open>shallow n env flds\<close>: the descriptors
  nest less than \<open>n\<close> deep, name existing encoders and a size member where they need one, and
  have no extension placeholder, whose chain is data.
\<close>

definition encodable :: "pb_field \<Rightarrow> bool" where
  "encodable f \<longleftrightarrow> unat (ltype f) < length PB_ENCODERS \<and> ltype f \<noteq> PB_LTYPE_EXTENSION
     \<and> (htype f = PB_HTYPE_REPEATED \<or> htype f = PB_HTYPE_ONEOF \<longrightarrow> f_size_offset f \<noteq> 0)"

primrec shallow :: "nat \<Rightarrow> (addr \<Rightarrow> pb_field list) \<Rightarrow> pb_field list \<Rightarrow> bool" where
  "shallow 0 desc flds \<longleftrightarrow> False"
| "shallow (Suc n) desc flds \<longleftrightarrow>
     list_all (\<lambda>f. encodable f \<and> (ltype f = PB_LTYPE_SUBMESSAGE \<longrightarrow> shallow n desc (desc (f_ptr f))))
       (live_fields flds)"

lemma returns_array_loop [ret_intros]: "(\<And>p. returns (f p)) \<Longrightarrow> returns (array_loop f d n p)"
  by (induction n arbitrary: p) (auto intro: ret_intros)

lemma returns_on_stream: "returns c \<Longrightarrow> \<exists>ok sub t. on_stream st c s = Some (ok, sub, t)"
  by (auto simp: on_stream_def returns_def split: option.splits)

lemma returns_sized: "returns c \<Longrightarrow> returns (encode_sized c n)"
  by (intro returnsI) (auto simp: encode_sized_def Let_def dest!: returns_on_stream split: option.splits)

lemma returns_submessage:
  assumes "returns (rec flds p)"
  shows "returns (pb_encode_submessage rec env flds p)"
proof (rule returnsI)
  fix s
  obtain ok sub t where 1: "on_stream PB_OSTREAM_SIZING (rec flds p) s = Some (ok, sub, t)"
    using returns_on_stream [OF assms] by blast
  let ?n = "os_bytes_written sub"
  have "returns (\<lambda>t. if os_callback (os t) = OC_Null then Some (pb_write env [] ?n t)
      else if os_bytes_written (os t) + ?n > os_max_size (os t)
      then Some (os_return_error ''stream full'' t) else encode_sized (rec flds p) ?n t)"
    using returns_sized [OF assms] by (auto simp: returns_def)
  from returnsD [OF returns_seq [OF returns_ret_opt this]] 1
  show "\<exists>r. pb_encode_submessage rec env flds p s = Some r"
    by (cases ok) (auto simp: pb_encode_submessage_def Let_def)
qed

lemma returns_call:
  assumes "e \<noteq> Enc_null" "e = Enc_submessage \<Longrightarrow> returns (rec (oe_fields env (f_ptr f)) p)"
  shows "returns (call_encoder rec env m e f p)"
  using assms by (cases e) (auto simp: pb_enc_submessage_def intro!: ret_intros returns_submessage)

lemma returns_packed:
  assumes "\<And>p. returns (f p)"
  shows "returns (encode_packed env f fld n p)"
proof (rule returnsI)
  fix s
  have loop: "returns (array_loop f (f_data_size fld) (unat n) p)" by (intro ret_intros assms)
  have "\<exists>sz t. packed_size f fld n p s = Some (sz, t)"
    using returns_on_stream [OF loop, of PB_OSTREAM_SIZING s] by (auto simp: packed_size_def)
  then obtain sz t where 1: "packed_size f fld n p s = Some (sz, t)" by blast
  show "\<exists>r. encode_packed env f fld n p s = Some r"
  proof (cases sz)
    case None
    with 1 show ?thesis by (auto simp: encode_packed_def)
  next
    case (Some k)
    have "returns (\<lambda>t. if os_callback (os t) = OC_Null then Some (pb_write env [] k t)
      else array_loop f (f_data_size fld) (unat n) p t)"
      using loop by (auto simp: returns_def)
    from returnsD [OF returns_seq [OF returns_ret_opt this]] 1 Some show ?thesis
      by (simp add: encode_packed_def)
  qed
qed

lemma returns_array:
  "(\<And>p. returns (func fld p)) \<Longrightarrow> returns (encode_array env m fld p n func)"
  by (auto simp: encode_array_def intro!: ret_intros returns_packed)

lemma proto3_returns:
  "(ltype f = PB_LTYPE_SUBMESSAGE \<longrightarrow> shallow n desc (desc (f_ptr f))) \<Longrightarrow>
   pb_check_proto3_default_value (Suc n) desc m f p \<noteq> None"
proof (induction n arbitrary: f p)
  case 0
  then show ?case by simp
next
  case (Suc n)
  let ?D = "desc (f_ptr f)"
  let ?body = "\<lambda>it (u::unit). map_option (\<lambda>b. (b, u))
    (pb_check_proto3_default_value (Suc n) desc m (it_field it) (it_pData it))"
  show ?case
  proof (cases "ltype f = PB_LTYPE_SUBMESSAGE")
    case True
    with Suc.prems have sh: "shallow (Suc n) desc ?D" by blast
    have "returns (?body (iter_at ?D p i))" if "i < nfields ?D" for i
    proof -
      have "field_at ?D i \<in> set (live_fields ?D)" using that by (simp add: field_at_live)
      with sh have "ltype (field_at ?D i) = PB_LTYPE_SUBMESSAGE \<longrightarrow> shallow n desc (desc (f_ptr (field_at ?D i)))"
        by (simp add: list_all_iff)
      from Suc.IH [OF this, of "it_pData (iter_at ?D p i)"] that show ?thesis
        by (auto simp: returns_def simp del: pb_check_proto3_default_value.simps)
    qed
    then have "returns (iter_loop ?body (iter_at ?D p 0))" if "0 < nfields ?D"
      using that by (rule returns_iter_loop)
    then show ?thesis
      unfolding pb_check_proto3_default_value.simps(2) [of "Suc n"] iter_begin_eq
      by (auto simp: returns_def simp del: pb_check_proto3_default_value.simps iter_at.simps)
  next
    case False
    then show ?thesis
      unfolding pb_check_proto3_default_value.simps(2) [of "Suc n"]
      by (simp del: pb_check_proto3_default_value.simps)
  qed
qed

text \<open>Callbacks of the application have to come back.\<close>

definition callbacks_return :: "'w oenv \<Rightarrow> bool" where
  "callbacks_return env \<longleftrightarrow> (\<forall>fn f a. returns (oe_encode env fn f a))"

lemma encoder_not_null:
  "encodable f \<Longrightarrow> PB_ENCODERS ! unat (ltype f) \<noteq> Enc_null
     \<and> (PB_ENCODERS ! unat (ltype f) = Enc_submessage \<longrightarrow> ltype f = PB_LTYPE_SUBMESSAGE)"
  by (auto simp: encodable_def PB_ENCODERS_def nth_Cons word_unat_eq_iff split: nat.splits)

lemma returns_basic:
  assumes enc: "encodable f"
    and sub: "ltype f = PB_LTYPE_SUBMESSAGE \<Longrightarrow>
      shallow n (oe_fields env) (oe_fields env (f_ptr f)) \<and> (\<forall>p. returns (rec (oe_fields env (f_ptr f)) p))"
  shows "returns (encode_basic_field (Suc n) rec env m f p)"
proof -
  have "\<exists>has. implicit_has (Suc n) env m f p = Some has"
    using proto3_returns [of f n "oe_fields env" m p] sub
    by (auto simp: implicit_has_def simp del: pb_check_proto3_default_value.simps)
  then obtain has where has: "implicit_has (Suc n) env m f p = Some has" by blast
  have call: "returns (call_encoder rec env m (PB_ENCODERS ! unat (ltype f)) f q)" for q
    using encoder_not_null [OF enc] sub by (intro returns_call) auto
  have emit: "returns (seq_opt (ret_opt (pb_encode_tag_for_field env f))
      (call_encoder rec env m (PB_ENCODERS ! unat (ltype f)) f q))" for q
    by (intro ret_intros call)
  have arr: "returns (encode_array env m f q k (call_encoder rec env m (PB_ENCODERS ! unat (ltype f))))" for q k
    by (intro returns_array call)
  have ok: "\<not> length PB_ENCODERS \<le> unat (ltype f)" using enc by (simp add: encodable_def)
  note simps = encode_basic_field_def has ok Let_def emit arr returns_Some returns_ret_opt
  consider "htype f = PB_HTYPE_REQUIRED" | "htype f = PB_HTYPE_OPTIONAL"
    | "htype f = PB_HTYPE_REPEATED" "f_size_offset f \<noteq> 0" | "htype f = PB_HTYPE_ONEOF" "f_size_offset f \<noteq> 0"
    using htype_cases [of f] enc by (auto simp: encodable_def)
  then show ?thesis by cases (simp_all add: simps)
qed

lemma returns_one:
  assumes cb: "callbacks_return env" and enc: "encodable (it_field it)"
    and sub: "ltype (it_field it) = PB_LTYPE_SUBMESSAGE \<Longrightarrow>
      shallow n (oe_fields env) (oe_fields env (f_ptr (it_field it)))
      \<and> (\<forall>p. returns (rec (oe_fields env (f_ptr (it_field it))) p))"
  shows "returns (encode_one (Suc n) rec env m it)"
proof -
  have "returns (encode_callback_field env m f p)" for f p
  proof (rule returnsI)
    fix s
    obtain r where "oe_encode env (callback_funcs m p) f (callback_arg p) s = Some r"
      using cb by (fastforce simp: callbacks_return_def returns_def)
    then show "\<exists>r. encode_callback_field env m f p s = Some r"
      by (cases r) (auto simp: encode_callback_field_def)
  qed
  moreover have "returns (encode_basic_field (Suc n) rec env m (it_field it) p)" for p
    by (rule returns_basic) (use enc sub in auto)
  ultimately show ?thesis using enc
    by (auto simp: encode_one_def encode_field_def encodable_def intro: ret_intros)
qed

lemma shallow_returns:
  "callbacks_return env \<Longrightarrow> shallow n (oe_fields env) flds \<Longrightarrow> returns (pb_encode n env m flds src)"
proof (induction n arbitrary: flds src)
  case (Suc n)
  have "returns (encode_one (Suc n) (pb_encode n env m) env m (iter_at flds src i))" if "i < nfields flds" for i
  proof -
    have "field_at flds i \<in> set (live_fields flds)" using that by (simp add: field_at_live)
    with Suc.prems that show ?thesis
      by (intro returns_one) (auto simp: list_all_iff intro: Suc.IH)
  qed
  then have "returns (iter_loop (encode_one (Suc n) (pb_encode n env m) env m) (iter_at flds src 0))"
    if "0 < nfields flds"
    using that by (rule returns_iter_loop)
  then show ?case
    by (auto simp: iter_begin_eq simp del: iter_at.simps intro: ret_intros)
qed simp

end
