(* ===== verification/Pb_Istream.thy ===== *)
theory Pb_Istream
  imports Pb_Types
begin

text \<open>
  Input streams and the primitive decoders of \<^verbatim>\<open>nanopb/pb_decode.c\<close>: \<^verbatim>\<open>buf_read\<close>,
  \<^verbatim>\<open>pb_read\<close>, \<^verbatim>\<open>pb_readbyte\<close>, the decoders of variable-length and fixed-width integers and
  tags, skipping, and the limited-length substreams.

  The bytes a memory stream reads from are the stream's own object \<open>is_buf\<close> with the
  position \<open>is_state\<close>; the memory the decoder writes the message to is \<open>dmem\<close>. A stream
  callback of the application is a parameter: it delivers bytes and may change the stream's
  \<open>state\<close> pointer and the application's world \<open>'w\<close>. A function with an output argument
  returns \<open>None\<close> where the C function returns \<^verbatim>\<open>false\<close>.
\<close>

section \<open>Streams\<close>

datatype icallback = IC_BufRead | IC_User addr

record pb_istream =
  is_callback :: icallback
  is_buf :: mem
  is_state :: addr
  is_bytes_left :: u64
  is_errmsg :: "string option"

record 'w istate =
  ist :: pb_istream
  dmem :: mem
  iuser :: 'w

record 'w ienv =
  ie_read :: "addr \<Rightarrow> nat \<Rightarrow> addr \<times> 'w \<Rightarrow> (bool \<times> u8 list) \<times> addr \<times> 'w"
  ie_decode :: "addr \<Rightarrow> pb_field \<Rightarrow> addr \<Rightarrow> 'w istate \<Rightarrow> (bool \<times> 'w istate) option"
  ie_ext_decode ::
    "addr \<Rightarrow> addr \<Rightarrow> u32 \<Rightarrow> pb_wire_type \<Rightarrow> 'w istate \<Rightarrow> (bool \<times> 'w istate) option"
  ie_fields :: "addr \<Rightarrow> pb_field list"
  ie_ext_type :: "addr \<Rightarrow> pb_extension_type"

definition is_set_error :: "string \<Rightarrow> 'w istate \<Rightarrow> 'w istate" where
  "is_set_error msg s = s\<lparr>ist := (ist s)\<lparr>is_errmsg := PB_SET_ERROR msg (is_errmsg (ist s))\<rparr>\<rparr>"

definition is_return_error :: "string \<Rightarrow> 'w istate \<Rightarrow> bool \<times> 'w istate" where
  "is_return_error msg s = (False, is_set_error msg s)"

definition pb_istream_from_buffer :: "mem \<Rightarrow> addr \<Rightarrow> u64 \<Rightarrow> pb_istream" where
  "pb_istream_from_buffer m buf bufsize = \<lparr>is_callback = IC_BufRead, is_buf = m, is_state = buf,
     is_bytes_left = bufsize, is_errmsg = None\<rparr>"

definition buf_read :: "bool \<Rightarrow> u64 \<Rightarrow> 'w istate \<Rightarrow> (bool \<times> u8 list) \<times> 'w istate" where
  "buf_read null count s =
     (let source = is_state (ist s) in
      ((True, if null then [] else mem_read (is_buf (ist s)) source (unat count)),
       s\<lparr>ist := (ist s)\<lparr>is_state := source + uint count\<rparr>\<rparr>))"

definition is_call :: "'w ienv \<Rightarrow> bool \<Rightarrow> u64 \<Rightarrow> 'w istate \<Rightarrow> (bool \<times> u8 list) \<times> 'w istate" where
  "is_call env null count s =
     (case is_callback (ist s) of
        IC_BufRead \<Rightarrow> buf_read null count s
      | IC_User f \<Rightarrow>
          (let (r, st, w) = ie_read env f (unat count) (is_state (ist s), iuser s)
           in (r, s\<lparr>ist := (ist s)\<lparr>is_state := st\<rparr>, iuser := w\<rparr>)))"

text \<open>
  \<^verbatim>\<open>pb_read\<close> returns the bytes that were stored at its buffer pointer, none when
  \<open>null\<close>. \<open>pb_read_direct\<close> is the part behind the skipping loop.
\<close>

definition pb_read_direct ::
  "'w ienv \<Rightarrow> bool \<Rightarrow> u64 \<Rightarrow> 'w istate \<Rightarrow> (bool \<times> u8 list) \<times> 'w istate" where
  "pb_read_direct env null count s =
     (if is_bytes_left (ist s) < count then ((False, []), is_set_error ''end-of-stream'' s)
      else
        let ((ok, bs), s1) = is_call env null count s in
        if \<not> ok then ((False, bs), is_set_error ''io error'' s1)
        else ((True, bs),
              s1\<lparr>ist := (ist s1)\<lparr>is_bytes_left := is_bytes_left (ist s1) - count\<rparr>\<rparr>))"

function pb_read_skip :: "'w ienv \<Rightarrow> u64 \<Rightarrow> 'w istate \<Rightarrow> (bool \<times> u8 list) \<times> 'w istate" where
  "pb_read_skip env count s =
     (if count > 16 then
        let ((ok, tmp), s1) = pb_read_direct env False 16 s in
        if \<not> ok then ((False, []), s1) else pb_read_skip env (count - 16) s1
      else
        let ((ok, tmp), s1) = pb_read_direct env False count s in ((ok, []), s1))"
  by pat_completeness auto
termination
proof (relation "measure (\<lambda>(env, count, s). unat count)")
  fix env :: "'w ienv" and count :: u64 and s s1 :: "'w istate"
  assume c: "count > 16"
  then have "unat (count - 16) = unat count - 16" by (simp add: unat_sub less_imp_le)
  moreover have "16 < unat count" using c by (simp add: word_less_nat_alt)
  ultimately have "unat (count - 16) < unat count" by simp
  then show "((env, count - 16, s1), env, count, s) \<in> measure (\<lambda>(env, count, s). unat count)"
    by simp
qed simp

declare pb_read_skip.simps [simp del]

definition pb_read :: "'w ienv \<Rightarrow> bool \<Rightarrow> u64 \<Rightarrow> 'w istate \<Rightarrow> (bool \<times> u8 list) \<times> 'w istate" where
  "pb_read env null count s =
     (if null \<and> is_callback (ist s) \<noteq> IC_BufRead then pb_read_skip env count s
      else pb_read_direct env null count s)"

text \<open>Byte \<open>i\<close> of a local array into which \<open>bs\<close> was read.\<close>

definition byte_at :: "u8 list \<Rightarrow> nat \<Rightarrow> u8" where
  "byte_at bs i = (if i < length bs then bs ! i else 0)"

definition pb_readbyte :: "'w ienv \<Rightarrow> 'w istate \<Rightarrow> u8 option \<times> 'w istate" where
  "pb_readbyte env s =
     (if is_bytes_left (ist s) = 0 then (None, is_set_error ''end-of-stream'' s)
      else
        let ((ok, bs), s1) = is_call env False 1 s in
        if \<not> ok then (None, is_set_error ''io error'' s1)
        else (Some (byte_at bs 0),
              s1\<lparr>ist := (ist s1)\<lparr>is_bytes_left := is_bytes_left (ist s1) - 1\<rparr>\<rparr>))"

section \<open>Integers\<close>

function decode_varint32_loop ::
  "'w ienv \<Rightarrow> nat \<Rightarrow> u32 \<Rightarrow> 'w istate \<Rightarrow> u32 option \<times> 'w istate" where
  "decode_varint32_loop env bitpos result s =
     (if bitpos \<ge> 32 then (None, is_set_error ''varint overflow'' s)
      else
        case pb_readbyte env s of
          (None, s1) \<Rightarrow> (None, s1)
        | (Some byte, s1) \<Rightarrow>
            let result' = result OR push_bit bitpos (ucast (byte AND 0x7F)) in
            if byte AND 0x80 \<noteq> 0 then decode_varint32_loop env (bitpos + 7) result' s1
            else (Some result', s1))"
  by pat_completeness auto
termination by (relation "measure (\<lambda>(env, bitpos, result, s). 39 - bitpos)") auto

definition pb_decode_varint32 :: "'w ienv \<Rightarrow> 'w istate \<Rightarrow> u32 option \<times> 'w istate" where
  "pb_decode_varint32 env s =
     (case pb_readbyte env s of
        (None, s1) \<Rightarrow> (None, s1)
      | (Some byte, s1) \<Rightarrow>
          if byte AND 0x80 = 0 then (Some (ucast byte), s1)
          else decode_varint32_loop env 7 (ucast (byte AND 0x7F)) s1)"

function decode_varint_loop ::
  "'w ienv \<Rightarrow> nat \<Rightarrow> u64 \<Rightarrow> 'w istate \<Rightarrow> u64 option \<times> 'w istate" where
  "decode_varint_loop env bitpos result s =
     (if bitpos \<ge> 64 then (None, is_set_error ''varint overflow'' s)
      else
        case pb_readbyte env s of
          (None, s1) \<Rightarrow> (None, s1)
        | (Some byte, s1) \<Rightarrow>
            let result' = result OR push_bit bitpos (ucast (byte AND 0x7F)) in
            if byte AND 0x80 \<noteq> 0 then decode_varint_loop env (bitpos + 7) result' s1
            else (Some result', s1))"
  by pat_completeness auto
termination by (relation "measure (\<lambda>(env, bitpos, result, s). 71 - bitpos)") auto

declare decode_varint32_loop.simps [simp del] decode_varint_loop.simps [simp del]

definition pb_decode_varint :: "'w ienv \<Rightarrow> 'w istate \<Rightarrow> u64 option \<times> 'w istate" where
  "pb_decode_varint env s = decode_varint_loop env 0 0 s"

definition unzigzag :: "u64 \<Rightarrow> u64" where
  "unzigzag value = (if value AND 1 \<noteq> 0 then NOT (drop_bit 1 value) else drop_bit 1 value)"

definition pb_decode_svarint :: "'w ienv \<Rightarrow> 'w istate \<Rightarrow> u64 option \<times> 'w istate" where
  "pb_decode_svarint env s =
     (case pb_decode_varint env s of
        (None, s1) \<Rightarrow> (None, s1)
      | (Some value, s1) \<Rightarrow> (Some (unzigzag value), s1))"

definition pb_decode_fixed32 :: "'w ienv \<Rightarrow> 'w istate \<Rightarrow> u32 option \<times> 'w istate" where
  "pb_decode_fixed32 env s =
     (let ((ok, bytes), s1) = pb_read env False 4 s in
      if \<not> ok then (None, s1)
      else (Some (push_bit 0 (ucast (byte_at bytes 0)) OR push_bit 8 (ucast (byte_at bytes 1))
               OR push_bit 16 (ucast (byte_at bytes 2)) OR push_bit 24 (ucast (byte_at bytes 3))),
            s1))"

definition pb_decode_fixed64 :: "'w ienv \<Rightarrow> 'w istate \<Rightarrow> u64 option \<times> 'w istate" where
  "pb_decode_fixed64 env s =
     (let ((ok, bytes), s1) = pb_read env False 8 s in
      if \<not> ok then (None, s1)
      else (Some (push_bit 0 (ucast (byte_at bytes 0)) OR push_bit 8 (ucast (byte_at bytes 1))
               OR push_bit 16 (ucast (byte_at bytes 2)) OR push_bit 24 (ucast (byte_at bytes 3))
               OR push_bit 32 (ucast (byte_at bytes 4)) OR push_bit 40 (ucast (byte_at bytes 5))
               OR push_bit 48 (ucast (byte_at bytes 6)) OR push_bit 56 (ucast (byte_at bytes 7))),
            s1))"

section \<open>Tags and skipping\<close>

text \<open>The four outputs of \<^verbatim>\<open>pb_decode_tag\<close>: the returned boolean, wire type, tag and \<open>eof\<close>.\<close>

definition pb_decode_tag ::
  "'w ienv \<Rightarrow> 'w istate \<Rightarrow> (bool \<times> pb_wire_type \<times> u32 \<times> bool) \<times> 'w istate" where
  "pb_decode_tag env s =
     (case pb_decode_varint32 env s of
        (None, s1) \<Rightarrow> ((False, 0, 0, is_bytes_left (ist s1) = 0), s1)
      | (Some temp, s1) \<Rightarrow>
          if temp = 0 then ((False, 0, 0, True), s1)
          else ((True, temp AND 7, drop_bit 3 temp, False), s1))"

lemma is_call_ist:
  "is_call env null count s = (r, t) \<Longrightarrow>
   is_bytes_left (ist t) = is_bytes_left (ist s) \<and> is_callback (ist t) = is_callback (ist s)
   \<and> is_buf (ist t) = is_buf (ist s) \<and> is_errmsg (ist t) = is_errmsg (ist s) \<and> dmem t = dmem s"
  by (auto simp: is_call_def buf_read_def Let_def split: icallback.splits prod.splits)

lemma unat_pred_less: "w \<noteq> 0 \<Longrightarrow> unat (w - 1) < unat w" for w :: "'a::len word"
  by (simp add: unat_minus_one unat_gt_0)

lemma pb_read_1_decreases:
  "pb_read env False 1 s = (r, t) \<Longrightarrow> fst r \<Longrightarrow>
   unat (is_bytes_left (ist t)) < unat (is_bytes_left (ist s))"
  by (auto simp: pb_read_def pb_read_direct_def Let_def
      split: if_splits prod.splits dest!: is_call_ist intro: unat_pred_less)

function pb_skip_varint :: "'w ienv \<Rightarrow> 'w istate \<Rightarrow> bool \<times> 'w istate" where
  "pb_skip_varint env s =
     (case pb_read env False 1 s of
        (r, s1) \<Rightarrow>
          if \<not> fst r then (False, s1)
          else if byte_at (snd r) 0 AND 0x80 \<noteq> 0 then pb_skip_varint env s1
          else (True, s1))"
  by pat_completeness auto
termination
  by (relation "measure (\<lambda>(env, s). unat (is_bytes_left (ist s)))")
    (auto dest: pb_read_1_decreases [OF sym])

declare pb_skip_varint.simps [simp del]

definition pb_skip_string :: "'w ienv \<Rightarrow> 'w istate \<Rightarrow> bool \<times> 'w istate" where
  "pb_skip_string env s =
     (case pb_decode_varint32 env s of
        (None, s1) \<Rightarrow> (False, s1)
      | (Some len, s1) \<Rightarrow> (let ((ok, _), s2) = pb_read env True (ucast len) s1 in (ok, s2)))"

definition pb_skip_field :: "'w ienv \<Rightarrow> pb_wire_type \<Rightarrow> 'w istate \<Rightarrow> bool \<times> 'w istate" where
  "pb_skip_field env wire_type s =
     (if wire_type = PB_WT_VARINT then pb_skip_varint env s
      else if wire_type = PB_WT_64BIT then (let ((ok, _), s1) = pb_read env True 8 s in (ok, s1))
      else if wire_type = PB_WT_STRING then pb_skip_string env s
      else if wire_type = PB_WT_32BIT then (let ((ok, _), s1) = pb_read env True 4 s in (ok, s1))
      else is_return_error ''invalid wire_type'' s)"

text \<open>
  \<^verbatim>\<open>read_raw_value\<close> with a buffer of \<open>max_size\<close> bytes; it returns the bytes it stored. The
  loop for varints counts down the room that is left.
\<close>

fun read_raw_varint :: "'w ienv \<Rightarrow> nat \<Rightarrow> 'w istate \<Rightarrow> u8 list option \<times> 'w istate" where
  "read_raw_varint env 0 s = (None, s)"
| "read_raw_varint env (Suc room) s =
     (let ((ok, b), s1) = pb_read env False 1 s in
      if \<not> ok then (None, s1)
      else if byte_at b 0 AND 0x80 \<noteq> 0
      then (case read_raw_varint env room s1 of
              (None, s2) \<Rightarrow> (None, s2)
            | (Some bs, s2) \<Rightarrow> (Some (byte_at b 0 # bs), s2))
      else (Some [byte_at b 0], s1))"

definition read_raw_value ::
  "'w ienv \<Rightarrow> pb_wire_type \<Rightarrow> nat \<Rightarrow> 'w istate \<Rightarrow> u8 list option \<times> 'w istate" where
  "read_raw_value env wire_type max_size s =
     (if wire_type = PB_WT_VARINT then read_raw_varint env max_size s
      else if wire_type = PB_WT_64BIT then
        (let ((ok, bs), s1) = pb_read env False 8 s
         in (if ok then Some (map (byte_at bs) [0..<8]) else None, s1))
      else if wire_type = PB_WT_32BIT then
        (let ((ok, bs), s1) = pb_read env False 4 s
         in (if ok then Some (map (byte_at bs) [0..<4]) else None, s1))
      else (None, is_set_error ''invalid wire_type'' s))"

section \<open>Substreams\<close>

definition pb_make_string_substream :: "'w ienv \<Rightarrow> 'w istate \<Rightarrow> pb_istream option \<times> 'w istate" where
  "pb_make_string_substream env s =
     (case pb_decode_varint32 env s of
        (None, s1) \<Rightarrow> (None, s1)
      | (Some sz, s1) \<Rightarrow>
          let substream = ist s1 in
          if is_bytes_left substream < ucast sz
          then (None, is_set_error ''parent stream too short'' s1)
          else (Some (substream\<lparr>is_bytes_left := ucast sz\<rparr>),
                s1\<lparr>ist := (ist s1)\<lparr>is_bytes_left := is_bytes_left (ist s1) - ucast sz\<rparr>\<rparr>))"

text \<open>
  \<open>s\<close> has the parent stream in \<open>ist\<close>; the substream runs with the same memory and world and
  is then put away.
\<close>

definition pb_close_string_substream :: "'w ienv \<Rightarrow> pb_istream \<Rightarrow> 'w istate \<Rightarrow> bool \<times> 'w istate" where
  "pb_close_string_substream env substream s =
     (let (ok, s1) =
        (if is_bytes_left substream \<noteq> 0
         then (let ((ok, _), t) = pb_read env True (is_bytes_left substream) (s\<lparr>ist := substream\<rparr>)
               in (ok, t))
         else (True, s\<lparr>ist := substream\<rparr>))
      in if \<not> ok then (False, s1\<lparr>ist := ist s\<rparr>)
         else (True, s1\<lparr>ist := (ist s)\<lparr>is_state := is_state (ist s1),
                                      is_errmsg := is_errmsg (ist s1)\<rparr>\<rparr>))"

section \<open>What a memory stream holds\<close>

text \<open>The next bytes of a memory stream are \<open>bs\<close>, and the stream after \<open>n\<close> bytes were taken.\<close>

definition holds :: "u8 list \<Rightarrow> 'w istate \<Rightarrow> bool" where
  "holds bs s \<longleftrightarrow> is_callback (ist s) = IC_BufRead
     \<and> int (length bs) \<le> uint (is_bytes_left (ist s))
     \<and> mem_read (is_buf (ist s)) (is_state (ist s)) (length bs) = bs"

definition is_skip :: "nat \<Rightarrow> 'w istate \<Rightarrow> 'w istate" where
  "is_skip n s = s\<lparr>ist := (ist s)\<lparr>is_state := is_state (ist s) + int n,
     is_bytes_left := is_bytes_left (ist s) - of_nat n\<rparr>\<rparr>"

lemma is_skip_sel [stream_simps]:
  "is_callback (ist (is_skip n s)) = is_callback (ist s)"
  "is_buf (ist (is_skip n s)) = is_buf (ist s)"
  "is_state (ist (is_skip n s)) = is_state (ist s) + int n"
  "is_bytes_left (ist (is_skip n s)) = is_bytes_left (ist s) - of_nat n"
  "is_errmsg (ist (is_skip n s)) = is_errmsg (ist s)"
  "dmem (is_skip n s) = dmem s" "iuser (is_skip n s) = iuser s"
  by (simp_all add: is_skip_def)

lemma is_skip_0 [simp]: "is_skip 0 s = s"
  by (simp add: is_skip_def)

lemma is_skip_skip [simp]: "is_skip n (is_skip k s) = is_skip (k + n) s"
  by (simp add: is_skip_def algebra_simps)

lemma uint_sub_small:
  fixes w :: u64
  assumes "int n \<le> uint w"
  shows "uint (w - of_nat n) = uint w - int n"
proof -
  have "uint w < 2 ^ 64" using uint_lt2p [of w] by simp
  moreover have "uint (w - of_nat n) = (uint w - int n) mod 2 ^ 64"
    by (simp add: uint_word_ariths unsigned_of_nat take_bit_eq_mod zmod_int mod_simps)
  ultimately show ?thesis using assms by simp
qed

lemma holds_Nil [simp]: "holds [] s \<longleftrightarrow> is_callback (ist s) = IC_BufRead"
  by (simp add: holds_def)

lemma holds_append:
  "holds (xs @ ys) s \<longleftrightarrow> holds xs s \<and> holds ys (is_skip (length xs) s)"
proof (cases "int (length xs) \<le> uint (is_bytes_left (ist s))")
  case True
  then show ?thesis
    by (auto simp: holds_def stream_simps mem_read_add uint_sub_small)
next
  case False
  then show ?thesis by (simp add: holds_def)
qed

lemma holds_Cons: "holds (b # bs) s \<longleftrightarrow> holds [b] s \<and> holds bs (is_skip 1 s)"
  using holds_append [of "[b]" bs s] by simp

lemma holds_left: "holds (b # bs) s \<Longrightarrow> is_bytes_left (ist s) \<noteq> 0"
  by (auto simp: holds_def)

lemma pb_readbyte_holds: "holds (b # bs) s \<Longrightarrow> pb_readbyte env s = (Some b, is_skip 1 s)"
  using holds_left [of b bs s]
  by (auto simp: pb_readbyte_def is_call_def buf_read_def holds_def is_skip_def byte_at_def Let_def
      mem_read_Suc)

lemma unat_of_nat_left:
  "int n \<le> uint (w :: u64) \<Longrightarrow> unat (of_nat n :: u64) = n \<and> uint (of_nat n :: u64) = int n"
  using uint_lt2p [of w] by (auto simp: unat_of_nat unsigned_of_nat take_bit_eq_mod)

lemma pb_read_holds:
  assumes "holds bs s"
  shows "pb_read env null (of_nat (length bs)) s = ((True, if null then [] else bs), is_skip (length bs) s)"
proof -
  have l: "int (length bs) \<le> uint (is_bytes_left (ist s))"
    and m: "mem_read (is_buf (ist s)) (is_state (ist s)) (length bs) = bs"
    and c: "is_callback (ist s) = IC_BufRead"
    using assms by (auto simp: holds_def)
  from unat_of_nat_left [OF l]
  have u: "unat (of_nat (length bs) :: u64) = length bs" "uint (of_nat (length bs) :: u64) = int (length bs)"
    by auto
  then have "\<not> is_bytes_left (ist s) < of_nat (length bs)"
    using l by (simp add: word_less_def)
  with c m u show ?thesis
    by (simp add: pb_read_def pb_read_direct_def is_call_def buf_read_def is_skip_def Let_def)
qed

section \<open>Decoding groups of seven bits\<close>

text \<open>
  The number that a sequence of seven-bit groups stands for, lowest group first, in the
  arithmetic of the result type.
\<close>

fun groups_word :: "u8 list \<Rightarrow> 'a::len word" where
  "groups_word [] = 0"
| "groups_word (b # bs) = ucast (b AND 0x7F) OR push_bit 7 (groups_word bs)"

text \<open>A well-formed varint: continuation bytes and a last byte with the top bit clear.\<close>

definition varint_form :: "u8 list \<Rightarrow> bool" where
  "varint_form bs \<longleftrightarrow> bs \<noteq> [] \<and> (\<forall>c\<in>set (butlast bs). c AND 0x80 \<noteq> 0) \<and> last bs AND 0x80 = 0"

lemma varint_form_Cons:
  "varint_form (b # bs) \<longleftrightarrow> (if b AND 0x80 = 0 then bs = [] else varint_form bs)"
  by (cases bs) (auto simp: varint_form_def)

lemma varint_form_Nil [simp]: "\<not> varint_form []"
  by (simp add: varint_form_def)

lemma decode_varint_loop_groups:
  assumes "varint_form bs" "holds bs s" "bitpos + 7 * (length bs - 1) < 64"
  shows "decode_varint_loop env bitpos r s =
    (Some (r OR push_bit bitpos (groups_word bs)), is_skip (length bs) s)"
  using assms
proof (induction bs arbitrary: bitpos r s)
  case (Cons b bs)
  let ?r = "r OR push_bit bitpos (ucast (b AND 0x7F))"
  have rd: "pb_readbyte env s = (Some b, is_skip 1 s)"
    using Cons.prems(2) by (rule pb_readbyte_holds)
  show ?case
  proof (cases "b AND 0x80 = 0")
    case True
    with Cons.prems have "bs = []" "bitpos < 64" by (auto simp: varint_form_Cons)
    with True rd show ?thesis by (subst decode_varint_loop.simps) (simp add: Let_def)
  next
    case False
    with Cons.prems have f: "varint_form bs" and h: "holds bs (is_skip 1 s)"
      by (auto simp: varint_form_Cons holds_Cons [of b bs])
    then obtain n where n: "length bs = Suc n" by (cases bs) auto
    with Cons.prems(3) have "bitpos < 64" "bitpos + 7 + 7 * (length bs - 1) < 64" by auto
    then show ?thesis
      using False rd Cons.IH [OF f h, of "bitpos + 7" ?r]
      by (subst decode_varint_loop.simps) (simp add: Let_def or.assoc)
  qed
qed simp

lemma decode_varint32_loop_groups:
  assumes "varint_form bs" "holds bs s" "bitpos + 7 * (length bs - 1) < 32"
  shows "decode_varint32_loop env bitpos r s =
    (Some (r OR push_bit bitpos (groups_word bs)), is_skip (length bs) s)"
  using assms
proof (induction bs arbitrary: bitpos r s)
  case (Cons b bs)
  let ?r = "r OR push_bit bitpos (ucast (b AND 0x7F))"
  have rd: "pb_readbyte env s = (Some b, is_skip 1 s)"
    using Cons.prems(2) by (rule pb_readbyte_holds)
  show ?case
  proof (cases "b AND 0x80 = 0")
    case True
    with Cons.prems have "bs = []" "bitpos < 32" by (auto simp: varint_form_Cons)
    with True rd show ?thesis by (subst decode_varint32_loop.simps) (simp add: Let_def)
  next
    case False
    with Cons.prems have f: "varint_form bs" and h: "holds bs (is_skip 1 s)"
      by (auto simp: varint_form_Cons holds_Cons [of b bs])
    then obtain n where n: "length bs = Suc n" by (cases bs) auto
    with Cons.prems(3) have "bitpos < 32" "bitpos + 7 + 7 * (length bs - 1) < 32" by auto
    then show ?thesis
      using False rd Cons.IH [OF f h, of "bitpos + 7" ?r]
      by (subst decode_varint32_loop.simps) (simp add: Let_def or.assoc)
  qed
qed simp

lemma pb_decode_varint_groups:
  "varint_form bs \<Longrightarrow> length bs \<le> 10 \<Longrightarrow> holds bs s \<Longrightarrow>
   pb_decode_varint env s = (Some (groups_word bs), is_skip (length bs) s)"
  using decode_varint_loop_groups [of bs s 0 env 0] by (simp add: pb_decode_varint_def)

lemma byte_low7: "b AND 0x80 = 0 \<Longrightarrow> b AND 0x7F = b" for b :: u8
proof -
  assume "b AND 0x80 = 0"
  then have "b = (b AND 0x7F) OR (b AND 0x80) \<Longrightarrow> ?thesis" by simp
  moreover have "b = (b AND 0x7F) OR (b AND 0x80)"
    by (rule bit_word_eqI) (auto simp: bit_simps less_Suc_eq eval_nat_numeral)
  ultimately show ?thesis by blast
qed

lemma pb_decode_varint32_groups:
  assumes "varint_form bs" "length bs \<le> 5" "holds bs s"
  shows "pb_decode_varint32 env s = (Some (groups_word bs), is_skip (length bs) s)"
proof (cases bs)
  case (Cons b cs)
  have rd: "pb_readbyte env s = (Some b, is_skip 1 s)"
    using assms(3) Cons pb_readbyte_holds by blast
  show ?thesis
  proof (cases "b AND 0x80 = 0")
    case True
    with assms Cons have "cs = []" by (simp add: varint_form_Cons)
    with True Cons rd show ?thesis by (simp add: pb_decode_varint32_def byte_low7)
  next
    case False
    with assms Cons have f: "varint_form cs" and h: "holds cs (is_skip 1 s)" and "length cs \<le> 4"
      by (auto simp: varint_form_Cons holds_Cons [of b cs])
    with False Cons rd show ?thesis
      using decode_varint32_loop_groups [OF f h, of 7 env "ucast (b AND 0x7F)"]
      by (auto simp: pb_decode_varint32_def)
  qed
qed (use assms in simp)

section \<open>Readers stay inside their stream\<close>

text \<open>
  \<open>iwithin s t\<close>: from \<open>s\<close> to \<open>t\<close> the stream only moved forward, and for a memory stream the
  position and the count of bytes left moved together, so that every byte taken lay between
  the position and the end that \<open>s\<close> had.
\<close>

definition iwithin :: "'w istate \<Rightarrow> 'w istate \<Rightarrow> bool" where
  "iwithin s t \<longleftrightarrow> is_callback (ist t) = is_callback (ist s) \<and> is_buf (ist t) = is_buf (ist s)
     \<and> uint (is_bytes_left (ist t)) \<le> uint (is_bytes_left (ist s))
     \<and> (is_callback (ist s) = IC_BufRead \<longrightarrow>
          is_state (ist t) + uint (is_bytes_left (ist t)) = is_state (ist s) + uint (is_bytes_left (ist s)))"

lemma iwithin_refl [simp]: "iwithin s s"
  by (simp add: iwithin_def)

lemma iwithin_trans [trans]: "iwithin s t \<Longrightarrow> iwithin t u \<Longrightarrow> iwithin s u"
  by (auto simp: iwithin_def)

lemma iwithin_set_error [simp]: "iwithin s (is_set_error msg t) = iwithin s t"
  by (simp add: iwithin_def is_set_error_def)

lemma dmem_set_error [simp]: "dmem (is_set_error msg t) = dmem t"
  by (simp add: is_set_error_def)

locale reader =
  fixes rd :: "'w istate \<Rightarrow> 'r \<times> 'w istate"
  assumes rd_within: "rd s = (r, t) \<Longrightarrow> iwithin s t"
    and rd_dmem: "rd s = (r, t) \<Longrightarrow> dmem t = dmem s"
begin

lemma position_bounds:
  assumes "is_callback (ist s) = IC_BufRead" "rd s = (r, t)"
  shows "is_state (ist s) \<le> is_state (ist t)
    \<and> is_state (ist t) \<le> is_state (ist s) + uint (is_bytes_left (ist s))"
proof -
  have "0 \<le> uint (is_bytes_left (ist t))" by simp
  moreover have "uint (is_bytes_left (ist t)) \<le> uint (is_bytes_left (ist s))"
    and "is_state (ist t) + uint (is_bytes_left (ist t)) = is_state (ist s) + uint (is_bytes_left (ist s))"
    using rd_within [OF assms(2)] assms(1) by (simp_all add: iwithin_def)
  ultimately show ?thesis by linarith
qed

end

lemma pb_read_direct_within:
  assumes "pb_read_direct env null count s = (r, t)"
  shows "iwithin s t \<and> dmem t = dmem s"
proof (cases "is_bytes_left (ist s) < count")
  case True
  with assms show ?thesis by (auto simp: pb_read_direct_def)
next
  case False
  then have le: "count \<le> is_bytes_left (ist s)" by simp
  then have sub: "uint (is_bytes_left (ist s) - count) = uint (is_bytes_left (ist s)) - uint count"
    by (simp add: uint_minus_simple_alt)
  obtain ok bs s1 where c: "is_call env null count s = ((ok, bs), s1)" by (metis prod.collapse)
  have pos: "is_state (ist s1) = is_state (ist s) + uint count" if "is_callback (ist s) = IC_BufRead"
    using c that by (auto simp: is_call_def buf_read_def Let_def)
  show ?thesis
  proof (cases ok)
    case True
    with assms False c is_call_ist [OF c] sub pos show ?thesis
      by (auto simp: pb_read_direct_def iwithin_def Let_def)
  next
    case False: False
    then have "is_callback (ist s) \<noteq> IC_BufRead"
      using c by (auto simp: is_call_def buf_read_def Let_def)
    with assms \<open>\<not> is_bytes_left (ist s) < count\<close> c is_call_ist [OF c] False show ?thesis
      by (auto simp: pb_read_direct_def iwithin_def Let_def is_set_error_def)
  qed
qed

lemma pb_read_skip_within:
  "pb_read_skip env count s = (r, t) \<Longrightarrow> iwithin s t \<and> dmem t = dmem s"
proof (induction env count s rule: pb_read_skip.induct)
  case (1 env count s)
  obtain ok tmp s1 where rd: "pb_read_direct env False 16 s = ((ok, tmp), s1)" by (metis prod.collapse)
  show ?case
  proof (cases "count > 16 \<and> ok")
    case True
    with "1.prems" rd have "pb_read_skip env (count - 16) s1 = (r, t)"
      by (subst (asm) pb_read_skip.simps) simp
    with "1.IH" [of _ "(ok, tmp)" s1 ok tmp] True rd have "iwithin s1 t \<and> dmem t = dmem s1" by auto
    with pb_read_direct_within [OF rd] show ?thesis using iwithin_trans by auto
  next
    case False
    with "1.prems" rd show ?thesis
      by (subst (asm) pb_read_skip.simps) (auto split: if_splits prod.splits dest: pb_read_direct_within)
  qed
qed

interpretation read: reader "pb_read env null count" for env null count
proof
  fix s :: "'a istate" and r t
  assume "pb_read env null count s = (r, t)"
  then show "iwithin s t" "dmem t = dmem s"
    by (auto simp: pb_read_def split: if_splits dest: pb_read_direct_within pb_read_skip_within)
qed

lemma pb_readbyte_eq:
  "pb_readbyte env s = (case pb_read env False 1 s of
     ((ok, bs), t) \<Rightarrow> (if ok then Some (byte_at bs 0) else None, t))"
proof (cases "is_bytes_left (ist s) = 0")
  case True
  then show ?thesis by (simp add: pb_readbyte_def pb_read_def pb_read_direct_def)
next
  case False
  then have "\<not> is_bytes_left (ist s) < 1" by (metis word_less_1)
  with False show ?thesis
    by (auto simp: pb_readbyte_def pb_read_def pb_read_direct_def Let_def split: prod.splits)
qed

interpretation readbyte: reader "pb_readbyte env" for env
proof
  fix s :: "'a istate" and r t
  assume "pb_readbyte env s = (r, t)"
  then obtain r' where "pb_read env False 1 s = (r', t)"
    by (auto simp: pb_readbyte_eq split: prod.splits)
  then show "iwithin s t" "dmem t = dmem s" by (auto dest: read.rd_within read.rd_dmem)
qed

lemma readbyte_decreases:
  "pb_readbyte env s = (Some b, t) \<Longrightarrow> unat (is_bytes_left (ist t)) < unat (is_bytes_left (ist s))"
  by (auto simp: pb_readbyte_eq split: prod.splits if_splits dest: pb_read_1_decreases)

lemma decode_varint_loop_within:
  "decode_varint_loop env bitpos x s = (r, t) \<Longrightarrow> iwithin s t \<and> dmem t = dmem s"
proof (induction env bitpos x s rule: decode_varint_loop.induct)
  case (1 env bitpos x s)
  obtain b s1 where rd: "pb_readbyte env s = (b, s1)" by fastforce
  then have s1: "iwithin s s1" "dmem s1 = dmem s" by (auto dest: readbyte.rd_within readbyte.rd_dmem)
  show ?case
  proof (cases "bitpos < 64 \<and> (\<exists>c. b = Some c \<and> c AND 0x80 \<noteq> 0)")
    case True
    then obtain c where c: "b = Some c" "c AND 0x80 \<noteq> 0" "\<not> 64 \<le> bitpos" by auto
    then have "decode_varint_loop env (bitpos + 7) (x OR push_bit bitpos (ucast (c AND 0x7F))) s1 = (r, t)"
      using "1.prems" rd by (subst (asm) decode_varint_loop.simps) (simp add: Let_def)
    with "1.IH" c rd s1 show ?thesis using iwithin_trans by fastforce
  next
    case False
    with "1.prems" rd s1 show ?thesis
      by (subst (asm) decode_varint_loop.simps) (auto simp: Let_def split: if_splits option.splits)
  qed
qed

lemma decode_varint32_loop_within:
  "decode_varint32_loop env bitpos x s = (r, t) \<Longrightarrow> iwithin s t \<and> dmem t = dmem s"
proof (induction env bitpos x s rule: decode_varint32_loop.induct)
  case (1 env bitpos x s)
  obtain b s1 where rd: "pb_readbyte env s = (b, s1)" by fastforce
  then have s1: "iwithin s s1" "dmem s1 = dmem s" by (auto dest: readbyte.rd_within readbyte.rd_dmem)
  show ?case
  proof (cases "bitpos < 32 \<and> (\<exists>c. b = Some c \<and> c AND 0x80 \<noteq> 0)")
    case True
    then obtain c where c: "b = Some c" "c AND 0x80 \<noteq> 0" "\<not> 32 \<le> bitpos" by auto
    then have "decode_varint32_loop env (bitpos + 7) (x OR push_bit bitpos (ucast (c AND 0x7F))) s1 = (r, t)"
      using "1.prems" rd by (subst (asm) decode_varint32_loop.simps) (simp add: Let_def)
    with "1.IH" c rd s1 show ?thesis using iwithin_trans by fastforce
  next
    case False
    with "1.prems" rd s1 show ?thesis
      by (subst (asm) decode_varint32_loop.simps) (auto simp: Let_def split: if_splits option.splits)
  qed
qed

interpretation varint_rd: reader "pb_decode_varint env" for env
  by unfold_locales (auto simp: pb_decode_varint_def dest: decode_varint_loop_within)

interpretation varint32_rd: reader "pb_decode_varint32 env" for env
proof
  fix s :: "'a istate" and r t
  assume a: "pb_decode_varint32 env s = (r, t)"
  obtain b s1 where rd: "pb_readbyte env s = (b, s1)" by fastforce
  from a rd consider "t = s1" | x where "decode_varint32_loop env 7 x s1 = (r, t)"
    by (auto simp: pb_decode_varint32_def split: option.splits if_splits)
  then have "iwithin s1 t \<and> dmem t = dmem s1" by cases (auto dest: decode_varint32_loop_within)
  then show "iwithin s t" "dmem t = dmem s"
    using readbyte.rd_within [OF rd] readbyte.rd_dmem [OF rd] iwithin_trans by auto
qed

interpretation svarint_rd: reader "pb_decode_svarint env" for env
  by unfold_locales (auto simp: pb_decode_svarint_def split: prod.splits option.splits
      dest: varint_rd.rd_within varint_rd.rd_dmem)

interpretation fixed32_rd: reader "pb_decode_fixed32 env" for env
  by unfold_locales (auto simp: pb_decode_fixed32_def Let_def split: prod.splits if_splits
      dest: read.rd_within read.rd_dmem)

interpretation fixed64_rd: reader "pb_decode_fixed64 env" for env
  by unfold_locales (auto simp: pb_decode_fixed64_def Let_def split: prod.splits if_splits
      dest: read.rd_within read.rd_dmem)

interpretation tag_rd: reader "pb_decode_tag env" for env
  by unfold_locales (auto simp: pb_decode_tag_def split: prod.splits option.splits if_splits
      dest: varint32_rd.rd_within varint32_rd.rd_dmem)

lemma pb_skip_varint_within:
  "pb_skip_varint env s = (r, t) \<Longrightarrow> iwithin s t \<and> dmem t = dmem s"
proof (induction env s rule: pb_skip_varint.induct)
  case (1 env s)
  obtain q s1 where rd: "pb_read env False 1 s = (q, s1)" by fastforce
  then have s1: "iwithin s s1" "dmem s1 = dmem s" by (auto dest: read.rd_within read.rd_dmem)
  show ?case
  proof (cases "fst q \<and> byte_at (snd q) 0 AND 0x80 \<noteq> 0")
    case True
    with "1.prems" rd have "pb_skip_varint env s1 = (r, t)"
      by (subst (asm) pb_skip_varint.simps) simp
    with "1.IH" [OF rd [symmetric]] True s1 show ?thesis using iwithin_trans by fastforce
  next
    case False
    with "1.prems" rd s1 show ?thesis
      by (subst (asm) pb_skip_varint.simps) (auto split: if_splits)
  qed
qed

interpretation skip_string_rd: reader "pb_skip_string env" for env
proof
  fix s :: "'a istate" and r t
  assume a: "pb_skip_string env s = (r, t)"
  obtain n s1 where rd: "pb_decode_varint32 env s = (n, s1)" by fastforce
  from a rd consider "t = s1" | q c where "pb_read env True c s1 = (q, t)"
    by (auto simp: pb_skip_string_def Let_def split: option.splits prod.splits)
  then have "iwithin s1 t \<and> dmem t = dmem s1" by cases (auto dest: read.rd_within read.rd_dmem)
  then show "iwithin s t" "dmem t = dmem s"
    using varint32_rd.rd_within [OF rd] varint32_rd.rd_dmem [OF rd] iwithin_trans by auto
qed

interpretation skip_field_rd: reader "pb_skip_field env wt" for env wt
  by unfold_locales (auto simp: pb_skip_field_def is_return_error_def Let_def
      split: if_splits prod.splits
      dest: pb_skip_varint_within read.rd_within read.rd_dmem skip_string_rd.rd_within skip_string_rd.rd_dmem)

end
