(* ===== verification/Pb_Decode.thy ===== *)
theory Pb_Decode
  imports Pb_Istream Pb_Common
begin

text \<open>
  The message decoder of \<^verbatim>\<open>nanopb/pb_decode.c\<close> in the configuration without
  \<^verbatim>\<open>PB_ENABLE_MALLOC\<close>: field decoders, static, pointer and callback fields, extensions,
  default values, \<^verbatim>\<open>pb_decode_noinit\<close>, \<^verbatim>\<open>pb_decode\<close> and \<^verbatim>\<open>pb_decode_delimited\<close>.

  The message, its extensions and its default values lie in \<open>dmem\<close>. A command returns
  \<open>None\<close> where the C code has no defined result: a call through a null or out-of-range entry
  of \<^verbatim>\<open>PB_DECODERS\<close>, a shift by the full width, an index behind \<^verbatim>\<open>fields_seen\<close>, a callback
  that does not return, and more nesting or more rounds of a loop than the fuel. The
  functions that take \<open>rec\<close> are the bodies of the recursion through \<^verbatim>\<open>pb_decode_noinit\<close>.
\<close>

type_synonym 'w icmd = "'w istate \<Rightarrow> (bool \<times> 'w istate) option"
type_synonym 'w msg_decoder = "pb_field list \<Rightarrow> addr \<Rightarrow> 'w icmd"

section \<open>Stores\<close>

definition is_store :: "addr \<Rightarrow> u8 list \<Rightarrow> 'w istate \<Rightarrow> 'w istate" where
  "is_store p bs s = s\<lparr>dmem := mem_write (dmem s) p bs\<rparr>"

text \<open>\<^verbatim>\<open>pb_read\<close> with the destination in the message.\<close>

definition pb_read_into :: "'w ienv \<Rightarrow> addr \<Rightarrow> u64 \<Rightarrow> 'w istate \<Rightarrow> bool \<times> 'w istate" where
  "pb_read_into env dest count s =
     (let ((ok, bs), s1) = pb_read env False count s
      in (ok, is_store dest (take (unat count) bs) s1))"

section \<open>Field decoders\<close>

text \<open>
  Storing a 64-bit number in a member of \<open>data_size\<close> bytes: the bytes that are stored and
  the number read back, sign- or zero-extended.
\<close>

definition clamp_signed :: "u32 \<Rightarrow> u64 \<Rightarrow> (u8 list \<times> u64) option" where
  "clamp_signed data_size v =
     (if data_size = 8 then Some (word_to_le 8 v, v)
      else if data_size = 4 then Some (word_to_le 4 (ucast v :: u32), scast (ucast v :: u32))
      else if data_size = 2 then Some (word_to_le 2 (ucast v :: u16), scast (ucast v :: u16))
      else if data_size = 1 then Some (word_to_le 1 (ucast v :: u8), scast (ucast v :: u8))
      else None)"

definition clamp_unsigned :: "u32 \<Rightarrow> u64 \<Rightarrow> (u8 list \<times> u64) option" where
  "clamp_unsigned data_size v =
     (if data_size = 8 then Some (word_to_le 8 v, v)
      else if data_size = 4 then Some (word_to_le 4 (ucast v :: u32), ucast (ucast v :: u32))
      else if data_size = 2 then Some (word_to_le 2 (ucast v :: u16), ucast (ucast v :: u16))
      else if data_size = 1 then Some (word_to_le 1 (ucast v :: u8), ucast (ucast v :: u8))
      else None)"

text \<open>The common end of the three integer decoders.\<close>

definition store_clamped :: "(u8 list \<times> u64) option \<Rightarrow> u64 \<Rightarrow> addr \<Rightarrow> 'w istate \<Rightarrow> bool \<times> 'w istate" where
  "store_clamped c v dest s =
     (case c of
        None \<Rightarrow> is_return_error ''invalid data_size'' s
      | Some (bs, clamped) \<Rightarrow>
          let s1 = is_store dest bs s in
          if clamped \<noteq> v then is_return_error ''integer too large'' s1 else (True, s1))"

definition pb_dec_varint :: "'w ienv \<Rightarrow> pb_field \<Rightarrow> addr \<Rightarrow> 'w istate \<Rightarrow> bool \<times> 'w istate" where
  "pb_dec_varint env field dest s =
     (case pb_decode_varint env s of
        (None, s1) \<Rightarrow> (False, s1)
      | (Some value, s1) \<Rightarrow>
          let svalue = (if f_data_size field = 8 then value else scast (ucast value :: u32)) in
          store_clamped (clamp_signed (f_data_size field) svalue) svalue dest s1)"

definition pb_dec_uvarint :: "'w ienv \<Rightarrow> pb_field \<Rightarrow> addr \<Rightarrow> 'w istate \<Rightarrow> bool \<times> 'w istate" where
  "pb_dec_uvarint env field dest s =
     (case pb_decode_varint env s of
        (None, s1) \<Rightarrow> (False, s1)
      | (Some value, s1) \<Rightarrow> store_clamped (clamp_unsigned (f_data_size field) value) value dest s1)"

definition pb_dec_svarint :: "'w ienv \<Rightarrow> pb_field \<Rightarrow> addr \<Rightarrow> 'w istate \<Rightarrow> bool \<times> 'w istate" where
  "pb_dec_svarint env field dest s =
     (case pb_decode_svarint env s of
        (None, s1) \<Rightarrow> (False, s1)
      | (Some value, s1) \<Rightarrow> store_clamped (clamp_signed (f_data_size field) value) value dest s1)"

definition pb_dec_fixed32 :: "'w ienv \<Rightarrow> pb_field \<Rightarrow> addr \<Rightarrow> 'w istate \<Rightarrow> bool \<times> 'w istate" where
  "pb_dec_fixed32 env field dest s =
     (case pb_decode_fixed32 env s of
        (None, s1) \<Rightarrow> (False, s1)
      | (Some v, s1) \<Rightarrow> (True, is_store dest (word_to_le 4 v) s1))"

definition pb_dec_fixed64 :: "'w ienv \<Rightarrow> pb_field \<Rightarrow> addr \<Rightarrow> 'w istate \<Rightarrow> bool \<times> 'w istate" where
  "pb_dec_fixed64 env field dest s =
     (case pb_decode_fixed64 env s of
        (None, s1) \<Rightarrow> (False, s1)
      | (Some v, s1) \<Rightarrow> (True, is_store dest (word_to_le 8 v) s1))"

definition pb_dec_bytes :: "'w ienv \<Rightarrow> pb_field \<Rightarrow> addr \<Rightarrow> 'w istate \<Rightarrow> bool \<times> 'w istate" where
  "pb_dec_bytes env field dest s =
     (case pb_decode_varint32 env s of
        (None, s1) \<Rightarrow> (False, s1)
      | (Some sz, s1) \<Rightarrow>
          let alloc_size = PB_BYTES_ARRAY_T_ALLOCSIZE sz in
          if sz > PB_SIZE_MAX then is_return_error ''bytes overflow'' s1
          else if ucast sz > alloc_size then is_return_error ''size too large'' s1
          else if PB_ATYPE (f_type field) = PB_ATYPE_POINTER
          then is_return_error ''no malloc support'' s1
          else if alloc_size > ucast (f_data_size field) then is_return_error ''bytes overflow'' s1
          else pb_read_into env (bytes_bytes dest) (ucast sz) (is_store dest (word_to_le 4 sz) s1))"

definition pb_dec_string :: "'w ienv \<Rightarrow> pb_field \<Rightarrow> addr \<Rightarrow> 'w istate \<Rightarrow> bool \<times> 'w istate" where
  "pb_dec_string env field dest s =
     (case pb_decode_varint32 env s of
        (None, s1) \<Rightarrow> (False, s1)
      | (Some sz, s1) \<Rightarrow>
          let alloc_size = ucast (sz + 1) :: u64 in
          if alloc_size < ucast sz then is_return_error ''size too large'' s1
          else if PB_ATYPE (f_type field) = PB_ATYPE_POINTER
          then is_return_error ''no malloc support'' s1
          else if alloc_size > ucast (f_data_size field) then is_return_error ''string overflow'' s1
          else
            let (status, s2) = pb_read_into env dest (ucast sz) s1
            in (status, is_store (dest + uint sz) [0] s2))"

definition pb_dec_fixed_length_bytes :: "'w ienv \<Rightarrow> pb_field \<Rightarrow> addr \<Rightarrow> 'w istate \<Rightarrow> bool \<times> 'w istate" where
  "pb_dec_fixed_length_bytes env field dest s =
     (case pb_decode_varint32 env s of
        (None, s1) \<Rightarrow> (False, s1)
      | (Some sz, s1) \<Rightarrow>
          if sz > PB_SIZE_MAX then is_return_error ''bytes overflow'' s1
          else if sz = 0 then (True, is_store dest (replicate (unat (f_data_size field)) 0) s1)
          else if sz \<noteq> f_data_size field
          then is_return_error ''incorrect fixed length bytes size'' s1
          else pb_read_into env dest (ucast (f_data_size field)) s1)"

section \<open>Default values\<close>

text \<open>The fake iterator of an extension field.\<close>

definition iter_from_extension :: "'w ienv \<Rightarrow> mem \<Rightarrow> addr \<Rightarrow> pb_field_iter" where
  "iter_from_extension env m extension =
     (let field = et_arg (ie_ext_type env (ext_type m extension));
          dest = load_ptr m (ext_dest extension);
          iter = snd (pb_field_iter_begin [field] dest)
      in iter\<lparr>it_pData := if PB_ATYPE (f_type field) = PB_ATYPE_POINTER then ext_dest extension else dest,
              it_pSize := ext_found extension\<rparr>)"

text \<open>The walk of \<^verbatim>\<open>pb_field_set_to_default\<close> along a chain of extensions.\<close>

fun ext_defaults_loop ::
  "nat \<Rightarrow> (pb_field_iter \<Rightarrow> mem \<Rightarrow> mem option) \<Rightarrow> 'w ienv \<Rightarrow> addr \<Rightarrow> mem \<Rightarrow> mem option" where
  "ext_defaults_loop 0 setf env e m = (if e = 0 then Some m else None)"
| "ext_defaults_loop (Suc k) setf env e m =
     (if e = 0 then Some m
      else
        let m1 = m(ext_found e := 0) in
        case setf (iter_from_extension env m1 e) m1 of None \<Rightarrow> None
        | Some m2 \<Rightarrow> ext_defaults_loop k setf env (ext_next m2 e) m2)"

text \<open>\<^verbatim>\<open>pb_message_set_to_defaults\<close> over the function that sets one field.\<close>

definition set_all_to_default ::
  "(pb_field_iter \<Rightarrow> mem \<Rightarrow> mem option) \<Rightarrow> pb_field list \<Rightarrow> addr \<Rightarrow> mem \<Rightarrow> mem option" where
  "set_all_to_default setf flds dest m =
     (let (begun, iter) = pb_field_iter_begin flds dest in
      if begun
      then map_option snd (iter_loop (\<lambda>it m. map_option (\<lambda>m'. (True, m')) (setf it m)) iter m)
      else Some m)"

definition set_data_to_default ::
  "(pb_field list \<Rightarrow> addr \<Rightarrow> mem \<Rightarrow> mem option) \<Rightarrow> 'w ienv \<Rightarrow> pb_field_iter \<Rightarrow> mem \<Rightarrow> mem option" where
  "set_data_to_default msg env it m =
     (let f = it_field it in
      if PB_LTYPE (f_type f) = PB_LTYPE_SUBMESSAGE then msg (ie_fields env (f_ptr f)) (it_pData it) m
      else if f_ptr f \<noteq> 0
      then Some (mem_write m (it_pData it) (mem_read m (f_ptr f) (unat (f_data_size f))))
      else Some (mem_write m (it_pData it) (replicate (unat (f_data_size f)) 0)))"

primrec pb_field_set_to_default :: "nat \<Rightarrow> 'w ienv \<Rightarrow> pb_field_iter \<Rightarrow> mem \<Rightarrow> mem option" where
  "pb_field_set_to_default 0 env = (\<lambda>it m. None)"
| "pb_field_set_to_default (Suc n) env = (\<lambda>it m.
     let f = it_field it; ht = PB_HTYPE (f_type f); at = PB_ATYPE (f_type f);
         data = set_data_to_default (set_all_to_default (pb_field_set_to_default n env)) env it
     in
       if PB_LTYPE (f_type f) = PB_LTYPE_EXTENSION
       then ext_defaults_loop n (pb_field_set_to_default n env) env (load_ptr m (it_pData it)) m
       else if at = PB_ATYPE_STATIC then
         if ht = PB_HTYPE_OPTIONAL \<and> it_pSize it \<noteq> it_pData it then data (m(it_pSize it := 0))
         else if ht = PB_HTYPE_REPEATED \<or> ht = PB_HTYPE_ONEOF
         then Some (store_le 4 (0 :: u32) (it_pSize it) m)
         else data m
       else if at = PB_ATYPE_POINTER then
         let m1 = store_le 8 (0 :: u64) (it_pData it) m in
         if ht = PB_HTYPE_REPEATED \<or> ht = PB_HTYPE_ONEOF
         then Some (store_le 4 (0 :: u32) (it_pSize it) m1)
         else Some m1
       else Some m)"

definition pb_message_set_to_defaults ::
  "nat \<Rightarrow> 'w ienv \<Rightarrow> pb_field list \<Rightarrow> addr \<Rightarrow> mem \<Rightarrow> mem option" where
  "pb_message_set_to_defaults n env flds dest = set_all_to_default (pb_field_set_to_default n env) flds dest"

section \<open>Submessages\<close>

text \<open>A command on a substream, while the parent stream waits.\<close>

definition on_substream ::
  "pb_istream \<Rightarrow> 'w icmd \<Rightarrow> 'w istate \<Rightarrow> (bool \<times> pb_istream \<times> 'w istate) option" where
  "on_substream sub cmd s =
     (case cmd (s\<lparr>ist := sub\<rparr>) of None \<Rightarrow> None
      | Some (ok, t) \<Rightarrow> Some (ok, ist t, t\<lparr>ist := ist s\<rparr>))"

text \<open>Closing a substream in front of a return of \<open>status\<close>.\<close>

definition close_and_return :: "'w ienv \<Rightarrow> bool \<Rightarrow> pb_istream \<Rightarrow> 'w istate \<Rightarrow> bool \<times> 'w istate" where
  "close_and_return env status sub s =
     (let (ok, t) = pb_close_string_substream env sub s in if \<not> ok then (False, t) else (status, t))"

text \<open>\<^verbatim>\<open>pb_decode\<close> over \<^verbatim>\<open>pb_decode_noinit\<close>.\<close>

definition init_and_decode :: "nat \<Rightarrow> 'w msg_decoder \<Rightarrow> 'w ienv \<Rightarrow> 'w msg_decoder" where
  "init_and_decode n rec env flds dest s =
     (case pb_message_set_to_defaults n env flds dest (dmem s) of None \<Rightarrow> None
      | Some m \<Rightarrow> rec flds dest (s\<lparr>dmem := m\<rparr>))"

definition pb_dec_submessage :: "nat \<Rightarrow> 'w msg_decoder \<Rightarrow> 'w ienv \<Rightarrow> pb_field \<Rightarrow> addr \<Rightarrow> 'w icmd" where
  "pb_dec_submessage n rec env field dest s =
     (case pb_make_string_substream env s of
        (None, s1) \<Rightarrow> Some (False, s1)
      | (Some sub, s1) \<Rightarrow>
          if f_ptr field = 0 then Some (is_return_error ''invalid field descriptor'' s1)
          else
            let flds = ie_fields env (f_ptr field);
                dec = (if PB_HTYPE (f_type field) = PB_HTYPE_REPEATED
                       then init_and_decode n rec env flds dest else rec flds dest)
            in (case on_substream sub dec s1 of None \<Rightarrow> None
                | Some (status, sub', s2) \<Rightarrow> Some (close_and_return env status sub' s2)))"

datatype decoder = Dec_varint | Dec_uvarint | Dec_svarint | Dec_fixed32 | Dec_fixed64
  | Dec_bytes | Dec_string | Dec_submessage | Dec_null | Dec_fixed_length_bytes

definition PB_DECODERS :: "decoder list" where
  "PB_DECODERS = [Dec_varint, Dec_uvarint, Dec_svarint, Dec_fixed32, Dec_fixed64,
     Dec_bytes, Dec_string, Dec_submessage, Dec_null, Dec_fixed_length_bytes]"

primrec call_decoder ::
  "nat \<Rightarrow> 'w msg_decoder \<Rightarrow> 'w ienv \<Rightarrow> decoder \<Rightarrow> pb_field \<Rightarrow> addr \<Rightarrow> 'w icmd" where
  "call_decoder n rec env Dec_varint field dest = ret_opt (pb_dec_varint env field dest)"
| "call_decoder n rec env Dec_uvarint field dest = ret_opt (pb_dec_uvarint env field dest)"
| "call_decoder n rec env Dec_svarint field dest = ret_opt (pb_dec_svarint env field dest)"
| "call_decoder n rec env Dec_fixed32 field dest = ret_opt (pb_dec_fixed32 env field dest)"
| "call_decoder n rec env Dec_fixed64 field dest = ret_opt (pb_dec_fixed64 env field dest)"
| "call_decoder n rec env Dec_bytes field dest = ret_opt (pb_dec_bytes env field dest)"
| "call_decoder n rec env Dec_string field dest = ret_opt (pb_dec_string env field dest)"
| "call_decoder n rec env Dec_submessage field dest = pb_dec_submessage n rec env field dest"
| "call_decoder n rec env Dec_null field dest = (\<lambda>s. None)"
| "call_decoder n rec env Dec_fixed_length_bytes field dest =
     ret_opt (pb_dec_fixed_length_bytes env field dest)"

section \<open>Static fields\<close>

text \<open>The entry behind the last one, with the 32-bit multiplication of the source.\<close>

definition array_item :: "pb_field_iter \<Rightarrow> mem \<Rightarrow> addr" where
  "array_item it m = it_pData it + uint (f_data_size (it_field it) * (load_le 4 m (it_pSize it) :: u32))"

definition array_full :: "pb_field_iter \<Rightarrow> mem \<Rightarrow> bool" where
  "array_full it m \<longleftrightarrow> (load_le 4 m (it_pSize it) :: u32) \<ge> f_array_size (it_field it)"

definition bump_size :: "pb_field_iter \<Rightarrow> 'w istate \<Rightarrow> 'w istate" where
  "bump_size it s = s\<lparr>dmem := store_le 4 ((load_le 4 (dmem s) (it_pSize it) :: u32) + 1) (it_pSize it) (dmem s)\<rparr>"

text \<open>The loop over a packed array, run on the substream.\<close>

fun packed_loop :: "nat \<Rightarrow> (addr \<Rightarrow> 'w icmd) \<Rightarrow> pb_field_iter \<Rightarrow> 'w icmd" where
  "packed_loop 0 func it s = None"
| "packed_loop (Suc k) func it s =
     (if is_bytes_left (ist s) > 0 \<and> \<not> array_full it (dmem s)
      then case func (array_item it (dmem s)) s of None \<Rightarrow> None
           | Some (ok, t) \<Rightarrow> if \<not> ok then Some (False, t) else packed_loop k func it (bump_size it t)
      else Some (True, s))"

definition decode_packed ::
  "nat \<Rightarrow> 'w ienv \<Rightarrow> (addr \<Rightarrow> 'w icmd) \<Rightarrow> pb_field_iter \<Rightarrow> 'w icmd" where
  "decode_packed k env func it s =
     (case pb_make_string_substream env s of
        (None, s1) \<Rightarrow> Some (False, s1)
      | (Some sub, s1) \<Rightarrow>
          (case on_substream sub (packed_loop k func it) s1 of None \<Rightarrow> None
           | Some (status, sub', s2) \<Rightarrow>
               if is_bytes_left sub' \<noteq> 0 then Some (is_return_error ''array overflow'' s2)
               else Some (close_and_return env status sub' s2)))"

definition decode_repeated :: "(addr \<Rightarrow> 'w icmd) \<Rightarrow> pb_field_iter \<Rightarrow> 'w icmd" where
  "decode_repeated func it s =
     (if array_full it (dmem s) then Some (is_return_error ''array overflow'' s)
      else func (array_item it (dmem s)) (bump_size it s))"

definition decode_static_field ::
  "nat \<Rightarrow> 'w msg_decoder \<Rightarrow> 'w ienv \<Rightarrow> pb_wire_type \<Rightarrow> pb_field_iter \<Rightarrow> 'w icmd" where
  "decode_static_field n rec env wire_type it s =
     (let f = it_field it; lt = PB_LTYPE (f_type f); ht = PB_HTYPE (f_type f) in
      if length PB_DECODERS \<le> unat lt then None
      else
        let func = call_decoder n rec env (PB_DECODERS ! unat lt) f in
        if ht = PB_HTYPE_REQUIRED then func (it_pData it) s
        else if ht = PB_HTYPE_OPTIONAL
        then func (it_pData it) (if it_pSize it \<noteq> it_pData it then is_store (it_pSize it) [1] s else s)
        else if ht = PB_HTYPE_REPEATED then
          if wire_type = PB_WT_STRING \<and> lt \<le> PB_LTYPE_LAST_PACKABLE
          then decode_packed n env func it s
          else decode_repeated func it s
        else
          let s1 = s\<lparr>dmem := store_le 4 (f_tag f) (it_pSize it) (dmem s)\<rparr> in
          if lt = PB_LTYPE_SUBMESSAGE then
            case pb_message_set_to_defaults n env (ie_fields env (f_ptr f)) (it_pData it)
                   (mem_write (dmem s1) (it_pData it) (replicate (unat (f_data_size f)) 0)) of
              None \<Rightarrow> None
            | Some m \<Rightarrow> func (it_pData it) (s1\<lparr>dmem := m\<rparr>)
          else func (it_pData it) s1)"

section \<open>Pointer and callback fields\<close>

definition decode_pointer_field :: "pb_wire_type \<Rightarrow> pb_field_iter \<Rightarrow> 'w icmd" where
  "decode_pointer_field wire_type it s = Some (is_return_error ''no malloc support'' s)"

fun callback_loop :: "nat \<Rightarrow> 'w icmd \<Rightarrow> 'w icmd" where
  "callback_loop 0 cb s = None"
| "callback_loop (Suc k) cb s =
     (case cb s of None \<Rightarrow> None
      | Some (ok, t) \<Rightarrow>
          if \<not> ok then Some (False, t)
          else if is_bytes_left (ist t) \<noteq> 0 then callback_loop k cb t else Some (True, t))"

text \<open>The stream over the local array of \<^verbatim>\<open>decode_callback_field\<close>, which is at address 0 of its own memory.\<close>

definition local_istream :: "u8 list \<Rightarrow> pb_istream" where
  "local_istream bs = pb_istream_from_buffer (\<lambda>x. byte_at bs (nat x)) 0 (of_nat (length bs))"

definition decode_callback_field ::
  "nat \<Rightarrow> 'w ienv \<Rightarrow> pb_wire_type \<Rightarrow> pb_field_iter \<Rightarrow> 'w icmd" where
  "decode_callback_field n env wire_type it s =
     (let fn = callback_funcs (dmem s) (it_pData it);
          cb = ie_decode env fn (it_field it) (callback_arg (it_pData it))
      in
      if fn = 0 then Some (pb_skip_field env wire_type s)
      else if wire_type = PB_WT_STRING then
        (case pb_make_string_substream env s of
           (None, s1) \<Rightarrow> Some (False, s1)
         | (Some sub, s1) \<Rightarrow>
             (case on_substream sub (callback_loop n cb) s1 of None \<Rightarrow> None
              | Some (ok, sub', s2) \<Rightarrow>
                  if \<not> ok then Some (is_return_error ''callback failed'' s2)
                  else Some (close_and_return env True sub' s2)))
      else
        (case read_raw_value env wire_type 10 s of
           (None, s1) \<Rightarrow> Some (False, s1)
         | (Some bs, s1) \<Rightarrow>
             (case on_substream (local_istream bs) cb s1 of None \<Rightarrow> None
              | Some (ok, sub', s2) \<Rightarrow> Some (ok, s2))))"

definition decode_field ::
  "nat \<Rightarrow> 'w msg_decoder \<Rightarrow> 'w ienv \<Rightarrow> pb_wire_type \<Rightarrow> pb_field_iter \<Rightarrow> 'w icmd" where
  "decode_field n rec env wire_type it s =
     (let at = PB_ATYPE (f_type (it_field it)) in
      if at = PB_ATYPE_STATIC then decode_static_field n rec env wire_type it s
      else if at = PB_ATYPE_POINTER then decode_pointer_field wire_type it s
      else if at = PB_ATYPE_CALLBACK then decode_callback_field n env wire_type it s
      else Some (is_return_error ''invalid field type'' s))"

section \<open>Extensions\<close>

definition default_extension_decoder ::
  "nat \<Rightarrow> 'w msg_decoder \<Rightarrow> 'w ienv \<Rightarrow> addr \<Rightarrow> u32 \<Rightarrow> pb_wire_type \<Rightarrow> 'w icmd" where
  "default_extension_decoder n rec env extension tag wire_type s =
     (let field = et_arg (ie_ext_type env (ext_type (dmem s) extension)) in
      if f_tag field \<noteq> tag then Some (True, s)
      else decode_field n rec env wire_type (iter_from_extension env (dmem s) extension)
             (is_store (ext_found extension) [1] s))"

text \<open>The loop of \<^verbatim>\<open>decode_extension\<close>; it stops when a handler has consumed input.\<close>

fun decode_extension_loop ::
  "nat \<Rightarrow> (addr \<Rightarrow> 'w icmd) \<Rightarrow> u64 \<Rightarrow> addr \<Rightarrow> 'w icmd" where
  "decode_extension_loop 0 one pos e s =
     (if e \<noteq> 0 \<and> pos = is_bytes_left (ist s) then None else Some (True, s))"
| "decode_extension_loop (Suc k) one pos e s =
     (if e \<noteq> 0 \<and> pos = is_bytes_left (ist s)
      then case one e s of None \<Rightarrow> None
           | Some (ok, t) \<Rightarrow>
               if \<not> ok then Some (False, t) else decode_extension_loop k one pos (ext_next (dmem t) e) t
      else Some (True, s))"

definition decode_extension ::
  "nat \<Rightarrow> 'w msg_decoder \<Rightarrow> 'w ienv \<Rightarrow> u32 \<Rightarrow> pb_wire_type \<Rightarrow> pb_field_iter \<Rightarrow> 'w icmd" where
  "decode_extension n rec env tag wire_type it s =
     decode_extension_loop n
       (\<lambda>e s. let t = ie_ext_type env (ext_type (dmem s) e) in
               if et_decode t \<noteq> 0 then ie_ext_decode env (et_decode t) e tag wire_type s
               else default_extension_decoder n rec env e tag wire_type s)
       (is_bytes_left (ist s)) (load_ptr (dmem s) (it_pData it)) s"

definition find_extension_field :: "pb_field_iter \<Rightarrow> (bool \<times> pb_field_iter) option" where
  "find_extension_field it =
     iter_find_loop (Suc (length (it_start it))) (it_pos it)
       (\<lambda>f. PB_LTYPE (f_type f) = PB_LTYPE_EXTENSION) it"

section \<open>Messages\<close>

definition PB_MAX_REQUIRED_FIELDS :: nat where "PB_MAX_REQUIRED_FIELDS = 64"

text \<open>The local variables of \<^verbatim>\<open>pb_decode_noinit\<close>.\<close>

record decode_locals =
  dl_iter :: pb_field_iter
  dl_seen :: "u32 list"
  dl_ext_start :: u32

definition mark_seen :: "pb_field_iter \<Rightarrow> u32 list \<Rightarrow> u32 list" where
  "mark_seen it seen =
     (let i = unat (it_required_field_index it) in
      if PB_HTYPE (f_type (it_field it)) = PB_HTYPE_REQUIRED \<and> i < PB_MAX_REQUIRED_FIELDS
      then seen[i div 32 := seen ! (i div 32) OR push_bit (i mod 32) 1]
      else seen)"

text \<open>The branch for a tag that no field has: extensions first, then skipping.\<close>

definition decode_unknown ::
  "nat \<Rightarrow> 'w msg_decoder \<Rightarrow> 'w ienv \<Rightarrow> u32 \<Rightarrow> pb_wire_type \<Rightarrow> decode_locals \<Rightarrow> 'w istate
   \<Rightarrow> (bool \<times> decode_locals \<times> 'w istate) option" where
  "decode_unknown n rec env tag wire_type dl s =
     (let skip = (\<lambda>dl s. let (ok, t) = pb_skip_field env wire_type s in Some (ok, dl, t)) in
      if tag \<ge> dl_ext_start dl then
        (case find_extension_field (dl_iter dl) of None \<Rightarrow> None
         | Some (found, it) \<Rightarrow>
             let dl1 = dl\<lparr>dl_iter := it, dl_ext_start := if found then f_tag (it_field it) else - 1\<rparr> in
             if tag \<ge> dl_ext_start dl1 then
               (case decode_extension n rec env tag wire_type it s of None \<Rightarrow> None
                | Some (ok, t) \<Rightarrow>
                    if \<not> ok then Some (False, dl1, t)
                    else if is_bytes_left (ist s) \<noteq> is_bytes_left (ist t) then Some (True, dl1, t)
                    else skip dl1 t)
             else skip dl1 s)
      else skip dl s)"

definition decode_one ::
  "nat \<Rightarrow> 'w msg_decoder \<Rightarrow> 'w ienv \<Rightarrow> u32 \<Rightarrow> pb_wire_type \<Rightarrow> decode_locals \<Rightarrow> 'w istate
   \<Rightarrow> (bool \<times> decode_locals \<times> 'w istate) option" where
  "decode_one n rec env tag wire_type dl s =
     (case pb_field_iter_find (dl_iter dl) tag of None \<Rightarrow> None
      | Some (found, it) \<Rightarrow>
          if \<not> found then decode_unknown n rec env tag wire_type (dl\<lparr>dl_iter := it\<rparr>) s
          else
            (case decode_field n rec env wire_type it s of None \<Rightarrow> None
             | Some (ok, t) \<Rightarrow> Some (ok, dl\<lparr>dl_iter := it, dl_seen := mark_seen it (dl_seen dl)\<rparr>, t)))"

fun decode_loop ::
  "nat \<Rightarrow> nat \<Rightarrow> 'w msg_decoder \<Rightarrow> 'w ienv \<Rightarrow> decode_locals \<Rightarrow> 'w istate
   \<Rightarrow> (bool \<times> decode_locals \<times> 'w istate) option" where
  "decode_loop 0 n rec env dl s = None"
| "decode_loop (Suc k) n rec env dl s =
     (if is_bytes_left (ist s) = 0 then Some (True, dl, s)
      else (case pb_decode_tag env s of ((ok, wire_type, tag, eof), s1) \<Rightarrow>
        if \<not> ok then Some (eof, dl, s1)
        else
          (case decode_one n rec env tag wire_type dl s1 of None \<Rightarrow> None
           | Some (ok, dl1, s2) \<Rightarrow> if \<not> ok then Some (False, dl1, s2) else decode_loop k n rec env dl1 s2)))"

text \<open>Seeking to the end of the field array: the last index and the last type.\<close>

function seek_end :: "pb_field_iter \<Rightarrow> u32 \<times> u8 \<times> pb_field_iter" where
  "seek_end it =
     (let (more, it') = pb_field_iter_next it in
      if more then seek_end it' else (it_required_field_index it, f_type (it_field it), it'))"
  by pat_completeness auto
termination
  by (relation "measure (\<lambda>it. length (it_start it) - it_pos it)") (auto dest!: iter_next_True [OF sym])

declare seek_end.simps [simp del]

definition req_field_count :: "pb_field_iter \<Rightarrow> u32" where
  "req_field_count it =
     (let (count, last_type, it') = seek_end it in
      if PB_HTYPE last_type = PB_HTYPE_REQUIRED \<and> f_tag (it_field it') \<noteq> 0 then count + 1 else count)"

text \<open>
  The check of \<^verbatim>\<open>fields_seen\<close>: \<open>None\<close> where the source reads behind the array or shifts a
  32-bit number by 32.
\<close>

definition check_seen :: "u32 list \<Rightarrow> u32 \<Rightarrow> bool option" where
  "check_seen seen count =
     (let words = unat count div 32; rest = unat count mod 32 in
      if count = 0 then Some True
      else if list_ex (\<lambda>i. i < length seen \<and> seen ! i \<noteq> - 1) [0..<words] then Some False
      else if length seen \<le> words \<or> rest = 0 then None
      else Some (seen ! words = drop_bit (32 - rest) (- 1)))"

primrec pb_decode_noinit :: "nat \<Rightarrow> 'w ienv \<Rightarrow> 'w msg_decoder" where
  "pb_decode_noinit 0 env = (\<lambda>flds dest s. None)"
| "pb_decode_noinit (Suc n) env = (\<lambda>flds dest s.
     let dl = \<lparr>dl_iter = snd (pb_field_iter_begin flds dest), dl_seen = [0, 0], dl_ext_start = 0\<rparr> in
     (case decode_loop (Suc n) n (pb_decode_noinit n env) env dl s of None \<Rightarrow> None
      | Some (ok, dl1, t) \<Rightarrow>
          if \<not> ok then Some (False, t)
          else
            (case check_seen (dl_seen dl1) (req_field_count (dl_iter dl1)) of None \<Rightarrow> None
             | Some complete \<Rightarrow>
                 if complete then Some (True, t)
                 else Some (is_return_error ''missing required field'' t))))"

definition pb_decode :: "nat \<Rightarrow> 'w ienv \<Rightarrow> 'w msg_decoder" where
  "pb_decode n env = init_and_decode n (pb_decode_noinit n env) env"

definition pb_decode_delimited :: "nat \<Rightarrow> 'w ienv \<Rightarrow> 'w msg_decoder" where
  "pb_decode_delimited n env flds dest s =
     (case pb_make_string_substream env s of
        (None, s1) \<Rightarrow> Some (False, s1)
      | (Some sub, s1) \<Rightarrow>
          (case on_substream sub (pb_decode n env flds dest) s1 of None \<Rightarrow> None
           | Some (status, sub', s2) \<Rightarrow> Some (close_and_return env status sub' s2)))"

end
