(* ===== verification/Pb_Example.thy ===== *)
theory Pb_Example
  imports Pb_Encode Pb_Decode
begin

text \<open>
  A message type as the generator of nanopb would describe it, with which the theorems are
  applied to concrete data:
  \<^verbatim>\<open>message Person { required int32 id = 1; optional string name = 2; repeated uint32 nums = 3; }\<close>
  for the struct
  \<^verbatim>\<open>{ int32_t id; bool has_name; char name[8]; pb_size_t nums_count; uint32_t nums[4]; }\<close>.
\<close>

definition mb_id :: member where "mb_id = \<lparr>mb_off = 0, mb_size = 4, mb_elem = 4\<rparr>"
definition mb_has_name :: member where "mb_has_name = \<lparr>mb_off = 4, mb_size = 1, mb_elem = 1\<rparr>"
definition mb_name :: member where "mb_name = \<lparr>mb_off = 5, mb_size = 8, mb_elem = 1\<rparr>"
definition mb_nums_count :: member where "mb_nums_count = \<lparr>mb_off = 16, mb_size = 4, mb_elem = 4\<rparr>"
definition mb_nums :: member where "mb_nums = \<lparr>mb_off = 20, mb_size = 16, mb_elem = 4\<rparr>"

definition person_fields :: "pb_field list" where
  "person_fields =
     [PB_REQUIRED_STATIC 1 mb_id (PB_DATAOFFSET_FIRST mb_id mb_id) PB_LTYPE_VARINT 0,
      PB_OPTIONAL_STATIC 2 mb_has_name mb_name (PB_DATAOFFSET_OTHER mb_name mb_id) PB_LTYPE_STRING 0,
      PB_REPEATED_STATIC 3 mb_nums_count mb_nums (PB_DATAOFFSET_OTHER mb_nums mb_name) PB_LTYPE_UVARINT 0]"

definition person_size :: nat where "person_size = 36"

text \<open>The struct \<^verbatim>\<open>{150, true, "ab", 2, {3, 270}}\<close> at address 100.\<close>

definition person_bytes :: "u8 list" where
  "person_bytes = [150, 0, 0, 0, 1, 97, 98, 0, 0, 0, 0, 0, 0, 0, 0, 0,
     2, 0, 0, 0, 3, 0, 0, 0, 14, 1, 0, 0, 0, 0, 0, 0, 0, 0, 0, 0]"

definition person_mem :: mem where "person_mem = mem_write (\<lambda>_. 0) 100 person_bytes"

text \<open>An application without callbacks of its own.\<close>

definition plain_oenv :: "unit oenv" where
  "plain_oenv = \<lparr>oe_write = (\<lambda>_ _ (st, w). (False, st, w)), oe_encode = (\<lambda>_ _ _ s. Some (False, s)),
     oe_ext_encode = (\<lambda>_ _ s. Some (False, s)), oe_fields = (\<lambda>_. []),
     oe_ext_type = (\<lambda>_. \<lparr>et_decode = 0, et_encode = 0, et_arg = PB_LAST_FIELD\<rparr>)\<rparr>"

definition plain_ienv :: "unit ienv" where
  "plain_ienv = \<lparr>ie_read = (\<lambda>_ _ (st, w). ((False, []), st, w)), ie_decode = (\<lambda>_ _ _ s. Some (False, s)),
     ie_ext_decode = (\<lambda>_ _ _ _ s. Some (False, s)), ie_fields = (\<lambda>_. []),
     ie_ext_type = (\<lambda>_. \<lparr>et_decode = 0, et_encode = 0, et_arg = PB_LAST_FIELD\<rparr>)\<rparr>"

text \<open>The encoding of the person: id, name, packed numbers.\<close>

definition person_wire :: "u8 list" where
  "person_wire = [8, 150, 1, 18, 2, 97, 98, 26, 3, 3, 142, 2]"

end
