(* ===== verification/Pb_Encode_Props.thy ===== *)
theory Pb_Encode_Props
  imports Pb_Encode_Spec Pb_Encode_Fuel Pb_Example
begin

text \<open>
  What an application can rely on when it encodes: exact output, refusal of small buffers,
  exact sizes, delimited messages, and that the encoder comes back. Each property is applied
  to the person of \<^verbatim>\<open>Pb_Example\<close>.
\<close>

section \<open>The person\<close>

definition no_cb :: cb_spec where "no_cb = (\<lambda>_ _ _. None)"
definition no_xcb :: xcb_spec where "no_xcb = (\<lambda>_ _. None)"

lemma no_callbacks: "callbacks_promise plain_oenv no_cb no_xcb"
  unfolding no_cb_def no_xcb_def by (rule no_callbacks_promise)

lemma person_spec: "spec_message 1 no_cb no_xcb plain_oenv person_mem person_fields 100 = Some (True, person_wire)"
  by code_simp

lemma person_wire_length: "length person_wire = 12"
  by (simp add: person_wire_def)

section \<open>Properties\<close>

text \<open>C1. Encoding into a buffer that is large enough returns true, leaves exactly the specified
  bytes of the message at the start of the buffer, counts them, and changes no other byte of
  memory and nothing of the application's state.\<close>

theorem encode_writes_spec:
  assumes "callbacks_promise env cb xcb"
    and "spec_message n cb xcb env m flds src = Some (True, bs)"
    and "length bs \<le> unat bufsize"
  shows "\<exists>t. pb_encode n env m flds src (buffer_state buf bufsize out w) = Some (True, t)
    \<and> omem t = mem_write out buf bs \<and> os_bytes_written (os t) = of_nat (length bs) \<and> ouser t = w"
  using emit_into_buffer [OF implementsD [OF implements_message [OF assms(1)] assms(2)] assms(3)] by blast

theorem encode_writes_spec_witness:
  "spec_message 1 no_cb no_xcb plain_oenv person_mem person_fields 100 = Some (True, person_wire)
   \<and> (\<exists>t. pb_encode 1 plain_oenv person_mem person_fields 100 (buffer_state 500 64 (\<lambda>_. 0) ()) = Some (True, t)
     \<and> omem t = mem_write (\<lambda>_. 0) 500 person_wire
     \<and> os_bytes_written (os t) = of_nat (length person_wire) \<and> ouser t = ())"
  using encode_writes_spec [OF no_callbacks person_spec, of 64 500 "\<lambda>_. 0" "()"] person_spec person_wire_length
  by simp


text \<open>C13. A buffer that is too small makes the encoder return false, and no byte outside the
  buffer is changed, whether the message itself could be encoded or not.\<close>

theorem encode_small_buffer_refused:
  assumes "callbacks_promise env cb xcb"
    and "spec_message n cb xcb env m flds src = Some (ok, bs)"
    and "unat bufsize < length bs" "length bs < 2 ^ 63"
  shows "\<exists>t. pb_encode n env m flds src (buffer_state buf bufsize out w) = Some (False, t)
    \<and> (\<forall>x. x < buf \<or> buf + uint bufsize \<le> x \<longrightarrow> omem t x = out x)"
proof -
  let ?s = "buffer_state buf bufsize out w"
  have e: "emitter (pb_encode n env m flds src) ok bs"
    by (rule implementsD [OF implements_message [OF assms(1)] assms(2)])
  have lt: "int (unat bufsize) < int (length bs)" using assms(3) by (simp only: of_nat_less_iff)
  have "int (length bs) < 2 ^ 63" using assms(4) by simp
  with lt have "obuf_ok ?s" by (simp add: obuf_ok_def)
  moreover have "os_limit ?s < os_used ?s + int (length bs)" using lt by simp
  ultimately obtain t where "pb_encode n env m flds src ?s = Some (False, t)" "owithin ?s t"
    using emitter.emit_full [OF e _ assms(4)] by blast
  then show ?thesis by (auto simp: owithin_def)
qed

theorem encode_small_buffer_refused_witness:
  "\<exists>t. pb_encode 1 plain_oenv person_mem person_fields 100 (buffer_state 500 11 (\<lambda>_. 0) ()) = Some (False, t)
     \<and> (\<forall>x. x < 500 \<or> 500 + uint (11 :: u64) \<le> x \<longrightarrow> omem t x = 0)"
  using encode_small_buffer_refused [OF no_callbacks person_spec, of 11 500 "\<lambda>_. 0" "()"] person_wire_length
  by simp


text \<open>C14. The size that \<^verbatim>\<open>pb_get_encoded_size\<close> gives is the right one: a buffer of that size takes
  the message and is filled completely.\<close>

theorem encoded_size_sufficient:
  assumes "callbacks_promise env cb xcb"
    and "spec_message n cb xcb env m flds src = Some (True, bs)" and "length bs < 2 ^ 64"
  shows "\<exists>sz t. pb_get_encoded_size n env m flds src s = Some (Some sz, s)
    \<and> pb_encode n env m flds src (buffer_state buf sz out w) = Some (True, t)
    \<and> os_bytes_written (os t) = sz \<and> os_state (os t) = buf + uint sz"
proof -
  let ?sz = "of_nat (length bs) :: u64"
  have e: "emitter (pb_encode n env m flds src) True bs"
    by (rule implementsD [OF implements_message [OF assms(1)] assms(2)])
  have u: "unat ?sz = length bs" "uint ?sz = int (length bs)"
    using assms(3) by (simp_all add: unsigned_of_nat take_bit_nat_eq_self)
  have "pb_get_encoded_size n env m flds src s = Some (Some ?sz, s)"
    unfolding pb_get_encoded_size_def by (rule emit_size [OF e])
  with emit_into_buffer [OF e, of ?sz buf out w] u show ?thesis by auto
qed

theorem encoded_size_sufficient_witness:
  "\<exists>sz t. pb_get_encoded_size 1 plain_oenv person_mem person_fields 100 (buffer_state 0 0 (\<lambda>_. 0) ()) =
       Some (Some sz, buffer_state 0 0 (\<lambda>_. 0) ())
     \<and> pb_encode 1 plain_oenv person_mem person_fields 100 (buffer_state 500 sz (\<lambda>_. 0) ()) = Some (True, t)
     \<and> os_bytes_written (os t) = sz \<and> os_state (os t) = 500 + uint sz"
  using encoded_size_sufficient [OF no_callbacks person_spec, of "buffer_state 0 0 (\<lambda>_. 0) ()" 500 "\<lambda>_. 0" "()"]
    person_wire_length by simp


text \<open>A delimited message is its length as a varint, then the message.\<close>

theorem encode_delimited_frames:
  assumes "callbacks_promise env cb xcb"
    and "spec_message n cb xcb env m flds src = Some (True, bs)" and "length bs < 2 ^ 63"
    and "length (varint_bytes (of_nat (length bs))) + length bs \<le> unat bufsize"
  shows "\<exists>t. pb_encode_delimited n env m flds src (buffer_state buf bufsize out w) = Some (True, t)
    \<and> omem t = mem_write out buf (varint_bytes (of_nat (length bs)) @ bs)"
proof -
  have "implements (pb_encode_delimited n env m flds src) (spec_delim (Some (True, bs)))"
    unfolding pb_encode_delimited_def
    by (rule implements_delim) (use implements_message [OF assms(1), of n m flds src] assms(2) in simp)
  then have "emitter (pb_encode_delimited n env m flds src) True (varint_bytes (of_nat (length bs)) @ bs)"
    using assms(3) by (simp add: delimited_def)
  from emit_into_buffer [OF this] assms(4) show ?thesis by (metis length_append)
qed

text \<open>C15. The encoder comes back: for a message type whose submessages nest less than \<open>n\<close> deep, fuel
  \<open>n\<close> gives a result on every stream and for every content of the message, if the
  application's callbacks come back. The type has no extension ranges and no field without an encoder.\<close>

theorem encode_returns:
  assumes "callbacks_return env" and "shallow n (oe_fields env) flds"
  shows "\<exists>r. pb_encode n env m flds src s = Some r"
  using returnsD [OF shallow_returns [OF assms]] .

theorem encode_returns_witness:
  "\<exists>r. pb_encode 1 plain_oenv (\<lambda>_. 255) person_fields 100 (buffer_state 500 64 (\<lambda>_. 0) ()) = Some r"
proof (rule encode_returns)
  show "callbacks_return plain_oenv" by (simp add: callbacks_return_def plain_oenv_def returns_def)
  show "shallow 1 (oe_fields plain_oenv) person_fields" by code_simp
qed

text \<open>The result does not depend on the fuel: more of it gives the same result.\<close>

theorem encode_fuel_irrelevant:
  assumes "n \<le> n'" and "pb_encode n env m flds src s = Some r"
  shows "pb_encode n' env m flds src s = Some r"
  using cmd_leD [OF cmd_le_encode [OF assms(1)] assms(2)] .

end
