(* ===== verification/Pb_Decode_Safe.thy ===== *)
theory Pb_Decode_Safe
  imports Pb_Decode
begin

text \<open>
  Memory safety of the decoder, for every input, well-formed or not: the stream never moves
  back or past its end, and the message memory changes only inside the footprint that the
  descriptors give the destination struct.
\<close>

section \<open>The contract of a decoding command\<close>

text \<open>
  \<open>inside s t\<close>: the input position moved forward and what is left lies inside what was left
  before. It is weaker than \<open>iwithin\<close>: a decoder that fails inside a substream leaves the
  parent stream with its position behind the bytes it has already given away.
\<close>

definition inside :: "'w istate \<Rightarrow> 'w istate \<Rightarrow> bool" where
  "inside s t \<longleftrightarrow> is_callback (ist t) = is_callback (ist s) \<and> is_buf (ist t) = is_buf (ist s)
     \<and> uint (is_bytes_left (ist t)) \<le> uint (is_bytes_left (ist s))
     \<and> (is_callback (ist s) = IC_BufRead \<longrightarrow> is_state (ist s) \<le> is_state (ist t)
          \<and> is_state (ist t) + uint (is_bytes_left (ist t)) \<le> is_state (ist s) + uint (is_bytes_left (ist s)))"

lemma inside_refl [simp]: "inside s s"
  by (simp add: inside_def)

lemma inside_trans [trans]: "inside s t \<Longrightarrow> inside t u \<Longrightarrow> inside s u"
  by (auto simp: inside_def)

lemma iwithin_inside: "iwithin s t \<Longrightarrow> inside s t"
  by (auto simp: iwithin_def inside_def)

lemma stream_eq_inside:
  assumes "ist t = ist t'"
  shows "inside s t = inside s t'" "iwithin s t = iwithin s t'" "inside t s = inside t' s" "iwithin t s = iwithin t' s"
  using assms by (simp_all add: inside_def iwithin_def)

lemma inside_set_error [simp]: "inside s (is_set_error msg t) = inside s t"
  by (simp add: inside_def is_set_error_def)

lemma is_store_ist [simp]: "ist (is_store p bs s) = ist s"
  by (simp add: is_store_def)

lemma is_store_dmem [simp]: "dmem (is_store p bs s) = mem_write (dmem s) p bs"
  by (simp add: is_store_def)

definition same_outside :: "addr set \<Rightarrow> mem \<Rightarrow> mem \<Rightarrow> bool" where
  "same_outside D m m' \<longleftrightarrow> (\<forall>x. x \<notin> D \<longrightarrow> m' x = m x)"

lemma same_outside_refl [simp]: "same_outside D m m"
  by (simp add: same_outside_def)

lemma same_outside_trans: "same_outside D m1 m2 \<Longrightarrow> same_outside D m2 m3 \<Longrightarrow> same_outside D m1 m3"
  by (simp add: same_outside_def)

lemma same_outside_write:
  "{p..<p + int (length bs)} \<subseteq> D \<Longrightarrow> same_outside D m m' \<Longrightarrow> same_outside D m (mem_write m' p bs)"
  by (auto simp: same_outside_def mem_write_def)

locale consumer =
  fixes D :: "addr set" and cmd :: "'w istate \<Rightarrow> (bool \<times> 'w istate) option"
  assumes stays: "cmd s = Some (ok, t) \<Longrightarrow> inside s t"
    and ok_within: "cmd s = Some (True, t) \<Longrightarrow> iwithin s t"
    and frame: "cmd s = Some (ok, t) \<Longrightarrow> same_outside D (dmem s) (dmem t)"

lemma consumerI:
  assumes "\<And>s ok t. cmd s = Some (ok, t) \<Longrightarrow> iwithin s t \<and> same_outside D (dmem s) (dmem t)"
  shows "consumer D cmd"
  by unfold_locales (use assms iwithin_inside in blast)+

lemma consumer_stored:
  assumes "consumer D cmd" "ist s1 = ist s" "same_outside D (dmem s) (dmem s1)" "cmd s1 = Some (ok, t)"
  shows "inside s t" "ok \<Longrightarrow> iwithin s t" "same_outside D (dmem s) (dmem t)"
proof -
  show "inside s t" using consumer.stays [OF assms(1,4)] stream_eq_inside(3) [OF assms(2)] by simp
  show "iwithin s t" if ok
  proof -
    have "cmd s1 = Some (True, t)" using assms(4) that by simp
    from consumer.ok_within [OF assms(1) this] show ?thesis using stream_eq_inside(4) [OF assms(2)] by simp
  qed
  show "same_outside D (dmem s) (dmem t)"
    by (rule same_outside_trans [OF assms(3) consumer.frame [OF assms(1,4)]])
qed

section \<open>Scalar and string values\<close>

text \<open>The bytes a value of a field takes.\<close>

definition value_extent :: "pb_field \<Rightarrow> int" where
  "value_extent f = max (uint (f_data_size f))
     (if ltype f = PB_LTYPE_FIXED32 then 4 else if ltype f = PB_LTYPE_FIXED64 then 8 else 0)"

lemma clamp_length:
  "clamp_signed d v = Some (bs, c) \<Longrightarrow> int (length bs) = uint d"
  "clamp_unsigned d v = Some (bs, c) \<Longrightarrow> int (length bs) = uint d"
  by (auto simp: clamp_signed_def clamp_unsigned_def split: if_splits)

lemma store_clamped_facts:
  assumes "store_clamped c v p s = (ok, t)" "\<And>bs x. c = Some (bs, x) \<Longrightarrow> {p..<p + int (length bs)} \<subseteq> D"
  shows "iwithin s t \<and> same_outside D (dmem s) (dmem t)"
  using assms
  by (auto simp: store_clamped_def is_return_error_def Let_def iwithin_def is_set_error_def
      split: option.splits if_splits prod.splits intro!: same_outside_write)

lemma iwithin_trans_frame:
  "iwithin s s1 \<Longrightarrow> dmem s1 = dmem s \<Longrightarrow> iwithin s1 t \<and> same_outside D (dmem s1) (dmem t) \<Longrightarrow>
   iwithin s t \<and> same_outside D (dmem s) (dmem t)"
  using iwithin_trans by auto

lemma consumer_varint:
  assumes D: "{p..<p + uint (f_data_size f)} \<subseteq> D"
  shows "consumer D (ret_opt (pb_dec_varint env f p))"
    "consumer D (ret_opt (pb_dec_uvarint env f p))"
    "consumer D (ret_opt (pb_dec_svarint env f p))"
proof -
  note clamp = store_clamped_facts [where D = D and p = p]
  have reg: "{p..<p + int (length bs)} \<subseteq> D" if "int (length bs) = uint (f_data_size f)" for bs :: "u8 list"
    using D that by simp
  show "consumer D (ret_opt (pb_dec_varint env f p))"
  proof (rule consumerI)
    fix s ok t assume r: "ret_opt (pb_dec_varint env f p) s = Some (ok, t)"
    obtain v s1 where v: "pb_decode_varint env s = (v, s1)" by fastforce
    have "iwithin s1 t \<and> same_outside D (dmem s1) (dmem t)"
      using r v by (cases v) (auto simp: ret_opt_def pb_dec_varint_def Let_def
          intro!: clamp reg dest: clamp_length)
    then show "iwithin s t \<and> same_outside D (dmem s) (dmem t)"
      by (rule iwithin_trans_frame [OF varint_rd.rd_within [OF v] varint_rd.rd_dmem [OF v]])
  qed
  show "consumer D (ret_opt (pb_dec_uvarint env f p))"
  proof (rule consumerI)
    fix s ok t assume r: "ret_opt (pb_dec_uvarint env f p) s = Some (ok, t)"
    obtain v s1 where v: "pb_decode_varint env s = (v, s1)" by fastforce
    have "iwithin s1 t \<and> same_outside D (dmem s1) (dmem t)"
      using r v by (cases v) (auto simp: ret_opt_def pb_dec_uvarint_def
          intro!: clamp reg dest: clamp_length)
    then show "iwithin s t \<and> same_outside D (dmem s) (dmem t)"
      by (rule iwithin_trans_frame [OF varint_rd.rd_within [OF v] varint_rd.rd_dmem [OF v]])
  qed
  show "consumer D (ret_opt (pb_dec_svarint env f p))"
  proof (rule consumerI)
    fix s ok t assume r: "ret_opt (pb_dec_svarint env f p) s = Some (ok, t)"
    obtain v s1 where v: "pb_decode_svarint env s = (v, s1)" by fastforce
    have "iwithin s1 t \<and> same_outside D (dmem s1) (dmem t)"
      using r v by (cases v) (auto simp: ret_opt_def pb_dec_svarint_def
          intro!: clamp reg dest: clamp_length)
    then show "iwithin s t \<and> same_outside D (dmem s) (dmem t)"
      by (rule iwithin_trans_frame [OF svarint_rd.rd_within [OF v] svarint_rd.rd_dmem [OF v]])
  qed
qed

lemma consumer_fixed:
  "{p..<p + 4} \<subseteq> D \<Longrightarrow> consumer D (ret_opt (pb_dec_fixed32 env f p))"
  "{p..<p + 8} \<subseteq> D \<Longrightarrow> consumer D (ret_opt (pb_dec_fixed64 env f p))"
proof -
  assume D: "{p..<p + 4} \<subseteq> D"
  show "consumer D (ret_opt (pb_dec_fixed32 env f p))"
  proof (rule consumerI)
    fix s ok t assume r: "ret_opt (pb_dec_fixed32 env f p) s = Some (ok, t)"
    obtain v s1 where v: "pb_decode_fixed32 env s = (v, s1)" by fastforce
    have "iwithin s1 t \<and> same_outside D (dmem s1) (dmem t)"
      using r v by (cases v) (auto simp: ret_opt_def pb_dec_fixed32_def iwithin_def same_outside_write D)
    then show "iwithin s t \<and> same_outside D (dmem s) (dmem t)"
      by (rule iwithin_trans_frame [OF fixed32_rd.rd_within [OF v] fixed32_rd.rd_dmem [OF v]])
  qed
next
  assume D: "{p..<p + 8} \<subseteq> D"
  show "consumer D (ret_opt (pb_dec_fixed64 env f p))"
  proof (rule consumerI)
    fix s ok t assume r: "ret_opt (pb_dec_fixed64 env f p) s = Some (ok, t)"
    obtain v s1 where v: "pb_decode_fixed64 env s = (v, s1)" by fastforce
    have "iwithin s1 t \<and> same_outside D (dmem s1) (dmem t)"
      using r v by (cases v) (auto simp: ret_opt_def pb_dec_fixed64_def iwithin_def same_outside_write D)
    then show "iwithin s t \<and> same_outside D (dmem s) (dmem t)"
      by (rule iwithin_trans_frame [OF fixed64_rd.rd_within [OF v] fixed64_rd.rd_dmem [OF v]])
  qed
qed

lemma pb_read_into_facts:
  assumes "pb_read_into env p n s = (ok, t)" "{p..<p + uint n} \<subseteq> D"
  shows "iwithin s t \<and> same_outside D (dmem s) (dmem t)"
proof -
  obtain k bs s1 where rd: "pb_read env False n s = ((k, bs), s1)" by (metis prod.collapse)
  with assms(1) have t: "t = is_store p (take (unat n) bs) s1" by (simp add: pb_read_into_def)
  have "length (take (unat n) bs) \<le> unat n" by simp
  then have "int (length (take (unat n) bs)) \<le> int (unat n)" by (simp only: of_nat_le_iff)
  then have "p + int (length (take (unat n) bs)) \<le> p + uint n" by simp
  then have "{p..<p + int (length (take (unat n) bs))} \<subseteq> D" using assms(2) by force
  then show ?thesis
    using t read.rd_within [OF rd] read.rd_dmem [OF rd]
    by (auto simp: iwithin_def same_outside_write)
qed

lemma uint_ucast_u32: "uint (ucast (x :: u32) :: u64) = uint x"
  using uint_lt2p [of x] by (simp add: unsigned_ucast_eq take_bit_int_eq_self)

lemma alloc_size_uint: "uint (PB_BYTES_ARRAY_T_ALLOCSIZE n) = uint n + 4"
proof -
  have "uint n < 2 ^ 32" using uint_lt2p [of n] by simp
  then show ?thesis
    by (simp add: PB_BYTES_ARRAY_T_ALLOCSIZE_def uint_word_ariths uint_ucast_u32)
qed

lemma consumer_bytes:
  assumes D: "{p..<p + uint (f_data_size f)} \<subseteq> D"
  shows "consumer D (ret_opt (pb_dec_bytes env f p))"
proof (rule consumerI)
  fix s ok t assume r: "ret_opt (pb_dec_bytes env f p) s = Some (ok, t)"
  obtain v s1 where v: "pb_decode_varint32 env s = (v, s1)" by fastforce
  have "iwithin s1 t \<and> same_outside D (dmem s1) (dmem t)"
  proof (cases "\<exists>sz. v = Some sz \<and> \<not> PB_BYTES_ARRAY_T_ALLOCSIZE sz > ucast (f_data_size f)
      \<and> pb_read_into env (bytes_bytes p) (ucast sz) (is_store p (word_to_le 4 sz) s1) = (ok, t)")
    case True
    then obtain sz where sz: "\<not> PB_BYTES_ARRAY_T_ALLOCSIZE sz > ucast (f_data_size f)"
      and rd: "pb_read_into env (bytes_bytes p) (ucast sz) (is_store p (word_to_le 4 sz) s1) = (ok, t)" by blast
    have le: "uint sz + 4 \<le> uint (f_data_size f)"
      using sz alloc_size_uint [of sz] by (simp add: word_less_def uint_ucast_u32)
    then have "{bytes_bytes p..<bytes_bytes p + uint (ucast sz :: u64)} \<subseteq> D"
      using D by (auto simp: bytes_bytes_def uint_ucast_u32)
    note body = pb_read_into_facts [OF rd this]
    have "0 \<le> uint sz" by simp
    with le have "p + 4 \<le> p + uint (f_data_size f)" by linarith
    then have "{p..<p + int (length (word_to_le 4 sz))} \<subseteq> D" using D by force
    then have "same_outside D (dmem s1) (dmem (is_store p (word_to_le 4 sz) s1))"
      by (simp only: is_store_dmem same_outside_write same_outside_refl)
    with body show ?thesis using same_outside_trans by (auto simp: iwithin_def)
  next
    case False
    with r v show ?thesis
      by (auto simp: ret_opt_def pb_dec_bytes_def is_return_error_def Let_def
          split: option.splits if_splits)
  qed
  then show "iwithin s t \<and> same_outside D (dmem s) (dmem t)"
    by (rule iwithin_trans_frame [OF varint32_rd.rd_within [OF v] varint32_rd.rd_dmem [OF v]])
qed

lemma consumer_string:
  assumes D: "{p..<p + uint (f_data_size f)} \<subseteq> D"
  shows "consumer D (ret_opt (pb_dec_string env f p))"
proof (rule consumerI)
  fix s ok t assume r: "ret_opt (pb_dec_string env f p) s = Some (ok, t)"
  obtain v s1 where v: "pb_decode_varint32 env s = (v, s1)" by fastforce
  have "iwithin s1 t \<and> same_outside D (dmem s1) (dmem t)"
  proof (cases "\<exists>sz s2. v = Some sz \<and> \<not> (ucast (sz + 1) :: u64) < ucast sz
      \<and> \<not> (ucast (sz + 1) :: u64) > ucast (f_data_size f)
      \<and> pb_read_into env p (ucast sz) s1 = (ok, s2) \<and> t = is_store (p + uint sz) [0] s2")
    case True
    then obtain sz :: u32 and s2 where nowrap: "\<not> (ucast (sz + 1) :: u64) < ucast sz"
      and sz: "\<not> (ucast (sz + 1) :: u64) > ucast (f_data_size f)"
      and rd: "pb_read_into env p (ucast sz) s1 = (ok, s2)" and t: "t = is_store (p + uint sz) [0] s2" by blast
    have "uint (sz + 1) = (uint sz + 1) mod 2 ^ 32" by (simp add: uint_word_ariths)
    moreover have "uint sz \<le> uint (sz + 1)" "uint (sz + 1) \<le> uint (f_data_size f)" "0 \<le> uint sz" "uint sz < 2 ^ 32"
      using nowrap sz uint_lt2p [of sz] by (simp_all add: word_less_def uint_ucast_u32)
    ultimately have le: "uint sz + 1 \<le> uint (f_data_size f)" by (cases "uint sz + 1 = 2 ^ 32") auto
    then have "{p..<p + uint (ucast sz :: u64)} \<subseteq> D" using D by (auto simp: uint_ucast_u32)
    note body = pb_read_into_facts [OF rd this]
    have "p + uint sz \<in> D" using D le by (auto intro!: subsetD [OF D])
    then have "{p + uint sz..<p + uint sz + int (length [0 :: u8])} \<subseteq> D" by auto
    with body t show ?thesis by (auto simp: iwithin_def same_outside_write)
  next
    case False
    with r v show ?thesis
      by (auto simp: ret_opt_def pb_dec_string_def is_return_error_def Let_def
          split: option.splits if_splits prod.splits)
  qed
  then show "iwithin s t \<and> same_outside D (dmem s) (dmem t)"
    by (rule iwithin_trans_frame [OF varint32_rd.rd_within [OF v] varint32_rd.rd_dmem [OF v]])
qed

lemma consumer_fixed_length:
  assumes D: "{p..<p + uint (f_data_size f)} \<subseteq> D"
  shows "consumer D (ret_opt (pb_dec_fixed_length_bytes env f p))"
proof (rule consumerI)
  fix s ok t assume r: "ret_opt (pb_dec_fixed_length_bytes env f p) s = Some (ok, t)"
  obtain v s1 where v: "pb_decode_varint32 env s = (v, s1)" by fastforce
  have "{p..<p + uint (ucast (f_data_size f) :: u64)} \<subseteq> D" using D by (simp add: uint_ucast_u32)
  note rd = pb_read_into_facts [OF _ this]
  have z: "same_outside D (dmem s1) (mem_write (dmem s1) p (replicate (unat (f_data_size f)) 0))"
    by (rule same_outside_write) (use D in simp_all)
  from r v rd z have "iwithin s1 t \<and> same_outside D (dmem s1) (dmem t)"
    by (auto simp: ret_opt_def pb_dec_fixed_length_bytes_def is_return_error_def iwithin_def is_set_error_def
        split: option.splits if_splits)
  then show "iwithin s t \<and> same_outside D (dmem s) (dmem t)"
    by (rule iwithin_trans_frame [OF varint32_rd.rd_within [OF v] varint32_rd.rd_dmem [OF v]])
qed

section \<open>Substreams\<close>

lemma read_null_all:
  assumes "pb_read env True (is_bytes_left (ist s)) s = ((True, bs), t)" "is_callback (ist s) = IC_BufRead"
  shows "is_bytes_left (ist t) = 0"
  using assms is_call_ist
  by (auto simp: pb_read_def pb_read_direct_def Let_def is_call_def buf_read_def split: if_splits)

lemma make_substream_facts:
  assumes "pb_make_string_substream env s = (r, s1)"
  shows "inside s s1" "dmem s1 = dmem s"
    "r = None \<Longrightarrow> iwithin s s1"
    "r = Some sub \<Longrightarrow> is_callback sub = is_callback (ist s) \<and> is_buf sub = is_buf (ist s)
       \<and> is_state sub = is_state (ist s1)
       \<and> uint (is_bytes_left sub) + uint (is_bytes_left (ist s1)) \<le> uint (is_bytes_left (ist s))
       \<and> (is_callback (ist s) = IC_BufRead \<longrightarrow>
            is_state sub + uint (is_bytes_left sub) + uint (is_bytes_left (ist s1)) =
            is_state (ist s) + uint (is_bytes_left (ist s)))"
proof -
  obtain v s0 where v: "pb_decode_varint32 env s = (v, s0)" by fastforce
  note w = varint32_rd.rd_within [OF v] and d = varint32_rd.rd_dmem [OF v]
  have sub: "uint (is_bytes_left (ist s0) - ucast sz) = uint (is_bytes_left (ist s0)) - uint sz"
    if "\<not> is_bytes_left (ist s0) < ucast sz" for sz :: u32
    using that uint_minus_simple_alt [of "ucast sz" "is_bytes_left (ist s0)"]
    by (simp add: uint_ucast_u32 not_less)
  show "dmem s1 = dmem s" "r = None \<Longrightarrow> iwithin s s1"
    using assms v w d by (auto simp: pb_make_string_substream_def Let_def split: option.splits if_splits)
  have "inside s0 s1"
  proof (cases "\<exists>sz. v = Some sz \<and> \<not> is_bytes_left (ist s0) < ucast sz")
    case True
    then obtain sz where sz: "v = Some sz" "\<not> is_bytes_left (ist s0) < ucast sz" by blast
    have "0 \<le> uint sz" by simp
    with assms v sz sub [OF sz(2)] show ?thesis
      by (auto simp: pb_make_string_substream_def Let_def inside_def)
  next
    case False
    with assms v show ?thesis
      by (auto simp: pb_make_string_substream_def Let_def split: option.splits if_splits)
  qed
  with iwithin_inside [OF w] show "inside s s1" by (rule inside_trans)
  show "is_callback sub = is_callback (ist s) \<and> is_buf sub = is_buf (ist s)
       \<and> is_state sub = is_state (ist s1)
       \<and> uint (is_bytes_left sub) + uint (is_bytes_left (ist s1)) \<le> uint (is_bytes_left (ist s))
       \<and> (is_callback (ist s) = IC_BufRead \<longrightarrow>
            is_state sub + uint (is_bytes_left sub) + uint (is_bytes_left (ist s1)) =
            is_state (ist s) + uint (is_bytes_left (ist s)))" if "r = Some sub"
    using assms v w sub that
    by (auto simp: pb_make_string_substream_def Let_def iwithin_def uint_ucast_u32
        split: option.splits if_splits)
qed

text \<open>A command on a substream is a command on the parent stream once the substream is closed.\<close>

lemma substream_facts:
  assumes mk: "pb_make_string_substream env s = (Some sub, s1)"
    and c: "consumer D cmd"
    and run: "on_substream sub cmd s1 = Some (status, sub', s2)"
  shows "ist s2 = ist s1" "same_outside D (dmem s) (dmem s2)" "is_callback sub' = is_callback (ist s)"
    "is_buf sub' = is_buf (ist s)" "uint (is_bytes_left sub') \<le> uint (is_bytes_left sub)"
    "is_callback (ist s) = IC_BufRead \<Longrightarrow> is_state (ist s1) \<le> is_state sub'
       \<and> is_state sub' + uint (is_bytes_left sub') \<le> is_state sub + uint (is_bytes_left sub)"
    "is_callback (ist s) = IC_BufRead \<Longrightarrow> status \<Longrightarrow>
       is_state sub' + uint (is_bytes_left sub') = is_state sub + uint (is_bytes_left sub)"
proof -
  note m = make_substream_facts [OF mk] and ms = make_substream_facts(4) [OF mk refl]
  obtain t where t: "cmd (s1\<lparr>ist := sub\<rparr>) = Some (status, t)" and sub': "sub' = ist t" and s2: "s2 = t\<lparr>ist := ist s1\<rparr>"
    using run by (auto simp: on_substream_def split: option.splits)
  note i = consumer.stays [OF c t]
  show "ist s2 = ist s1" using s2 by simp
  show "same_outside D (dmem s) (dmem s2)" using consumer.frame [OF c t] m(2) s2 by simp
  show "is_callback sub' = is_callback (ist s)" "is_buf sub' = is_buf (ist s)"
    "uint (is_bytes_left sub') \<le> uint (is_bytes_left sub)"
    using i ms sub' by (auto simp: inside_def)
  show "is_state (ist s1) \<le> is_state sub'
       \<and> is_state sub' + uint (is_bytes_left sub') \<le> is_state sub + uint (is_bytes_left sub)"
    if "is_callback (ist s) = IC_BufRead"
    using that i ms sub' by (auto simp: inside_def)
  show "is_state sub' + uint (is_bytes_left sub') = is_state sub + uint (is_bytes_left sub)"
    if "is_callback (ist s) = IC_BufRead" status
    using that consumer.ok_within [OF c, of "s1\<lparr>ist := sub\<rparr>" t] t ms sub' by (auto simp: iwithin_def)
qed

lemma close_facts:
  assumes "pb_close_string_substream env sub s = (ok, t)"
  shows "dmem t = dmem s" "is_bytes_left (ist t) = is_bytes_left (ist s)"
    "is_callback (ist t) = is_callback (ist s)" "is_buf (ist t) = is_buf (ist s)"
    "is_callback sub = IC_BufRead \<Longrightarrow>
       ok \<and> is_state (ist t) = is_state sub + uint (is_bytes_left sub)"
proof -
  let ?s = "s\<lparr>ist := sub\<rparr>"
  obtain k bs u where rd: "pb_read env True (is_bytes_left sub) ?s = ((k, bs), u)" by (metis prod.collapse)
  have d: "dmem u = dmem s" using read.rd_dmem [OF rd] by simp
  show "dmem t = dmem s" "is_bytes_left (ist t) = is_bytes_left (ist s)"
    "is_callback (ist t) = is_callback (ist s)" "is_buf (ist t) = is_buf (ist s)"
    using assms rd d by (auto simp: pb_close_string_substream_def Let_def split: if_splits)
  show "ok \<and> is_state (ist t) = is_state sub + uint (is_bytes_left sub)" if c: "is_callback sub = IC_BufRead"
  proof -
    have "k \<and> is_state (ist u) = is_state sub + uint (is_bytes_left sub)"
      using rd c by (auto simp: pb_read_def pb_read_direct_def is_call_def buf_read_def Let_def)
    with assms rd show ?thesis
      by (auto simp: pb_close_string_substream_def Let_def split: if_splits)
  qed
qed

lemma close_and_return_facts:
  assumes mk: "pb_make_string_substream env s = (Some sub, s1)"
    and c: "consumer D cmd"
    and run: "on_substream sub cmd s1 = Some (status, sub', s2)"
    and cl: "close_and_return env status sub' s2 = (ok, t)"
  shows "inside s t" "ok \<Longrightarrow> iwithin s t" "same_outside D (dmem s) (dmem t)"
proof -
  note m = make_substream_facts [OF mk] and ms = make_substream_facts(4) [OF mk refl]
  note f = substream_facts [OF mk c run]
  obtain k where k: "pb_close_string_substream env sub' s2 = (k, t)" "ok \<Longrightarrow> status"
    using cl by (auto simp: close_and_return_def split: prod.splits if_splits)
  note cf = close_facts [OF k(1)]
  show "same_outside D (dmem s) (dmem t)" using f(2) cf(1) by simp
  have cb: "is_callback (ist t) = is_callback (ist s)" "is_buf (ist t) = is_buf (ist s)"
    "uint (is_bytes_left (ist t)) \<le> uint (is_bytes_left (ist s))"
    using m(1) f(1) cf(2-4) by (simp_all add: inside_def)
  have st: "is_state (ist s) \<le> is_state (ist t)
      \<and> is_state (ist t) + uint (is_bytes_left (ist t)) \<le> is_state (ist s) + uint (is_bytes_left (ist s))
      \<and> (status \<longrightarrow> is_state (ist t) + uint (is_bytes_left (ist t)) = is_state (ist s) + uint (is_bytes_left (ist s)))"
    if b: "is_callback (ist s) = IC_BufRead"
  proof -
    have "is_state (ist t) = is_state sub' + uint (is_bytes_left sub')"
      using cf(5) f(3) b by simp
    moreover have "0 \<le> uint (is_bytes_left sub')" by (rule unsigned_greater_eq)
    moreover have "is_state (ist s) \<le> is_state (ist s1)" using m(1) b by (simp add: inside_def)
    moreover note f(6) [OF b] f(7) [OF b]
    moreover have "uint (is_bytes_left (ist t)) = uint (is_bytes_left (ist s1))" using cf(2) f(1) by simp
    moreover have "is_state sub + uint (is_bytes_left sub) + uint (is_bytes_left (ist s1)) =
        is_state (ist s) + uint (is_bytes_left (ist s))" using ms b by simp
    ultimately show ?thesis by linarith
  qed
  show "inside s t" using cb st by (auto simp: inside_def)
  show "iwithin s t" if ok using k(2) [OF that] cb st by (auto simp: iwithin_def)
qed

section \<open>Footprints\<close>

text \<open>
  \<open>footprint n env D flds dest\<close>: with the descriptors \<open>flds\<close>, a message at \<open>dest\<close> has its
  members, their size members and (down to depth \<open>n\<close>) those of its submessages in \<open>D\<close>. An
  extension placeholder leads to memory the descriptors do not describe.
\<close>

definition value_in ::
  "(pb_field list \<Rightarrow> addr \<Rightarrow> bool) \<Rightarrow> 'w ienv \<Rightarrow> addr set \<Rightarrow> pb_field \<Rightarrow> addr \<Rightarrow> bool" where
  "value_in msg env D f p \<longleftrightarrow> {p..<p + value_extent f} \<subseteq> D
     \<and> (ltype f = PB_LTYPE_SUBMESSAGE \<longrightarrow> msg (ie_fields env (f_ptr f)) p)"

definition field_in ::
  "(pb_field list \<Rightarrow> addr \<Rightarrow> bool) \<Rightarrow> 'w ienv \<Rightarrow> addr set \<Rightarrow> pb_field_iter \<Rightarrow> bool" where
  "field_in msg env D it \<longleftrightarrow>
     (let f = it_field it in
      (ltype f = PB_LTYPE_EXTENSION \<longrightarrow> D = UNIV)
      \<and> (atype f = PB_ATYPE_STATIC \<longrightarrow>
           (if htype f = PB_HTYPE_REPEATED
            then \<forall>j < unat (f_array_size f).
                   value_in msg env D f (it_pData it + uint (f_data_size f * of_nat j))
            else value_in msg env D f (it_pData it)))
      \<and> (atype f = PB_ATYPE_STATIC \<and> htype f = PB_HTYPE_OPTIONAL \<and> it_pSize it \<noteq> it_pData it
           \<longrightarrow> it_pSize it \<in> D)
      \<and> (atype f = PB_ATYPE_STATIC \<or> atype f = PB_ATYPE_POINTER \<longrightarrow>
           htype f = PB_HTYPE_REPEATED \<or> htype f = PB_HTYPE_ONEOF \<longrightarrow> {it_pSize it..<it_pSize it + 4} \<subseteq> D)
      \<and> (atype f = PB_ATYPE_POINTER \<longrightarrow> {it_pData it..<it_pData it + 8} \<subseteq> D))"

primrec footprint :: "nat \<Rightarrow> 'w ienv \<Rightarrow> addr set \<Rightarrow> pb_field list \<Rightarrow> addr \<Rightarrow> bool" where
  "footprint 0 env D = (\<lambda>flds dest. True)"
| "footprint (Suc n) env D = (\<lambda>flds dest.
     \<forall>i. i = 0 \<or> i < nfields flds \<longrightarrow> field_in (footprint n env D) env D (iter_at flds dest i))"

lemma footprint_UNIV [simp]: "footprint n env UNIV flds dest"
  by (induction n arbitrary: flds dest) (auto simp: field_in_def value_in_def Let_def)

lemma field_in_UNIV [simp]: "field_in (footprint n env UNIV) env UNIV it"
  by (auto simp: field_in_def value_in_def Let_def)

lemma same_outside_UNIV [simp]: "same_outside UNIV m m'"
  by (simp add: same_outside_def)

lemma same_outside_upd: "x \<in> D \<Longrightarrow> same_outside D m m' \<Longrightarrow> same_outside D m (m'(x := v))"
  by (auto simp: same_outside_def)

lemma same_outside_store:
  "{p..<p + int n} \<subseteq> D \<Longrightarrow> same_outside D m m' \<Longrightarrow> same_outside D m (store_le n w p m')"
  by (simp add: store_le_def same_outside_write)

section \<open>Default values\<close>

lemma iter_loop_invariant:
  assumes "\<And>i s ok t. i < nfields flds \<Longrightarrow> body (iter_at flds d i) s = Some (ok, t) \<Longrightarrow> R s t"
    and "\<And>s. R s s" and "\<And>s t u. R s t \<Longrightarrow> R t u \<Longrightarrow> R s u"
    and "i < nfields flds" and "iter_loop body (iter_at flds d i) s = Some (ok, t)"
  shows "R s t"
  using assms(4,5)
proof (induction "nfields flds - i" arbitrary: i s)
  case (Suc k)
  from Suc.prems(2) consider "body (iter_at flds d i) s = Some (False, t)"
    | u where "body (iter_at flds d i) s = Some (True, u)"
        "(if Suc i < nfields flds then iter_loop body (iter_at flds d (Suc i)) else (\<lambda>s. Some (True, s))) u = Some (ok, t)"
    unfolding iter_loop_at [OF Suc.prems(1)] by (auto simp: seq_opt_def split: option.splits if_splits)
  then show ?case
  proof cases
    case 1
    then show ?thesis using assms(1) Suc.prems(1) by blast
  next
    case 2
    have "R u t"
    proof (cases "Suc i < nfields flds")
      case True
      with Suc(1) [of "Suc i" u] Suc(2) 2(2) show ?thesis by (simp del: iter_at.simps)
    next
      case False
      with 2(2) assms(2) show ?thesis by (simp del: iter_at.simps)
    qed
    then show ?thesis using assms(1,3) 2(1) Suc.prems(1) by blast
  qed
qed simp

lemma set_all_frame:
  assumes "\<And>i m m'. i < nfields flds \<Longrightarrow> setf (iter_at flds dest i) m = Some m' \<Longrightarrow> same_outside D m m'"
    and "set_all_to_default setf flds dest m = Some m'"
  shows "same_outside D m m'"
proof (cases "0 < nfields flds")
  case True
  let ?body = "\<lambda>it m. map_option (\<lambda>m'. (True, m')) (setf it m)"
  have ne: "nfields flds \<noteq> 0" using True by linarith
  obtain ok where loop: "iter_loop ?body (iter_at flds dest 0) m = Some (ok, m')"
    using assms(2) ne by (auto simp: set_all_to_default_def iter_begin_eq simp del: iter_at.simps)
  show ?thesis
  proof (rule iter_loop_invariant [where R = "same_outside D", OF _ same_outside_refl same_outside_trans True loop])
    fix i m m' k
    assume "i < nfields flds" "?body (iter_at flds dest i) m = Some (k, m')"
    then show "same_outside D m m'" using assms(1) by (auto simp del: iter_at.simps)
  qed
next
  case False
  then show ?thesis
    using assms(2) by (auto simp: set_all_to_default_def iter_begin_eq simp del: iter_at.simps)
qed

lemma value_in_data: "value_in fp env D f p \<Longrightarrow> {p..<p + uint (f_data_size f)} \<subseteq> D"
  by (rule subset_trans [of _ "{p..<p + value_extent f}"]) (auto simp: value_in_def value_extent_def)

lemma set_data_frame:
  assumes msg: "\<And>F p m m'. fp F p \<Longrightarrow> msg F p m = Some m' \<Longrightarrow> same_outside D m m'"
    and v: "value_in fp env D (it_field it) (it_pData it)"
    and r: "set_data_to_default msg env it m = Some m'"
  shows "same_outside D m m'"
proof -
  let ?f = "it_field it" and ?p = "it_pData it"
  have w: "same_outside D m (mem_write m ?p bs)" if "int (length bs) = uint (f_data_size ?f)" for bs
    by (rule same_outside_write) (use value_in_data [OF v] that in simp_all)
  have "fp (ie_fields env (f_ptr ?f)) ?p" if "ltype ?f = PB_LTYPE_SUBMESSAGE"
    using v that by (simp add: value_in_def)
  then show ?thesis
    using r msg w by (auto simp: set_data_to_default_def Let_def split: if_splits)
qed

text \<open>Setting defaults writes inside the footprint.\<close>

lemma field_default_frame:
  assumes msg: "\<And>F p m m'. footprint n env D F p \<Longrightarrow>
      set_all_to_default (pb_field_set_to_default n env) F p m = Some m' \<Longrightarrow> same_outside D m m'"
    and it: "field_in (footprint n env D) env D it"
    and r: "pb_field_set_to_default (Suc n) env it m = Some m'"
  shows "same_outside D m m'"
proof -
  let ?f = "it_field it"
  consider "ltype ?f = PB_LTYPE_EXTENSION" | "ltype ?f \<noteq> PB_LTYPE_EXTENSION" "atype ?f = PB_ATYPE_STATIC"
    | "ltype ?f \<noteq> PB_LTYPE_EXTENSION" "atype ?f = PB_ATYPE_POINTER"
    | "ltype ?f \<noteq> PB_LTYPE_EXTENSION" "atype ?f \<noteq> PB_ATYPE_STATIC" "atype ?f \<noteq> PB_ATYPE_POINTER"
    by blast
  then show ?thesis
  proof cases
    case 1
    then show ?thesis using it by (simp add: field_in_def Let_def)
  next
    case 2
    have data: "same_outside D m1 m'" if v: "value_in (footprint n env D) env D ?f (it_pData it)"
      and d: "set_data_to_default (set_all_to_default (pb_field_set_to_default n env)) env it m1 = Some m'" for m1
      by (rule set_data_frame [OF _ v d]) (rule msg)
    show ?thesis
    proof (cases "htype ?f = PB_HTYPE_REPEATED \<or> htype ?f = PB_HTYPE_ONEOF")
      case True
      then have "{it_pSize it..<it_pSize it + int 4} \<subseteq> D" using it 2 by (auto simp: field_in_def Let_def)
      from same_outside_store [OF this same_outside_refl, of m "0 :: u32"] show ?thesis
        using r 2 True by (auto simp: Let_def)
    next
      case False
      have v: "value_in (footprint n env D) env D ?f (it_pData it)"
        using it 2 False by (auto simp: field_in_def Let_def)
      show ?thesis
      proof (cases "htype ?f = PB_HTYPE_OPTIONAL \<and> it_pSize it \<noteq> it_pData it")
        case True
        then have "same_outside D m (m(it_pSize it := 0))"
          using it 2 by (auto simp: field_in_def Let_def intro: same_outside_upd)
        moreover have "same_outside D (m(it_pSize it := 0)) m'"
          using r 2 True by (intro data [OF v]) (auto simp: Let_def)
        ultimately show ?thesis by (rule same_outside_trans)
      next
        case f2: False
        show ?thesis using r 2 False f2 by (intro data [OF v]) (auto simp: Let_def)
      qed
    qed
  next
    case 3
    have "{it_pData it..<it_pData it + int 8} \<subseteq> D" using it 3 by (simp add: field_in_def Let_def)
    note w = same_outside_store [OF this same_outside_refl, of m "0 :: u64"]
    show ?thesis
    proof (cases "htype ?f = PB_HTYPE_REPEATED \<or> htype ?f = PB_HTYPE_ONEOF")
      case True
      then have "{it_pSize it..<it_pSize it + int 4} \<subseteq> D" using it 3 by (auto simp: field_in_def Let_def)
      from same_outside_store [OF this w, of "0 :: u32"] show ?thesis using r 3 True by (auto simp: Let_def)
    next
      case False
      with r 3 w show ?thesis by (auto simp: Let_def)
    qed
  next
    case 4
    then show ?thesis using r by (simp add: Let_def)
  qed
qed

lemma defaults_frame:
  "footprint n env D flds dest \<Longrightarrow> pb_message_set_to_defaults n env flds dest m = Some m' \<Longrightarrow>
   same_outside D m m'"
  unfolding pb_message_set_to_defaults_def
proof (induction n arbitrary: flds dest m m')
  case 0
  show ?case by (rule set_all_frame [OF _ "0.prems"(2)]) simp
next
  case (Suc n)
  show ?case
  proof (rule set_all_frame [OF _ Suc.prems(2)])
    fix i m m'
    assume "i < nfields flds" and r: "pb_field_set_to_default (Suc n) env (iter_at flds dest i) m = Some m'"
    then have "field_in (footprint n env D) env D (iter_at flds dest i)" using Suc.prems(1) by simp
    from field_default_frame [OF Suc.IH this r] show "same_outside D m m'" .
  qed
qed

section \<open>Fields\<close>

text \<open>The application's decoders keep the contract: they stay in their stream and in \<open>D\<close>.\<close>

definition decoders_safe :: "'w ienv \<Rightarrow> addr set \<Rightarrow> bool" where
  "decoders_safe env D \<longleftrightarrow> (\<forall>fn f a. consumer D (ie_decode env fn f a))
     \<and> (\<forall>fn e tag wt. consumer D (ie_ext_decode env fn e tag wt))"

lemma consumer_error: "consumer D (\<lambda>s. Some (is_return_error msg s))"
  by (rule consumerI) (auto simp: is_return_error_def)

lemma consumer_reader:
  assumes "reader rd"
  shows "consumer D (\<lambda>s. Some (rd s))"
  by (rule consumerI) (use reader.rd_within [OF assms] reader.rd_dmem [OF assms] in auto)

lemma consumer_init:
  assumes "footprint n env D flds p" "consumer D (rec flds p)"
  shows "consumer D (init_and_decode n rec env flds p)"
proof
  fix s ok t
  assume r: "init_and_decode n rec env flds p s = Some (ok, t)"
  then obtain m where m: "pb_message_set_to_defaults n env flds p (dmem s) = Some m"
    and run: "rec flds p (s\<lparr>dmem := m\<rparr>) = Some (ok, t)"
    by (auto simp: init_and_decode_def split: option.splits)
  have "same_outside D (dmem s) (dmem (s\<lparr>dmem := m\<rparr>))" using defaults_frame [OF assms(1) m] by simp
  note f = consumer_stored [OF assms(2) _ this run]
  show "inside s t" "same_outside D (dmem s) (dmem t)" using f by simp_all
next
  fix s t
  assume r: "init_and_decode n rec env flds p s = Some (True, t)"
  then obtain m where run: "rec flds p (s\<lparr>dmem := m\<rparr>) = Some (True, t)"
    by (auto simp: init_and_decode_def split: option.splits)
  show "iwithin s t" using consumer.ok_within [OF assms(2) run] by (simp add: iwithin_def)
qed

lemma consumer_submessage:
  assumes fp: "footprint n env D (ie_fields env (f_ptr f)) p"
    and rec: "consumer D (rec (ie_fields env (f_ptr f)) p)"
  shows "consumer D (pb_dec_submessage n rec env f p)"
proof -
  let ?F = "ie_fields env (f_ptr f)"
  define dec where "dec = (if htype f = PB_HTYPE_REPEATED then init_and_decode n rec env ?F p else rec ?F p)"
  have dec: "consumer D dec" using rec consumer_init [where rec = rec, OF fp rec] by (simp add: dec_def)
  have main: "inside s t \<and> (ok \<longrightarrow> iwithin s t) \<and> same_outside D (dmem s) (dmem t)"
    if r: "pb_dec_submessage n rec env f p s = Some (ok, t)" for s ok t
  proof (cases "pb_make_string_substream env s")
    case (Pair q s1)
    note mk = make_substream_facts [OF Pair]
    show ?thesis
    proof (cases q)
      case None
      with r Pair mk show ?thesis by (auto simp: pb_dec_submessage_def)
    next
      case (Some sub)
      show ?thesis
      proof (cases "f_ptr f = 0")
        case True
        with r Pair Some have "\<not> ok" "t = is_set_error ''invalid field descriptor'' s1"
          by (auto simp: pb_dec_submessage_def is_return_error_def)
        with mk(1,2) show ?thesis by simp
      next
        case False
        with r Pair Some obtain status sub' s2 where
          run: "on_substream sub dec s1 = Some (status, sub', s2)"
          and cl: "close_and_return env status sub' s2 = (ok, t)"
          by (auto simp: pb_dec_submessage_def dec_def Let_def split: option.splits)
        from Pair Some have "pb_make_string_substream env s = (Some sub, s1)" by simp
        from close_and_return_facts [OF this dec run cl] show ?thesis by blast
      qed
    qed
  qed
  show ?thesis by unfold_locales (use main in blast)+
qed

lemma consumer_value:
  assumes v: "value_in (footprint n env D) env D f p"
    and rec: "\<And>F q. footprint n env D F q \<Longrightarrow> consumer D (rec F q)"
    and e: "unat (ltype f) < length PB_DECODERS"
  shows "consumer D (call_decoder n rec env (PB_DECODERS ! unat (ltype f)) f p)"
proof -
  have data: "{p..<p + uint (f_data_size f)} \<subseteq> D" by (rule value_in_data [OF v])
  have ext: "{p..<p + value_extent f} \<subseteq> D" using v by (simp add: value_in_def)
  have 32: "{p..<p + 4} \<subseteq> D" if "ltype f = PB_LTYPE_FIXED32"
    using that by (intro subset_trans [OF _ ext]) (simp add: value_extent_def)
  have 64: "{p..<p + 8} \<subseteq> D" if "ltype f = PB_LTYPE_FIXED64"
    using that by (intro subset_trans [OF _ ext]) (simp add: value_extent_def)
  have "unat (ltype f) \<in> {0, 1, 2, 3, 4, 5, 6, 7, 8, 9}" using e by (auto simp: PB_DECODERS_def)
  then consider "ltype f = 0" | "ltype f = 1" | "ltype f = 2" | "ltype f = 3" | "ltype f = 4"
    | "ltype f = 5" | "ltype f = 6" | "ltype f = 7" | "ltype f = 8" | "ltype f = 9"
    by (auto simp: word_unat_eq_iff)
  then show ?thesis
  proof cases
    case 8
    with v have fp: "footprint n env D (ie_fields env (f_ptr f)) p" by (simp add: value_in_def)
    from consumer_submessage [where rec = rec, OF fp rec [OF fp]] 8 show ?thesis by (simp add: PB_DECODERS_def)
  next
    case 9
    then show ?thesis by (simp add: PB_DECODERS_def consumer_def)
  qed (use data 32 64 in \<open>simp_all add: PB_DECODERS_def consumer_varint consumer_fixed consumer_bytes
      consumer_string consumer_fixed_length\<close>)
qed

lemma consumer_packed_loop:
  assumes func: "\<And>j. j < unat (f_array_size (it_field it)) \<Longrightarrow>
      consumer D (func (it_pData it + uint (f_data_size (it_field it) * of_nat j)))"
    and sz: "{it_pSize it..<it_pSize it + 4} \<subseteq> D"
  shows "consumer D (packed_loop k func it)"
proof -
  have main: "inside s t \<and> (ok \<longrightarrow> iwithin s t) \<and> same_outside D (dmem s) (dmem t)"
    if "packed_loop k func it s = Some (ok, t)" for s ok t
    using that
  proof (induction k arbitrary: s)
    case (Suc k)
    show ?case
    proof (cases "is_bytes_left (ist s) > 0 \<and> \<not> array_full it (dmem s)")
      case True
      let ?j = "unat (load_le 4 (dmem s) (it_pSize it) :: u32)"
      have j: "?j < unat (f_array_size (it_field it))"
        using True by (simp add: array_full_def word_less_nat_alt not_le)
      have item: "array_item it (dmem s) = it_pData it + uint (f_data_size (it_field it) * of_nat ?j)"
        by (simp add: array_item_def)
      have c: "consumer D (func (array_item it (dmem s)))" unfolding item by (rule func [OF j])
      from Suc.prems True obtain ok1 s1 where run: "func (array_item it (dmem s)) s = Some (ok1, s1)"
        and rest: "if ok1 then packed_loop k func it (bump_size it s1) = Some (ok, t) else \<not> ok \<and> t = s1"
        by (auto split: option.splits if_splits)
      note i = consumer.stays [OF c run] and fr = consumer.frame [OF c run]
      show ?thesis
      proof (cases ok1)
        case False
        with rest i fr show ?thesis by auto
      next
        case ok1: True
        have "{it_pSize it..<it_pSize it + int 4} \<subseteq> D" using sz by simp
        note b = same_outside_store [OF this fr, of "(load_le 4 (dmem s1) (it_pSize it) :: u32) + 1"]
        have "ist (bump_size it s1) = ist s1" by (simp add: bump_size_def)
        note eq = stream_eq_inside [OF this]
        from Suc.IH [of "bump_size it s1"] rest ok1 have IH: "inside s1 t" "ok \<longrightarrow> iwithin s1 t"
          "same_outside D (dmem (bump_size it s1)) (dmem t)" by (auto simp: eq)
        have "iwithin s s1" using consumer.ok_within [OF c] run ok1 by simp
        with IH i b show ?thesis
          using inside_trans iwithin_trans same_outside_trans by (auto simp: bump_size_def)
      qed
    next
      case False
      with Suc.prems show ?thesis by auto
    qed
  qed simp
  show ?thesis by unfold_locales (use main in blast)+
qed

lemma consumer_packed:
  assumes loop: "consumer D (packed_loop k func it)"
  shows "consumer D (decode_packed k env func it)"
proof -
  have main: "inside s t \<and> (ok \<longrightarrow> iwithin s t) \<and> same_outside D (dmem s) (dmem t)"
    if r: "decode_packed k env func it s = Some (ok, t)" for s ok t
  proof (cases "pb_make_string_substream env s")
    case (Pair q s1)
    note mk = make_substream_facts [OF Pair]
    show ?thesis
    proof (cases q)
      case None
      with r Pair mk show ?thesis by (auto simp: decode_packed_def)
    next
      case (Some sub)
      from r Pair Some obtain status sub' s2 where
        run: "on_substream sub (packed_loop k func it) s1 = Some (status, sub', s2)"
        and cl: "if is_bytes_left sub' \<noteq> 0 then is_return_error ''array overflow'' s2 = (ok, t)
          else close_and_return env status sub' s2 = (ok, t)"
        by (auto simp: decode_packed_def split: option.splits if_splits)
      from Pair Some have sub: "pb_make_string_substream env s = (Some sub, s1)" by simp
      note f = substream_facts [OF sub loop run]
      show ?thesis
      proof (cases "is_bytes_left sub' = 0")
        case True
        with cl have "close_and_return env status sub' s2 = (ok, t)" by simp
        from close_and_return_facts [OF sub loop run this] show ?thesis by blast
      next
        case False
        with cl f(2) mk(1) stream_eq_inside(1) [OF f(1), of s] show ?thesis
          by (auto simp: is_return_error_def)
      qed
    qed
  qed
  show ?thesis by unfold_locales (use main in blast)+
qed

lemma consumer_repeated:
  assumes func: "\<And>j. j < unat (f_array_size (it_field it)) \<Longrightarrow>
      consumer D (func (it_pData it + uint (f_data_size (it_field it) * of_nat j)))"
    and sz: "{it_pSize it..<it_pSize it + 4} \<subseteq> D"
  shows "consumer D (decode_repeated func it)"
proof -
  have main: "inside s t \<and> (ok \<longrightarrow> iwithin s t) \<and> same_outside D (dmem s) (dmem t)"
    if r: "decode_repeated func it s = Some (ok, t)" for s ok t
  proof (cases "array_full it (dmem s)")
    case True
    with r show ?thesis by (auto simp: decode_repeated_def is_return_error_def)
  next
    case False
    let ?j = "unat (load_le 4 (dmem s) (it_pSize it) :: u32)"
    have j: "?j < unat (f_array_size (it_field it))"
      using False by (simp add: array_full_def word_less_nat_alt not_le)
    have item: "array_item it (dmem s) = it_pData it + uint (f_data_size (it_field it) * of_nat ?j)"
      by (simp add: array_item_def)
    have c: "consumer D (func (array_item it (dmem s)))" unfolding item by (rule func [OF j])
    have run: "func (array_item it (dmem s)) (bump_size it s) = Some (ok, t)"
      using r False by (simp add: decode_repeated_def)
    have "{it_pSize it..<it_pSize it + int 4} \<subseteq> D" using sz by simp
    note b = same_outside_store [OF this same_outside_refl, of "dmem s"
        "(load_le 4 (dmem s) (it_pSize it) :: u32) + 1"]
    from consumer_stored [OF c _ _ run, of s] b show ?thesis by (auto simp: bump_size_def)
  qed
  show ?thesis by unfold_locales (use main in blast)+
qed

lemma consumer_static:
  assumes it: "field_in (footprint n env D) env D it" and st: "atype (it_field it) = PB_ATYPE_STATIC"
    and rec: "\<And>F q. footprint n env D F q \<Longrightarrow> consumer D (rec F q)"
  shows "consumer D (decode_static_field n rec env wt it)"
proof (cases "length PB_DECODERS \<le> unat (ltype (it_field it))")
  case True
  then show ?thesis by (simp add: consumer_def decode_static_field_def Let_def)
next
  case False
  let ?f = "it_field it"
  let ?func = "call_decoder n rec env (PB_DECODERS ! unat (ltype ?f)) ?f"
  have func: "consumer D (?func p)" if "value_in (footprint n env D) env D ?f p" for p
    by (rule consumer_value [OF that rec]) (use False in auto)
  note static = decode_static_field_def False Let_def
  consider (req) "htype ?f = PB_HTYPE_REQUIRED" | (opt) "htype ?f = PB_HTYPE_OPTIONAL"
    | (rep) "htype ?f = PB_HTYPE_REPEATED" | (oneof) "htype ?f = PB_HTYPE_ONEOF"
    using htype_cases by blast
  then show ?thesis
  proof cases
    case req
    with it st have "consumer D (?func (it_pData it))" by (intro func) (simp add: field_in_def Let_def)
    then show ?thesis using req False by (simp add: consumer_def static)
  next
    case opt
    with it st have c: "consumer D (?func (it_pData it))" by (intro func) (simp add: field_in_def Let_def)
    let ?s = "\<lambda>s. if it_pSize it \<noteq> it_pData it then is_store (it_pSize it) [1] s else s"
    have "{it_pSize it..<it_pSize it + int (length [1 :: u8])} \<subseteq> D" if "it_pSize it \<noteq> it_pData it"
      using it st opt that by (auto simp: field_in_def Let_def)
    then have "same_outside D (dmem s) (dmem (?s s))" for s :: "'a istate" by (simp add: same_outside_write)
    moreover have "ist (?s s) = ist s" for s :: "'a istate" by simp
    moreover have "decode_static_field n rec env wt it s = ?func (it_pData it) (?s s)" for s
      using opt False by (simp add: static)
    ultimately show ?thesis using consumer_stored [OF c] by unfold_locales metis+
  next
    case rep
    have "{it_pSize it..<it_pSize it + 4} \<subseteq> D" using it st rep by (simp add: field_in_def Let_def)
    moreover have "consumer D (?func (it_pData it + uint (f_data_size ?f * of_nat j)))"
      if "j < unat (f_array_size ?f)" for j
      using it st rep that by (intro func) (simp add: field_in_def Let_def)
    ultimately have "consumer D (decode_packed n env ?func it)" "consumer D (decode_repeated ?func it)"
      using consumer_packed [OF consumer_packed_loop] consumer_repeated by blast+
    then show ?thesis using rep False by (simp add: consumer_def static)
  next
    case oneof
    with it st have v: "value_in (footprint n env D) env D ?f (it_pData it)" by (simp add: field_in_def Let_def)
    note c = func [OF v]
    let ?s = "\<lambda>s. s\<lparr>dmem := store_le 4 (f_tag ?f) (it_pSize it) (dmem s)\<rparr>"
    let ?z = "replicate (unat (f_data_size ?f)) 0"
    have "{it_pSize it..<it_pSize it + int 4} \<subseteq> D" using it st oneof by (simp add: field_in_def Let_def)
    note b = same_outside_store [OF this same_outside_refl, of _ "f_tag ?f"]
    have "{it_pData it..<it_pData it + int (length ?z)} \<subseteq> D" using value_in_data [OF v] by simp
    note z = same_outside_write [OF this b]
    have main: "inside s t \<and> (ok \<longrightarrow> iwithin s t) \<and> same_outside D (dmem s) (dmem t)"
      if r: "decode_static_field n rec env wt it s = Some (ok, t)" for s ok t
    proof (cases "ltype ?f = PB_LTYPE_SUBMESSAGE")
      case True
      with r oneof False obtain m where
        m: "pb_message_set_to_defaults n env (ie_fields env (f_ptr ?f)) (it_pData it)
              (mem_write (dmem (?s s)) (it_pData it) ?z) = Some m"
        and run: "?func (it_pData it) (s\<lparr>dmem := m\<rparr>) = Some (ok, t)"
        by (auto simp: static split: option.splits)
      have "footprint n env D (ie_fields env (f_ptr ?f)) (it_pData it)" using v True by (simp add: value_in_def)
      from same_outside_trans [OF _ defaults_frame [OF this m]] z
      have "same_outside D (dmem s) (dmem (s\<lparr>dmem := m\<rparr>))" by simp
      from consumer_stored [OF c _ this run] show ?thesis by simp
    next
      case nosub: False
      have run: "?func (it_pData it) (?s s) = Some (ok, t)"
        using r oneof False nosub by (simp add: static)
      from consumer_stored [OF c _ _ run, of s] b show ?thesis by simp
    qed
    show ?thesis by unfold_locales (use main in blast)+
  qed
qed

lemma read_raw_facts:
  assumes "read_raw_value env wt k s = (r, t)"
  shows "iwithin s t \<and> dmem t = dmem s"
proof -
  have v: "iwithin s t \<and> dmem t = dmem s" if "read_raw_varint env k s = (r, t)" for s r t
    using that
  proof (induction env k s arbitrary: r t rule: read_raw_varint.induct)
    case (2 env room s)
    obtain ok b s1 where rd: "pb_read env False 1 s = ((ok, b), s1)" by (metis prod.collapse)
    note w = read.rd_within [OF rd] read.rd_dmem [OF rd]
    obtain r2 s2 where nx: "read_raw_varint env room s1 = (r2, s2)" by fastforce
    show ?case
    proof (cases "ok \<and> byte_at b 0 AND 0x80 \<noteq> 0")
      case True
      with "2.IH" rd nx have "iwithin s1 s2 \<and> dmem s2 = dmem s1" by auto
      moreover have "t = s2" using "2.prems" rd nx True by (auto split: option.splits)
      ultimately show ?thesis using w iwithin_trans by auto
    next
      case False
      with "2.prems" rd w show ?thesis by (auto split: if_splits)
    qed
  qed simp
  show ?thesis
    using assms by (auto simp: read_raw_value_def Let_def split: if_splits prod.splits
        dest: v read.rd_within read.rd_dmem)
qed

lemma consumer_callback_loop:
  assumes "consumer D cb"
  shows "consumer D (callback_loop k cb)"
proof -
  have main: "inside s t \<and> (ok \<longrightarrow> iwithin s t) \<and> same_outside D (dmem s) (dmem t)"
    if "callback_loop k cb s = Some (ok, t)" for s ok t
    using that
  proof (induction k arbitrary: s)
    case (Suc k)
    from Suc.prems obtain ok1 s1 where run: "cb s = Some (ok1, s1)"
      and rest: "(ok1 = ok \<and> s1 = t) \<or> (ok1 \<and> callback_loop k cb s1 = Some (ok, t))"
      by (auto split: option.splits if_splits)
    note i = consumer.stays [OF assms run] consumer.frame [OF assms run]
    have w: "iwithin s s1" if ok1 using consumer.ok_within [OF assms] run that by simp
    from rest show ?case
    proof
      assume "ok1 = ok \<and> s1 = t"
      with i w show ?thesis by auto
    next
      assume "ok1 \<and> callback_loop k cb s1 = Some (ok, t)"
      with Suc.IH i w show ?thesis using inside_trans iwithin_trans same_outside_trans by blast
    qed
  qed simp
  show ?thesis by unfold_locales (use main in blast)+
qed

lemma consumer_callback_field:
  assumes safe: "decoders_safe env D"
  shows "consumer D (decode_callback_field n env wt it)"
proof -
  have main: "inside s t \<and> (ok \<longrightarrow> iwithin s t) \<and> same_outside D (dmem s) (dmem t)"
    if r: "decode_callback_field n env wt it s = Some (ok, t)" for s ok t
  proof -
    let ?fn = "callback_funcs (dmem s) (it_pData it)"
    let ?cb = "ie_decode env ?fn (it_field it) (callback_arg (it_pData it))"
    have c: "consumer D ?cb" using safe by (simp add: decoders_safe_def)
    note loop = consumer_callback_loop [OF c, of n]
    consider (null) "?fn = 0" | (str) "?fn \<noteq> 0" "wt = PB_WT_STRING" | (raw) "?fn \<noteq> 0" "wt \<noteq> PB_WT_STRING" by blast
    then show ?thesis
    proof cases
      case null
      with r have "pb_skip_field env wt s = (ok, t)" by (simp add: decode_callback_field_def Let_def)
      from skip_field_rd.rd_within [OF this] skip_field_rd.rd_dmem [OF this] show ?thesis
        by (simp add: iwithin_inside)
    next
      case str
      obtain q s1 where Pair: "pb_make_string_substream env s = (q, s1)" by fastforce
      note mk = make_substream_facts [OF Pair]
      show ?thesis
      proof (cases q)
        case None
        with r str Pair mk show ?thesis by (auto simp: decode_callback_field_def Let_def)
      next
        case (Some sub)
        from r str Pair Some obtain k sub' s2 where
          run: "on_substream sub (callback_loop n ?cb) s1 = Some (k, sub', s2)"
          and cl: "if k then close_and_return env True sub' s2 = (ok, t)
            else is_return_error ''callback failed'' s2 = (ok, t)"
          by (auto simp: decode_callback_field_def Let_def split: option.splits if_splits)
        from Pair Some have sub: "pb_make_string_substream env s = (Some sub, s1)" by simp
        note f = substream_facts [OF sub loop run]
        show ?thesis
        proof (cases k)
          case True
          with cl have "close_and_return env k sub' s2 = (ok, t)" by simp
          from close_and_return_facts [OF sub loop run this] show ?thesis by blast
        next
          case False
          with cl f(2) mk(1) stream_eq_inside(1) [OF f(1), of s] show ?thesis
            by (auto simp: is_return_error_def)
        qed
      qed
    next
      case raw
      obtain q s1 where rd: "read_raw_value env wt 10 s = (q, s1)" by fastforce
      note w = read_raw_facts [OF rd]
      show ?thesis
      proof (cases q)
        case None
        with r raw rd w show ?thesis
          by (auto simp: decode_callback_field_def Let_def iwithin_inside)
      next
        case (Some bs)
        with r raw rd obtain u where
          run: "?cb (s1\<lparr>ist := local_istream bs\<rparr>) = Some (ok, u)" and t: "t = u\<lparr>ist := ist s1\<rparr>"
          by (auto simp: decode_callback_field_def Let_def on_substream_def split: option.splits)
        have "ist t = ist s1" using t by simp
        with w consumer.frame [OF c run] t show ?thesis
          using stream_eq_inside(1,2) [of t s1 s] by (simp add: iwithin_inside)
      qed
    qed
  qed
  show ?thesis by unfold_locales (use main in blast)+
qed

lemma consumer_field:
  assumes it: "field_in (footprint n env D) env D it" and safe: "decoders_safe env D"
    and rec: "\<And>F q. footprint n env D F q \<Longrightarrow> consumer D (rec F q)"
  shows "consumer D (decode_field n rec env wt it)"
proof -
  consider "atype (it_field it) = PB_ATYPE_STATIC" | "atype (it_field it) = PB_ATYPE_POINTER"
    | "atype (it_field it) = PB_ATYPE_CALLBACK"
    | "atype (it_field it) \<notin> {PB_ATYPE_STATIC, PB_ATYPE_POINTER, PB_ATYPE_CALLBACK}" by blast
  then show ?thesis
  proof cases
    case 1
    from consumer_static [where rec = rec, OF it 1 rec, of wt] 1 show ?thesis
      by (simp add: decode_field_def Let_def consumer_def)
  next
    case 2
    then show ?thesis
      using consumer_error [of D "''no malloc support''"]
      by (simp add: decode_field_def decode_pointer_field_def Let_def consumer_def)
  next
    case 3
    from consumer_callback_field [OF safe, of n wt it] 3 show ?thesis
      by (simp add: decode_field_def Let_def consumer_def)
  next
    case 4
    then show ?thesis
      using consumer_error [of D "''invalid field type''"] by (simp add: decode_field_def Let_def consumer_def)
  qed
qed

section \<open>Extensions and messages\<close>

lemma consumer_ext_loop:
  assumes "\<And>e. consumer D (one e)"
  shows "consumer D (decode_extension_loop k one pos e)"
proof -
  have main: "inside s t \<and> (ok \<longrightarrow> iwithin s t) \<and> same_outside D (dmem s) (dmem t)"
    if "decode_extension_loop k one pos e s = Some (ok, t)" for s ok t e
    using that
  proof (induction k arbitrary: s e)
    case (Suc k)
    show ?case
    proof (cases "e \<noteq> 0 \<and> pos = is_bytes_left (ist s)")
      case True
      with Suc.prems obtain ok1 s1 where run: "one e s = Some (ok1, s1)"
        and rest: "(\<not> ok1 \<and> \<not> ok \<and> s1 = t) \<or>
          (ok1 \<and> decode_extension_loop k one pos (ext_next (dmem s1) e) s1 = Some (ok, t))"
        by (auto split: option.splits if_splits)
      note i = consumer.stays [OF assms run] consumer.frame [OF assms run]
      have w: "iwithin s s1" if ok1 using consumer.ok_within [OF assms] run that by simp
      from rest show ?thesis
      proof
        assume "\<not> ok1 \<and> \<not> ok \<and> s1 = t"
        with i show ?thesis by auto
      next
        assume "ok1 \<and> decode_extension_loop k one pos (ext_next (dmem s1) e) s1 = Some (ok, t)"
        with Suc.IH i w show ?thesis using inside_trans iwithin_trans same_outside_trans by blast
      qed
    next
      case False
      with Suc.prems show ?thesis by (auto split: if_splits)
    qed
  qed (auto split: if_splits)
  show ?thesis by unfold_locales (use main in blast)+
qed

text \<open>
  Extensions are stored apart from the message, so their contract is only about the stream,
  unless the message has no extension placeholder.
\<close>

lemma consumer_extension:
  assumes safe: "decoders_safe env UNIV"
    and rec: "\<And>F q. footprint n env UNIV F q \<Longrightarrow> consumer UNIV (rec F q)"
  shows "consumer UNIV (decode_extension n rec env tag wt it)"
proof -
  let ?one = "\<lambda>e s. let t = ie_ext_type env (ext_type (dmem s) e) in
    if et_decode t \<noteq> 0 then ie_ext_decode env (et_decode t) e tag wt s
    else default_extension_decoder n rec env e tag wt s"
  have field: "consumer UNIV (decode_field n rec env wt it)" for it
    by (rule consumer_field [OF field_in_UNIV safe rec]) simp
  have dflt: "inside s t \<and> (ok \<longrightarrow> iwithin s t)"
    if "default_extension_decoder n rec env e tag wt s = Some (ok, t)" for e s ok t
    using that consumer_stored [OF field, of "is_store (ext_found e) [1] s" s]
    by (auto simp: default_extension_decoder_def Let_def split: if_splits)
  have xt: "inside s t \<and> (ok \<longrightarrow> iwithin s t)" if "ie_ext_decode env fn e tag wt s = Some (ok, t)" for fn e s ok t
  proof -
    have c: "consumer UNIV (ie_ext_decode env fn e tag wt)" using safe by (simp add: decoders_safe_def)
    from consumer.stays [OF c that] consumer.ok_within [OF c, of s t] that show ?thesis by auto
  qed
  have "consumer UNIV (?one e)" for e
    by unfold_locales (use dflt xt in \<open>fastforce simp: Let_def split: if_splits\<close>)+
  from consumer_ext_loop [OF this] show ?thesis
    unfolding decode_extension_def consumer_def by simp
qed

lemma iter_find_keeps:
  "iter_find_loop k start P it = Some (b, it') \<Longrightarrow> iter_ok it \<Longrightarrow>
   iter_ok it' \<and> it_start it' = it_start it \<and> it_dest_struct it' = it_dest_struct it
   \<and> (b \<longrightarrow> P (it_field it'))"
proof (induction k start P it rule: iter_find_loop.induct)
  case (2 n start P it)
  have "it_start (snd (pb_field_iter_next it)) = it_start it"
    "it_dest_struct (snd (pb_field_iter_next it)) = it_dest_struct it"
    by (simp_all add: pb_field_iter_next_def Let_def)
  with 2 iter_ok_next [of it] show ?case by (auto simp: Let_def split: if_splits)
qed simp

text \<open>What an iteration of the main loop keeps: the iterator, and the contract of its command.\<close>

definition iter_on :: "pb_field list \<Rightarrow> addr \<Rightarrow> pb_field_iter \<Rightarrow> bool" where
  "iter_on flds dest it \<longleftrightarrow> iter_ok it \<and> it_start it = flds \<and> it_dest_struct it = dest"

lemma iter_on_field_in:
  assumes "footprint (Suc n) env D flds dest" "iter_on flds dest it"
  shows "field_in (footprint n env D) env D it"
  using assms by (metis footprint.simps(2) iter_ok_def iter_on_def)

lemma iter_on_find:
  "iter_find_loop k start P it = Some (b, it') \<Longrightarrow> iter_on flds dest it \<Longrightarrow>
   iter_on flds dest it' \<and> (b \<longrightarrow> P (it_field it'))"
  using iter_find_keeps [of k start P it b it'] by (auto simp: iter_on_def)

definition loop_result ::
  "addr set \<Rightarrow> pb_field list \<Rightarrow> addr \<Rightarrow> 'w istate \<Rightarrow> (bool \<times> decode_locals \<times> 'w istate) \<Rightarrow> bool" where
  "loop_result D flds dest s r \<longleftrightarrow>
     (case r of (ok, dl, t) \<Rightarrow> iter_on flds dest (dl_iter dl) \<and> inside s t \<and> (ok \<longrightarrow> iwithin s t)
        \<and> same_outside D (dmem s) (dmem t))"

lemma loop_result_trans:
  assumes "iwithin s s2" "same_outside D (dmem s) (dmem s2)" "loop_result D flds dest s2 r"
  shows "loop_result D flds dest s r"
proof -
  obtain ok dl t where r: "r = (ok, dl, t)" by (metis prod.collapse)
  with assms(3) have i: "inside s2 t" "ok \<longrightarrow> iwithin s2 t" "same_outside D (dmem s2) (dmem t)"
    "iter_on flds dest (dl_iter dl)"
    by (auto simp: loop_result_def)
  from inside_trans [OF iwithin_inside [OF assms(1)] i(1)] same_outside_trans [OF assms(2) i(3)]
    iwithin_trans [OF assms(1)] i
  show ?thesis by (simp add: r loop_result_def)
qed

lemma skip_result:
  assumes "iter_on flds dest (dl_iter dl)"
  shows "(let (ok, t) = pb_skip_field env wt s in Some (ok, dl, t)) = Some r \<Longrightarrow> loop_result D flds dest s r"
  using assms skip_field_rd.rd_within [of env wt s] skip_field_rd.rd_dmem [of env wt s]
  by (auto simp: loop_result_def iwithin_inside split: prod.splits)

lemma decode_unknown_result:
  assumes fp: "footprint (Suc n) env D flds dest" and safe: "decoders_safe env D"
    and rec: "\<And>F q. footprint n env D F q \<Longrightarrow> consumer D (rec F q)"
    and it: "iter_on flds dest (dl_iter dl)" and tag: "tag < - 1"
    and r: "decode_unknown n rec env tag wt dl s = Some r"
  shows "loop_result D flds dest s r"
proof (cases "tag \<ge> dl_ext_start dl")
  case False
  with r skip_result [OF it, of env wt s r D] show ?thesis by (simp add: decode_unknown_def Let_def)
next
  case True
  with r obtain found it1 where fnd: "find_extension_field (dl_iter dl) = Some (found, it1)"
    by (auto simp: decode_unknown_def Let_def split: option.splits)
  let ?dl = "dl\<lparr>dl_iter := it1, dl_ext_start := if found then f_tag (it_field it1) else - 1\<rparr>"
  have it1: "iter_on flds dest it1" and ext: "found \<longrightarrow> ltype (it_field it1) = PB_LTYPE_EXTENSION"
    using iter_on_find [OF fnd [unfolded find_extension_field_def] it] by blast+
  then have it2: "iter_on flds dest (dl_iter ?dl)" by simp
  show ?thesis
  proof (cases "found \<and> tag \<ge> f_tag (it_field it1)")
    case False
    with tag have "\<not> tag \<ge> dl_ext_start ?dl" by auto
    with r True fnd have "(let (ok, t) = pb_skip_field env wt s in Some (ok, ?dl, t)) = Some r"
      by (simp add: decode_unknown_def Let_def)
    from skip_result [OF it2 this] show ?thesis .
  next
    case dec: True
    have D: "D = UNIV" using iter_on_field_in [OF fp it1] ext dec by (simp add: field_in_def Let_def)
    have c: "consumer D (decode_extension n rec env tag wt it1)"
      using consumer_extension [of env n rec] safe rec unfolding D by blast
    from r True fnd dec obtain ok t where
      run: "decode_extension n rec env tag wt it1 s = Some (ok, t)"
      and rest: "(\<not> ok \<and> r = (False, ?dl, t)) \<or> (ok \<and> r = (True, ?dl, t)) \<or>
        (ok \<and> (let (k, u) = pb_skip_field env wt t in Some (k, ?dl, u)) = Some r)"
      by (auto simp: decode_unknown_def Let_def split: option.splits if_splits)
    note i = consumer.stays [OF c run] and w = consumer.ok_within [OF c, of s t]
    from rest run show ?thesis
    proof (elim disjE conjE)
      assume ok and sk: "(let (k, u) = pb_skip_field env wt t in Some (k, ?dl, u)) = Some r"
      from skip_result [OF it2 sk, of D] i w run \<open>ok\<close> show ?thesis
        using inside_trans iwithin_trans by (auto simp: loop_result_def D)
    qed (use i w it1 run D in \<open>auto simp: loop_result_def\<close>)
  qed
qed

lemma decode_one_result:
  assumes fp: "footprint (Suc n) env D flds dest" and safe: "decoders_safe env D"
    and rec: "\<And>F q. footprint n env D F q \<Longrightarrow> consumer D (rec F q)"
    and it: "iter_on flds dest (dl_iter dl)" and tag: "tag < - 1"
    and r: "decode_one n rec env tag wt dl s = Some r"
  shows "loop_result D flds dest s r"
proof -
  from r obtain found it1 where fnd: "pb_field_iter_find (dl_iter dl) tag = Some (found, it1)"
    by (auto simp: decode_one_def split: option.splits)
  have it1: "iter_on flds dest it1"
    using iter_on_find [OF fnd [unfolded pb_field_iter_find_def] it] by blast
  show ?thesis
  proof (cases found)
    case False
    with r fnd have "decode_unknown n rec env tag wt (dl\<lparr>dl_iter := it1\<rparr>) s = Some r"
      by (simp add: decode_one_def)
    from decode_unknown_result [where rec = rec, OF fp safe rec _ tag this] it1 show ?thesis by simp
  next
    case True
    have c: "consumer D (decode_field n rec env wt it1)"
      by (rule consumer_field [where rec = rec, OF iter_on_field_in [OF fp it1] safe rec])
    from r fnd True obtain ok t where run: "decode_field n rec env wt it1 s = Some (ok, t)"
      and r': "r = (ok, dl\<lparr>dl_iter := it1, dl_seen := mark_seen it1 (dl_seen dl)\<rparr>, t)"
      by (auto simp: decode_one_def split: option.splits)
    from it1 consumer.stays [OF c run] consumer.ok_within [OF c, of s t] consumer.frame [OF c run] run
    show ?thesis by (auto simp: r' loop_result_def)
  qed
qed

lemma decode_tag_small: "pb_decode_tag env s = ((ok, wt, tag, eof), t) \<Longrightarrow> tag < - 1"
proof -
  assume "pb_decode_tag env s = ((ok, wt, tag, eof), t)"
  then have "tag = 0 \<or> (\<exists>temp. tag = drop_bit 3 temp)"
    by (auto simp: pb_decode_tag_def split: prod.splits option.splits if_splits)
  moreover have "drop_bit 3 temp \<noteq> - 1" for temp :: u32
  proof -
    have "\<not> bit (drop_bit 3 temp) 31"
      using bit_imp_le_length [of temp 34] by (auto simp: bit_simps)
    moreover have "bit (- 1 :: u32) 31" by simp
    ultimately show ?thesis by metis
  qed
  moreover have "(0 :: u32) \<noteq> - 1" by simp
  ultimately have "tag \<noteq> - 1" by metis
  then show ?thesis by (simp add: word_order.not_eq_extremum)
qed

lemma decode_loop_result:
  assumes fp: "footprint (Suc n) env D flds dest" and safe: "decoders_safe env D"
    and rec: "\<And>F q. footprint n env D F q \<Longrightarrow> consumer D (rec F q)"
  shows "iter_on flds dest (dl_iter dl) \<Longrightarrow> decode_loop k n rec env dl s = Some r \<Longrightarrow>
    loop_result D flds dest s r"
proof (induction k arbitrary: dl s)
  case (Suc k)
  show ?case
  proof (cases "is_bytes_left (ist s) = 0")
    case True
    with Suc.prems show ?thesis by (auto simp: loop_result_def)
  next
    case False
    obtain ok wt tag eof s1 where tg: "pb_decode_tag env s = ((ok, wt, tag, eof), s1)" by (metis prod.collapse)
    note w = tag_rd.rd_within [OF tg] tag_rd.rd_dmem [OF tg]
    show ?thesis
    proof (cases ok)
      case False: False
      with Suc.prems tg w \<open>is_bytes_left (ist s) \<noteq> 0\<close> show ?thesis
        by (auto simp: loop_result_def iwithin_inside)
    next
      case True
      with Suc.prems(2) tg False obtain k2 dl1 s2 where
        one: "decode_one n rec env tag wt dl s1 = Some (k2, dl1, s2)"
        and rest: "if k2 then decode_loop k n rec env dl1 s2 = Some r else r = (False, dl1, s2)"
        by (auto split: option.splits if_splits)
      have lr: "loop_result D flds dest s1 (k2, dl1, s2)"
        by (rule decode_one_result [where rec = rec, OF fp safe rec Suc.prems(1) decode_tag_small [OF tg] one])
      show ?thesis
      proof (cases k2)
        case True
        with rest lr Suc.IH [of dl1 s2] have "loop_result D flds dest s2 r" by (simp add: loop_result_def)
        moreover have "iwithin s s2" "same_outside D (dmem s) (dmem s2)"
          using lr w True iwithin_trans by (auto simp: loop_result_def)
        ultimately show ?thesis by (rule loop_result_trans [rotated 2])
      next
        case False
        with rest lr w show ?thesis
          using inside_trans iwithin_inside by (auto simp: loop_result_def) blast
      qed
    qed
  qed
qed simp

lemma iter_on_begin: "iter_on flds dest (snd (pb_field_iter_begin flds dest))"
  using iter_ok_at [of 0 flds dest] by (simp add: iter_on_def)

lemma consumer_noinit:
  "footprint n env D flds dest \<Longrightarrow> decoders_safe env D \<Longrightarrow> consumer D (pb_decode_noinit n env flds dest)"
proof (induction n arbitrary: flds dest)
  case 0
  then show ?case by (simp add: consumer_def)
next
  case (Suc n)
  let ?dl = "\<lparr>dl_iter = snd (pb_field_iter_begin flds dest), dl_seen = [0, 0], dl_ext_start = 0\<rparr>"
  have rec: "consumer D (pb_decode_noinit n env F q)" if "footprint n env D F q" for F q
    using Suc.IH [OF that] Suc.prems(2) .
  have main: "inside s t \<and> (ok \<longrightarrow> iwithin s t) \<and> same_outside D (dmem s) (dmem t)"
    if r: "pb_decode_noinit (Suc n) env flds dest s = Some (ok, t)" for s ok t
  proof -
    from r obtain k dl u where loop: "decode_loop (Suc n) n (pb_decode_noinit n env) env ?dl s = Some (k, dl, u)"
      and fin: "(ok \<longrightarrow> k) \<and> (t = u \<or> (\<not> ok \<and> t = is_set_error ''missing required field'' u))"
      by (auto simp: is_return_error_def simp del: decode_loop.simps split: option.splits if_splits)
    have "loop_result D flds dest s (k, dl, u)"
    proof (rule decode_loop_result [where rec = "pb_decode_noinit n env", OF Suc.prems rec _ loop])
      show "iter_on flds dest (dl_iter ?dl)" using iter_on_begin [of flds dest] by simp
    qed
    with fin show ?thesis by (auto simp: loop_result_def)
  qed
  show ?case by unfold_locales (use main in blast)+
qed

lemma consumer_decode:
  "footprint n env D flds dest \<Longrightarrow> decoders_safe env D \<Longrightarrow> consumer D (pb_decode n env flds dest)"
  unfolding pb_decode_def by (rule consumer_init) (simp_all add: consumer_noinit)

lemma consumer_delimited:
  assumes "footprint n env D flds dest" "decoders_safe env D"
  shows "consumer D (pb_decode_delimited n env flds dest)"
proof -
  note dec = consumer_decode [OF assms]
  have main: "inside s t \<and> (ok \<longrightarrow> iwithin s t) \<and> same_outside D (dmem s) (dmem t)"
    if r: "pb_decode_delimited n env flds dest s = Some (ok, t)" for s ok t
  proof (cases "pb_make_string_substream env s")
    case (Pair q s1)
    note mk = make_substream_facts [OF Pair]
    show ?thesis
    proof (cases q)
      case None
      with r Pair mk show ?thesis by (auto simp: pb_decode_delimited_def)
    next
      case (Some sub)
      from r Pair Some obtain status sub' s2 where
        run: "on_substream sub (pb_decode n env flds dest) s1 = Some (status, sub', s2)"
        and cl: "close_and_return env status sub' s2 = (ok, t)"
        by (auto simp: pb_decode_delimited_def split: option.splits)
      from Pair Some have "pb_make_string_substream env s = (Some sub, s1)" by simp
      from close_and_return_facts [OF this dec run cl] show ?thesis by blast
    qed
  qed
  show ?thesis by unfold_locales (use main in blast)+
qed

section \<open>The decoders as consumers\<close>

text \<open>Each field decoder stays in its input and writes inside the member it is given.\<close>

interpretation varint_dec: consumer "{p..<p + uint (f_data_size f)}" "ret_opt (pb_dec_varint env f p)" for env f p
  by (rule consumer_varint) simp

interpretation uvarint_dec: consumer "{p..<p + uint (f_data_size f)}" "ret_opt (pb_dec_uvarint env f p)" for env f p
  by (rule consumer_varint) simp

interpretation svarint_dec: consumer "{p..<p + uint (f_data_size f)}" "ret_opt (pb_dec_svarint env f p)" for env f p
  by (rule consumer_varint) simp

interpretation fixed32_dec: consumer "{p..<p + 4}" "ret_opt (pb_dec_fixed32 env f p)" for env f p
  by (rule consumer_fixed) simp

interpretation fixed64_dec: consumer "{p..<p + 8}" "ret_opt (pb_dec_fixed64 env f p)" for env f p
  by (rule consumer_fixed) simp

interpretation bytes_dec: consumer "{p..<p + uint (f_data_size f)}" "ret_opt (pb_dec_bytes env f p)" for env f p
  by (rule consumer_bytes) simp

interpretation string_dec: consumer "{p..<p + uint (f_data_size f)}" "ret_opt (pb_dec_string env f p)" for env f p
  by (rule consumer_string) simp

interpretation fixed_length_dec: consumer "{p..<p + uint (f_data_size f)}" "ret_opt (pb_dec_fixed_length_bytes env f p)"
  for env f p
  by (rule consumer_fixed_length) simp

end
