(* ===== verification/Pb_Decode_Total.thy ===== *)
theory Pb_Decode_Total
  imports Pb_Decode_Safe
begin

text \<open>
  The decoder comes back: every round of its loops takes input, so that fuel above the
  number of bytes left is enough, for every input, when the descriptors are in order and the
  application's callbacks come back and take input themselves.
\<close>

section \<open>Readers take input\<close>

lemma inside_left: "inside s t \<Longrightarrow> unat (is_bytes_left (ist t)) \<le> unat (is_bytes_left (ist s))"
  by (simp add: inside_def word_le_nat_alt [symmetric] word_le_def)

lemma varint_decreases:
  assumes "pb_decode_varint env s = (Some v, t)"
  shows "unat (is_bytes_left (ist t)) < unat (is_bytes_left (ist s))"
proof -
  from assms obtain b s1 where rd: "pb_readbyte env s = (Some b, s1)"
    and rest: "t = s1 \<or> (\<exists>x. decode_varint_loop env 7 x s1 = (Some v, t))"
    unfolding pb_decode_varint_def
    by (subst (asm) decode_varint_loop.simps) (auto simp: Let_def split: prod.splits option.splits if_splits)
  have "iwithin s1 t" using rest by (auto dest: decode_varint_loop_within)
  from inside_left [OF iwithin_inside [OF this]] readbyte_decreases [OF rd] show ?thesis by simp
qed

lemma varint32_decreases:
  assumes "pb_decode_varint32 env s = (Some v, t)"
  shows "unat (is_bytes_left (ist t)) < unat (is_bytes_left (ist s))"
proof -
  from assms obtain b s1 where rd: "pb_readbyte env s = (Some b, s1)"
    and rest: "t = s1 \<or> (\<exists>x. decode_varint32_loop env 7 x s1 = (Some v, t))"
    by (auto simp: pb_decode_varint32_def split: prod.splits option.splits if_splits)
  have "iwithin s1 t" using rest by (auto dest: decode_varint32_loop_within)
  from inside_left [OF iwithin_inside [OF this]] readbyte_decreases [OF rd] show ?thesis by simp
qed

lemma tag_decreases:
  assumes "pb_decode_tag env s = ((True, wt, tag, eof), t)"
  shows "unat (is_bytes_left (ist t)) < unat (is_bytes_left (ist s))"
  using assms varint32_decreases
  by (auto simp: pb_decode_tag_def split: prod.splits option.splits if_splits)

lemma read_decreases:
  assumes "pb_read env False n s = ((True, bs), t)" "n \<noteq> 0"
  shows "unat (is_bytes_left (ist t)) < unat (is_bytes_left (ist s))"
proof -
  from assms have le: "n \<le> is_bytes_left (ist s)" and t: "is_bytes_left (ist t) = is_bytes_left (ist s) - n"
    by (auto simp: pb_read_def pb_read_direct_def Let_def split: if_splits prod.splits dest!: is_call_ist)
  have "unat n \<le> unat (is_bytes_left (ist s))" using le by (simp add: word_le_nat_alt)
  moreover have "0 < unat n" using assms(2) by (simp add: unat_gt_0)
  ultimately show ?thesis using le t by (simp add: unat_sub)
qed

text \<open>The values that can be packed.\<close>

lemma packable_decreases:
  assumes "lt \<le> PB_LTYPE_LAST_PACKABLE"
    and "call_decoder n rec env (PB_DECODERS ! unat lt) f p s = Some (True, t)"
  shows "unat (is_bytes_left (ist t)) < unat (is_bytes_left (ist s))"
proof -
  have "unat lt \<in> {0, 1, 2, 3, 4}" using assms(1) by (auto simp: word_le_nat_alt)
  then consider "lt = 0" | "lt = 1" | "lt = 2" | "lt = 3" | "lt = 4" by (auto simp: word_unat_eq_iff)
  then show ?thesis
    using assms(2)
    by cases
      (auto simp: PB_DECODERS_def ret_opt_def pb_dec_varint_def pb_dec_uvarint_def pb_dec_svarint_def
        pb_decode_svarint_def pb_dec_fixed32_def pb_dec_fixed64_def pb_decode_fixed32_def pb_decode_fixed64_def
        store_clamped_def is_return_error_def Let_def
        split: prod.splits option.splits if_splits dest!: varint_decreases read_decreases)
qed

section \<open>Required fields are counted\<close>

abbreviation required :: "pb_field \<Rightarrow> bool" where "required f \<equiv> htype f = PB_HTYPE_REQUIRED"

definition req_index :: "pb_field list \<Rightarrow> nat \<Rightarrow> nat" where
  "req_index flds i = length (filter required (take i (live_fields flds)))"

definition req_total :: "pb_field list \<Rightarrow> nat" where
  "req_total flds = length (filter required (live_fields flds))"

lemma req_index_Suc:
  "i < nfields flds \<Longrightarrow> req_index flds (Suc i) = req_index flds i + (if required (field_at flds i) then 1 else 0)"
  by (simp add: req_index_def take_Suc_conv_app_nth field_at_live)

lemma iter_at_required:
  "i = 0 \<or> i < nfields flds \<Longrightarrow> it_required_field_index (iter_at flds d i) = of_nat (req_index flds i)"
proof (induction i)
  case 0
  then show ?case by (simp add: req_index_def pb_field_iter_begin_def Let_def)
next
  case (Suc i)
  then have i: "i < nfields flds" "Suc i < nfields flds" by auto
  have IH: "it_required_field_index (iter_at flds d i) = of_nat (req_index flds i)" using Suc.IH i by simp
  have "it_required_field_index (snd (pb_field_iter_next (iter_at flds d i))) =
      of_nat (req_index flds i) + (if required (field_at flds i) then 1 else 0)"
    using tag_live [OF i(1)] tag_live [OF i(2)] i IH
    by (simp add: pb_field_iter_next_def Let_def del: iter_at.simps)
  then show ?case by (simp add: req_index_Suc [OF i(1)])
qed

lemma seek_end_at:
  "i < nfields flds \<Longrightarrow> seek_end (iter_at flds d i) =
     (of_nat (req_index flds (nfields flds - 1)), f_type (field_at flds (nfields flds - 1)), iter_at flds d 0)"
proof (induction "nfields flds - i" arbitrary: i)
  case (Suc k)
  show ?case
  proof (cases "Suc i < nfields flds")
    case True
    with Suc have "seek_end (iter_at flds d (Suc i)) =
       (of_nat (req_index flds (nfields flds - 1)), f_type (field_at flds (nfields flds - 1)), iter_at flds d 0)"
      by (metis Suc_diff_Suc Suc_inject)
    with True Suc.prems show ?thesis
      by (subst seek_end.simps) (simp add: iter_next_at del: iter_at.simps)
  next
    case False
    with Suc.prems have "i = nfields flds - 1" by linarith
    with False Suc.prems show ?thesis
      by (subst seek_end.simps) (simp add: iter_next_at iter_at_required del: iter_at.simps)
  qed
qed simp

lemma req_field_count_eq:
  assumes "iter_ok it"
  shows "req_field_count it = of_nat (req_total (it_start it))"
proof -
  let ?F = "it_start it" and ?d = "it_dest_struct it" and ?n = "nfields (it_start it)"
  have at: "it = iter_at ?F ?d (it_pos it)" and p: "it_pos it = 0 \<or> it_pos it < ?n"
    using assms by (auto simp: iter_ok_def)
  show ?thesis
  proof (cases "?n = 0")
    case True
    then have "it_pos it = 0" using p by simp
    then have "pb_field_iter_next it = (False, it)"
      using iter_next_at [of 0 ?F ?d] at True by (simp del: iter_at.simps)
    moreover have "f_tag (it_field it) = 0" using tag_end [of ?F] True \<open>it_pos it = 0\<close> by simp
    moreover have "it_required_field_index it = 0"
      using iter_at_required [of 0 ?F ?d] at \<open>it_pos it = 0\<close> by (simp add: req_index_def del: iter_at.simps)
    ultimately show ?thesis
      using True by (subst req_field_count_def, subst seek_end.simps) (simp add: req_total_def)
  next
    case False
    then have n: "it_pos it < ?n" "0 < ?n" using p by auto
    have tot: "req_total ?F = req_index ?F (?n - 1) + (if required (field_at ?F (?n - 1)) then 1 else 0)"
      using req_index_Suc [of "?n - 1" ?F] n by (simp add: req_index_def req_total_def)
    have "f_tag (it_field (iter_at ?F ?d 0)) \<noteq> 0" using tag_live [OF n(2)] by simp
    then show ?thesis
      using seek_end_at [OF n(1), of ?d] at tot
      by (simp add: req_field_count_def del: iter_at.simps)
  qed
qed

section \<open>Descriptors in order\<close>

text \<open>
  What the generated descriptors satisfy: at most 63 required fields and not 32 of them (the
  check at the end of \<^verbatim>\<open>pb_decode_noinit\<close> is defined for no other number), decoders that
  exist, and submessages that nest less than \<open>n\<close> deep. Extension placeholders are left out.
\<close>

definition decodable :: "(pb_field list \<Rightarrow> bool) \<Rightarrow> 'w ienv \<Rightarrow> pb_field \<Rightarrow> bool" where
  "decodable sub env f \<longleftrightarrow> ltype f \<noteq> PB_LTYPE_EXTENSION
     \<and> (atype f = PB_ATYPE_STATIC \<longrightarrow> unat (ltype f) < length PB_DECODERS
          \<and> (ltype f = PB_LTYPE_SUBMESSAGE \<longrightarrow> sub (ie_fields env (f_ptr f))))"

primrec descriptors_ok :: "nat \<Rightarrow> 'w ienv \<Rightarrow> pb_field list \<Rightarrow> bool" where
  "descriptors_ok 0 env flds \<longleftrightarrow> False"
| "descriptors_ok (Suc n) env flds \<longleftrightarrow> req_total flds < 64 \<and> req_total flds \<noteq> 32
     \<and> decodable (descriptors_ok n env) env (field_at flds 0)
     \<and> list_all (decodable (descriptors_ok n env) env) (live_fields flds)"

text \<open>
  The fields that are decoded by callbacks of the application, in the message type itself and in its submessages. Their
  callbacks have to come back, and a successful call has to take input if there is any. \<^verbatim>\<open>pb.h\<close> does not ask for the latter, but
  \<^verbatim>\<open>decode_callback_field\<close> calls a callback again until it has used up its stream.
\<close>

definition field_callbacks :: "(pb_field list \<Rightarrow> pb_field list) \<Rightarrow> 'w ienv \<Rightarrow> pb_field \<Rightarrow> pb_field list" where
  "field_callbacks sub env f =
     (if atype f = PB_ATYPE_CALLBACK then [f]
      else if atype f = PB_ATYPE_STATIC \<and> ltype f = PB_LTYPE_SUBMESSAGE then sub (ie_fields env (f_ptr f)) else [])"

primrec callback_fields :: "nat \<Rightarrow> 'w ienv \<Rightarrow> pb_field list \<Rightarrow> pb_field list" where
  "callback_fields 0 env flds = []"
| "callback_fields (Suc n) env flds =
     concat (map (field_callbacks (callback_fields n env) env) (field_at flds 0 # live_fields flds))"

definition decoders_return :: "'w ienv \<Rightarrow> pb_field set \<Rightarrow> bool" where
  "decoders_return env C \<longleftrightarrow> (\<forall>f\<in>C. \<forall>fn a s. \<exists>ok t. ie_decode env fn f a s = Some (ok, t)
     \<and> (ok \<and> is_bytes_left (ist s) \<noteq> 0 \<longrightarrow> unat (is_bytes_left (ist t)) < unat (is_bytes_left (ist s))))"

lemma callback_fields_field:
  assumes "set (callback_fields (Suc n) env flds) \<subseteq> C" "i = 0 \<or> i < nfields flds"
  shows "set (field_callbacks (callback_fields n env) env (field_at flds i)) \<subseteq> C"
proof -
  have "field_at flds i \<in> set (field_at flds 0 # live_fields flds)"
    using assms(2) by (auto simp: field_at_live)
  then have "set (field_callbacks (callback_fields n env) env (field_at flds i)) \<subseteq> set (callback_fields (Suc n) env flds)"
    unfolding callback_fields.simps set_concat set_map by blast
  with assms(1) show ?thesis by (rule order_trans [rotated])
qed

lemma descriptors_ok_field:
  assumes "descriptors_ok (Suc n) env flds" "i = 0 \<or> i < nfields flds"
  shows "decodable (descriptors_ok n env) env (field_at flds i)"
  using assms by (auto simp: list_all_iff field_at_live)

lemma descriptors_ok_pos: "descriptors_ok n env flds \<Longrightarrow> 0 < n"
  by (cases n) auto

lemma check_seen_total:
  assumes "n < 64" "n \<noteq> 32" "length seen = 2"
  shows "check_seen seen (of_nat n) \<noteq> None"
proof (cases "n = 0")
  case True
  then show ?thesis by (simp add: check_seen_def Let_def)
next
  case False
  have "n mod 32 \<noteq> 0"
  proof
    assume "n mod 32 = 0"
    then obtain k where "n = 32 * k" by blast
    with assms(1,2) False show False by auto
  qed
  moreover have "n div 32 < 2" using assms(1) by simp
  moreover note assms
  ultimately show ?thesis
    by (auto simp: check_seen_def Let_def unsigned_of_nat take_bit_nat_eq_self)
qed

lemma set_all_returns:
  assumes "\<And>i m. i < nfields flds \<Longrightarrow> \<exists>m'. setf (iter_at flds dest i) m = Some m'"
  shows "\<exists>m'. set_all_to_default setf flds dest m = Some m'"
proof (cases "nfields flds = 0")
  case True
  then show ?thesis by (simp add: set_all_to_default_def iter_begin_eq del: iter_at.simps)
next
  case False
  let ?body = "\<lambda>it m. map_option (\<lambda>m'. (True, m')) (setf it m)"
  have "returns (iter_loop ?body (iter_at flds dest 0))"
  proof (rule returns_iter_loop)
    fix i assume "i < nfields flds"
    with assms have "\<exists>m'. setf (iter_at flds dest i) m = Some m'" for m by blast
    then show "returns (?body (iter_at flds dest i))" by (auto simp: returns_def simp del: iter_at.simps)
  qed (use False in linarith)
  from returnsD [OF this, of m] False show ?thesis
    by (auto simp: set_all_to_default_def iter_begin_eq simp del: iter_at.simps)
qed

lemma defaults_return:
  "descriptors_ok n env flds \<Longrightarrow> \<exists>m'. pb_message_set_to_defaults n env flds dest m = Some m'"
  unfolding pb_message_set_to_defaults_def
proof (induction n arbitrary: flds dest m)
  case (Suc n)
  show ?case
  proof (rule set_all_returns)
    fix i m assume i: "i < nfields flds"
    let ?it = "iter_at flds dest i"
    let ?f = "field_at flds i"
    have f: "it_field ?it = ?f" using i by simp
    have ok: "decodable (descriptors_ok n env) env ?f" using descriptors_ok_field [OF Suc.prems] i by blast
    have "\<exists>m'. set_data_to_default (set_all_to_default (pb_field_set_to_default n env)) env ?it m = Some m'"
      if "atype ?f = PB_ATYPE_STATIC" for m
      using ok that Suc.IH f by (simp add: decodable_def set_data_to_default_def Let_def del: iter_at.simps)
    with ok f show "\<exists>m'. pb_field_set_to_default (Suc n) env ?it m = Some m'"
      by (simp add: decodable_def Let_def del: iter_at.simps)
  qed
qed simp

section \<open>Fields return\<close>

lemma init_returns:
  assumes "descriptors_ok n env flds" "\<And>s'. ist s' = ist s \<Longrightarrow> \<exists>r. rec flds p s' = Some r"
  shows "\<exists>r. init_and_decode n rec env flds p s = Some r"
proof -
  obtain m where "pb_message_set_to_defaults n env flds p (dmem s) = Some m"
    using defaults_return [OF assms(1)] by blast
  with assms(2) [of "s\<lparr>dmem := m\<rparr>"] show ?thesis by (simp add: init_and_decode_def)
qed

text \<open>A substream is shorter than what was left, by the tag already read and its length.\<close>

lemma substream_shorter:
  assumes "pb_make_string_substream env s = (Some sub, s1)"
  shows "unat (is_bytes_left sub) < unat (is_bytes_left (ist s))"
proof -
  from assms obtain sz s0 where v: "pb_decode_varint32 env s = (Some sz, s0)"
    and sub: "sub = (ist s0)\<lparr>is_bytes_left := ucast sz\<rparr>" and le: "\<not> is_bytes_left (ist s0) < ucast sz"
    by (auto simp: pb_make_string_substream_def Let_def split: prod.splits option.splits if_splits)
  from le have "unat (is_bytes_left sub) \<le> unat (is_bytes_left (ist s0))"
    by (simp add: sub word_less_nat_alt)
  with varint32_decreases [OF v] show ?thesis by simp
qed

definition rec_returns :: "nat \<Rightarrow> 'w ienv \<Rightarrow> pb_field set \<Rightarrow> 'w msg_decoder \<Rightarrow> bool" where
  "rec_returns n env C rec \<longleftrightarrow> (\<forall>F p s. descriptors_ok n env F \<and> set (callback_fields n env F) \<subseteq> C \<and> unat (is_bytes_left (ist s)) < n
     \<longrightarrow> (\<exists>r. rec F p s = Some r))"

lemma submessage_returns:
  assumes rec: "rec_returns n env C rec" and F: "descriptors_ok n env (ie_fields env (f_ptr f))"
    and C: "set (callback_fields n env (ie_fields env (f_ptr f))) \<subseteq> C"
    and n: "unat (is_bytes_left (ist s)) \<le> n"
  shows "\<exists>r. pb_dec_submessage n rec env f p s = Some r"
proof (cases "\<exists>sub s1. pb_make_string_substream env s = (Some sub, s1) \<and> f_ptr f \<noteq> 0")
  case True
  then obtain sub s1 where mk: "pb_make_string_substream env s = (Some sub, s1)" and p: "f_ptr f \<noteq> 0" by blast
  let ?F = "ie_fields env (f_ptr f)" and ?s = "s1\<lparr>ist := sub\<rparr>"
  have "\<exists>r. rec ?F p s' = Some r" if "ist s' = sub" for s'
    using rec F C that substream_shorter [OF mk] n by (auto simp: rec_returns_def)
  then have "\<exists>r. rec ?F p ?s = Some r" "\<exists>r. init_and_decode n rec env ?F p ?s = Some r"
    using init_returns [OF F, of ?s rec p] by auto
  with mk p show ?thesis
    by (auto simp: pb_dec_submessage_def on_substream_def Let_def)
next
  case False
  then show ?thesis
    by (auto simp: pb_dec_submessage_def split: prod.splits option.splits)
qed

lemma value_returns:
  assumes rec: "rec_returns n env C rec" and ok: "decodable (descriptors_ok n env) env f" "atype f = PB_ATYPE_STATIC"
    and C: "set (field_callbacks (callback_fields n env) env f) \<subseteq> C" and n: "unat (is_bytes_left (ist s)) \<le> n"
  shows "\<exists>r. call_decoder n rec env (PB_DECODERS ! unat (ltype f)) f p s = Some r"
proof -
  have "unat (ltype f) \<in> {0, 1, 2, 3, 4, 5, 6, 7, 8, 9}" using ok by (auto simp: decodable_def PB_DECODERS_def)
  then consider "ltype f = 7" | "ltype f = 8" | "ltype f = 0 \<or> ltype f = 1 \<or> ltype f = 2 \<or> ltype f = 3
    \<or> ltype f = 4 \<or> ltype f = 5 \<or> ltype f = 6 \<or> ltype f = 9"
    by (auto simp: word_unat_eq_iff)
  then show ?thesis
  proof cases
    case 1
    with submessage_returns [OF rec _ _ n, of f p] ok C show ?thesis by (simp add: PB_DECODERS_def decodable_def field_callbacks_def)
  next
    case 2
    with ok show ?thesis by (simp add: decodable_def)
  next
    case 3
    then show ?thesis by (auto simp: PB_DECODERS_def ret_opt_def)
  qed
qed

lemma packed_loop_returns:
  assumes func: "\<And>p s. unat (is_bytes_left (ist s)) \<le> n \<Longrightarrow> \<exists>r. func p s = Some r"
    and dec: "\<And>p s t. func p s = Some (True, t) \<Longrightarrow> unat (is_bytes_left (ist t)) < unat (is_bytes_left (ist s))"
  shows "unat (is_bytes_left (ist s)) < k \<Longrightarrow> unat (is_bytes_left (ist s)) \<le> n \<Longrightarrow>
    \<exists>r. packed_loop k func it s = Some r"
proof (induction k arbitrary: s)
  case (Suc k)
  obtain ok t where run: "func (array_item it (dmem s)) s = Some (ok, t)" using func Suc.prems(2) by force
  have left: "is_bytes_left (ist (bump_size it t)) = is_bytes_left (ist t)" by (simp add: bump_size_def)
  show ?case
  proof (cases ok)
    case True
    then have "unat (is_bytes_left (ist t)) < unat (is_bytes_left (ist s))" using dec [of _ s t] run by simp
    with Suc.IH [of "bump_size it t"] Suc.prems left run show ?thesis by auto
  next
    case False
    with run show ?thesis by auto
  qed
qed simp

lemma static_returns:
  assumes rec: "rec_returns n env C rec"
    and ok: "decodable (descriptors_ok n env) env (it_field it)" and st: "atype (it_field it) = PB_ATYPE_STATIC"
    and C: "set (field_callbacks (callback_fields n env) env (it_field it)) \<subseteq> C" and n: "unat (is_bytes_left (ist s)) \<le> n"
  shows "\<exists>r. decode_static_field n rec env wt it s = Some r"
proof -
  let ?f = "it_field it"
  let ?func = "call_decoder n rec env (PB_DECODERS ! unat (ltype ?f)) ?f"
  have e: "\<not> length PB_DECODERS \<le> unat (ltype ?f)" using ok st by (simp add: decodable_def)
  have func: "\<exists>r. ?func p s' = Some r" if "unat (is_bytes_left (ist s')) \<le> n" for p s'
    using value_returns [OF rec ok st C that] .
  note static = decode_static_field_def e Let_def
  consider (single) "required ?f \<or> htype ?f = PB_HTYPE_OPTIONAL"
    | (packed) "htype ?f = PB_HTYPE_REPEATED" "wt = PB_WT_STRING \<and> ltype ?f \<le> PB_LTYPE_LAST_PACKABLE"
    | (rep) "htype ?f = PB_HTYPE_REPEATED" "\<not> (wt = PB_WT_STRING \<and> ltype ?f \<le> PB_LTYPE_LAST_PACKABLE)"
    | (oneof) "htype ?f = PB_HTYPE_ONEOF"
    using htype_cases by blast
  then show ?thesis
  proof cases
    case single
    then show ?thesis using func n e by (auto simp: static)
  next
    case packed
    show ?thesis
    proof (cases "pb_make_string_substream env s")
      case (Pair q s1)
      have "\<exists>r. packed_loop n ?func it (s1\<lparr>ist := sub\<rparr>) = Some r" if "q = Some sub" for sub
      proof (rule packed_loop_returns)
        have "unat (is_bytes_left sub) < unat (is_bytes_left (ist s))"
          using substream_shorter Pair that by blast
        then show "unat (is_bytes_left (ist (s1\<lparr>ist := sub\<rparr>))) < n"
          "unat (is_bytes_left (ist (s1\<lparr>ist := sub\<rparr>))) \<le> n" using n by auto
      qed (use func packed packable_decreases in blast)+
      with Pair packed e show ?thesis
        by (cases q) (auto simp: static decode_packed_def on_substream_def)
    qed
  next
    case rep
    have "\<exists>r. ?func p (bump_size it s) = Some r" for p using func n by (simp add: bump_size_def)
    with rep e show ?thesis by (auto simp: static decode_repeated_def)
  next
    case oneof
    have "\<exists>m'. pb_message_set_to_defaults n env (ie_fields env (f_ptr ?f)) p m = Some m'"
      if "ltype ?f = PB_LTYPE_SUBMESSAGE" for p m
      using ok st that by (intro defaults_return) (simp add: decodable_def)
    note dflt = this
    have f: "\<exists>r. ?func p (s\<lparr>dmem := m\<rparr>) = Some r" for p m using func n by simp
    show ?thesis
    proof (cases "ltype ?f = PB_LTYPE_SUBMESSAGE")
      case True
      let ?s = "store_le 4 (f_tag ?f) (it_pSize it) (dmem s)"
      obtain m where "pb_message_set_to_defaults n env (ie_fields env (f_ptr ?f)) (it_pData it)
          (mem_write ?s (it_pData it) (replicate (unat (f_data_size ?f)) 0)) = Some m"
        using dflt [OF True] by blast
      with f [of "it_pData it" m] True oneof e show ?thesis by (simp add: static)
    next
      case False
      with f oneof e show ?thesis by (simp add: static)
    qed
  qed
qed

lemma callback_loop_returns:
  assumes "\<And>s. \<exists>ok t. cb s = Some (ok, t)
      \<and> (ok \<and> is_bytes_left (ist s) \<noteq> 0 \<longrightarrow> unat (is_bytes_left (ist t)) < unat (is_bytes_left (ist s)))"
    and safe: "consumer UNIV cb"
  shows "unat (is_bytes_left (ist s)) < k \<Longrightarrow> \<exists>r. callback_loop k cb s = Some r"
proof (induction k arbitrary: s)
  case (Suc k)
  from assms(1) obtain ok t where run: "cb s = Some (ok, t)"
    and dec: "ok \<and> is_bytes_left (ist s) \<noteq> 0 \<longrightarrow> unat (is_bytes_left (ist t)) < unat (is_bytes_left (ist s))"
    by blast
  have "unat (is_bytes_left (ist t)) \<le> unat (is_bytes_left (ist s))"
    using inside_left [OF consumer.stays [OF safe run]] .
  then have "ok \<and> is_bytes_left (ist t) \<noteq> 0 \<longrightarrow> unat (is_bytes_left (ist t)) < unat (is_bytes_left (ist s))"
    using dec by (auto simp flip: unat_eq_0)
  with Suc run show ?case by auto
qed simp

lemma callback_field_returns:
  assumes cb: "decoders_return env C" and C: "it_field it \<in> C"
    and safe: "decoders_safe env UNIV" and n: "unat (is_bytes_left (ist s)) \<le> n"
  shows "\<exists>r. decode_callback_field n env wt it s = Some r"
proof -
  let ?cb = "ie_decode env (callback_funcs (dmem s) (it_pData it)) (it_field it) (callback_arg (it_pData it))"
  have one: "\<exists>ok t. ?cb s = Some (ok, t)" for s using cb C unfolding decoders_return_def by blast
  have loop: "\<exists>r. callback_loop n ?cb (s1\<lparr>ist := sub\<rparr>) = Some r"
    if "pb_make_string_substream env s = (Some sub, s1)" for sub s1
  proof (rule callback_loop_returns)
    show "consumer UNIV ?cb" using safe by (simp add: decoders_safe_def)
    show "unat (is_bytes_left (ist (s1\<lparr>ist := sub\<rparr>))) < n" using substream_shorter [OF that] n by simp
  qed (use cb C in \<open>simp add: decoders_return_def\<close>)
  obtain q s1 where mk: "pb_make_string_substream env s = (q, s1)" by fastforce
  obtain q' s1' where rr: "read_raw_value env wt 10 s = (q', s1')" by fastforce
  show ?thesis
  proof (cases "wt = PB_WT_STRING")
    case True
    show ?thesis
    proof (cases q)
      case None
      with mk True show ?thesis by (auto simp: decode_callback_field_def Let_def)
    next
      case (Some sub)
      with loop mk obtain ok t where "callback_loop n ?cb (s1\<lparr>ist := sub\<rparr>) = Some (ok, t)" by fastforce
      with mk Some True show ?thesis
        by (simp add: decode_callback_field_def on_substream_def Let_def)
    qed
  next
    case False
    show ?thesis
    proof (cases q')
      case None
      with rr False show ?thesis by (auto simp: decode_callback_field_def Let_def)
    next
      case (Some bs)
      obtain ok t where "?cb (s1'\<lparr>ist := local_istream bs\<rparr>) = Some (ok, t)" using one by blast
      with rr Some False show ?thesis
        by (simp add: decode_callback_field_def on_substream_def Let_def)
    qed
  qed
qed

lemma field_returns:
  assumes "rec_returns n env C rec" "decodable (descriptors_ok n env) env (it_field it)"
    "decoders_return env C" "decoders_safe env UNIV" "unat (is_bytes_left (ist s)) \<le> n"
    "set (field_callbacks (callback_fields n env) env (it_field it)) \<subseteq> C"
  shows "\<exists>r. decode_field n rec env wt it s = Some r"
  using static_returns [OF assms(1,2) _ assms(6,5)] callback_field_returns [OF assms(3) _ assms(4,5)] assms(6)
  by (auto simp: decode_field_def decode_pointer_field_def field_callbacks_def Let_def)

section \<open>Messages return\<close>

lemma iter_find_returns:
  assumes "iter_ok it"
  shows "\<exists>b it'. iter_find_loop (Suc (length (it_start it))) (it_pos it) P it = Some (b, it')"
proof (cases "P (it_field it)")
  case True
  then show ?thesis by auto
next
  case False
  from iter_search_spec [of it P, OF assms False] show ?thesis by blast
qed

lemma decode_one_returns:
  assumes rec: "rec_returns n env C rec" and F: "descriptors_ok (Suc n) env flds"
    and C: "set (callback_fields (Suc n) env flds) \<subseteq> C" and cb: "decoders_return env C" and safe: "decoders_safe env UNIV"
    and it: "iter_on flds dest (dl_iter dl)" and tag: "tag < - 1" and n: "unat (is_bytes_left (ist s)) \<le> n"
  shows "\<exists>r. decode_one n rec env tag wt dl s = Some r"
proof -
  have ok: "iter_ok (dl_iter dl)" using it by (simp add: iter_on_def)
  obtain b it1 where fnd: "pb_field_iter_find (dl_iter dl) tag = Some (b, it1)"
    unfolding pb_field_iter_find_def using iter_find_returns [OF ok] by blast
  have it1: "iter_on flds dest it1"
    using iter_on_find [OF fnd [unfolded pb_field_iter_find_def] it] by blast
  have dec: "decodable (descriptors_ok n env) env (it_field it')" if "iter_on flds dest it'" for it'
    using descriptors_ok_field [OF F, of "it_pos it'"] that by (auto simp: iter_on_def iter_ok_def)
  have "set (field_callbacks (callback_fields n env) env (it_field it1)) \<subseteq> C"
    using callback_fields_field [OF C, of "it_pos it1"] it1 by (auto simp: iter_on_def iter_ok_def)
  note field = field_returns [OF rec dec [OF it1] cb safe n this]
  show ?thesis
  proof (cases b)
    case True
    obtain ok t where "decode_field n rec env wt it1 s = Some (ok, t)"
      using field [of wt] by auto
    with fnd True show ?thesis by (simp add: decode_one_def)
  next
    case False
    obtain b2 it2 where f2: "find_extension_field it1 = Some (b2, it2)"
      unfolding find_extension_field_def using iter_find_returns [of it1] it1
      unfolding iter_on_def by blast
    have "iter_on flds dest it2 \<and> (b2 \<longrightarrow> ltype (it_field it2) = PB_LTYPE_EXTENSION)"
      using iter_on_find [OF f2 [unfolded find_extension_field_def] it1] by blast
    then have "\<not> b2" using dec by (auto simp: decodable_def)
    with fnd False f2 tag show ?thesis
      by (auto simp: decode_one_def decode_unknown_def Let_def split: prod.splits)
  qed
qed

lemma decode_loop_returns:
  assumes rec: "rec_returns n env C rec" and safe_rec: "\<And>F q. consumer UNIV (rec F q)"
    and F: "descriptors_ok (Suc n) env flds" and C: "set (callback_fields (Suc n) env flds) \<subseteq> C"
    and cb: "decoders_return env C" and safe: "decoders_safe env UNIV"
  shows "iter_on flds dest (dl_iter dl) \<Longrightarrow> length (dl_seen dl) = 2 \<Longrightarrow>
    unat (is_bytes_left (ist s)) < k \<Longrightarrow> unat (is_bytes_left (ist s)) \<le> Suc n \<Longrightarrow>
    \<exists>ok dl' t. decode_loop k n rec env dl s = Some (ok, dl', t)
      \<and> iter_on flds dest (dl_iter dl') \<and> length (dl_seen dl') = 2"
proof (induction k arbitrary: dl s)
  case (Suc k)
  obtain ok wt tag eof s1 where tg: "pb_decode_tag env s = ((ok, wt, tag, eof), s1)" by (metis prod.collapse)
  show ?case
  proof (cases "is_bytes_left (ist s) \<noteq> 0 \<and> ok")
    case False
    with Suc.prems tg show ?thesis by auto
  next
    case True
    with tg have less: "unat (is_bytes_left (ist s1)) < unat (is_bytes_left (ist s))"
      using tag_decreases by auto
    then have "unat (is_bytes_left (ist s1)) \<le> n" using Suc.prems(4) by simp
    from decode_one_returns [OF rec F C cb safe Suc.prems(1) decode_tag_small [OF tg] this, of wt]
    obtain ok2 dl2 s2 where one: "decode_one n rec env tag wt dl s1 = Some (ok2, dl2, s2)" by (metis prod.collapse)
    have "loop_result UNIV flds dest s1 (ok2, dl2, s2)"
      by (rule decode_one_result [where rec = rec, OF footprint_UNIV safe safe_rec Suc.prems(1) decode_tag_small [OF tg] one])
    then have it2: "iter_on flds dest (dl_iter dl2)" and in2: "inside s1 s2" by (auto simp: loop_result_def)
    have seen: "length (dl_seen dl2) = 2"
      using one Suc.prems(2)
      by (auto simp: decode_one_def decode_unknown_def mark_seen_def Let_def
          split: option.splits prod.splits if_splits)
    show ?thesis
    proof (cases ok2)
      case True: True
      have "\<exists>ok dl' t. decode_loop k n rec env dl2 s2 = Some (ok, dl', t)
          \<and> iter_on flds dest (dl_iter dl') \<and> length (dl_seen dl') = 2"
        by (rule Suc.IH [OF it2 seen]) (use less inside_left [OF in2] Suc.prems in auto)
      with one tg \<open>is_bytes_left (ist s) \<noteq> 0 \<and> ok\<close> True show ?thesis by auto
    next
      case False
      with one tg True it2 seen show ?thesis by auto
    qed
  qed
qed simp

text \<open>Fuel above the number of bytes left, and above the nesting of the descriptors, is enough.\<close>

lemma noinit_returns:
  assumes cb: "decoders_return env C" and safe: "decoders_safe env UNIV"
  shows "descriptors_ok n env flds \<Longrightarrow> set (callback_fields n env flds) \<subseteq> C \<Longrightarrow> unat (is_bytes_left (ist s)) < n \<Longrightarrow>
    \<exists>r. pb_decode_noinit n env flds dest s = Some r"
proof (induction n arbitrary: flds dest s)
  case (Suc n)
  let ?dl = "\<lparr>dl_iter = snd (pb_field_iter_begin flds dest), dl_seen = [0, 0], dl_ext_start = 0\<rparr>"
  have rec: "rec_returns n env C (pb_decode_noinit n env)"
    using Suc.IH by (auto simp: rec_returns_def)
  have "iter_on flds dest (dl_iter ?dl)" using iter_on_begin [of flds dest] by simp
  then obtain ok dl t where loop: "decode_loop (Suc n) n (pb_decode_noinit n env) env ?dl s = Some (ok, dl, t)"
    and it: "iter_on flds dest (dl_iter dl)" and len: "length (dl_seen dl) = 2"
    using decode_loop_returns [OF rec consumer_noinit [OF footprint_UNIV safe] Suc.prems(1,2) cb safe,
        of dest ?dl s "Suc n"] Suc.prems(3) by auto
  have "req_field_count (dl_iter dl) = of_nat (req_total flds)"
    using req_field_count_eq it by (auto simp: iter_on_def)
  moreover have "check_seen (dl_seen dl) (of_nat (req_total flds)) \<noteq> None"
    using Suc.prems(1) len by (intro check_seen_total) auto
  ultimately obtain b where "check_seen (dl_seen dl) (req_field_count (dl_iter dl)) = Some b" by force
  with loop show ?case by (auto simp del: decode_loop.simps)
qed simp

lemma decode_returns:
  assumes cb: "decoders_return env (set (callback_fields n env flds))" and safe: "decoders_safe env UNIV"
    and F: "descriptors_ok n env flds" and n: "unat (is_bytes_left (ist s)) < n"
  shows "\<exists>r. pb_decode n env flds dest s = Some r"
  unfolding pb_decode_def
proof (rule init_returns [OF F])
  fix s' :: "'a istate" assume "ist s' = ist s"
  with noinit_returns [OF cb safe F order_refl, of s'] n show "\<exists>r. pb_decode_noinit n env flds dest s' = Some r" by simp
qed

text \<open>Otherwise it does not come back: a callback that succeeds without reading is called for ever.\<close>

lemma callback_loop_stuck:
  assumes "\<And>s. is_bytes_left (ist s) \<noteq> 0 \<Longrightarrow> \<exists>t. cb s = Some (True, t) \<and> is_bytes_left (ist t) = is_bytes_left (ist s)"
  shows "is_bytes_left (ist s) \<noteq> 0 \<Longrightarrow> callback_loop k cb s = None"
proof (induction k arbitrary: s)
  case (Suc k)
  with assms [OF Suc.prems] show ?case by auto
qed simp

end
