(* ===== verification/Pb_Decode_Run.thy ===== *)
theory Pb_Decode_Run
  imports Pb_Decode_Total
begin

text \<open>
  The main loop of \<^verbatim>\<open>pb_decode_noinit\<close> as a state machine: a step decodes one field of the
  input, a run is a sequence of steps with the tags they met. The bits of \<^verbatim>\<open>fields_seen\<close> are
  the required fields of the run, so the check at the end tells whether all of them were
  present.
\<close>

section \<open>Steps and runs\<close>

inductive field_step ::
  "nat \<Rightarrow> 'w msg_decoder \<Rightarrow> 'w ienv \<Rightarrow> decode_locals \<times> 'w istate \<Rightarrow> u32 \<Rightarrow> decode_locals \<times> 'w istate \<Rightarrow> bool"
  for n rec env where
  step: "is_bytes_left (ist s) \<noteq> 0 \<Longrightarrow> pb_decode_tag env s = ((True, wt, tag, eof), s1) \<Longrightarrow>
    decode_one n rec env tag wt dl s1 = Some (True, dl', s') \<Longrightarrow>
    field_step n rec env (dl, s) tag (dl', s')"

inductive field_run ::
  "nat \<Rightarrow> 'w msg_decoder \<Rightarrow> 'w ienv \<Rightarrow> decode_locals \<times> 'w istate \<Rightarrow> u32 list \<Rightarrow> decode_locals \<times> 'w istate \<Rightarrow> bool"
  for n rec env where
  run_done: "field_run n rec env c [] c"
| run_step: "field_step n rec env c tag c' \<Longrightarrow> field_run n rec env c' tags c'' \<Longrightarrow>
    field_run n rec env c (tag # tags) c''"

inductive_cases field_stepE: "field_step n rec env (dl, s) tag (dl', s')"
inductive_simps field_run_Nil [simp]: "field_run n rec env c [] c'"
inductive_simps field_run_Cons: "field_run n rec env c (tag # tags) c'"

text \<open>Where the loop stops without an error: at the end of the input, or at a tag read as the end.\<close>

definition run_stop :: "'w ienv \<Rightarrow> 'w istate \<Rightarrow> 'w istate \<Rightarrow> bool" where
  "run_stop env s t \<longleftrightarrow>
     (if is_bytes_left (ist s) = 0 then t = s
      else \<exists>wt tag. pb_decode_tag env s = ((False, wt, tag, True), t))"

lemma loop_is_run:
  "decode_loop k n rec env dl s = Some (True, dl', t) \<Longrightarrow>
   \<exists>tags s'. field_run n rec env (dl, s) tags (dl', s') \<and> run_stop env s' t \<and> length tags < k"
proof (induction k arbitrary: dl s)
  case (Suc k)
  show ?case
  proof (cases "is_bytes_left (ist s) = 0")
    case True
    with Suc.prems have "dl' = dl" "t = s" by auto
    with True show ?thesis by (intro exI [of _ "[]"] exI [of _ s]) (simp add: run_stop_def)
  next
    case False
    obtain ok wt tag eof s1 where tg: "pb_decode_tag env s = ((ok, wt, tag, eof), s1)" by (metis prod.collapse)
    show ?thesis
    proof (cases ok)
      case True
      with Suc.prems tg False obtain dl1 s2 where
        one: "decode_one n rec env tag wt dl s1 = Some (True, dl1, s2)"
        and rest: "decode_loop k n rec env dl1 s2 = Some (True, dl', t)"
        by (auto split: option.splits if_splits)
      from Suc.IH [OF rest] obtain tags s' where
        r: "field_run n rec env (dl1, s2) tags (dl', s')" "run_stop env s' t" "length tags < k" by blast
      have "field_step n rec env (dl, s) tag (dl1, s2)" using False tg True one by (auto intro: step)
      with r show ?thesis by (intro exI [of _ "tag # tags"] exI [of _ s']) (auto intro: run_step)
    next
      case no: False
      with Suc.prems tg False have "eof" "dl' = dl" "t = s1" by auto
      with tg no False show ?thesis
        by (intro exI [of _ "[]"] exI [of _ s]) (auto simp: run_stop_def)
    qed
  qed
qed simp

lemma run_is_loop:
  "field_run n rec env c tags c' \<Longrightarrow> run_stop env (snd c') t \<Longrightarrow> length tags < k \<Longrightarrow>
   decode_loop k n rec env (fst c) (snd c) = Some (True, fst c', t)"
proof (induction arbitrary: k rule: field_run.induct)
  case (run_done c)
  then obtain j where "k = Suc j" by (cases k) auto
  with run_done show ?case by (auto simp: run_stop_def split: if_splits)
next
  case (run_step c tag c' tags c'')
  then obtain j where k: "k = Suc j" "length tags < j" by (cases k) auto
  from run_step.IH [OF run_step.prems(1) k(2)] run_step.hyps(1) k show ?case
    by (auto elim: field_step.cases)
qed

section \<open>The bits of the required fields\<close>

definition seen_bit :: "u32 list \<Rightarrow> nat \<Rightarrow> bool" where
  "seen_bit seen j \<longleftrightarrow> bit (seen ! (j div 32)) (j mod 32)"

lemma mark_seen_bit:
  assumes "length seen = 2" "j < 64" "i < 64" "it_required_field_index it = of_nat i"
  shows "seen_bit (mark_seen it seen) j \<longleftrightarrow> seen_bit seen j \<or> (required (it_field it) \<and> j = i)"
proof -
  have u: "unat (it_required_field_index it) = i"
    using assms(3,4) by (simp add: unsigned_of_nat take_bit_nat_eq_self)
  have "j = i \<longleftrightarrow> j div 32 = i div 32 \<and> j mod 32 = i mod 32" by (metis div_mod_decomp)
  moreover have "i div 32 < 2" "j div 32 < 2" using assms by simp_all
  ultimately show ?thesis
    using assms u
    by (auto simp: seen_bit_def mark_seen_def PB_MAX_REQUIRED_FIELDS_def Let_def nth_list_update bit_simps)
qed

lemma low_bits_eq:
  fixes w :: u32
  assumes "r \<le> 32" "\<And>j. r \<le> j \<Longrightarrow> j < 32 \<Longrightarrow> \<not> bit w j"
  shows "w = drop_bit (32 - r) (- 1) \<longleftrightarrow> (\<forall>j<r. bit w j)"
proof -
  have b: "bit (drop_bit (32 - r) (- 1) :: u32) j \<longleftrightarrow> j < r" for j
    using assms(1) by (auto simp: bit_simps)
  show ?thesis
  proof
    assume "w = drop_bit (32 - r) (- 1)"
    then show "\<forall>j<r. bit w j" using b by metis
  next
    assume all: "\<forall>j<r. bit w j"
    show "w = drop_bit (32 - r) (- 1)"
    proof (rule bit_word_eqI)
      fix j assume "j < LENGTH(32)"
      then have "j < 32" by simp
      with all assms(2) [of j] show "bit w j = bit (drop_bit (32 - r) (- 1) :: u32) j"
        unfolding b by (cases "j < r") auto
    qed
  qed
qed

lemma check_seen_bits:
  assumes len: "length seen = 2" and n: "n < 64" "n \<noteq> 32"
    and only: "\<And>j. n \<le> j \<Longrightarrow> j < 64 \<Longrightarrow> \<not> seen_bit seen j"
  shows "check_seen seen (of_nat n) = Some (\<forall>j<n. seen_bit seen j)"
proof -
  have u: "unat (of_nat n :: u32) = n" using n by (simp add: unsigned_of_nat take_bit_nat_eq_self)
  consider "n = 0" | "0 < n" "n < 32" | "32 < n" using n by linarith
  then show ?thesis
  proof cases
    case 1
    then show ?thesis by (simp add: check_seen_def Let_def)
  next
    case 2
    have "(of_nat n :: u32) \<noteq> 0" using 2 u by (metis unat_0 less_irrefl)
    moreover have "seen ! 0 = drop_bit (32 - n) (- 1) \<longleftrightarrow> (\<forall>j<n. bit (seen ! 0) j)"
    proof (rule low_bits_eq)
      fix j assume "n \<le> j" "j < 32"
      then show "\<not> bit (seen ! 0) j" using only [of j] by (simp add: seen_bit_def)
    qed (use 2 in simp)
    ultimately show ?thesis using 2 u len by (simp add: check_seen_def Let_def seen_bit_def)
  next
    case 3
    have nz: "(of_nat n :: u32) \<noteq> 0" using 3 u by (metis unat_0 less_nat_zero_code)
    have d: "n div 32 = 1" "n mod 32 = n - 32" using 3 n by (simp_all add: div_if mod_if)
    have w0: "seen ! 0 = - 1 \<longleftrightarrow> (\<forall>j<32. bit (seen ! 0) j)"
      using low_bits_eq [of 32 "seen ! 0"] by simp
    have w1: "seen ! 1 = drop_bit (32 - (n - 32)) (- 1) \<longleftrightarrow> (\<forall>j<n - 32. bit (seen ! 1) j)"
    proof (rule low_bits_eq)
      show "n - 32 \<le> 32" using n by simp
      fix j assume "n - 32 \<le> j" "j < 32"
      moreover from this have "(j + 32) div 32 = 1" by simp
      ultimately show "\<not> bit (seen ! 1) j" using only [of "j + 32"] by (simp add: seen_bit_def)
    qed
    have "(\<forall>j<n. seen_bit seen j) \<longleftrightarrow> (\<forall>j<32. bit (seen ! 0) j) \<and> (\<forall>j<n - 32. bit (seen ! 1) j)"
    proof -
      have "seen_bit seen j" if "\<forall>j<32. bit (seen ! 0) j" "\<forall>j<n - 32. bit (seen ! 1) j" "j < n" for j
      proof (cases "j < 32")
        case True
        with that show ?thesis by (simp add: seen_bit_def)
      next
        case False
        then have "j div 32 = 1" "j mod 32 = j - 32" using that(3) n by (simp_all add: div_if mod_if)
        with False that show ?thesis by (simp add: seen_bit_def)
      qed
      moreover have "bit (seen ! 0) j" if "\<forall>j<n. seen_bit seen j" "j < 32" for j
        using that 3 by (auto simp: seen_bit_def dest!: spec [of _ j])
      moreover have "bit (seen ! 1) j" if "\<forall>j<n. seen_bit seen j" "j < n - 32" for j
      proof -
        have "j + 32 < n" "j < 32" using that(2) n by auto
        then have "seen_bit seen (j + 32)" using that(1) by blast
        moreover have "(j + 32) div 32 = 1" using \<open>j < 32\<close> by simp
        ultimately show ?thesis using \<open>j < 32\<close> by (simp add: seen_bit_def)
      qed
      ultimately show ?thesis by blast
    qed
    with nz d u len w0 w1 n 3 show ?thesis by (simp add: check_seen_def Let_def)
  qed
qed

text \<open>
  \<open>seen_for flds seen tags\<close>: the bits that are set belong to required fields whose tag was met.
\<close>

definition seen_for :: "pb_field list \<Rightarrow> u32 list \<Rightarrow> u32 set \<Rightarrow> bool" where
  "seen_for flds seen T \<longleftrightarrow> length seen = 2 \<and>
     (\<forall>j<64. seen_bit seen j \<longleftrightarrow>
        (\<exists>i<nfields flds. required (field_at flds i) \<and> req_index flds i = j \<and> f_tag (field_at flds i) \<in> T))"

lemma req_index_le: "req_index flds i \<le> req_total flds"
  by (metis append_take_drop_id filter_append le_add1 length_append req_index_def req_total_def)

lemma req_index_less:
  assumes "i < k" "k \<le> nfields flds" "required (field_at flds i)"
  shows "req_index flds i < req_index flds k"
proof -
  have "Suc i \<le> k" using assms(1) by simp
  have "req_index flds (Suc i) \<le> req_index flds k"
    unfolding req_index_def
    by (metis append_take_drop_id filter_append le_add1 length_append min.absorb1 \<open>Suc i \<le> k\<close> take_take)
  then show ?thesis using req_index_Suc [of i flds] assms by simp
qed

lemma req_index_inj:
  assumes "i < nfields flds" "k < nfields flds" "required (field_at flds i)" "required (field_at flds k)"
    "req_index flds i = req_index flds k"
  shows "i = k"
  using req_index_less [of i k flds] req_index_less [of k i flds] assms by (metis less_imp_le nat_neq_iff)

lemma req_index_total: "i < nfields flds \<Longrightarrow> required (field_at flds i) \<Longrightarrow> req_index flds i < req_total flds"
  using req_index_less [of i "nfields flds" flds] by (simp add: req_index_def req_total_def)

lemma req_index_onto:
  "k \<le> nfields flds \<Longrightarrow> j < req_index flds k \<Longrightarrow> \<exists>i<k. required (field_at flds i) \<and> req_index flds i = j"
proof (induction k)
  case 0
  then show ?case by (simp add: req_index_def)
next
  case (Suc k)
  then have "req_index flds (Suc k) = req_index flds k + (if required (field_at flds k) then 1 else 0)"
    by (intro req_index_Suc) simp
  with Suc show ?case by (cases "j < req_index flds k") (auto intro: less_SucI split: if_splits)
qed

lemma req_total_index: "req_total flds = req_index flds (nfields flds)"
  by (simp add: req_index_def req_total_def)

text \<open>The tags of a message type are pairwise different, and none of them is an extension placeholder.\<close>

definition tags_ok :: "pb_field list \<Rightarrow> bool" where
  "tags_ok flds \<longleftrightarrow> distinct (map f_tag (live_fields flds))
     \<and> list_all (\<lambda>f. ltype f \<noteq> PB_LTYPE_EXTENSION) (live_fields flds)"

lemma tags_ok_unique:
  assumes "tags_ok flds" "i < nfields flds" "k < nfields flds"
    "f_tag (field_at flds i) = f_tag (field_at flds k)"
  shows "i = k"
  using assms by (auto simp: tags_ok_def field_at_live distinct_conv_nth)

lemma mark_seen_for:
  assumes ok: "tags_ok flds" and tot: "req_total flds < 64" and p: "p < nfields flds"
    and it: "it = iter_at flds dest p" and tag: "f_tag (field_at flds p) = tag"
    and seen: "seen_for flds seen T"
  shows "seen_for flds (mark_seen it seen) (insert tag T)"
proof -
  let ?set = "\<lambda>T j. \<exists>i<nfields flds. required (field_at flds i) \<and> req_index flds i = j \<and> f_tag (field_at flds i) \<in> T"
  have len: "length seen = 2" using seen by (simp add: seen_for_def)
  have i64: "req_index flds p < 64" using req_index_le [of flds p] tot by simp
  have idx: "it_required_field_index it = of_nat (req_index flds p)" using iter_at_required [of p flds dest] p it by simp
  have fld: "it_field it = field_at flds p" using p it by simp
  have "seen_bit (mark_seen it seen) j \<longleftrightarrow> ?set (insert tag T) j" if "j < 64" for j
  proof -
    have "seen_bit (mark_seen it seen) j \<longleftrightarrow> ?set T j \<or> (required (field_at flds p) \<and> j = req_index flds p)"
      using mark_seen_bit [OF len that i64 idx] seen that fld by (simp add: seen_for_def)
    also have "\<dots> \<longleftrightarrow> ?set (insert tag T) j"
    proof
      assume "?set (insert tag T) j"
      then obtain i where i: "i < nfields flds" "required (field_at flds i)" "req_index flds i = j"
        "f_tag (field_at flds i) = tag \<or> f_tag (field_at flds i) \<in> T" by blast
      then show "?set T j \<or> (required (field_at flds p) \<and> j = req_index flds p)"
        using tags_ok_unique [OF ok i(1) p] tag by metis
    next
      assume "?set T j \<or> (required (field_at flds p) \<and> j = req_index flds p)"
      then show "?set (insert tag T) j" using p tag by (metis insertCI)
    qed
    finally show ?thesis .
  qed
  moreover have "length (mark_seen it seen) = 2" using len by (simp add: mark_seen_def Let_def)
  ultimately show ?thesis by (simp add: seen_for_def)
qed

lemma decode_one_seen:
  assumes one: "decode_one n rec env tag wt dl s = Some (ok, dl', s')"
    and it: "iter_on flds dest (dl_iter dl)" and ne: "0 < nfields flds"
    and ok: "tags_ok flds" and tot: "req_total flds < 64" and seen: "seen_for flds (dl_seen dl) T"
  shows "seen_for flds (dl_seen dl') (insert tag T)"
proof -
  have iok: "iter_ok (dl_iter dl)" and F: "it_start (dl_iter dl) = flds" using it by (auto simp: iter_on_def)
  have "nfields (it_start (dl_iter dl)) = 0 \<Longrightarrow> \<not> field_matches tag (it_field (dl_iter dl))" using ne F by simp
  from iter_search_spec [of "dl_iter dl" "field_matches tag", OF iok this] obtain it1 where
    fnd: "pb_field_iter_find (dl_iter dl) tag = Some (\<exists>f\<in>set (live_fields flds). field_matches tag f, it1)"
    and ok1: "iter_ok it1" "it_start it1 = flds"
    and pos: "\<exists>f\<in>set (live_fields flds). field_matches tag f \<Longrightarrow>
      it_pos it1 < nfields flds \<and> field_matches tag (it_field it1)"
    unfolding pb_field_iter_find_def F by auto
  show ?thesis
  proof (cases "\<exists>f\<in>set (live_fields flds). field_matches tag f")
    case True
    with one fnd have "dl_seen dl' = mark_seen it1 (dl_seen dl)"
      by (auto simp: decode_one_def split: option.splits)
    moreover have at: "it1 = iter_at flds (it_dest_struct it1) (it_pos it1)" using ok1 by (auto simp: iter_ok_def)
    moreover have "f_tag (field_at flds (it_pos it1)) = tag" using pos [OF True] ok1(2) by (simp add: field_matches_def)
    ultimately show ?thesis
      using mark_seen_for [OF ok tot _ at _ seen] pos [OF True] by simp
  next
    case False
    with one fnd have d: "dl_seen dl' = dl_seen dl"
      by (auto simp: decode_one_def decode_unknown_def Let_def split: option.splits prod.splits if_splits)
    have "f_tag (field_at flds i) \<noteq> tag" if "i < nfields flds" for i
      using False ok that by (auto simp: field_matches_def tags_ok_def list_all_iff field_at_live)
    with seen show ?thesis by (auto simp: seen_for_def d)
  qed
qed

lemma decode_one_iter:
  assumes one: "decode_one n rec env tag wt dl s = Some (ok, dl', s')" and it: "iter_on flds dest (dl_iter dl)"
  shows "iter_on flds dest (dl_iter dl')"
proof -
  obtain b it1 where fnd: "pb_field_iter_find (dl_iter dl) tag = Some (b, it1)"
    using one by (auto simp: decode_one_def split: option.splits)
  have it1: "iter_on flds dest it1" using iter_on_find [OF fnd [unfolded pb_field_iter_find_def] it] by blast
  have it2: "iter_on flds dest it2" if "find_extension_field it1 = Some (b2, it2)" for b2 it2
    using iter_on_find [OF that [unfolded find_extension_field_def] it1] by blast
  show ?thesis
    using one fnd it1 it2
    by (auto simp: decode_one_def decode_unknown_def Let_def split: option.splits prod.splits if_splits)
qed

lemma run_seen:
  assumes "field_run n rec env c tags c'" "iter_on flds dest (dl_iter (fst c))"
    "0 < nfields flds" "tags_ok flds" "req_total flds < 64" "seen_for flds (dl_seen (fst c)) T"
  shows "iter_on flds dest (dl_iter (fst c')) \<and> seen_for flds (dl_seen (fst c')) (T \<union> set tags)"
  using assms
proof (induction arbitrary: T rule: field_run.induct)
  case (run_done c)
  then show ?case by simp
next
  case (run_step c tag c' tags c'')
  from run_step.hyps(1) obtain dl s wt s1 dl' s' where
    c: "c = (dl, s)" "c' = (dl', s')" and one: "decode_one n rec env tag wt dl s1 = Some (True, dl', s')"
    by (cases rule: field_step.cases) auto
  have "iter_on flds dest (dl_iter (fst c'))" "seen_for flds (dl_seen (fst c')) (insert tag T)"
    using decode_one_iter [OF one] decode_one_seen [OF one] run_step.prems c by auto
  from run_step.IH [OF this(1) run_step.prems(2-4) this(2)] show ?case by simp
qed

lemma seen_for_start: "seen_for flds [0, 0] {}"
proof -
  have "\<not> seen_bit [0, 0] j" if "j < 64" for j
  proof -
    have "j div 32 = 0 \<or> j div 32 = 1" using that by linarith
    then show ?thesis by (auto simp: seen_bit_def)
  qed
  then show ?thesis by (simp add: seen_for_def)
qed

lemma seen_bit_for:
  "seen_for flds seen T \<Longrightarrow> j < 64 \<Longrightarrow> seen_bit seen j \<longleftrightarrow>
   (\<exists>i<nfields flds. required (field_at flds i) \<and> req_index flds i = j \<and> f_tag (field_at flds i) \<in> T)"
  by (simp add: seen_for_def)

lemma seen_all_iff:
  assumes seen: "seen_for flds seen T" and tot: "req_total flds < 64"
  shows "(\<forall>j<req_total flds. seen_bit seen j) \<longleftrightarrow> (\<forall>f\<in>set (live_fields flds). required f \<longrightarrow> f_tag f \<in> T)"
proof
  assume all: "\<forall>j<req_total flds. seen_bit seen j"
  show "\<forall>f\<in>set (live_fields flds). required f \<longrightarrow> f_tag f \<in> T"
  proof (intro ballI impI)
    fix f assume "f \<in> set (live_fields flds)" and r: "required f"
    then obtain i where i: "i < nfields flds" "field_at flds i = f" by (metis field_at_live in_set_conv_nth)
    with r have "req_index flds i < req_total flds" using req_index_total by blast
    with all tot seen_bit_for [OF seen] obtain k where k: "k < nfields flds" "required (field_at flds k)"
      "req_index flds k = req_index flds i" "f_tag (field_at flds k) \<in> T" by (metis less_trans)
    with req_index_inj [OF k(1) i(1)] i r show "f_tag f \<in> T" by metis
  qed
next
  assume all: "\<forall>f\<in>set (live_fields flds). required f \<longrightarrow> f_tag f \<in> T"
  show "\<forall>j<req_total flds. seen_bit seen j"
  proof (intro allI impI)
    fix j assume j: "j < req_total flds"
    then obtain i where i: "i < nfields flds" "required (field_at flds i)" "req_index flds i = j"
      using req_index_onto [of "nfields flds" flds j] by (auto simp: req_total_index)
    then have "field_at flds i \<in> set (live_fields flds)" by (simp add: field_at_live)
    with all i seen_bit_for [OF seen, of j] j tot show "seen_bit seen j" by auto
  qed
qed

lemma check_seen_for:
  assumes seen: "seen_for flds seen T" and tot: "req_total flds < 64" "req_total flds \<noteq> 32"
  shows "check_seen seen (of_nat (req_total flds)) = Some (\<forall>f\<in>set (live_fields flds). required f \<longrightarrow> f_tag f \<in> T)"
proof -
  have "check_seen seen (of_nat (req_total flds)) = Some (\<forall>j<req_total flds. seen_bit seen j)"
  proof (rule check_seen_bits [OF _ tot])
    show "length seen = 2" using seen by (simp add: seen_for_def)
    fix j assume "req_total flds \<le> j" "j < 64"
    then show "\<not> seen_bit seen j" using seen_bit_for [OF seen] req_index_total by fastforce
  qed
  then show ?thesis using seen_all_iff [OF seen tot(1)] by simp
qed

text \<open>With 32 required fields that were all seen the check shifts by the full width.\<close>

lemma check_seen_32:
  assumes seen: "seen_for flds seen T" and tot: "req_total flds = 32"
    and all: "\<forall>f\<in>set (live_fields flds). required f \<longrightarrow> f_tag f \<in> T"
  shows "check_seen seen (of_nat (req_total flds)) = None"
proof -
  have "\<forall>j<32. seen_bit seen j" using seen_all_iff [OF seen] all tot by simp
  then have "\<forall>j<32. bit (seen ! 0) j" by (auto simp: seen_bit_def)
  then have "seen ! 0 = - 1" using low_bits_eq [of 32 "seen ! 0"] by simp
  then show ?thesis by (simp add: check_seen_def tot Let_def)
qed

definition start_locals :: "pb_field list \<Rightarrow> addr \<Rightarrow> decode_locals" where
  "start_locals flds dest =
     \<lparr>dl_iter = snd (pb_field_iter_begin flds dest), dl_seen = [0, 0], dl_ext_start = 0\<rparr>"

lemma run_iter:
  "field_run n rec env c tags c' \<Longrightarrow> iter_on flds dest (dl_iter (fst c)) \<Longrightarrow> iter_on flds dest (dl_iter (fst c'))"
proof (induction rule: field_run.induct)
  case (run_step c tag c' tags c'')
  from run_step.hyps(1) obtain dl s wt s1 dl' s' where
    c: "c = (dl, s)" "c' = (dl', s')" and one: "decode_one n rec env tag wt dl s1 = Some (True, dl', s')"
    by (cases rule: field_step.cases) auto
  from run_step.IH decode_one_iter [OF one] run_step.prems c show ?case by simp
qed

lemma run_facts:
  assumes run: "field_run n rec env (start_locals flds dest, s) tags (dl, s')"
    and ok: "tags_ok flds" and tot: "req_total flds < 64"
  shows "req_field_count (dl_iter dl) = of_nat (req_total flds)"
    "0 < nfields flds \<Longrightarrow> seen_for flds (dl_seen dl) (set tags)"
proof -
  let ?c = "(start_locals flds dest, s)"
  have it0: "iter_on flds dest (dl_iter (fst ?c))"
    using iter_on_begin [of flds dest] by (simp add: start_locals_def)
  have "iter_on flds dest (dl_iter dl)" using run_iter [OF run it0] by simp
  then show "req_field_count (dl_iter dl) = of_nat (req_total flds)"
    using req_field_count_eq by (auto simp: iter_on_def)
  have "seen_for flds (dl_seen (fst ?c)) {}" by (simp add: start_locals_def seen_for_start)
  then show "seen_for flds (dl_seen dl) (set tags)" if "0 < nfields flds"
    using run_seen [OF run it0 that ok tot, of "{}"] by simp
qed

lemma check_after_run:
  assumes run: "field_run n rec env (start_locals flds dest, s) tags (dl, s')"
    and ok: "tags_ok flds" and tot: "req_total flds < 64" "req_total flds \<noteq> 32"
  shows "check_seen (dl_seen dl) (req_field_count (dl_iter dl)) =
     Some (\<forall>f\<in>set (live_fields flds). required f \<longrightarrow> f_tag f \<in> set tags)"
proof (cases "nfields flds = 0")
  case True
  then show ?thesis
    using run_facts(1) [OF run ok tot(1)] by (simp add: check_seen_def req_total_def Let_def)
next
  case False
  then have "0 < nfields flds" by linarith
  from check_seen_for [OF run_facts(2) [OF run ok tot(1) this] tot] run_facts(1) [OF run ok tot(1)]
  show ?thesis by simp
qed

lemma noinit_iff_run:
  assumes ok: "tags_ok flds" and tot: "req_total flds < 64" "req_total flds \<noteq> 32"
  shows "pb_decode_noinit (Suc n) env flds dest s = Some (True, t) \<longleftrightarrow>
    (\<exists>tags dl s'. field_run n (pb_decode_noinit n env) env (start_locals flds dest, s) tags (dl, s')
       \<and> run_stop env s' t \<and> length tags \<le> n
       \<and> (\<forall>f\<in>set (live_fields flds). required f \<longrightarrow> f_tag f \<in> set tags))"
proof
  assume "pb_decode_noinit (Suc n) env flds dest s = Some (True, t)"
  then obtain dl where
    loop: "decode_loop (Suc n) n (pb_decode_noinit n env) env (start_locals flds dest) s = Some (True, dl, t)"
    and chk: "check_seen (dl_seen dl) (req_field_count (dl_iter dl)) = Some True"
    by (auto simp: start_locals_def is_return_error_def simp del: decode_loop.simps
        split: option.splits if_splits)
  from loop_is_run [OF loop] obtain tags s' where
    run: "field_run n (pb_decode_noinit n env) env (start_locals flds dest, s) tags (dl, s')"
    and st: "run_stop env s' t" and len: "length tags \<le> n" by (metis less_Suc_eq_le)
  from check_after_run [OF run ok tot] chk
  have "\<forall>f\<in>set (live_fields flds). required f \<longrightarrow> f_tag f \<in> set tags" by simp
  with run st len show "\<exists>tags dl s'. field_run n (pb_decode_noinit n env) env (start_locals flds dest, s) tags (dl, s')
       \<and> run_stop env s' t \<and> length tags \<le> n
       \<and> (\<forall>f\<in>set (live_fields flds). required f \<longrightarrow> f_tag f \<in> set tags)" by blast
next
  assume "\<exists>tags dl s'. field_run n (pb_decode_noinit n env) env (start_locals flds dest, s) tags (dl, s')
       \<and> run_stop env s' t \<and> length tags \<le> n
       \<and> (\<forall>f\<in>set (live_fields flds). required f \<longrightarrow> f_tag f \<in> set tags)"
  then obtain tags dl s' where
    run: "field_run n (pb_decode_noinit n env) env (start_locals flds dest, s) tags (dl, s')"
    and st: "run_stop env s' t" and len: "length tags < Suc n"
    and all: "\<forall>f\<in>set (live_fields flds). required f \<longrightarrow> f_tag f \<in> set tags" by auto
  from run_is_loop [OF run _ len] st
  have "decode_loop (Suc n) n (pb_decode_noinit n env) env (start_locals flds dest) s = Some (True, dl, t)" by simp
  with check_after_run [OF run ok tot] all show "pb_decode_noinit (Suc n) env flds dest s = Some (True, t)"
    by (simp add: start_locals_def del: decode_loop.simps)
qed

text \<open>With 32 required fields even a complete input has no defined result.\<close>

lemma noinit_32_undefined:
  assumes "tags_ok flds" and "req_total flds = 32"
    and "field_run n (pb_decode_noinit n env) env (start_locals flds dest, s) tags (dl, s')"
    and "run_stop env s' t" and "length tags \<le> n"
    and "\<forall>f\<in>set (live_fields flds). required f \<longrightarrow> f_tag f \<in> set tags"
  shows "pb_decode_noinit (Suc n) env flds dest s = None"
proof -
  have tot: "req_total flds < 64" using assms(2) by simp
  have "0 < nfields flds" using assms(2) by (auto simp: req_total_def)
  from check_seen_32 [OF run_facts(2) [OF assms(3,1) tot this] assms(2,6)] run_facts(1) [OF assms(3,1) tot]
  have "check_seen (dl_seen dl) (req_field_count (dl_iter dl)) = None" by simp
  moreover have "decode_loop (Suc n) n (pb_decode_noinit n env) env (start_locals flds dest) s = Some (True, dl, t)"
    using run_is_loop [OF assms(3), of t "Suc n"] assms(4,5) by simp
  ultimately show ?thesis by (simp add: start_locals_def del: decode_loop.simps)
qed

end
