(* ===== verification/Pb_Decode_Layout.thy ===== *)
theory Pb_Decode_Layout
  imports Pb_Decode_Safe
begin

text \<open>
  A check on descriptors alone: every member they describe lies inside a struct of the
  given size. It does not depend on where the struct is, and it gives the footprint that the
  safety of the decoder is stated with.
\<close>

section \<open>Positions are offsets\<close>

lemma iter_begin_shift:
  "snd (pb_field_iter_begin flds d) =
   (snd (pb_field_iter_begin flds 0))\<lparr>it_dest_struct := d,
      it_pData := d + it_pData (snd (pb_field_iter_begin flds 0)),
      it_pSize := d + it_pSize (snd (pb_field_iter_begin flds 0))\<rparr>"
  by (simp add: pb_field_iter_begin_def Let_def)

lemma iter_next_shift:
  assumes "it' = it\<lparr>it_dest_struct := d, it_pData := d + it_pData it, it_pSize := d + it_pSize it\<rparr>"
    and "it_dest_struct it = 0" and "fst (pb_field_iter_next it)"
  shows "snd (pb_field_iter_next it') = (snd (pb_field_iter_next it))
    \<lparr>it_dest_struct := d, it_pData := d + it_pData (snd (pb_field_iter_next it)),
     it_pSize := d + it_pSize (snd (pb_field_iter_next it))\<rparr>"
  using assms by (auto simp: pb_field_iter_next_def Let_def split: if_splits)

lemma iter_at_shift:
  "i = 0 \<or> i < nfields flds \<Longrightarrow>
   iter_at flds d i = (iter_at flds 0 i)\<lparr>it_dest_struct := d,
     it_pData := d + it_pData (iter_at flds 0 i), it_pSize := d + it_pSize (iter_at flds 0 i)\<rparr>"
proof (induction i)
  case 0
  then show ?case using iter_begin_shift [of flds d] by simp
next
  case (Suc i)
  then have "i = 0 \<or> i < nfields flds" "Suc i < nfields flds" by auto
  then have "fst (pb_field_iter_next (iter_at flds 0 i))"
    using iter_next_at [of i flds 0] by (simp del: iter_at.simps)
  from iter_next_shift [OF Suc.IH iter_at_sel(2) this] Suc.prems show ?case by auto
qed

section \<open>Members inside the struct\<close>

definition in_struct :: "int \<Rightarrow> addr \<Rightarrow> int \<Rightarrow> bool" where
  "in_struct sz a len \<longleftrightarrow> 0 \<le> a \<and> a + len \<le> sz"

definition value_fits :: "(int \<Rightarrow> pb_field list \<Rightarrow> bool) \<Rightarrow> 'w ienv \<Rightarrow> int \<Rightarrow> pb_field \<Rightarrow> addr \<Rightarrow> bool" where
  "value_fits sub env sz f a \<longleftrightarrow> in_struct sz a (value_extent f)
     \<and> (ltype f = PB_LTYPE_SUBMESSAGE \<longrightarrow> sub (uint (f_data_size f)) (ie_fields env (f_ptr f)))"

definition field_fits :: "(int \<Rightarrow> pb_field list \<Rightarrow> bool) \<Rightarrow> 'w ienv \<Rightarrow> int \<Rightarrow> pb_field_iter \<Rightarrow> bool" where
  "field_fits sub env sz it \<longleftrightarrow>
     (let f = it_field it in
      ltype f \<noteq> PB_LTYPE_EXTENSION
      \<and> (atype f = PB_ATYPE_STATIC \<longrightarrow>
           (if htype f = PB_HTYPE_REPEATED
            then list_all (\<lambda>j. value_fits sub env sz f (it_pData it + uint (f_data_size f * of_nat j)))
                   [0..<unat (f_array_size f)]
            else value_fits sub env sz f (it_pData it)))
      \<and> (atype f = PB_ATYPE_STATIC \<and> htype f = PB_HTYPE_OPTIONAL \<and> it_pSize it \<noteq> it_pData it
           \<longrightarrow> in_struct sz (it_pSize it) 1)
      \<and> (atype f = PB_ATYPE_STATIC \<or> atype f = PB_ATYPE_POINTER \<longrightarrow>
           htype f = PB_HTYPE_REPEATED \<or> htype f = PB_HTYPE_ONEOF \<longrightarrow> in_struct sz (it_pSize it) 4)
      \<and> (atype f = PB_ATYPE_POINTER \<longrightarrow> in_struct sz (it_pData it) 8))"

primrec fits :: "nat \<Rightarrow> 'w ienv \<Rightarrow> int \<Rightarrow> pb_field list \<Rightarrow> bool" where
  "fits 0 env sz flds \<longleftrightarrow> True"
| "fits (Suc n) env sz flds \<longleftrightarrow>
     list_all (\<lambda>i. field_fits (fits n env) env sz (iter_at flds 0 i)) [0..<max 1 (nfields flds)]"

lemma in_struct_subset: "in_struct sz a len \<Longrightarrow> {d + a..<d + a + len} \<subseteq> {d..<d + sz}"
  by (auto simp: in_struct_def)

lemma value_fits_in:
  assumes sub: "\<And>sz F p. fits n env sz F \<Longrightarrow> {p..<p + sz} \<subseteq> D \<Longrightarrow> footprint n env D F p"
    and v: "value_fits (fits n env) env sz f a" and D: "{d..<d + sz} \<subseteq> D"
  shows "value_in (footprint n env D) env D f (d + a)"
proof -
  have ext: "{d + a..<d + a + value_extent f} \<subseteq> D"
    by (rule subset_trans [OF in_struct_subset D]) (use v in \<open>simp add: value_fits_def\<close>)
  moreover have "d + a + uint (f_data_size f) \<le> d + a + value_extent f" by (simp add: value_extent_def)
  ultimately have "{d + a..<d + a + uint (f_data_size f)} \<subseteq> D" by force
  with ext v sub show ?thesis by (auto simp: value_in_def value_fits_def)
qed

lemma field_fits_in:
  assumes sub: "\<And>sz F p. fits n env sz F \<Longrightarrow> {p..<p + sz} \<subseteq> D \<Longrightarrow> footprint n env D F p"
    and f: "field_fits (fits n env) env sz it" and D: "{d..<d + sz} \<subseteq> D"
  shows "field_in (footprint n env D) env D
    (it\<lparr>it_dest_struct := d, it_pData := d + it_pData it, it_pSize := d + it_pSize it\<rparr>)"
proof -
  have val: "value_in (footprint n env D) env D (it_field it) (d + it_pData it + x)"
    if "value_fits (fits n env) env sz (it_field it) (it_pData it + x)" for x
    using value_fits_in [where D = D, OF sub that D] by (simp add: add.assoc)
  have reg: "{d + a..<d + a + len} \<subseteq> D" if "in_struct sz a len" for a len
    using in_struct_subset [OF that] D by blast
  have one: "d + a \<in> D" if "in_struct sz a 1" for a using reg [OF that] by auto
  show ?thesis
    using f val [of 0] val reg one
    unfolding field_in_def field_fits_def Let_def list_all_iff
    by (auto simp: add.assoc)
qed

lemma fits_footprint: "fits n env sz flds \<Longrightarrow> {dest..<dest + sz} \<subseteq> D \<Longrightarrow> footprint n env D flds dest"
proof (induction n arbitrary: sz flds dest)
  case (Suc n)
  have "field_in (footprint n env D) env D (iter_at flds dest i)" if "i = 0 \<or> i < nfields flds" for i
  proof -
    have "i < max 1 (nfields flds)" using that by auto
    then have "field_fits (fits n env) env sz (iter_at flds 0 i)"
      using Suc.prems(1) by (simp add: list_all_iff del: iter_at.simps)
    from field_fits_in [where D = D, OF Suc.IH this Suc.prems(2)] show ?thesis
      unfolding iter_at_shift [OF that, of dest] by simp
  qed
  then show ?case by (simp del: iter_at.simps)
qed simp

end
