(* ===== verification/Pb_Decode_Props.thy ===== *)
theory Pb_Decode_Props
  imports Pb_Decode_Run Pb_Decode_Layout Pb_Example
begin

text \<open>
  What an application can rely on when it decodes bytes it does not trust: the decoder stays
  inside its input and inside the destination struct, it comes back, and it accepts a message
  only if all required fields were in it. Two theorems state where the code does something
  else than it means to.
\<close>

section \<open>The person\<close>

lemma plain_safe: "decoders_safe plain_ienv D"
  by (simp add: decoders_safe_def plain_ienv_def consumer_def)

lemma plain_return: "decoders_return plain_ienv C"
  by (auto simp: decoders_return_def plain_ienv_def)

lemma person_fits: "fits 1 plain_ienv 36 person_fields"
  by code_simp

definition input_state :: "u8 list \<Rightarrow> mem \<Rightarrow> unit istate" where
  "input_state bs m = \<lparr>ist = pb_istream_from_buffer (mem_write (\<lambda>_. 0) 1000 bs) 1000 (of_nat (length bs)),
     dmem = m, iuser = ()\<rparr>"

section \<open>Properties\<close>

text \<open>C3. Decoding, successful or not and for every input, writes only inside the destination
  struct, if the descriptors describe members inside it and the application's own decoders
  keep to it.\<close>

theorem decode_writes_inside_struct:
  assumes "fits n env sz flds" and "decoders_safe env {dest..<dest + sz}"
    and "pb_decode n env flds dest s = Some (ok, t)" and "x < dest \<or> dest + sz \<le> x"
  shows "dmem t x = dmem s x"
proof -
  have "footprint n env {dest..<dest + sz} flds dest" using fits_footprint [OF assms(1)] by blast
  from consumer.frame [OF consumer_decode [OF this assms(2)] assms(3)] assms(4)
  show ?thesis by (auto simp: same_outside_def)
qed

text \<open>C12. The input position only moves forward and never past the end of the buffer the
  stream was made for, whatever the bytes are; after success the count of bytes left and the
  position agree.\<close>

theorem decode_stays_in_input:
  assumes "decoders_safe env UNIV" and "is_callback (ist s) = IC_BufRead"
    and "pb_decode n env flds dest s = Some (ok, t)"
  shows "is_state (ist s) \<le> is_state (ist t)
    \<and> is_state (ist t) + uint (is_bytes_left (ist t)) \<le> is_state (ist s) + uint (is_bytes_left (ist s))
    \<and> (ok \<longrightarrow> is_state (ist t) + uint (is_bytes_left (ist t)) = is_state (ist s) + uint (is_bytes_left (ist s)))"
proof -
  have c: "consumer UNIV (pb_decode n env flds dest)" by (rule consumer_decode [OF footprint_UNIV assms(1)])
  from consumer.stays [OF c assms(3)] consumer.ok_within [OF c, of s t] assms(2,3) show ?thesis
    by (auto simp: inside_def iwithin_def)
qed

text \<open>A callback that succeeds without taking input is called again and again.\<close>

lemma callback_without_progress_hangs:
  assumes "pb_make_string_substream env s = (Some sub, s1)" and "is_bytes_left sub \<noteq> 0"
    and "callback_funcs (dmem s) (it_pData it) \<noteq> 0"
    and "\<forall>t. \<exists>u. ie_decode env (callback_funcs (dmem s) (it_pData it)) (it_field it) (callback_arg (it_pData it)) t = Some (True, u)
           \<and> is_bytes_left (ist u) = is_bytes_left (ist t)"
  shows "decode_callback_field k env PB_WT_STRING it s = None"
  using assms callback_loop_stuck [of _ "s1\<lparr>ist := sub\<rparr>" k]
  by (simp add: decode_callback_field_def on_substream_def Let_def)

text \<open>C11. When decoding comes back, for a bounded stream and fuel above the number of bytes left and above the nesting of the
  descriptors. A message type without callback fields decodes with a result whatever the bytes are; one with callback fields
  does if their callbacks come back and a call that succeeds takes input when there is some. The last is not asked for in
  \<^verbatim>\<open>pb.h\<close>, but it is needed: on a length-delimited field, a callback that succeeds and takes nothing is called for ever, no
  fuel is enough. The descriptors are those of a message type without extension ranges, with at most 63 required fields but
  not exactly 32, and the application's decoders stay in their stream.\<close>

theorem decode_comes_back:
  assumes "decoders_safe env UNIV" and "descriptors_ok n env flds" and "unat (is_bytes_left (ist s)) < n"
  shows "(callback_fields n env flds = [] \<longrightarrow> (\<exists>ok t. pb_decode n env flds dest s = Some (ok, t)))
    \<and> (decoders_return env (set (callback_fields n env flds)) \<longrightarrow> (\<exists>ok t. pb_decode n env flds dest s = Some (ok, t)))
    \<and> (\<forall>k it s sub s1. pb_make_string_substream env s = (Some sub, s1) \<longrightarrow> is_bytes_left sub \<noteq> 0
         \<longrightarrow> callback_funcs (dmem s) (it_pData it) \<noteq> 0
         \<longrightarrow> (\<forall>t. \<exists>u. ie_decode env (callback_funcs (dmem s) (it_pData it)) (it_field it) (callback_arg (it_pData it)) t = Some (True, u)
              \<and> is_bytes_left (ist u) = is_bytes_left (ist t))
         \<longrightarrow> decode_callback_field k env PB_WT_STRING it s = None)"
proof (intro conjI impI allI)
  show result: "\<exists>ok t. pb_decode n env flds dest s = Some (ok, t)" if "decoders_return env (set (callback_fields n env flds))"
    using decode_returns [OF that assms] by auto
  then show "\<exists>ok t. pb_decode n env flds dest s = Some (ok, t)" if "callback_fields n env flds = []"
    using that by (simp add: decoders_return_def)
qed (rule callback_without_progress_hangs)

theorem decode_comes_back_witness:
  "\<exists>ok t. pb_decode 20 plain_ienv person_fields 500 (input_state person_wire (\<lambda>_. 0)) = Some (ok, t)"
proof -
  have "descriptors_ok 20 plain_ienv person_fields" "callback_fields 20 plain_ienv person_fields = []" by code_simp+
  moreover have "unat (is_bytes_left (ist (input_state person_wire (\<lambda>_. 0)))) < 20"
    by (simp add: input_state_def pb_istream_from_buffer_def person_wire_def)
  ultimately show ?thesis using decode_comes_back [OF plain_safe] by blast
qed

theorem decode_writes_inside_struct_witness:
  "\<exists>ok t. pb_decode 1 plain_ienv person_fields 500 (input_state [] (\<lambda>_. 7)) = Some (ok, t)
     \<and> dmem t 499 = 7 \<and> dmem t 536 = 7"
proof -
  have "\<exists>ok t. pb_decode 1 plain_ienv person_fields 500 (input_state [] (\<lambda>_. 7)) = Some (ok, t)"
  proof -
    have "descriptors_ok 1 plain_ienv person_fields" by code_simp
    then show ?thesis
      using decode_returns [OF plain_return plain_safe, of 1 person_fields "input_state [] (\<lambda>_. 7)" 500]
      by (simp add: input_state_def pb_istream_from_buffer_def)
  qed
  then obtain ok t where r: "pb_decode 1 plain_ienv person_fields 500 (input_state [] (\<lambda>_. 7)) = Some (ok, t)"
    by blast
  with decode_writes_inside_struct [OF person_fits plain_safe r, of 499]
    decode_writes_inside_struct [OF person_fits plain_safe r, of 536]
  show ?thesis by (auto simp: input_state_def)
qed

theorem decode_stays_in_input_witness:
  "\<exists>ok t. pb_decode 20 plain_ienv person_fields 500 (input_state person_wire (\<lambda>_. 0)) = Some (ok, t)
     \<and> 1000 \<le> is_state (ist t) \<and> is_state (ist t) + uint (is_bytes_left (ist t)) \<le> 1012"
proof -
  let ?s = "input_state person_wire (\<lambda>_. 0)"
  have s: "is_callback (ist ?s) = IC_BufRead" "is_state (ist ?s) = 1000" "is_bytes_left (ist ?s) = 12"
    by (simp_all add: input_state_def pb_istream_from_buffer_def person_wire_def)
  have "descriptors_ok 20 plain_ienv person_fields" by code_simp
  then obtain ok t where r: "pb_decode 20 plain_ienv person_fields 500 ?s = Some (ok, t)"
    using decode_returns [OF plain_return plain_safe, of 20 person_fields ?s 500] s by auto
  with decode_stays_in_input [OF plain_safe s(1) r] s show ?thesis by auto
qed

text \<open>C6. The required-field check is exact: \<^verbatim>\<open>pb_decode_noinit\<close> accepts an input if and only if the
  loop runs over it field by field to a place where it stops without an error, and the tag of
  every required field was among the tags it met. This is for message types with pairwise
  different tags, no extension range, and at most 63 required fields but not exactly 32.\<close>

theorem decode_accepts_iff_required_present:
  assumes "tags_ok flds" and "req_total flds < 64" and "req_total flds \<noteq> 32"
  shows "pb_decode_noinit (Suc n) env flds dest s = Some (True, t) \<longleftrightarrow>
    (\<exists>tags dl s'. field_run n (pb_decode_noinit n env) env (start_locals flds dest, s) tags (dl, s')
       \<and> run_stop env s' t \<and> length tags \<le> n
       \<and> (\<forall>f\<in>set (live_fields flds). required f \<longrightarrow> f_tag f \<in> set tags))"
  by (rule noinit_iff_run [OF assms])

theorem decode_accepts_iff_required_present_witness:
  "(\<forall>t. pb_decode_noinit (Suc 0) plain_ienv person_fields 500 (input_state [] (\<lambda>_. 0)) \<noteq> Some (True, t))
   \<and> map_option fst (pb_decode_noinit (Suc 2) plain_ienv person_fields 500 (input_state [8, 5] (\<lambda>_. 0))) = Some True"
proof (intro conjI allI notI)
  show "map_option fst (pb_decode_noinit (Suc 2) plain_ienv person_fields 500 (input_state [8, 5] (\<lambda>_. 0))) = Some True"
    by code_simp
  fix t
  assume a: "pb_decode_noinit (Suc 0) plain_ienv person_fields 500 (input_state [] (\<lambda>_. 0)) = Some (True, t)"
  have "tags_ok person_fields" "req_total person_fields < 64" "req_total person_fields \<noteq> 32"
    by code_simp+
  from decode_accepts_iff_required_present [OF this, of 0 plain_ienv 500 "input_state [] (\<lambda>_. 0)" t] a
  obtain tags where "tags = []" "\<forall>f\<in>set (live_fields person_fields). required f \<longrightarrow> f_tag f \<in> set tags" by auto
  moreover have "\<exists>f\<in>set (live_fields person_fields). required f" by code_simp
  ultimately show False by auto
qed



text \<open>C17. When 32 fields are required and all of them were seen, the check at the end shifts a
  32-bit number by 32, which C leaves undefined: the complete message has no defined result.\<close>

theorem required_check_undefined_at_32:
  assumes "seen_for flds seen tags" and "req_total flds = 32"
    and "\<forall>f\<in>set (live_fields flds). required f \<longrightarrow> f_tag f \<in> tags"
  shows "check_seen seen (of_nat (req_total flds)) = None"
  by (rule check_seen_32 [OF assms])

definition wide_fields :: "pb_field list" where
  "wide_fields = map (\<lambda>i. PB_REQUIRED_STATIC (of_nat (Suc i)) mb_id 0 PB_LTYPE_VARINT 0) [0..<32]"

theorem required_check_undefined_at_32_witness: "check_seen [- 1, 0] 32 = None"
proof -
  have w: "req_total wide_fields = 32" by code_simp
  have live: "live_fields wide_fields = wide_fields" "list_all required wide_fields" "length wide_fields = 32"
    by code_simp+
  have "filter required (take i wide_fields) = take i wide_fields" for i
    using live(2) by (auto simp: filter_id_conv list_all_iff dest: in_set_takeD)
  then have req: "required (field_at wide_fields i)" "req_index wide_fields i = i"
    "f_tag (field_at wide_fields i) \<in> set (map f_tag wide_fields)" if "i < 32" for i
    using live that by (auto simp: field_at_def list_all_length req_index_def)
  have "seen_bit [- 1, 0] j \<longleftrightarrow> j < 32" if "j < 64" for j
  proof -
    have "j div 32 = 0 \<and> j < 32 \<or> j div 32 = 1 \<and> \<not> j < 32" using that by linarith
    then show ?thesis by (auto simp: seen_bit_def)
  qed
  then have "seen_for wide_fields [- 1, 0] (set (map f_tag wide_fields))"
    using req live by (auto simp: seen_for_def)
  moreover have "\<forall>f\<in>set (live_fields wide_fields). required f \<longrightarrow> f_tag f \<in> set (map f_tag wide_fields)"
    by (auto simp: live_fields_def dest: set_takeWhileD)
  ultimately have "check_seen [- 1, 0] (of_nat (req_total wide_fields)) = None"
    by (intro required_check_undefined_at_32 w)
  then show ?thesis by (simp add: w)
qed

text \<open>A tag that the end of the input cuts off: all its bytes announce another one.\<close>

lemma truncated_varint32_loop:
  "holds bs s \<Longrightarrow> is_bytes_left (ist s) = of_nat (length bs) \<Longrightarrow> \<forall>b\<in>set bs. b AND 0x80 \<noteq> 0 \<Longrightarrow> bitpos + 7 * length bs < 39 \<Longrightarrow>
   \<exists>t. decode_varint32_loop env bitpos r s = (None, t) \<and> is_bytes_left (ist t) = 0"
proof (induction bs arbitrary: bitpos r s)
  case Nil
  then show ?case
    by (subst decode_varint32_loop.simps) (simp add: pb_readbyte_def is_set_error_def)
next
  case (Cons b bs)
  have rd: "pb_readbyte env s = (Some b, is_skip 1 s)" using Cons.prems(1) by (rule pb_readbyte_holds)
  have "holds bs (is_skip 1 s)" using Cons.prems(1) by (simp add: holds_Cons [of b bs])
  moreover have "is_bytes_left (ist (is_skip 1 s)) = of_nat (length bs)" using Cons.prems(2) by (simp add: is_skip_def)
  ultimately obtain t where "decode_varint32_loop env (bitpos + 7) (r OR push_bit bitpos (ucast (b AND 0x7F))) (is_skip 1 s) = (None, t)"
      "is_bytes_left (ist t) = 0"
    using Cons.IH [of "is_skip 1 s" "bitpos + 7"] Cons.prems(3,4) by auto
  with rd Cons.prems(3,4) show ?case by (subst decode_varint32_loop.simps) (simp add: Let_def)
qed

lemma truncated_tag:
  assumes "holds bs s" and "is_bytes_left (ist s) = of_nat (length bs)" and "\<forall>b\<in>set bs. b AND 0x80 \<noteq> 0"
    and "bs \<noteq> []" and "length bs \<le> 5"
  shows "\<exists>t. pb_decode_tag env s = ((False, 0, 0, True), t)"
proof -
  obtain b cs where bs: "bs = b # cs" using assms(4) by (cases bs) auto
  have rd: "pb_readbyte env s = (Some b, is_skip 1 s)" using assms(1) unfolding bs by (rule pb_readbyte_holds)
  have "holds cs (is_skip 1 s)" using assms(1) by (simp add: bs holds_Cons [of b cs])
  moreover have "is_bytes_left (ist (is_skip 1 s)) = of_nat (length cs)" using assms(2) by (simp add: bs is_skip_def)
  moreover have "\<forall>b\<in>set cs. b AND 0x80 \<noteq> 0" "7 + 7 * length cs < 39" using assms(3,5) by (simp_all add: bs)
  ultimately obtain t where "decode_varint32_loop env 7 (ucast (b AND 0x7F)) (is_skip 1 s) = (None, t)" "is_bytes_left (ist t) = 0"
    using truncated_varint32_loop by blast
  with rd assms(3) bs show ?thesis by (simp add: pb_decode_tag_def pb_decode_varint32_def)
qed

text \<open>C18. An input that ends inside a tag is taken for a complete message: if the loop has run over some fields, and what is left is the
  beginning of a tag, one to five bytes that all announce another byte, then the input is accepted like one that ends before
  these bytes, provided that the required fields were met. This is for the message types of C6.\<close>

theorem truncated_tag_accepted:
  assumes "tags_ok flds" and "req_total flds < 64" and "req_total flds \<noteq> 32"
    and "field_run n (pb_decode_noinit n env) env (start_locals flds dest, s) tags (dl, s')" and "length tags \<le> n"
    and "\<forall>f\<in>set (live_fields flds). required f \<longrightarrow> f_tag f \<in> set tags"
    and "holds bs s'" and "is_bytes_left (ist s') = of_nat (length bs)"
    and "bs \<noteq> []" and "length bs \<le> 5" and "\<forall>b\<in>set bs. b AND 0x80 \<noteq> 0"
  shows "\<exists>t. pb_decode_noinit (Suc n) env flds dest s = Some (True, t)"
proof -
  obtain t where "pb_decode_tag env s' = ((False, 0, 0, True), t)"
    using truncated_tag [OF assms(7,8,11,9,10)] by blast
  moreover have "is_bytes_left (ist s') \<noteq> 0" using assms(7,9) holds_left by (cases bs) auto
  ultimately have "run_stop env s' t" by (auto simp: run_stop_def)
  with noinit_iff_run [OF assms(1-3)] assms(4-6) show ?thesis by blast
qed

theorem truncated_tag_accepted_witness:
  "\<exists>t. pb_decode_noinit (Suc 2) plain_ienv person_fields 500 (input_state [8, 5, 0x88, 0x80] (\<lambda>_. 0)) = Some (True, t)"
proof -
  let ?s = "input_state [8, 5, 0x88, 0x80] (\<lambda>_. 0)" and ?dl = "start_locals person_fields 500"
  define s1 where "s1 = snd (pb_decode_tag plain_ienv ?s)"
  let ?one = "decode_one 2 (pb_decode_noinit 2 plain_ienv) plain_ienv 1 0 ?dl s1"
  have "fst (pb_decode_tag plain_ienv ?s) = (True, 0, 1, False)" by code_simp
  then have tag: "pb_decode_tag plain_ienv ?s = ((True, 0, 1, False), s1)" by (metis prod.collapse s1_def)
  have "map_option (\<lambda>(ok, dl, t). (ok, is_bytes_left (ist t))) ?one = Some (True, 2)" unfolding s1_def by code_simp
  then obtain dl t where one: "?one = Some (True, dl, t)" and left: "is_bytes_left (ist t) = 2" by auto
  have "map_option (\<lambda>(ok, dl, t). mem_read (is_buf (ist t)) (is_state (ist t)) 2) ?one = Some [0x88, 0x80]"
    unfolding s1_def by code_simp
  moreover have "map_option (\<lambda>(ok, dl, t). is_callback (ist t) = IC_BufRead) ?one = Some True" unfolding s1_def by code_simp
  ultimately have t: "holds [0x88, 0x80] t" using left one by (simp add: holds_def flip: numeral_2_eq_2)
  have "is_bytes_left (ist ?s) \<noteq> 0" by (simp add: input_state_def pb_istream_from_buffer_def)
  with tag one have run: "field_run 2 (pb_decode_noinit 2 plain_ienv) plain_ienv (?dl, ?s) [1] (dl, t)"
    by (intro run_step [OF step run_done])
  have "tags_ok person_fields" "req_total person_fields < 64" "req_total person_fields \<noteq> 32"
    "\<forall>f\<in>set (live_fields person_fields). required f \<longrightarrow> f_tag f \<in> set [1]" by code_simp+
  from truncated_tag_accepted [OF this(1-3) run _ this(4) t] left show ?thesis by simp
qed

end
