(* ===== verification/Pb_Codec.thy ===== *)
theory Pb_Codec
  imports Pb_Ostream Pb_Istream
begin

text \<open>
  The primitive encoders and decoders are inverse to each other. The interface
  \<open>stream_codec\<close> says that a decoder, given a memory stream whose next bytes are an encoding,
  returns the encoded value and takes exactly these bytes; from it follow that encodings
  are self-delimiting and that consecutive items are read back one by one.
\<close>

section \<open>The interface\<close>

locale stream_codec =
  fixes valid :: "'a \<Rightarrow> bool" and enc :: "'a \<Rightarrow> u8 list"
    and dec :: "unit istate \<Rightarrow> 'a option \<times> unit istate"
  assumes dec_enc: "valid x \<Longrightarrow> holds (enc x) s \<Longrightarrow> dec s = (Some x, is_skip (length (enc x)) s)"
    and enc_short: "valid x \<Longrightarrow> length (enc x) \<le> 10"
begin

text \<open>No encoding is a prefix of another one: a reader knows where an item ends.\<close>

lemma self_delimiting:
  assumes "valid x" "valid y" "enc x @ xs = enc y @ ys"
  shows "x = y \<and> xs = ys"
proof -
  let ?l = "enc x @ take 10 xs" and ?r = "enc y"
  let ?m = "\<lambda>a. if 0 \<le> a \<and> a < int (length (enc x @ xs)) then (enc x @ xs) ! nat a else 0"
  let ?s = "\<lparr>ist = pb_istream_from_buffer ?m 0 100, dmem = (\<lambda>_. 0), iuser = ()\<rparr>"
  have "holds zs ?s" if "zs @ rest = enc x @ xs" "length zs \<le> 10" for zs rest
  proof -
    have "mem_read ?m 0 (length zs) = zs"
    proof (rule nth_equalityI)
      fix i assume "i < length (mem_read ?m 0 (length zs))"
      then have i: "i < length zs" by simp
      moreover have "length zs \<le> length (enc x @ xs)" using that(1) by (metis le_add1 length_append)
      moreover have "(enc x @ xs) ! i = zs ! i" using that(1) i by (metis nth_append)
      ultimately show "mem_read ?m 0 (length zs) ! i = zs ! i" by simp
    qed simp
    then show ?thesis using that(2) by (simp add: holds_def pb_istream_from_buffer_def)
  qed
  from this [OF refl] this [OF assms(3) [symmetric]] have "holds (enc x) ?s" "holds (enc y) ?s"
    using enc_short assms(1,2) by auto
  from dec_enc [OF assms(1) this(1)] dec_enc [OF assms(2) this(2)] have "x = y" by simp
  with assms(3) show ?thesis by simp
qed

lemma enc_inj: "valid x \<Longrightarrow> valid y \<Longrightarrow> enc x = enc y \<Longrightarrow> x = y"
  using self_delimiting [of x y "[]" "[]"] by simp

text \<open>Reading as many items as were written, one after the other.\<close>

primrec dec_items :: "nat \<Rightarrow> unit istate \<Rightarrow> 'a list option \<times> unit istate" where
  "dec_items 0 s = (Some [], s)"
| "dec_items (Suc n) s =
     (case dec s of
        (None, t) \<Rightarrow> (None, t)
      | (Some x, t) \<Rightarrow> (case dec_items n t of (r, u) \<Rightarrow> (map_option ((#) x) r, u)))"

lemma dec_items_enc:
  "\<forall>x\<in>set xs. valid x \<Longrightarrow> holds (concat (map enc xs)) s \<Longrightarrow>
   dec_items (length xs) s = (Some xs, is_skip (length (concat (map enc xs))) s)"
proof (induction xs arbitrary: s)
  case (Cons x xs)
  then have "holds (enc x) s" "holds (concat (map enc xs)) (is_skip (length (enc x)) s)"
    by (simp_all add: holds_append)
  moreover from this Cons.prems have "dec s = (Some x, is_skip (length (enc x)) s)"
    by (intro dec_enc) auto
  ultimately show ?case using Cons by simp
qed simp

end

section \<open>Variable-length integers\<close>

lemma byte_msb: "(ucast (take_bit 7 v) OR 0x80) AND (0x80 :: u8) = 0x80" for v :: u64
  by (rule bit_word_eqI) (auto simp: bit_simps less_Suc_eq eval_nat_numeral)

lemma byte_no_msb: "v < 128 \<Longrightarrow> ucast v AND (0x80 :: u8) = 0" for v :: u64
proof -
  assume "v < 128"
  then have v: "take_bit 7 v = v" by (rule take7_small)
  have "ucast (take_bit 7 v) AND (0x80 :: u8) = 0"
    by (rule bit_word_eqI) (auto simp: bit_simps less_Suc_eq eval_nat_numeral)
  with v show ?thesis by simp
qed

lemma varint_form_bytes: "varint_form (varint_bytes v)"
proof (induction v rule: varint_bytes.induct)
  case (1 v)
  then show ?case
    by (subst varint_bytes.simps)
      (auto simp: varint_form_Cons byte_msb byte_no_msb)
qed

lemma groups_word_split:
  "ucast ((ucast (take_bit 7 v) OR 0x80 :: u8) AND 0x7F) OR push_bit 7 (ucast (drop_bit 7 v))
    = (ucast v :: 'a::len word)" for v :: u64
proof (rule bit_word_eqI)
  fix n assume "n < LENGTH('a)"
  moreover have "bit (ucast ((ucast (take_bit 7 v) OR 0x80 :: u8) AND 0x7F) :: 'a word) n
      \<longleftrightarrow> n < 7 \<and> bit v n" if "n < LENGTH('a)"
  proof -
    have "(ucast (take_bit 7 v) OR 0x80 :: u8) AND 0x7F = ucast (take_bit 7 v)"
      by (rule bit_word_eqI) (auto simp: bit_simps less_Suc_eq eval_nat_numeral)
    then show ?thesis using that by (auto simp: bit_simps)
  qed
  ultimately show "bit (ucast ((ucast (take_bit 7 v) OR 0x80 :: u8) AND 0x7F)
        OR push_bit 7 (ucast (drop_bit 7 v)) :: 'a word) n = bit (ucast v :: 'a word) n"
    by (auto simp: bit_simps)
qed

lemma groups_word_bytes: "groups_word (varint_bytes v) = (ucast v :: 'a::len word)"
proof (induction v rule: varint_bytes.induct)
  case (1 v)
  show ?case
  proof (cases "v < 128")
    case True
    have "ucast v AND (0x7F :: u8) = ucast v" by (rule byte_low7) (rule byte_no_msb [OF True])
    moreover have "ucast (ucast v :: u8) = (ucast v :: 'a word)"
    proof -
      have "ucast (ucast (take_bit 7 v) :: u8) = (ucast (take_bit 7 v) :: 'a word)"
        by (rule bit_word_eqI) (auto simp: bit_simps)
      then show ?thesis by (simp add: take7_small [OF True])
    qed
    ultimately show ?thesis using True by (subst varint_bytes.simps) simp
  next
    case False
    with 1 show ?thesis
      by (subst varint_bytes.simps) (simp add: groups_word_split)
  qed
qed

lemma varint_roundtrip:
  "holds (varint_bytes v) s \<Longrightarrow>
   pb_decode_varint env s = (Some v, is_skip (length (varint_bytes v)) s)"
  using pb_decode_varint_groups [OF varint_form_bytes varint_bytes_le_10, of v s env]
  by (simp add: groups_word_bytes)

lemma varint32_roundtrip:
  assumes "holds (varint_bytes v) s" "unat v < 2 ^ 35"
  shows "pb_decode_varint32 env s = (Some (ucast v), is_skip (length (varint_bytes v)) s)"
proof -
  have "length (varint_bytes v) \<le> Suc 4" by (rule length_varint_bytes) (use assms in simp)
  then have "length (varint_bytes v) \<le> 5" by simp
  from pb_decode_varint32_groups [OF varint_form_bytes this assms(1), of env]
  show ?thesis by (simp add: groups_word_bytes)
qed

lemma ucast_u32_u64 [simp]: "ucast (ucast v :: u64) = v" for v :: u32
  by (rule bit_word_eqI) (auto simp: bit_simps)

interpretation varint_cd: stream_codec "\<lambda>_. True" varint_bytes "pb_decode_varint env" for env
  by unfold_locales (simp_all add: varint_roundtrip varint_bytes_le_10)

interpretation varint32_cd: stream_codec "\<lambda>_. True" "\<lambda>v. varint_bytes (ucast v)" "pb_decode_varint32 env" for env
proof
  fix v :: u32 and s :: "unit istate"
  assume h: "holds (varint_bytes (ucast v)) s"
  have "unat (ucast v :: u64) < 2 ^ 35"
    using unsigned_less [of v, where 'a = nat] by (simp add: unsigned_ucast_eq take_bit_nat_eq_self)
  from varint32_roundtrip [OF h this]
  show "pb_decode_varint32 env s = (Some v, is_skip (length (varint_bytes (ucast v))) s)"
    by simp
qed (rule varint_bytes_le_10)

section \<open>Zig-zag integers\<close>

lemma unzigzag_zigzag [simp]: "unzigzag (zigzag v) = v"
proof (cases "sint v < 0")
  case True
  then have "bit v 63" using bit_last_iff [of v] by simp
  moreover have "bit (NOT (push_bit 1 v) AND 1) 0" by (simp add: bit_simps bit_0 even_and_iff)
  then have "NOT (push_bit 1 v) AND 1 \<noteq> 0" by (metis bit_0_eq bot_apply bot_bool_def)
  moreover have "NOT (drop_bit 1 (NOT (push_bit 1 v))) = v" if "bit v 63"
  proof (rule bit_word_eqI)
    fix n assume "n < LENGTH(64)"
    then show "bit (NOT (drop_bit 1 (NOT (push_bit 1 v)))) n = bit v n"
      using that by (cases "n = 63") (auto simp: bit_simps simp del: push_bit_Suc)
  qed
  ultimately show ?thesis using True by (simp add: zigzag_def unzigzag_def)
next
  case False
  then have "\<not> bit v 63" using bit_last_iff [of v] by simp
  then have "drop_bit 1 (push_bit 1 v) = v"
  proof (intro bit_word_eqI)
    fix n assume "\<not> bit v 63" "n < LENGTH(64)"
    then show "bit (drop_bit 1 (push_bit 1 v)) n = bit v n"
      by (cases "n = 63") (auto simp: bit_simps simp del: push_bit_Suc)
  qed
  moreover have "push_bit 1 v AND 1 = 0"
    by (rule bit_word_eqI) (auto simp: bit_simps simp del: push_bit_Suc)
  ultimately show ?thesis using False by (simp add: zigzag_def unzigzag_def del: push_bit_Suc)
qed

interpretation svarint_cd: stream_codec "\<lambda>_. True" "\<lambda>v. varint_bytes (zigzag v)" "pb_decode_svarint env" for env
  by unfold_locales (simp_all add: pb_decode_svarint_def varint_roundtrip varint_bytes_le_10)

section \<open>Fixed-width integers\<close>

lemma word_of_le_4:
  "length bs = 4 \<Longrightarrow> push_bit 0 (ucast (byte_at bs 0)) OR push_bit 8 (ucast (byte_at bs 1))
     OR push_bit 16 (ucast (byte_at bs 2)) OR push_bit 24 (ucast (byte_at bs 3))
   = (word_of_le bs :: u32)"
  by (auto simp: byte_at_def numeral_eq_Suc length_Suc_conv push_bit_or push_bit_push_bit)

lemma word_of_le_8:
  "length bs = 8 \<Longrightarrow> push_bit 0 (ucast (byte_at bs 0)) OR push_bit 8 (ucast (byte_at bs 1))
     OR push_bit 16 (ucast (byte_at bs 2)) OR push_bit 24 (ucast (byte_at bs 3))
     OR push_bit 32 (ucast (byte_at bs 4)) OR push_bit 40 (ucast (byte_at bs 5))
     OR push_bit 48 (ucast (byte_at bs 6)) OR push_bit 56 (ucast (byte_at bs 7))
   = (word_of_le bs :: u64)"
  by (auto simp: byte_at_def numeral_eq_Suc length_Suc_conv push_bit_or push_bit_push_bit)

lemma pb_decode_fixed32_holds:
  assumes "holds bs s" "length bs = 4"
  shows "pb_decode_fixed32 env s = (Some (word_of_le bs), is_skip 4 s)"
  using pb_read_holds [OF assms(1), of env False] word_of_le_4 [OF assms(2)] assms(2)
  by (simp add: pb_decode_fixed32_def)

lemma pb_decode_fixed64_holds:
  assumes "holds bs s" "length bs = 8"
  shows "pb_decode_fixed64 env s = (Some (word_of_le bs), is_skip 8 s)"
  using pb_read_holds [OF assms(1), of env False] word_of_le_8 [OF assms(2)] assms(2)
  by (simp add: pb_decode_fixed64_def)

interpretation fixed32_cd: stream_codec "\<lambda>_. True" "word_to_le 4 :: u32 \<Rightarrow> _" "pb_decode_fixed32 env" for env
  by unfold_locales (simp_all add: pb_decode_fixed32_holds)

interpretation fixed64_cd: stream_codec "\<lambda>_. True" "word_to_le 8 :: u64 \<Rightarrow> _" "pb_decode_fixed64 env" for env
  by unfold_locales (simp_all add: pb_decode_fixed64_holds)

section \<open>Message keys\<close>

lemma unat_tag_key:
  assumes "unat n < 2 ^ 29" "unat wt < 8"
  shows "unat (tag_key wt n) = 8 * unat n + unat wt"
proof -
  have d: "push_bit 3 (ucast n :: u64) AND ucast wt = 0"
  proof (rule bit_word_eqI)
    fix k assume "k < LENGTH(64)"
    have "\<not> bit wt k" if "3 \<le> k"
    proof -
      have "(2::nat) ^ 3 \<le> 2 ^ k" using that by (intro power_increasing) auto
      with assms(2) have "unat wt < 2 ^ k" by simp
      then have "drop_bit k (unat wt) = 0" by (simp add: drop_bit_eq_div)
      then have "\<not> bit (unat wt) k" by (simp add: bit_iff_odd_drop_bit)
      then show ?thesis by (simp add: bit_unsigned_iff)
    qed
    then show "bit (push_bit 3 (ucast n :: u64) AND ucast wt) k = bit (0 :: u64) k"
      by (auto simp: bit_simps)
  qed
  have "tag_key wt n = push_bit 3 (ucast n) + ucast wt"
    unfolding tag_key_def using d by (rule disjunctive_add_eq_or [symmetric])
  moreover have "unat (push_bit 3 (ucast n :: u64)) = 8 * unat n"
    using assms(1) by (simp add: push_bit_eq_mult unat_word_ariths unsigned_ucast_eq take_bit_nat_eq_self)
  moreover have "unat (ucast wt :: u64) = unat wt"
    using assms(2) by (simp add: unsigned_ucast_eq take_bit_nat_eq_self)
  ultimately show ?thesis
    using assms by (simp add: unat_word_ariths)
qed

lemma and7: "w AND 7 = take_bit 3 w" for w :: u32
  by (simp add: take_bit_eq_mask mask_eq_exp_minus_1)

lemma tag_roundtrip:
  assumes h: "holds (varint_bytes (tag_key wt n)) s"
    and n: "0 < unat n" "unat n < 2 ^ 29" and wt: "unat wt < 8"
  shows "pb_decode_tag env s = ((True, wt, n, False), is_skip (length (varint_bytes (tag_key wt n))) s)"
proof -
  let ?t = "ucast (tag_key wt n) :: u32"
  have k: "unat (tag_key wt n) = 8 * unat n + unat wt" using n wt by (simp add: unat_tag_key)
  then have t: "unat ?t = 8 * unat n + unat wt"
    using n wt by (simp add: unsigned_ucast_eq take_bit_nat_eq_self)
  have d: "pb_decode_varint32 env s = (Some ?t, is_skip (length (varint_bytes (tag_key wt n))) s)"
    by (rule varint32_roundtrip [OF h]) (use k n wt in simp)
  have "?t AND 7 = wt"
    unfolding and7 using t wt
    by (simp add: word_unat_eq_iff unsigned_take_bit_eq) (simp add: take_bit_eq_mod)
  moreover have "drop_bit 3 ?t = n"
    using t wt n
    by (simp add: word_unat_eq_iff unsigned_drop_bit_eq take_bit_nat_eq_self) (simp add: drop_bit_eq_div)
  moreover have "?t \<noteq> 0" using t n by (metis add_gr_0 mult_pos_pos unat_0 less_irrefl zero_less_numeral)
  ultimately show ?thesis using d by (simp add: pb_decode_tag_def)
qed

section \<open>Skipping\<close>

lemma pb_skip_varint_holds:
  "varint_form bs \<Longrightarrow> holds bs s \<Longrightarrow> pb_skip_varint env s = (True, is_skip (length bs) s)"
proof (induction bs arbitrary: s)
  case (Cons b bs)
  have "holds [b] s" and rest: "holds bs (is_skip 1 s)"
    using Cons.prems(2) by (auto simp: holds_Cons [of b bs])
  from pb_read_holds [OF this(1), of env False] have "pb_read env False 1 s = ((True, [b]), is_skip 1 s)"
    by simp
  with Cons rest show ?case
    by (subst pb_skip_varint.simps) (auto simp: byte_at_def varint_form_Cons split: if_splits)
qed simp

lemma ucast_of_nat_u64: "n < 2 ^ 32 \<Longrightarrow> ucast (of_nat n :: u32) = (of_nat n :: u64)"
  by (simp add: word_unat_eq_iff unsigned_ucast_eq unat_of_nat take_bit_nat_eq_self)

lemma ucast_of_nat_u32: "n < 2 ^ 32 \<Longrightarrow> ucast (of_nat n :: u64) = (of_nat n :: u32)"
  by (simp add: word_unat_eq_iff unsigned_ucast_eq unat_of_nat take_bit_nat_eq_self)

lemma pb_decode_len_holds:
  assumes "holds (varint_bytes (of_nat (length bs)) @ bs) s" "length bs < 2 ^ 32"
  shows "pb_decode_varint32 env s =
      (Some (of_nat (length bs)), is_skip (length (varint_bytes (of_nat (length bs)))) s)"
    and "holds bs (is_skip (length (varint_bytes (of_nat (length bs)))) s)"
proof -
  have h: "holds (varint_bytes (of_nat (length bs))) s" using assms(1) by (simp add: holds_append)
  have "unat (of_nat (length bs) :: u64) < 2 ^ 35" using assms(2) by (simp add: unat_of_nat)
  from varint32_roundtrip [OF h this, of env]
  show "pb_decode_varint32 env s =
      (Some (of_nat (length bs)), is_skip (length (varint_bytes (of_nat (length bs)))) s)"
    using assms(2) by (simp add: ucast_of_nat_u32)
  show "holds bs (is_skip (length (varint_bytes (of_nat (length bs)))) s)"
    using assms(1) by (simp add: holds_append)
qed

lemma pb_skip_string_holds:
  assumes "holds (varint_bytes (of_nat (length bs)) @ bs) s" "length bs < 2 ^ 32"
  shows "pb_skip_string env s =
    (True, is_skip (length (varint_bytes (of_nat (length bs)) @ bs)) s)"
  using pb_decode_len_holds(1) [OF assms, of env] pb_read_holds [OF pb_decode_len_holds(2) [OF assms], of env True]
  by (simp add: pb_skip_string_def ucast_of_nat_u64 [OF assms(2)])

end
