(* ===== verification/Pb_Roundtrip.thy ===== *)
theory Pb_Roundtrip
  imports Pb_Codec Pb_Encode_Spec Pb_Decode_Props
begin

text \<open>
  What the encoder writes for a value, the decoder stores again: for integers of every width,
  fixed-width numbers, byte arrays, strings and fixed-length bytes, the decoder gives the
  destination the bytes of the source.
\<close>

section \<open>Integers keep their value through the wire\<close>

lemma narrow_signed [simp]:
  "ucast (scast (w1 :: u8) :: u64) = w1" "ucast (scast (w2 :: u16) :: u64) = w2"
  "ucast (scast (w4 :: u32) :: u64) = w4"
  by (rule bit_word_eqI, auto simp: bit_simps)+

lemma narrow_unsigned [simp]:
  "ucast (ucast (w1 :: u8) :: u64) = w1" "ucast (ucast (w2 :: u16) :: u64) = w2"
  by (rule bit_word_eqI, auto simp: bit_simps)+

lemma signed_through_32 [simp]:
  "scast (ucast (scast (w1 :: u8) :: u64) :: u32) = (scast w1 :: u64)"
  "scast (ucast (scast (w2 :: u16) :: u64) :: u32) = (scast w2 :: u64)"
  by (rule bit_word_eqI, auto simp: bit_simps min_def)+

lemma load_signed_cases:
  assumes "load_signed m d p = Some v"
  shows "clamp_signed d v = Some (mem_read m p (unat d), v)"
    "d \<noteq> 8 \<Longrightarrow> scast (ucast v :: u32) = v"
  using assms
  by (auto simp: load_signed_def clamp_signed_def word_to_le_load simp del: word_to_le.simps split: if_splits)

lemma load_unsigned_cases:
  assumes "load_unsigned m d p = Some v"
  shows "clamp_unsigned d v = Some (mem_read m p (unat d), v)"
  using assms
  by (auto simp: load_unsigned_def clamp_unsigned_def word_to_le_load simp del: word_to_le.simps split: if_splits)

lemma spec_varint_Some: "spec_varint v = Some (True, bs) \<longleftrightarrow> (\<exists>x. v = Some x \<and> bs = varint_bytes x)"
  by (cases v) (auto simp: spec_varint_def)

lemma dec_varint_roundtrip:
  assumes "load_signed m (f_data_size f) p = Some v" "holds (varint_bytes v) s"
  shows "pb_dec_varint denv f q s =
    (True, is_store q (mem_read m p (unat (f_data_size f))) (is_skip (length (varint_bytes v)) s))"
  using varint_roundtrip [OF assms(2), of denv] load_signed_cases [OF assms(1)]
  by (cases "f_data_size f = 8") (simp_all add: pb_dec_varint_def store_clamped_def Let_def)

lemma dec_uvarint_roundtrip:
  assumes "load_unsigned m (f_data_size f) p = Some v" "holds (varint_bytes v) s"
  shows "pb_dec_uvarint denv f q s =
    (True, is_store q (mem_read m p (unat (f_data_size f))) (is_skip (length (varint_bytes v)) s))"
  using varint_roundtrip [OF assms(2), of denv] load_unsigned_cases [OF assms(1)]
  by (simp add: pb_dec_uvarint_def store_clamped_def Let_def)

lemma dec_svarint_roundtrip:
  assumes "load_signed m (f_data_size f) p = Some v" "holds (varint_bytes (zigzag v)) s"
  shows "pb_dec_svarint denv f q s =
    (True, is_store q (mem_read m p (unat (f_data_size f))) (is_skip (length (varint_bytes (zigzag v))) s))"
  using varint_roundtrip [OF assms(2), of denv] load_signed_cases [OF assms(1)]
  by (simp add: pb_dec_svarint_def pb_decode_svarint_def store_clamped_def Let_def)

section \<open>Byte strings\<close>

lemma read_into_holds:
  assumes "holds bs s"
  shows "pb_read_into denv q (of_nat (length bs)) s = (True, is_store q bs (is_skip (length bs) s))"
proof -
  have "int (length bs) \<le> uint (is_bytes_left (ist s))" using assms by (simp add: holds_def)
  then have "unat (of_nat (length bs) :: u64) = length bs" using unat_of_nat_left by blast
  then show ?thesis using pb_read_holds [OF assms, of denv False] by (simp add: pb_read_into_def)
qed

lemma holds_same_stream: "ist s = ist t \<Longrightarrow> holds bs s = holds bs t"
  by (simp add: holds_def)

lemma is_store_skip: "is_skip n (is_store q bs s) = is_store q bs (is_skip n s)"
  by (simp add: is_skip_def is_store_def)

lemma is_store_append: "is_store (q + int (length xs)) ys (is_store q xs s) = is_store q (xs @ ys) s"
  by (simp add: is_store_def mem_write_append)

lemma dec_bytes_roundtrip:
  assumes n: "bytes_size m p = sz" and fit: "unat sz + 4 \<le> unat (f_data_size f)" and st: "atype f \<noteq> PB_ATYPE_POINTER"
    and h: "holds (delimited (mem_read m (bytes_bytes p) (unat sz))) s"
  shows "pb_dec_bytes denv f q s =
    (True, is_store q (mem_read m p (4 + unat sz))
       (is_skip (length (delimited (mem_read m (bytes_bytes p) (unat sz)))) s))"
proof -
  let ?bs = "mem_read m (bytes_bytes p) (unat sz)"
  have len: "length ?bs < 2 ^ 32" using unsigned_less [of sz, where 'a = nat] by simp
  have h': "holds (varint_bytes (of_nat (length ?bs)) @ ?bs) s" using h by (simp add: delimited_def)
  note dec = pb_decode_len_holds [OF h' len]
  let ?s = "is_skip (length (varint_bytes (of_nat (length ?bs)))) s"
  let ?t = "is_store q (word_to_le 4 sz) ?s"
  have v: "pb_decode_varint32 denv s = (Some sz, ?s)" using dec(1) [of denv] by simp
  have "holds ?bs ?t" using dec(2) holds_same_stream [of ?t ?s] by simp
  from read_into_holds [OF this, of denv "bytes_bytes q"]
  have rd: "pb_read_into denv (bytes_bytes q) (ucast sz) ?t = (True, is_store (bytes_bytes q) ?bs (is_skip (length ?bs) ?t))"
    by simp
  have "mem_read m p (4 + unat sz) = word_to_le 4 sz @ ?bs"
    using n word_to_le_load [of 4 m p, where 'a = 32] by (simp add: mem_read_add bytes_size_def bytes_bytes_def)
  then have "is_store (bytes_bytes q) ?bs (is_skip (length ?bs) ?t) =
      is_store q (mem_read m p (4 + unat sz)) (is_skip (length (delimited ?bs)) s)"
    using is_store_append [of q "word_to_le 4 sz" ?bs]
    by (simp add: is_store_skip bytes_bytes_def delimited_def del: word_to_le.simps)
  moreover have "\<not> PB_SIZE_MAX < sz" by (simp add: PB_SIZE_MAX_def not_less)
  moreover have "\<not> PB_BYTES_ARRAY_T_ALLOCSIZE sz < ucast sz"
    using alloc_size_uint [of sz] by (simp add: word_less_def uint_ucast_u32)
  moreover have "uint sz + 4 \<le> uint (f_data_size f)"
    using fit uint_nat [of sz] uint_nat [of "f_data_size f"] by linarith
  then have "\<not> ucast (f_data_size f) < PB_BYTES_ARRAY_T_ALLOCSIZE sz"
    using alloc_size_uint [of sz] by (simp add: word_less_def uint_ucast_u32)
  ultimately show ?thesis using v rd st by (simp add: pb_dec_bytes_def Let_def del: word_to_le.simps)
qed


lemma dec_string_roundtrip:
  assumes fit: "length bs < unat (f_data_size f)" and st: "atype f \<noteq> PB_ATYPE_POINTER"
    and h: "holds (delimited bs) s"
  shows "pb_dec_string denv f q s = (True, is_store q (bs @ [0]) (is_skip (length (delimited bs)) s))"
proof -
  have len: "length bs < 2 ^ 32" using fit unsigned_less [of "f_data_size f", where 'a = nat] by simp
  have h': "holds (varint_bytes (of_nat (length bs)) @ bs) s" using h by (simp add: delimited_def)
  note dec = pb_decode_len_holds [OF h' len]
  let ?sz = "of_nat (length bs) :: u32"
  have "Suc (length bs) < 2 ^ 32" using fit unsigned_less [of "f_data_size f", where 'a = nat] by simp
  then have u: "unat ?sz = length bs" "unat (?sz + 1) = Suc (length bs)"
    by (simp_all add: unat_of_nat unat_word_ariths)
  then have ui: "uint ?sz = int (length bs)" "uint (?sz + 1) = int (Suc (length bs))"
    using uint_nat [of ?sz] uint_nat [of "?sz + 1"] by simp_all
  have "int (Suc (length bs)) \<le> uint (f_data_size f)"
    using fit uint_nat [of "f_data_size f"] by linarith
  then have "\<not> (ucast (?sz + 1) :: u64) < ucast ?sz" "\<not> (ucast (f_data_size f) :: u64) < ucast (?sz + 1)"
    using ui by (simp_all add: word_less_def uint_ucast_u32)
  moreover have "(ucast ?sz :: u64) = of_nat (length bs)" by (rule ucast_of_nat_u64 [OF len])
  moreover note read_into_holds [OF dec(2), of denv q]
  ultimately show ?thesis
    using dec(1) [of denv] st ui(1) is_store_append [of q bs "[0]"]
    by (simp add: pb_dec_string_def Let_def delimited_def)
qed

lemma dec_fixed_length_roundtrip:
  assumes "length bs = unat (f_data_size f)" "holds (delimited bs) s"
  shows "pb_dec_fixed_length_bytes denv f q s = (True, is_store q bs (is_skip (length (delimited bs)) s))"
proof -
  have len: "length bs < 2 ^ 32" using assms(1) unsigned_less [of "f_data_size f", where 'a = nat] by simp
  have h': "holds (varint_bytes (of_nat (length bs)) @ bs) s" using assms(2) by (simp add: delimited_def)
  note dec = pb_decode_len_holds [OF h' len]
  have sz: "(of_nat (length bs) :: u32) = f_data_size f" by (simp add: assms(1))
  moreover have "(ucast (f_data_size f) :: u64) = of_nat (length bs)"
    using ucast_of_nat_u64 [OF len] sz by simp
  moreover have "\<not> PB_SIZE_MAX < f_data_size f" by (simp add: PB_SIZE_MAX_def not_less)
  moreover have "bs = []" if "f_data_size f = 0" using that assms(1) by simp
  ultimately show ?thesis
    using dec(1) [of denv] read_into_holds [OF dec(2), of denv q]
    by (auto simp: pb_dec_fixed_length_bytes_def delimited_def)
qed

lemma dec_fixed32_roundtrip:
  "holds (mem_read m p 4) s \<Longrightarrow> pb_dec_fixed32 denv f q s = (True, is_store q (mem_read m p 4) (is_skip 4 s))"
  using word_to_le_of_le [of "mem_read m p 4", where 'a = 32]
  by (simp add: pb_dec_fixed32_def pb_decode_fixed32_holds del: word_to_le.simps)

lemma dec_fixed64_roundtrip:
  "holds (mem_read m p 8) s \<Longrightarrow> pb_dec_fixed64 denv f q s = (True, is_store q (mem_read m p 8) (is_skip 8 s))"
  using word_to_le_of_le [of "mem_read m p 8", where 'a = 64]
  by (simp add: pb_dec_fixed64_def pb_decode_fixed64_holds del: word_to_le.simps)

section \<open>Every scalar type\<close>

text \<open>
  The bytes that represent the value of a field: the member itself for numbers and
  fixed-length bytes, the count and the counted bytes of a byte array, the characters of a
  string up to and including a terminating zero.
\<close>

definition value_bytes :: "mem \<Rightarrow> pb_field \<Rightarrow> addr \<Rightarrow> u8 list" where
  "value_bytes m f p =
     (if ltype f = PB_LTYPE_FIXED32 then mem_read m p 4
      else if ltype f = PB_LTYPE_FIXED64 then mem_read m p 8
      else if ltype f = PB_LTYPE_BYTES then mem_read m p (4 + unat (bytes_size m p))
      else if ltype f = PB_LTYPE_STRING then c_string m p (unat (f_data_size f)) @ [0]
      else mem_read m p (unat (f_data_size f)))"

definition scalar :: "pb_field \<Rightarrow> bool" where
  "scalar f \<longleftrightarrow> ltype f \<in> {PB_LTYPE_VARINT, PB_LTYPE_UVARINT, PB_LTYPE_SVARINT, PB_LTYPE_FIXED32,
     PB_LTYPE_FIXED64, PB_LTYPE_BYTES, PB_LTYPE_STRING, PB_LTYPE_FIXED_LENGTH_BYTES}"

lemma takeWhile_shorter: "x \<in> set xs \<Longrightarrow> length (takeWhile (\<lambda>b. b \<noteq> x) xs) < length xs"
  by (induction xs) auto

lemma value_roundtrip:
  assumes sc: "scalar f" and st: "atype f = PB_ATYPE_STATIC" and p: "p \<noteq> 0"
    and enc: "spec_value sub env m (PB_ENCODERS ! unat (ltype f)) f p = Some (True, bs)"
    and nul: "ltype f = PB_LTYPE_STRING \<longrightarrow> 0 \<in> set (mem_read m p (unat (f_data_size f)))"
    and h: "holds bs s"
  shows "call_decoder n rec denv (PB_DECODERS ! unat (ltype f)) f q s =
    Some (True, is_store q (value_bytes m f p) (is_skip (length bs) s))"
proof -
  have tw: "length (c_string m p (unat (f_data_size f))) < unat (f_data_size f)" if "ltype f = PB_LTYPE_STRING"
    using nul that takeWhile_shorter [of 0 "mem_read m p (unat (f_data_size f))"] by (simp add: c_string_def)
  note facts = enc h st p
  consider "ltype f = 0" | "ltype f = 1" | "ltype f = 2" | "ltype f = 3" | "ltype f = 4"
    | "ltype f = 5" | "ltype f = 6" | "ltype f = 9"
    using sc by (auto simp: scalar_def)
  then show ?thesis
  proof cases
    case 1
    with facts show ?thesis
      by (auto simp: PB_ENCODERS_def PB_DECODERS_def spec_varint_Some value_bytes_def ret_opt_def dec_varint_roundtrip)
  next
    case 2
    with facts show ?thesis
      by (auto simp: PB_ENCODERS_def PB_DECODERS_def spec_varint_Some value_bytes_def ret_opt_def dec_uvarint_roundtrip)
  next
    case 3
    with facts show ?thesis
      by (auto simp: PB_ENCODERS_def PB_DECODERS_def spec_varint_Some value_bytes_def ret_opt_def dec_svarint_roundtrip)
  next
    case 4
    with facts show ?thesis
      by (auto simp: PB_ENCODERS_def PB_DECODERS_def value_bytes_def ret_opt_def dec_fixed32_roundtrip)
  next
    case 5
    with facts show ?thesis
      by (auto simp: PB_ENCODERS_def PB_DECODERS_def value_bytes_def ret_opt_def dec_fixed64_roundtrip)
  next
    case 6
    with facts dec_bytes_roundtrip [of m p "bytes_size m p" f s denv q] show ?thesis
      by (auto simp: PB_ENCODERS_def PB_DECODERS_def value_bytes_def ret_opt_def split: if_splits)
  next
    case 7
    with facts tw dec_string_roundtrip [of "c_string m p (unat (f_data_size f))" f s denv q] show ?thesis
      by (auto simp: PB_ENCODERS_def PB_DECODERS_def value_bytes_def ret_opt_def)
  next
    case 8
    with facts dec_fixed_length_roundtrip [of "mem_read m p (unat (f_data_size f))" f s denv q] show ?thesis
      by (auto simp: PB_ENCODERS_def PB_DECODERS_def value_bytes_def ret_opt_def)
  qed
qed

end
