(* ===== verification/Pb_Roundtrip_Props.thy ===== *)
theory Pb_Roundtrip_Props
  imports Pb_Roundtrip Pb_Decode_Props
begin

text \<open>
  Round trips between nanopb's encoder and decoder: values of every scalar type through the tables
  of encoders and decoders, and tags.
\<close>

text \<open>C23. Every scalar value survives: what the encoder of a field's type writes for a value at
  address \<open>p\<close> (its bytes are those of \<open>spec_value\<close>, which the encoder refines), the decoder of the same
  type reads back, consuming exactly these bytes and storing at \<open>q\<close> a copy of the value's bytes. The types are
  all those but submessages and extensions; strings are zero-terminated inside their member.\<close>
theorem scalar_value_roundtrip:
  assumes "scalar f" and "atype f = PB_ATYPE_STATIC" and "p \<noteq> 0"
    and "spec_value sub env m (PB_ENCODERS ! unat (ltype f)) f p = Some (True, bs)"
    and "ltype f = PB_LTYPE_STRING \<longrightarrow> 0 \<in> set (mem_read m p (unat (f_data_size f)))"
    and "holds bs s"
  shows "call_decoder n rec denv (PB_DECODERS ! unat (ltype f)) f q s =
    Some (True, is_store q (value_bytes m f p) (is_skip (length bs) s))"
  by (rule value_roundtrip [OF assms])

lemma holds_input: "length bs < 2 ^ 64 \<Longrightarrow> holds bs (input_state bs m)"
  by (simp add: holds_def input_state_def pb_istream_from_buffer_def uint_nat unat_of_nat mem_read_write_same)

theorem scalar_value_roundtrip_witness:
  "call_decoder 0 (\<lambda>_ _ _. None) plain_ienv Dec_varint (person_fields ! 0) 500 (input_state [150, 1] (\<lambda>_. 0)) =
    Some (True, is_store 500 [150, 0, 0, 0] (is_skip 2 (input_state [150, 1] (\<lambda>_. 0))))"
proof -
  let ?f = "person_fields ! 0"
  have f: "scalar ?f" "atype ?f = PB_ATYPE_STATIC" "ltype ?f = PB_LTYPE_VARINT" by code_simp+
  have "spec_value (\<lambda>_ _. None) plain_oenv person_mem Enc_varint ?f 100 = Some (True, [150, 1])" by code_simp
  moreover have "value_bytes person_mem ?f 100 = [150, 0, 0, 0]" by code_simp
  moreover have "holds [150, 1] (input_state [150, 1] (\<lambda>_. 0))" by (rule holds_input) simp
  ultimately show ?thesis
    using scalar_value_roundtrip [of ?f 100 "\<lambda>_ _. None" plain_oenv person_mem "[150, 1]" "input_state [150, 1] (\<lambda>_. 0)"
        0 "\<lambda>_ _ _. None" plain_ienv 500] f
    by (simp add: PB_ENCODERS_def PB_DECODERS_def flip: numeral_2_eq_2)
qed

end
