(* ===== verification/Base64.thy ===== *)
theory Base64
  imports Prelude
begin

text \<open>
  The base-64 coder \<^verbatim>\<open>third_party/SocketRocket/fbase64.c\<close> of FirebaseDatabase:
  \<^verbatim>\<open>f_b64_ntop\<close> and \<^verbatim>\<open>f_b64_pton\<close>, with the targets in byte-addressed memory.

  The source of the encoder is the list of its \<^verbatim>\<open>srclength\<close> bytes, the source of the decoder
  the list of characters in front of the terminating zero. Functions that return \<^verbatim>\<open>-1\<close> return
  \<open>-1\<close> as a 32-bit number here. \<^verbatim>\<open>isspace\<close> is that of the C locale.
\<close>

section \<open>The alphabet\<close>

definition Base64 :: "u8 list" where
  "Base64 = map of_char ''ABCDEFGHIJKLMNOPQRSTUVWXYZabcdefghijklmnopqrstuvwxyz0123456789+/''"

definition Pad64 :: u8 where "Pad64 = 61"

definition isspace :: "u8 \<Rightarrow> bool" where
  "isspace c \<longleftrightarrow> c = 32 \<or> 9 \<le> c \<and> c \<le> 13"

text \<open>\<^verbatim>\<open>strchr(Base64, ch) - Base64\<close>.\<close>

fun index_of :: "u8 list \<Rightarrow> u8 \<Rightarrow> nat option" where
  "index_of [] c = None"
| "index_of (x # xs) c = (if x = c then Some 0 else map_option Suc (index_of xs c))"

section \<open>Encoding\<close>

definition output3 :: "u8 \<Rightarrow> u8 \<Rightarrow> u8 \<Rightarrow> u8 list" where
  "output3 i0 i1 i2 =
     [drop_bit 2 i0, push_bit 4 (i0 AND 0x03) + drop_bit 4 i1,
      push_bit 2 (i1 AND 0x0f) + drop_bit 6 i2, i2 AND 0x3f]"

definition b64_char :: "u8 \<Rightarrow> u8" where
  "b64_char v = Base64 ! unat v"

text \<open>The loop over groups of three: what is left of the source and \<^verbatim>\<open>datalength\<close>, or an early return.\<close>

fun ntop_loop :: "u8 list \<Rightarrow> addr \<Rightarrow> u64 \<Rightarrow> u64 \<Rightarrow> mem \<Rightarrow> (u8 list \<times> u64) option \<times> mem" where
  "ntop_loop (i0 # i1 # i2 # src) target targsize datalength m =
     (if datalength + 4 > targsize then (None, m)
      else ntop_loop src target targsize (datalength + 4)
             (mem_write m (target + uint datalength) (map b64_char (output3 i0 i1 i2))))"
| "ntop_loop src target targsize datalength m = (Some (src, datalength), m)"

text \<open>The padded group at the end.\<close>

definition ntop_tail :: "u8 list \<Rightarrow> addr \<Rightarrow> u64 \<Rightarrow> u64 \<Rightarrow> mem \<Rightarrow> u64 option \<times> mem" where
  "ntop_tail src target targsize datalength m =
     (if src = [] then (Some datalength, m)
      else
        let i0 = src ! 0; i1 = (if 1 < length src then src ! 1 else 0); out = output3 i0 i1 0 in
        if datalength + 4 > targsize then (None, m)
        else (Some (datalength + 4),
              mem_write m (target + uint datalength)
                [b64_char (out ! 0), b64_char (out ! 1),
                 if length src = 1 then Pad64 else b64_char (out ! 2), Pad64]))"

definition f_b64_ntop :: "u8 list \<Rightarrow> addr \<Rightarrow> u64 \<Rightarrow> mem \<Rightarrow> u32 \<times> mem" where
  "f_b64_ntop src target targsize m =
     (case ntop_loop src target targsize 0 m of
        (None, m1) \<Rightarrow> (- 1, m1)
      | (Some (rest, datalength), m1) \<Rightarrow>
          (case ntop_tail rest target targsize datalength m1 of
             (None, m2) \<Rightarrow> (- 1, m2)
           | (Some datalength', m2) \<Rightarrow>
               if datalength' \<ge> targsize then (- 1, m2)
               else (ucast datalength', m2(target + uint datalength' := 0))))"

section \<open>Decoding\<close>

text \<open>One character in the four states of the switch; \<open>None\<close> is \<^verbatim>\<open>return (-1)\<close>.\<close>

record pton_state =
  ps_state :: nat
  ps_tarindex :: u32
  ps_mem :: mem

definition pton_step :: "addr \<Rightarrow> u64 \<Rightarrow> u8 \<Rightarrow> pton_state \<Rightarrow> pton_state option" where
  "pton_step target targsize v s =
     (let i = ps_tarindex s; p = target + uint i; q = target + uint (i + 1); m = ps_mem s in
      if ps_state s = 0 then
        if target \<noteq> 0 \<and> ucast i \<ge> targsize then None
        else Some (s\<lparr>ps_mem := if target \<noteq> 0 then m(p := push_bit 2 v) else m, ps_state := 1\<rparr>)
      else if ps_state s = 1 then
        if target \<noteq> 0 \<and> ucast (i + 1) \<ge> targsize then None
        else Some (s\<lparr>ps_mem := if target \<noteq> 0
                       then m(p := m p OR drop_bit 4 v, q := push_bit 4 (v AND 0x0f)) else m,
                     ps_tarindex := i + 1, ps_state := 2\<rparr>)
      else if ps_state s = 2 then
        if target \<noteq> 0 \<and> ucast (i + 1) \<ge> targsize then None
        else Some (s\<lparr>ps_mem := if target \<noteq> 0
                       then m(p := m p OR drop_bit 2 v, q := push_bit 6 (v AND 0x03)) else m,
                     ps_tarindex := i + 1, ps_state := 3\<rparr>)
      else
        if target \<noteq> 0 \<and> ucast i \<ge> targsize then None
        else Some (s\<lparr>ps_mem := if target \<noteq> 0 then m(p := m p OR v) else m,
                     ps_tarindex := i + 1, ps_state := 0\<rparr>))"

text \<open>
  The loop over the characters. It ends with the state, whether it stopped at a pad character
  and the characters behind it, or with \<open>Inl\<close> of the memory at \<^verbatim>\<open>return (-1)\<close>.
\<close>

fun pton_loop :: "addr \<Rightarrow> u64 \<Rightarrow> u8 list \<Rightarrow> pton_state \<Rightarrow> mem + (bool \<times> u8 list \<times> pton_state)" where
  "pton_loop target targsize [] s = Inr (False, [], s)"
| "pton_loop target targsize (ch # src) s =
     (if isspace ch then pton_loop target targsize src s
      else if ch = Pad64 then Inr (True, src, s)
      else case index_of Base64 ch of
             None \<Rightarrow> Inl (ps_mem s)
           | Some pos \<Rightarrow>
               (case pton_step target targsize (of_nat pos) s of
                  None \<Rightarrow> Inl (ps_mem s)
                | Some s' \<Rightarrow> pton_loop target targsize src s'))"

text \<open>
  What may follow the first pad character: nothing but white space, after a second pad
  character in state 2.
\<close>

fun pton_trailer :: "nat \<Rightarrow> u8 list \<Rightarrow> bool" where
  "pton_trailer st src =
     (if st = 2
      then (case dropWhile isspace src of
              [] \<Rightarrow> False
            | ch # src' \<Rightarrow> ch = Pad64 \<and> list_all isspace src')
      else st = 3 \<and> list_all isspace src)"

definition f_b64_pton :: "u8 list \<Rightarrow> addr \<Rightarrow> u64 \<Rightarrow> mem \<Rightarrow> u32 \<times> mem" where
  "f_b64_pton src target targsize m =
     (case pton_loop target targsize src \<lparr>ps_state = 0, ps_tarindex = 0, ps_mem = m\<rparr> of
        Inl m' \<Rightarrow> (- 1, m')
      | Inr (padded, rest, s) \<Rightarrow>
          if padded then
            if \<not> pton_trailer (ps_state s) rest then (- 1, ps_mem s)
            else if target \<noteq> 0 \<and> ps_mem s (target + uint (ps_tarindex s)) \<noteq> 0 then (- 1, ps_mem s)
            else (ps_tarindex s, ps_mem s)
          else if ps_state s \<noteq> 0 then (- 1, ps_mem s)
          else (ps_tarindex s, ps_mem s))"

end
