(* ===== verification/Base64_Props.thy ===== *)
theory Base64_Props
  imports Base64
begin

text \<open>
  The base-64 coder against RFC 1521: the encoder writes the characters the RFC's bit-level
  description gives, the decoder inverts it in the presence of white space and accepts no
  other spelling, and neither writes outside its target.
\<close>

section \<open>The RFC as a function on bits\<close>

text \<open>The input as a stream of bits, most significant first, with zero bits behind it.\<close>

definition stream_bit :: "u8 list \<Rightarrow> nat \<Rightarrow> bool" where
  "stream_bit bs i \<longleftrightarrow> i < 8 * length bs \<and> bit (bs ! (i div 8)) (7 - i mod 8)"

definition rfc_sextet :: "u8 list \<Rightarrow> nat \<Rightarrow> nat" where
  "rfc_sextet bs k = (\<Sum>j<6. if stream_bit bs (6 * k + j) then 2 ^ (5 - j) else 0)"

definition rfc_encode :: "u8 list \<Rightarrow> u8 list" where
  "rfc_encode bs = map (\<lambda>k. Base64 ! rfc_sextet bs k) [0..<(8 * length bs + 5) div 6]
     @ replicate ((3 - length bs mod 3) mod 3) Pad64"

section \<open>Groups of six bits\<close>

fun sextets :: "u8 list \<Rightarrow> u8 list" where
  "sextets (a # b # c # r) = output3 a b c @ sextets r"
| "sextets [a, b] = take 3 (output3 a b 0)"
| "sextets [a] = take 2 (output3 a 0 0)"
| "sextets [] = []"

text \<open>The bytes a sequence of six-bit groups stands for, with the incomplete last one.\<close>

fun octets :: "u8 list \<Rightarrow> u8 list" where
  "octets (a # b # c # d # r) =
     [push_bit 2 a OR drop_bit 4 b, push_bit 4 (b AND 0x0f) OR drop_bit 2 c, push_bit 6 (c AND 0x03) OR d]
     @ octets r"
| "octets [a, b, c] = [push_bit 2 a OR drop_bit 4 b, push_bit 4 (b AND 0x0f) OR drop_bit 2 c, push_bit 6 (c AND 0x03)]"
| "octets [a, b] = [push_bit 2 a OR drop_bit 4 b, push_bit 4 (b AND 0x0f)]"
| "octets [a] = [push_bit 2 a]"
| "octets [] = []"

lemma output3_or:
  "output3 a b c = [drop_bit 2 a, push_bit 4 (a AND 0x03) OR drop_bit 4 b,
     push_bit 2 (b AND 0x0f) OR drop_bit 6 c, c AND 0x3f]"
proof -
  have "push_bit 4 (a AND 0x03) AND drop_bit 4 b = 0"
    by (rule u8_eqI) (simp_all add: bit_simps)
  moreover have "push_bit 2 (b AND 0x0f) AND drop_bit 6 c = 0"
    by (rule u8_eqI) (simp_all add: bit_simps)
  ultimately show ?thesis by (simp add: output3_def disjunctive_add_eq_or)
qed

text \<open>Decoding the groups of an encoding, and encoding decoded groups.\<close>

lemma octets_sextets:
  "octets (sextets bs) = bs @ (if length bs mod 3 = 0 then [] else [0])"
proof (induction bs rule: sextets.induct)
  case (1 a b c r)
  have "push_bit 2 (drop_bit 2 a) OR drop_bit 4 (push_bit 4 (a AND 3) OR drop_bit 4 b) = a"
    by (rule u8_eqI) (simp_all add: bit_simps)
  moreover have "push_bit 4 ((push_bit 4 (a AND 3) OR drop_bit 4 b) AND 15) OR
      drop_bit 2 (push_bit 2 (b AND 15) OR drop_bit 6 c) = b"
    by (rule u8_eqI) (simp_all add: bit_simps)
  moreover have "push_bit 6 ((push_bit 2 (b AND 15) OR drop_bit 6 c) AND 3) OR c AND 63 = c"
    by (rule u8_eqI) (simp_all add: bit_simps)
  ultimately show ?case using 1 by (simp add: output3_or mod_Suc)
next
  case (2 a b)
  have "push_bit 2 (drop_bit 2 a) OR drop_bit 4 (push_bit 4 (a AND 3) OR drop_bit 4 b) = a"
    by (rule u8_eqI) (simp_all add: bit_simps)
  moreover have "push_bit 4 ((push_bit 4 (a AND 3) OR drop_bit 4 b) AND 15) OR
      drop_bit 2 (push_bit 2 (b AND 15)) = b"
    by (rule u8_eqI) (simp_all add: bit_simps)
  moreover have "push_bit 6 (push_bit 2 (b AND 15) AND 3) = 0"
    by (rule u8_eqI) (simp_all add: bit_simps)
  ultimately show ?case by (simp add: output3_or)
next
  case (3 a)
  have "push_bit 2 (drop_bit 2 a) OR drop_bit 4 (push_bit 4 (a AND 3)) = a"
    by (rule u8_eqI) (simp_all add: bit_simps)
  moreover have "push_bit 4 (push_bit 4 (a AND 3) AND 15) = 0"
    by (rule u8_eqI) (simp_all add: bit_simps)
  ultimately show ?case by (simp add: output3_or)
qed simp

definition sextet :: "u8 \<Rightarrow> bool" where
  "sextet v \<longleftrightarrow> \<not> bit v 6 \<and> \<not> bit v 7"

lemma sextets_are: "\<forall>v\<in>set (sextets bs). sextet v"
  by (induction bs rule: sextets.induct) (auto simp: output3_or sextet_def bit_simps)

abbreviation tarindex :: "u8 list \<Rightarrow> nat" where
  "tarindex vs \<equiv> 3 * length vs div 4"

lemma length_mod4: "length (a # b # c # d # r) mod 4 = length r mod 4"
proof -
  have "length (a # b # c # d # r) = length r + 4" by simp
  then show ?thesis by (simp only: mod_add_self2)
qed

lemma length_octets: "length (octets vs) = tarindex vs + (if length vs mod 4 = 0 then 0 else 1)"
proof (induction vs rule: octets.induct)
  case (1 a b c d r)
  have "3 * length (a # b # c # d # r) div 4 = 3 + 3 * length r div 4" by simp
  moreover have "length (a # b # c # d # r) mod 4 = length r mod 4" by (rule length_mod4)
  ultimately show ?case using 1 by simp
qed simp_all

lemma sextets_octets:
  assumes "\<forall>v\<in>set vs. sextet v" and "length vs mod 4 \<noteq> 1"
    and "length vs mod 4 \<noteq> 0 \<longrightarrow> octets vs ! tarindex vs = 0"
  shows "sextets (take (tarindex vs) (octets vs)) = vs"
  using assms
proof (induction vs rule: octets.induct)
  case (1 a b c d r)
  have i: "tarindex (a # b # c # d # r) = Suc (Suc (Suc (tarindex r)))" by simp
  have m: "length (a # b # c # d # r) mod 4 = length r mod 4" by (rule length_mod4)
  have v: "sextet a" "sextet b" "sextet c" "sextet d" using 1 by auto
  have "drop_bit 2 (push_bit 2 a OR drop_bit 4 b) = a"
    using v by (intro u8_eqI) (simp_all add: bit_simps sextet_def)
  moreover have "push_bit 4 ((push_bit 2 a OR drop_bit 4 b) AND 3) OR
      drop_bit 4 (push_bit 4 (b AND 15) OR drop_bit 2 c) = b"
    using v by (intro u8_eqI) (simp_all add: bit_simps sextet_def)
  moreover have "push_bit 2 ((push_bit 4 (b AND 15) OR drop_bit 2 c) AND 15) OR
      drop_bit 6 (push_bit 6 (c AND 3) OR d) = c"
    using v by (intro u8_eqI) (simp_all add: bit_simps sextet_def)
  moreover have "(push_bit 6 (c AND 3) OR d) AND 63 = d"
    using v by (intro u8_eqI) (simp_all add: bit_simps sextet_def)
  moreover have "sextets (take (tarindex r) (octets r)) = r"
    using 1 m i by (intro "1.IH") (auto simp: nth_append)
  ultimately show ?case by (simp only: i octets.simps) (simp add: output3_or)
next
  case (2 a b c)
  then have v: "sextet a" "sextet b" "sextet c" and z: "push_bit 6 (c AND 3) = 0" by simp_all
  have c: "\<not> bit c 0" "\<not> bit c 1"
    using arg_cong [OF z, of "\<lambda>x. bit x 6"] arg_cong [OF z, of "\<lambda>x. bit x 7"] by (simp_all add: bit_simps)
  have "drop_bit 2 (push_bit 2 a OR drop_bit 4 b) = a"
    using v by (intro u8_eqI) (simp_all add: bit_simps sextet_def)
  moreover have "push_bit 4 ((push_bit 2 a OR drop_bit 4 b) AND 3) OR
      drop_bit 4 (push_bit 4 (b AND 15) OR drop_bit 2 c) = b"
    using v by (intro u8_eqI) (simp_all add: bit_simps sextet_def)
  moreover have "push_bit 2 ((push_bit 4 (b AND 15) OR drop_bit 2 c) AND 15) = c"
    using v c by (intro u8_eqI) (simp_all add: bit_simps sextet_def)
  ultimately show ?case by (simp add: output3_or)
next
  case (3 a b)
  then have v: "sextet a" "sextet b" and z: "push_bit 4 (b AND 15) = 0" by simp_all
  have b: "\<not> bit b 0" "\<not> bit b 1" "\<not> bit b 2" "\<not> bit b 3"
    using arg_cong [OF z, of "\<lambda>x. bit x 4"] arg_cong [OF z, of "\<lambda>x. bit x 5"]
      arg_cong [OF z, of "\<lambda>x. bit x 6"] arg_cong [OF z, of "\<lambda>x. bit x 7"] by (simp_all add: bit_simps)
  have "drop_bit 2 (push_bit 2 a OR drop_bit 4 b) = a"
    using v by (intro u8_eqI) (simp_all add: bit_simps sextet_def)
  moreover have "push_bit 4 ((push_bit 2 a OR drop_bit 4 b) AND 3) = b"
    using v b by (intro u8_eqI) (simp_all add: bit_simps sextet_def)
  ultimately show ?case by (simp add: output3_or)
qed simp_all

text \<open>How one more group changes the bytes.\<close>

lemma octets_snoc:
  "octets (vs @ [v]) =
     (if length vs mod 4 = 0 then octets vs @ [push_bit 2 v]
      else if length vs mod 4 = 1
      then (octets vs)[tarindex vs := octets vs ! tarindex vs OR drop_bit 4 v] @ [push_bit 4 (v AND 0x0f)]
      else if length vs mod 4 = 2
      then (octets vs)[tarindex vs := octets vs ! tarindex vs OR drop_bit 2 v] @ [push_bit 6 (v AND 0x03)]
      else (octets vs)[tarindex vs := octets vs ! tarindex vs OR v])"
proof (induction vs rule: octets.induct)
  case (1 a b c d r)
  have i: "tarindex (a # b # c # d # r) = Suc (Suc (Suc (tarindex r)))" by simp
  have m: "length (a # b # c # d # r) mod 4 = length r mod 4" by (rule length_mod4)
  show ?case unfolding m i using "1" by (simp add: nth_append del: list.size)
qed simp_all

section \<open>The decoder's loop\<close>

text \<open>The state after the groups \<open>vs\<close>, and the room it needs.\<close>

definition pton_at :: "addr \<Rightarrow> mem \<Rightarrow> u8 list \<Rightarrow> pton_state" where
  "pton_at t m vs = \<lparr>ps_state = length vs mod 4, ps_tarindex = of_nat (tarindex vs),
     ps_mem = if t = 0 then m else mem_write m t (octets vs)\<rparr>"

definition room :: "addr \<Rightarrow> u64 \<Rightarrow> u8 list \<Rightarrow> bool" where
  "room t targsize vs \<longleftrightarrow> t = 0 \<or> length (octets vs) \<le> unat targsize"

lemma index_le_iff: "i < 2 ^ 32 \<Longrightarrow> targsize \<le> ucast (of_nat i :: u32) \<longleftrightarrow> unat targsize \<le> i" for targsize :: u64
  by (simp add: word_le_nat_alt unsigned_ucast_eq unat_of_nat take_bit_nat_eq_self)

lemma tarindex_snoc: "tarindex (vs @ [v]) = (if length vs mod 4 = 0 then tarindex vs else Suc (tarindex vs))"
  by simp presburger

lemma pton_step_at:
  assumes "length vs < 2 ^ 32"
  shows "pton_step t targsize v (pton_at t m vs) =
    (if room t targsize (vs @ [v]) then Some (pton_at t m (vs @ [v])) else None)"
proof -
  let ?i = "tarindex vs" and ?n = "length vs mod 4"
  define j :: u32 where "j = of_nat ?i"
  have i: "Suc ?i < 2 ^ 32" using assms by simp
  have j: "of_nat ?i = j" "of_nat (Suc ?i) = j + 1" by (simp_all add: j_def)
  have u: "uint j = int ?i" "uint (j + 1) = int (Suc ?i)"
    using i by (simp_all add: j_def uint_word_ariths unsigned_of_nat take_bit_nat_eq_self)
  have le: "targsize \<le> ucast j \<longleftrightarrow> unat targsize \<le> ?i" "targsize \<le> ucast (j + 1) \<longleftrightarrow> unat targsize \<le> Suc ?i"
    using i index_le_iff [of ?i targsize] index_le_iff [of "Suc ?i" targsize] unfolding j by auto
  have len: "length (octets vs) = (if ?n = 0 then ?i else Suc ?i)" by (simp add: length_octets)
  have wr: "mem_write m t (octets vs) (t + int ?i) = octets vs ! ?i" if "?n \<noteq> 0"
    using len that by (intro mem_write_inside) auto
  have len': "length (octets (vs @ [v])) = (if ?n = 0 \<or> ?n = 3 then Suc ?i else Suc (Suc ?i))"
  proof -
    have "?n = 0 \<or> ?n = 1 \<or> ?n = 2 \<or> ?n = 3" by presburger
    then show ?thesis by (elim disjE) (simp_all add: octets_snoc len)
  qed
  have st: "length (vs @ [v]) mod 4 = (if ?n = 3 then 0 else Suc ?n)"
    by simp presburger
  have "?n = 0 \<or> ?n = 1 \<or> ?n = 2 \<or> ?n = 3" by presburger
  then show ?thesis
  proof (elim disjE)
    assume n: "?n = 0"
    show ?thesis
      unfolding pton_at_def room_def len' octets_snoc tarindex_snoc st
      using n u le len mem_write_snoc [of m t "octets vs"]
      by (auto simp: pton_step_def Let_def j simp del: of_nat_Suc)
  next
    assume n: "?n = 1"
    show ?thesis
      unfolding pton_at_def room_def len' octets_snoc tarindex_snoc st
      using n u le len wr mem_write_update [of ?i "octets vs" m t]
        mem_write_snoc [of m t "(octets vs)[?i := octets vs ! ?i OR drop_bit 4 v]"]
      by (auto simp: pton_step_def Let_def j simp del: of_nat_Suc)
  next
    assume n: "?n = 2"
    show ?thesis
      unfolding pton_at_def room_def len' octets_snoc tarindex_snoc st
      using n u le len wr mem_write_update [of ?i "octets vs" m t]
        mem_write_snoc [of m t "(octets vs)[?i := octets vs ! ?i OR drop_bit 2 v]"]
      by (auto simp: pton_step_def Let_def j simp del: of_nat_Suc)
  next
    assume n: "?n = 3"
    show ?thesis
      unfolding pton_at_def room_def len' octets_snoc tarindex_snoc st
      using n u le len wr mem_write_update [of ?i "octets vs" m t]
      by (auto simp: pton_step_def Let_def j simp del: of_nat_Suc)
  qed
qed

section \<open>The alphabet\<close>

lemma length_Base64: "length Base64 = 64"
  by (simp add: Base64_def)

lemma Base64_codes:
  "Base64 =
    [65, 66, 67, 68, 69, 70, 71, 72, 73, 74, 75, 76, 77, 78, 79, 80, 81, 82, 83, 84, 85, 86,
     87, 88, 89, 90, 97, 98, 99, 100, 101, 102, 103, 104, 105, 106, 107, 108, 109, 110, 111,
     112, 113, 114, 115, 116, 117, 118, 119, 120, 121, 122, 48, 49, 50, 51, 52, 53, 54, 55, 56,
     57, 43, 47]"
  by (simp add: Base64_def)

lemma Base64_distinct: "distinct Base64"
  unfolding Base64_codes by simp

lemma Base64_plain: "c \<in> set Base64 \<Longrightarrow> \<not> isspace c \<and> c \<noteq> Pad64"
  unfolding Base64_codes by (auto simp: isspace_def Pad64_def)

lemma index_of_Some: "index_of xs c = Some i \<Longrightarrow> i < length xs \<and> xs ! i = c"
  by (induction xs arbitrary: i) (auto split: if_splits)

lemma index_of_nth: "distinct xs \<Longrightarrow> i < length xs \<Longrightarrow> index_of xs (xs ! i) = Some i"
  by (induction xs arbitrary: i) (auto simp: nth_Cons split: nat.splits)

lemma Base64_index:
  "i < 64 \<Longrightarrow> index_of Base64 (Base64 ! i) = Some i \<and> \<not> isspace (Base64 ! i) \<and> Base64 ! i \<noteq> Pad64"
  using index_of_nth [OF Base64_distinct, of i] Base64_plain [of "Base64 ! i"] nth_mem [of i Base64]
  by (simp add: length_Base64)

lemma sextet_unat: "sextet v \<Longrightarrow> unat v < 64"
proof -
  assume "sextet v"
  then have "take_bit 6 v = v" by (intro u8_eqI) (simp_all add: bit_simps sextet_def)
  then have "take_bit 6 (unat v) = unat v" by (metis unsigned_take_bit_eq)
  then show ?thesis using take_bit_nat_less_exp [of 6 "unat v"] by simp
qed

lemma sextet_of_nat: "i < 64 \<Longrightarrow> sextet (of_nat i) \<and> unat (of_nat i :: u8) = i"
proof -
  assume i: "i < 64"
  have "drop_bit 6 i = 0" "drop_bit 7 i = 0" using i by (simp_all add: drop_bit_eq_div)
  then have "\<not> bit i 6" "\<not> bit i 7" by (simp_all add: bit_iff_odd_drop_bit)
  then show ?thesis using i by (simp add: sextet_def bit_simps unat_of_nat)
qed

lemma b64_char_index:
  "sextet v \<Longrightarrow> index_of Base64 (b64_char v) = Some (unat v) \<and> \<not> isspace (b64_char v) \<and> b64_char v \<noteq> Pad64"
  using Base64_index [OF sextet_unat] by (simp add: b64_char_def)

lemma index_b64_char: "index_of Base64 c = Some i \<Longrightarrow> sextet (of_nat i) \<and> b64_char (of_nat i) = c"
  using index_of_Some [of Base64 c i] sextet_of_nat [of i] by (auto simp: b64_char_def length_Base64)

section \<open>The characters of an input\<close>

text \<open>The groups in front of the first pad character, whether there is one, and what follows.\<close>

fun scan :: "u8 list \<Rightarrow> (u8 list \<times> bool \<times> u8 list) option" where
  "scan [] = Some ([], False, [])"
| "scan (c # src) =
     (if isspace c then scan src
      else if c = Pad64 then Some ([], True, src)
      else case index_of Base64 c of
             None \<Rightarrow> None
           | Some pos \<Rightarrow> map_option (\<lambda>(vs, r). (of_nat pos # vs, r)) (scan src))"

abbreviation nospace :: "u8 list \<Rightarrow> u8 list" where
  "nospace \<equiv> filter (\<lambda>c. \<not> isspace c)"

lemma scan_sound:
  "scan src = Some (vs, padded, rest) \<Longrightarrow>
   (\<forall>v\<in>set vs. sextet v) \<and> length vs \<le> length src \<and>
   nospace src = map b64_char vs @ (if padded then Pad64 # nospace rest else []) \<and> (\<not> padded \<longrightarrow> rest = [])"
proof (induction src arbitrary: vs)
  case (Cons c src)
  have "isspace Pad64 = False" by (simp add: isspace_def Pad64_def)
  with Cons index_b64_char [of c] show ?case
    by (auto split: if_splits option.splits)
qed auto

lemma scan_complete:
  assumes "nospace src = map b64_char vs @ pads" "\<forall>v\<in>set vs. sextet v" "\<forall>c\<in>set pads. c = Pad64"
  shows "\<exists>rest. scan src = Some (vs, pads \<noteq> [], rest) \<and> nospace rest = tl pads"
  using assms
proof (induction src arbitrary: vs)
  case (Cons c src)
  show ?case
  proof (cases "isspace c")
    case True
    with Cons show ?thesis by simp
  next
    case False
    show ?thesis
    proof (cases vs)
      case Nil
      with False Cons show ?thesis by auto
    next
      case (Cons v ws)
      with False Cons.prems have c: "c = b64_char v" "sextet v" "nospace src = map b64_char ws @ pads"
        "\<forall>v\<in>set ws. sextet v" by auto
      with Cons.IH [OF c(3,4) Cons.prems(3)] b64_char_index [of v] Cons show ?thesis by auto
    qed
  qed
qed auto

lemma room_mono: "room t targsize (vs @ ws) \<Longrightarrow> room t targsize vs"
proof (induction ws rule: rev_induct)
  case (snoc w ws)
  have "length (octets (vs @ ws)) \<le> length (octets ((vs @ ws) @ [w]))"
    by (subst octets_snoc) (simp del: append_assoc)
  with snoc show ?case by (auto simp: room_def)
qed simp

lemma pton_loop_at:
  assumes "length vs + length src < 2 ^ 32" "room t targsize vs"
  shows "pton_loop t targsize src (pton_at t m vs) = Inr (padded, rest, s) \<longleftrightarrow>
    (\<exists>ws. scan src = Some (ws, padded, rest) \<and> room t targsize (vs @ ws) \<and> s = pton_at t m (vs @ ws))"
  using assms
proof (induction src arbitrary: vs)
  case (Cons c src)
  note step = pton_step_at [of vs t targsize _ m]
  show ?case
  proof (cases "isspace c \<or> c = Pad64 \<or> index_of Base64 c = None")
    case True
    with Cons show ?thesis by auto
  next
    case False
    then obtain pos where p: "\<not> isspace c" "c \<noteq> Pad64" "index_of Base64 c = Some pos" by auto
    have l: "length vs < 2 ^ 32" "length (vs @ [of_nat pos]) + length src < 2 ^ 32" using Cons.prems(1) by auto
    show ?thesis
    proof (cases "room t targsize (vs @ [of_nat pos])")
      case True
      with p step [OF l(1), of "of_nat pos"] Cons.IH [OF l(2) True] show ?thesis by auto
    next
      case False
      then have "\<not> room t targsize (vs @ of_nat pos # ws)" for ws
        using room_mono [of t targsize "vs @ [of_nat pos]" ws] by auto
      with False p step [OF l(1), of "of_nat pos"] show ?thesis by auto
    qed
  qed
qed auto

section \<open>The encoder against the RFC\<close>

lemma length_sextets: "length (sextets bs) = (8 * length bs + 5) div 6"
  by (induction bs rule: sextets.induct) (simp_all add: output3_def)

lemma stream_bit_shift: "stream_bit (a # b # c # r) (24 + i) = stream_bit r i"
proof -
  have "(24 + i) div 8 = Suc (Suc (Suc (i div 8)))" "(24 + i) mod 8 = i mod 8" by presburger+
  then show ?thesis by (simp add: stream_bit_def)
qed

lemma six_bits:
  "unat v = (\<Sum>j<6. if bit v (5 - j) then 2 ^ (5 - j) else 0)" if "sextet v"
proof -
  have "take_bit 6 (unat v) = unat v" using sextet_unat [OF that] by (simp add: take_bit_nat_eq_self)
  then have "horner_sum of_bool 2 (map (bit (unat v)) [0..<6]) = unat v"
    by (simp only: horner_sum_bit_eq_take_bit)
  moreover have "bit (unat v) = bit v" by (rule ext) (simp add: bit_unsigned_iff)
  ultimately have "unat v = horner_sum of_bool 2 (map (bit v) [0..<6])" by simp
  then show ?thesis by (simp add: horner_sum_simps numeral_eq_Suc lessThan_Suc)
qed

lemma sextets_bits: "k < length (sextets bs) \<Longrightarrow> j < 6 \<Longrightarrow> bit (sextets bs ! k) (5 - j) = stream_bit bs (6 * k + j)"
proof (induction bs arbitrary: k rule: sextets.induct)
  case (1 a b c r)
  have j: "j = 0 \<or> j = 1 \<or> j = 2 \<or> j = 3 \<or> j = 4 \<or> j = 5" using 1(3) by presburger
  show ?case
  proof (cases "k < 4")
    case True
    then have "k = 0 \<or> k = 1 \<or> k = 2 \<or> k = 3" by presburger
    with j show ?thesis by (elim disjE) (simp_all add: output3_or stream_bit_def bit_simps)
  next
    case False
    then obtain k' where k: "k = 4 + k'" by (metis le_Suc_ex not_less)
    then have "k' < length (sextets r)" using 1(2) by (simp add: output3_or)
    from 1(1) [OF this 1(3)] stream_bit_shift [of a b c r "6 * k' + j"] show ?thesis
      by (simp add: k output3_or algebra_simps)
  qed
next
  case (2 a b)
  then have "k = 0 \<or> k = 1 \<or> k = 2" by (simp add: output3_or) presburger
  moreover have "j = 0 \<or> j = 1 \<or> j = 2 \<or> j = 3 \<or> j = 4 \<or> j = 5" using 2(2) by presburger
  ultimately show ?case by (elim disjE) (simp_all add: output3_or stream_bit_def bit_simps)
next
  case (3 a)
  then have "k = 0 \<or> k = 1" by (simp add: output3_or) presburger
  moreover have "j = 0 \<or> j = 1 \<or> j = 2 \<or> j = 3 \<or> j = 4 \<or> j = 5" using 3(2) by presburger
  ultimately show ?case by (elim disjE) (simp_all add: output3_or stream_bit_def bit_simps)
qed simp

lemma sextets_rfc: "k < length (sextets bs) \<Longrightarrow> unat (sextets bs ! k) = rfc_sextet bs k"
proof -
  assume k: "k < length (sextets bs)"
  then have "sextet (sextets bs ! k)" using sextets_are nth_mem by blast
  then show ?thesis unfolding rfc_sextet_def six_bits [OF \<open>sextet (sextets bs ! k)\<close>]
    by (intro sum.cong) (simp_all add: sextets_bits [OF k])
qed

lemma rfc_encode_sextets:
  "rfc_encode bs = map b64_char (sextets bs) @ replicate ((3 - length bs mod 3) mod 3) Pad64"
proof -
  have "map (\<lambda>k. Base64 ! rfc_sextet bs k) [0..<length (sextets bs)] = map b64_char (sextets bs)"
    by (rule nth_equalityI) (simp_all add: b64_char_def sextets_rfc)
  then show ?thesis by (simp add: rfc_encode_def length_sextets)
qed

text \<open>The loop and the padded group together.\<close>

definition ntop_body :: "u8 list \<Rightarrow> addr \<Rightarrow> u64 \<Rightarrow> u64 \<Rightarrow> mem \<Rightarrow> u64 option \<times> mem" where
  "ntop_body src t targsize dl m =
     (case ntop_loop src t targsize dl m of
        (None, m1) \<Rightarrow> (None, m1)
      | (Some (rest, dl'), m1) \<Rightarrow> ntop_tail rest t targsize dl' m1)"

lemma ntop_by_body:
  "f_b64_ntop src t targsize m =
     (case ntop_body src t targsize 0 m of
        (None, m2) \<Rightarrow> (- 1, m2)
      | (Some dl, m2) \<Rightarrow> if dl \<ge> targsize then (- 1, m2) else (ucast dl, m2(t + uint dl := 0)))"
  by (auto simp: f_b64_ntop_def ntop_body_def split: option.splits prod.splits)

lemma rfc_encode_group: "rfc_encode (a # b # c # r) = map b64_char (output3 a b c) @ rfc_encode r"
proof -
  have "length (a # b # c # r) mod 3 = length r mod 3"
  proof -
    have "length (a # b # c # r) = length r + 3" by simp
    then show ?thesis by (simp only: mod_add_self2)
  qed
  then show ?thesis unfolding rfc_encode_sextets by (simp del: list.size)
qed

lemma add4:
  fixes dl :: u64
  assumes "unat dl + 4 < 2 ^ 64"
  shows "unat (dl + 4) = unat dl + 4" "uint (dl + 4) = uint dl + 4"
    "dl + 4 > targsize \<longleftrightarrow> unat targsize < unat dl + 4"
proof -
  show u: "unat (dl + 4) = unat dl + 4" using assms by (simp add: unat_word_ariths)
  then show "uint (dl + 4) = uint dl + 4"
    using uint_nat [of "dl + 4"] uint_nat [of dl] by linarith
  show "dl + 4 > targsize \<longleftrightarrow> unat targsize < unat dl + 4" by (simp add: word_less_nat_alt u)
qed

lemma ntop_body_rfc:
  assumes "unat dl + length (rfc_encode src) < 2 ^ 64"
  shows "if unat dl + length (rfc_encode src) \<le> unat targsize \<or> src = []
    then ntop_body src t targsize dl m =
      (Some (dl + of_nat (length (rfc_encode src))), mem_write m (t + uint dl) (rfc_encode src))
    else fst (ntop_body src t targsize dl m) = None"
  using assms
proof (induction src t targsize dl m rule: ntop_loop.induct [case_names group none one two])
  case (group a b c src t targsize dl m)
  let ?g = "map b64_char (output3 a b c)"
  let ?m = "mem_write m (t + uint dl) ?g"
  have g: "length ?g = 4" by (simp add: output3_def)
  have len: "length (rfc_encode (a # b # c # src)) = 4 + length (rfc_encode src)"
    by (simp add: rfc_encode_group output3_def)
  have a4: "unat dl + 4 < 2 ^ 64" using group.prems len by simp
  note a = add4(1,2) [OF a4] add4(3) [OF a4, of targsize]
  have nil: "rfc_encode [] = []" by (simp add: rfc_encode_sextets)
  show ?case
  proof (cases "dl + 4 > targsize")
    case True
    then show ?thesis using a(3) len by (auto simp: ntop_body_def)
  next
    case False
    then have body: "ntop_body (a # b # c # src) t targsize dl m = ntop_body src t targsize (dl + 4) ?m"
      by (simp add: ntop_body_def)
    have mw: "mem_write ?m (t + (uint dl + 4)) xs = mem_write m (t + uint dl) (?g @ xs)" for xs
      using mem_write_append [of m "t + uint dl" ?g xs] g by (simp add: algebra_simps)
    have "unat (dl + 4) + length (rfc_encode src) < 2 ^ 64" using a(1) group.prems len by simp
    from group.IH [OF False this] False a len mw show ?thesis
      unfolding body rfc_encode_group by (auto simp: algebra_simps nil split: if_splits)
  qed
next
  case (none t targsize dl m)
  then show ?case by (simp add: ntop_body_def ntop_tail_def rfc_encode_sextets)
next
  case (one a t targsize dl m)
  have "length (rfc_encode [a]) = 4" by (simp add: rfc_encode_sextets output3_def)
  with one add4(3) [of dl targsize] show ?case
    by (auto simp: ntop_body_def ntop_tail_def rfc_encode_sextets output3_def Let_def numeral_2_eq_2)
next
  case (two a b t targsize dl m)
  have "length (rfc_encode [a, b]) = 4" by (simp add: rfc_encode_sextets output3_def)
  with two add4(3) [of dl targsize] show ?case
    by (auto simp: ntop_body_def ntop_tail_def rfc_encode_sextets output3_def Let_def numeral_2_eq_2)
qed

section \<open>Targets\<close>

definition same_beyond :: "addr \<Rightarrow> u64 \<Rightarrow> mem \<Rightarrow> mem \<Rightarrow> bool" where
  "same_beyond t targsize m m' \<longleftrightarrow> (\<forall>x. x < t \<or> t + uint targsize \<le> x \<longrightarrow> m' x = m x)"

lemma same_beyond_refl [simp]: "same_beyond t ts m m"
  by (simp add: same_beyond_def)

lemma same_beyond_trans: "same_beyond t ts m m' \<Longrightarrow> same_beyond t ts m' m'' \<Longrightarrow> same_beyond t ts m m''"
  by (simp add: same_beyond_def)

lemma same_beyond_write:
  "0 \<le> i \<Longrightarrow> i + int (length xs) \<le> uint ts \<Longrightarrow> same_beyond t ts m (mem_write m (t + i) xs)"
  by (auto simp: same_beyond_def mem_write_def)

lemma ntop_body_beyond:
  "unat dl + length (rfc_encode src) < 2 ^ 64 \<Longrightarrow> same_beyond t targsize m (snd (ntop_body src t targsize dl m))"
proof (induction src t targsize dl m rule: ntop_loop.induct [case_names group none one two])
  case (group a b c src t targsize dl m)
  let ?g = "map b64_char (output3 a b c)"
  let ?m = "mem_write m (t + uint dl) ?g"
  have g: "length ?g = 4" by (simp add: output3_def)
  have len: "length (rfc_encode (a # b # c # src)) = 4 + length (rfc_encode src)"
    by (simp add: rfc_encode_group output3_def)
  have a4: "unat dl + 4 < 2 ^ 64" using group.prems len by simp
  note a = add4(1,2) [OF a4] add4(3) [OF a4, of targsize]
  show ?case
  proof (cases "dl + 4 > targsize")
    case True
    then show ?thesis by (simp add: ntop_body_def same_beyond_def)
  next
    case False
    have "unat (dl + 4) + length (rfc_encode src) < 2 ^ 64" using a(1) group.prems len by simp
    from group.IH [OF False this] have "same_beyond t targsize ?m (snd (ntop_body src t targsize (dl + 4) ?m))" .
    moreover have "same_beyond t targsize m ?m"
      using False a g by (intro same_beyond_write) (simp_all add: word_less_def not_less)
    ultimately show ?thesis using False by (auto simp: ntop_body_def intro: same_beyond_trans)
  qed
next
  case (none t targsize dl m)
  then show ?case by (simp add: ntop_body_def ntop_tail_def same_beyond_def)
next
  case (one a t targsize dl m)
  have a4: "unat dl + 4 < 2 ^ 64" using one by (simp add: rfc_encode_sextets output3_def)
  show ?case
    using add4(2) [OF a4]
    by (auto simp: ntop_body_def ntop_tail_def Let_def not_less word_le_def intro!: same_beyond_write)
next
  case (two a b t targsize dl m)
  have a4: "unat dl + 4 < 2 ^ 64" using two by (simp add: rfc_encode_sextets output3_def)
  show ?case
    using add4(2) [OF a4]
    by (auto simp: ntop_body_def ntop_tail_def Let_def not_less word_le_def intro!: same_beyond_write)
qed

text \<open>The decoder: an index that was written once is below the limit in the states 1 to 3.\<close>

definition pton_inv :: "addr \<Rightarrow> u64 \<Rightarrow> mem \<Rightarrow> pton_state \<Rightarrow> bool" where
  "pton_inv t ts m s \<longleftrightarrow> same_beyond t ts m (ps_mem s)
     \<and> (t \<noteq> 0 \<longrightarrow> ps_state s \<noteq> 0 \<longrightarrow> uint (ps_tarindex s) < uint ts)"

lemma pton_step_inv: "pton_inv t ts m s \<Longrightarrow> pton_step t ts v s = Some s' \<Longrightarrow> pton_inv t ts m s'"
proof -
  assume s: "pton_inv t ts m s" "pton_step t ts v s = Some s'"
  have u: "uint (ucast (i :: u32) :: u64) = uint i" for i
    by (simp add: unsigned_ucast_eq take_bit_int_eq_self order_less_trans [OF uint_lt2p])
  have "0 \<le> uint (i :: u32)" for i by simp
  with s show "pton_inv t ts m s'"
    by (auto simp: pton_step_def pton_inv_def same_beyond_def Let_def word_le_def not_le u split: if_splits)
qed

lemma pton_loop_beyond:
  "pton_inv t ts m s \<Longrightarrow>
   (case pton_loop t ts src s of Inl m' \<Rightarrow> same_beyond t ts m m' | Inr (b, r, s') \<Rightarrow> pton_inv t ts m s')"
proof (induction src arbitrary: s)
  case (Cons c src)
  then show ?case
    using pton_step_inv [OF Cons.prems] by (auto simp: pton_inv_def split: option.splits)
qed simp

section \<open>Accepted inputs\<close>

lemma pton_accepts:
  assumes "length src < 2 ^ 32"
  shows "f_b64_pton src t ts m = (r, m') \<and> r \<noteq> - 1 \<longleftrightarrow>
    (\<exists>vs padded rest. scan src = Some (vs, padded, rest) \<and> room t ts vs
       \<and> (if padded then pton_trailer (length vs mod 4) rest \<and> (t \<noteq> 0 \<longrightarrow> octets vs ! tarindex vs = 0)
          else length vs mod 4 = 0)
       \<and> r = of_nat (tarindex vs) \<and> m' = (if t = 0 then m else mem_write m t (octets vs)))"
proof -
  have init: "\<lparr>ps_state = 0, ps_tarindex = 0, ps_mem = m\<rparr> = pton_at t m []" by (simp add: pton_at_def)
  have loop: "pton_loop t ts src (pton_at t m []) = Inr (padded, rest, s) \<longleftrightarrow>
      (\<exists>ws. scan src = Some (ws, padded, rest) \<and> room t ts ws \<and> s = pton_at t m ws)" for padded rest s
    using pton_loop_at [of "[]" src t ts m padded rest s] assms by (simp add: room_def)
  have idx: "(of_nat (tarindex vs) :: u32) \<noteq> - 1" "uint (of_nat (tarindex vs) :: u32) = int (tarindex vs)"
    if "scan src = Some (vs, padded, rest)" for vs padded rest
  proof -
    have i: "tarindex vs < 2 ^ 32 - 1" using scan_sound [OF that] assms by auto
    then show "uint (of_nat (tarindex vs) :: u32) = int (tarindex vs)"
      by (simp add: unsigned_of_nat take_bit_nat_eq_self)
    then have "uint (of_nat (tarindex vs) :: u32) < 2 ^ 32 - 1" using i by simp
    moreover have "uint (- 1 :: u32) = 2 ^ 32 - 1" by (simp add: unsigned_minus_1_eq_mask mask_eq_exp_minus_1)
    ultimately show "(of_nat (tarindex vs) :: u32) \<noteq> - 1" by force
  qed
  have at: "mem_write m t (octets vs) (t + int (tarindex vs)) = octets vs ! tarindex vs"
    if "length vs mod 4 \<noteq> 0" for vs
    using that length_octets [of vs] by (intro mem_write_inside) auto
  have tr: "pton_trailer 0 rest = False" for rest by simp
  show ?thesis
  proof (cases "pton_loop t ts src (pton_at t m [])")
    case (Inl m1)
    then have "\<not> (\<exists>vs padded rest. scan src = Some (vs, padded, rest) \<and> room t ts vs)"
      using loop by fastforce
    with Inl show ?thesis by (auto simp: f_b64_pton_def init)
  next
    case (Inr y)
    then obtain padded rest s where y: "pton_loop t ts src (pton_at t m []) = Inr (padded, rest, s)"
      by (cases y) auto
    then obtain vs where vs: "scan src = Some (vs, padded, rest)" "room t ts vs" "s = pton_at t m vs"
      using loop by blast
    show ?thesis
      using y vs idx [OF vs(1)] at [of vs] tr
      by (cases "length vs mod 4 = 0") (auto simp: f_b64_pton_def init pton_at_def simp del: pton_trailer.simps)
  qed
qed

lemma nospace_dropWhile: "nospace xs = c # cs \<longleftrightarrow> (\<exists>ys. dropWhile isspace xs = c # ys \<and> nospace ys = cs \<and> \<not> isspace c)"
  by (induction xs) auto

lemma nospace_Nil: "nospace xs = [] \<longleftrightarrow> list_all isspace xs"
  by (induction xs) auto

lemma pad_not_space [simp]: "\<not> isspace Pad64"
  by (simp add: isspace_def Pad64_def)

lemma trailer_iff:
  "pton_trailer st rest \<longleftrightarrow> (st = 2 \<and> nospace rest = [Pad64]) \<or> (st = 3 \<and> nospace rest = [])"
  by (auto simp: nospace_dropWhile nospace_Nil simp del: dropWhile_eq_Nil_conv split: list.splits)

lemma replicate_2: "(if True then c # [c] else []) = replicate 2 c" and replicate_1: "(if True then [c] else []) = replicate 1 c"
  by (simp_all add: numeral_2_eq_2)

lemma sextets_counts:
  "length (sextets bs) mod 4 = (if length bs mod 3 = 0 then 0 else Suc (length bs mod 3))"
  "tarindex (sextets bs) = length bs"
proof (induction bs rule: sextets.induct)
  case (1 a b c r)
  have 4: "length (sextets (a # b # c # r)) = length (sextets r) + 4" and 3: "length (a # b # c # r) = length r + 3"
    by (simp_all add: output3_def)
  { case 1 show ?case unfolding 3 4 mod_add_self2 by (rule "1.IH") }
  { case 2 show ?case unfolding 3 4 using "1.IH"(2) by simp }
qed (simp_all add: output3_def)

lemma pads_of_tarindex:
  assumes "k = 0 \<and> p = 0 \<or> k = 2 \<and> p = 2 \<or> k = 3 \<and> p = 1" and "length vs mod 4 = k"
  shows "(3 - tarindex vs mod 3) mod 3 = p"
proof -
  let ?q = "length vs div 4"
  have "3 * length vs = 4 * (3 * ?q) + 3 * k" using assms(2) mult_div_mod_eq [of 4 "length vs"] by linarith
  then have "tarindex vs = 3 * ?q + (3 * k) div 4" by simp
  then have "tarindex vs mod 3 = (3 * k) div 4 mod 3" by simp
  with assms(1) show ?thesis by (elim disjE) simp_all
qed

section \<open>Properties\<close>

text \<open>C19. The encoder writes the encoding that RFC 1521 describes bit by bit, followed by a zero
  character, and returns its length, exactly when the target has room for both; otherwise it
  returns -1.\<close>

theorem b64_encoder_follows_rfc:
  assumes "length (rfc_encode src) < 2 ^ 31"
  shows "if length (rfc_encode src) < unat targsize
    then f_b64_ntop src target targsize m = (of_nat (length (rfc_encode src)), mem_write m target (rfc_encode src @ [0]))
    else fst (f_b64_ntop src target targsize m) = - 1"
proof -
  let ?n = "length (rfc_encode src)"
  have n: "unat (of_nat ?n :: u64) = ?n" "uint (of_nat ?n :: u64) = int ?n"
    using assms by (simp_all add: unsigned_of_nat take_bit_nat_eq_self)
  have c: "ucast (of_nat ?n :: u64) = (of_nat ?n :: u32)"
    using assms by (simp add: word_unat_eq_iff unsigned_ucast_eq unat_of_nat take_bit_nat_eq_self)
  have le: "targsize \<le> of_nat ?n \<longleftrightarrow> \<not> ?n < unat targsize" by (simp add: word_le_nat_alt n(1) not_less)
  have nil: "src = [] \<Longrightarrow> ?n = 0" by (simp add: rfc_encode_sextets)
  from ntop_body_rfc [of 0 src targsize target m] assms
  have "if ?n \<le> unat targsize \<or> src = []
    then ntop_body src target targsize 0 m = (Some (of_nat ?n), mem_write m target (rfc_encode src))
    else fst (ntop_body src target targsize 0 m) = None" by simp
  then show ?thesis
    unfolding ntop_by_body using n c le mem_write_snoc [of m target "rfc_encode src"] nil
    by (auto split: if_splits prod.splits option.splits)
qed

theorem b64_encoder_follows_rfc_witness:
  "f_b64_ntop [77, 97] 100 5 (\<lambda>_. 0) = (4, mem_write (\<lambda>_. 0) 100 [84, 87, 69, 61, 0])
   \<and> fst (f_b64_ntop [77, 97] 100 4 (\<lambda>_. 0)) = - 1"
proof -
  have r: "rfc_encode [77, 97] = [84, 87, 69, 61]"
    unfolding rfc_encode_sextets by (simp add: output3_def b64_char_def Base64_codes Pad64_def)
  show ?thesis
    using b64_encoder_follows_rfc [of "[77, 97]" 5 100 "\<lambda>_. 0"] b64_encoder_follows_rfc [of "[77, 97]" 4 100 "\<lambda>_. 0"]
    by (simp add: r)
qed

text \<open>C7. The decoder inverts the encoding, with any white space between the characters: it
  returns the number of bytes and stores them, given a target one byte longer than the data.\<close>

theorem b64_decoder_inverts:
  assumes "nospace src = rfc_encode bs" and "length src < 2 ^ 32"
    and "target \<noteq> 0" and "length bs < unat targsize"
  shows "fst (f_b64_pton src target targsize m) = of_nat (length bs)
    \<and> mem_read (snd (f_b64_pton src target targsize m)) target (length bs) = bs"
proof -
  let ?vs = "sextets bs" and ?pads = "replicate ((3 - length bs mod 3) mod 3) Pad64"
  from scan_complete [of src ?vs ?pads] assms(1) sextets_are [of bs]
  obtain rest where sc: "scan src = Some (?vs, ?pads \<noteq> [], rest)" "nospace rest = tl ?pads"
    unfolding rfc_encode_sextets by auto
  have m3: "length bs mod 3 = 0 \<or> length bs mod 3 = 1 \<or> length bs mod 3 = 2" by presburger
  have oc: "octets ?vs = bs @ (if length bs mod 3 = 0 then [] else [0])" by (rule octets_sextets)
  have "room target targsize ?vs" using assms(4) by (simp add: room_def oc)
  moreover have "if ?pads \<noteq> [] then pton_trailer (length ?vs mod 4) rest \<and> (target \<noteq> 0 \<longrightarrow> octets ?vs ! tarindex ?vs = 0)
      else length ?vs mod 4 = 0"
    using m3 sc(2) unfolding trailer_iff sextets_counts oc
    by (elim disjE) (simp_all add: numeral_2_eq_2 nth_append)
  ultimately have "f_b64_pton src target targsize m =
      (of_nat (tarindex ?vs), if target = 0 then m else mem_write m target (octets ?vs))"
    using pton_accepts [OF assms(2)] sc(1) by blast
  moreover have "mem_read (mem_write m target (bs @ xs)) target (length bs) = bs" for xs
    by (rule nth_equalityI) (auto simp: mem_write_def nth_append)
  ultimately show ?thesis using assms(3) by (simp add: sextets_counts oc del: length_octets)
qed

theorem b64_decoder_inverts_witness:
  "fst (f_b64_pton [84, 32, 87, 69, 10, 61] 100 3 (\<lambda>_. 0)) = 2
   \<and> mem_read (snd (f_b64_pton [84, 32, 87, 69, 10, 61] 100 3 (\<lambda>_. 0))) 100 2 = [77, 97]"
proof -
  have r: "nospace [84, 32, 87, 69, 10, 61] = rfc_encode [77, 97]"
    unfolding rfc_encode_sextets by (simp add: output3_def b64_char_def Base64_codes Pad64_def isspace_def)
  have "length [77 :: u8, 97] = 2" by simp
  from b64_decoder_inverts [OF r, of 100 3 "\<lambda>_. 0", unfolded this] show ?thesis by simp
qed

text \<open>C20. The decoder accepts no other spelling: whatever it accepts is, without white space, the
  RFC's encoding of the bytes it stored. In particular, bits that do not belong to a byte are
  zero, and nothing may follow the padding.\<close>

theorem b64_decoder_canonical:
  assumes "f_b64_pton src target targsize m = (r, m')" and "r \<noteq> - 1"
    and "length src < 2 ^ 32" and "target \<noteq> 0"
  shows "nospace src = rfc_encode (mem_read m' target (unat r))"
proof -
  from pton_accepts [OF assms(3)] assms(1,2)
  obtain vs padded rest where sc: "scan src = Some (vs, padded, rest)"
    and ok: "if padded then pton_trailer (length vs mod 4) rest \<and> (target \<noteq> 0 \<longrightarrow> octets vs ! tarindex vs = 0)
          else length vs mod 4 = 0"
    and r: "r = of_nat (tarindex vs)" and m': "m' = (if target = 0 then m else mem_write m target (octets vs))"
    by blast
  note src = scan_sound [OF sc]
  have "tarindex vs < 2 ^ 32" using src assms(3) by auto
  then have ur: "unat r = tarindex vs" by (simp add: r unat_of_nat)
  have len: "tarindex vs \<le> length (octets vs)" by (simp add: length_octets)
  then have rd: "mem_read m' target (unat r) = take (tarindex vs) (octets vs)"
    using assms(4) by (intro nth_equalityI) (auto simp: ur m' mem_write_def)
  have sx: "sextets (take (tarindex vs) (octets vs)) = vs"
    using src ok assms(4) by (intro sextets_octets) (auto simp: trailer_iff split: if_splits)
  have "map b64_char vs @ (if padded then Pad64 # nospace rest else []) = rfc_encode (mem_read m' target (unat r))"
  proof -
    have l: "length (take (tarindex vs) (octets vs)) = tarindex vs" using len by simp
    show ?thesis
    proof (cases padded)
      case True
      with ok pads_of_tarindex [of 2 2 vs] pads_of_tarindex [of 3 1 vs] have "(length vs mod 4 = 2 \<and> nospace rest = [Pad64] \<and> (3 - tarindex vs mod 3) mod 3 = 2)
          \<or> (length vs mod 4 = 3 \<and> nospace rest = [] \<and> (3 - tarindex vs mod 3) mod 3 = 1)"
        unfolding trailer_iff by fastforce
      with True show ?thesis unfolding rd rfc_encode_sextets sx l by (auto simp only: replicate_2 replicate_1)
    next
      case False
      with ok pads_of_tarindex [of 0 0 vs] show ?thesis unfolding rd rfc_encode_sextets sx l by simp
    qed
  qed
  with src show ?thesis by simp
qed

theorem b64_decoder_canonical_witness:
  "fst (f_b64_pton [84, 87, 69, 61] 100 3 (\<lambda>_. 0)) = 2
   \<and> nospace [84, 87, 69, 61] = rfc_encode (mem_read (snd (f_b64_pton [84, 87, 69, 61] 100 3 (\<lambda>_. 0))) 100 (unat (2 :: u32)))"
proof -
  have r: "fst (f_b64_pton [84, 87, 69, 61] 100 3 (\<lambda>_. 0)) = 2" by code_simp
  obtain m' where m': "f_b64_pton [84, 87, 69, 61] 100 3 (\<lambda>_. 0) = (2, m')"
    using r by (cases "f_b64_pton [84, 87, 69, 61] 100 3 (\<lambda>_. 0)") auto
  show ?thesis using b64_decoder_canonical [OF m'] m' by simp
qed

text \<open>Neither function changes a byte outside its target, whatever the input is and whether it
  succeeds or not.\<close>

theorem b64_targets_respected:
  assumes "x < target \<or> target + uint targsize \<le> x" and "length (rfc_encode bs) < 2 ^ 64"
  shows "snd (f_b64_pton src target targsize m) x = m x \<and> snd (f_b64_ntop bs target targsize m) x = m x"
proof
  have "pton_inv target targsize m \<lparr>ps_state = 0, ps_tarindex = 0, ps_mem = m\<rparr>" by (simp add: pton_inv_def)
  from pton_loop_beyond [OF this, of src] assms(1) show "snd (f_b64_pton src target targsize m) x = m x"
    by (auto simp: f_b64_pton_def pton_inv_def same_beyond_def split: sum.splits prod.splits)
  obtain r m2 where b: "ntop_body bs target targsize 0 m = (r, m2)" by fastforce
  have "m2 x = m x" using ntop_body_beyond [of 0 bs target targsize m] assms b by (auto simp: same_beyond_def)
  moreover have "dl < targsize \<Longrightarrow> x \<noteq> target + uint dl" for dl
    using assms(1) unsigned_greater_eq [of dl] by (auto simp: word_less_def)
  ultimately show "snd (f_b64_ntop bs target targsize m) x = m x"
    unfolding ntop_by_body b by (auto simp: not_le split: option.splits)
qed

end
