(* ===== verification/Ldb_Coding.thy ===== *)
theory Ldb_Coding
  imports Pb_Codec
begin

text \<open>
  The encodings of leveldb's \<^verbatim>\<open>util/coding.cc\<close> and \<^verbatim>\<open>util/coding.h\<close>. A \<^verbatim>\<open>Slice\<close> is the list of
  its bytes; a range \<^verbatim>\<open>[p, limit)\<close> is one too. \<^verbatim>\<open>Put\<close> functions return the extended string,
  \<^verbatim>\<open>Encode\<close> functions the bytes written at the pointer, \<^verbatim>\<open>Get\<close> functions the value and the rest of
  the input, or \<open>None\<close> where the source returns \<^verbatim>\<open>NULL\<close> or \<^verbatim>\<open>false\<close>. The target is little-endian.
\<close>

section \<open>Encoders\<close>

definition EncodeFixed32 :: "u32 \<Rightarrow> u8 list" where
  "EncodeFixed32 value = word_to_le 4 value"

definition EncodeFixed64 :: "u64 \<Rightarrow> u8 list" where
  "EncodeFixed64 value = word_to_le 8 value"

definition PutFixed32 :: "u8 list \<Rightarrow> u32 \<Rightarrow> u8 list" where
  "PutFixed32 dst value = dst @ EncodeFixed32 value"

definition PutFixed64 :: "u8 list \<Rightarrow> u64 \<Rightarrow> u8 list" where
  "PutFixed64 dst value = dst @ EncodeFixed64 value"

definition EncodeVarint32 :: "u32 \<Rightarrow> u8 list" where
  "EncodeVarint32 v =
     (if v < 0x80 then [ucast v]
      else if v < 0x4000 then [ucast (v OR 128), ucast (drop_bit 7 v)]
      else if v < 0x200000 then [ucast (v OR 128), ucast (drop_bit 7 v OR 128), ucast (drop_bit 14 v)]
      else if v < 0x10000000
      then [ucast (v OR 128), ucast (drop_bit 7 v OR 128), ucast (drop_bit 14 v OR 128), ucast (drop_bit 21 v)]
      else [ucast (v OR 128), ucast (drop_bit 7 v OR 128), ucast (drop_bit 14 v OR 128),
            ucast (drop_bit 21 v OR 128), ucast (drop_bit 28 v)])"

definition PutVarint32 :: "u8 list \<Rightarrow> u32 \<Rightarrow> u8 list" where
  "PutVarint32 dst v = dst @ EncodeVarint32 v"

lemma drop7_less: "\<not> v < 128 \<Longrightarrow> unat (drop_bit 7 v) < unat v" for v :: u64
proof -
  assume "\<not> v < 128"
  then have "128 \<le> unat v" by (simp add: word_less_nat_alt not_less)
  then show ?thesis by (simp add: unat_drop_bit_eq) (simp add: drop_bit_eq_div)
qed

function EncodeVarint64 :: "u64 \<Rightarrow> u8 list" where
  "EncodeVarint64 v =
     (if v \<ge> 128 then ucast ((v AND 127) OR 128) # EncodeVarint64 (drop_bit 7 v) else [ucast v])"
  by pat_completeness auto
termination by (relation "measure unat") (auto simp: drop7_less)

definition PutVarint64 :: "u8 list \<Rightarrow> u64 \<Rightarrow> u8 list" where
  "PutVarint64 dst v = dst @ EncodeVarint64 v"

text \<open>\<^verbatim>\<open>PutVarint32(dst, value.size())\<close> passes the size as a 32-bit number.\<close>

definition PutLengthPrefixedSlice :: "u8 list \<Rightarrow> u8 list \<Rightarrow> u8 list" where
  "PutLengthPrefixedSlice dst value = PutVarint32 dst (of_nat (length value)) @ value"

function VarintLength :: "u64 \<Rightarrow> nat" where
  "VarintLength v = (if v \<ge> 128 then Suc (VarintLength (drop_bit 7 v)) else 1)"
  by pat_completeness auto
termination by (relation "measure unat") (auto simp: drop7_less)

declare EncodeVarint64.simps [simp del] VarintLength.simps [simp del]

section \<open>Decoders\<close>

text \<open>Reading four or eight bytes without a check of bounds: the bytes behind the end are arbitrary, here zero.\<close>

definition DecodeFixed32 :: "u8 list \<Rightarrow> u32" where
  "DecodeFixed32 p = word_of_le (take 4 p)"

definition DecodeFixed64 :: "u8 list \<Rightarrow> u64" where
  "DecodeFixed64 p = word_of_le (take 8 p)"

function GetVarint32PtrFallback :: "nat \<Rightarrow> u32 \<Rightarrow> u8 list \<Rightarrow> (u32 \<times> u8 list) option" where
  "GetVarint32PtrFallback shift result p =
     (if shift \<le> 28 \<and> p \<noteq> [] then
        let byte = ucast (hd p) in
        if byte AND 128 \<noteq> 0
        then GetVarint32PtrFallback (shift + 7) (result OR push_bit shift (byte AND 127)) (tl p)
        else Some (result OR push_bit shift byte, tl p)
      else None)"
  by pat_completeness auto
termination by (relation "measure (\<lambda>(shift, result, p). length p)") auto

definition GetVarint32Ptr :: "u8 list \<Rightarrow> (u32 \<times> u8 list) option" where
  "GetVarint32Ptr p =
     (if p \<noteq> [] \<and> (ucast (hd p) :: u32) AND 128 = 0 then Some (ucast (hd p), tl p)
      else GetVarint32PtrFallback 0 0 p)"

definition GetVarint32 :: "u8 list \<Rightarrow> (u32 \<times> u8 list) option" where
  "GetVarint32 input = GetVarint32Ptr input"

function GetVarint64Ptr :: "nat \<Rightarrow> u64 \<Rightarrow> u8 list \<Rightarrow> (u64 \<times> u8 list) option" where
  "GetVarint64Ptr shift result p =
     (if shift \<le> 63 \<and> p \<noteq> [] then
        let byte = ucast (hd p) in
        if byte AND 128 \<noteq> 0
        then GetVarint64Ptr (shift + 7) (result OR push_bit shift (byte AND 127)) (tl p)
        else Some (result OR push_bit shift byte, tl p)
      else None)"
  by pat_completeness auto
termination by (relation "measure (\<lambda>(shift, result, p). length p)") auto

declare GetVarint32PtrFallback.simps [simp del] GetVarint64Ptr.simps [simp del]

definition GetVarint64 :: "u8 list \<Rightarrow> (u64 \<times> u8 list) option" where
  "GetVarint64 input = GetVarint64Ptr 0 0 input"

definition GetLengthPrefixedSlicePtr :: "u8 list \<Rightarrow> (u8 list \<times> u8 list) option" where
  "GetLengthPrefixedSlicePtr p =
     (case GetVarint32Ptr p of
        None \<Rightarrow> None
      | Some (len, q) \<Rightarrow> if unat len > length q then None else Some (take (unat len) q, drop (unat len) q))"

text \<open>The second overload; the input slice is advanced past the length even when it fails after it.\<close>

definition GetLengthPrefixedSlice :: "u8 list \<Rightarrow> u8 list option \<times> u8 list" where
  "GetLengthPrefixedSlice input =
     (case GetVarint32 input of
        None \<Rightarrow> (None, input)
      | Some (len, rest) \<Rightarrow>
          if length rest \<ge> unat len then (Some (take (unat len) rest), drop (unat len) rest) else (None, rest))"

section \<open>The interface of a codec\<close>

text \<open>
  A codec on byte lists: decoding an encoding that is followed by other bytes gives the value
  and these bytes. Encodings are then self-delimiting, and a sequence of items is read back.
\<close>

locale prefix_codec =
  fixes valid :: "'a \<Rightarrow> bool" and enc :: "'a \<Rightarrow> u8 list" and dec :: "u8 list \<Rightarrow> ('a \<times> u8 list) option"
  assumes dec_enc: "valid x \<Longrightarrow> dec (enc x @ rest) = Some (x, rest)"
begin

lemma self_delimiting: "valid x \<Longrightarrow> valid y \<Longrightarrow> enc x @ xs = enc y @ ys \<Longrightarrow> x = y \<and> xs = ys"
  by (metis dec_enc option.inject prod.inject)

primrec dec_many :: "nat \<Rightarrow> u8 list \<Rightarrow> ('a list \<times> u8 list) option" where
  "dec_many 0 bs = Some ([], bs)"
| "dec_many (Suc n) bs =
     (case dec bs of None \<Rightarrow> None
      | Some (x, rest) \<Rightarrow> map_option (\<lambda>(xs, r). (x # xs, r)) (dec_many n rest))"

lemma dec_many_enc:
  "\<forall>x\<in>set xs. valid x \<Longrightarrow> dec_many (length xs) (concat (map enc xs) @ rest) = Some (xs, rest)"
  by (induction xs) (simp_all add: dec_enc)

end

section \<open>Variable-length integers\<close>

text \<open>leveldb and nanopb write the same bytes.\<close>

lemma low7_or_128: "(ucast (v OR 128) :: u8) = ucast (take_bit 7 v) OR 128" for v :: u64
  by (rule u8_eqI) (simp_all add: bit_simps)

lemma EncodeVarint64_bytes: "EncodeVarint64 v = varint_bytes v"
proof (induction v rule: EncodeVarint64.induct)
  case (1 v)
  have "ucast ((v AND 127) OR 128) = ucast (take_bit 7 v) OR (128 :: u8)"
    by (rule u8_eqI) (simp_all add: bit_simps)
  with 1 show ?case
    by (cases "v < 128") (simp_all add: EncodeVarint64.simps [of v] varint_bytes.simps [of v] not_le)
qed

lemma ucast_u32_drop: "(ucast (drop_bit n v) :: u64) = drop_bit n (ucast v)" for v :: u32
  by (rule bit_word_eqI) (auto simp: bit_simps dest: bit_imp_le_length)

lemma byte_of_u32: "(ucast (drop_bit n v) :: u8) = ucast (drop_bit n (ucast v :: u64))"
  "(ucast (drop_bit n v OR 128) :: u8) = ucast (take_bit 7 (drop_bit n (ucast v :: u64))) OR 128" for v :: u32
proof -
  have b: "(ucast w :: u8) = ucast (ucast w :: u64)" for w :: u32
    by (rule u8_eqI) (simp_all add: bit_simps)
  show "(ucast (drop_bit n v) :: u8) = ucast (drop_bit n (ucast v :: u64))"
    by (subst b) (simp add: ucast_u32_drop)
  have "(ucast (drop_bit n v OR 128) :: u8) = ucast (drop_bit n (ucast v :: u64) OR 128)"
    by (subst b) (simp add: ucast_u32_drop unsigned_or_eq)
  then show "(ucast (drop_bit n v OR 128) :: u8) = ucast (take_bit 7 (drop_bit n (ucast v :: u64))) OR 128"
    by (simp add: low7_or_128)
qed

lemma drop7_bound: "drop_bit n (ucast v) < (128 :: u64) \<longleftrightarrow> v < 2 ^ (n + 7)" if "n + 7 < 32" for v :: u32
proof -
  have "unat (drop_bit n (ucast v :: u64)) = unat v div 2 ^ n"
    by (simp add: unat_drop_bit_eq unsigned_ucast_eq) (simp add: drop_bit_eq_div take_bit_nat_eq_self less_trans [OF unsigned_less])
  moreover have "unat (2 ^ (n + 7) :: u32) = 2 ^ (n + 7)"
  proof -
    have "(2 :: nat) ^ (n + 7) < 2 ^ 32" using that by (intro power_strict_increasing) auto
    then have "unat (of_nat (2 ^ (n + 7)) :: u32) = 2 ^ (n + 7)"
      unfolding unat_of_nat by (intro mod_less) simp
    then show ?thesis by (simp only: of_nat_power of_nat_numeral)
  qed
  moreover have "unat v div 2 ^ n < 128 \<longleftrightarrow> unat v < 128 * 2 ^ n" by (simp add: div_less_iff_less_mult)
  ultimately show ?thesis by (simp add: word_less_nat_alt power_add mult.commute)
qed

lemma EncodeVarint32_bytes: "EncodeVarint32 v = varint_bytes (ucast v)"
proof -
  let ?w = "ucast v :: u64"
  have b: "?w < 128 \<longleftrightarrow> v < 0x80" "drop_bit 7 ?w < 128 \<longleftrightarrow> v < 0x4000" "drop_bit 14 ?w < 128 \<longleftrightarrow> v < 0x200000"
    "drop_bit 21 ?w < 128 \<longleftrightarrow> v < 0x10000000"
    using drop7_bound [of 0 v] drop7_bound [of 7 v] drop7_bound [of 14 v] drop7_bound [of 21 v] by simp_all
  have "unat (drop_bit 28 ?w) < 128"
    using unsigned_less [of v, where 'a = nat]
    by (simp add: unat_drop_bit_eq unsigned_ucast_eq) (simp add: drop_bit_eq_div take_bit_nat_eq_self div_less_iff_less_mult)
  then have b28: "drop_bit 28 ?w < 128" by (simp add: word_less_nat_alt)
  have d: "drop_bit 7 (drop_bit n ?w) = drop_bit (7 + n) ?w" for n by (simp add: drop_bit_drop_bit)
  note u = byte_of_u32(2) [of 0 v] byte_of_u32(1) [of 0 v] byte_of_u32
  show ?thesis
    using b b28 u(1,2)
    by (simp add: EncodeVarint32_def u varint_bytes.simps [of ?w] varint_bytes.simps [of "drop_bit 7 ?w"]
      varint_bytes.simps [of "drop_bit 14 ?w"] varint_bytes.simps [of "drop_bit 21 ?w"]
      varint_bytes.simps [of "drop_bit 28 ?w"] d)
qed

lemma high_bit_u32: "(ucast b :: u32) AND 128 = 0 \<longleftrightarrow> b AND 128 = 0"
  and high_bit_u64: "(ucast b :: u64) AND 128 = 0 \<longleftrightarrow> b AND 128 = 0" for b :: u8
  using and_exp_eq_0_iff_not_bit [of "ucast b :: u32" 7] and_exp_eq_0_iff_not_bit [of "ucast b :: u64" 7]
    and_exp_eq_0_iff_not_bit [of b 7] by (simp_all add: bit_simps)

lemma GetVarint64Ptr_groups:
  "varint_form bs \<Longrightarrow> shift + 7 * (length bs - 1) \<le> 63 \<Longrightarrow>
   GetVarint64Ptr shift r (bs @ rest) = Some (r OR push_bit shift (groups_word bs), rest)"
proof (induction bs arbitrary: shift r)
  case (Cons b bs)
  have low: "(ucast b :: u64) AND 127 = ucast (b AND 0x7F)"
    by (rule bit_word_eqI) (auto simp: bit_simps dest: bit_imp_le_length)
  show ?case
  proof (cases "b AND 128 = 0")
    case True
    with Cons.prems high_bit_u64 [of b] show ?thesis
      by (subst GetVarint64Ptr.simps) (simp add: varint_form_Cons byte_low7)
  next
    case False
    with Cons.prems(1) have f: "varint_form bs" by (simp add: varint_form_Cons)
    then obtain n where n: "length bs = Suc n" by (cases bs) auto
    with Cons.prems(2) have "shift + 7 + 7 * (length bs - 1) \<le> 63" "shift \<le> 63" by auto
    with Cons.IH [OF f, of "shift + 7" "r OR push_bit shift (ucast (b AND 0x7F))"] False high_bit_u64 [of b]
    show ?thesis by (subst GetVarint64Ptr.simps) (simp add: low Let_def or.assoc)
  qed
qed simp

lemma GetVarint32PtrFallback_groups:
  "varint_form bs \<Longrightarrow> shift + 7 * (length bs - 1) \<le> 28 \<Longrightarrow>
   GetVarint32PtrFallback shift r (bs @ rest) = Some (r OR push_bit shift (groups_word bs), rest)"
proof (induction bs arbitrary: shift r)
  case (Cons b bs)
  have low: "(ucast b :: u32) AND 127 = ucast (b AND 0x7F)"
    by (rule bit_word_eqI) (auto simp: bit_simps dest: bit_imp_le_length)
  show ?case
  proof (cases "b AND 128 = 0")
    case True
    with Cons.prems high_bit_u32 [of b] show ?thesis
      by (subst GetVarint32PtrFallback.simps) (simp add: varint_form_Cons byte_low7)
  next
    case False
    with Cons.prems(1) have f: "varint_form bs" by (simp add: varint_form_Cons)
    then obtain n where n: "length bs = Suc n" by (cases bs) auto
    with Cons.prems(2) have "shift + 7 + 7 * (length bs - 1) \<le> 28" "shift \<le> 28" by auto
    with Cons.IH [OF f, of "shift + 7" "r OR push_bit shift (ucast (b AND 0x7F))"] False high_bit_u32 [of b]
    show ?thesis by (subst GetVarint32PtrFallback.simps) (simp add: low Let_def or.assoc)
  qed
qed simp

lemma GetVarint32Ptr_fallback: "GetVarint32Ptr p = GetVarint32PtrFallback 0 0 p"
  by (subst GetVarint32PtrFallback.simps) (simp add: GetVarint32Ptr_def GetVarint32PtrFallback.simps)

lemma length_EncodeVarint32: "length (EncodeVarint32 v) \<le> 5"
  by (simp add: EncodeVarint32_def)

lemma GetVarint32_Encode: "GetVarint32 (EncodeVarint32 v @ rest) = Some (v, rest)"
proof -
  have "7 * (length (EncodeVarint32 v) - 1) \<le> 28" using length_EncodeVarint32 [of v] by simp
  with GetVarint32PtrFallback_groups [of "EncodeVarint32 v" 0 0 rest] show ?thesis
    by (simp add: GetVarint32_def GetVarint32Ptr_fallback EncodeVarint32_bytes varint_form_bytes groups_word_bytes)
qed

lemma GetVarint64_Encode: "GetVarint64 (EncodeVarint64 v @ rest) = Some (v, rest)"
proof -
  have "7 * (length (varint_bytes v) - 1) \<le> 63" using varint_bytes_le_10 [of v] by simp
  with GetVarint64Ptr_groups [of "varint_bytes v" 0 0 rest] show ?thesis
    by (simp add: GetVarint64_def EncodeVarint64_bytes varint_form_bytes groups_word_bytes)
qed

interpretation varint32: prefix_codec "\<lambda>_. True" EncodeVarint32 GetVarint32
  by unfold_locales (rule GetVarint32_Encode)

interpretation varint64: prefix_codec "\<lambda>_. True" EncodeVarint64 GetVarint64
  by unfold_locales (rule GetVarint64_Encode)

lemma VarintLength_correct: "VarintLength v = length (EncodeVarint64 v)"
  by (induction v rule: VarintLength.induct) (subst VarintLength.simps, subst EncodeVarint64.simps, simp)

section \<open>Fixed-width integers and slices\<close>

lemma DecodeFixed32_Encode [simp]: "DecodeFixed32 (EncodeFixed32 v @ rest) = v"
  by (simp add: DecodeFixed32_def EncodeFixed32_def del: word_to_le.simps)

lemma DecodeFixed64_Encode [simp]: "DecodeFixed64 (EncodeFixed64 v @ rest) = v"
  by (simp add: DecodeFixed64_def EncodeFixed64_def del: word_to_le.simps)

lemma length_EncodeFixed [simp]: "length (EncodeFixed32 v) = 4" "length (EncodeFixed64 w) = 8"
  by (simp_all add: EncodeFixed32_def EncodeFixed64_def del: word_to_le.simps)

abbreviation EncodeSlice :: "u8 list \<Rightarrow> u8 list" where
  "EncodeSlice value \<equiv> PutLengthPrefixedSlice [] value"

lemma PutLengthPrefixedSlice_append: "PutLengthPrefixedSlice dst value = dst @ EncodeSlice value"
  by (simp add: PutLengthPrefixedSlice_def PutVarint32_def)

lemma GetLengthPrefixedSlice_Put:
  "length value < 2 ^ 32 \<Longrightarrow> GetLengthPrefixedSlicePtr (EncodeSlice value @ rest) = Some (value, rest)
   \<and> GetLengthPrefixedSlice (EncodeSlice value @ rest) = (Some value, rest)"
  using GetVarint32_Encode [of "of_nat (length value)" "value @ rest"]
  by (simp add: GetLengthPrefixedSlicePtr_def GetLengthPrefixedSlice_def PutLengthPrefixedSlice_def
      PutVarint32_def GetVarint32_def unat_of_nat)

interpretation slices: prefix_codec "\<lambda>v. length v < 2 ^ 32" EncodeSlice GetLengthPrefixedSlicePtr
  by unfold_locales (simp add: GetLengthPrefixedSlice_Put)

text \<open>What a decoder consumes is a prefix of its input, of at most five or ten bytes.\<close>

lemma GetVarint32PtrFallback_prefix:
  "GetVarint32PtrFallback shift r p = Some (v, rest) \<Longrightarrow>
   \<exists>q. p = q @ rest \<and> 0 < length q \<and> shift + 7 * (length q - 1) \<le> 28"
proof (induction shift r p rule: GetVarint32PtrFallback.induct)
  case (1 shift r p)
  from "1.prems" obtain b q where p: "p = b # q" and s: "shift \<le> 28"
    by (subst (asm) GetVarint32PtrFallback.simps) (cases p; auto split: if_splits)
  show ?case
  proof (cases "(ucast b :: u32) AND 128 = 0")
    case True
    with "1.prems" p s have "rest = q" by (subst (asm) GetVarint32PtrFallback.simps) (simp add: Let_def)
    with p s show ?thesis by (intro exI [of _ "[b]"]) simp
  next
    case False
    with "1.prems" p s have "GetVarint32PtrFallback (shift + 7) (r OR push_bit shift (ucast b AND 127)) q = Some (v, rest)"
      by (subst (asm) GetVarint32PtrFallback.simps) (simp add: Let_def)
    with "1.IH" [of "ucast b"] p s False obtain q' where "q = q' @ rest" "0 < length q'" "shift + 7 + 7 * (length q' - 1) \<le> 28"
      by auto
    with p show ?thesis by (intro exI [of _ "b # q'"]) simp
  qed
qed

lemma GetVarint32_shorter: "GetVarint32 p = Some (n, q) \<Longrightarrow> length q < length p"
  using GetVarint32PtrFallback_prefix [of 0 0 p n q] by (auto simp: GetVarint32_def GetVarint32Ptr_fallback)

end
