(* ===== verification/Ldb_Status.thy ===== *)
theory Ldb_Status
  imports Ldb_Crc
begin

text \<open>
  leveldb's \<^verbatim>\<open>Slice\<close> operations (\<^verbatim>\<open>include/leveldb/slice.h\<close>) and \<^verbatim>\<open>Status\<close>
  (\<^verbatim>\<open>include/leveldb/status.h\<close>, \<^verbatim>\<open>util/status.cc\<close>). A slice is the list of its bytes. A status is
  its \<^verbatim>\<open>state_\<close> pointer: \<open>None\<close> for \<^verbatim>\<open>NULL\<close>, else the bytes of the array, with the length of the
  message, the code and the message.
\<close>

section \<open>Slices\<close>

type_synonym slice = "u8 list"

abbreviation str :: "string \<Rightarrow> slice" where
  "str s \<equiv> map of_char s"

text \<open>\<^verbatim>\<open>memcmp\<close> on the first \<open>n\<close> bytes: the sign of the first difference.\<close>

fun memcmp :: "slice \<Rightarrow> slice \<Rightarrow> int" where
  "memcmp (a # as) (b # bs) = (if a = b then memcmp as bs else if a < b then -1 else 1)"
| "memcmp as bs = 0"

definition Slice_compare :: "slice \<Rightarrow> slice \<Rightarrow> int" where
  "Slice_compare a b =
     (let min_len = (if length a < length b then length a else length b);
          r = memcmp (take min_len a) (take min_len b)
      in if r = 0 then (if length a < length b then -1 else if length a > length b then 1 else r) else r)"

definition Slice_equal :: "slice \<Rightarrow> slice \<Rightarrow> bool" where
  "Slice_equal x y \<longleftrightarrow> length x = length y \<and> memcmp (take (length x) x) (take (length x) y) = 0"

definition starts_with :: "slice \<Rightarrow> slice \<Rightarrow> bool" where
  "starts_with s x \<longleftrightarrow> length s \<ge> length x \<and> memcmp (take (length x) s) (take (length x) x) = 0"

definition remove_prefix :: "nat \<Rightarrow> slice \<Rightarrow> slice" where
  "remove_prefix n s = drop n s"

section \<open>Status\<close>

type_synonym status = "u8 list option"

definition kOk :: u8 where "kOk = 0"
definition kNotFound :: u8 where "kNotFound = 1"
definition kCorruption :: u8 where "kCorruption = 2"
definition kNotSupported :: u8 where "kNotSupported = 3"
definition kInvalidArgument :: u8 where "kInvalidArgument = 4"
definition kIOError :: u8 where "kIOError = 5"

definition Status_new :: "u8 \<Rightarrow> slice \<Rightarrow> slice \<Rightarrow> status" where
  "Status_new code msg msg2 =
     (let len1 = of_nat (length msg) :: u32; len2 = of_nat (length msg2) :: u32;
          sz = len1 + (if len2 \<noteq> 0 then 2 + len2 else 0)
      in Some (word_to_le 4 sz @ [code] @ take (unat len1) msg
           @ (if len2 \<noteq> 0 then str '': '' @ take (unat len2) msg2 else [])))"

definition Status_OK :: status where "Status_OK = None"
definition Status_NotFound :: "slice \<Rightarrow> slice \<Rightarrow> status" where
  "Status_NotFound = Status_new kNotFound"
definition Status_Corruption :: "slice \<Rightarrow> slice \<Rightarrow> status" where
  "Status_Corruption = Status_new kCorruption"
definition Status_NotSupported :: "slice \<Rightarrow> slice \<Rightarrow> status" where
  "Status_NotSupported = Status_new kNotSupported"
definition Status_InvalidArgument :: "slice \<Rightarrow> slice \<Rightarrow> status" where
  "Status_InvalidArgument = Status_new kInvalidArgument"
definition Status_IOError :: "slice \<Rightarrow> slice \<Rightarrow> status" where
  "Status_IOError = Status_new kIOError"

definition status_ok :: "status \<Rightarrow> bool" where
  "status_ok s \<longleftrightarrow> s = None"

definition status_code :: "status \<Rightarrow> u8" where
  "status_code s = (case s of None \<Rightarrow> kOk | Some state \<Rightarrow> state ! 4)"

definition CopyState :: "u8 list \<Rightarrow> u8 list" where
  "CopyState state = (let sz = word_of_le (take 4 state) :: u32 in take (unat (sz + 5)) state)"

text \<open>Copy construction and assignment.\<close>

definition Status_copy :: "status \<Rightarrow> status" where
  "Status_copy s = map_option CopyState s"

definition IsNotFound :: "status \<Rightarrow> bool" where "IsNotFound s \<longleftrightarrow> status_code s = kNotFound"
definition IsCorruption :: "status \<Rightarrow> bool" where "IsCorruption s \<longleftrightarrow> status_code s = kCorruption"
definition IsIOError :: "status \<Rightarrow> bool" where "IsIOError s \<longleftrightarrow> status_code s = kIOError"
definition IsNotSupportedError :: "status \<Rightarrow> bool" where "IsNotSupportedError s \<longleftrightarrow> status_code s = kNotSupported"
definition IsInvalidArgument :: "status \<Rightarrow> bool" where "IsInvalidArgument s \<longleftrightarrow> status_code s = kInvalidArgument"

text \<open>Decimal digits, as \<^verbatim>\<open>%d\<close> prints them.\<close>

fun decimal :: "nat \<Rightarrow> slice" where
  "decimal n = (if n < 10 then [48 + of_nat n] else decimal (n div 10) @ [48 + of_nat (n mod 10)])"

declare decimal.simps [simp del]

definition print_d :: "int \<Rightarrow> slice" where
  "print_d i = (if i < 0 then str ''-'' @ decimal (nat (- i)) else decimal (nat i))"

definition Status_ToString :: "status \<Rightarrow> slice" where
  "Status_ToString s =
     (case s of
        None \<Rightarrow> str ''OK''
      | Some state \<Rightarrow>
          let code = status_code s;
              ty = (if code = kOk then str ''OK''
                    else if code = kNotFound then str ''NotFound: ''
                    else if code = kCorruption then str ''Corruption: ''
                    else if code = kNotSupported then str ''Not implemented: ''
                    else if code = kInvalidArgument then str ''Invalid argument: ''
                    else if code = kIOError then str ''IO error: ''
                    else str ''Unknown code('' @ print_d (sint code) @ str ''): '');
              len = unat (word_of_le (take 4 state) :: u32)
          in ty @ take len (drop 5 state))"

section \<open>Order of slices\<close>

lemma memcmp_0: "length a = length b \<Longrightarrow> memcmp a b = 0 \<longleftrightarrow> a = b"
  by (induction a b rule: memcmp.induct) auto

text \<open>The order is the lexicographic one on bytes.\<close>

fun bytes_less :: "slice \<Rightarrow> slice \<Rightarrow> bool" where
  "bytes_less [] [] = False"
| "bytes_less [] (b # bs) = True"
| "bytes_less (a # as) [] = False"
| "bytes_less (a # as) (b # bs) = (a < b \<or> a = b \<and> bytes_less as bs)"

lemma Slice_compare_Cons:
  "Slice_compare (a # as) (b # bs) = (if a = b then Slice_compare as bs else if a < b then -1 else 1)"
  by (simp add: Slice_compare_def Let_def)

lemma Slice_compare_Nil [simp]:
  "Slice_compare [] [] = 0" "Slice_compare [] (b # bs) = -1" "Slice_compare (a # as) [] = 1"
  by (simp_all add: Slice_compare_def)

lemma Slice_compare_spec:
  "Slice_compare a b = (if bytes_less a b then -1 else if a = b then 0 else 1)"
  by (induction a b rule: bytes_less.induct) (auto simp: Slice_compare_Cons)

lemma Slice_equal_iff: "Slice_equal x y \<longleftrightarrow> x = y"
  by (auto simp: Slice_equal_def memcmp_0)

lemma starts_with_iff: "starts_with s x \<longleftrightarrow> take (length x) s = x"
proof
  assume a: "starts_with s x"
  then have "length (take (length x) s) = length (take (length x) x)" by (simp add: starts_with_def)
  from memcmp_0 [OF this] a show "take (length x) s = x" by (simp add: starts_with_def)
next
  assume a: "take (length x) s = x"
  then have "length x \<le> length s" by (metis length_take min.cobounded1)
  with a memcmp_0 [of x x] show "starts_with s x" by (simp add: starts_with_def)
qed

lemma bytes_less_irrefl [simp]: "\<not> bytes_less a a"
  by (induction a) auto

lemma bytes_less_trans: "bytes_less a b \<Longrightarrow> bytes_less b c \<Longrightarrow> bytes_less a c"
proof (induction a b arbitrary: c rule: bytes_less.induct)
  case (4 a as b bs)
  then show ?case by (cases c) auto
qed (auto, case_tac c, auto)

lemma bytes_less_total: "bytes_less a b \<or> a = b \<or> bytes_less b a"
  by (induction a b rule: bytes_less.induct) auto

section \<open>What a status keeps\<close>

definition status_text :: "slice \<Rightarrow> slice \<Rightarrow> slice" where
  "status_text msg msg2 = msg @ (if msg2 = [] then [] else str '': '' @ msg2)"

lemma Status_new_state:
  assumes "length msg + length msg2 + 7 < 2 ^ 32"
  shows "Status_new code msg msg2 =
    Some (word_to_le 4 (of_nat (length (status_text msg msg2)) :: u32) @ [code] @ status_text msg msg2)"
proof -
  let ?l1 = "of_nat (length msg) :: u32" and ?l2 = "of_nat (length msg2) :: u32"
  have u: "unat ?l1 = length msg" "unat ?l2 = length msg2" using assms by (simp_all add: unat_of_nat)
  have "?l2 = 0 \<longleftrightarrow> msg2 = []" using u(2) by (metis length_0_conv unat_0 word_unat_eq_iff)
  then show ?thesis using u by (simp add: Status_new_def status_text_def Let_def add.commute del: word_to_le.simps)
qed

lemma status_layout:
  assumes "length text + 5 < 2 ^ 32" and "state = word_to_le 4 (of_nat (length text) :: u32) @ [code] @ text"
  shows "status_code (Some state) = code" and "CopyState state = state"
    and "take (unat (word_of_le (take 4 state) :: u32)) (drop 5 state) = text"
proof -
  have len: "unat (of_nat (length text) :: u32) = length text" "unat (of_nat (length text) + 5 :: u32) = length text + 5"
    using assms(1) by (simp_all add: unat_of_nat unat_word_ariths)
  show "status_code (Some state) = code"
    by (simp add: status_code_def assms(2) nth_append del: word_to_le.simps)
  have "take 4 state = word_to_le 4 (of_nat (length text) :: u32)" "drop 5 state = text" "length state = length text + 5"
    by (simp_all add: assms(2) del: word_to_le.simps)
  then show "CopyState state = state" "take (unat (word_of_le (take 4 state) :: u32)) (drop 5 state) = text"
    using len by (simp_all add: CopyState_def Let_def del: word_to_le.simps)
qed

lemma status_text_length: "length (status_text msg msg2) \<le> length msg + length msg2 + 2"
  by (simp add: status_text_def)

end
