(* ===== verification/Ldb_Comparator.thy ===== *)
theory Ldb_Comparator
  imports Ldb_Status
begin

text \<open>
  The contract of \<^verbatim>\<open>include/leveldb/comparator.h\<close> as a locale, and \<^verbatim>\<open>BytewiseComparatorImpl\<close> of
  \<^verbatim>\<open>util/comparator.cc\<close>, which keeps it.
\<close>

section \<open>The bytewise comparator\<close>

definition Bytewise_Name :: slice where
  "Bytewise_Name = str ''leveldb.BytewiseComparator''"

definition Bytewise_Compare :: "slice \<Rightarrow> slice \<Rightarrow> int" where
  "Bytewise_Compare a b = Slice_compare a b"

text \<open>The loop that finds the length of the common prefix.\<close>

fun diff_index :: "slice \<Rightarrow> slice \<Rightarrow> nat" where
  "diff_index (a # as) (b # bs) = (if a = b then Suc (diff_index as bs) else 0)"
| "diff_index as bs = 0"

definition FindShortestSeparator :: "slice \<Rightarrow> slice \<Rightarrow> slice" where
  "FindShortestSeparator start limit =
     (let min_length = min (length start) (length limit); d = diff_index start limit in
      if d \<ge> min_length then start
      else let diff_byte = start ! d in
        if diff_byte < 0xff \<and> unat diff_byte + 1 < unat (limit ! d)
        then take (d + 1) (start[d := diff_byte + 1]) else start)"

text \<open>The loop over the bytes of the key; \<open>None\<close> at the end of a run of \<open>0xff\<close>.\<close>

fun successor_loop :: "slice \<Rightarrow> slice option" where
  "successor_loop [] = None"
| "successor_loop (byte # bs) = (if byte \<noteq> 0xff then Some [byte + 1] else map_option (Cons byte) (successor_loop bs))"

definition FindShortSuccessor :: "slice \<Rightarrow> slice" where
  "FindShortSuccessor key = (case successor_loop key of None \<Rightarrow> key | Some s \<Rightarrow> s)"

section \<open>The contract\<close>

text \<open>
  A comparator is a three-way comparison by a total order on the valid keys, with separators and
  successors. What its clients use of a separator is that it splits the keys the way the two keys do.
\<close>

locale key_order =
  fixes valid :: "'k \<Rightarrow> bool" and compare :: "'k \<Rightarrow> 'k \<Rightarrow> int"
  assumes equal: "valid a \<Longrightarrow> valid b \<Longrightarrow> compare a b = 0 \<longleftrightarrow> a = b"
    and swap: "valid a \<Longrightarrow> valid b \<Longrightarrow> compare a b < 0 \<longleftrightarrow> compare b a > 0"
    and trans: "valid a \<Longrightarrow> valid b \<Longrightarrow> valid c \<Longrightarrow> compare a b < 0 \<Longrightarrow> compare b c < 0 \<Longrightarrow> compare a c < 0"
begin

lemma le_less_trans: "valid a \<Longrightarrow> valid b \<Longrightarrow> valid c \<Longrightarrow> compare a b \<le> 0 \<Longrightarrow> compare b c < 0 \<Longrightarrow> compare a c < 0"
  using equal [of a b] trans [of a b c] by (cases "compare a b = 0") auto

lemma less_le_trans: "valid a \<Longrightarrow> valid b \<Longrightarrow> valid c \<Longrightarrow> compare a b < 0 \<Longrightarrow> compare b c \<le> 0 \<Longrightarrow> compare a c < 0"
  using equal [of b c] trans [of a b c] by (cases "compare b c = 0") auto

lemma le_trans: "valid a \<Longrightarrow> valid b \<Longrightarrow> valid c \<Longrightarrow> compare a b \<le> 0 \<Longrightarrow> compare b c \<le> 0 \<Longrightarrow> compare a c \<le> 0"
  using equal [of b c] le_less_trans [of a b c] by (cases "compare b c = 0") auto

lemma refl [simp]: "valid a \<Longrightarrow> compare a a = 0"
  by (simp add: equal)

lemma less_total: "valid a \<Longrightarrow> valid b \<Longrightarrow> \<not> compare a b < 0 \<Longrightarrow> compare b a < 0 \<or> a = b"
  using equal [of a b] swap [of b a] by linarith

end

locale comparator = key_order valid compare for valid :: "'k \<Rightarrow> bool" and compare :: "'k \<Rightarrow> 'k \<Rightarrow> int" +
  fixes separator :: "'k \<Rightarrow> 'k \<Rightarrow> 'k" and successor :: "'k \<Rightarrow> 'k"
  assumes separates: "valid start \<Longrightarrow> valid limit \<Longrightarrow> compare start limit < 0 \<Longrightarrow>
      valid (separator start limit) \<and> compare start (separator start limit) \<le> 0 \<and> compare (separator start limit) limit < 0"
    and succeeds: "valid key \<Longrightarrow> valid (successor key) \<and> compare key (successor key) \<le> 0"
begin

lemma separator_splits:
  assumes "valid start" and "valid limit" and "valid k" and "compare start limit < 0"
  shows "compare k start \<le> 0 \<Longrightarrow> compare k (separator start limit) \<le> 0"
    and "compare limit k \<le> 0 \<Longrightarrow> compare (separator start limit) k < 0"
  using separates [OF assms(1,2,4)] assms le_trans [of k start "separator start limit"]
    less_le_trans [of "separator start limit" limit k] by blast+

end

text \<open>
  What ordered containers use of a comparison: it is a total preorder. Keys that compare equal need not be
  equal; the entries of a memtable compare by a part of them.
\<close>

locale compare_order =
  fixes valid :: "'k \<Rightarrow> bool" and compare :: "'k \<Rightarrow> 'k \<Rightarrow> int"
  assumes order_swap: "valid a \<Longrightarrow> valid b \<Longrightarrow> compare a b < 0 \<longleftrightarrow> compare b a > 0"
    and order_trans: "valid a \<Longrightarrow> valid b \<Longrightarrow> valid c \<Longrightarrow> compare a b \<le> 0 \<Longrightarrow> compare b c \<le> 0 \<Longrightarrow> compare a c \<le> 0"
begin

lemma less_not_le: "valid a \<Longrightarrow> valid b \<Longrightarrow> compare a b < 0 \<longleftrightarrow> \<not> compare b a \<le> 0"
  using order_swap [of a b] by auto

lemma less_trans: "valid a \<Longrightarrow> valid b \<Longrightarrow> valid c \<Longrightarrow> compare a b < 0 \<Longrightarrow> compare b c < 0 \<Longrightarrow> compare a c < 0"
  using order_trans [of b c a] less_not_le [of a b] less_not_le [of b c] less_not_le [of a c] by linarith

lemma less_of_le: "valid a \<Longrightarrow> valid b \<Longrightarrow> valid c \<Longrightarrow> compare a b < 0 \<Longrightarrow> compare b c \<le> 0 \<Longrightarrow> compare a c < 0"
  using order_trans [of b c a] less_not_le [of a b] less_not_le [of a c] by linarith

lemma le_of_less: "valid a \<Longrightarrow> valid b \<Longrightarrow> valid c \<Longrightarrow> compare a b \<le> 0 \<Longrightarrow> compare b c < 0 \<Longrightarrow> compare a c < 0"
  using order_trans [of c a b] less_not_le [of b c] less_not_le [of a c] by linarith

lemma same [simp]: "valid a \<Longrightarrow> compare a a = 0"
  using order_swap [of a a] by auto

end

sublocale key_order \<subseteq> compare_order
  using swap le_trans by unfold_locales blast+

section \<open>The bytewise comparator keeps it\<close>

lemma Bytewise_less [simp]: "Bytewise_Compare a b < 0 \<longleftrightarrow> bytes_less a b"
  and Bytewise_le: "Bytewise_Compare a b \<le> 0 \<longleftrightarrow> bytes_less a b \<or> a = b"
  by (auto simp: Bytewise_Compare_def Slice_compare_spec)

lemma byte_successor: "b < 0xff \<Longrightarrow> unat (b + 1) = unat b + 1" for b :: u8
  by (simp add: word_less_nat_alt unat_word_ariths)

lemma bytes_less_same: "bytes_less (xs @ as) (xs @ bs) \<longleftrightarrow> bytes_less as bs"
  by (induction xs) auto

lemma diff_index_spec:
  "diff_index a b = d \<Longrightarrow> d < min (length a) (length b) \<Longrightarrow>
   \<exists>as bs. a = take d a @ (a ! d) # as \<and> b = take d a @ (b ! d) # bs \<and> a ! d \<noteq> b ! d"
proof (induction a b arbitrary: d rule: diff_index.induct)
  case (1 a as b bs)
  show ?case
  proof (cases "a = b")
    case True
    with 1 obtain e where "d = Suc e" "diff_index as bs = e" "e < min (length as) (length bs)" by auto
    with 1(1) [OF True, of e] True show ?thesis by simp
  qed (use 1 in auto)
qed auto

lemma separator_bytes:
  assumes "bytes_less start limit"
  shows "bytes_less start (FindShortestSeparator start limit) \<or> FindShortestSeparator start limit = start"
    and "bytes_less (FindShortestSeparator start limit) limit"
proof -
  define d where "d = diff_index start limit"
  define b where "b = start ! d"
  consider "FindShortestSeparator start limit = start"
    | "d < min (length start) (length limit)" "b < 0xff" "unat b + 1 < unat (limit ! d)"
      "FindShortestSeparator start limit = take (d + 1) (start[d := b + 1])"
  proof -
    have "FindShortestSeparator start limit =
        (if d < min (length start) (length limit) \<and> b < 0xff \<and> unat b + 1 < unat (limit ! d)
         then take (d + 1) (start[d := b + 1]) else start)"
      by (auto simp: FindShortestSeparator_def Let_def d_def b_def)
    then show thesis using that by metis
  qed
  then have "(bytes_less start (FindShortestSeparator start limit) \<or> FindShortestSeparator start limit = start)
    \<and> bytes_less (FindShortestSeparator start limit) limit"
  proof cases
    case 2
    obtain as bs where s: "start = take d start @ b # as" "limit = take d start @ (limit ! d) # bs"
      using diff_index_spec [OF d_def [symmetric] 2(1)] unfolding b_def by blast
    have "FindShortestSeparator start limit = take d start @ [b + 1]"
      using 2(1,4) by (simp add: take_Suc_conv_app_nth take_update_cancel)
    moreover have "b < b + 1" "b + 1 < limit ! d" using byte_successor [OF 2(2)] 2(3) by (simp_all add: word_less_nat_alt)
    ultimately show ?thesis using s bytes_less_same by (metis bytes_less.simps(4))
  qed (use assms in simp)
  then show "bytes_less start (FindShortestSeparator start limit) \<or> FindShortestSeparator start limit = start"
    "bytes_less (FindShortestSeparator start limit) limit" by auto
qed

lemma successor_bytes: "successor_loop key = Some s \<Longrightarrow> bytes_less key s"
proof (induction key arbitrary: s)
  case (Cons b key)
  show ?case
  proof (cases "b = 0xff")
    case False
    then have "b < 0xff" using unsigned_less [of b, where 'a = nat] by (simp add: word_less_nat_alt word_unat_eq_iff)
    then have "b < b + 1" using byte_successor [of b] by (simp add: word_less_nat_alt)
    with False show ?thesis using Cons.prems by auto
  qed (use Cons in auto)
qed simp

interpretation bytewise: comparator "\<lambda>_. True" Bytewise_Compare FindShortestSeparator FindShortSuccessor
proof
  fix a b c :: slice
  show "Bytewise_Compare a b = 0 \<longleftrightarrow> a = b"
    by (auto simp: Bytewise_Compare_def Slice_compare_spec)
  show "Bytewise_Compare a b < 0 \<longleftrightarrow> Bytewise_Compare b a > 0"
    using bytes_less_total [of a b] bytes_less_trans [of a b a] by (auto simp: Bytewise_Compare_def Slice_compare_spec)
  show "Bytewise_Compare a b < 0 \<Longrightarrow> Bytewise_Compare b c < 0 \<Longrightarrow> Bytewise_Compare a c < 0"
    using bytes_less_trans by simp
  show "Bytewise_Compare a b < 0 \<Longrightarrow> True \<and> Bytewise_Compare a (FindShortestSeparator a b) \<le> 0
      \<and> Bytewise_Compare (FindShortestSeparator a b) b < 0"
    using separator_bytes [of a b] by (auto simp: Bytewise_le)
  show "True \<and> Bytewise_Compare a (FindShortSuccessor a) \<le> 0"
    using successor_bytes [of a] by (auto simp: Bytewise_le FindShortSuccessor_def split: option.splits)
qed

end
