(* ===== verification/Ldb_Bloom.thy ===== *)
theory Ldb_Bloom
  imports Ldb_Status
begin

text \<open>
  \<^verbatim>\<open>util/hash.cc\<close> and the Bloom filters of \<^verbatim>\<open>util/bloom.cc\<close>. A filter is the array of bits followed
  by a byte with the number of probes.
\<close>

section \<open>The hash function\<close>

definition hash_m :: u32 where "hash_m = 0xc6a4a793"
definition hash_r :: nat where "hash_r = 24"

text \<open>The loop over four bytes at a time; it returns the remaining bytes too.\<close>

function hash_words :: "slice \<Rightarrow> u32 \<Rightarrow> slice \<times> u32" where
  "hash_words data h =
     (if length data \<ge> 4 then
        let h1 = (h + DecodeFixed32 data) * hash_m in hash_words (drop 4 data) (h1 XOR drop_bit 16 h1)
      else (data, h))"
  by pat_completeness auto
termination by (relation "measure (\<lambda>(data, h). length data)") auto

declare hash_words.simps [simp del]

text \<open>The switch on the number of remaining bytes, whose cases fall through.\<close>

definition hash_tail :: "slice \<Rightarrow> u32 \<Rightarrow> u32" where
  "hash_tail data h =
     (let h3 = (if length data = 3 then h + push_bit 16 (ucast (data ! 2)) else h);
          h2 = (if length data = 3 \<or> length data = 2 then h3 + push_bit 8 (ucast (data ! 1)) else h3);
          h1 = (h2 + ucast (data ! 0)) * hash_m
      in if length data = 0 then h else h1 XOR drop_bit hash_r h1)"

definition Hash :: "slice \<Rightarrow> u32 \<Rightarrow> u32" where
  "Hash data seed =
     (let h = seed XOR (of_nat (length data) * hash_m); (rest, h') = hash_words data h in hash_tail rest h')"

section \<open>Filters\<close>

definition BloomHash :: "slice \<Rightarrow> u32" where
  "BloomHash key = Hash key 0xbc9f1d34"

record bloom_policy =
  bp_bits_per_key :: u64
  bp_k :: u64

text \<open>The constructor; \<open>product\<close> is \<^verbatim>\<open>bits_per_key * 0.69\<close>, computed in floating point and truncated.\<close>

definition BloomFilterPolicy :: "u64 \<Rightarrow> u64 \<Rightarrow> bloom_policy" where
  "BloomFilterPolicy bits_per_key product =
     (let k1 = (if product < 1 then 1 else product); k2 = (if k1 > 30 then 30 else k1)
      in \<lparr>bp_bits_per_key = bits_per_key, bp_k = k2\<rparr>)"

definition Bloom_Name :: slice where
  "Bloom_Name = str ''leveldb.BuiltinBloomFilter2''"

definition bloom_delta :: "u32 \<Rightarrow> u32" where
  "bloom_delta h = drop_bit 17 h OR push_bit 15 h"

text \<open>The probes of one key, in the creation of a filter and in the lookup.\<close>

primrec set_probes :: "nat \<Rightarrow> nat \<Rightarrow> u32 \<Rightarrow> u32 \<Rightarrow> slice \<Rightarrow> slice" where
  "set_probes 0 bits h delta arr = arr"
| "set_probes (Suc j) bits h delta arr =
     (let bitpos = unat h mod bits in
      set_probes j bits (h + delta) delta
        (arr[bitpos div 8 := arr ! (bitpos div 8) OR push_bit (bitpos mod 8) 1]))"

primrec test_probes :: "nat \<Rightarrow> nat \<Rightarrow> u32 \<Rightarrow> u32 \<Rightarrow> slice \<Rightarrow> bool" where
  "test_probes 0 bits h delta arr = True"
| "test_probes (Suc j) bits h delta arr =
     (let bitpos = unat h mod bits in
      if arr ! (bitpos div 8) AND push_bit (bitpos mod 8) 1 = 0 then False
      else test_probes j bits (h + delta) delta arr)"

primrec add_keys :: "nat \<Rightarrow> nat \<Rightarrow> slice list \<Rightarrow> slice \<Rightarrow> slice" where
  "add_keys k bits [] arr = arr"
| "add_keys k bits (key # keys) arr =
     (let h = BloomHash key in add_keys k bits keys (set_probes k bits h (bloom_delta h) arr))"

text \<open>The number of bytes of the array; the products and sums are those of \<^verbatim>\<open>size_t\<close>.\<close>

definition filter_bytes :: "bloom_policy \<Rightarrow> nat \<Rightarrow> nat" where
  "filter_bytes p n =
     (let bits1 = of_nat n * bp_bits_per_key p; bits2 = (if bits1 < 64 then 64 else bits1) in unat (bits2 + 7) div 8)"

definition CreateFilter :: "bloom_policy \<Rightarrow> slice list \<Rightarrow> slice \<Rightarrow> slice" where
  "CreateFilter p keys dst =
     (let bytes = filter_bytes p (length keys); bits = bytes * 8
      in dst @ add_keys (unat (bp_k p)) bits keys (replicate bytes 0) @ [ucast (bp_k p)])"

text \<open>The number of probes is a \<^verbatim>\<open>char\<close> that is widened with its sign.\<close>

definition KeyMayMatch :: "slice \<Rightarrow> slice \<Rightarrow> bool" where
  "KeyMayMatch key bloom_filter =
     (let len = length bloom_filter in
      if len < 2 then False
      else let bits = (len - 1) * 8; k = scast (bloom_filter ! (len - 1)) :: u64 in
        if k > 30 then True
        else let h = BloomHash key in test_probes (unat k) bits h (bloom_delta h) bloom_filter)"

section \<open>Probes\<close>

abbreviation bit_at :: "slice \<Rightarrow> nat \<Rightarrow> bool" where
  "bit_at arr pos \<equiv> bit (arr ! (pos div 8)) (pos mod 8)"

lemma length_set_probes [simp]: "length (set_probes j bits h d arr) = length arr"
  by (induction j arbitrary: h arr) (simp_all add: Let_def)

lemma length_add_keys [simp]: "length (add_keys k bits keys arr) = length arr"
  by (induction keys arbitrary: arr) (simp_all add: Let_def)

lemma bit_at_set:
  assumes "q < 8 * length arr"
  shows "bit_at (arr[q div 8 := arr ! (q div 8) OR push_bit (q mod 8) 1]) pos \<longleftrightarrow> bit_at arr pos \<or> pos = q"
proof (cases "pos div 8 = q div 8")
  case True
  have "q div 8 < length arr" using assms by (simp add: less_mult_imp_div_less mult.commute)
  moreover have "pos = q \<longleftrightarrow> pos mod 8 = q mod 8" using True by (metis div_mult_mod_eq)
  ultimately show ?thesis using True by (auto simp: bit_simps)
next
  case False
  then show ?thesis by auto
qed

lemma bit_at_set_probes:
  assumes "0 < bits" and "bits \<le> 8 * length arr"
  shows "bit_at (set_probes j bits h d arr) pos \<longleftrightarrow> bit_at arr pos \<or> (\<exists>i<j. pos = unat (h + of_nat i * d) mod bits)"
  using assms(2)
proof (induction j arbitrary: h arr)
  case (Suc j)
  have q: "unat h mod bits < 8 * length arr" using assms(1) Suc.prems by (meson mod_less_divisor less_le_trans)
  have "(\<exists>i<Suc j. pos = unat (h + of_nat i * d) mod bits) \<longleftrightarrow>
      pos = unat h mod bits \<or> (\<exists>i<j. pos = unat (h + d + of_nat i * d) mod bits)"
    by (auto simp: Ex_less_Suc2 algebra_simps)
  then show ?case using Suc.IH [of _ "h + d"] Suc.prems bit_at_set [OF q, of pos] by (simp add: Let_def)
qed simp

lemma test_probes_bits:
  "test_probes j bits h d arr \<longleftrightarrow> (\<forall>i<j. bit_at arr (unat (h + of_nat i * d) mod bits))"
proof (induction j arbitrary: h)
  case (Suc j)
  have "(\<forall>i<Suc j. bit_at arr (unat (h + of_nat i * d) mod bits)) \<longleftrightarrow>
      bit_at arr (unat h mod bits) \<and> (\<forall>i<j. bit_at arr (unat (h + d + of_nat i * d) mod bits))"
    by (simp add: All_less_Suc2 algebra_simps)
  then show ?case
    using Suc.IH [of "h + d"] and_exp_eq_0_iff_not_bit [of "arr ! (unat h mod bits div 8)" "unat h mod bits mod 8"]
    by (simp add: Let_def push_bit_eq_mult)
qed simp

lemma bits_stay:
  "0 < bits \<Longrightarrow> bits \<le> 8 * length arr \<Longrightarrow> bit_at arr pos \<Longrightarrow> bit_at (add_keys k bits keys arr) pos"
  by (induction keys arbitrary: arr) (simp_all add: Let_def bit_at_set_probes)

lemma added_keys_match:
  assumes "0 < bits" and "bits \<le> 8 * length arr" and "key \<in> set keys"
  shows "test_probes k bits (BloomHash key) (bloom_delta (BloomHash key)) (add_keys k bits keys arr)"
  using assms(2,3)
proof (induction keys arbitrary: arr)
  case (Cons x keys)
  let ?arr = "set_probes k bits (BloomHash x) (bloom_delta (BloomHash x)) arr"
  show ?case
  proof (cases "key = x")
    case True
    then show ?thesis using assms(1) Cons.prems
      by (auto simp: Let_def test_probes_bits bit_at_set_probes intro!: bits_stay)
  next
    case False
    then show ?thesis using Cons.IH [of ?arr] Cons.prems by (simp add: Let_def)
  qed
qed simp

lemma test_probes_append:
  "0 < bits \<Longrightarrow> bits \<le> 8 * length arr \<Longrightarrow> test_probes j bits h d (arr @ rest) = test_probes j bits h d arr"
proof -
  assume b: "0 < bits" "bits \<le> 8 * length arr"
  have "x mod bits div 8 < length arr" for x
  proof -
    have "x mod bits < length arr * 8" using b mod_less_divisor [of bits x] by linarith
    then show ?thesis by (rule less_mult_imp_div_less)
  qed
  then show ?thesis by (simp add: test_probes_bits nth_append)
qed

lemma bp_k_range: "1 \<le> unat (bp_k (BloomFilterPolicy b product)) \<and> unat (bp_k (BloomFilterPolicy b product)) \<le> 30"
  by (auto simp: BloomFilterPolicy_def Let_def word_less_nat_alt word_le_nat_alt not_less)

lemma stored_k: "unat k \<le> 30 \<Longrightarrow> (scast (ucast (k :: u64) :: u8) :: u64) = k"
proof -
  assume "unat k \<le> 30"
  then have "unat k < 2 ^ 5" by simp
  then have "\<not> bit k i" if "i \<ge> 5" for i
    using that by (metis bit_unsigned_iff bit_take_bit_iff take_bit_nat_eq_self not_le unsigned_take_bit_eq word_unat_eq_iff)
  then show ?thesis by (intro bit_word_eqI) (auto simp: bit_simps min_def)
qed

lemma filter_bytes_bounds:
  assumes "n * unat (bp_bits_per_key p) + 7 < 2 ^ 64"
  shows "8 \<le> filter_bytes p n"
proof -
  define b where "b = (if (of_nat n * bp_bits_per_key p) < 64 then 64 else of_nat n * bp_bits_per_key p)"
  have "n * unat (bp_bits_per_key p) = unat (of_nat n * bp_bits_per_key p)"
    using assms by (simp add: unat_word_ariths unat_of_nat mod_mult_left_eq)
  then have "unat b + 7 < 2 ^ 64 \<and> 64 \<le> unat b" using assms by (auto simp: b_def word_less_nat_alt)
  then have "64 \<le> unat (b + 7)" by (simp add: unat_word_ariths)
  then show ?thesis by (simp add: filter_bytes_def Let_def flip: b_def)
qed

lemma CreateFilter_matches:
  assumes "key \<in> set keys" and "p = BloomFilterPolicy bits_per_key product"
    and "length keys * unat bits_per_key + 7 < 2 ^ 64"
  shows "KeyMayMatch key (drop (length dst) (CreateFilter p keys dst))"
proof -
  define n where "n = filter_bytes p (length keys)"
  define arr where "arr = add_keys (unat (bp_k p)) (n * 8) keys (replicate n 0)"
  have bits: "bp_bits_per_key p = bits_per_key" using assms(2) by (simp add: BloomFilterPolicy_def Let_def)
  have n: "8 \<le> n" using filter_bytes_bounds [of "length keys" p] assms(3) bits by (simp add: n_def)
  have k: "(scast (ucast (bp_k p) :: u8) :: u64) = bp_k p" "unat (bp_k p) \<le> 30"
    using bp_k_range assms(2) stored_k by auto
  have "test_probes (unat (bp_k p)) (n * 8) (BloomHash key) (bloom_delta (BloomHash key)) (arr @ [ucast (bp_k p)])"
    using added_keys_match [of "n * 8" "replicate n 0" key keys] assms(1) n test_probes_append [of "n * 8" arr]
    by (simp add: arr_def)
  moreover have "drop (length dst) (CreateFilter p keys dst) = arr @ [ucast (bp_k p)]" "length arr = n"
    by (simp_all add: CreateFilter_def Let_def arr_def n_def)
  ultimately show ?thesis
    using n k by (simp add: KeyMayMatch_def Let_def nth_append)
qed

end
