(* ===== verification/Ldb_Log.thy ===== *)
theory Ldb_Log
  imports Ldb_Status
begin

text \<open>
  leveldb's write-ahead log: \<^verbatim>\<open>db/log_format.h\<close>, \<^verbatim>\<open>db/log_writer.cc\<close> and \<^verbatim>\<open>db/log_reader.cc\<close>.

  The file a writer appends to and the file a reader reads from are parameters, given by the
  operations of \<^verbatim>\<open>WritableFile\<close> and \<^verbatim>\<open>SequentialFile\<close> on a state \<open>'f\<close>. \<^verbatim>\<open>Reader::Reporter\<close> is the
  list of the reports made so far. Checksums do not depend on the alignment of their buffer
  (\<open>crc_Extend_spec\<close>), so they are taken at remainder 0.
\<close>

section \<open>Format\<close>

definition kZeroType :: nat where "kZeroType = 0"
definition kFullType :: nat where "kFullType = 1"
definition kFirstType :: nat where "kFirstType = 2"
definition kMiddleType :: nat where "kMiddleType = 3"
definition kLastType :: nat where "kLastType = 4"
definition kMaxRecordType :: nat where "kMaxRecordType = kLastType"
definition kBlockSize :: nat where "kBlockSize = 32768"
definition kHeaderSize :: nat where "kHeaderSize = 7"

section \<open>Writing\<close>

record 'f wfile =
  wf_Append :: "slice \<Rightarrow> 'f \<Rightarrow> status \<times> 'f"
  wf_Flush :: "'f \<Rightarrow> status \<times> 'f"

record 'f log_writer =
  lw_dest :: 'f
  lw_block_offset :: nat
  lw_type_crc :: "u32 list"

definition InitTypeCrc :: "u32 list" where
  "InitTypeCrc = map (\<lambda>i. crc_Value 0 [of_nat i]) [0..<Suc kMaxRecordType]"

definition Writer_new :: "'f \<Rightarrow> u64 \<Rightarrow> 'f log_writer" where
  "Writer_new dest dest_length =
     \<lparr>lw_dest = dest, lw_block_offset = unat dest_length mod kBlockSize, lw_type_crc = InitTypeCrc\<rparr>"

text \<open>The header and the payload of a physical record.\<close>

definition physical_header :: "u32 list \<Rightarrow> nat \<Rightarrow> slice \<Rightarrow> slice" where
  "physical_header type_crc t payload =
     (let n = length payload; crc = crc_Mask (crc_Extend 0 (type_crc ! t) payload)
      in EncodeFixed32 crc @ [of_nat (n mod 256), of_nat (n div 256), of_nat t])"

definition EmitPhysicalRecord ::
  "'f wfile \<Rightarrow> nat \<Rightarrow> slice \<Rightarrow> 'f log_writer \<Rightarrow> status \<times> 'f log_writer" where
  "EmitPhysicalRecord ops t payload w =
     (let buf = physical_header (lw_type_crc w) t payload;
          (s1, d1) = wf_Append ops buf (lw_dest w);
          (s, d) = (if \<not> status_ok s1 then (s1, d1)
                    else let (s2, d2) = wf_Append ops payload d1 in
                         if \<not> status_ok s2 then (s2, d2) else wf_Flush ops d2)
      in (s, w\<lparr>lw_dest := d, lw_block_offset := lw_block_offset w + kHeaderSize + length payload\<rparr>))"

text \<open>Switching to a new block; the status of the trailer's write is ignored.\<close>

definition switch_block :: "'f wfile \<Rightarrow> 'f log_writer \<Rightarrow> 'f log_writer" where
  "switch_block ops w =
     (let leftover = kBlockSize - lw_block_offset w in
      if leftover < kHeaderSize then
        (if leftover > 0 then w\<lparr>lw_dest := snd (wf_Append ops (replicate leftover 0) (lw_dest w))\<rparr> else w)
          \<lparr>lw_block_offset := 0\<rparr>
      else w)"

definition fragment_type :: "bool \<Rightarrow> bool \<Rightarrow> nat" where
  "fragment_type is_first is_last =
     (if is_first \<and> is_last then kFullType else if is_first then kFirstType
      else if is_last then kLastType else kMiddleType)"

text \<open>The loop of \<^verbatim>\<open>Writer::AddRecord\<close>; \<open>first\<close> is \<^verbatim>\<open>begin\<close>.\<close>

function add_record_loop :: "'f wfile \<Rightarrow> bool \<Rightarrow> slice \<Rightarrow> 'f log_writer \<Rightarrow> status \<times> 'f log_writer" where
  "add_record_loop ops first ptr w =
     (let w1 = switch_block ops w;
          avail = kBlockSize - lw_block_offset w1 - kHeaderSize;
          fragment_length = (if length ptr < avail then length ptr else avail);
          (s, w2) = EmitPhysicalRecord ops (fragment_type first (length ptr = fragment_length))
                      (take fragment_length ptr) w1
      in if status_ok s \<and> length ptr - fragment_length > 0
         then add_record_loop ops False (drop fragment_length ptr) w2
         else (s, w2))"
  by pat_completeness auto
termination
proof (relation "measures [\<lambda>(ops, first, ptr, w). length ptr,
    \<lambda>(ops, first, ptr, w). if lw_block_offset w = kBlockSize - kHeaderSize then 1 else 0]", goal_cases)
  case (2 ops first ptr w w1 avail fl y s w2)
  then have w2: "lw_block_offset w2 = lw_block_offset w1 + kHeaderSize + length (take fl ptr)"
    by (auto simp: EmitPhysicalRecord_def Let_def split: prod.splits)
  show ?case
  proof (cases "fl = 0")
    case False
    with 2 show ?thesis by auto
  next
    case True
    with 2 have "avail = 0" by (auto split: if_splits)
    then have "lw_block_offset w = kBlockSize - kHeaderSize"
      using 2(1,2) by (auto simp: switch_block_def kBlockSize_def kHeaderSize_def Let_def split: if_splits)
    moreover have "lw_block_offset w1 = lw_block_offset w"
      using 2(1) \<open>lw_block_offset w = kBlockSize - kHeaderSize\<close>
      by (auto simp: switch_block_def kBlockSize_def kHeaderSize_def Let_def)
    ultimately show ?thesis using True w2 by (simp add: kBlockSize_def kHeaderSize_def)
  qed
qed auto

declare add_record_loop.simps [simp del]

definition AddRecord :: "'f wfile \<Rightarrow> slice \<Rightarrow> 'f log_writer \<Rightarrow> status \<times> 'f log_writer" where
  "AddRecord ops rec w = add_record_loop ops True rec w"

section \<open>Reading\<close>

record 'f sfile =
  sf_Read :: "nat \<Rightarrow> 'f \<Rightarrow> status \<times> slice \<times> 'f"
  sf_Skip :: "u64 \<Rightarrow> 'f \<Rightarrow> status \<times> 'f"

definition kEof :: u32 where "kEof = of_nat kMaxRecordType + 1"
definition kBadRecord :: u32 where "kBadRecord = of_nat kMaxRecordType + 2"

record 'f log_reader =
  lr_file :: 'f
  lr_has_reporter :: bool
  lr_reports :: "(u64 \<times> status) list"
  lr_checksum :: bool
  lr_buffer :: slice
  lr_eof :: bool
  lr_last_record_offset :: u64
  lr_end_of_buffer_offset :: u64
  lr_initial_offset :: u64
  lr_resyncing :: bool

definition Reader_new :: "'f \<Rightarrow> bool \<Rightarrow> bool \<Rightarrow> u64 \<Rightarrow> 'f log_reader" where
  "Reader_new file has_reporter checksum initial_offset =
     \<lparr>lr_file = file, lr_has_reporter = has_reporter, lr_reports = [], lr_checksum = checksum,
      lr_buffer = [], lr_eof = False, lr_last_record_offset = 0, lr_end_of_buffer_offset = 0,
      lr_initial_offset = initial_offset, lr_resyncing = initial_offset > 0\<rparr>"

definition ReportDrop :: "u64 \<Rightarrow> status \<Rightarrow> 'f log_reader \<Rightarrow> 'f log_reader" where
  "ReportDrop bytes reason r =
     (if lr_has_reporter r
         \<and> lr_end_of_buffer_offset r - of_nat (length (lr_buffer r)) - bytes \<ge> lr_initial_offset r
      then r\<lparr>lr_reports := lr_reports r @ [(bytes, reason)]\<rparr> else r)"

definition ReportCorruption :: "u64 \<Rightarrow> slice \<Rightarrow> 'f log_reader \<Rightarrow> 'f log_reader" where
  "ReportCorruption bytes reason r = ReportDrop bytes (Status_Corruption reason []) r"

definition SkipToInitialBlock :: "'f sfile \<Rightarrow> 'f log_reader \<Rightarrow> bool \<times> 'f log_reader" where
  "SkipToInitialBlock ops r =
     (let offset_in_block = lr_initial_offset r mod of_nat kBlockSize;
          start = lr_initial_offset r - offset_in_block;
          block_start_location = (if offset_in_block > of_nat kBlockSize - 6 then start + of_nat kBlockSize else start);
          r1 = r\<lparr>lr_end_of_buffer_offset := block_start_location\<rparr>
      in if block_start_location > 0 then
           let (s, f) = sf_Skip ops block_start_location (lr_file r1); r2 = r1\<lparr>lr_file := f\<rparr> in
           if \<not> status_ok s then (False, ReportDrop block_start_location s r2) else (True, r2)
         else (True, r1))"

text \<open>
  The part of \<^verbatim>\<open>ReadPhysicalRecord\<close> behind the refilling of the buffer. It returns the type and
  the new value of the caller's slice, \<open>None\<close> where that is left as it is. The type byte is a
  signed \<^verbatim>\<open>char\<close> that is widened.
\<close>

definition parse_record :: "'f log_reader \<Rightarrow> (u32 \<times> slice option) \<times> 'f log_reader" where
  "parse_record r =
     (let header = lr_buffer r;
          a = unat (header ! 4); b = unat (header ! 5);
          rtype = scast (header ! 6) :: u32;
          len = a + 256 * b;
          cleared = r\<lparr>lr_buffer := []\<rparr>;
          drop_size = of_nat (length header)
      in if kHeaderSize + len > length header then
           (if \<not> lr_eof r then ((kBadRecord, None), ReportCorruption drop_size (str ''bad record length'') cleared)
            else ((kEof, None), cleared))
         else if rtype = of_nat kZeroType \<and> len = 0 then ((kBadRecord, None), cleared)
         else if lr_checksum r
              \<and> crc_Value 0 (take (1 + len) (drop 6 header)) \<noteq> crc_Unmask (DecodeFixed32 header)
         then ((kBadRecord, None), ReportCorruption drop_size (str ''checksum mismatch'') cleared)
         else
           let r1 = r\<lparr>lr_buffer := remove_prefix (kHeaderSize + len) header\<rparr> in
           if lr_end_of_buffer_offset r1 - of_nat (length (lr_buffer r1)) - of_nat kHeaderSize - of_nat len
                < lr_initial_offset r1
           then ((kBadRecord, Some []), r1)
           else ((rtype, Some (take len (drop kHeaderSize header))), r1))"

function ReadPhysicalRecord :: "'f sfile \<Rightarrow> 'f log_reader \<Rightarrow> (u32 \<times> slice option) \<times> 'f log_reader" where
  "ReadPhysicalRecord ops r =
     (if length (lr_buffer r) < kHeaderSize then
        if \<not> lr_eof r then
          let (s, buf, f) = sf_Read ops kBlockSize (lr_file r);
              r1 = r\<lparr>lr_file := f, lr_buffer := buf,
                     lr_end_of_buffer_offset := lr_end_of_buffer_offset r + of_nat (length buf)\<rparr>
          in if \<not> status_ok s then
               ((kEof, None),
                (ReportDrop (of_nat kBlockSize) s (r1\<lparr>lr_buffer := []\<rparr>))\<lparr>lr_eof := True\<rparr>)
             else ReadPhysicalRecord ops (if length buf < kBlockSize then r1\<lparr>lr_eof := True\<rparr> else r1)
        else ((kEof, None), r\<lparr>lr_buffer := []\<rparr>)
      else parse_record r)"
  by pat_completeness auto
termination
  by (relation "measure (\<lambda>(ops, r). if length (lr_buffer r) < kHeaderSize \<and> \<not> lr_eof r then 1 else 0)")
    (auto simp: kBlockSize_def kHeaderSize_def)

declare ReadPhysicalRecord.simps [simp del]

text \<open>The local variables of \<^verbatim>\<open>ReadRecord\<close>.\<close>

record read_locals =
  rl_scratch :: slice
  rl_in_fragmented :: bool
  rl_prospective :: u64
  rl_fragment :: slice

text \<open>A round of the loop: it returns, with \<open>Some\<close> record or with \<open>None\<close> at the end of the input, or goes on.\<close>

datatype round = Return "slice option" | Continue

definition end_partial :: "slice \<Rightarrow> read_locals \<Rightarrow> 'f log_reader \<Rightarrow> 'f log_reader" where
  "end_partial reason l r =
     (if rl_in_fragmented l \<and> rl_scratch l \<noteq> []
      then ReportCorruption (of_nat (length (rl_scratch l))) reason r else r)"

definition read_round ::
  "'f sfile \<Rightarrow> read_locals \<Rightarrow> 'f log_reader \<Rightarrow> round \<times> read_locals \<times> 'f log_reader" where
  "read_round ops l0 r0 =
     (let ((record_type, res), r) = ReadPhysicalRecord ops r0;
          fragment = (case res of None \<Rightarrow> rl_fragment l0 | Some f \<Rightarrow> f);
          l = l0\<lparr>rl_fragment := fragment\<rparr>;
          physical_record_offset = lr_end_of_buffer_offset r - of_nat (length (lr_buffer r))
            - of_nat kHeaderSize - of_nat (length fragment);
          skip = lr_resyncing r \<and> (record_type = of_nat kMiddleType \<or> record_type = of_nat kLastType);
          r1 = (if lr_resyncing r \<and> record_type \<noteq> of_nat kMiddleType then r\<lparr>lr_resyncing := False\<rparr> else r);
          scratch = rl_scratch l
      in
        if skip then (Continue, l, r1)
        else if record_type = of_nat kFullType then
          (Return (Some fragment),
           l\<lparr>rl_scratch := [], rl_prospective := physical_record_offset,
             rl_in_fragmented := rl_in_fragmented l \<and> scratch \<noteq> []\<rparr>,
           (end_partial (str ''partial record without end(1)'') l r1)\<lparr>lr_last_record_offset := physical_record_offset\<rparr>)
        else if record_type = of_nat kFirstType then
          (Continue,
           l\<lparr>rl_scratch := fragment, rl_prospective := physical_record_offset, rl_in_fragmented := True\<rparr>,
           end_partial (str ''partial record without end(2)'') l r1)
        else if record_type = of_nat kMiddleType then
          (if \<not> rl_in_fragmented l
           then (Continue, l, ReportCorruption (of_nat (length fragment)) (str ''missing start of fragmented record(1)'') r1)
           else (Continue, l\<lparr>rl_scratch := scratch @ fragment\<rparr>, r1))
        else if record_type = of_nat kLastType then
          (if \<not> rl_in_fragmented l
           then (Continue, l, ReportCorruption (of_nat (length fragment)) (str ''missing start of fragmented record(2)'') r1)
           else (Return (Some (scratch @ fragment)), l\<lparr>rl_scratch := scratch @ fragment\<rparr>,
                 r1\<lparr>lr_last_record_offset := rl_prospective l\<rparr>))
        else if record_type = kEof then
          (Return None, if rl_in_fragmented l then l\<lparr>rl_scratch := []\<rparr> else l, r1)
        else if record_type = kBadRecord then
          (if rl_in_fragmented l
           then (Continue, l\<lparr>rl_in_fragmented := False, rl_scratch := []\<rparr>,
                 ReportCorruption (of_nat (length scratch)) (str ''error in middle of record'') r1)
           else (Continue, l, r1))
        else
          (Continue, l\<lparr>rl_in_fragmented := False, rl_scratch := []\<rparr>,
           ReportCorruption (of_nat (length fragment + (if rl_in_fragmented l then length scratch else 0)))
             (str ''unknown record type '' @ decimal (unat record_type)) r1))"

text \<open>The loop; the fuel bounds its rounds.\<close>

fun read_rounds ::
  "nat \<Rightarrow> 'f sfile \<Rightarrow> read_locals \<Rightarrow> 'f log_reader \<Rightarrow> (slice option \<times> 'f log_reader) option" where
  "read_rounds 0 ops l r = None"
| "read_rounds (Suc n) ops l r =
     (case read_round ops l r of
        (Return res, l', r') \<Rightarrow> Some (res, r')
      | (Continue, l', r') \<Rightarrow> read_rounds n ops l' r')"

definition ReadRecord :: "nat \<Rightarrow> 'f sfile \<Rightarrow> 'f log_reader \<Rightarrow> (slice option \<times> 'f log_reader) option" where
  "ReadRecord n ops r =
     (let start = \<lparr>rl_scratch = [], rl_in_fragmented = False, rl_prospective = 0, rl_fragment = []\<rparr> in
      if lr_last_record_offset r < lr_initial_offset r then
        let (ok, r1) = SkipToInitialBlock ops r in
        if \<not> ok then Some (None, r1) else read_rounds n ops start r1
      else read_rounds n ops start r)"

definition LastRecordOffset :: "'f log_reader \<Rightarrow> u64" where
  "LastRecordOffset r = lr_last_record_offset r"

text \<open>Reading a log to its end, as recovery does.\<close>

fun read_all :: "nat \<Rightarrow> 'f sfile \<Rightarrow> 'f log_reader \<Rightarrow> (slice list \<times> 'f log_reader) option" where
  "read_all 0 ops r = None"
| "read_all (Suc n) ops r =
     (case ReadRecord (Suc n) ops r of
        None \<Rightarrow> None
      | Some (None, r') \<Rightarrow> Some ([], r')
      | Some (Some rec, r') \<Rightarrow> map_option (\<lambda>(recs, r''). (rec # recs, r'')) (read_all n ops r'))"

end
