(* ===== verification/Ldb_Env.thy ===== *)
theory Ldb_Env
  imports Ldb_Log
begin

text \<open>
  The POSIX files of \<^verbatim>\<open>util/env_posix.cc\<close>: sequential, random-access (by \<^verbatim>\<open>pread\<close> and by \<^verbatim>\<open>mmap\<close>)
  and writable files, the resource limiter and the lock table.

  A \<^verbatim>\<open>FILE\<close> of the C library is a record of the bytes of the file, the position of the stream, its
  end-of-file flag, the number of bytes that the device still takes before a write fails, the number
  of leading bytes that can be read before a read fails, whether flushing fails, and the text of
  \<^verbatim>\<open>strerror(errno)\<close>.
\<close>

section \<open>Streams of the C library\<close>

record cfile =
  cf_bytes :: slice
  cf_pos :: nat
  cf_eof :: bool
  cf_room :: nat
  cf_good :: nat
  cf_flush_fails :: bool
  cf_strerror :: slice

definition fwrite :: "slice \<Rightarrow> cfile \<Rightarrow> nat \<times> cfile" where
  "fwrite data f =
     (let n = min (length data) (cf_room f) in
      (n, f\<lparr>cf_bytes := cf_bytes f @ take n data, cf_room := cf_room f - n\<rparr>))"

definition fflush :: "cfile \<Rightarrow> int \<times> cfile" where
  "fflush f = (if cf_flush_fails f then (-1, f) else (0, f))"

definition fread :: "nat \<Rightarrow> cfile \<Rightarrow> slice \<times> cfile" where
  "fread n f =
     (let got = take n (drop (cf_pos f) (take (cf_good f) (cf_bytes f))) in
      (got, f\<lparr>cf_pos := cf_pos f + length got,
              cf_eof := cf_eof f \<or> length got < n \<and> cf_good f \<ge> length (cf_bytes f)\<rparr>))"

text \<open>\<^verbatim>\<open>fseek(f, n, SEEK_CUR)\<close>: the offset is a signed \<^verbatim>\<open>long\<close>, and the position stays non-negative.\<close>

definition fseek_cur :: "u64 \<Rightarrow> cfile \<Rightarrow> int \<times> cfile" where
  "fseek_cur n f =
     (let p = int (cf_pos f) + sint n in
      if p < 0 then (-1, f) else (0, f\<lparr>cf_pos := nat p, cf_eof := False\<rparr>))"

section \<open>Files of \<^verbatim>\<open>PosixEnv\<close>\<close>

text \<open>\<^verbatim>\<open>PosixSequentialFile\<close> and \<^verbatim>\<open>PosixWritableFile\<close> both hold a name and a stream.\<close>

record posix_file =
  pf_filename :: slice
  pf_file :: cfile

definition IOError :: "slice \<Rightarrow> slice \<Rightarrow> status" where
  "IOError context strerr = Status_IOError context strerr"

definition pf_IOError :: "posix_file \<Rightarrow> status" where
  "pf_IOError f = IOError (pf_filename f) (cf_strerror (pf_file f))"

definition PosixSequentialFile_Read :: "nat \<Rightarrow> posix_file \<Rightarrow> status \<times> slice \<times> posix_file" where
  "PosixSequentialFile_Read n f =
     (let (r, file) = fread n (pf_file f); f' = f\<lparr>pf_file := file\<rparr> in
      (if length r < n then (if cf_eof file then Status_OK else pf_IOError f') else Status_OK, r, f'))"

definition PosixSequentialFile_Skip :: "u64 \<Rightarrow> posix_file \<Rightarrow> status \<times> posix_file" where
  "PosixSequentialFile_Skip n f =
     (let (rc, file) = fseek_cur n (pf_file f); f' = f\<lparr>pf_file := file\<rparr> in
      (if rc \<noteq> 0 then pf_IOError f' else Status_OK, f'))"

definition PosixWritableFile_Append :: "slice \<Rightarrow> posix_file \<Rightarrow> status \<times> posix_file" where
  "PosixWritableFile_Append data f =
     (let (r, file) = fwrite data (pf_file f); f' = f\<lparr>pf_file := file\<rparr> in
      (if r \<noteq> length data then pf_IOError f' else Status_OK, f'))"

definition PosixWritableFile_Flush :: "posix_file \<Rightarrow> status \<times> posix_file" where
  "PosixWritableFile_Flush f =
     (let (rc, file) = fflush (pf_file f); f' = f\<lparr>pf_file := file\<rparr> in
      (if rc \<noteq> 0 then pf_IOError f' else Status_OK, f'))"

text \<open>
  \<^verbatim>\<open>SyncDirIfManifest\<close> and \<^verbatim>\<open>Sync\<close>. The system calls on directories are parameters: \<^verbatim>\<open>open\<close> of a
  path, \<^verbatim>\<open>fsync\<close> of a descriptor, \<^verbatim>\<open>fdatasync\<close> of the stream's file and the text of the error.
\<close>

record sys_calls =
  sys_open :: "slice \<Rightarrow> int"
  sys_fsync :: "int \<Rightarrow> int"
  sys_fdatasync :: "cfile \<Rightarrow> int"
  sys_strerror :: slice

text \<open>\<^verbatim>\<open>strrchr(f, '/')\<close> splits the name at its last separator.\<close>

fun split_sep :: "slice \<Rightarrow> (slice \<times> slice) option" where
  "split_sep [] = None"
| "split_sep (c # cs) =
     (case split_sep cs of
        Some (dir, base) \<Rightarrow> Some (c # dir, base)
      | None \<Rightarrow> if c = 47 then Some ([], cs) else None)"

definition SyncDirIfManifest :: "sys_calls \<Rightarrow> posix_file \<Rightarrow> status" where
  "SyncDirIfManifest sys f =
     (let (dir, basename) = (case split_sep (pf_filename f) of
                               None \<Rightarrow> (str ''.'', pf_filename f)
                             | Some (d, b) \<Rightarrow> (d, b))
      in if starts_with basename (str ''MANIFEST'') then
           let fd = sys_open sys dir in
           if fd < 0 then IOError dir (sys_strerror sys)
           else if sys_fsync sys fd < 0 then IOError dir (sys_strerror sys) else Status_OK
         else Status_OK)"

definition PosixWritableFile_Sync :: "sys_calls \<Rightarrow> posix_file \<Rightarrow> status \<times> posix_file" where
  "PosixWritableFile_Sync sys f =
     (let s = SyncDirIfManifest sys f in
      if \<not> status_ok s then (s, f)
      else let (rc, file) = fflush (pf_file f); f' = f\<lparr>pf_file := file\<rparr> in
        if rc \<noteq> 0 \<or> sys_fdatasync sys file \<noteq> 0 then (pf_IOError f', f') else (s, f'))"

definition posix_wfile :: "posix_file wfile" where
  "posix_wfile = \<lparr>wf_Append = PosixWritableFile_Append, wf_Flush = PosixWritableFile_Flush\<rparr>"

definition posix_sfile :: "posix_file sfile" where
  "posix_sfile = \<lparr>sf_Read = PosixSequentialFile_Read, sf_Skip = PosixSequentialFile_Skip\<rparr>"

text \<open>\<^verbatim>\<open>PosixRandomAccessFile::Read\<close> : \<open>open_rdonly\<close> and \<open>pread\<close> are the system calls.\<close>

definition PosixRandomAccessFile_Read ::
  "slice \<Rightarrow> slice \<Rightarrow> bool \<Rightarrow> (slice \<Rightarrow> int) \<Rightarrow> (int \<Rightarrow> u64 \<Rightarrow> nat \<Rightarrow> slice option) \<Rightarrow> int \<Rightarrow> u64 \<Rightarrow> nat
     \<Rightarrow> status \<times> slice option" where
  "PosixRandomAccessFile_Read filename strerr temporary_fd open_rdonly pread fd0 offset n =
     (let fd = (if temporary_fd then open_rdonly filename else fd0) in
      if temporary_fd \<and> fd < 0 then (IOError filename strerr, None)
      else case pread fd offset n of
             None \<Rightarrow> (IOError filename strerr, Some [])
           | Some r \<Rightarrow> (Status_OK, Some r))"

text \<open>
  \<^verbatim>\<open>PosixMmapReadableFile::Read\<close>. The sum of the bound wraps at 64 bits; the result is the range of
  the region that the slice covers.
\<close>

definition PosixMmapReadableFile_Read :: "slice \<Rightarrow> u64 \<Rightarrow> u64 \<Rightarrow> u64 \<Rightarrow> status \<times> (u64 \<times> u64)" where
  "PosixMmapReadableFile_Read filename len offset n =
     (if offset + n > len then (IOError filename (str ''Invalid argument''), (0, 0))
      else (Status_OK, (offset, n)))"

section \<open>Limiter and lock table\<close>

text \<open>The state of a \<^verbatim>\<open>Limiter\<close> is the number of resources it still allows.\<close>

definition Limiter_Acquire :: "int \<Rightarrow> bool \<times> int" where
  "Limiter_Acquire allowed = (if allowed \<le> 0 then (False, allowed) else (True, allowed - 1))"

definition Limiter_Release :: "int \<Rightarrow> int" where
  "Limiter_Release allowed = allowed + 1"

definition LockTable_Insert :: "slice \<Rightarrow> slice set \<Rightarrow> bool \<times> slice set" where
  "LockTable_Insert fname locked = (fname \<notin> locked, insert fname locked)"

definition LockTable_Remove :: "slice \<Rightarrow> slice set \<Rightarrow> slice set" where
  "LockTable_Remove fname locked = locked - {fname}"

section \<open>What the log relies on\<close>

text \<open>
  A destination of a log: an append leaves a prefix of its data and succeeds exactly if that is all
  of it; once an append has been cut short, no further data are taken.
\<close>

locale log_dest =
  fixes ops :: "'f wfile" and contents :: "'f \<Rightarrow> slice" and full :: "'f \<Rightarrow> bool" and noflush :: "'f \<Rightarrow> bool"
  assumes append: "wf_Append ops bs f = (s, f') \<Longrightarrow>
      \<exists>k \<le> length bs. contents f' = contents f @ take k bs \<and> (status_ok s \<longleftrightarrow> k = length bs)
        \<and> (k < length bs \<longrightarrow> full f') \<and> noflush f' = noflush f"
    and append_full: "wf_Append ops bs f = (s, f') \<Longrightarrow> full f \<Longrightarrow> bs \<noteq> [] \<Longrightarrow>
      \<not> status_ok s \<and> contents f' = contents f \<and> full f'"
    and flush: "wf_Flush ops f = (s, f') \<Longrightarrow>
      contents f' = contents f \<and> (full f' \<longleftrightarrow> full f) \<and> noflush f' = noflush f \<and> (status_ok s \<longleftrightarrow> \<not> noflush f)"

text \<open>A source of a log: reads return what is left, as far as it was asked for.\<close>

locale log_source =
  fixes ops :: "'f sfile" and left :: "'f \<Rightarrow> slice" and good :: "'f \<Rightarrow> bool"
  assumes read: "good f \<Longrightarrow> sf_Read ops n f = (s, bs, f') \<Longrightarrow>
    s = None \<and> bs = take n (left f) \<and> left f' = drop n (left f) \<and> good f'"

lemma IOError_not_ok [simp]: "\<not> status_ok (IOError c e)" "\<not> status_ok (pf_IOError f)"
  by (simp_all add: IOError_def pf_IOError_def Status_IOError_def Status_new_def status_ok_def Let_def)

lemma Status_OK_ok [simp]: "status_ok Status_OK" "status_ok None"
  by (simp_all add: Status_OK_def status_ok_def)

interpretation posix_dest: log_dest posix_wfile "cf_bytes \<circ> pf_file" "\<lambda>f. cf_room (pf_file f) = 0"
    "cf_flush_fails \<circ> pf_file"
proof
  fix bs f s f'
  assume "wf_Append posix_wfile bs f = (s, f')"
  then show "\<exists>k \<le> length bs. (cf_bytes \<circ> pf_file) f' = (cf_bytes \<circ> pf_file) f @ take k bs
      \<and> (status_ok s \<longleftrightarrow> k = length bs) \<and> (k < length bs \<longrightarrow> cf_room (pf_file f') = 0)
      \<and> (cf_flush_fails \<circ> pf_file) f' = (cf_flush_fails \<circ> pf_file) f"
    by (intro exI [of _ "min (length bs) (cf_room (pf_file f))"])
      (auto simp: posix_wfile_def PosixWritableFile_Append_def fwrite_def Let_def min_def split: if_splits)
qed (auto simp: posix_wfile_def PosixWritableFile_Append_def PosixWritableFile_Flush_def fwrite_def fflush_def
    Let_def split: if_splits)

definition cf_left :: "cfile \<Rightarrow> slice" where
  "cf_left f = drop (cf_pos f) (cf_bytes f)"

interpretation posix_source: log_source posix_sfile "cf_left \<circ> pf_file"
    "\<lambda>f. cf_good (pf_file f) \<ge> length (cf_bytes (pf_file f))"
  by standard
    (auto simp: posix_sfile_def PosixSequentialFile_Read_def fread_def cf_left_def Let_def Status_OK_def
      drop_drop add.commute split: if_splits)

section \<open>Limits and locks\<close>

lemma Limiter_Acquire_iff: "Limiter_Acquire a = (b, a') \<Longrightarrow> (b \<longleftrightarrow> a > 0) \<and> (b \<longrightarrow> Limiter_Release a' = a) \<and> (\<not> b \<longrightarrow> a' = a)"
  by (auto simp: Limiter_Acquire_def Limiter_Release_def split: if_splits)

lemma mmap_read_in_bounds:
  assumes "PosixMmapReadableFile_Read fn len offset n = (s, r)" and "status_ok s"
    and "unat offset + unat n < 2 ^ 64"
  shows "r = (offset, n) \<and> unat offset + unat n \<le> unat len"
  using assms
  by (auto simp: PosixMmapReadableFile_Read_def word_le_nat_alt unat_word_ariths not_less split: if_splits)

text \<open>Without the third assumption the range can lie outside the region.\<close>

lemma mmap_read_wraps:
  "PosixMmapReadableFile_Read fn 4096 0xFFFFFFFFFFFFFFF0 32 = (Status_OK, (0xFFFFFFFFFFFFFFF0, 32))"
  by (simp add: PosixMmapReadableFile_Read_def)

end
