(* ===== verification/Ldb_Props.thy ===== *)
theory Ldb_Props
  imports Ldb_Comparator Ldb_Bloom Ldb_Env
begin

text \<open>
  Properties of leveldb's utilities: encodings, checksums, comparators, Bloom filters, statuses and
  mapped files.
\<close>

section \<open>Checksums\<close>

text \<open>
  C4. The table-driven checksum is the bitwise one: for every alignment of the buffer, \<^verbatim>\<open>Extend\<close>
  with its four tables and its loops over 16, 4 and 1 bytes computes the remainder by the Castagnoli
  polynomial, bit by bit from the least significant one, with inverted start and result.
\<close>
theorem crc_equals_bitwise:
  "crc_Extend pval crc buf = foldl crc_byte (crc XOR 0xffffffff) buf XOR 0xffffffff"
  by (rule crc_Extend_spec)

text \<open>
  Checksums compose as the header file promises: extending the checksum of \<open>xs\<close> by \<open>ys\<close> gives the
  checksum of the concatenation, however the two buffers are aligned.
\<close>
theorem crc_composes: "crc_Extend a (crc_Value b xs) ys = crc_Value c (xs @ ys)"
  using crc_Extend_append [of c 0 xs ys a b] by (simp add: crc_Value_def)

text \<open>
  A burst error is detected: strings that differ in at most four consecutive bytes have different
  checksums, and so have the stored, masked ones.
\<close>
theorem crc_detects_bursts:
  assumes "length new = length old" and "length old \<le> 4" and "new \<noteq> old"
  shows "crc_Mask (crc_Value a (xs @ new @ ys)) \<noteq> crc_Mask (crc_Value b (xs @ old @ ys))"
  using crc_Value_burst [OF assms] by (metis crc_Unmask_Mask)

section \<open>Encodings\<close>

text \<open>
  Variable-length integers are read back: \<^verbatim>\<open>GetVarint32\<close> and \<^verbatim>\<open>GetVarint64\<close> return the number that was
  put and leave exactly the bytes behind it; the encodings have at most 5 and 10 bytes, and
  \<^verbatim>\<open>VarintLength\<close> is their length.
\<close>
theorem varint_coding_roundtrip:
  "GetVarint32 (PutVarint32 [] v @ rest) = Some (v, rest) \<and> GetVarint64 (PutVarint64 [] w @ rest) = Some (w, rest)
   \<and> length (PutVarint32 [] v) \<le> 5 \<and> length (PutVarint64 [] w) \<le> 10 \<and> VarintLength w = length (PutVarint64 [] w)"
  using varint_bytes_le_10 [of w]
  by (simp add: PutVarint32_def PutVarint64_def GetVarint32_Encode GetVarint64_Encode length_EncodeVarint32
      VarintLength_correct flip: EncodeVarint64_bytes)

lemma put_slices: "foldl PutLengthPrefixedSlice dst vs = dst @ concat (map EncodeSlice vs)"
proof (induction vs arbitrary: dst)
  case (Cons v vs)
  then show ?case using PutLengthPrefixedSlice_append [of dst v] by simp
qed simp

text \<open>
  Sequences of length-prefixed slices are self-delimiting: two sequences of equally many slices
  below 4 GiB that were put one after the other, and what follows them, agree if the bytes do.
\<close>
theorem slices_self_delimiting:
  assumes "foldl PutLengthPrefixedSlice dst us @ rest1 = foldl PutLengthPrefixedSlice dst vs @ rest2"
    and "length us = length vs" and "\<forall>v \<in> set us \<union> set vs. length v < 2 ^ 32"
  shows "us = vs \<and> rest1 = rest2"
proof -
  have "\<forall>v\<in>set us. length v < 2 ^ 32" "\<forall>v\<in>set vs. length v < 2 ^ 32" using assms(3) by blast+
  note dec = slices.dec_many_enc [OF this(1), of rest1] slices.dec_many_enc [OF this(2), of rest2]
  have "concat (map EncodeSlice us) @ rest1 = concat (map EncodeSlice vs) @ rest2"
    using assms(1) unfolding put_slices by simp
  then have "Some (us, rest1) = Some (vs, rest2)" unfolding dec [symmetric] assms(2) by (rule arg_cong)
  then show ?thesis by simp
qed

section \<open>Order of keys\<close>

text \<open>
  The bytewise comparator is a total order, the lexicographic one on unsigned bytes.
\<close>
theorem bytewise_lexicographic:
  "Bytewise_Compare a b = (if bytes_less a b then -1 else if a = b then 0 else 1)
   \<and> (bytes_less a b \<or> a = b \<or> bytes_less b a) \<and> (bytes_less a b \<longrightarrow> \<not> bytes_less b a)"
  using bytes_less_total [of a b] bytes_less_trans [of a b a]
  by (auto simp: Bytewise_Compare_def Slice_compare_spec)

text \<open>
  A separator splits the keys the way its two arguments do: for \<open>start < limit\<close>, every key up to
  \<open>start\<close> is at most the separator and every key from \<open>limit\<close> on is above it, which is what index
  blocks rely on. Separators and successors are never longer than the key they replace.
\<close>
theorem separator_splits_keys:
  assumes "Bytewise_Compare start limit < 0"
  shows "(Bytewise_Compare k start \<le> 0 \<longrightarrow> Bytewise_Compare k (FindShortestSeparator start limit) \<le> 0)
    \<and> (Bytewise_Compare limit k \<le> 0 \<longrightarrow> Bytewise_Compare (FindShortestSeparator start limit) k < 0)
    \<and> length (FindShortestSeparator start limit) \<le> length start"
proof -
  have "length (FindShortestSeparator start limit) \<le> length start"
    by (auto simp: FindShortestSeparator_def Let_def)
  then show ?thesis using bytewise.separator_splits [OF _ _ _ assms] by blast
qed

section \<open>Bloom filters\<close>

text \<open>
  C8. A Bloom filter has no false negatives: whatever the parameters of the policy, each key that
  the filter was created from may match it. The number of keys is bounded so that the size of the
  filter does not wrap.
\<close>
theorem bloom_no_false_negatives:
  assumes "key \<in> set keys" and "p = BloomFilterPolicy bits_per_key product"
    and "length keys * unat bits_per_key + 7 < 2 ^ 64"
  shows "KeyMayMatch key (drop (length dst) (CreateFilter p keys dst))"
  using assms by (rule CreateFilter_matches)

theorem bloom_no_false_negatives_witness:
  "KeyMayMatch [1, 2, 3] (CreateFilter (BloomFilterPolicy 10 6) [[4], [1, 2, 3]] [])"
  using bloom_no_false_negatives [of "[1, 2, 3]" "[[4], [1, 2, 3]]" "BloomFilterPolicy 10 6" 10 6 "[]"] by simp

section \<open>Statuses and files\<close>

text \<open>
  A status keeps its code and its message: the code and the text of a status built from a
  code and two messages are those, also after copying it, and the text is printed behind the name of the code.
\<close>
theorem status_keeps_message:
  assumes "length msg + length msg2 + 7 < 2 ^ 32"
  shows "Status_copy (Status_Corruption msg msg2) = Status_Corruption msg msg2
    \<and> IsCorruption (Status_Corruption msg msg2) \<and> \<not> status_ok (Status_Corruption msg msg2)
    \<and> \<not> IsNotFound (Status_Corruption msg msg2) \<and> \<not> IsIOError (Status_Corruption msg msg2)
    \<and> Status_ToString (Status_Corruption msg msg2) = str ''Corruption: '' @ status_text msg msg2"
proof -
  let ?t = "status_text msg msg2"
  define state where "state = word_to_le 4 (of_nat (length ?t) :: u32) @ [kCorruption] @ ?t"
  have "length ?t + 5 < 2 ^ 32" using status_text_length [of msg msg2] assms by simp
  note parts = status_layout [OF this state_def]
  have s: "Status_Corruption msg msg2 = Some state"
    by (simp add: Status_Corruption_def Status_new_state [OF assms] state_def del: word_to_le.simps)
  show ?thesis
    using parts
    by (simp add: s Status_copy_def IsCorruption_def IsNotFound_def IsIOError_def Status_ToString_def Let_def status_ok_def
        kOk_def kNotFound_def kCorruption_def kIOError_def)
qed

text \<open>
  A successful read of a mapped file lies inside the region, provided that offset and
  length do not overflow together. Without this proviso the check wraps and a range far outside is accepted.
\<close>
theorem mmap_read_bounded:
  assumes "PosixMmapReadableFile_Read fn len offset n = (s, r)" and "status_ok s"
  shows "r = (offset, n) \<and> (unat offset + unat n < 2 ^ 64 \<longrightarrow> unat offset + unat n \<le> unat len)
    \<and> PosixMmapReadableFile_Read fn 4096 0xFFFFFFFFFFFFFFF0 32 = (Status_OK, (0xFFFFFFFFFFFFFFF0, 32))"
proof -
  have "r = (offset, n)" using assms by (auto simp: PosixMmapReadableFile_Read_def split: if_splits)
  then show ?thesis using mmap_read_in_bounds [OF assms] mmap_read_wraps by blast
qed

end
