(* ===== verification/Ldb_Log_Spec.thy ===== *)
theory Ldb_Log_Spec
  imports Ldb_Env
begin

text \<open>
  The log format as a relation between bytes and records, that the writer of \<open>Ldb_Log\<close> produces it, and
  that the reader recovers the records from it, from a file that was cut off in the middle too.

  \<open>fragments\<close> relates a record to the bytes that hold it from a position on, \<open>log_of\<close> a list of records
  to a log. The reader is proved for every source that honours \<open>log_source\<close> and every log in the
  format, the writer for every destination that honours \<open>log_dest\<close>; both are applied to the POSIX files.
\<close>

section \<open>Format\<close>

text \<open>The bytes of a physical record, and the filling of a block that cannot take a header any more.\<close>

definition phys :: "nat \<Rightarrow> slice \<Rightarrow> slice" where
  "phys t payload = physical_header InitTypeCrc t payload @ payload"

definition pad :: "nat \<Rightarrow> nat" where
  "pad p = (let leftover = kBlockSize - p mod kBlockSize in if leftover < kHeaderSize then leftover else 0)"

definition fits :: "nat \<Rightarrow> slice \<Rightarrow> bool" where
  "fits p payload \<longleftrightarrow> (p + pad p) mod kBlockSize + kHeaderSize + length payload \<le> kBlockSize"

inductive fragments :: "bool \<Rightarrow> nat \<Rightarrow> slice \<Rightarrow> slice \<Rightarrow> bool" where
  final: "fits p payload \<Longrightarrow>
    fragments is_first p (replicate (pad p) 0 @ phys (fragment_type is_first True) payload) payload"
| more: "fits p payload \<Longrightarrow> fragments False (p + pad p + kHeaderSize + length payload) bs rest \<Longrightarrow>
    fragments is_first p (replicate (pad p) 0 @ phys (fragment_type is_first False) payload @ bs) (payload @ rest)"

inductive log_of :: "nat \<Rightarrow> slice \<Rightarrow> slice list \<Rightarrow> bool" where
  empty: "log_of p [] []"
| add: "fragments True p bs rec \<Longrightarrow> log_of (p + length bs) bs' recs \<Longrightarrow> log_of p (bs @ bs') (rec # recs)"

section \<open>One physical record\<close>

lemma type_crc: "t \<le> 4 \<Longrightarrow> InitTypeCrc ! t = crc_Value 0 [of_nat t]"
  by (simp add: InitTypeCrc_def kMaxRecordType_def kLastType_def del: upt_Suc)

lemma length_header [simp]: "length (physical_header cs t payload) = 7"
  by (simp add: physical_header_def Let_def)

lemma length_phys [simp]: "length (phys t payload) = 7 + length payload"
  by (simp add: phys_def)

lemma drop_physical_header: "drop 6 (physical_header cs t payload) = [of_nat t]"
  by (simp add: physical_header_def Let_def)

lemma nth_physical_header:
  "(physical_header cs t payload @ rest) ! 4 = of_nat (length payload mod 256)"
  "(physical_header cs t payload @ rest) ! 5 = of_nat (length payload div 256)"
  "(physical_header cs t payload @ rest) ! 6 = of_nat t"
  by (simp_all add: physical_header_def Let_def nth_append)

lemma type_byte: "t \<le> 4 \<Longrightarrow> (scast (of_nat t :: u8) :: u32) = of_nat t"
  by (cases "t = 0 \<or> t = 1 \<or> t = 2 \<or> t = 3 \<or> t = 4") (auto simp: signed_of_nat)

lemma small_types: "s < 7 \<Longrightarrow> t < 7 \<Longrightarrow> (of_nat s :: u32) = of_nat t \<longleftrightarrow> s = t"
  by (auto simp: word_unat_eq_iff unat_of_nat)

lemma payload_length:
  assumes "n < 65536"
  shows "unat (of_nat (n mod 256) :: u8) + 256 * unat (of_nat (n div 256) :: u8) = n"
proof -
  have "n div 256 < 256" using assms by simp
  then show ?thesis by (simp add: unat_of_nat)
qed

lemma header_crc:
  assumes "t \<le> 4"
  shows "crc_Unmask (DecodeFixed32 (physical_header InitTypeCrc t payload @ rest)) = crc_Value 0 (of_nat t # payload)"
  using assms by (simp add: physical_header_def Let_def DecodeFixed32_Encode type_crc crc_Value_Cons [where c = 0])

lemma parse_phys:
  assumes "lr_buffer r = phys t payload @ rest" and t: "1 \<le> t" "t \<le> 4" and n: "length payload < 65536"
    and "lr_initial_offset r = 0"
  shows "parse_record r = ((of_nat t, Some payload), r\<lparr>lr_buffer := rest\<rparr>)"
proof -
  let ?h = "physical_header InitTypeCrc t payload"
  have buf: "lr_buffer r = ?h @ payload @ rest" using assms(1) by (simp add: phys_def)
  have "(of_nat t :: u32) \<noteq> of_nat kZeroType" 
    using t by (subst small_types) (auto simp: kZeroType_def)
  then show ?thesis
    using t n assms(5)
    by (simp add: parse_record_def Let_def buf nth_physical_header payload_length type_byte drop_physical_header
        header_crc kHeaderSize_def remove_prefix_def)
qed

lemma fragments_nonempty: "fragments a p bs rec \<Longrightarrow> length bs \<ge> 7"
  by (induction rule: fragments.induct) auto

lemma kBlockSize_pos [simp]: "kBlockSize > 0" "kHeaderSize \<le> kBlockSize" "kHeaderSize > 0"
    "\<not> kBlockSize < kHeaderSize"
  by (simp_all add: kBlockSize_def kHeaderSize_def)

lemma pad_less: "pad p < 7"
  by (simp add: pad_def Let_def kHeaderSize_def)

lemma to_block_end:
  assumes "n \<le> kBlockSize - p mod kBlockSize" and "(p + n) mod kBlockSize = 0"
  shows "n = kBlockSize - p mod kBlockSize \<or> n = 0 \<and> p mod kBlockSize = 0"
proof -
  let ?q = "p mod kBlockSize"
  have q: "?q < kBlockSize" by simp
  have "(?q + n) mod kBlockSize = 0" using assms(2) by (simp add: mod_add_left_eq)
  then have "?q + n = 0 \<or> ?q + n = kBlockSize"
    using assms(1) q by (cases "?q + n < kBlockSize") (auto simp del: mod_less_divisor)
  then show ?thesis using q by auto
qed

lemma pad_block_end:
  "n \<le> kBlockSize - p mod kBlockSize \<Longrightarrow> (p + n) mod kBlockSize = 0 \<Longrightarrow> n < kHeaderSize \<Longrightarrow> pad p = n"
  using to_block_end [of n p] by (auto simp: pad_def Let_def kHeaderSize_def kBlockSize_def)

lemma longer_prefix: "xs @ ys = as @ bs \<Longrightarrow> length as \<le> length xs \<Longrightarrow> \<exists>cs. xs = as @ cs"
  by (auto simp: append_eq_append_conv2)

lemma left_in_block:
  assumes "m + n \<le> kBlockSize - p mod kBlockSize"
  shows "n \<le> kBlockSize - (p + m) mod kBlockSize"
proof (cases "n = 0")
  case False
  with assms have "p mod kBlockSize + m < kBlockSize" by linarith
  then have "(p + m) mod kBlockSize = p mod kBlockSize + m"
    using mod_add_left_eq [of p kBlockSize m] by simp
  with assms show ?thesis by simp
qed simp

lemma fits_room: "fits p payload \<Longrightarrow> length (phys t payload) \<le> kBlockSize - (p + pad p) mod kBlockSize"
  by (simp add: fits_def kHeaderSize_def le_diff_conv2)

section \<open>Reading\<close>

context log_source
begin

text \<open>The reader stands at position \<open>p\<close> of a file with the bytes \<open>F\<close>.\<close>

definition reader_at :: "slice \<Rightarrow> nat \<Rightarrow> 'f log_reader \<Rightarrow> bool" where
  "reader_at F p r \<longleftrightarrow> good (lr_file r) \<and> p \<le> length F \<and> lr_buffer r @ left (lr_file r) = drop p F
     \<and> length (lr_buffer r) \<le> kBlockSize - p mod kBlockSize
     \<and> (lr_eof r \<longrightarrow> left (lr_file r) = [])
     \<and> (\<not> lr_eof r \<longrightarrow> (p + length (lr_buffer r)) mod kBlockSize = 0)
     \<and> lr_initial_offset r = 0 \<and> \<not> lr_resyncing r"

definition refill :: "'f log_reader \<Rightarrow> 'f log_reader" where
  "refill r = (let (s, bs, f) = sf_Read ops kBlockSize (lr_file r);
      r1 = r\<lparr>lr_file := f, lr_buffer := bs, lr_end_of_buffer_offset := lr_end_of_buffer_offset r + of_nat (length bs)\<rparr>
    in if length bs < kBlockSize then r1\<lparr>lr_eof := True\<rparr> else r1)"

lemma at_refill:
  assumes "reader_at F p r" and "length (lr_buffer r) < kHeaderSize" and "\<not> lr_eof r"
  shows "ReadPhysicalRecord ops r = ReadPhysicalRecord ops (refill r)"
    and "reader_at F (p + pad p) (refill r)" and "pad p = length (lr_buffer r)" and "lr_reports (refill r) = lr_reports r"
    and "length (lr_buffer (refill r)) < kHeaderSize \<Longrightarrow> lr_eof (refill r)"
    and "lr_eof (refill r) \<or> length (lr_buffer (refill r)) = kBlockSize"
proof -
  obtain s bs f where rd: "sf_Read ops kBlockSize (lr_file r) = (s, bs, f)" by (metis prod_cases3)
  from assms(1) have at: "good (lr_file r)" "lr_buffer r @ left (lr_file r) = drop p F" "p \<le> length F"
    "length (lr_buffer r) \<le> kBlockSize - p mod kBlockSize" "(p + length (lr_buffer r)) mod kBlockSize = 0"
    "lr_initial_offset r = 0" "\<not> lr_resyncing r" using assms(3) by (auto simp: reader_at_def)
  from read [OF at(1) rd] have got: "s = None" "bs = take kBlockSize (left (lr_file r))"
    "left f = drop kBlockSize (left (lr_file r))" "good f" by auto
  show "ReadPhysicalRecord ops r = ReadPhysicalRecord ops (refill r)"
    using assms(2,3) got(1) by (subst ReadPhysicalRecord.simps) (simp add: rd refill_def Let_def status_ok_def)
  show pad: "pad p = length (lr_buffer r)"
    using at(4,5) assms(2) by (rule pad_block_end)
  have "left (lr_file r) = drop (p + pad p) F"
    using arg_cong [OF at(2), of "drop (length (lr_buffer r))"] by (simp add: pad drop_drop add.commute)
  moreover have "p + pad p \<le> length F" using arg_cong [OF at(2), of length] at(3) pad by simp
  ultimately show "reader_at F (p + pad p) (refill r)"
    using at got pad assms(3) append_take_drop_id [of kBlockSize "drop (p + pad p) F"]
    by (auto simp: reader_at_def refill_def rd Let_def add.commute simp del: append_take_drop_id)
  show "lr_reports (refill r) = lr_reports r"
    "length (lr_buffer (refill r)) < kHeaderSize \<Longrightarrow> lr_eof (refill r)"
    "lr_eof (refill r) \<or> length (lr_buffer (refill r)) = kBlockSize"
    using got(2) kBlockSize_pos(2) by (auto simp: refill_def rd Let_def simp del: kBlockSize_pos)
qed

text \<open>A physical record that is wholly in the file is read.\<close>

lemma at_parse:
  assumes "reader_at F p r" and "lr_buffer r = phys t payload @ rest" and t: "1 \<le> t" "t \<le> 4"
  shows "ReadPhysicalRecord ops r = ((of_nat t, Some payload), r\<lparr>lr_buffer := rest\<rparr>)"
    and "reader_at F (p + 7 + length payload) (r\<lparr>lr_buffer := rest\<rparr>)"
proof -
  have at: "good (lr_file r)" "lr_buffer r @ left (lr_file r) = drop p F" "p \<le> length F"
    "length (lr_buffer r) \<le> kBlockSize - p mod kBlockSize" "lr_eof r \<Longrightarrow> left (lr_file r) = []"
    "\<not> lr_eof r \<Longrightarrow> (p + length (lr_buffer r)) mod kBlockSize = 0"
    "lr_initial_offset r = 0" "\<not> lr_resyncing r" using assms(1) by (auto simp: reader_at_def)
  have len: "length payload < 65536" using at(4) assms(2) by (simp add: kBlockSize_def)
  show "ReadPhysicalRecord ops r = ((of_nat t, Some payload), r\<lparr>lr_buffer := rest\<rparr>)"
    using assms(2) parse_phys [OF assms(2) t len at(7)]
    by (subst ReadPhysicalRecord.simps) (simp add: kHeaderSize_def)
  have "rest @ left (lr_file r) = drop (p + 7 + length payload) F"
    using arg_cong [OF at(2), of "drop (7 + length payload)"] assms(2) by (simp add: drop_drop add.commute add.left_commute)
  moreover have "p + 7 + length payload \<le> length F"
    using arg_cong [OF at(2), of length] assms(2) at(3) by simp
  moreover have "length rest \<le> kBlockSize - (p + 7 + length payload) mod kBlockSize"
    using left_in_block [of "7 + length payload" "length rest" p] at(4) assms(2) by (simp add: add.assoc)
  ultimately show "reader_at F (p + 7 + length payload) (r\<lparr>lr_buffer := rest\<rparr>)"
    using at assms(2) by (auto simp: reader_at_def add.assoc)
qed

text \<open>What is in the current block is in the buffer.\<close>

lemma buffer_holds:
  assumes at: "reader_at F p r" and F: "drop p F = bs @ rest" and "length bs \<le> kBlockSize - p mod kBlockSize"
    and "lr_eof r \<or> lr_buffer r \<noteq> []"
  shows "\<exists>rest'. lr_buffer r = bs @ rest'"
proof (rule longer_prefix)
  show "lr_buffer r @ left (lr_file r) = bs @ rest" using at F by (simp add: reader_at_def)
  show "length bs \<le> length (lr_buffer r)"
  proof (cases "lr_eof r")
    case True
    then have "lr_buffer r = bs @ rest" using at F by (auto simp: reader_at_def)
    then show ?thesis by simp
  next
    case False
    then show ?thesis using at assms(3,4) to_block_end [of "length (lr_buffer r)" p] by (auto simp: reader_at_def)
  qed
qed

lemma ReadPhysicalRecord_ok:
  assumes at: "reader_at F p r" and F: "drop p F = replicate (pad p) 0 @ phys t payload @ rest"
    and fits: "fits p payload" and t: "1 \<le> t" "t \<le> 4"
  obtains r' where "ReadPhysicalRecord ops r = ((of_nat t, Some payload), r')"
    and "reader_at F (p + pad p + 7 + length payload) r'" and "lr_reports r' = lr_reports r"
proof (cases "length (lr_buffer r) < kHeaderSize")
  case True
  have "\<not> lr_eof r"
  proof
    assume "lr_eof r"
    then have "length (lr_buffer r) = length (drop p F)" using at by (metis reader_at_def append_Nil2)
    then show False using True F by (simp add: kHeaderSize_def)
  qed
  note rf = at_refill [OF at True this]
  have "drop (p + pad p) F = phys t payload @ rest"
    using arg_cong [OF F, of "drop (pad p)"] by (simp add: drop_drop add.commute)
  moreover have "lr_eof (refill r) \<or> lr_buffer (refill r) \<noteq> []" using rf(6) by (auto simp: kBlockSize_def)
  ultimately obtain rest' where "lr_buffer (refill r) = phys t payload @ rest'"
    using buffer_holds [OF rf(2) _ fits_room [OF fits]] by blast
  from at_parse [OF rf(2) this t] rf(1,4) show ?thesis by (intro that [of "refill r\<lparr>lr_buffer := rest'\<rparr>"]) auto
next
  case False
  then have "pad p = 0" using at
    by (auto simp: reader_at_def pad_def Let_def)
  then have "drop p F = phys t payload @ rest" using F by simp
  then obtain rest' where "lr_buffer r = phys t payload @ rest'"
    using buffer_holds [OF at, of "phys t payload" rest] fits_room [OF fits] False \<open>pad p = 0\<close>
    by (fastforce simp: kHeaderSize_def)
  from at_parse [OF at this t] \<open>pad p = 0\<close> show ?thesis by (intro that [of "r\<lparr>lr_buffer := rest'\<rparr>"]) auto
qed

text \<open>A file that ends within a physical record, or in front of it, is at its end, without a report.\<close>

lemma parse_short:
  assumes "lr_buffer r = take n (phys t payload)" and "n < 7 + length payload" and "lr_eof r" and "length payload < 65536"
  shows "\<exists>r'. ReadPhysicalRecord ops r = ((kEof, None), r') \<and> lr_reports r' = lr_reports r"
proof (cases "n < 7")
  case True
  then show ?thesis using assms by (subst ReadPhysicalRecord.simps) (simp add: kHeaderSize_def)
next
  case False
  then obtain k where k: "n = 7 + k" using le_Suc_ex [of 7 n] by auto
  with assms(1) have "lr_buffer r = physical_header InitTypeCrc t payload @ take k payload" by (simp add: phys_def)
  then show ?thesis using assms(2-4) k
    by (subst ReadPhysicalRecord.simps)
      (simp add: parse_record_def Let_def nth_physical_header payload_length kHeaderSize_def)
qed

lemma ReadPhysicalRecord_eof:
  assumes at: "reader_at F p r" and F: "drop p F = take n (replicate (pad p) 0 @ phys t payload)"
    and n: "n < pad p + 7 + length payload" and fits: "fits p payload"
  obtains r' where "ReadPhysicalRecord ops r = ((kEof, None), r')" and "lr_reports r' = lr_reports r"
proof -
  have len: "length payload < 65536" using fits by (simp add: fits_def kBlockSize_def kHeaderSize_def)
  have short: "length (drop p F) < pad p + 7 + length payload" using F n by simp
  consider "lr_eof r" "length (lr_buffer r) < kHeaderSize" | "\<not> lr_eof r" "length (lr_buffer r) < kHeaderSize"
    | "length (lr_buffer r) \<ge> kHeaderSize" by linarith
  then have "\<exists>r'. ReadPhysicalRecord ops r = ((kEof, None), r') \<and> lr_reports r' = lr_reports r"
  proof cases
    case 1
    then show ?thesis by (subst ReadPhysicalRecord.simps) simp
  next
    case 2
    note rf = at_refill [OF at 2(2,1)]
    have left: "drop (p + pad p) F = take (n - pad p) (phys t payload)"
      using arg_cong [OF F, of "drop (pad p)"] by (cases "n \<le> pad p") (auto simp: drop_drop add.commute)
    have "n - pad p < 7 + length payload" using n by linarith
    moreover have "length (lr_buffer (refill r)) \<le> length (drop (p + pad p) F)"
      using rf(2) by (metis reader_at_def length_append le_add1)
    ultimately have eof: "lr_eof (refill r)"
      using rf(6) fits left by (auto simp: fits_def kHeaderSize_def)
    then have "lr_buffer (refill r) = take (n - pad p) (phys t payload)"
      using rf(2) left by (auto simp: reader_at_def)
    with eof show ?thesis using parse_short [of "refill r" "n - pad p" t payload] len rf(1,4) n by auto
  next
    case 3
    then have pad: "pad p = 0" using at by (auto simp: reader_at_def pad_def Let_def)
    have "lr_eof r"
    proof (rule ccontr)
      assume "\<not> lr_eof r"
      then have "length (lr_buffer r) = kBlockSize - p mod kBlockSize"
        using at 3 to_block_end [of "length (lr_buffer r)" p] by (auto simp: reader_at_def kHeaderSize_def)
      moreover have "length (lr_buffer r) \<le> length (drop p F)" using at by (metis reader_at_def length_append le_add1)
      ultimately show False using short fits pad by (simp add: fits_def kHeaderSize_def)
    qed
    moreover from this have "lr_buffer r = take n (phys t payload)" using at F pad by (auto simp: reader_at_def)
    ultimately show ?thesis using parse_short len n pad by simp
  qed
  then show ?thesis using that by blast
qed

text \<open>The rounds of \<^verbatim>\<open>ReadRecord\<close> on one fragment.\<close>

lemma at_resyncing: "reader_at F p r \<Longrightarrow> \<not> lr_resyncing r"
  by (simp add: reader_at_def)

lemma read_round_final:
  assumes "ReadPhysicalRecord ops r = ((of_nat (fragment_type is_first True), Some payload), r')"
    and "\<not> lr_resyncing r'" and "rl_in_fragmented l = (\<not> is_first)"
  shows "\<exists>l' off. read_round ops l r =
    (Return (Some ((if is_first then [] else rl_scratch l) @ payload)), l', r'\<lparr>lr_last_record_offset := off\<rparr>)"
  using assms
  by (cases is_first)
    (simp_all add: read_round_def Let_def end_partial_def fragment_type_def kFullType_def kFirstType_def
      kMiddleType_def kLastType_def, blast+)

lemma read_round_more:
  assumes "ReadPhysicalRecord ops r = ((of_nat (fragment_type is_first False), Some payload), r')"
    and "\<not> lr_resyncing r'" and "rl_in_fragmented l = (\<not> is_first)"
  obtains l' where "read_round ops l r = (Continue, l', r')" and "rl_in_fragmented l'"
    and "rl_scratch l' = (if is_first then [] else rl_scratch l) @ payload"
proof -
  let ?l = "fst (snd (read_round ops l r))"
  have "read_round ops l r = (Continue, ?l, r') \<and> rl_in_fragmented ?l
      \<and> rl_scratch ?l = (if is_first then [] else rl_scratch l) @ payload"
    using assms
    by (cases is_first)
      (simp_all add: read_round_def Let_def end_partial_def fragment_type_def kFullType_def kFirstType_def
        kMiddleType_def kLastType_def)
  then show ?thesis using that by blast
qed

lemma read_round_eof:
  assumes "ReadPhysicalRecord ops r = ((kEof, None), r')"
  obtains l' r'' where "read_round ops l r = (Return None, l', r'')" and "lr_reports r'' = lr_reports r'"
proof -
  let ?x = "read_round ops l r"
  have "?x = (Return None, fst (snd ?x), snd (snd ?x)) \<and> lr_reports (snd (snd ?x)) = lr_reports r'"
    using assms
    by (simp add: read_round_def Let_def kEof_def kFullType_def kFirstType_def
        kMiddleType_def kLastType_def kMaxRecordType_def)
  then show ?thesis using that by blast
qed

lemma fragment_type_range: "1 \<le> fragment_type a b" "fragment_type a b \<le> 4"
  by (simp_all add: fragment_type_def kFullType_def kFirstType_def kMiddleType_def kLastType_def)

lemma at_offset: "reader_at F p (r\<lparr>lr_last_record_offset := x\<rparr>) = reader_at F p r"
  by (simp add: reader_at_def)

lemma read_fragments:
  assumes "fragments is_first p bs rec" and "reader_at F p r" and "drop p F = bs @ rest" and "length bs \<le> n"
    and "rl_in_fragmented l = (\<not> is_first)"
  shows "\<exists>r'. read_rounds n ops l r = Some (Some ((if is_first then [] else rl_scratch l) @ rec), r')
    \<and> reader_at F (p + length bs) r' \<and> lr_reports r' = lr_reports r"
  using assms
proof (induction arbitrary: r n l rule: fragments.induct)
  case (final p payload is_first)
  obtain r' where r': "ReadPhysicalRecord ops r = ((of_nat (fragment_type is_first True), Some payload), r')"
    "reader_at F (p + pad p + 7 + length payload) r'" "lr_reports r' = lr_reports r"
    using final ReadPhysicalRecord_ok [OF final.prems(1) _ final.hyps fragment_type_range] by auto
  obtain m where "n = Suc m" using final.prems(3) by (cases n) auto
  then show ?case
    using read_round_final [OF r'(1) at_resyncing [OF r'(2)] final.prems(4)] r'(2,3)
    by (auto simp: at_offset add.assoc)
next
  case (more p payload bs rec is_first)
  obtain r' where r': "ReadPhysicalRecord ops r = ((of_nat (fragment_type is_first False), Some payload), r')"
    "reader_at F (p + pad p + 7 + length payload) r'" "lr_reports r' = lr_reports r"
    using more.prems ReadPhysicalRecord_ok [OF more.prems(1) _ more.hyps(1) fragment_type_range] by auto
  obtain m where m: "n = Suc m" using more.prems(3) by (cases n) auto
  obtain l' where l': "read_round ops l r = (Continue, l', r')" "rl_in_fragmented l'"
    "rl_scratch l' = (if is_first then [] else rl_scratch l) @ payload"
    by (rule read_round_more [OF r'(1) at_resyncing [OF r'(2)] more.prems(4)])
  have "drop (p + pad p + 7 + length payload) F = bs @ rest"
    using arg_cong [OF more.prems(2), of "drop (pad p + 7 + length payload)"]
    by (simp add: drop_drop ac_simps)
  from more.IH [of r' m l'] this r'(2) m l'(2) more.prems(3)
  show ?case using l'(1,3) m r'(3) by (auto simp: kHeaderSize_def add.assoc)
qed

lemma read_truncated:
  assumes "fragments is_first p bs rec" and "reader_at F p r" and "drop p F = take k bs" and "k < length bs" and "k < n"
    and "rl_in_fragmented l = (\<not> is_first)"
  shows "\<exists>r'. read_rounds n ops l r = Some (None, r') \<and> lr_reports r' = lr_reports r"
  using assms
proof (induction arbitrary: r k n l rule: fragments.induct)
  case (final p payload is_first)
  obtain r' where r': "ReadPhysicalRecord ops r = ((kEof, None), r')" "lr_reports r' = lr_reports r"
    by (rule ReadPhysicalRecord_eof [OF final.prems(1,2) _ final.hyps]) (use final.prems(3) in simp)
  obtain m where "n = Suc m" using final.prems(4) by (cases n) auto
  moreover obtain l' r'' where "read_round ops l r = (Return None, l', r'')" "lr_reports r'' = lr_reports r'"
    by (rule read_round_eof [OF r'(1)])
  ultimately show ?case using r'(2) by simp
next
  case (more p payload bs rec is_first)
  obtain m where m: "n = Suc m" using more.prems(4) by (cases n) auto
  let ?j = "pad p + 7 + length payload" and ?t = "fragment_type is_first False"
  show ?case
  proof (cases "k < ?j")
    case True
    then have "drop p F = take k (replicate (pad p) 0 @ phys ?t payload)" using more.prems(2) by simp
    then obtain r' where r': "ReadPhysicalRecord ops r = ((kEof, None), r')" "lr_reports r' = lr_reports r"
      using ReadPhysicalRecord_eof [OF more.prems(1) _ True more.hyps(1)] by blast
    obtain l' r'' where "read_round ops l r = (Return None, l', r'')" "lr_reports r'' = lr_reports r'"
      by (rule read_round_eof [OF r'(1)])
    then show ?thesis using r'(2) m by simp
  next
    case False
    then obtain i where i: "k = ?j + i" using le_Suc_ex [of ?j k] by auto
    then have F: "drop p F = replicate (pad p) 0 @ phys ?t payload @ take i bs" using more.prems(2) by simp
    obtain r' where r': "ReadPhysicalRecord ops r = ((of_nat ?t, Some payload), r')"
      "reader_at F (p + ?j) r'" "lr_reports r' = lr_reports r"
      using ReadPhysicalRecord_ok [OF more.prems(1) F more.hyps(1) fragment_type_range] by (auto simp: add.assoc)
    obtain l' where l': "read_round ops l r = (Continue, l', r')" "rl_in_fragmented l'"
      by (rule read_round_more [OF r'(1) at_resyncing [OF r'(2)] more.prems(5)])
    have "drop (p + ?j) F = take i bs"
      using arg_cong [OF F, of "drop ?j"] by (simp add: drop_drop ac_simps)
    from more.IH [of r' i m l'] this r'(2) m l'(2) more.prems(3,4) i
    show ?thesis using l'(1) m r'(3) by (simp add: kHeaderSize_def add.assoc)
  qed
qed

text \<open>Whole logs: the complete records are returned, and the torn one behind them is dropped silently.\<close>

lemma at_not_behind: "reader_at F p r \<Longrightarrow> \<not> lr_last_record_offset r < lr_initial_offset r"
  by (simp add: reader_at_def)

lemma read_all_log:
  assumes "log_of p bs recs" and "reader_at F p r" and "drop p F = bs @ take k bs'"
    and "fragments True (p + length bs) bs' rec'" and "k < length bs'" and "length bs + k < n"
  shows "\<exists>r'. read_all n ops r = Some (recs, r') \<and> lr_reports r' = lr_reports r"
  using assms
proof (induction arbitrary: r n rule: log_of.induct)
  case (empty p)
  then obtain m where m: "n = Suc m" by (cases n) auto
  let ?l = "\<lparr>rl_scratch = [], rl_in_fragmented = False, rl_prospective = 0, rl_fragment = []\<rparr>"
  show ?case
    using empty read_truncated [of True p bs' rec' F r k n ?l] at_not_behind [OF empty.prems(1)] m
    by (auto simp: ReadRecord_def Let_def simp del: read_rounds.simps)
next
  case (add p bs rec bs2 recs)
  then obtain m where m: "n = Suc m" by (cases n) auto
  let ?l = "\<lparr>rl_scratch = [], rl_in_fragmented = False, rl_prospective = 0, rl_fragment = []\<rparr>"
  obtain r' where r': "read_rounds n ops ?l r = Some (Some rec, r')" "reader_at F (p + length bs) r'"
    "lr_reports r' = lr_reports r"
    using read_fragments [OF add.hyps(1) add.prems(1), of "bs2 @ take k bs'" n ?l] add.prems by auto
  have "drop (p + length bs) F = bs2 @ take k bs'"
    using arg_cong [OF add.prems(2), of "drop (length bs)"] by (simp add: drop_drop add.commute)
  moreover have "length bs2 + k < m" using add.prems(5) m fragments_nonempty [OF add.hyps(1)] by simp
  ultimately obtain r'' where "read_all m ops r' = Some (recs, r'')" "lr_reports r'' = lr_reports r'"
    using add.IH [of r' m] add.prems(3,4) r'(2) by (auto simp: add.assoc)
  then show ?case
    using r' m at_not_behind [OF add.prems(1)] by (auto simp: ReadRecord_def Let_def simp del: read_rounds.simps)
qed

lemma recover:
  assumes "log_of 0 bs recs" and "fragments True (length bs) bs' rec'" and "k < length bs'"
    and "good f" and "left f = bs @ take k bs'" and "length bs + k < n"
  shows "\<exists>r'. read_all n ops (Reader_new f rep ck 0) = Some (recs, r') \<and> lr_reports r' = []"
proof -
  have "reader_at (bs @ take k bs') 0 (Reader_new f rep ck 0)" using assms(4,5) by (simp add: reader_at_def Reader_new_def)
  from read_all_log [OF assms(1) this, of k bs' rec' n] assms show ?thesis by (simp add: Reader_new_def)
qed

end

section \<open>Writing\<close>

lemma fragments_last:
  assumes "length ptr \<le> kBlockSize - (p + pad p) mod kBlockSize - kHeaderSize"
    and "(p + pad p) mod kBlockSize + kHeaderSize \<le> kBlockSize"
  shows "fragments is_first p (replicate (pad p) 0 @ phys (fragment_type is_first True) ptr) ptr"
  using assms by (intro fragments.final) (simp add: fits_def)

lemma fragments_split:
  assumes "n \<le> kBlockSize - (p + pad p) mod kBlockSize - kHeaderSize"
    and "(p + pad p) mod kBlockSize + kHeaderSize \<le> kBlockSize" and "n < length ptr"
    and "fragments False (p + pad p + kHeaderSize + n) bs (drop n ptr)"
  shows "fragments is_first p (replicate (pad p) 0 @ phys (fragment_type is_first False) (take n ptr) @ bs) ptr"
  using assms fragments.more [of p "take n ptr" bs "drop n ptr" is_first] by (simp add: fits_def)

lemma pad_room: "(p + pad p) mod kBlockSize + kHeaderSize \<le> kBlockSize"
proof (cases "kBlockSize - p mod kBlockSize < kHeaderSize")
  case True
  then have "(p + pad p) mod kBlockSize = 0" using mod_add_left_eq [of p kBlockSize "pad p"]
    by (simp add: pad_def)
  then show ?thesis by simp
next
  case False
  moreover have "p mod kBlockSize < kBlockSize" by simp
  ultimately have "p mod kBlockSize + kHeaderSize \<le> kBlockSize" by linarith
  with False show ?thesis by (simp add: pad_def)
qed

lemma fragments_exist: "\<exists>bs. fragments is_first p bs ptr"
proof (induction "2 * length ptr + (if (p + pad p) mod kBlockSize = kBlockSize - kHeaderSize then 1 else 0)"
    arbitrary: is_first p ptr rule: less_induct)
  case less
  let ?q = "(p + pad p) mod kBlockSize"
  let ?n = "kBlockSize - ?q - kHeaderSize" and ?p' = "p + pad p + kHeaderSize + (kBlockSize - ?q - kHeaderSize)"
  show ?case
  proof (cases "length ptr \<le> ?n")
    case True
    then show ?thesis using fragments_last [OF _ pad_room] by blast
  next
    case False
    have "(?q + kHeaderSize + ?n) mod kBlockSize = 0" using pad_room [of p] by simp
    then have "?p' mod kBlockSize = 0"
      using mod_add_left_eq [of "p + pad p" kBlockSize "kHeaderSize + ?n"] by (simp add: add.assoc)
    then have "(?p' + pad ?p') mod kBlockSize = 0" by (simp add: pad_def kBlockSize_def kHeaderSize_def)
    then have "2 * length (drop ?n ptr) + (if (?p' + pad ?p') mod kBlockSize = kBlockSize - kHeaderSize then 1 else 0)
        < 2 * length ptr + (if ?q = kBlockSize - kHeaderSize then 1 else 0)"
      using False pad_room [of p] by (auto simp: kBlockSize_def kHeaderSize_def)
    from less [OF this] obtain bs where "fragments False ?p' bs (drop ?n ptr)" by blast
    then show ?thesis using fragments_split [OF _ pad_room] False by (meson le_refl not_le)
  qed
qed

text \<open>Records are added until one fails.\<close>

fun add_records :: "'f wfile \<Rightarrow> slice list \<Rightarrow> 'f log_writer \<Rightarrow> status \<times> 'f log_writer" where
  "add_records ops [] w = (Status_OK, w)"
| "add_records ops (rec # recs) w =
     (let (s, w1) = AddRecord ops rec w in if status_ok s then add_records ops recs w1 else (s, w1))"

lemma log_of_append: "log_of p bs recs \<Longrightarrow> log_of (p + length bs) bs' recs' \<Longrightarrow> log_of p (bs @ bs') (recs @ recs')"
  by (induction rule: log_of.induct) (auto intro: log_of.add simp: add.assoc)

context log_dest
begin

definition writer_at :: "'f log_writer \<Rightarrow> bool" where
  "writer_at w \<longleftrightarrow> lw_type_crc w = InitTypeCrc \<and> lw_block_offset w \<le> kBlockSize
     \<and> length (contents (lw_dest w)) mod kBlockSize = lw_block_offset w mod kBlockSize"

lemma switch_block_spec:
  assumes "writer_at w"
  defines "L \<equiv> length (contents (lw_dest w))"
  obtains k where "k \<le> pad L" "contents (lw_dest (switch_block ops w)) = contents (lw_dest w) @ replicate k 0"
    "k < pad L \<longrightarrow> full (lw_dest (switch_block ops w))"
    "lw_block_offset (switch_block ops w) = (L + pad L) mod kBlockSize"
    "lw_type_crc (switch_block ops w) = InitTypeCrc"
    "noflush (lw_dest (switch_block ops w)) = noflush (lw_dest w)"
proof (cases "pad L = 0")
  case True
  then have "(if kBlockSize - lw_block_offset w < kHeaderSize then 0 else lw_block_offset w) = L mod kBlockSize
      \<and> (kBlockSize - lw_block_offset w < kHeaderSize \<longrightarrow> \<not> kBlockSize - lw_block_offset w > 0)"
    using assms by (cases "lw_block_offset w = kBlockSize")
      (auto simp: writer_at_def pad_def Let_def split: if_splits)
  then show ?thesis using that [of 0] True assms by (auto simp: switch_block_def Let_def writer_at_def)
next
  case False
  then have less: "lw_block_offset w = L mod kBlockSize" "pad L = kBlockSize - lw_block_offset w"
    "kBlockSize - lw_block_offset w < kHeaderSize" "lw_block_offset w < kBlockSize"
    using assms by (auto simp: writer_at_def pad_def Let_def le_less split: if_splits)
  obtain s f where a: "wf_Append ops (replicate (pad L) 0) (lw_dest w) = (s, f)" by fastforce
  have "(L + pad L) mod kBlockSize = 0"
    using less mod_add_left_eq [of L kBlockSize "pad L"] by simp
  with append [OF a] show ?thesis
    using less a assms that by (auto simp: switch_block_def Let_def writer_at_def)
qed

lemma EmitPhysicalRecord_spec:
  assumes "EmitPhysicalRecord ops t payload w = (s, w')" and "lw_type_crc w = InitTypeCrc"
  obtains k where "k \<le> 7 + length payload"
    "contents (lw_dest w') = contents (lw_dest w) @ take k (phys t payload)"
    "status_ok s \<longleftrightarrow> k = 7 + length payload \<and> \<not> noflush (lw_dest w)"
    "\<not> status_ok s \<longrightarrow> full (lw_dest w') \<or> noflush (lw_dest w')"
    "full (lw_dest w) \<longrightarrow> k = 0 \<and> \<not> status_ok s" "noflush (lw_dest w') = noflush (lw_dest w)"
    "lw_block_offset w' = lw_block_offset w + kHeaderSize + length payload" "lw_type_crc w' = InitTypeCrc"
proof -
  let ?h = "physical_header InitTypeCrc t payload"
  obtain s1 d1 where a1: "wf_Append ops ?h (lw_dest w) = (s1, d1)" by fastforce
  obtain s2 d2 where a2: "wf_Append ops payload d1 = (s2, d2)" by fastforce
  obtain s3 d3 where a3: "wf_Flush ops d2 = (s3, d3)" by fastforce
  have w': "lw_block_offset w' = lw_block_offset w + kHeaderSize + length payload" "lw_type_crc w' = InitTypeCrc"
    "lw_dest w' = (if \<not> status_ok s1 then d1 else if \<not> status_ok s2 then d2 else d3)"
    "s = (if \<not> status_ok s1 then s1 else if \<not> status_ok s2 then s2 else s3)"
    using assms a1 a2 a3 by (auto simp: EmitPhysicalRecord_def Let_def split: if_splits)
  from append [OF a1] obtain k1 where k1: "k1 \<le> 7" "contents d1 = contents (lw_dest w) @ take k1 ?h"
    "status_ok s1 \<longleftrightarrow> k1 = 7" "k1 < 7 \<longrightarrow> full d1" "noflush d1 = noflush (lw_dest w)" by auto
  from append [OF a2] obtain k2 where k2: "k2 \<le> length payload" "contents d2 = contents d1 @ take k2 payload"
    "status_ok s2 \<longleftrightarrow> k2 = length payload" "k2 < length payload \<longrightarrow> full d2" "noflush d2 = noflush d1" by auto
  have f: "full (lw_dest w) \<Longrightarrow> k1 = 0 \<and> \<not> status_ok s1"
    using append_full [OF a1] k1(1,2) by (auto simp flip: length_0_conv)
  show ?thesis
  proof (rule that [of "if status_ok s1 then 7 + k2 else k1"])
    show "full (lw_dest w) \<longrightarrow> (if status_ok s1 then 7 + k2 else k1) = 0 \<and> \<not> status_ok s"
      using f w'(4) by auto
    show "contents (lw_dest w') = contents (lw_dest w) @ take (if status_ok s1 then 7 + k2 else k1) (phys t payload)"
      using k1(1,2,3) k2(2,3) flush [OF a3] w'(3) by (auto simp: phys_def)
  qed (use k1 k2 flush [OF a3] w' in auto)
qed

lemma add_record_loop_spec:
  assumes "add_record_loop ops' is_first ptr w = (s, w')" and "writer_at w" and "ops' = ops"
  shows "\<exists>bs k. fragments is_first (length (contents (lw_dest w))) bs ptr \<and> k \<le> length bs
    \<and> contents (lw_dest w') = contents (lw_dest w) @ take k bs
    \<and> (status_ok s \<longrightarrow> writer_at w') \<and> (status_ok s \<longleftrightarrow> k = length bs \<and> \<not> noflush (lw_dest w))
    \<and> (\<not> status_ok s \<longrightarrow> full (lw_dest w') \<or> noflush (lw_dest w')) \<and> noflush (lw_dest w') = noflush (lw_dest w)"
  using assms
proof (induction ops' is_first ptr w arbitrary: s w' rule: add_record_loop.induct)
  case (1 ops' is_first ptr w)
  note ops = \<open>ops' = ops\<close>
  define L where "L = length (contents (lw_dest w))"
  define w1 where "w1 = switch_block ops w"
  define avail where "avail = kBlockSize - (L + pad L) mod kBlockSize - kHeaderSize"
  define n where "n = (if length ptr < avail then length ptr else avail)"
  define t where "t = fragment_type is_first (length ptr = n)"
  define head where "head = replicate (pad L) 0 @ phys t (take n ptr)"
  obtain k1 where k1: "k1 \<le> pad L" "contents (lw_dest w1) = contents (lw_dest w) @ replicate k1 0"
    "k1 < pad L \<longrightarrow> full (lw_dest w1)" "lw_block_offset w1 = (L + pad L) mod kBlockSize"
    "lw_type_crc w1 = InitTypeCrc" "noflush (lw_dest w1) = noflush (lw_dest w)"
    unfolding L_def w1_def by (rule switch_block_spec [OF 1(3)])
  obtain s1 w2 where e: "EmitPhysicalRecord ops t (take n ptr) w1 = (s1, w2)" by fastforce
  have n_le: "n \<le> avail" and take_n: "length (take n ptr) = n" by (auto simp: n_def)
  obtain k2 where k2: "k2 \<le> 7 + n"
    "contents (lw_dest w2) = contents (lw_dest w1) @ take k2 (phys t (take n ptr))"
    "status_ok s1 \<longleftrightarrow> k2 = 7 + n \<and> \<not> noflush (lw_dest w1)" "\<not> status_ok s1 \<longrightarrow> full (lw_dest w2) \<or> noflush (lw_dest w2)"
    "full (lw_dest w1) \<longrightarrow> k2 = 0 \<and> \<not> status_ok s1" "noflush (lw_dest w2) = noflush (lw_dest w1)"
    "lw_block_offset w2 = lw_block_offset w1 + kHeaderSize + n" "lw_type_crc w2 = InitTypeCrc"
    by (rule EmitPhysicalRecord_spec [OF e k1(5), unfolded take_n])
  have len_head: "length head = pad L + 7 + n" using take_n by (simp add: head_def)
  have k: "contents (lw_dest w2) = contents (lw_dest w) @ take (k1 + k2) head"
    using k1(1-3) k2(2,5) unfolding head_def by (cases "k1 < pad L") auto
  have ok: "k1 + k2 = length head" "writer_at w2" "length (contents (lw_dest w2)) = L + pad L + kHeaderSize + n"
    if "status_ok s1"
  proof -
    have k1': "k1 = pad L" using k1(1,3) k2(5) that by (metis le_neq_implies_less)
    then show "k1 + k2 = length head" using k2(3) that len_head by simp
    then show len: "length (contents (lw_dest w2)) = L + pad L + kHeaderSize + n"
      using k len_head by (simp add: kHeaderSize_def L_def)
    then show "writer_at w2"
      using k2(7,8) k1(4) n_le pad_room [of L] mod_add_left_eq [of "L + pad L" kBlockSize "kHeaderSize + n"]
      by (auto simp: writer_at_def add.assoc avail_def)
  qed
  have s1: "status_ok s1 \<longleftrightarrow> k1 + k2 = length head \<and> \<not> noflush (lw_dest w)"
    using ok(1) k1(1,6) k2(1,3) len_head by auto
  have rec: "(s, w') = (if status_ok s1 \<and> length ptr - n > 0 then add_record_loop ops False (drop n ptr) w2 else (s1, w2))"
    using 1(2) e k1(4) by (subst (asm) add_record_loop.simps) (auto simp: Let_def ops w1_def n_def avail_def t_def)
  show ?case
  proof (cases "length ptr \<le> avail")
    case True
    then have n: "n = length ptr" by (simp add: n_def)
    then have "fragments is_first L head ptr"
      using fragments_last [OF True [unfolded avail_def] pad_room, of is_first] by (simp add: head_def t_def)
    moreover have "s = s1" "w' = w2" using rec n by simp_all
    ultimately show ?thesis using k ok s1 k1(1,6) k2(1,4,6) len_head unfolding L_def
      by (intro exI [of _ head] exI [of _ "k1 + k2"]) simp
  next
    case False
    then have n: "n = avail" "n < length ptr" and t: "t = fragment_type is_first False" by (auto simp: n_def t_def)
    have frag: "fragments is_first L (head @ bs) ptr"
      if "fragments False (L + pad L + kHeaderSize + n) bs (drop n ptr)" for bs
      using fragments_split [OF n_le [unfolded avail_def] pad_room n(2) that, of is_first]
      by (simp add: head_def t)
    show ?thesis
    proof (cases "status_ok s1")
      case True
      have run: "add_record_loop ops False (drop n ptr) w2 = (s, w')" using rec True n by auto
      have d: "w1 = switch_block ops' w" "avail = kBlockSize - lw_block_offset w1 - kHeaderSize"
        "(s1, w2) = EmitPhysicalRecord ops' (fragment_type is_first (length ptr = n)) (take n ptr) w1"
        using e k1(4) ops by (simp_all add: w1_def avail_def t_def)
      obtain bs k' where IH: "fragments False (length (contents (lw_dest w2))) bs (drop n ptr)" "k' \<le> length bs"
        "contents (lw_dest w') = contents (lw_dest w2) @ take k' bs"
        "status_ok s \<longrightarrow> writer_at w'" "status_ok s \<longleftrightarrow> k' = length bs \<and> \<not> noflush (lw_dest w2)"
        "\<not> status_ok s \<longrightarrow> full (lw_dest w') \<or> noflush (lw_dest w')" "noflush (lw_dest w') = noflush (lw_dest w2)"
        using 1(1) [OF d(1,2) n_def refl d(3), of s w'] run True ok(2) n(2) ops by auto
      have "contents (lw_dest w') = contents (lw_dest w) @ take (length head + k') (head @ bs)"
        using k IH(3) ok(1) [OF True] by simp
      then show ?thesis using frag [of bs] IH ok(1) [OF True] ok(3) [OF True] k1(6) k2(6) unfolding L_def [symmetric]
        by (intro exI [of _ "head @ bs"] exI [of _ "length head + k'"]) simp
    next
      case fail: False
      obtain bs where "fragments False (L + pad L + kHeaderSize + n) bs (drop n ptr)"
        using fragments_exist by blast
      moreover from this have "7 \<le> length bs" by (rule fragments_nonempty)
      moreover have "s = s1" "w' = w2" using rec fail by simp_all
      ultimately show ?thesis using frag fail k k1(1,6) k2(1,4,6) len_head unfolding L_def [symmetric]
        by (intro exI [of _ "head @ bs"] exI [of _ "k1 + k2"]) simp
    qed
  qed
qed

lemma add_records_spec:
  assumes "add_records ops recs w = (s, w')" and "writer_at w" and "status_ok s"
  shows "\<exists>bs. log_of (length (contents (lw_dest w))) bs recs \<and> contents (lw_dest w') = contents (lw_dest w) @ bs
    \<and> writer_at w'"
  using assms
proof (induction recs arbitrary: w)
  case Nil
  then show ?case by (auto intro: log_of.empty)
next
  case (Cons rec recs)
  obtain s1 w1 where 1: "AddRecord ops rec w = (s1, w1)" by fastforce
  with Cons.prems have s1: "status_ok s1" and 2: "add_records ops recs w1 = (s, w')" by (auto split: if_splits)
  from 1 s1 add_record_loop_spec [of ops True rec w s1 w1] Cons.prems(2) obtain bs
    where bs: "fragments True (length (contents (lw_dest w))) bs rec" "contents (lw_dest w1) = contents (lw_dest w) @ bs"
      "writer_at w1" by (auto simp: AddRecord_def)
  from Cons.IH [OF 2 bs(3) Cons.prems(3)] bs show ?case by (auto intro: log_of.add)
qed

lemma AddRecord_spec:
  "AddRecord ops rec w = (s, w') \<Longrightarrow> writer_at w \<Longrightarrow>
    \<exists>bs k. fragments True (length (contents (lw_dest w))) bs rec \<and> k \<le> length bs
      \<and> contents (lw_dest w') = contents (lw_dest w) @ take k bs \<and> (status_ok s \<longrightarrow> writer_at w')
      \<and> (status_ok s \<longleftrightarrow> k = length bs \<and> \<not> noflush (lw_dest w))
      \<and> (\<not> status_ok s \<longrightarrow> full (lw_dest w') \<or> noflush (lw_dest w')) \<and> noflush (lw_dest w') = noflush (lw_dest w)"
  unfolding AddRecord_def by (rule add_record_loop_spec) simp_all

lemma writer_at_new: "length (contents f) < 2 ^ 64 \<Longrightarrow> writer_at (Writer_new f (of_nat (length (contents f))))"
  by (simp add: writer_at_def Writer_new_def unat_of_nat le_less)

end

end
