(* ===== verification/Ldb_Log_Props.thy ===== *)
theory Ldb_Log_Props
  imports Ldb_Log_Spec
begin

text \<open>
  What the log guarantees on POSIX files: records that were acknowledged are read back, a crash in the
  middle of a write loses at most the record being written, adding a record fails only if the device
  does, and damaged payloads are reported.
\<close>

text \<open>A file that is opened again for reading, after a crash has left its first \<open>j\<close> bytes.\<close>

definition reopen :: "nat \<Rightarrow> posix_file \<Rightarrow> posix_file" where
  "reopen j f = f\<lparr>pf_file := (pf_file f)\<lparr>cf_bytes := take j (cf_bytes (pf_file f)), cf_pos := 0, cf_eof := False,
     cf_good := j\<rparr>\<rparr>"

abbreviation file_bytes :: "posix_file log_writer \<Rightarrow> slice" where
  "file_bytes w \<equiv> cf_bytes (pf_file (lw_dest w))"

abbreviation reader_of :: "nat \<Rightarrow> posix_file log_writer \<Rightarrow> bool \<Rightarrow> bool \<Rightarrow> posix_file log_reader" where
  "reader_of j w rep ck \<equiv> Reader_new (reopen j (lw_dest w)) rep ck 0"

lemma recover_posix:
  assumes "log_of 0 bs recs" and "fragments True (length bs) bs' rec'" and "k < length bs'"
    and "take j (file_bytes w) = bs @ take k bs'" and "length bs + k < n"
  shows "\<exists>r. read_all n posix_sfile (reader_of j w rep ck) = Some (recs, r) \<and> lr_reports r = []"
proof (rule posix_source.recover [OF assms(1-3) _ _ assms(5)])
  show "length (cf_bytes (pf_file (reopen j (lw_dest w)))) \<le> cf_good (pf_file (reopen j (lw_dest w)))"
    by (simp add: reopen_def)
qed (simp add: reopen_def cf_left_def assms(4))

lemma recover_posix_whole:
  assumes "log_of 0 bs recs" and "take j (file_bytes w) = bs" and "length bs < n"
  shows "\<exists>r. read_all n posix_sfile (reader_of j w rep ck) = Some (recs, r) \<and> lr_reports r = []"
proof -
  obtain bs' where "fragments True (length bs) bs' []" using fragments_exist by blast
  moreover from fragments_nonempty [OF this] have "0 < length bs'" by auto
  ultimately show ?thesis using recover_posix [OF assms(1), of bs' "[]" 0] assms(2,3) by simp
qed

lemma writer_new_posix:
  assumes "length (cf_bytes (pf_file f)) < 2 ^ 64"
  shows "posix_dest.writer_at (Writer_new f (of_nat (length (cf_bytes (pf_file f)))))"
  using posix_dest.writer_at_new [of f] assms by simp

lemma lw_dest_new [simp]: "lw_dest (Writer_new f n) = f"
  by (simp add: Writer_new_def)

lemma add_records_log:
  assumes "add_records posix_wfile recs (Writer_new f (of_nat (length (cf_bytes (pf_file f))))) = (s, w)"
    and "status_ok s" and "log_of 0 (cf_bytes (pf_file f)) old" and "length (cf_bytes (pf_file f)) < 2 ^ 64"
  shows "log_of 0 (file_bytes w) (old @ recs) \<and> posix_dest.writer_at w"
  using posix_dest.add_records_spec [OF assms(1) writer_new_posix [OF assms(4)] assms(2)] log_of_append [OF assms(3)]
  by auto

text \<open>An empty file on a device with room for thirty bytes, for the examples.\<close>

definition demo_file :: posix_file where
  "demo_file = \<lparr>pf_filename = [], pf_file = \<lparr>cf_bytes = [], cf_pos = 0, cf_eof = False, cf_room = 30, cf_good = 0,
     cf_flush_fails = False, cf_strerror = []\<rparr>\<rparr>"

lemma demo_run:
  assumes "w = Writer_new demo_file 0"
  shows "\<exists>w1. add_records posix_wfile [[1, 2], []] w = (Status_OK, w1) \<and> length (file_bytes w1) = 16 \<and> cf_room (pf_file (lw_dest w1)) = 14
    \<and> \<not> cf_flush_fails (pf_file (lw_dest w1))
    \<and> (\<exists>w2. AddRecord posix_wfile [3, 4, 5, 6, 7, 8, 9, 10] w1 = (Status_IOError [] [], w2) \<and> length (file_bytes w2) = 30)"
  using assms
  by (simp add: demo_file_def Writer_new_def AddRecord_def add_record_loop.simps switch_block_def
      EmitPhysicalRecord_def posix_wfile_def PosixWritableFile_Append_def PosixWritableFile_Flush_def fwrite_def
      fflush_def Let_def kBlockSize_def kHeaderSize_def pf_IOError_def IOError_def status_ok_def Status_OK_def
      Status_IOError_def Status_new_def)

text \<open>
  C5. Every record that was acknowledged is read back: if a log that holds the records \<open>old\<close> is opened
  for appending, and adding the records \<open>recs\<close> succeeds, then a reader of the file returns \<open>old\<close> and
  \<open>recs\<close>, in this order and whatever their lengths, and reports no corruption.
\<close>
theorem log_roundtrip:
  assumes "add_records posix_wfile recs (Writer_new f (of_nat (length (cf_bytes (pf_file f))))) = (s, w)"
    and "status_ok s" and "log_of 0 (cf_bytes (pf_file f)) old" and "length (cf_bytes (pf_file f)) < 2 ^ 64"
    and "length (file_bytes w) < n"
  shows "\<exists>r. read_all n posix_sfile (reader_of (length (file_bytes w)) w rep ck) = Some (old @ recs, r)
    \<and> lr_reports r = []"
  using recover_posix_whole [of "file_bytes w" "old @ recs"] add_records_log [OF assms(1-4)] assms(5) by simp

theorem log_roundtrip_witness:
  "\<exists>w r. add_records posix_wfile [[1, 2], []] (Writer_new demo_file 0) = (Status_OK, w)
    \<and> read_all 17 posix_sfile (reader_of 16 w True True) = Some ([[1, 2], []], r) \<and> lr_reports r = []"
proof -
  obtain w where w: "add_records posix_wfile [[1, 2], []] (Writer_new demo_file 0) = (Status_OK, w)"
    "length (file_bytes w) = 16" using demo_run [OF refl] by blast
  have "cf_bytes (pf_file demo_file) = []" by (simp add: demo_file_def)
  with log_roundtrip [of "[[1, 2], []]" demo_file Status_OK w "[]" 17 True True] w show ?thesis
    by (auto simp: log_of.empty)
qed

text \<open>
  C2. A crash loses at most the record being written: if records were added, one more is added, with
  success or not, and only the first \<open>j\<close> bytes of the file survive, among them what was there before,
  then the reader returns all the earlier records and reports no corruption. It returns the last record
  too if it was acknowledged and survived, and does not return it if some of its bytes were lost.
\<close>
theorem log_crash_safe:
  assumes "add_records posix_wfile recs (Writer_new f 0) = (s, w)" and "status_ok s" and "cf_bytes (pf_file f) = []"
    and "AddRecord posix_wfile rec w = (s', w')" and "length (file_bytes w) \<le> j" and "length (file_bytes w') < n"
  shows "\<exists>out r. read_all n posix_sfile (reader_of j w' rep ck) = Some (out, r) \<and> lr_reports r = []
    \<and> (out = recs \<or> out = recs @ [rec]) \<and> (j < length (file_bytes w') \<longrightarrow> out = recs)
    \<and> (status_ok s' \<and> length (file_bytes w') \<le> j \<longrightarrow> out = recs @ [rec])"
proof -
  have log: "log_of 0 (file_bytes w) recs" and w: "posix_dest.writer_at w"
    using add_records_log [of recs f s w "[]"] assms(1-3) by (simp_all add: log_of.empty)
  obtain bs k where bs: "fragments True (length (file_bytes w)) bs rec" "k \<le> length bs"
    "file_bytes w' = file_bytes w @ take k bs" "status_ok s' \<longrightarrow> k = length bs"
    using posix_dest.AddRecord_spec [OF assms(4) w] by auto
  define i where "i = min k (j - length (file_bytes w))"
  have i: "take j (file_bytes w') = file_bytes w @ take i bs" using bs(3) assms(5) by (simp add: i_def min.commute)
  show ?thesis
  proof (cases "i < length bs")
    case True
    have "length (file_bytes w) + i < n" using bs(2,3) assms(6) by (simp add: i_def)
    from recover_posix [OF log bs(1) True i this, of rep ck] show ?thesis
      using True bs(2-4) assms(5) by (intro exI [of _ recs]) (auto simp: i_def)
  next
    case False
    then have whole: "i = length bs" "k = length bs" using bs(2) by (auto simp: i_def)
    have "log_of 0 (file_bytes w @ bs) (recs @ [rec])"
      using log_of_append [OF log] log_of.add [OF _ log_of.empty] bs(1) by fastforce
    moreover have "length (file_bytes w) + length bs \<le> j" using whole assms(5) by (simp add: i_def min_def split: if_splits)
    ultimately show ?thesis
      using recover_posix_whole [of "file_bytes w @ bs" "recs @ [rec]" j w' n rep ck] whole bs(3) assms(6) by auto
  qed
qed

theorem log_crash_safe_witness:
  "\<exists>w w' r. add_records posix_wfile [[1, 2], []] (Writer_new demo_file 0) = (Status_OK, w)
    \<and> AddRecord posix_wfile [3, 4, 5, 6, 7, 8, 9, 10] w = (Status_IOError [] [], w')
    \<and> read_all 31 posix_sfile (reader_of 25 w' True True) = Some ([[1, 2], []], r) \<and> lr_reports r = []"
proof -
  obtain w w' where w: "add_records posix_wfile [[1, 2], []] (Writer_new demo_file 0) = (Status_OK, w)"
    "length (file_bytes w) = 16" "AddRecord posix_wfile [3, 4, 5, 6, 7, 8, 9, 10] w = (Status_IOError [] [], w')"
    "length (file_bytes w') = 30" using demo_run [OF refl] by blast
  have "cf_bytes (pf_file demo_file) = []" by (simp add: demo_file_def)
  with log_crash_safe [OF w(1) _ _ w(3), of 25 31 True True] w show ?thesis by auto
qed

text \<open>What appending and flushing keep, adding a record keeps: here the size of the device.\<close>

lemma add_record_loop_keeps:
  assumes append: "\<And>bs f. P (snd (wf_Append ops bs f)) = P f" and flush: "\<And>f. P (snd (wf_Flush ops f)) = P f"
  shows "P (lw_dest (snd (add_record_loop ops is_first ptr w))) = P (lw_dest w)"
proof -
  have block: "P (lw_dest (switch_block ops w)) = P (lw_dest w)" for w by (simp add: switch_block_def Let_def append)
  have emit: "P (lw_dest (snd (EmitPhysicalRecord ops t payload w))) = P (lw_dest w)" for t payload w
    using append [of "physical_header (lw_type_crc w) t payload" "lw_dest w"] append [of payload] flush
    by (auto simp: EmitPhysicalRecord_def Let_def split: prod.splits if_splits) (metis snd_conv)+
  have "ops' = ops \<Longrightarrow> P (lw_dest (snd (add_record_loop ops' is_first ptr w))) = P (lw_dest w)" for ops'
  proof (induction ops' is_first ptr w rule: add_record_loop.induct)
    case (1 ops' is_first ptr w)
    let ?w1 = "switch_block ops w"
    let ?avail = "kBlockSize - lw_block_offset ?w1 - kHeaderSize"
    let ?n = "if length ptr < ?avail then length ptr else ?avail"
    obtain s1 w2 where e: "EmitPhysicalRecord ops (fragment_type is_first (length ptr = ?n)) (take ?n ptr) ?w1 = (s1, w2)"
      by fastforce
    have w2: "P (lw_dest w2) = P (lw_dest w)" using emit [of _ _ ?w1] block [of w] e by (metis snd_conv)
    have "add_record_loop ops is_first ptr w
        = (if status_ok s1 \<and> length ptr - ?n > 0 then add_record_loop ops False (drop ?n ptr) w2 else (s1, w2))"
      by (subst add_record_loop.simps) (simp only: Let_def e split_conv)
    moreover have "status_ok s1 \<and> length ptr - ?n > 0 \<Longrightarrow>
        P (lw_dest (snd (add_record_loop ops False (drop ?n ptr) w2))) = P (lw_dest w2)"
      using "1.IH" [unfolded "1.prems", OF refl refl refl e [symmetric]] by blast
    ultimately show ?case using w2 "1.prems" by simp
  qed
  then show ?thesis by simp
qed

definition device_size :: "posix_file \<Rightarrow> nat" where
  "device_size f = length (cf_bytes (pf_file f)) + cf_room (pf_file f)"

text \<open>
  C21. Adding a record succeeds exactly if the device takes all of it: with the bytes \<open>bs\<close> that the format prescribes for the
  record at the end of the file, the status is OK if and only if they fit on the device and it can be flushed. Then exactly
  these bytes follow in the file. If they do not fit, as many of them follow as the device takes, and in any case a prefix.
\<close>
theorem AddRecord_fails_with_device:
  assumes "add_records posix_wfile recs (Writer_new f 0) = (s, w)" and "status_ok s" and "cf_bytes (pf_file f) = []"
    and "AddRecord posix_wfile rec w = (s', w')"
  shows "\<exists>bs k. fragments True (length (file_bytes w)) bs rec \<and> file_bytes w' = file_bytes w @ take k bs \<and> k \<le> length bs
    \<and> (status_ok s' \<longleftrightarrow> length bs \<le> cf_room (pf_file (lw_dest w)) \<and> \<not> cf_flush_fails (pf_file (lw_dest w)))
    \<and> (\<not> cf_flush_fails (pf_file (lw_dest w)) \<longrightarrow> k = min (length bs) (cf_room (pf_file (lw_dest w))))"
proof -
  have "posix_dest.writer_at w" using add_records_log [of recs f s w "[]"] assms(1-3) by (simp add: log_of.empty)
  from posix_dest.AddRecord_spec [OF assms(4) this] obtain bs k where
    bs: "fragments True (length (file_bytes w)) bs rec" "k \<le> length bs" "file_bytes w' = file_bytes w @ take k bs"
      "status_ok s' \<longleftrightarrow> k = length bs \<and> \<not> cf_flush_fails (pf_file (lw_dest w))"
      "\<not> status_ok s' \<longrightarrow> cf_room (pf_file (lw_dest w')) = 0 \<or> cf_flush_fails (pf_file (lw_dest w'))"
      "cf_flush_fails (pf_file (lw_dest w')) = cf_flush_fails (pf_file (lw_dest w))" by auto
  have "device_size (lw_dest w') = device_size (lw_dest w)"
    using add_record_loop_keeps [of device_size posix_wfile True rec w] assms(4)
    by (simp add: AddRecord_def device_size_def posix_wfile_def PosixWritableFile_Append_def PosixWritableFile_Flush_def
        fwrite_def fflush_def Let_def)
  then have "k + cf_room (pf_file (lw_dest w')) = cf_room (pf_file (lw_dest w))"
    using bs(2,3) by (simp add: device_size_def)
  with bs show ?thesis by (intro exI [of _ bs] exI [of _ k]) auto
qed

theorem AddRecord_fails_with_device_witness:
  "\<exists>w w'. add_records posix_wfile [[1, 2], []] (Writer_new demo_file 0) = (Status_OK, w)
    \<and> AddRecord posix_wfile [3, 4, 5, 6, 7, 8, 9, 10] w = (Status_IOError [] [], w')
    \<and> (\<exists>bs. fragments True (length (file_bytes w)) bs [3, 4, 5, 6, 7, 8, 9, 10] \<and> 14 < length bs
         \<and> file_bytes w' = file_bytes w @ take 14 bs)"
proof -
  obtain w w' where w: "add_records posix_wfile [[1, 2], []] (Writer_new demo_file 0) = (Status_OK, w)"
    "AddRecord posix_wfile [3, 4, 5, 6, 7, 8, 9, 10] w = (Status_IOError [] [], w')"
    "cf_room (pf_file (lw_dest w)) = 14" "\<not> cf_flush_fails (pf_file (lw_dest w))" using demo_run [OF refl] by blast
  have "cf_bytes (pf_file demo_file) = []" by (simp add: demo_file_def)
  with AddRecord_fails_with_device [OF w(1) _ _ w(2)] w show ?thesis
    by (fastforce simp: Status_IOError_def Status_new_def Status_OK_def status_ok_def Let_def)
qed

text \<open>
  C22. Damage to a payload is reported: if at most four consecutive bytes of the payload of a physical
  record were altered, a reader that verifies checksums drops the block and reports a checksum mismatch.
\<close>
theorem log_detects_burst:
  assumes "lr_buffer r = physical_header InitTypeCrc t (xs @ old @ ys) @ (xs @ new @ ys) @ rest"
    and "length new = length old" and "length old \<le> 4" and "new \<noteq> old" and "lr_checksum r"
    and "1 \<le> t" and "t \<le> 4" and "length (xs @ old @ ys) < 65536"
  shows "parse_record r = ((kBadRecord, None),
    ReportCorruption (of_nat (length (lr_buffer r))) (str ''checksum mismatch'') (r\<lparr>lr_buffer := []\<rparr>))"
proof -
  have "crc_Value 0 ((of_nat t # xs) @ new @ ys) \<noteq> crc_Value 0 ((of_nat t # xs) @ old @ ys)"
    by (rule crc_Value_burst [OF assms(2-4)])
  moreover have "(of_nat t :: u32) \<noteq> of_nat kZeroType"
    using assms(6,7) by (subst small_types) (auto simp: kZeroType_def)
  ultimately show ?thesis
    using assms(2,5-8)
    by (simp add: parse_record_def Let_def assms(1) nth_physical_header payload_length type_byte drop_physical_header
        header_crc kHeaderSize_def)
qed

theorem log_detects_burst_witness:
  "parse_record ((Reader_new () True True 0)\<lparr>lr_buffer := physical_header InitTypeCrc 1 [7, 8, 9] @ [7, 0, 9]\<rparr>) =
    ((kBadRecord, None), ReportCorruption 10 (str ''checksum mismatch'') (Reader_new () True True 0))"
  using log_detects_burst [of "(Reader_new () True True 0)\<lparr>lr_buffer := physical_header InitTypeCrc 1 [7, 8, 9] @ [7, 0, 9]\<rparr>"
      1 "[7]" "[8]" "[9]" "[0]" "[]"]
  by (simp add: Reader_new_def)

end
