(* ===== verification/Ldb_Skiplist.thy ===== *)
theory Ldb_Skiplist
  imports Ldb_Comparator "HOL-Library.Monad_Syntax"
begin

text \<open>
  The skip list of \<^verbatim>\<open>db/skiplist.h\<close> and the random numbers of \<^verbatim>\<open>util/random.h\<close>. The arena of nodes is a
  list; a pointer to a node is its index, \<open>None\<close> is \<^verbatim>\<open>NULL\<close> and the head is node 0. An access to a node or a
  link that is not there, or a load of a link that was never stored, is \<open>None\<close> in the option monad, so a result \<open>Some\<close>
  says that no such access happens and that the loops end.
\<close>

section \<open>Random numbers\<close>

definition Random_new :: "u32 \<Rightarrow> u32" where
  "Random_new s = (let seed = s AND 0x7fffffff in if seed = 0 \<or> seed = 2147483647 then 1 else seed)"

definition Random_Next :: "u32 \<Rightarrow> u32" where
  "Random_Next seed =
     (let M = 2147483647 :: u32; A = 16807 :: u64; product = ucast seed * A;
          seed' = ucast (drop_bit 31 product + (product AND ucast M)) :: u32
      in if seed' > M then seed' - M else seed')"

text \<open>The other operations return the number and the new seed; a signed argument is taken modulo \<open>2^32\<close>.\<close>

definition Random_Uniform :: "int \<Rightarrow> u32 \<Rightarrow> u32 \<times> u32" where
  "Random_Uniform n seed = (let r = Random_Next seed in (r mod word_of_int n, r))"
definition Random_OneIn :: "int \<Rightarrow> u32 \<Rightarrow> bool \<times> u32" where
  "Random_OneIn n seed = (let r = Random_Next seed in (r mod word_of_int n = 0, r))"
definition Random_Skewed :: "int \<Rightarrow> u32 \<Rightarrow> u32 \<times> u32" where
  "Random_Skewed max_log seed =
     (let (base, seed1) = Random_Uniform (max_log + 1) seed in Random_Uniform (2 ^ unat base) seed1)"

section \<open>Nodes\<close>

text \<open>A link is \<open>None\<close> until something is stored in it.\<close>

record 'k node =
  sn_key :: 'k
  sn_next :: "nat option option list"

record 'k skiplist =
  sl_nodes :: "'k node list"
  sl_max_height :: nat
  sl_rnd :: u32

definition kMaxHeight :: nat where "kMaxHeight = 12"

definition node_key :: "'k node list \<Rightarrow> nat \<Rightarrow> 'k option" where
  "node_key nodes x = (if x < length nodes then Some (sn_key (nodes ! x)) else None)"

definition node_Next :: "'k node list \<Rightarrow> nat \<Rightarrow> nat \<Rightarrow> nat option option" where
  "node_Next nodes x n =
     (if x < length nodes \<and> n < length (sn_next (nodes ! x)) then sn_next (nodes ! x) ! n else None)"

definition node_SetNext :: "'k node list \<Rightarrow> nat \<Rightarrow> nat \<Rightarrow> nat option \<Rightarrow> 'k node list option" where
  "node_SetNext nodes x n y =
     (if x < length nodes \<and> n < length (sn_next (nodes ! x))
      then Some (nodes[x := (nodes ! x)\<lparr>sn_next := (sn_next (nodes ! x))[n := Some y]\<rparr>]) else None)"

text \<open>A new node is the next element of the arena; its links are not initialised.\<close>

definition NewNode :: "'k node list \<Rightarrow> 'k \<Rightarrow> nat \<Rightarrow> 'k node list \<times> nat" where
  "NewNode nodes key height = (nodes @ [\<lparr>sn_key = key, sn_next = replicate height None\<rparr>], length nodes)"

text \<open>The constructor; the key of the head is arbitrary, and the loop stores \<^verbatim>\<open>NULL\<close> in all its links.\<close>

definition SkipList_new :: "'k \<Rightarrow> 'k skiplist" where
  "SkipList_new k =
     (let (nodes, head) = NewNode [] k kMaxHeight
      in \<lparr>sl_nodes = foldl (\<lambda>nodes i. the (node_SetNext nodes head i None)) nodes [0..<kMaxHeight],
          sl_max_height = 1, sl_rnd = Random_new 0xdeadbeef\<rparr>)"

function RandomHeight_loop :: "nat \<Rightarrow> u32 \<Rightarrow> nat \<times> u32" where
  "RandomHeight_loop height rnd =
     (if height < kMaxHeight then
        let rnd' = Random_Next rnd in
        if rnd' mod 4 = 0 then RandomHeight_loop (height + 1) rnd' else (height, rnd')
      else (height, rnd))"
  by pat_completeness auto
termination by (relation "measure (\<lambda>(height, rnd). kMaxHeight - height)") auto

declare RandomHeight_loop.simps [simp del]

definition RandomHeight :: "u32 \<Rightarrow> nat \<times> u32" where
  "RandomHeight rnd = RandomHeight_loop 1 rnd"

section \<open>Searching\<close>

definition KeyIsAfterNode :: "('k \<Rightarrow> 'k \<Rightarrow> int) \<Rightarrow> 'k node list \<Rightarrow> 'k \<Rightarrow> nat option \<Rightarrow> bool option" where
  "KeyIsAfterNode cmp nodes key n =
     (case n of None \<Rightarrow> Some False | Some y \<Rightarrow> map_option (\<lambda>k. cmp k key < 0) (node_key nodes y))"

text \<open>The local variables of a search: the current node, the level and the array \<^verbatim>\<open>prev\<close>, when there is one.\<close>

record search =
  fs_x :: nat
  fs_level :: nat
  fs_prev :: "nat option list option"

text \<open>One round of the loop of \<^verbatim>\<open>FindGreaterOrEqual\<close>: the next state, or the result with the array.\<close>

definition find_ge_round ::
  "('k \<Rightarrow> 'k \<Rightarrow> int) \<Rightarrow> 'k node list \<Rightarrow> 'k \<Rightarrow> search \<Rightarrow> (search + (nat option \<times> nat option list option)) option" where
  "find_ge_round cmp nodes key s = do {
     next \<leftarrow> node_Next nodes (fs_x s) (fs_level s);
     after \<leftarrow> KeyIsAfterNode cmp nodes key next;
     if after then map_option (\<lambda>y. Inl (s\<lparr>fs_x := y\<rparr>)) next
     else let prev' = map_option (\<lambda>p. p[fs_level s := Some (fs_x s)]) (fs_prev s) in
       if fs_level s = 0 then Some (Inr (next, prev'))
       else Some (Inl (s\<lparr>fs_level := fs_level s - 1, fs_prev := prev'\<rparr>))
   }"

partial_function (option) find_ge_loop ::
  "('k \<Rightarrow> 'k \<Rightarrow> int) \<Rightarrow> 'k node list \<Rightarrow> 'k \<Rightarrow> search \<Rightarrow> (nat option \<times> nat option list option) option" where
  [code]: "find_ge_loop cmp nodes key s = do {
     r \<leftarrow> find_ge_round cmp nodes key s;
     case r of Inl s' \<Rightarrow> find_ge_loop cmp nodes key s' | Inr result \<Rightarrow> Some result
   }"

definition FindGreaterOrEqual ::
  "('k \<Rightarrow> 'k \<Rightarrow> int) \<Rightarrow> 'k skiplist \<Rightarrow> 'k \<Rightarrow> nat option list option \<Rightarrow> (nat option \<times> nat option list option) option" where
  "FindGreaterOrEqual cmp sl key prev =
     find_ge_loop cmp (sl_nodes sl) key \<lparr>fs_x = 0, fs_level = sl_max_height sl - 1, fs_prev = prev\<rparr>"

text \<open>\<open>stop\<close> is the condition under which a search leaves the level.\<close>

partial_function (option) find_last_loop ::
  "'k node list \<Rightarrow> (nat option \<Rightarrow> bool option) \<Rightarrow> nat \<Rightarrow> nat \<Rightarrow> nat option" where
  [code]: "find_last_loop nodes stop x level = do {
     next \<leftarrow> node_Next nodes x level;
     b \<leftarrow> stop next;
     if b then (if level = 0 then Some x else find_last_loop nodes stop x (level - 1))
     else next \<bind> (\<lambda>y. find_last_loop nodes stop y level)
   }"

definition FindLessThan :: "('k \<Rightarrow> 'k \<Rightarrow> int) \<Rightarrow> 'k skiplist \<Rightarrow> 'k \<Rightarrow> nat option" where
  "FindLessThan cmp sl key =
     find_last_loop (sl_nodes sl)
       (\<lambda>next. case next of None \<Rightarrow> Some True | Some y \<Rightarrow> map_option (\<lambda>k. cmp k key \<ge> 0) (node_key (sl_nodes sl) y))
       0 (sl_max_height sl - 1)"

definition FindLast :: "'k skiplist \<Rightarrow> nat option" where
  "FindLast sl = find_last_loop (sl_nodes sl) (\<lambda>next. Some (next = None)) 0 (sl_max_height sl - 1)"

section \<open>Insertion\<close>

text \<open>
  The two stores of one level: the link of the new node \<open>x\<close>, which no reader can see yet, and the link of its predecessor,
  which publishes the node.
\<close>

definition link_new :: "nat option list \<Rightarrow> nat \<Rightarrow> nat \<Rightarrow> 'k node list \<Rightarrow> 'k node list option" where
  "link_new prev x i nodes = do {
     p \<leftarrow> prev ! i;
     next \<leftarrow> node_Next nodes p i;
     node_SetNext nodes x i next
   }"

definition publish_new :: "nat option list \<Rightarrow> nat \<Rightarrow> nat \<Rightarrow> 'k node list \<Rightarrow> 'k node list option" where
  "publish_new prev x i nodes = do {
     p \<leftarrow> prev ! i;
     node_SetNext nodes p i (Some x)
   }"

definition link_level :: "nat option list \<Rightarrow> nat \<Rightarrow> nat \<Rightarrow> 'k node list \<Rightarrow> 'k node list option" where
  "link_level prev x i nodes = do {
     nodes1 \<leftarrow> link_new prev x i nodes;
     publish_new prev x i nodes1
   }"

function link_loop :: "nat option list \<Rightarrow> nat \<Rightarrow> nat \<Rightarrow> nat \<Rightarrow> 'k node list \<Rightarrow> 'k node list option" where
  "link_loop prev x height i nodes =
     (if i < height then link_level prev x i nodes \<bind> link_loop prev x height (i + 1) else Some nodes)"
  by pat_completeness auto
termination by (relation "measure (\<lambda>(prev, x, height, i, nodes). height - i)") auto

declare link_loop.simps [simp del]

text \<open>The loop that completes \<^verbatim>\<open>prev\<close> when the new node is higher than the list.\<close>

definition raise_prev :: "nat \<Rightarrow> nat \<Rightarrow> nat option list \<Rightarrow> nat option list" where
  "raise_prev lo height prev = map (\<lambda>i. if lo \<le> i \<and> i < height then Some 0 else prev ! i) [0..<length prev]"

text \<open>The part of \<^verbatim>\<open>Insert\<close> before the loop: the list with the new height and node, and what the loop needs.\<close>

definition insert_prepare :: "('k \<Rightarrow> 'k \<Rightarrow> int) \<Rightarrow> 'k skiplist \<Rightarrow> 'k \<Rightarrow> ('k skiplist \<times> nat option list \<times> nat \<times> nat) option" where
  "insert_prepare cmp sl key = do {
     (_, prev_opt) \<leftarrow> FindGreaterOrEqual cmp sl key (Some (replicate kMaxHeight None));
     prev \<leftarrow> prev_opt;
     let (height, rnd') = RandomHeight (sl_rnd sl);
     let raised = (height > sl_max_height sl);
     let prev' = (if raised then raise_prev (sl_max_height sl) height prev else prev);
     let max_height' = (if raised then height else sl_max_height sl);
     let (nodes1, x) = NewNode (sl_nodes sl) key height;
     Some (\<lparr>sl_nodes = nodes1, sl_max_height = max_height', sl_rnd = rnd'\<rparr>, prev', x, height)
   }"

definition SkipList_Insert :: "('k \<Rightarrow> 'k \<Rightarrow> int) \<Rightarrow> 'k skiplist \<Rightarrow> 'k \<Rightarrow> 'k skiplist option" where
  "SkipList_Insert cmp sl key = do {
     (sl1, prev, x, height) \<leftarrow> insert_prepare cmp sl key;
     nodes' \<leftarrow> link_loop prev x height 0 (sl_nodes sl1);
     Some (sl1\<lparr>sl_nodes := nodes'\<rparr>)
   }"

definition SkipList_Contains :: "('k \<Rightarrow> 'k \<Rightarrow> int) \<Rightarrow> 'k skiplist \<Rightarrow> 'k \<Rightarrow> bool option" where
  "SkipList_Contains cmp sl key = do {
     (x, _) \<leftarrow> FindGreaterOrEqual cmp sl key None;
     case x of None \<Rightarrow> Some False | Some y \<Rightarrow> map_option (\<lambda>k. cmp key k = 0) (node_key (sl_nodes sl) y)
   }"

section \<open>Iterators\<close>

text \<open>An iterator is its \<^verbatim>\<open>node_\<close>; the list is an argument.\<close>

type_synonym sl_iterator = "nat option"

definition SkipListIter_new :: sl_iterator where "SkipListIter_new = None"
definition SkipListIter_Valid :: "sl_iterator \<Rightarrow> bool" where "SkipListIter_Valid it \<longleftrightarrow> it \<noteq> None"

definition SkipListIter_key :: "'k skiplist \<Rightarrow> sl_iterator \<Rightarrow> 'k option" where
  "SkipListIter_key sl it = it \<bind> node_key (sl_nodes sl)"

definition SkipListIter_Next :: "'k skiplist \<Rightarrow> sl_iterator \<Rightarrow> sl_iterator option" where
  "SkipListIter_Next sl it = do { x \<leftarrow> it; node_Next (sl_nodes sl) x 0 }"

definition SkipListIter_Prev :: "('k \<Rightarrow> 'k \<Rightarrow> int) \<Rightarrow> 'k skiplist \<Rightarrow> sl_iterator \<Rightarrow> sl_iterator option" where
  "SkipListIter_Prev cmp sl it = do {
     k \<leftarrow> SkipListIter_key sl it;
     x \<leftarrow> FindLessThan cmp sl k;
     Some (if x = 0 then None else Some x)
   }"

definition SkipListIter_Seek :: "('k \<Rightarrow> 'k \<Rightarrow> int) \<Rightarrow> 'k skiplist \<Rightarrow> 'k \<Rightarrow> sl_iterator option" where
  "SkipListIter_Seek cmp sl target = map_option fst (FindGreaterOrEqual cmp sl target None)"

definition SkipListIter_SeekToFirst :: "'k skiplist \<Rightarrow> sl_iterator option" where
  "SkipListIter_SeekToFirst sl = node_Next (sl_nodes sl) 0 0"

definition SkipListIter_SeekToLast :: "'k skiplist \<Rightarrow> sl_iterator option" where
  "SkipListIter_SeekToLast sl = do { x \<leftarrow> FindLast sl; Some (if x = 0 then None else Some x) }"

end
