(* ===== verification/Ldb_Skiplist_Inv.thy ===== *)
theory Ldb_Skiplist_Inv
  imports Ldb_Skiplist
begin

text \<open>
  The representation invariant of the skip list, and what its operations do to the sorted list of nodes that
  it stands for.
\<close>

section \<open>Chains\<close>

text \<open>From node \<open>x\<close>, the links of level \<open>i\<close> lead through the nodes of the list, to \<^verbatim>\<open>NULL\<close>.\<close>

fun chain :: "'k node list \<Rightarrow> nat \<Rightarrow> nat \<Rightarrow> nat list \<Rightarrow> bool" where
  "chain nodes i x [] \<longleftrightarrow> node_Next nodes x i = Some None"
| "chain nodes i x (y # ys) \<longleftrightarrow> node_Next nodes x i = Some (Some y) \<and> chain nodes i y ys"

abbreviation key_of :: "'k node list \<Rightarrow> nat \<Rightarrow> 'k" where
  "key_of nodes x \<equiv> sn_key (nodes ! x)"

text \<open>
  \<open>L i\<close> are the nodes of level \<open>i\<close> in the order of the list, without the head. The levels are nested and sorted.
\<close>

definition levels :: "('k \<Rightarrow> bool) \<Rightarrow> ('k \<Rightarrow> 'k \<Rightarrow> int) \<Rightarrow> 'k node list \<Rightarrow> (nat \<Rightarrow> nat list) \<Rightarrow> bool" where
  "levels valid cmp nodes L \<longleftrightarrow>
     (\<forall>i<kMaxHeight. chain nodes i 0 (L i)
        \<and> sorted_wrt (\<lambda>x y. cmp (key_of nodes x) (key_of nodes y) < 0) (L i)
        \<and> (\<forall>x\<in>set (L i). 0 < x \<and> x < length nodes \<and> valid (key_of nodes x))
        \<and> set (L (Suc i)) \<subseteq> set (L i))"

text \<open>A list between two operations: no node is higher than the list.\<close>

definition skiplist_levels :: "('k \<Rightarrow> bool) \<Rightarrow> ('k \<Rightarrow> 'k \<Rightarrow> int) \<Rightarrow> 'k skiplist \<Rightarrow> (nat \<Rightarrow> nat list) \<Rightarrow> bool" where
  "skiplist_levels valid cmp sl L \<longleftrightarrow>
     levels valid cmp (sl_nodes sl) L \<and> 0 < sl_max_height sl \<and> sl_max_height sl \<le> kMaxHeight
     \<and> (\<forall>i\<ge>sl_max_height sl. L i = [])"

text \<open>The keys a list stands for.\<close>

definition represents :: "('k \<Rightarrow> bool) \<Rightarrow> ('k \<Rightarrow> 'k \<Rightarrow> int) \<Rightarrow> 'k skiplist \<Rightarrow> 'k list \<Rightarrow> bool" where
  "represents valid cmp sl ks \<longleftrightarrow> (\<exists>L. skiplist_levels valid cmp sl L \<and> ks = map (key_of (sl_nodes sl)) (L 0))"

lemma levelsD:
  assumes "levels valid cmp nodes L" and "i < kMaxHeight"
  shows "chain nodes i 0 (L i)" "sorted_wrt (\<lambda>x y. cmp (key_of nodes x) (key_of nodes y) < 0) (L i)"
    "x \<in> set (L i) \<Longrightarrow> 0 < x" "x \<in> set (L i) \<Longrightarrow> x < length nodes" "x \<in> set (L i) \<Longrightarrow> valid (key_of nodes x)"
    "set (L (Suc i)) \<subseteq> set (L i)"
  using assms by (auto simp: levels_def)

lemma chain_append: "chain nodes i x (as @ y # bs) \<Longrightarrow> chain nodes i y bs"
  by (induction as arbitrary: x) auto

lemma chain_defined: "chain nodes i x as \<Longrightarrow> y \<in> set (x # as) \<Longrightarrow> node_Next nodes y i \<noteq> None"
  by (induction as arbitrary: x) auto

lemma chain_last: "chain nodes i x (as @ bs) \<Longrightarrow> chain nodes i (last (x # as)) bs"
  by (induction as arbitrary: x) auto

definition hd_opt :: "'a list \<Rightarrow> 'a option" where
  "hd_opt xs = (case xs of [] \<Rightarrow> None | x # _ \<Rightarrow> Some x)"

lemma hd_opt_simps [simp]: "hd_opt [] = None" "hd_opt (x # xs) = Some x" "hd_opt xs = None \<longleftrightarrow> xs = []"
  by (auto simp: hd_opt_def split: list.splits)

lemma chain_Next: "chain nodes i x bs \<Longrightarrow> node_Next nodes x i = Some (hd_opt bs)"
  by (cases bs) auto

section \<open>Searching\<close>

text \<open>The nodes whose key is before a key.\<close>

abbreviation (input) before :: "('k \<Rightarrow> 'k \<Rightarrow> int) \<Rightarrow> 'k node list \<Rightarrow> 'k \<Rightarrow> nat \<Rightarrow> bool" where
  "before cmp nodes key \<equiv> \<lambda>x. cmp (key_of nodes x) key < 0"

text \<open>The last node with a property on a level, when the nodes with the property come first.\<close>

definition pred_of :: "(nat \<Rightarrow> bool) \<Rightarrow> nat list \<Rightarrow> nat" where
  "pred_of Q xs = last (0 # takeWhile Q xs)"

text \<open>Where a search may be: at the head, or at a node of the level with the property.\<close>

definition search_at :: "(nat \<Rightarrow> bool) \<Rightarrow> nat list \<Rightarrow> nat \<Rightarrow> bool" where
  "search_at Q xs x \<longleftrightarrow> x = 0 \<or> x \<in> set xs \<and> Q x"

lemma search_at_down:
  assumes "levels valid cmp nodes L" and "Suc i < kMaxHeight"
  shows "search_at Q (L i) (pred_of Q (L (Suc i)))"
proof -
  have "x \<in> set (L i) \<and> Q x" if "x \<in> set (takeWhile Q (L (Suc i)))" for x
    using that set_takeWhileD [OF that] levelsD(6) [OF assms(1), of i] assms(2) by auto
  then show ?thesis using last_in_set by (fastforce simp: pred_of_def search_at_def)
qed

context compare_order
begin

text \<open>A property of the nodes before some point.\<close>

definition closed :: "'k node list \<Rightarrow> (nat \<Rightarrow> bool) \<Rightarrow> bool" where
  "closed nodes Q \<longleftrightarrow> (\<forall>x y. valid (key_of nodes x) \<longrightarrow> valid (key_of nodes y) \<longrightarrow>
     compare (key_of nodes x) (key_of nodes y) < 0 \<longrightarrow> Q y \<longrightarrow> Q x)"

lemma closed_before: "valid key \<Longrightarrow> closed nodes (before compare nodes key)"
  using less_trans unfolding closed_def by blast

lemma closed_True: "closed nodes (\<lambda>_. True)"
  by (simp add: closed_def)

lemma takeWhile_at:
  assumes "sorted_wrt (\<lambda>x y. compare (key_of nodes x) (key_of nodes y) < 0) xs" and "x \<in> set xs"
    and "Q x" and "\<forall>x\<in>set xs. valid (key_of nodes x)" and "closed nodes Q"
  obtains as bs where "xs = as @ x # bs" and "takeWhile Q xs = as @ x # takeWhile Q bs" and "dropWhile Q xs = dropWhile Q bs"
proof -
  obtain as bs where xs: "xs = as @ x # bs" using assms(2) by (meson split_list)
  have "Q a" if "a \<in> set as" for a
    using assms xs that unfolding closed_def by (auto simp: sorted_wrt_append)
  then show thesis using that [of as bs] xs assms(3) by (simp add: takeWhile_append dropWhile_append)
qed

lemma search_at_split:
  assumes "levels valid compare nodes L" and "i < kMaxHeight" and "search_at Q (L i) x" and "closed nodes Q"
  obtains bs where "chain nodes i x bs" and "\<forall>y\<in>set bs. y < length nodes"
    and "pred_of Q (L i) = last (x # takeWhile Q bs)" and "dropWhile Q (L i) = dropWhile Q bs" and "set bs \<subseteq> set (L i)"
proof (cases "x = 0")
  case True
  with levelsD [OF assms(1,2)] show ?thesis by (intro that [of "L i"]) (auto simp: pred_of_def)
next
  case False
  note l = levelsD [OF assms(1,2)]
  with False assms(3) obtain as bs where "L i = as @ x # bs"
    "takeWhile Q (L i) = as @ x # takeWhile Q bs" "dropWhile Q (L i) = dropWhile Q bs"
    using takeWhile_at [OF l(2) _ _ _ assms(4)] l(5) unfolding search_at_def by metis
  with l(1,4) chain_append show ?thesis by (intro that [of bs]) (auto simp: pred_of_def)
qed

end

lemma find_ge_round_chain:
  assumes "chain nodes (fs_level s) (fs_x s) bs" and "\<forall>y\<in>set bs. y < length nodes"
  shows "find_ge_round cmp nodes key s =
    (if takeWhile (before cmp nodes key) bs = [] then
       let prev' = map_option (\<lambda>p. p[fs_level s := Some (fs_x s)]) (fs_prev s) in
       if fs_level s = 0 then Some (Inr (hd_opt bs, prev')) else Some (Inl (s\<lparr>fs_level := fs_level s - 1, fs_prev := prev'\<rparr>))
     else Some (Inl (s\<lparr>fs_x := hd bs\<rparr>)))"
  using assms by (cases bs) (auto simp: find_ge_round_def KeyIsAfterNode_def node_key_def Let_def)

text \<open>The rounds of a search on one level.\<close>

lemma find_ge_level:
  assumes "chain nodes (fs_level s) (fs_x s) bs" and "\<forall>y\<in>set bs. y < length nodes"
  shows "find_ge_loop cmp nodes key s =
    (let x = last (fs_x s # takeWhile (before cmp nodes key) bs);
         prev' = map_option (\<lambda>p. p[fs_level s := Some x]) (fs_prev s)
     in if fs_level s = 0 then Some (hd_opt (dropWhile (before cmp nodes key) bs), prev')
        else find_ge_loop cmp nodes key \<lparr>fs_x = x, fs_level = fs_level s - 1, fs_prev = prev'\<rparr>)"
  using assms
proof (induction bs arbitrary: s)
  case Nil
  then show ?case using find_ge_round_chain [of nodes s "[]" cmp key]
    by (subst find_ge_loop.simps) (cases s, simp add: Let_def)
next
  case (Cons y bs)
  show ?case
  proof (cases "before cmp nodes key y")
    case True
    then have "find_ge_loop cmp nodes key s = find_ge_loop cmp nodes key (s\<lparr>fs_x := y\<rparr>)"
      using Cons.prems find_ge_round_chain [of nodes s "y # bs" cmp key] by (subst find_ge_loop.simps) simp
    with Cons.IH [of "s\<lparr>fs_x := y\<rparr>"] Cons.prems True show ?thesis by (simp add: Let_def)
  next
    case False
    with Cons.prems show ?thesis using find_ge_round_chain [of nodes s "y # bs" cmp key]
      by (subst find_ge_loop.simps) (cases s, simp add: Let_def)
  qed
qed

text \<open>The array \<^verbatim>\<open>prev\<close> when the levels up to \<open>l\<close> have been searched.\<close>

definition filled :: "(nat \<Rightarrow> nat) \<Rightarrow> nat \<Rightarrow> nat option list \<Rightarrow> nat option list" where
  "filled f l p = map (\<lambda>i. if i \<le> l then Some (f i) else p ! i) [0..<length p]"

lemma filled_0: "filled f 0 p = p[0 := Some (f 0)]"
  by (rule nth_equalityI) (auto simp: filled_def nth_list_update)

lemma filled_Suc: "filled f l (p[Suc l := Some (f (Suc l))]) = filled f (Suc l) p"
  by (rule nth_equalityI) (auto simp: filled_def nth_list_update le_Suc_eq)

lemma find_last_level:
  assumes "chain nodes level x bs" and "\<forall>y\<in>set bs. y < length nodes"
    and "stop None = Some True" and "\<And>y. y < length nodes \<Longrightarrow> stop (Some y) = Some (\<not> Q y)"
  shows "find_last_loop nodes stop x level =
    (let y = last (x # takeWhile Q bs) in if level = 0 then Some y else find_last_loop nodes stop y (level - 1))"
  using assms(1,2)
proof (induction bs arbitrary: x)
  case Nil
  then show ?case using assms(3) by (subst find_last_loop.simps) simp
next
  case (Cons y bs)
  have "find_last_loop nodes stop x level =
      (if Q y then find_last_loop nodes stop y level
       else if level = 0 then Some x else find_last_loop nodes stop x (level - 1))"
    using Cons.prems assms(4) [of y] by (subst find_last_loop.simps) simp
  with Cons show ?case by simp
qed

context compare_order
begin

lemma find_ge_loop_levels:
  assumes "levels valid compare nodes L" and "fs_level s < kMaxHeight" and "Q = before compare nodes key"
    and "closed nodes Q" and "search_at Q (L (fs_level s)) (fs_x s)"
  shows "find_ge_loop compare nodes key s =
    Some (hd_opt (dropWhile Q (L 0)), map_option (filled (\<lambda>i. pred_of Q (L i)) (fs_level s)) (fs_prev s))"
  using assms(1,2,5)
proof (induction "fs_level s" arbitrary: s)
  case 0
  then obtain bs where bs: "chain nodes 0 (fs_x s) bs" "\<forall>y\<in>set bs. y < length nodes"
    "pred_of Q (L 0) = last (fs_x s # takeWhile Q bs)" "dropWhile Q (L 0) = dropWhile Q bs"
    using search_at_split [OF _ _ _ assms(4), of L "fs_level s" "fs_x s"] by metis
  then show ?case using find_ge_level [of nodes s bs compare key] 0(1) assms(3) by (simp add: Let_def filled_0)
next
  case (Suc l)
  then obtain bs where bs: "chain nodes (Suc l) (fs_x s) bs" "\<forall>y\<in>set bs. y < length nodes"
    "pred_of Q (L (Suc l)) = last (fs_x s # takeWhile Q bs)"
    using search_at_split [OF _ _ _ assms(4), of L "fs_level s" "fs_x s"] by metis
  moreover define x where "x = pred_of Q (L (Suc l))"
  moreover define p where "p = map_option (\<lambda>p. p[Suc l := Some x]) (fs_prev s)"
  ultimately have "find_ge_loop compare nodes key s = find_ge_loop compare nodes key \<lparr>fs_x = x, fs_level = l, fs_prev = p\<rparr>"
    using find_ge_level [of nodes s bs compare key] Suc(2) [symmetric] assms(3) by (simp add: Let_def)
  moreover have "search_at Q (L l) x"
    using search_at_down [OF Suc(3), of l] Suc(2) [symmetric] Suc(4) by (simp add: x_def)
  ultimately show ?case
    using Suc(1) [of "\<lparr>fs_x = x, fs_level = l, fs_prev = p\<rparr>"] Suc(2) [symmetric] Suc(3,4)
    by (simp add: p_def x_def option.map_comp comp_def filled_Suc [of "\<lambda>i. pred_of Q (L i)"])
qed

lemma find_last_loop_levels:
  assumes "levels valid compare nodes L" and "level < kMaxHeight" and "closed nodes Q" and "search_at Q (L level) x"
    and stop: "stop None = Some True" "\<And>y. y < length nodes \<Longrightarrow> stop (Some y) = Some (\<not> Q y)"
  shows "find_last_loop nodes stop x level = Some (pred_of Q (L 0))"
  using assms(2,4)
proof (induction level arbitrary: x)
  case 0
  then obtain bs where "chain nodes 0 x bs" "\<forall>y\<in>set bs. y < length nodes" "pred_of Q (L 0) = last (x # takeWhile Q bs)"
    using search_at_split [OF assms(1) _ _ assms(3), of 0 x] by metis
  with find_last_level [of nodes 0 x bs stop Q] stop show ?case by simp
next
  case (Suc l)
  then obtain bs where "chain nodes (Suc l) x bs" "\<forall>y\<in>set bs. y < length nodes" "pred_of Q (L (Suc l)) = last (x # takeWhile Q bs)"
    using search_at_split [OF assms(1) _ _ assms(3), of "Suc l" x] by metis
  with find_last_level [of nodes "Suc l" x bs stop Q] stop
  have "find_last_loop nodes stop x (Suc l) = find_last_loop nodes stop (pred_of Q (L (Suc l))) l" by (simp add: Let_def)
  also have "\<dots> = Some (pred_of Q (L 0))" using Suc.IH search_at_down [OF assms(1) Suc.prems(1)] Suc.prems(1) by simp
  finally show ?case .
qed

end

section \<open>Insertion\<close>

lemma node_SetNext_Next:
  "node_SetNext nodes x i v = Some nodes' \<Longrightarrow>
   node_Next nodes' y j = (if y = x \<and> j = i then Some v else node_Next nodes y j)"
  by (auto simp: node_SetNext_def node_Next_def nth_list_update split: if_splits)

definition has_link :: "'k node list \<Rightarrow> nat \<Rightarrow> nat \<Rightarrow> bool" where
  "has_link nodes x i \<longleftrightarrow> x < length nodes \<and> i < length (sn_next (nodes ! x))"

lemma node_SetNext_has_link: "node_SetNext nodes x i v = Some nodes' \<Longrightarrow> has_link nodes' y j \<longleftrightarrow> has_link nodes y j"
  by (auto simp: node_SetNext_def has_link_def nth_list_update split: if_splits)

lemma null_links:
  "n \<le> m \<Longrightarrow> foldl (\<lambda>nodes i. the (node_SetNext nodes 0 i None)) [\<lparr>sn_key = k, sn_next = replicate m None\<rparr>] [0..<n] =
     [\<lparr>sn_key = k, sn_next = replicate n (Some None) @ replicate (m - n) None\<rparr>]"
proof (induction n)
  case (Suc n)
  then have "m - n = Suc (m - Suc n)" by simp
  with Suc show ?case by (simp add: node_SetNext_def list_update_append replicate_append_same)
qed simp

lemma SkipList_new_nodes: "sl_nodes (SkipList_new k) = [\<lparr>sn_key = k, sn_next = replicate kMaxHeight (Some None)\<rparr>]"
  using null_links [of kMaxHeight kMaxHeight k] by (simp add: SkipList_new_def NewNode_def)

lemma SkipList_new_height: "sl_max_height (SkipList_new k) = 1"
  by (simp add: SkipList_new_def NewNode_def)

text \<open>Stores of links keep the nodes and their keys.\<close>

definition same_keys :: "'k node list \<Rightarrow> 'k node list \<Rightarrow> bool" where
  "same_keys nodes nodes' \<longleftrightarrow> length nodes' = length nodes \<and> (\<forall>x. key_of nodes' x = key_of nodes x)"

lemma node_SetNext_same_keys: "node_SetNext nodes x i v = Some nodes' \<Longrightarrow> same_keys nodes nodes'"
  by (auto simp: node_SetNext_def same_keys_def nth_list_update split: if_splits)

lemma same_keys_trans: "same_keys a b \<Longrightarrow> same_keys b c \<Longrightarrow> same_keys a c"
  by (simp add: same_keys_def)

lemma node_SetNext_defined: "has_link nodes x i \<Longrightarrow> \<exists>nodes'. node_SetNext nodes x i v = Some nodes'"
  by (simp add: node_SetNext_def has_link_def)

lemma node_Next_has_link: "node_Next nodes x i = Some y \<Longrightarrow> has_link nodes x i"
  by (auto simp: node_Next_def has_link_def split: if_splits)

lemma chain_cong:
  "\<forall>y\<in>set (x # xs). node_Next nodes' y i = node_Next nodes y i \<Longrightarrow> chain nodes' i x xs = chain nodes i x xs"
  by (induction xs arbitrary: x) auto

text \<open>Inserting a node into a level.\<close>

definition ins :: "(nat \<Rightarrow> bool) \<Rightarrow> nat \<Rightarrow> nat list \<Rightarrow> nat list" where
  "ins Q x xs = takeWhile Q xs @ x # dropWhile Q xs"

lemma set_ins [simp]: "set (ins Q x xs) = insert x (set xs)"
  using set_append [of "takeWhile Q xs" "dropWhile Q xs"] by (simp add: ins_def)

lemma sorted_wrt_distinct: "sorted_wrt P xs \<Longrightarrow> \<forall>x\<in>set xs. \<not> P x x \<Longrightarrow> distinct xs"
  by (induction xs) auto

lemma sorted_wrt_ins:
  assumes "sorted_wrt P xs" and "\<And>y. y \<in> set xs \<Longrightarrow> Q y \<Longrightarrow> P y x" and "\<And>y. y \<in> set xs \<Longrightarrow> \<not> Q y \<Longrightarrow> P x y"
    and "\<And>y z. y \<in> set xs \<Longrightarrow> z \<in> set xs \<Longrightarrow> P y z \<Longrightarrow> Q z \<Longrightarrow> Q y"
  shows "sorted_wrt P (ins Q x xs)"
proof -
  have "\<not> Q y" if "y \<in> set (dropWhile Q xs)" for y
  proof (cases "dropWhile Q xs")
    case Nil
    from that [unfolded Nil] show ?thesis by simp
  next
    case (Cons d ds)
    then have "\<not> Q d" by (metis dropWhile_eq_Cons_conv)
    have "set (d # ds) \<subseteq> set xs" by (metis Cons set_dropWhileD subsetI)
    moreover have "sorted_wrt P (d # ds)" using assms(1) Cons by (metis sorted_wrt_append takeWhile_dropWhile_id)
    ultimately show ?thesis using \<open>\<not> Q d\<close> assms(4) [of d y] that Cons by auto
  qed
  moreover have "sorted_wrt P (takeWhile Q xs @ dropWhile Q xs)" using assms(1) by simp
  ultimately show ?thesis
    using assms(2,3) set_dropWhileD [of _ Q xs] set_takeWhileD [of _ Q xs] unfolding ins_def sorted_wrt_append by auto
qed

lemma chain_relink:
  assumes "chain nodes i x (as @ bs)" and "distinct (x # as @ bs)" and "new \<notin> set (x # as @ bs)"
    and new: "node_Next nodes' new i = Some (hd_opt bs)" and p: "node_Next nodes' (last (x # as)) i = Some (Some new)"
    and other: "\<And>y. y \<noteq> new \<Longrightarrow> y \<noteq> last (x # as) \<Longrightarrow> node_Next nodes' y i = node_Next nodes y i"
  shows "chain nodes' i x (as @ new # bs)"
  using assms(1-3) p other
proof (induction as arbitrary: x)
  case Nil
  have "chain nodes' i new bs"
  proof (cases bs)
    case (Cons b bs')
    moreover from this Nil have "chain nodes' i b bs' = chain nodes i b bs'" by (intro chain_cong ballI Nil.prems(5)) auto
    ultimately show ?thesis using Nil new by simp
  qed (use new in simp)
  with Nil show ?case by simp
next
  case (Cons a as)
  then have "x \<noteq> last (a # as)" "x \<noteq> new" by auto
  with Cons.prems have "node_Next nodes' x i = Some (Some a)" by simp
  moreover have "chain nodes' i a (as @ new # bs)" by (rule Cons.IH) (use Cons.prems in auto)
  ultimately show ?case by simp
qed

lemma pred_of_in: "pred_of Q xs \<in> set (0 # xs)"
  using last_in_set [of "0 # takeWhile Q xs"] set_takeWhileD [of _ Q xs] by (auto simp: pred_of_def)

lemma pred_of_Next: "chain nodes i 0 xs \<Longrightarrow> node_Next nodes (pred_of Q xs) i = Some (hd_opt (dropWhile Q xs))"
  using chain_Next [OF chain_last, of nodes i 0 "takeWhile Q xs" "dropWhile Q xs"] by (simp add: pred_of_def)

text \<open>The store in the link of a node that is not in the list leaves the level as it is; the other one adds the node.\<close>

lemma link_new_chain:
  assumes "chain nodes i 0 xs" and "new \<notin> set (0 # xs)" and "has_link nodes new i" and "prev ! i = Some (pred_of Q xs)"
  obtains nodes' where "link_new prev new i nodes = Some nodes'" and "node_Next nodes' new i = Some (hd_opt (dropWhile Q xs))"
    and "same_keys nodes nodes'" and "\<And>j y. j \<noteq> i \<or> y \<noteq> new \<Longrightarrow> node_Next nodes' y j = node_Next nodes y j"
    and "\<And>j y. has_link nodes' y j = has_link nodes y j"
proof -
  obtain n1 where n1: "node_SetNext nodes new i (hd_opt (dropWhile Q xs)) = Some n1"
    using node_SetNext_defined [OF assms(3)] by blast
  show thesis
    by (rule that [of n1]) (use n1 assms(4) pred_of_Next [OF assms(1), of Q] node_SetNext_Next [OF n1] node_SetNext_same_keys [OF n1]
      node_SetNext_has_link [OF n1] in \<open>auto simp: link_new_def\<close>)
qed

lemma publish_new_chain:
  assumes "chain nodes i 0 xs" and "distinct (0 # xs)" and "new \<notin> set (0 # xs)" and "node_Next nodes new i = Some (hd_opt (dropWhile Q xs))"
    and "prev ! i = Some (pred_of Q xs)"
  obtains nodes' where "publish_new prev new i nodes = Some nodes'" and "chain nodes' i 0 (ins Q new xs)"
    and "same_keys nodes nodes'" and "\<And>j y. j \<noteq> i \<Longrightarrow> node_Next nodes' y j = node_Next nodes y j"
    and "\<And>j y. has_link nodes' y j = has_link nodes y j"
proof -
  define p where "p = pred_of Q xs"
  have c: "chain nodes i 0 (takeWhile Q xs @ dropWhile Q xs)" using assms(1) by simp
  have "p \<noteq> new" using pred_of_in [of Q xs] assms(3) by (auto simp: p_def)
  obtain n2 where n2: "node_SetNext nodes p i (Some new) = Some n2"
    using node_SetNext_defined [OF node_Next_has_link [OF pred_of_Next [OF assms(1)]]] unfolding p_def by blast
  note next2 = node_SetNext_Next [OF n2]
  show thesis
  proof (rule that)
    show "publish_new prev new i nodes = Some n2" using n2 assms(5) by (simp add: publish_new_def p_def)
    show "same_keys nodes n2" using node_SetNext_same_keys n2 by blast
    show "node_Next n2 y j = node_Next nodes y j" if "j \<noteq> i" for y j using that by (simp add: next2)
    show "has_link n2 y j = has_link nodes y j" for y j using node_SetNext_has_link [OF n2] .
    show "chain n2 i 0 (ins Q new xs)"
      unfolding ins_def using assms(2,3,4) \<open>p \<noteq> new\<close>
      by (intro chain_relink [OF c]) (auto simp: next2 p_def pred_of_def)
  qed
qed

text \<open>What an insertion knows while it links the node \<open>x\<close> on level \<open>i\<close> and above.\<close>

definition linking ::
  "('k \<Rightarrow> bool) \<Rightarrow> ('k \<Rightarrow> 'k \<Rightarrow> int) \<Rightarrow> 'k node list \<Rightarrow> (nat \<Rightarrow> nat list) \<Rightarrow> nat option list \<Rightarrow> nat \<Rightarrow> nat \<Rightarrow> nat \<Rightarrow> bool" where
  "linking valid cmp nodes L prev x height i \<longleftrightarrow>
     height \<le> kMaxHeight \<and> 0 < x \<and> x < length nodes \<and> valid (key_of nodes x) \<and> (0 < i \<longrightarrow> x \<in> set (L (i - 1)))
     \<and> (\<forall>j. i \<le> j \<longrightarrow> j < height \<longrightarrow> x \<notin> set (L j) \<and> has_link nodes x j
          \<and> prev ! j = Some (pred_of (before cmp nodes (key_of nodes x)) (L j))
          \<and> (\<forall>y\<in>set (L j). cmp (key_of nodes y) (key_of nodes x) \<noteq> 0))"

context compare_order
begin

text \<open>The two stores of a level keep the invariant of the levels; here \<open>Q\<close> holds for the nodes before the key.\<close>

lemma linkingD:
  assumes "linking valid compare nodes L prev x height i" and "i \<le> j" and "j < height"
  shows "j < kMaxHeight" "x \<notin> set (L j)" "has_link nodes x j" "prev ! j = Some (pred_of (before compare nodes (key_of nodes x)) (L j))"
    "y \<in> set (L j) \<Longrightarrow> compare (key_of nodes y) (key_of nodes x) \<noteq> 0"
  using assms by (auto simp: linking_def)

lemma levels_same_chains:
  assumes "levels valid compare nodes L" and "same_keys nodes nodes'"
    and "\<And>i y. i < kMaxHeight \<Longrightarrow> y \<in> set (0 # L i) \<Longrightarrow> node_Next nodes' y i = node_Next nodes y i"
  shows "levels valid compare nodes' L"
  unfolding levels_def
proof (intro allI impI)
  fix i assume i: "i < kMaxHeight"
  have "chain nodes' i 0 (L i)" using levelsD(1) [OF assms(1) i] chain_cong [of 0 "L i" nodes' i nodes] assms(3) [OF i] by blast
  with levelsD [OF assms(1) i] assms(2) show "chain nodes' i 0 (L i)
      \<and> sorted_wrt (\<lambda>x y. compare (key_of nodes' x) (key_of nodes' y) < 0) (L i)
      \<and> (\<forall>x\<in>set (L i). 0 < x \<and> x < length nodes' \<and> valid (key_of nodes' x)) \<and> set (L (Suc i)) \<subseteq> set (L i)"
    by (auto simp: same_keys_def)
qed

lemma linking_keys:
  assumes "linking valid compare nodes L prev x height i" and "same_keys nodes nodes'" and "\<And>j y. has_link nodes' y j = has_link nodes y j"
  shows "linking valid compare nodes' L prev x height i"
  using assms by (simp add: linking_def same_keys_def)

lemma link_new_linking:
  assumes "levels valid compare nodes L" and "linking valid compare nodes L prev x height i" and "i < height"
  obtains nodes' where "link_new prev x i nodes = Some nodes'" and "same_keys nodes nodes'" and "levels valid compare nodes' L"
    and "linking valid compare nodes' L prev x height i"
    and "node_Next nodes' x i = Some (hd_opt (dropWhile (before compare nodes' (key_of nodes' x)) (L i)))"
proof -
  define Q where "Q = before compare nodes (key_of nodes x)"
  have x: "0 < x" "\<And>j. i \<le> j \<Longrightarrow> j < height \<Longrightarrow> x \<notin> set (L j)" using assms(2) by (auto simp: linking_def)
  note d = linkingD [OF assms(2) order_refl assms(3), folded Q_def]
  have "x \<notin> set (0 # L i)" using x d by simp
  then obtain n where n: "link_new prev x i nodes = Some n" "node_Next n x i = Some (hd_opt (dropWhile Q (L i)))" "same_keys nodes n"
    "\<And>j y. j \<noteq> i \<or> y \<noteq> x \<Longrightarrow> node_Next n y j = node_Next nodes y j" "\<And>j y. has_link n y j = has_link nodes y j"
    by (rule link_new_chain [OF levelsD(1) [OF assms(1) d(1)] _ d(3,4)]) blast
  have "node_Next n y j = node_Next nodes y j" if "j < kMaxHeight" "y \<in> set (0 # L j)" for y j
    using n(4) [of j y] that(2) \<open>x \<notin> set (0 # L i)\<close> by (cases "j = i") auto
  then have "levels valid compare n L" by (rule levels_same_chains [OF assms(1) n(3)])
  moreover have "before compare n (key_of n x) = Q" using n(3) by (simp add: Q_def same_keys_def)
  ultimately show thesis using that n linking_keys [OF assms(2) n(3,5)] by simp
qed

lemma publish_new_linking:
  assumes lv: "levels valid compare nodes L" and li: "linking valid compare nodes L prev x height i" and i: "i < height"
  defines "Q \<equiv> before compare nodes (key_of nodes x)"
  assumes linked: "node_Next nodes x i = Some (hd_opt (dropWhile Q (L i)))"
  obtains nodes' where "publish_new prev x i nodes = Some nodes'" and "same_keys nodes nodes'"
    and "levels valid compare nodes' (L(i := ins Q x (L i)))" and "linking valid compare nodes' (L(i := ins Q x (L i))) prev x height (i + 1)"
proof -
  have x: "0 < x" "x < length nodes" "valid (key_of nodes x)" "0 < i \<Longrightarrow> x \<in> set (L (i - 1))" using li by (auto simp: linking_def)
  note d = linkingD [OF li order_refl i, folded Q_def]
  note l = levelsD [OF lv d(1)]
  have "distinct (L i)" using sorted_wrt_distinct [OF l(2)] l(5) by auto
  then have "distinct (0 # L i)" "x \<notin> set (0 # L i)" using l(3) x(1) d(2) by auto
  then obtain n where n: "publish_new prev x i nodes = Some n" "chain n i 0 (ins Q x (L i))" "same_keys nodes n"
    "\<And>j y. j \<noteq> i \<Longrightarrow> node_Next n y j = node_Next nodes y j" "\<And>j y. has_link n y j = has_link nodes y j"
    by (rule publish_new_chain [OF l(1) _ _ linked d(4)]) blast
  have key: "key_of n y = key_of nodes y" "length n = length nodes" for y using n(3) by (auto simp: same_keys_def)
  have sorted: "sorted_wrt (\<lambda>x y. compare (key_of nodes x) (key_of nodes y) < 0) (ins Q x (L i))"
  proof (rule sorted_wrt_ins [OF l(2)])
    fix y assume y: "y \<in> set (L i)"
    show "Q y \<Longrightarrow> compare (key_of nodes y) (key_of nodes x) < 0" by (simp add: Q_def)
    show "compare (key_of nodes x) (key_of nodes y) < 0" if "\<not> Q y"
      using that d(5) [OF y] order_swap [OF x(3) l(5) [OF y]] unfolding Q_def by linarith
    show "compare (key_of nodes y) (key_of nodes z) < 0 \<Longrightarrow> Q z \<Longrightarrow> Q y" if "z \<in> set (L i)" for z
      using less_trans [OF l(5) [OF y] l(5) [OF that] x(3)] unfolding Q_def .
  qed
  have "levels valid compare n (L(i := ins Q x (L i)))"
    unfolding levels_def
  proof (intro allI impI)
    fix j assume j: "j < kMaxHeight"
    note lj = levelsD [OF lv j]
    have "chain n j 0 (L j)" if "j \<noteq> i" using lj(1) chain_cong n(4) [OF that] by blast
    then show "chain n j 0 ((L(i := ins Q x (L i))) j)
        \<and> sorted_wrt (\<lambda>x y. compare (key_of n x) (key_of n y) < 0) ((L(i := ins Q x (L i))) j)
        \<and> (\<forall>x\<in>set ((L(i := ins Q x (L i))) j). 0 < x \<and> x < length n \<and> valid (key_of n x))
        \<and> set ((L(i := ins Q x (L i))) (Suc j)) \<subseteq> set ((L(i := ins Q x (L i))) j)"
      using n(2) sorted lj x by (auto simp: key)
  qed
  moreover have "linking valid compare n (L(i := ins Q x (L i))) prev x height (i + 1)"
  proof -
    note li' = linking_keys [OF li n(3,5)]
    have "x \<notin> set (L j) \<and> has_link n x j \<and> prev ! j = Some (pred_of (before compare n (key_of n x)) (L j))
        \<and> (\<forall>y\<in>set (L j). compare (key_of n y) (key_of n x) \<noteq> 0)" if "i + 1 \<le> j" "j < height" for j
      using linkingD [OF li' _ that(2)] that(1) by simp
    with li' show ?thesis by (simp add: linking_def)
  qed
  ultimately show thesis using that n by blast
qed

lemma link_level_linking:
  assumes "levels valid compare nodes L" and "linking valid compare nodes L prev x height i" and "i < height"
  defines "L' \<equiv> L(i := ins (before compare nodes (key_of nodes x)) x (L i))"
  obtains nodes' where "link_level prev x i nodes = Some nodes'" and "same_keys nodes nodes'"
    and "levels valid compare nodes' L'" and "linking valid compare nodes' L' prev x height (i + 1)"
proof -
  obtain n1 where n1: "link_new prev x i nodes = Some n1" "same_keys nodes n1" "levels valid compare n1 L"
    "linking valid compare n1 L prev x height i" "node_Next n1 x i = Some (hd_opt (dropWhile (before compare n1 (key_of n1 x)) (L i)))"
    by (rule link_new_linking [OF assms(1-3)])
  obtain n2 where n2: "publish_new prev x i n1 = Some n2" "same_keys n1 n2"
    "levels valid compare n2 (L(i := ins (before compare n1 (key_of n1 x)) x (L i)))"
    "linking valid compare n2 (L(i := ins (before compare n1 (key_of n1 x)) x (L i))) prev x height (i + 1)"
    by (rule publish_new_linking [OF n1(3,4) assms(3) n1(5)])
  have "before compare n1 (key_of n1 x) = before compare nodes (key_of nodes x)" using n1(2) by (simp add: same_keys_def)
  with n2 show thesis by (intro that [of n2]) (simp_all add: L'_def link_level_def n1(1) same_keys_trans [OF n1(2)])
qed

lemma link_loop_linking:
  assumes "levels valid compare nodes L" and "linking valid compare nodes L prev x height i"
    and "Q = before compare nodes (key_of nodes x)"
  shows "\<exists>nodes'. link_loop prev x height i nodes = Some nodes' \<and> same_keys nodes nodes'
    \<and> levels valid compare nodes' (\<lambda>j. if i \<le> j \<and> j < height then ins Q x (L j) else L j)"
  using assms
proof (induction "height - i" arbitrary: i nodes L)
  case 0
  then have "(\<lambda>j. if i \<le> j \<and> j < height then ins Q x (L j) else L j) = L" by (auto simp: fun_eq_iff)
  with 0 show ?case by (subst link_loop.simps) (simp add: same_keys_def)
next
  case (Suc n)
  then have i: "i < height" by simp
  define L1 where "L1 = L(i := ins Q x (L i))"
  obtain n1 where n1: "link_level prev x i nodes = Some n1" "same_keys nodes n1" "levels valid compare n1 L1"
    "linking valid compare n1 L1 prev x height (i + 1)"
    using link_level_linking [OF Suc.prems(1,2) i] unfolding L1_def Suc.prems(3) by metis
  have "\<exists>n2. link_loop prev x height (i + 1) n1 = Some n2 \<and> same_keys n1 n2
    \<and> levels valid compare n2 (\<lambda>j. if i + 1 \<le> j \<and> j < height then ins Q x (L1 j) else L1 j)"
    using Suc.hyps(2) n1 Suc.prems(3) by (intro Suc.hyps(1)) (auto simp: same_keys_def)
  moreover have "(\<lambda>j. if i + 1 \<le> j \<and> j < height then ins Q x (L1 j) else L1 j)
      = (\<lambda>j. if i \<le> j \<and> j < height then ins Q x (L j) else L j)"
    using i by (auto simp: fun_eq_iff Suc_le_eq L1_def)
  ultimately obtain n2 where n2: "link_loop prev x height (i + 1) n1 = Some n2" "same_keys n1 n2"
    "levels valid compare n2 (\<lambda>j. if i \<le> j \<and> j < height then ins Q x (L j) else L j)" by metis
  moreover have "link_loop prev x height i nodes = Some n2" using n1(1) n2(1) i by (subst link_loop.simps) simp
  ultimately show ?case using same_keys_trans [OF n1(2)] by metis
qed

end

end
