(* ===== verification/Ldb_Skiplist_Ops.thy ===== *)
theory Ldb_Skiplist_Ops
  imports Ldb_Skiplist_Inv
begin

text \<open>
  The operations of the skip list on the sorted list of keys that it represents: insertion, membership and the
  positions of iterators.
\<close>

section \<open>Heights\<close>

lemma RandomHeight_loop_range:
  "height \<le> kMaxHeight \<Longrightarrow> RandomHeight_loop height rnd = (h, rnd') \<Longrightarrow> height \<le> h \<and> h \<le> kMaxHeight"
  by (induction height rnd rule: RandomHeight_loop.induct)
    (subst (asm) (2) RandomHeight_loop.simps, auto simp: Let_def split: if_splits)

lemma RandomHeight_range: "RandomHeight rnd = (h, rnd') \<Longrightarrow> 0 < h \<and> h \<le> kMaxHeight"
  using RandomHeight_loop_range [of 1 rnd h rnd'] by (simp add: RandomHeight_def kMaxHeight_def)

section \<open>Insertion\<close>

definition insert_key :: "('k \<Rightarrow> 'k \<Rightarrow> int) \<Rightarrow> 'k \<Rightarrow> 'k list \<Rightarrow> 'k list" where
  "insert_key cmp k ks = takeWhile (\<lambda>x. cmp x k < 0) ks @ k # dropWhile (\<lambda>x. cmp x k < 0) ks"

lemma levels_nodes: "levels valid cmp nodes L \<Longrightarrow> 0 < length nodes"
  using levelsD(1) [of valid cmp nodes L 0] chain_defined [of nodes 0 0 "L 0" 0]
  by (auto simp: kMaxHeight_def node_Next_def split: if_splits)

lemma levels_NewNode:
  assumes "levels valid cmp nodes L"
  shows "levels valid cmp (nodes @ [n]) L"
  unfolding levels_def
proof (intro allI impI)
  fix i assume i: "i < kMaxHeight"
  note l = levelsD [OF assms i]
  have "chain (nodes @ [n]) i 0 (L i) = chain nodes i 0 (L i)"
  proof (intro chain_cong ballI)
    fix y assume "y \<in> set (0 # L i)"
    then have "y < length nodes" using l(4) levels_nodes [OF assms] by auto
    then show "node_Next (nodes @ [n]) y i = node_Next nodes y i" by (simp add: node_Next_def nth_append)
  qed
  moreover have key: "key_of (nodes @ [n]) x = key_of nodes x" if "x \<in> set (L i)" for x using l(4) [OF that] by (simp add: nth_append)
  moreover from l(2) have "sorted_wrt (\<lambda>x y. cmp (key_of (nodes @ [n]) x) (key_of (nodes @ [n]) y) < 0) (L i)"
    by (rule sorted_wrt_mono_rel [rotated]) (simp add: key)
  ultimately show "chain (nodes @ [n]) i 0 (L i) \<and> sorted_wrt (\<lambda>x y. cmp (key_of (nodes @ [n]) x) (key_of (nodes @ [n]) y) < 0) (L i)
      \<and> (\<forall>x\<in>set (L i). 0 < x \<and> x < length (nodes @ [n]) \<and> valid (key_of (nodes @ [n]) x)) \<and> set (L (Suc i)) \<subseteq> set (L i)"
    using l by (auto intro: less_SucI)
qed

lemma levels_0: "levels valid cmp nodes L \<Longrightarrow> i < kMaxHeight \<Longrightarrow> set (L i) \<subseteq> set (L 0)"
  by (induction i) (auto dest: levelsD(6) [where i = "_"] Suc_lessD)

lemma takeWhile_map_key: "takeWhile P (map f xs) = map f (takeWhile (P \<circ> f) xs)"
  "dropWhile P (map f xs) = map f (dropWhile (P \<circ> f) xs)"
  by (simp_all add: takeWhile_map dropWhile_map)

lemma skiplist_levelsD:
  assumes "skiplist_levels valid cmp sl L"
  shows "levels valid cmp (sl_nodes sl) L" "sl_max_height sl - 1 < kMaxHeight" "0 < sl_max_height sl"
    "sl_max_height sl \<le> kMaxHeight" "sl_max_height sl \<le> i \<Longrightarrow> L i = []"
  using assms by (auto simp: skiplist_levels_def)

lemma level_0D:
  assumes "skiplist_levels valid cmp sl L"
  shows "chain (sl_nodes sl) 0 0 (L 0)" "sorted_wrt (\<lambda>x y. cmp (key_of (sl_nodes sl) x) (key_of (sl_nodes sl) y) < 0) (L 0)"
    "x \<in> set (L 0) \<Longrightarrow> 0 < x" "x \<in> set (L 0) \<Longrightarrow> x < length (sl_nodes sl)"
    "x \<in> set (L 0) \<Longrightarrow> valid (key_of (sl_nodes sl) x)"
  using levelsD [OF skiplist_levelsD(1) [OF assms], of 0] by (simp_all add: kMaxHeight_def)

text \<open>The array \<^verbatim>\<open>prev\<close> that the insertion uses.\<close>

lemma insert_prev:
  assumes "\<And>i. m \<le> i \<Longrightarrow> L i = []" and "0 < m" and "i < h" and "h \<le> kMaxHeight"
    and "p = filled (\<lambda>i. pred_of Q (L i)) (m - 1) (replicate kMaxHeight None)"
  shows "(if m < h then raise_prev m h p else p) ! i = Some (pred_of Q (L i))"
  using assms by (auto simp: raise_prev_def filled_def pred_of_def not_le)

lemma map_key_ins:
  assumes "\<And>y. y \<in> set xs \<Longrightarrow> g y = f y \<and> (Q y \<longleftrightarrow> cmp (f y) k < 0)" and "g x = k"
  shows "map g (ins Q x xs) = insert_key cmp k (map f xs)"
proof -
  have "takeWhile Q xs = takeWhile ((\<lambda>y. cmp y k < 0) \<circ> f) xs" "dropWhile Q xs = dropWhile ((\<lambda>y. cmp y k < 0) \<circ> f) xs"
    using assms(1) by (auto intro!: takeWhile_cong dropWhile_cong)
  moreover have "map g (takeWhile P xs) = map f (takeWhile P xs)" "map g (dropWhile P xs) = map f (dropWhile P xs)" for P
    using assms(1) by (auto dest: set_takeWhileD set_dropWhileD)
  ultimately show ?thesis by (simp add: ins_def insert_key_def takeWhile_map_key assms(2))
qed

context compare_order
begin

lemma FindGreaterOrEqual_levels:
  assumes "skiplist_levels valid compare sl L" and "valid key"
  defines "Q \<equiv> before compare (sl_nodes sl) key"
  shows "FindGreaterOrEqual compare sl key prev =
    Some (hd_opt (dropWhile Q (L 0)), map_option (filled (\<lambda>i. pred_of Q (L i)) (sl_max_height sl - 1)) prev)"
  using skiplist_levelsD [OF assms(1)] closed_before [OF assms(2)]
  unfolding FindGreaterOrEqual_def Q_def by (subst find_ge_loop_levels [of _ L]) (auto simp: search_at_def)

lemma insert_prepare_linking:
  assumes "skiplist_levels valid compare sl L" and "valid key"
    and "\<forall>y\<in>set (L 0). compare (key_of (sl_nodes sl) y) key \<noteq> 0"
  obtains sl1 prev h where "insert_prepare compare sl key = Some (sl1, prev, length (sl_nodes sl), h)"
    and "skiplist_levels valid compare sl1 L" and "0 < h" and "h \<le> sl_max_height sl1"
    and "sl_nodes sl1 = sl_nodes sl @ [\<lparr>sn_key = key, sn_next = replicate h None\<rparr>]"
    and "linking valid compare (sl_nodes sl1) L prev (length (sl_nodes sl)) h 0"
proof -
  note sl = skiplist_levelsD [OF assms(1)]
  obtain h rnd' where h: "RandomHeight (sl_rnd sl) = (h, rnd')" by fastforce
  note hr = RandomHeight_range [OF h]
  define nodes new where "nodes = sl_nodes sl" and "new = length nodes"
  define nodes1 where "nodes1 = nodes @ [\<lparr>sn_key = key, sn_next = replicate h None\<rparr>]"
  define Q Q1 where "Q = before compare nodes key" and "Q1 = before compare nodes1 (key_of nodes1 new)"
  define prev where "prev = filled (\<lambda>i. pred_of Q (L i)) (sl_max_height sl - 1) (replicate kMaxHeight None)"
  define prev' where "prev' = (if sl_max_height sl < h then raise_prev (sl_max_height sl) h prev else prev)"
  define sl1 where "sl1 = \<lparr>sl_nodes = nodes1, sl_max_height = (if h > sl_max_height sl then h else sl_max_height sl), sl_rnd = rnd'\<rparr>"
  have new: "key_of nodes1 new = key" "new < length nodes1" "0 < new"
    using levels_nodes [OF sl(1)] by (simp_all add: nodes1_def new_def nodes_def)
  have old: "y < length nodes \<and> key_of nodes1 y = key_of nodes y \<and> compare (key_of nodes y) key \<noteq> 0"
    if "y \<in> set (L i)" "i < kMaxHeight" for y i
    using levelsD(4) [OF sl(1) that(2,1)] levels_0 [OF sl(1) that(2)] assms(3) that(1) by (auto simp: nodes1_def nodes_def nth_append)
  have "pred_of Q (L i) = pred_of Q1 (L i)" if "i < kMaxHeight" for i
    using old that unfolding pred_of_def Q_def Q1_def new by (auto cong: takeWhile_cong)
  then have p: "prev' ! i = Some (pred_of Q1 (L i))" if "i < h" for i
    using insert_prev [OF sl(5) sl(3) that _ prev_def] hr that by (simp add: prev'_def)
  show thesis
  proof (rule that)
    have "FindGreaterOrEqual compare sl key (Some (replicate kMaxHeight None)) = Some (hd_opt (dropWhile Q (L 0)), Some prev)"
      unfolding FindGreaterOrEqual_levels [OF assms(1,2)] prev_def Q_def nodes_def by simp
    then show "insert_prepare compare sl key = Some (sl1, prev', length (sl_nodes sl), h)"
      by (simp add: insert_prepare_def h NewNode_def sl1_def prev'_def nodes_def nodes1_def)
    show "skiplist_levels valid compare sl1 L"
      using levels_NewNode [OF sl(1)] sl hr by (auto simp: skiplist_levels_def sl1_def nodes1_def nodes_def)
    have "new \<notin> set (L j) \<and> has_link nodes1 new j \<and> (\<forall>y\<in>set (L j). compare (key_of nodes1 y) (key_of nodes1 new) \<noteq> 0)"
      if "j < h" for j
      using that hr old [of _ j] by (auto simp: has_link_def nodes1_def new_def)
    moreover have "sl_nodes sl1 = nodes1" "length (sl_nodes sl) = new" by (simp_all add: sl1_def new_def nodes_def)
    ultimately show "linking valid compare (sl_nodes sl1) L prev' (length (sl_nodes sl)) h 0"
      using hr p new assms(2) unfolding linking_def Q1_def by simp
  qed (use hr in \<open>auto simp: sl1_def nodes1_def nodes_def\<close>)
qed

lemma Insert_levels:
  assumes "skiplist_levels valid compare sl L" and "valid key"
    and "\<forall>y\<in>set (L 0). compare (key_of (sl_nodes sl) y) key \<noteq> 0"
  shows "\<exists>sl' L'. SkipList_Insert compare sl key = Some sl' \<and> skiplist_levels valid compare sl' L'
    \<and> map (key_of (sl_nodes sl')) (L' 0) = insert_key compare key (map (key_of (sl_nodes sl)) (L 0))"
proof -
  define x where "x = length (sl_nodes sl)"
  obtain sl1 prev h where i: "insert_prepare compare sl key = Some (sl1, prev, x, h)" "skiplist_levels valid compare sl1 L"
    "0 < h" "h \<le> sl_max_height sl1" "sl_nodes sl1 = sl_nodes sl @ [\<lparr>sn_key = key, sn_next = replicate h None\<rparr>]"
    "linking valid compare (sl_nodes sl1) L prev x h 0"
    using insert_prepare_linking [OF assms] unfolding x_def by metis
  define Q where "Q = before compare (sl_nodes sl1) (key_of (sl_nodes sl1) x)"
  obtain nodes' where n: "link_loop prev x h 0 (sl_nodes sl1) = Some nodes'" "same_keys (sl_nodes sl1) nodes'"
    "levels valid compare nodes' (\<lambda>j. if j < h then ins Q x (L j) else L j)"
    using link_loop_linking [OF skiplist_levelsD(1) [OF i(2)] i(6) Q_def] by auto
  have "skiplist_levels valid compare (sl1\<lparr>sl_nodes := nodes'\<rparr>) (\<lambda>j. if j < h then ins Q x (L j) else L j)"
    using n(3) skiplist_levelsD [OF i(2)] i(4) by (auto simp: skiplist_levels_def)
  moreover have "map (key_of nodes') (ins Q x (L 0)) = insert_key compare key (map (key_of (sl_nodes sl)) (L 0))"
    using n(2) level_0D(4) [OF assms(1)] by (intro map_key_ins) (auto simp: same_keys_def Q_def i(5) x_def nth_append)
  ultimately show ?thesis using i(1,3) n(1) by (auto simp: SkipList_Insert_def intro!: exI)
qed

end

section \<open>The represented list\<close>

lemma represents_new_levels: "skiplist_levels valid cmp (SkipList_new k) (\<lambda>_. [])"
    by (simp add: skiplist_levels_def levels_def SkipList_new_nodes SkipList_new_height node_Next_def) (simp add: kMaxHeight_def)

lemma represents_new: "represents valid cmp (SkipList_new k) []"
  using represents_new_levels [of valid cmp k] by (auto simp: represents_def)

text \<open>An iterator at a position of the represented list; a position behind its end is not valid.\<close>

definition iter_at :: "('k \<Rightarrow> bool) \<Rightarrow> ('k \<Rightarrow> 'k \<Rightarrow> int) \<Rightarrow> 'k skiplist \<Rightarrow> 'k list \<Rightarrow> nat \<Rightarrow> sl_iterator \<Rightarrow> bool" where
  "iter_at valid cmp sl ks n it \<longleftrightarrow>
     (\<exists>L. skiplist_levels valid cmp sl L \<and> ks = map (key_of (sl_nodes sl)) (L 0)
        \<and> it = (if n < length (L 0) then Some (L 0 ! n) else None))"

lemma hd_opt_drop: "hd_opt (drop n xs) = (if n < length xs then Some (xs ! n) else None)"
  by (cases "n < length xs") (simp_all add: Cons_nth_drop_Suc [symmetric])

lemma dropWhile_drop: "dropWhile P xs = drop (length (takeWhile P xs)) xs"
  by (simp add: dropWhile_eq_drop)

lemma chain_nth: "chain nodes i x xs \<Longrightarrow> n < length xs \<Longrightarrow> node_Next nodes (xs ! n) i = Some (hd_opt (drop (Suc n) xs))"
proof -
  assume c: "chain nodes i x xs" and n: "n < length xs"
  from c have "chain nodes i x (take n xs @ xs ! n # drop (Suc n) xs)" by (simp add: id_take_nth_drop [OF n, symmetric])
  from chain_append [OF this] show ?thesis by (rule chain_Next)
qed

lemma pred_of_nth:
  "pred_of Q xs = (if takeWhile Q xs = [] then 0 else xs ! (length (takeWhile Q xs) - 1))"
  using takeWhile_nth [of "length (takeWhile Q xs) - 1" Q xs] by (auto simp: pred_of_def last_conv_nth)

lemma iter_atI:
  assumes "skiplist_levels valid cmp sl L" and "it = hd_opt (drop n (L 0))"
  shows "iter_at valid cmp sl (map (key_of (sl_nodes sl)) (L 0)) n it"
  using assms by (auto simp: iter_at_def hd_opt_drop)

lemma representsE:
  assumes "represents valid cmp sl ks"
  obtains L where "skiplist_levels valid cmp sl L" and "ks = map (key_of (sl_nodes sl)) (L 0)"
  using assms by (auto simp: represents_def)

lemma iter_atE:
  assumes "iter_at valid cmp sl ks n it"
  obtains L where "skiplist_levels valid cmp sl L" and "ks = map (key_of (sl_nodes sl)) (L 0)" and "it = hd_opt (drop n (L 0))"
  using assms by (auto simp: iter_at_def hd_opt_drop)

lemma sorted_takeWhile_nth:
  assumes "sorted_wrt P xs" and "n < length xs" and "\<And>y. y \<in> set xs \<Longrightarrow> Q y \<longleftrightarrow> P y (xs ! n)" and "\<not> P (xs ! n) (xs ! n)"
  shows "takeWhile Q xs = take n xs"
proof (rule takeWhile_eq_take_P_nth)
  show "Q (xs ! i)" if "i < n" "i < length xs" for i
    using assms(3) [of "xs ! i"] sorted_wrt_nth_less [OF assms(1) that(1) assms(2)] that by simp
  show "\<not> Q (xs ! n)" if "n < length xs" using assms(3) [of "xs ! n"] assms(4) that by simp
qed

context compare_order
begin

lemma represents_sorted:
  assumes "represents valid compare sl ks"
  shows "sorted_wrt (\<lambda>a b. compare a b < 0) ks" and "k \<in> set ks \<Longrightarrow> valid k"
  using assms by (auto elim!: representsE simp: sorted_wrt_map level_0D)

lemma represents_Insert:
  assumes "represents valid compare sl ks" and "valid key" and "\<forall>k\<in>set ks. compare k key \<noteq> 0"
  shows "\<exists>sl'. SkipList_Insert compare sl key = Some sl' \<and> represents valid compare sl' (insert_key compare key ks)"
proof -
  obtain L where L: "skiplist_levels valid compare sl L" "ks = map (key_of (sl_nodes sl)) (L 0)"
    using assms(1) by (rule representsE)
  with Insert_levels [OF L(1) assms(2)] assms(3) show ?thesis by (fastforce simp: represents_def)
qed

lemma Seek_at:
  assumes "represents valid compare sl ks" and "valid target"
  shows "\<exists>it. SkipListIter_Seek compare sl target = Some it
    \<and> iter_at valid compare sl ks (length (takeWhile (\<lambda>k. compare k target < 0) ks)) it"
proof -
  obtain L where L: "skiplist_levels valid compare sl L" "ks = map (key_of (sl_nodes sl)) (L 0)"
    using assms(1) by (rule representsE)
  show ?thesis
    unfolding SkipListIter_Seek_def FindGreaterOrEqual_levels [OF L(1) assms(2)] L(2)
    by (auto intro!: iter_atI [OF L(1)] simp: dropWhile_drop takeWhile_map_key comp_def)
qed

lemma Contains_iff:
  assumes "represents valid compare sl ks" and "valid key"
  shows "SkipList_Contains compare sl key = Some (\<exists>k\<in>set ks. compare key k = 0)"
proof -
  obtain L where L: "skiplist_levels valid compare sl L" "ks = map (key_of (sl_nodes sl)) (L 0)"
    using assms(1) by (rule representsE)
  define Q where "Q = before compare (sl_nodes sl) key"
  have eq: "compare key (key_of (sl_nodes sl) x) = 0 \<longleftrightarrow> \<not> Q x \<and> compare (key_of (sl_nodes sl) x) key \<le> 0" if "x \<in> set (L 0)" for x
    using order_swap [OF assms(2) level_0D(5) [OF L(1) that]] order_swap [OF level_0D(5) [OF L(1) that] assms(2)]
    by (auto simp: Q_def)
  have f: "FindGreaterOrEqual compare sl key None = Some (hd_opt (dropWhile Q (L 0)), None)"
    using FindGreaterOrEqual_levels [OF L(1) assms(2), of None] by (simp add: Q_def)
  show ?thesis
  proof (cases "dropWhile Q (L 0)")
    case Nil
    then have "\<forall>x\<in>set (L 0). Q x" by (simp add: dropWhile_eq_Nil_conv)
    then have "\<not> (\<exists>k\<in>set ks. compare key k = 0)" using eq by (auto simp: L(2))
    then show ?thesis by (simp add: SkipList_Contains_def f Nil)
  next
    case (Cons d ds)
    have d: "d \<in> set (L 0)" "set ds \<subseteq> set (L 0)" "\<not> Q d"
      using Cons set_dropWhileD [of _ Q "L 0"] dropWhile_eq_Cons_conv [of Q "L 0" d ds] by auto
    have "sorted_wrt (\<lambda>x y. compare (key_of (sl_nodes sl) x) (key_of (sl_nodes sl) y) < 0) (d # ds)"
      using level_0D(2) [OF L(1)] Cons by (metis sorted_wrt_append takeWhile_dropWhile_id)
    then have "compare key (key_of (sl_nodes sl) x) \<noteq> 0" if "x \<in> set ds" for x
      using that d eq [of x] less_of_le [of "key_of (sl_nodes sl) d" "key_of (sl_nodes sl) x" key] level_0D(5) [OF L(1)] assms(2)
      by (auto simp: Q_def)
    moreover have "set (L 0) = set (takeWhile Q (L 0)) \<union> insert d (set ds)"
      using Cons by (metis list.simps(15) set_append takeWhile_dropWhile_id)
    ultimately have "(\<exists>k\<in>set ks. compare key k = 0) \<longleftrightarrow> compare key (key_of (sl_nodes sl) d) = 0"
      using eq by (auto simp: L(2) dest: set_takeWhileD)
    then show ?thesis using level_0D(4) [OF L(1) d(1)] by (simp add: SkipList_Contains_def f Cons node_key_def)
  qed
qed

lemma iter_key:
  assumes "iter_at valid compare sl ks n it"
  shows "SkipListIter_Valid it \<longleftrightarrow> n < length ks" and "n < length ks \<Longrightarrow> SkipListIter_key sl it = Some (ks ! n)"
proof -
  obtain L where L: "skiplist_levels valid compare sl L" "ks = map (key_of (sl_nodes sl)) (L 0)" "it = hd_opt (drop n (L 0))"
    using assms(1) by (rule iter_atE)
  show "SkipListIter_Valid it \<longleftrightarrow> n < length ks" by (simp add: SkipListIter_Valid_def L hd_opt_drop)
  show "SkipListIter_key sl it = Some (ks ! n)" if "n < length ks"
    using that level_0D(4) [OF L(1), of "L 0 ! n"] by (simp add: SkipListIter_key_def L hd_opt_drop node_key_def)
qed

lemma Next_at:
  assumes "iter_at valid compare sl ks n it" and "n < length ks"
  shows "\<exists>it'. SkipListIter_Next sl it = Some it' \<and> iter_at valid compare sl ks (Suc n) it'"
proof -
  obtain L where L: "skiplist_levels valid compare sl L" "ks = map (key_of (sl_nodes sl)) (L 0)" "it = hd_opt (drop n (L 0))"
    using assms(1) by (rule iter_atE)
  from chain_nth [OF level_0D(1) [OF L(1)], of n] assms(2) L(2,3) have "SkipListIter_Next sl it = Some (hd_opt (drop (Suc n) (L 0)))"
    by (simp add: SkipListIter_Next_def hd_opt_drop)
  with iter_atI [OF L(1)] L(2) show ?thesis by auto
qed

lemma SeekToFirst_at:
  assumes "represents valid compare sl ks"
  shows "\<exists>it. SkipListIter_SeekToFirst sl = Some it \<and> iter_at valid compare sl ks 0 it"
  using assms by (auto elim!: representsE intro!: iter_atI simp: SkipListIter_SeekToFirst_def chain_Next [OF level_0D(1)])

lemma Prev_at:
  assumes "iter_at valid compare sl ks n it" and "n < length ks"
  shows "\<exists>it'. SkipListIter_Prev compare sl it = Some it'
    \<and> iter_at valid compare sl ks (if n = 0 then length ks else n - 1) it'"
proof -
  obtain L where L: "skiplist_levels valid compare sl L" "ks = map (key_of (sl_nodes sl)) (L 0)" "it = hd_opt (drop n (L 0))"
    using assms(1) by (rule iter_atE)
  define Q where "Q = before compare (sl_nodes sl) (ks ! n)"
  note sl = skiplist_levelsD [OF L(1)]
  have n: "n < length (L 0)" using assms(2) L(2) by simp
  then have v: "valid (ks ! n)" using level_0D(5) [OF L(1), of "L 0 ! n"] L(2) by simp
  have "FindLessThan compare sl (ks ! n) = Some (pred_of Q (L 0))"
    using sl closed_before [OF v] unfolding FindLessThan_def Q_def
    by (subst find_last_loop_levels [OF sl(1)]) (auto simp: search_at_def node_key_def not_less)
  moreover have "takeWhile Q (L 0) = take n (L 0)"
    using n v level_0D(2) [OF L(1)] L(2) by (intro sorted_takeWhile_nth) (auto simp: Q_def)
  then have "pred_of Q (L 0) = (if n = 0 then 0 else L 0 ! (n - 1))"
    using n by (auto simp: pred_of_def last_conv_nth)
  moreover have "L 0 ! (n - 1) \<noteq> 0" using n level_0D(3) [OF L(1), of "L 0 ! (n - 1)"] by simp
  ultimately show ?thesis
    using iter_key(2) [OF assms] n
    by (auto simp: SkipListIter_Prev_def L(2) hd_opt_drop intro!: iter_atI [OF L(1)])
qed

lemma SeekToLast_at:
  assumes "represents valid compare sl ks"
  shows "\<exists>it. SkipListIter_SeekToLast sl = Some it \<and> iter_at valid compare sl ks (length ks - 1) it"
proof -
  obtain L where L: "skiplist_levels valid compare sl L" "ks = map (key_of (sl_nodes sl)) (L 0)"
    using assms(1) by (rule representsE)
  note sl = skiplist_levelsD [OF L(1)]
  have t: "takeWhile (\<lambda>_. True) xs = xs" for xs :: "nat list" by (induction xs) auto
  have "FindLast sl = Some (last (0 # L 0))"
    using sl unfolding FindLast_def
    by (subst find_last_loop_levels [OF sl(1) _ closed_True]) (auto simp: search_at_def pred_of_def t)
  moreover have "last (L 0) \<noteq> 0" if "L 0 \<noteq> []" using that level_0D(3) [OF L(1), of "last (L 0)"] by simp
  ultimately have "SkipListIter_SeekToLast sl = Some (hd_opt (drop (length (L 0) - 1) (L 0)))"
    by (auto simp: SkipListIter_SeekToLast_def hd_opt_drop last_conv_nth)
  with iter_atI [OF L(1)] show ?thesis by (auto simp: L(2))
qed

end

end
