(* ===== verification/Ldb_Skiplist_Conc.thy ===== *)
theory Ldb_Skiplist_Conc
  imports Ldb_Skiplist_Ops
begin

text \<open>
  Searches that run while a node is inserted. The readers of a skip list take no lock; the comments of
  \<^verbatim>\<open>db/skiplist.h\<close> say why that is safe. Here the steps of one writer and one reader are interleaved: a step
  of the writer is one store in a link, first in that of the new node, then in that of its predecessor, which publishes
  the node on one level; a step of the reader is one round of its loop, with one load of a link. A reader may load an
  old value of \<^verbatim>\<open>max_height_\<close>.
\<close>

section \<open>Steps\<close>

text \<open>The writer is before the first or the second store of a level.\<close>

datatype writer = Idle | Linking "nat option list" nat nat nat | Publishing "nat option list" nat nat nat

datatype 'k reader = NoSearch | Searching 'k search | Found 'k "nat option"

record 'k sl_state =
  ss_list :: "'k skiplist"
  ss_writer :: writer
  ss_reader :: "'k reader"

definition sl_start :: "'k \<Rightarrow> 'k sl_state" where
  "sl_start k = \<lparr>ss_list = SkipList_new k, ss_writer = Idle, ss_reader = NoSearch\<rparr>"

inductive sl_step :: "('k \<Rightarrow> bool) \<Rightarrow> ('k \<Rightarrow> 'k \<Rightarrow> int) \<Rightarrow> 'k sl_state \<Rightarrow> 'k sl_state \<Rightarrow> bool" for valid cmp where
  w_begin: "ss_writer st = Idle \<Longrightarrow> valid key \<Longrightarrow> SkipList_Contains cmp (ss_list st) key = Some False \<Longrightarrow>
    insert_prepare cmp (ss_list st) key = Some (sl', prev, x, height) \<Longrightarrow>
    sl_step valid cmp st (st\<lparr>ss_list := sl', ss_writer := Linking prev x height 0\<rparr>)"
| w_link: "ss_writer st = Linking prev x height i \<Longrightarrow> i < height \<Longrightarrow>
    link_new prev x i (sl_nodes (ss_list st)) = Some nodes' \<Longrightarrow>
    sl_step valid cmp st (st\<lparr>ss_list := (ss_list st)\<lparr>sl_nodes := nodes'\<rparr>, ss_writer := Publishing prev x height i\<rparr>)"
| w_publish: "ss_writer st = Publishing prev x height i \<Longrightarrow>
    publish_new prev x i (sl_nodes (ss_list st)) = Some nodes' \<Longrightarrow>
    sl_step valid cmp st (st\<lparr>ss_list := (ss_list st)\<lparr>sl_nodes := nodes'\<rparr>, ss_writer := Linking prev x height (i + 1)\<rparr>)"
| w_end: "ss_writer st = Linking prev x height i \<Longrightarrow> i = height \<Longrightarrow> sl_step valid cmp st (st\<lparr>ss_writer := Idle\<rparr>)"
| r_begin: "valid key \<Longrightarrow> 0 < m \<Longrightarrow> m \<le> sl_max_height (ss_list st) \<Longrightarrow>
    sl_step valid cmp st (st\<lparr>ss_reader := Searching key \<lparr>fs_x = 0, fs_level = m - 1, fs_prev = None\<rparr>\<rparr>)"
| r_round: "ss_reader st = Searching key s \<Longrightarrow> find_ge_round cmp (sl_nodes (ss_list st)) key s = Some (Inl s') \<Longrightarrow>
    sl_step valid cmp st (st\<lparr>ss_reader := Searching key s'\<rparr>)"
| r_found: "ss_reader st = Searching key s \<Longrightarrow> find_ge_round cmp (sl_nodes (ss_list st)) key s = Some (Inr (r, p)) \<Longrightarrow>
    sl_step valid cmp st (st\<lparr>ss_reader := Found key r\<rparr>)"

inductive sl_reachable :: "('k \<Rightarrow> bool) \<Rightarrow> ('k \<Rightarrow> 'k \<Rightarrow> int) \<Rightarrow> 'k sl_state \<Rightarrow> bool" for valid cmp where
  start: "sl_reachable valid cmp (sl_start k)"
| step: "sl_reachable valid cmp st \<Longrightarrow> sl_step valid cmp st st' \<Longrightarrow> sl_reachable valid cmp st'"

inductive_cases sl_stepE: "sl_step valid cmp st st'"

section \<open>The invariant\<close>

definition writer_inv :: "('k \<Rightarrow> bool) \<Rightarrow> ('k \<Rightarrow> 'k \<Rightarrow> int) \<Rightarrow> 'k skiplist \<Rightarrow> (nat \<Rightarrow> nat list) \<Rightarrow> writer \<Rightarrow> bool" where
  "writer_inv valid cmp sl L w \<longleftrightarrow>
     (case w of Idle \<Rightarrow> True
      | Linking prev x height i \<Rightarrow> height \<le> sl_max_height sl \<and> linking valid cmp (sl_nodes sl) L prev x height i
      | Publishing prev x height i \<Rightarrow>
          height \<le> sl_max_height sl \<and> i < height \<and> linking valid cmp (sl_nodes sl) L prev x height i
          \<and> node_Next (sl_nodes sl) x i = Some (hd_opt (dropWhile (before cmp (sl_nodes sl) (key_of (sl_nodes sl) x)) (L i))))"

definition reader_inv :: "('k \<Rightarrow> bool) \<Rightarrow> ('k \<Rightarrow> 'k \<Rightarrow> int) \<Rightarrow> 'k skiplist \<Rightarrow> (nat \<Rightarrow> nat list) \<Rightarrow> 'k reader \<Rightarrow> bool" where
  "reader_inv valid cmp sl L r \<longleftrightarrow>
     (case r of Searching key s \<Rightarrow>
          valid key \<and> fs_level s < kMaxHeight \<and> search_at (before cmp (sl_nodes sl) key) (L (fs_level s)) (fs_x s)
      | _ \<Rightarrow> True)"

definition sl_inv :: "('k \<Rightarrow> bool) \<Rightarrow> ('k \<Rightarrow> 'k \<Rightarrow> int) \<Rightarrow> 'k sl_state \<Rightarrow> (nat \<Rightarrow> nat list) \<Rightarrow> bool" where
  "sl_inv valid cmp st L \<longleftrightarrow>
     skiplist_levels valid cmp (ss_list st) L \<and> writer_inv valid cmp (ss_list st) L (ss_writer st)
     \<and> reader_inv valid cmp (ss_list st) L (ss_reader st)"

lemma reader_inv_mono:
  assumes "reader_inv valid cmp sl L r" and "\<And>i. i < kMaxHeight \<Longrightarrow> set (L i) \<subseteq> set (L' i)"
    and "\<And>i x. i < kMaxHeight \<Longrightarrow> x \<in> set (L i) \<Longrightarrow> key_of (sl_nodes sl') x = key_of (sl_nodes sl) x"
  shows "reader_inv valid cmp sl' L' r"
  using assms by (auto simp: reader_inv_def search_at_def split: reader.splits)

text \<open>A step keeps the nodes of the list, their order and their keys, or it adds one node.\<close>

definition grows :: "nat list \<Rightarrow> nat list \<Rightarrow> bool" where
  "grows ns ns' \<longleftrightarrow> ns' = ns \<or> (\<exists>as x bs. ns = as @ bs \<and> ns' = as @ x # bs)"

lemma grows_refl [simp]: "grows ns ns"
  by (simp add: grows_def)

lemma grows_ins: "grows ns (ins Q x ns)"
  unfolding grows_def ins_def by (metis takeWhile_dropWhile_id)

context compare_order
begin

text \<open>A round of a search is defined and leads on; the last one finds the first node at or after the key.\<close>

lemma find_ge_round_levels:
  assumes "levels valid compare nodes L" and "fs_level s < kMaxHeight" and "valid key"
    and "search_at (before compare nodes key) (L (fs_level s)) (fs_x s)"
  shows "case find_ge_round compare nodes key s of
      None \<Rightarrow> False
    | Some (Inl s') \<Rightarrow> fs_level s' < kMaxHeight \<and> search_at (before compare nodes key) (L (fs_level s')) (fs_x s')
    | Some (Inr (r, p)) \<Rightarrow> r = hd_opt (dropWhile (before compare nodes key) (L 0))"
proof -
  define Q where "Q = before compare nodes key"
  obtain bs where bs: "chain nodes (fs_level s) (fs_x s) bs" "\<forall>y\<in>set bs. y < length nodes"
    "dropWhile Q (L (fs_level s)) = dropWhile Q bs" "set bs \<subseteq> set (L (fs_level s))"
    using search_at_split [OF assms(1,2,4) closed_before [OF assms(3)]] unfolding Q_def by metis
  show ?thesis
  proof (cases "takeWhile Q bs = []")
    case True
    then have "dropWhile Q bs = bs" by (cases bs) auto
    moreover have "0 < fs_level s \<Longrightarrow> set (L (fs_level s)) \<subseteq> set (L (fs_level s - 1))"
      using levelsD(6) [OF assms(1), of "fs_level s - 1"] assms(2) by simp
    ultimately show ?thesis
      using find_ge_round_chain [OF bs(1,2), of compare key] True bs(3) assms(2,4)
      by (auto simp: Let_def search_at_def simp flip: Q_def)
  next
    case False
    then have "hd bs \<in> set bs" "Q (hd bs)" by (cases bs; auto split: if_splits)+
    then show ?thesis
      using find_ge_round_chain [OF bs(1,2), of compare key] False bs(4) assms(2)
      by (auto simp: search_at_def simp flip: Q_def)
  qed
qed

lemma sl_inv_start: "sl_inv valid compare (sl_start k) (\<lambda>_. [])"
  using represents_new_levels [of valid compare k] by (simp add: sl_inv_def sl_start_def writer_inv_def reader_inv_def)

lemma sl_inv_prepare:
  assumes "sl_inv valid compare st L" and "valid key" and "SkipList_Contains compare (ss_list st) key = Some False"
  obtains sl' prev x height where "insert_prepare compare (ss_list st) key = Some (sl', prev, x, height)"
    and "sl_inv valid compare (st\<lparr>ss_list := sl', ss_writer := Linking prev x height 0\<rparr>) L"
    and "\<And>y. y \<in> set (L 0) \<Longrightarrow> key_of (sl_nodes sl') y = key_of (sl_nodes (ss_list st)) y"
proof -
  have L: "skiplist_levels valid compare (ss_list st) L" and r: "reader_inv valid compare (ss_list st) L (ss_reader st)"
    using assms(1) by (auto simp: sl_inv_def)
  have "compare (key_of (sl_nodes (ss_list st)) y) key \<noteq> 0" if "y \<in> set (L 0)" for y
    using Contains_iff [of "ss_list st" _ key] assms(2,3) L that order_swap [OF assms(2) level_0D(5) [OF L that]]
      order_swap [OF level_0D(5) [OF L that] assms(2)] by (force simp: represents_def)
  then obtain sl1 prev h where i: "insert_prepare compare (ss_list st) key = Some (sl1, prev, length (sl_nodes (ss_list st)), h)"
    "skiplist_levels valid compare sl1 L" "h \<le> sl_max_height sl1"
    "sl_nodes sl1 = sl_nodes (ss_list st) @ [\<lparr>sn_key = key, sn_next = replicate h None\<rparr>]"
    "linking valid compare (sl_nodes sl1) L prev (length (sl_nodes (ss_list st))) h 0"
    using insert_prepare_linking [OF L assms(2)] by metis
  have "reader_inv valid compare sl1 L (ss_reader st)"
    using r by (rule reader_inv_mono) (auto simp: i(4) nth_append levelsD(4) [OF skiplist_levelsD(1) [OF L]])
  moreover have "key_of (sl_nodes sl1) y = key_of (sl_nodes (ss_list st)) y" if "y \<in> set (L 0)" for y
    using level_0D(4) [OF L that] by (simp add: i(4) nth_append)
  ultimately show thesis using i that by (simp add: sl_inv_def writer_inv_def)
qed

lemma sl_inv_link:
  assumes "sl_inv valid compare st L" and "ss_writer st = Linking prev x height i" and "i < height"
  obtains nodes' where "link_new prev x i (sl_nodes (ss_list st)) = Some nodes'" and "same_keys (sl_nodes (ss_list st)) nodes'"
    and "sl_inv valid compare (st\<lparr>ss_list := (ss_list st)\<lparr>sl_nodes := nodes'\<rparr>, ss_writer := Publishing prev x height i\<rparr>) L"
proof -
  have L: "skiplist_levels valid compare (ss_list st) L" and r: "reader_inv valid compare (ss_list st) L (ss_reader st)"
    and l: "linking valid compare (sl_nodes (ss_list st)) L prev x height i" "height \<le> sl_max_height (ss_list st)"
    using assms(1,2) by (auto simp: sl_inv_def writer_inv_def)
  obtain nodes' where n: "link_new prev x i (sl_nodes (ss_list st)) = Some nodes'" "same_keys (sl_nodes (ss_list st)) nodes'"
    "levels valid compare nodes' L" "linking valid compare nodes' L prev x height i"
    "node_Next nodes' x i = Some (hd_opt (dropWhile (before compare nodes' (key_of nodes' x)) (L i)))"
    by (rule link_new_linking [OF skiplist_levelsD(1) [OF L] l(1) assms(3)])
  have "reader_inv valid compare ((ss_list st)\<lparr>sl_nodes := nodes'\<rparr>) L (ss_reader st)"
    using r by (rule reader_inv_mono) (use n(2) in \<open>auto simp: same_keys_def\<close>)
  moreover have "skiplist_levels valid compare ((ss_list st)\<lparr>sl_nodes := nodes'\<rparr>) L"
    using n(3) skiplist_levelsD [OF L] by (auto simp: skiplist_levels_def)
  ultimately show thesis using that [of nodes'] n l(2) assms(3) by (simp add: sl_inv_def writer_inv_def)
qed

lemma sl_inv_publish:
  assumes "sl_inv valid compare st L" and "ss_writer st = Publishing prev x height i"
  defines "L' \<equiv> L(i := ins (before compare (sl_nodes (ss_list st)) (key_of (sl_nodes (ss_list st)) x)) x (L i))"
  obtains nodes' where "publish_new prev x i (sl_nodes (ss_list st)) = Some nodes'" and "same_keys (sl_nodes (ss_list st)) nodes'"
    and "sl_inv valid compare (st\<lparr>ss_list := (ss_list st)\<lparr>sl_nodes := nodes'\<rparr>, ss_writer := Linking prev x height (i + 1)\<rparr>) L'"
proof -
  have L: "skiplist_levels valid compare (ss_list st) L" and r: "reader_inv valid compare (ss_list st) L (ss_reader st)"
    and l: "linking valid compare (sl_nodes (ss_list st)) L prev x height i" "height \<le> sl_max_height (ss_list st)" "i < height"
      "node_Next (sl_nodes (ss_list st)) x i =
         Some (hd_opt (dropWhile (before compare (sl_nodes (ss_list st)) (key_of (sl_nodes (ss_list st)) x)) (L i)))"
    using assms(1,2) by (auto simp: sl_inv_def writer_inv_def)
  obtain nodes' where n: "publish_new prev x i (sl_nodes (ss_list st)) = Some nodes'" "same_keys (sl_nodes (ss_list st)) nodes'"
    "levels valid compare nodes' L'" "linking valid compare nodes' L' prev x height (i + 1)"
    using publish_new_linking [OF skiplist_levelsD(1) [OF L] l(1,3,4)] unfolding L'_def by metis
  have "reader_inv valid compare ((ss_list st)\<lparr>sl_nodes := nodes'\<rparr>) L' (ss_reader st)"
    using r by (rule reader_inv_mono) (use n(2) in \<open>auto simp: L'_def same_keys_def\<close>)
  moreover have "skiplist_levels valid compare ((ss_list st)\<lparr>sl_nodes := nodes'\<rparr>) L'"
    using n(3) skiplist_levelsD [OF L] l(2,3) by (auto simp: skiplist_levels_def L'_def)
  ultimately show thesis using that [of nodes'] n l(2) by (simp add: sl_inv_def writer_inv_def)
qed

lemma link_level_defined:
  assumes "sl_inv valid compare st L" and "ss_writer st = Linking prev x height i" and "i < height"
  shows "\<exists>nodes1 nodes'. link_new prev x i (sl_nodes (ss_list st)) = Some nodes1 \<and> link_level prev x i (sl_nodes (ss_list st)) = Some nodes'"
proof -
  obtain n where n: "link_new prev x i (sl_nodes (ss_list st)) = Some n"
    "sl_inv valid compare (st\<lparr>ss_list := (ss_list st)\<lparr>sl_nodes := n\<rparr>, ss_writer := Publishing prev x height i\<rparr>) L"
    by (rule sl_inv_link [OF assms])
  obtain n2 where "publish_new prev x i n = Some n2" using sl_inv_publish [OF n(2)] by auto
  with n(1) show ?thesis by (simp add: link_level_def)
qed

lemma sl_inv_step:
  assumes "sl_inv valid compare st L" and "sl_step valid compare st st'"
  shows "\<exists>L'. sl_inv valid compare st' L' \<and> grows (L 0) (L' 0)
    \<and> (\<forall>y\<in>set (L 0). key_of (sl_nodes (ss_list st')) y = key_of (sl_nodes (ss_list st)) y)"
  using assms(2)
proof (cases rule: sl_step.cases)
  case (w_begin key sl' prev x height)
  obtain a b c d where "insert_prepare compare (ss_list st) key = Some (a, b, c, d)"
    "sl_inv valid compare (st\<lparr>ss_list := a, ss_writer := Linking b c d 0\<rparr>) L"
    "\<And>y. y \<in> set (L 0) \<Longrightarrow> key_of (sl_nodes a) y = key_of (sl_nodes (ss_list st)) y"
    by (rule sl_inv_prepare [OF assms(1) w_begin(3,4)]) blast
  with w_begin show ?thesis by auto
next
  case (w_link prev x height i nodes')
  obtain n where "link_new prev x i (sl_nodes (ss_list st)) = Some n" "same_keys (sl_nodes (ss_list st)) n"
    "sl_inv valid compare (st\<lparr>ss_list := (ss_list st)\<lparr>sl_nodes := n\<rparr>, ss_writer := Publishing prev x height i\<rparr>) L"
    by (rule sl_inv_link [OF assms(1) w_link(2,3)])
  with w_link show ?thesis by (intro exI [of _ L]) (simp add: same_keys_def)
next
  case (w_publish prev x height i nodes')
  define L' where "L' = L(i := ins (before compare (sl_nodes (ss_list st)) (key_of (sl_nodes (ss_list st)) x)) x (L i))"
  obtain n where "publish_new prev x i (sl_nodes (ss_list st)) = Some n" "same_keys (sl_nodes (ss_list st)) n"
    "sl_inv valid compare (st\<lparr>ss_list := (ss_list st)\<lparr>sl_nodes := n\<rparr>, ss_writer := Linking prev x height (i + 1)\<rparr>) L'"
    unfolding L'_def by (rule sl_inv_publish [OF assms(1) w_publish(2)])
  moreover have "grows (L 0) (L' 0)" by (simp add: L'_def grows_ins)
  ultimately show ?thesis using w_publish by (intro exI [of _ L']) (simp add: same_keys_def)
next
  case (r_round key s s')
  then show ?thesis
    using assms(1) find_ge_round_levels [OF skiplist_levelsD(1), of "ss_list st" L s key]
    by (intro exI [of _ L]) (auto simp: sl_inv_def reader_inv_def)
qed (use assms(1) in \<open>auto simp: sl_inv_def writer_inv_def reader_inv_def search_at_def skiplist_levels_def intro!: exI [of _ L]\<close>)

lemma sl_reachable_inv: "sl_reachable valid compare st \<Longrightarrow> \<exists>L. sl_inv valid compare st L"
proof (induction rule: sl_reachable.induct)
  case (start k)
  then show ?case using sl_inv_start by blast
next
  case (step st st')
  then show ?case using sl_inv_step by blast
qed

end

end
