(* ===== verification/Ldb_Skiplist_Props.thy ===== *)
theory Ldb_Skiplist_Props
  imports Ldb_Skiplist_Conc
begin

text \<open>The properties of the skip list, for every comparison that is a total preorder on the keys in use.\<close>

section \<open>Random numbers\<close>

text \<open>Modulo \<open>2^31 - 1\<close>, the parts of a number below and above \<open>2^31\<close> may be added.\<close>

lemma mod_by_parts: "p mod 2147483647 = (p div 2147483648 + p mod 2147483648) mod (2147483647 :: nat)"
proof -
  have "p = (p div 2147483648 + p mod 2147483648) + p div 2147483648 * 2147483647"
    using div_mult_mod_eq [of p 2147483648] by simp
  then show ?thesis by (metis mod_mult_self1)
qed

lemma lehmer_not_0: "0 < s \<Longrightarrow> s < 2147483647 \<Longrightarrow> s * 16807 mod 2147483647 \<noteq> (0 :: nat)"
proof
  assume s: "0 < s" "s < 2147483647" and "s * 16807 mod 2147483647 = 0"
  then have "2147483647 dvd s * 16807" by (simp add: mod_eq_0_iff_dvd)
  moreover have "coprime (2147483647 :: nat) 16807" by (simp add: coprime_iff_gcd_eq_1 gcd_nat.simps)
  ultimately have "2147483647 dvd s" by (simp add: coprime_dvd_mult_left_iff)
  then show False using s by (auto dest: dvd_imp_le)
qed

lemma Random_Next_mod:
  assumes "0 < unat seed" and "unat seed < 2147483647"
  shows "unat (Random_Next seed) = unat seed * 16807 mod 2147483647"
proof -
  define p where "p = unat seed * 16807"
  define q where "q = p div 2147483648 + p mod 2147483648"
  have pb: "p < 2147483648 * 32768" using assms(2) by (simp add: p_def)
  have up: "unat (ucast seed * 16807 :: u64) = p"
    using pb by (simp add: unat_word_ariths unsigned_ucast_eq take_bit_nat_eq_self p_def)
  define w where "w = (ucast seed * 16807 :: u64)"
  have hi: "unat (drop_bit 31 w) = p div 2147483648"
    using up by (simp add: w_def drop_bit_eq_div unat_div)
  have "w AND 2147483647 = take_bit 31 w" by (simp add: take_bit_eq_mask mask_eq_exp_minus_1)
  then have lo: "unat (w AND 2147483647) = p mod 2147483648"
    using up by (simp add: w_def unsigned_take_bit_eq) (simp add: take_bit_eq_mod)
  have "p div 2147483648 < 32768" using pb by (simp add: less_mult_imp_div_less)
  moreover have "p mod 2147483648 < 2147483648" by simp
  ultimately have q: "q < 2147483648 + 32768" unfolding q_def by linarith
  have "unat (drop_bit 31 w + (w AND 2147483647)) = q" using q hi lo by (simp add: unat_word_ariths q_def)
  then have s: "unat (ucast (drop_bit 31 w + (w AND 2147483647)) :: u32) = q"
    using q by (simp add: unsigned_ucast_eq take_bit_nat_eq_self)
  have "q mod 2147483647 = p mod 2147483647" using mod_by_parts [of p] by (simp add: q_def)
  moreover have "p mod 2147483647 \<noteq> 0" using lehmer_not_0 [OF assms] by (simp add: p_def)
  ultimately have "(if q > 2147483647 then q - 2147483647 else q) = p mod 2147483647"
    using q by (cases "q < 2147483647"; cases "q = 2147483647") (simp_all add: le_mod_geq)
  then have "unat (Random_Next seed) = p mod 2147483647"
    using s by (simp add: Random_Next_def Let_def word_less_nat_alt unat_sub word_le_nat_alt flip: w_def split: if_splits)
  then show ?thesis by (simp add: p_def)
qed

lemma Random_new_range: "0 < unat (Random_new s) \<and> unat (Random_new s) < 2147483647"
proof -
  have "s AND 2147483647 = take_bit 31 s" by (simp add: take_bit_eq_mask mask_eq_exp_minus_1)
  moreover have "unat (take_bit 31 s) < 2147483648" by (simp add: unsigned_take_bit_eq) (simp add: take_bit_eq_mod)
  ultimately show ?thesis
    by (auto simp: Random_new_def Let_def word_unat_eq_iff)
qed

text \<open>
  The random numbers of the heights: from a seed between 1 and \<open>M - 1\<close>, where \<open>M = 2^31 - 1\<close>, the next number is
  the seed times 16807 modulo \<open>M\<close>, computed without a division, and it is between 1 and \<open>M - 1\<close> again; every
  initial value is turned into such a seed.
\<close>
lemma random_is_lehmer:
  "let seed = Random_new s; M = 2 ^ 31 - 1 in
     0 < unat seed \<and> unat seed < M \<and> 0 < unat ((Random_Next ^^ n) seed)
     \<and> unat ((Random_Next ^^ n) seed) = unat seed * 16807 ^ n mod M"
proof -
  have range: "0 < unat (Random_new s) \<and> unat (Random_new s) < 2147483647" by (rule Random_new_range)
  have "0 < unat ((Random_Next ^^ n) (Random_new s))
     \<and> unat ((Random_Next ^^ n) (Random_new s)) = unat (Random_new s) * 16807 ^ n mod 2147483647"
  proof (induction n)
    case (Suc n)
    define r where "r = (Random_Next ^^ n) (Random_new s)"
    have "unat r < 2147483647" using Suc by (simp add: r_def)
    with Suc have "unat (Random_Next r) = unat r * 16807 mod 2147483647" "unat r * 16807 mod 2147483647 \<noteq> 0"
      using Random_Next_mod [of r] lehmer_not_0 [of "unat r"] by (simp_all add: r_def)
    with Suc show ?case by (simp add: r_def mod_mult_left_eq mult.assoc mult.commute [of 16807])
  qed (use range in simp)
  with range show ?thesis by (simp add: Let_def)
qed

section \<open>Sequential operations\<close>

text \<open>
  C26. Insertion into a skip list refines insertion into a sorted list: when the list stands for the keys \<open>ks\<close> and
  no key in it compares equal to the new one, the insertion makes no access outside its nodes, ends, and the
  new list stands for \<open>ks\<close> with the key at its place.
\<close>
theorem skiplist_insert_refines:
  assumes "compare_order valid cmp" and "represents valid cmp sl ks" and "valid key" and "\<forall>k\<in>set ks. cmp k key \<noteq> 0"
  shows "\<exists>sl'. SkipList_Insert cmp sl key = Some sl' \<and> represents valid cmp sl' (insert_key cmp key ks)"
  using assms by (rule compare_order.represents_Insert)

theorem skiplist_insert_refines_witness:
  "\<exists>sl'. SkipList_Insert Bytewise_Compare (SkipList_new []) [5] = Some sl' \<and> represents (\<lambda>_. True) Bytewise_Compare sl' [[5]]"
  using skiplist_insert_refines [OF bytewise.compare_order_axioms represents_new, of "[5]" "[]"] by (simp add: insert_key_def)

text \<open>
  C28. The operations that read a skip list do what they do on the sorted list of keys: membership; an iterator goes
  to the first key at or after a target, to the first and to the last key, forward and backward, and is not valid
  behind the last and before the first.
\<close>
theorem skiplist_iteration:
  assumes "compare_order valid cmp" and "represents valid cmp sl ks" and "valid target"
  shows "SkipList_Contains cmp sl target = Some (\<exists>k\<in>set ks. cmp target k = 0)
    \<and> (\<exists>it. SkipListIter_Seek cmp sl target = Some it \<and> iter_at valid cmp sl ks (length (takeWhile (\<lambda>k. cmp k target < 0) ks)) it)
    \<and> (\<exists>it. SkipListIter_SeekToFirst sl = Some it \<and> iter_at valid cmp sl ks 0 it)
    \<and> (\<exists>it. SkipListIter_SeekToLast sl = Some it \<and> iter_at valid cmp sl ks (length ks - 1) it)
    \<and> (\<forall>n it. iter_at valid cmp sl ks n it \<longrightarrow> SkipListIter_Valid it = (n < length ks)
         \<and> (n < length ks \<longrightarrow> SkipListIter_key sl it = Some (ks ! n)
              \<and> (\<exists>it'. SkipListIter_Next sl it = Some it' \<and> iter_at valid cmp sl ks (n + 1) it')
              \<and> (\<exists>it'. SkipListIter_Prev cmp sl it = Some it'
                   \<and> iter_at valid cmp sl ks (if n = 0 then length ks else n - 1) it')))"
  using compare_order.Contains_iff [OF assms] compare_order.Seek_at [OF assms] compare_order.SeekToFirst_at [OF assms(1,2)]
    compare_order.SeekToLast_at [OF assms(1,2)] compare_order.iter_key [OF assms(1)] compare_order.Next_at [OF assms(1)]
    compare_order.Prev_at [OF assms(1)]
  by auto

theorem skiplist_iteration_witness:
  "\<exists>sl it. represents (\<lambda>_. True) Bytewise_Compare sl [[5]] \<and> SkipList_Contains Bytewise_Compare sl [5] = Some True
     \<and> SkipListIter_Seek Bytewise_Compare sl [4] = Some it \<and> SkipListIter_key sl it = Some [5]"
proof -
  obtain sl where sl: "represents (\<lambda>_. True) Bytewise_Compare sl [[5]]"
    using bytewise.represents_Insert [OF represents_new, of "[5]" "[]"] by (auto simp: insert_key_def)
  from skiplist_iteration [OF bytewise.compare_order_axioms sl TrueI, of "[5]"]
    skiplist_iteration [OF bytewise.compare_order_axioms sl TrueI, of "[4]"] sl
  show ?thesis by fastforce
qed

section \<open>Concurrent searches\<close>

text \<open>States of a search before the first store of an insertion, and between its first two stores.\<close>

lemma search_during_insertion:
  "\<exists>st prev x h. sl_reachable (\<lambda>_. True) Bytewise_Compare st \<and> ss_writer st = Linking prev x h 0 \<and> 0 < h
     \<and> ss_reader st = Searching [5] \<lparr>fs_x = 0, fs_level = 0, fs_prev = None\<rparr>"
proof -
  define st :: "slice sl_state" where "st = sl_start []"
  have c: "SkipList_Contains Bytewise_Compare (ss_list st) [5] = Some False"
    using bytewise.Contains_iff [OF represents_new, of "[]" "[5]"] by (simp add: st_def sl_start_def)
  have sk: "skiplist_levels (\<lambda>_. True) Bytewise_Compare (ss_list st) (\<lambda>_. [])"
    using bytewise.sl_inv_start [of "[]"] by (simp add: sl_inv_def st_def)
  obtain sl' prev x h where p: "insert_prepare Bytewise_Compare (ss_list st) [5] = Some (sl', prev, x, h)"
    "sl_inv (\<lambda>_. True) Bytewise_Compare (st\<lparr>ss_list := sl', ss_writer := Linking prev x h 0\<rparr>) (\<lambda>_. [])"
    unfolding st_def by (rule bytewise.sl_inv_prepare [OF bytewise.sl_inv_start TrueI c [unfolded st_def]])
  define st1 where "st1 = st\<lparr>ss_list := sl', ss_writer := Linking prev x h 0\<rparr>"
  have "sl_step (\<lambda>_. True) Bytewise_Compare st st1"
    unfolding st1_def using c p(1) by (intro w_begin) (auto simp: st_def sl_start_def)
  moreover have "sl_reachable (\<lambda>_. True) Bytewise_Compare st" unfolding st_def by (rule sl_reachable.start)
  ultimately have r: "sl_reachable (\<lambda>_. True) Bytewise_Compare st1" by (rule sl_reachable.step [rotated])
  have "1 \<le> sl_max_height (ss_list st1)" using p(2) by (auto simp: sl_inv_def skiplist_levels_def st1_def)
  then have "sl_step (\<lambda>_. True) Bytewise_Compare st1 (st1\<lparr>ss_reader := Searching [5] \<lparr>fs_x = 0, fs_level = 1 - 1, fs_prev = None\<rparr>\<rparr>)"
    by (intro r_begin) auto
  from sl_reachable.step [OF r this]
  have "sl_reachable (\<lambda>_. True) Bytewise_Compare (st1\<lparr>ss_reader := Searching [5] \<lparr>fs_x = 0, fs_level = 0, fs_prev = None\<rparr>\<rparr>)" by simp
  moreover obtain sl1 prev1 h1 where "insert_prepare Bytewise_Compare (ss_list st) [5] = Some (sl1, prev1, length (sl_nodes (ss_list st)), h1)" "0 < h1"
    by (rule bytewise.insert_prepare_linking [OF sk TrueI]) (simp, blast)
  ultimately show ?thesis using p(1) by (intro exI conjI) (auto simp: st1_def)
qed

lemma search_between_stores:
  "\<exists>st prev x h. sl_reachable (\<lambda>_. True) Bytewise_Compare st \<and> ss_writer st = Publishing prev x h 0
     \<and> ss_reader st = Searching [5] \<lparr>fs_x = 0, fs_level = 0, fs_prev = None\<rparr>"
proof -
  from search_during_insertion obtain st prev x h where st: "sl_reachable (\<lambda>_. True) Bytewise_Compare st"
    "ss_writer st = Linking prev x h 0" "0 < h" "ss_reader st = Searching [5] \<lparr>fs_x = 0, fs_level = 0, fs_prev = None\<rparr>" by blast
  obtain L where "sl_inv (\<lambda>_. True) Bytewise_Compare st L" using bytewise.sl_reachable_inv [OF st(1)] by blast
  from bytewise.sl_inv_link [OF this st(2,3)] obtain n where "link_new prev x 0 (sl_nodes (ss_list st)) = Some n" by metis
  from sl_reachable.step [OF st(1) w_link [OF st(2,3) this]] st(4) show ?thesis by force
qed

text \<open>
  C10. In every state that one writer and one reader reach, also between the two stores of a level, a running search can
  go on without an access outside the nodes and without the load of a link that was never stored, and when its round is
  the last one, the result is the first node at or after the key in the list as it is at that moment. The list of
  nodes is sorted, and no step loses a node, moves it or changes its key: a step leaves the list as it is or adds a node.
\<close>
theorem skiplist_search_linearizable:
  assumes "compare_order valid cmp" and "sl_reachable valid cmp st" and "ss_reader st = Searching key s"
  shows "\<exists>ns. chain (sl_nodes (ss_list st)) 0 0 ns
    \<and> sorted_wrt (\<lambda>x y. cmp (key_of (sl_nodes (ss_list st)) x) (key_of (sl_nodes (ss_list st)) y) < 0) ns
    \<and> (case find_ge_round cmp (sl_nodes (ss_list st)) key s of
         None \<Rightarrow> False
       | Some (Inl s') \<Rightarrow> True
       | Some (Inr (r, _)) \<Rightarrow> r = hd_opt (dropWhile (\<lambda>x. cmp (key_of (sl_nodes (ss_list st)) x) key < 0) ns))
    \<and> (\<forall>st'. sl_step valid cmp st st' \<longrightarrow> (\<exists>ns'. chain (sl_nodes (ss_list st')) 0 0 ns' \<and> grows ns ns'
         \<and> (\<forall>y\<in>set ns. key_of (sl_nodes (ss_list st')) y = key_of (sl_nodes (ss_list st)) y)))"
proof -
  from compare_order.sl_reachable_inv [OF assms(1,2)] obtain L where L: "sl_inv valid cmp st L" by blast
  then have l: "skiplist_levels valid cmp (ss_list st) L" and r: "reader_inv valid cmp (ss_list st) L (Searching key s)"
    using assms(3) by (auto simp: sl_inv_def)
  have step: "\<forall>st'. sl_step valid cmp st st' \<longrightarrow> (\<exists>ns'. chain (sl_nodes (ss_list st')) 0 0 ns' \<and> grows (L 0) ns'
      \<and> (\<forall>y\<in>set (L 0). key_of (sl_nodes (ss_list st')) y = key_of (sl_nodes (ss_list st)) y))"
    using compare_order.sl_inv_step [OF assms(1) L] level_0D(1) unfolding sl_inv_def by blast
  from compare_order.find_ge_round_levels [OF assms(1) skiplist_levelsD(1) [OF l], of s key] r level_0D(1,2) [OF l]
  show ?thesis by (intro exI [of _ "L 0"] conjI step) (auto simp: reader_inv_def split: option.splits sum.splits)
qed

theorem skiplist_search_linearizable_witness:
  "\<exists>st prev x h s. sl_reachable (\<lambda>_. True) Bytewise_Compare st \<and> ss_writer st = Publishing prev x h 0
     \<and> ss_reader st = Searching [5] s \<and> find_ge_round Bytewise_Compare (sl_nodes (ss_list st)) [5] s \<noteq> None"
proof -
  from search_between_stores obtain st prev x h where st: "sl_reachable (\<lambda>_. True) Bytewise_Compare st"
    "ss_writer st = Publishing prev x h 0" "ss_reader st = Searching [5] \<lparr>fs_x = 0, fs_level = 0, fs_prev = None\<rparr>" by blast
  from skiplist_search_linearizable [OF bytewise.compare_order_axioms st(1,3)]
  have "find_ge_round Bytewise_Compare (sl_nodes (ss_list st)) [5] \<lparr>fs_x = 0, fs_level = 0, fs_prev = None\<rparr> \<noteq> None"
    by (auto split: option.splits)
  with st show ?thesis by blast
qed

text \<open>
  C27. No search hangs: from every reachable state, also in the middle of an insertion, a search that goes on alone
  comes to its end.
\<close>
theorem skiplist_search_ends:
  assumes "compare_order valid cmp" and "sl_reachable valid cmp st" and "ss_reader st = Searching key s"
  shows "\<exists>r. find_ge_loop cmp (sl_nodes (ss_list st)) key s = Some r"
proof -
  from compare_order.sl_reachable_inv [OF assms(1,2)] obtain L where L: "sl_inv valid cmp st L" by blast
  then have l: "levels valid cmp (sl_nodes (ss_list st)) L" and r: "reader_inv valid cmp (ss_list st) L (Searching key s)"
    using assms(3) skiplist_levelsD(1) by (auto simp: sl_inv_def)
  with compare_order.find_ge_loop_levels [OF assms(1) l _ refl compare_order.closed_before [OF assms(1)]]
  show ?thesis by (auto simp: reader_inv_def)
qed

theorem skiplist_search_ends_witness:
  "\<exists>st prev x h s. sl_reachable (\<lambda>_. True) Bytewise_Compare st \<and> ss_writer st = Linking prev x h 0
     \<and> ss_reader st = Searching [5] s \<and> find_ge_loop Bytewise_Compare (sl_nodes (ss_list st)) [5] s \<noteq> None"
proof -
  from search_during_insertion obtain st prev x h where st: "sl_reachable (\<lambda>_. True) Bytewise_Compare st"
    "ss_writer st = Linking prev x h 0" "0 < h" "ss_reader st = Searching [5] \<lparr>fs_x = 0, fs_level = 0, fs_prev = None\<rparr>" by blast
  from skiplist_search_ends [OF bytewise.compare_order_axioms st(1) st(4)] st show ?thesis by fastforce
qed

text \<open>
  C25. The invariant of the skip list: in every reachable state there is a well-formed list of nodes on every level,
  nested and sorted, and the insertion in progress can go on, with each of the two stores of a level and with both; no
  insertion that may begin fails.
\<close>
theorem skiplist_invariant:
  assumes "compare_order valid cmp" and "sl_reachable valid cmp st"
  shows "(\<exists>L. skiplist_levels valid cmp (ss_list st) L)
    \<and> (\<forall>prev x height i. ss_writer st = Linking prev x height i \<longrightarrow> i < height \<longrightarrow>
         link_new prev x i (sl_nodes (ss_list st)) \<noteq> None \<and> link_level prev x i (sl_nodes (ss_list st)) \<noteq> None)
    \<and> (\<forall>prev x height i. ss_writer st = Publishing prev x height i \<longrightarrow> publish_new prev x i (sl_nodes (ss_list st)) \<noteq> None)
    \<and> (\<forall>key. valid key \<longrightarrow> SkipList_Contains cmp (ss_list st) key = Some False \<longrightarrow>
         insert_prepare cmp (ss_list st) key \<noteq> None)"
proof -
  from compare_order.sl_reachable_inv [OF assms] obtain L where L: "sl_inv valid cmp st L" by blast
  have "link_new prev x i (sl_nodes (ss_list st)) \<noteq> None \<and> link_level prev x i (sl_nodes (ss_list st)) \<noteq> None"
    if "ss_writer st = Linking prev x height i" "i < height" for prev x height i
    using compare_order.link_level_defined [OF assms(1) L that] by auto
  moreover have "publish_new prev x i (sl_nodes (ss_list st)) \<noteq> None" if "ss_writer st = Publishing prev x height i" for prev x height i
    using compare_order.sl_inv_publish [OF assms(1) L that] by (metis option.distinct(1))
  moreover have "insert_prepare cmp (ss_list st) key \<noteq> None" if "valid key" "SkipList_Contains cmp (ss_list st) key = Some False" for key
    using compare_order.sl_inv_prepare [OF assms(1) L that] by (metis option.distinct(1))
  ultimately show ?thesis using L by (auto simp: sl_inv_def)
qed

theorem skiplist_invariant_witness:
  "\<exists>st prev x h s. sl_reachable (\<lambda>_. True) Bytewise_Compare st \<and> ss_writer st = Linking prev x h 0
     \<and> ss_reader st = Searching [5] s \<and> link_level prev x 0 (sl_nodes (ss_list st)) \<noteq> None"
proof -
  from search_during_insertion obtain st prev x h where st: "sl_reachable (\<lambda>_. True) Bytewise_Compare st"
    "ss_writer st = Linking prev x h 0" "0 < h" "ss_reader st = Searching [5] \<lparr>fs_x = 0, fs_level = 0, fs_prev = None\<rparr>" by blast
  from skiplist_invariant [OF bytewise.compare_order_axioms st(1)] st show ?thesis by blast
qed

end
