(* ===== verification/Ldb_Logging.thy ===== *)
theory Ldb_Logging
  imports Ldb_Status
begin

text \<open>
  Printing and parsing of numbers and strings (\<^verbatim>\<open>util/logging.cc\<close>) and the names of leveldb's files
  (\<^verbatim>\<open>db/filename.cc\<close>).
\<close>

section \<open>Numbers and strings\<close>

definition AppendNumberTo :: "slice \<Rightarrow> u64 \<Rightarrow> slice" where
  "AppendNumberTo s num = s @ decimal (unat num)"

definition NumberToString :: "u64 \<Rightarrow> slice" where
  "NumberToString num = AppendNumberTo [] num"

definition hex_digit :: "nat \<Rightarrow> u8" where
  "hex_digit n = (if n < 10 then 48 + of_nat n else 87 + of_nat n)"

text \<open>One round of the loop; \<^verbatim>\<open>char\<close> is signed, so bytes from 128 on are below the blank.\<close>

definition escape_char :: "u8 \<Rightarrow> slice" where
  "escape_char c =
     (if sint c \<ge> 32 \<and> sint c \<le> 126 then [c]
      else str [CHR 0x5C, CHR ''x''] @ [hex_digit (unat c div 16), hex_digit (unat c mod 16)])"

definition AppendEscapedStringTo :: "slice \<Rightarrow> slice \<Rightarrow> slice" where
  "AppendEscapedStringTo s val = s @ concat (map escape_char val)"

definition EscapeString :: "slice \<Rightarrow> slice" where
  "EscapeString val = AppendEscapedStringTo [] val"

text \<open>
  The loop of \<^verbatim>\<open>ConsumeDecimalNumber\<close>: \<open>Inl\<close> at an overflow, with the input where it stopped, else
  \<open>Inr\<close> with the value, the number of digits and the rest.
\<close>

fun consume_loop :: "u64 \<Rightarrow> nat \<Rightarrow> slice \<Rightarrow> slice + (u64 \<times> nat \<times> slice)" where
  "consume_loop v digits [] = Inr (v, digits, [])"
| "consume_loop v digits (c # inp) =
     (if 48 \<le> c \<and> c \<le> 57 then
        let delta = ucast (c - 48); kMax = - 1 :: u64 in
        if v > kMax div 10 \<or> v = kMax div 10 \<and> delta > kMax mod 10 then Inl (c # inp)
        else consume_loop (v * 10 + delta) (digits + 1) inp
      else Inr (v, digits, c # inp))"

text \<open>The result is \<^verbatim>\<open>false\<close> with the input, or \<^verbatim>\<open>true\<close> with the value and the rest of the input.\<close>

definition ConsumeDecimalNumber :: "slice \<Rightarrow> slice + (u64 \<times> slice)" where
  "ConsumeDecimalNumber inp =
     (case consume_loop 0 0 inp of
        Inl rest \<Rightarrow> Inl rest
      | Inr (v, digits, rest) \<Rightarrow> if digits > 0 then Inr (v, rest) else Inl rest)"

section \<open>File names\<close>

text \<open>\<^verbatim>\<open>%06llu\<close>\<close>

definition decimal6 :: "nat \<Rightarrow> slice" where
  "decimal6 n = replicate (6 - length (decimal n)) 48 @ decimal n"

definition MakeFileName :: "slice \<Rightarrow> u64 \<Rightarrow> slice \<Rightarrow> slice" where
  "MakeFileName name number suffix = name @ str ''/'' @ decimal6 (unat number) @ str ''.'' @ suffix"

definition LogFileName :: "slice \<Rightarrow> u64 \<Rightarrow> slice" where
  "LogFileName name number = MakeFileName name number (str ''log'')"
definition TableFileName :: "slice \<Rightarrow> u64 \<Rightarrow> slice" where
  "TableFileName name number = MakeFileName name number (str ''ldb'')"
definition SSTTableFileName :: "slice \<Rightarrow> u64 \<Rightarrow> slice" where
  "SSTTableFileName name number = MakeFileName name number (str ''sst'')"
definition DescriptorFileName :: "slice \<Rightarrow> u64 \<Rightarrow> slice" where
  "DescriptorFileName dbname number = dbname @ str ''/MANIFEST-'' @ decimal6 (unat number)"
definition CurrentFileName :: "slice \<Rightarrow> slice" where
  "CurrentFileName dbname = dbname @ str ''/CURRENT''"
definition LockFileName :: "slice \<Rightarrow> slice" where
  "LockFileName dbname = dbname @ str ''/LOCK''"
definition TempFileName :: "slice \<Rightarrow> u64 \<Rightarrow> slice" where
  "TempFileName dbname number = MakeFileName dbname number (str ''dbtmp'')"
definition InfoLogFileName :: "slice \<Rightarrow> slice" where
  "InfoLogFileName dbname = dbname @ str ''/LOG''"
definition OldInfoLogFileName :: "slice \<Rightarrow> slice" where
  "OldInfoLogFileName dbname = dbname @ str ''/LOG.old''"

datatype file_type = kLogFile | kDBLockFile | kTableFile | kDescriptorFile | kCurrentFile | kTempFile | kInfoLogFile

definition ParseFileName :: "slice \<Rightarrow> (u64 \<times> file_type) option" where
  "ParseFileName fname =
     (if Slice_equal fname (str ''CURRENT'') then Some (0, kCurrentFile)
      else if Slice_equal fname (str ''LOCK'') then Some (0, kDBLockFile)
      else if Slice_equal fname (str ''LOG'') \<or> Slice_equal fname (str ''LOG.old'') then Some (0, kInfoLogFile)
      else if starts_with fname (str ''MANIFEST-'') then
        (case ConsumeDecimalNumber (remove_prefix 9 fname) of
           Inl _ \<Rightarrow> None
         | Inr (num, rest) \<Rightarrow> if rest \<noteq> [] then None else Some (num, kDescriptorFile))
      else
        (case ConsumeDecimalNumber fname of
           Inl _ \<Rightarrow> None
         | Inr (num, suffix) \<Rightarrow>
             if Slice_equal suffix (str ''.log'') then Some (num, kLogFile)
             else if Slice_equal suffix (str ''.sst'') \<or> Slice_equal suffix (str ''.ldb'') then Some (num, kTableFile)
             else if Slice_equal suffix (str ''.dbtmp'') then Some (num, kTempFile)
             else None))"

section \<open>Parsing what was printed\<close>

definition digit_value :: "u8 \<Rightarrow> nat" where "digit_value c = unat c - 48"

definition is_digit :: "u8 \<Rightarrow> bool" where "is_digit c \<longleftrightarrow> 48 \<le> c \<and> c \<le> 57"

text \<open>The number that digits stand for.\<close>

definition digits_value :: "nat \<Rightarrow> slice \<Rightarrow> nat" where
  "digits_value v ds = foldl (\<lambda>n c. n * 10 + digit_value c) v ds"

lemma digits_value_simps [simp]:
  "digits_value v [] = v" "digits_value v (c # ds) = digits_value (v * 10 + digit_value c) ds"
  "digits_value v (as @ bs) = digits_value (digits_value v as) bs"
  by (simp_all add: digits_value_def)

lemma decimal_digits: "list_all is_digit (decimal n) \<and> digits_value 0 (decimal n) = n \<and> decimal n \<noteq> []"
proof (induction n rule: decimal.induct)
  case (1 n)
  have d: "is_digit (48 + of_nat k) \<and> digit_value (48 + of_nat k) = k" if "k < 10" for k
    using that by (simp add: is_digit_def digit_value_def word_le_nat_alt unat_word_ariths unat_of_nat)
  show ?case
  proof (cases "n < 10")
    case True
    then show ?thesis using d [of n] by (subst (1 2 3) decimal.simps) simp
  next
    case False
    then show ?thesis using 1 d [of "n mod 10"] by (subst (1 2 3) decimal.simps) simp
  qed
qed

lemma decimal6_digits: "list_all is_digit (decimal6 n) \<and> digits_value 0 (decimal6 n) = n \<and> decimal6 n \<noteq> []"
proof -
  have "digits_value 0 (replicate k 48) = 0 \<and> list_all is_digit (replicate k 48)" for k
    by (induction k) (simp_all add: digit_value_def is_digit_def)
  then show ?thesis using decimal_digits [of n] by (simp add: decimal6_def)
qed

lemma digits_value_mono: "v \<le> digits_value v ds"
proof (induction ds arbitrary: v)
  case (Cons d ds)
  have "v \<le> v * 10 + digit_value d" by simp
  also have "\<dots> \<le> digits_value (v * 10 + digit_value d) ds" by (rule Cons)
  finally show ?case by simp
qed simp

lemma consume_step:
  assumes "is_digit c" and "unat v * 10 + digit_value c < 2 ^ 64"
  shows "consume_loop v n (c # inp) = consume_loop (v * 10 + ucast (c - 48)) (n + 1) inp"
    and "unat (v * 10 + ucast (c - 48)) = unat v * 10 + digit_value c"
proof -
  have c: "unat (c - 48) = digit_value c" "digit_value c < 10"
    using assms(1) by (auto simp: is_digit_def digit_value_def word_le_nat_alt unat_sub)
  then have u: "unat (ucast (c - 48) :: u64) = digit_value c" by (simp add: unsigned_ucast_eq take_bit_nat_eq_self)
  have m: "unat (v * 10) = unat v * 10" using assms(2) by (simp add: unat_word_ariths)
  then show "unat (v * 10 + ucast (c - 48)) = unat v * 10 + digit_value c"
    using assms(2) u by (simp add: unat_word_ariths)
  have "\<not> (v > - 1 div 10 \<or> v = - 1 div 10 \<and> ucast (c - 48) > (- 1 mod 10 :: u64))"
    using assms(2) u by (auto simp: word_less_nat_alt unat_div unat_mod_distrib word_unat_eq_iff)
  then show "consume_loop v n (c # inp) = consume_loop (v * 10 + ucast (c - 48)) (n + 1) inp"
    using assms(1) by (auto simp: is_digit_def Let_def)
qed

lemma consume_digits:
  assumes "list_all is_digit ds" and "digits_value (unat v) ds < 2 ^ 64" and "rest = [] \<or> \<not> is_digit (hd rest)"
  shows "consume_loop v n (ds @ rest) = Inr (of_nat (digits_value (unat v) ds), n + length ds, rest)"
  using assms(1,2)
proof (induction ds arbitrary: v n)
  case Nil
  then show ?case using assms(3) by (cases rest) (auto simp: is_digit_def)
next
  case (Cons d ds)
  have "unat v * 10 + digit_value d < 2 ^ 64"
    using Cons.prems(2) digits_value_mono [of "unat v * 10 + digit_value d" ds] by simp
  from consume_step [OF _ this] Cons show ?case by simp
qed

lemma ConsumeDecimalNumber_digits:
  assumes "list_all is_digit ds" and "digits_value 0 ds < 2 ^ 64" and "ds \<noteq> []" and "rest = [] \<or> \<not> is_digit (hd rest)"
  shows "ConsumeDecimalNumber (ds @ rest) = Inr (of_nat (digits_value 0 ds), rest)"
  using consume_digits [OF assms(1) _ assms(4), of 0] assms(2,3) by (simp add: ConsumeDecimalNumber_def)

lemma decimal6_consumed:
  "rest = [] \<or> \<not> is_digit (hd rest) \<Longrightarrow> ConsumeDecimalNumber (decimal6 (unat n) @ rest) = Inr (n, rest)"
  using ConsumeDecimalNumber_digits [of "decimal6 (unat n)" rest] decimal6_digits [of "unat n"] unsigned_less [of n, where ?'a = nat]
  by simp

lemma ParseFileName_number:
  assumes "suffix = [] \<or> \<not> is_digit (hd suffix)"
  shows "ParseFileName (decimal6 (unat n) @ suffix) =
           (if suffix = str ''.log'' then Some (n, kLogFile)
            else if suffix = str ''.sst'' \<or> suffix = str ''.ldb'' then Some (n, kTableFile)
            else if suffix = str ''.dbtmp'' then Some (n, kTempFile) else None)"
proof -
  obtain d ds where d: "decimal6 (unat n) = d # ds" and "is_digit d"
    using decimal6_digits [of "unat n"] by (cases "decimal6 (unat n)") auto
  then have "d \<noteq> 67" "d \<noteq> 76" "d \<noteq> 77" by (auto simp: is_digit_def)
  with decimal6_consumed [OF assms, of n] d show ?thesis
    by (simp add: ParseFileName_def Slice_equal_iff starts_with_iff)
qed

lemma ParseFileName_manifest: "ParseFileName (str ''MANIFEST-'' @ decimal6 (unat n)) = Some (n, kDescriptorFile)"
  using decimal6_consumed [of "[]" n]
  by (simp add: ParseFileName_def Slice_equal_iff starts_with_iff remove_prefix_def)

text \<open>C31. Every file name leveldb makes is recognised: the part of it after the directory parses to the number and
  the type it was made from, for all file numbers.\<close>
theorem file_names_parse:
  "ParseFileName (remove_prefix (length d + 1) (LogFileName d n)) = Some (n, kLogFile)
   \<and> ParseFileName (remove_prefix (length d + 1) (TableFileName d n)) = Some (n, kTableFile)
   \<and> ParseFileName (remove_prefix (length d + 1) (SSTTableFileName d n)) = Some (n, kTableFile)
   \<and> ParseFileName (remove_prefix (length d + 1) (TempFileName d n)) = Some (n, kTempFile)
   \<and> ParseFileName (remove_prefix (length d + 1) (DescriptorFileName d n)) = Some (n, kDescriptorFile)
   \<and> ParseFileName (remove_prefix (length d + 1) (CurrentFileName d)) = Some (0, kCurrentFile)
   \<and> ParseFileName (remove_prefix (length d + 1) (LockFileName d)) = Some (0, kDBLockFile)
   \<and> ParseFileName (remove_prefix (length d + 1) (InfoLogFileName d)) = Some (0, kInfoLogFile)
   \<and> ParseFileName (remove_prefix (length d + 1) (OldInfoLogFileName d)) = Some (0, kInfoLogFile)"
  using ParseFileName_number [of "str ''.log''" n] ParseFileName_number [of "str ''.ldb''" n]
    ParseFileName_number [of "str ''.sst''" n] ParseFileName_number [of "str ''.dbtmp''" n] ParseFileName_manifest [of n]
  by (simp add: LogFileName_def TableFileName_def SSTTableFileName_def TempFileName_def DescriptorFileName_def
      CurrentFileName_def LockFileName_def InfoLogFileName_def OldInfoLogFileName_def MakeFileName_def remove_prefix_def
      is_digit_def ParseFileName_def Slice_equal_iff)

end
