(* ===== verification/Ldb_Dbformat.thy ===== *)
theory Ldb_Dbformat
  imports Ldb_Comparator Ldb_Logging Ldb_Bloom
begin

text \<open>
  Internal keys (\<^verbatim>\<open>db/dbformat.h\<close>, \<^verbatim>\<open>db/dbformat.cc\<close>): a user key followed by eight bytes with a
  sequence number and a type. The user's comparator and filter policy are objects with virtual methods, here
  records of functions. The comparator of internal keys keeps the contract of comparators when the user's does.
\<close>

section \<open>Keys\<close>

definition kTypeDeletion :: u8 where "kTypeDeletion = 0"
definition kTypeValue :: u8 where "kTypeValue = 1"
definition kValueTypeForSeek :: u8 where "kValueTypeForSeek = kTypeValue"
definition kMaxSequenceNumber :: u64 where "kMaxSequenceNumber = push_bit 56 1 - 1"

record parsed_ikey =
  pik_user_key :: slice
  pik_sequence :: u64
  pik_type :: u8

definition ParsedInternalKey :: "slice \<Rightarrow> u64 \<Rightarrow> u8 \<Rightarrow> parsed_ikey" where
  "ParsedInternalKey u seq t = \<lparr>pik_user_key = u, pik_sequence = seq, pik_type = t\<rparr>"

definition InternalKeyEncodingLength :: "parsed_ikey \<Rightarrow> nat" where
  "InternalKeyEncodingLength key = length (pik_user_key key) + 8"

definition PackSequenceAndType :: "u64 \<Rightarrow> u8 \<Rightarrow> u64" where
  "PackSequenceAndType seq t = push_bit 8 seq OR ucast t"

definition AppendInternalKey :: "slice \<Rightarrow> parsed_ikey \<Rightarrow> slice" where
  "AppendInternalKey result key =
     PutFixed64 (result @ pik_user_key key) (PackSequenceAndType (pik_sequence key) (pik_type key))"

definition ExtractUserKey :: "slice \<Rightarrow> slice" where
  "ExtractUserKey internal_key = take (length internal_key - 8) internal_key"

text \<open>The number in the last eight bytes.\<close>

definition ikey_num :: "slice \<Rightarrow> u64" where
  "ikey_num internal_key = DecodeFixed64 (drop (length internal_key - 8) internal_key)"

definition ExtractValueType :: "slice \<Rightarrow> u8" where
  "ExtractValueType internal_key = ucast (ikey_num internal_key AND 0xff)"

text \<open>\<open>None\<close> where the source returns \<^verbatim>\<open>false\<close>.\<close>

definition ParseInternalKey :: "slice \<Rightarrow> parsed_ikey option" where
  "ParseInternalKey internal_key =
     (let n = length internal_key in
      if n < 8 then None
      else let num = ikey_num internal_key; c = ucast (num AND 0xff) :: u8;
          result = \<lparr>pik_user_key = take (n - 8) internal_key, pik_sequence = drop_bit 8 num, pik_type = c\<rparr>
        in if c \<le> kTypeValue then Some result else None)"

definition ParsedInternalKey_DebugString :: "parsed_ikey \<Rightarrow> slice" where
  "ParsedInternalKey_DebugString key =
     str [CHR 0x27] @ EscapeString (pik_user_key key)
       @ str (CHR 0x27 # '' @ '') @ decimal (unat (pik_sequence key)) @ str '' : '' @ decimal (unat (pik_type key))"

text \<open>The class \<^verbatim>\<open>InternalKey\<close> is its string.\<close>

definition InternalKey :: "slice \<Rightarrow> u64 \<Rightarrow> u8 \<Rightarrow> slice" where
  "InternalKey user_key s t = AppendInternalKey [] (ParsedInternalKey user_key s t)"

definition InternalKey_DebugString :: "slice \<Rightarrow> slice" where
  "InternalKey_DebugString rep =
     (case ParseInternalKey rep of
        Some parsed \<Rightarrow> ParsedInternalKey_DebugString parsed
      | None \<Rightarrow> str ''(bad)'' @ EscapeString rep)"

section \<open>Comparators and filters\<close>

record comparator_ops =
  cmp_Name :: slice
  cmp_Compare :: "slice \<Rightarrow> slice \<Rightarrow> int"
  cmp_FindShortestSeparator :: "slice \<Rightarrow> slice \<Rightarrow> slice"
  cmp_FindShortSuccessor :: "slice \<Rightarrow> slice"

definition BytewiseComparator :: comparator_ops where
  "BytewiseComparator =
     \<lparr>cmp_Name = Bytewise_Name, cmp_Compare = Bytewise_Compare, cmp_FindShortestSeparator = FindShortestSeparator,
      cmp_FindShortSuccessor = FindShortSuccessor\<rparr>"

definition ikey_Name :: slice where
  "ikey_Name = str ''leveldb.InternalKeyComparator''"

definition ikey_Compare :: "comparator_ops \<Rightarrow> slice \<Rightarrow> slice \<Rightarrow> int" where
  "ikey_Compare u akey bkey =
     (let r = cmp_Compare u (ExtractUserKey akey) (ExtractUserKey bkey) in
      if r = 0 then
        let anum = ikey_num akey; bnum = ikey_num bkey in if anum > bnum then -1 else if anum < bnum then 1 else r
      else r)"

definition ikey_FindShortestSeparator :: "comparator_ops \<Rightarrow> slice \<Rightarrow> slice \<Rightarrow> slice" where
  "ikey_FindShortestSeparator u start limit =
     (let user_start = ExtractUserKey start; user_limit = ExtractUserKey limit;
          tmp = cmp_FindShortestSeparator u user_start user_limit
      in if length tmp < length user_start \<and> cmp_Compare u user_start tmp < 0
         then PutFixed64 tmp (PackSequenceAndType kMaxSequenceNumber kValueTypeForSeek) else start)"

definition ikey_FindShortSuccessor :: "comparator_ops \<Rightarrow> slice \<Rightarrow> slice" where
  "ikey_FindShortSuccessor u key =
     (let user_key = ExtractUserKey key; tmp = cmp_FindShortSuccessor u user_key
      in if length tmp < length user_key \<and> cmp_Compare u user_key tmp < 0
         then PutFixed64 tmp (PackSequenceAndType kMaxSequenceNumber kValueTypeForSeek) else key)"

definition InternalKeyComparator :: "comparator_ops \<Rightarrow> comparator_ops" where
  "InternalKeyComparator u =
     \<lparr>cmp_Name = ikey_Name, cmp_Compare = ikey_Compare u, cmp_FindShortestSeparator = ikey_FindShortestSeparator u,
      cmp_FindShortSuccessor = ikey_FindShortSuccessor u\<rparr>"

text \<open>
  A filter policy: the operation that creates a filter is given the array of keys, which it may overwrite, and
  the string to append to, and returns both.
\<close>

record filter_policy_ops =
  fp_Name :: slice
  fp_CreateFilter :: "slice list \<Rightarrow> slice \<Rightarrow> slice list \<times> slice"
  fp_KeyMayMatch :: "slice \<Rightarrow> slice \<Rightarrow> bool"

definition bloom_policy_ops :: "bloom_policy \<Rightarrow> filter_policy_ops" where
  "bloom_policy_ops p =
     \<lparr>fp_Name = Bloom_Name, fp_CreateFilter = \<lambda>keys dst. (keys, CreateFilter p keys dst), fp_KeyMayMatch = KeyMayMatch\<rparr>"

definition ifp_CreateFilter :: "filter_policy_ops \<Rightarrow> slice list \<Rightarrow> slice \<Rightarrow> slice list \<times> slice" where
  "ifp_CreateFilter user keys dst = fp_CreateFilter user (map ExtractUserKey keys) dst"

definition ifp_KeyMayMatch :: "filter_policy_ops \<Rightarrow> slice \<Rightarrow> slice \<Rightarrow> bool" where
  "ifp_KeyMayMatch user key f = fp_KeyMayMatch user (ExtractUserKey key) f"

definition InternalFilterPolicy :: "filter_policy_ops \<Rightarrow> filter_policy_ops" where
  "InternalFilterPolicy user =
     \<lparr>fp_Name = fp_Name user, fp_CreateFilter = ifp_CreateFilter user, fp_KeyMayMatch = ifp_KeyMayMatch user\<rparr>"

section \<open>Lookup keys\<close>

text \<open>The array with the offsets of \<^verbatim>\<open>kstart_\<close> and \<^verbatim>\<open>end_\<close> from \<^verbatim>\<open>start_\<close>.\<close>

record lookup_key =
  lk_start :: slice
  lk_kstart :: nat

definition LookupKey :: "slice \<Rightarrow> u64 \<Rightarrow> lookup_key" where
  "LookupKey user_key s =
     (let prefix = EncodeVarint32 (of_nat (length user_key + 8))
      in \<lparr>lk_start = prefix @ user_key @ EncodeFixed64 (PackSequenceAndType s kValueTypeForSeek), lk_kstart = length prefix\<rparr>)"

definition lk_memtable_key :: "lookup_key \<Rightarrow> slice" where
  "lk_memtable_key k = lk_start k"
definition lk_internal_key :: "lookup_key \<Rightarrow> slice" where
  "lk_internal_key k = drop (lk_kstart k) (lk_start k)"
definition lk_user_key :: "lookup_key \<Rightarrow> slice" where
  "lk_user_key k = (let n = length (lk_start k) - lk_kstart k in take (n - 8) (drop (lk_kstart k) (lk_start k)))"

section \<open>Packing\<close>

lemma unat_Pack:
  assumes "seq \<le> kMaxSequenceNumber"
  shows "unat (PackSequenceAndType seq t) = unat seq * 256 + unat t"
proof -
  have s: "unat seq < 2 ^ 56" using assms by (simp add: kMaxSequenceNumber_def word_le_nat_alt)
  have disj: "push_bit 8 seq AND (ucast t :: u64) = 0"
    by (rule bit_word_eqI) (auto simp: bit_simps dest: bit_imp_le_length)
  have "unat (push_bit 8 seq) = unat seq * 256"
    using s by (simp add: push_bit_eq_mult unat_word_ariths)
  moreover have "unat (ucast t :: u64) = unat t" using unsigned_less [of t, where 'a = nat]
    by (simp add: unsigned_ucast_eq take_bit_nat_eq_self)
  moreover have "push_bit 8 seq OR ucast t = push_bit 8 seq + (ucast t :: u64)"
    using disj by (simp add: disjunctive_add_eq_or)
  ultimately show ?thesis
    using s unsigned_less [of t, where 'a = nat] by (simp add: PackSequenceAndType_def unat_word_ariths)
qed

lemma and_0xff: "w AND 0xff = take_bit 8 w" for w :: u64
  by (simp add: take_bit_eq_mask mask_eq_exp_minus_1)

lemma Pack_parts:
  assumes "seq \<le> kMaxSequenceNumber"
  shows "drop_bit 8 (PackSequenceAndType seq t) = seq" and "ucast (PackSequenceAndType seq t AND 0xff) = t"
proof -
  have "unat (drop_bit 8 (PackSequenceAndType seq t)) = unat seq"
    using unsigned_less [of t, where 'a = nat]
    by (simp add: drop_bit_eq_div unat_div unat_Pack [OF assms])
  then show "drop_bit 8 (PackSequenceAndType seq t) = seq" by (simp add: word_unat_eq_iff)
  show "ucast (PackSequenceAndType seq t AND 0xff) = t"
    by (rule bit_word_eqI) (auto simp: bit_simps PackSequenceAndType_def and_0xff)
qed

lemma unpack: "PackSequenceAndType (drop_bit 8 num) (ucast (num AND 0xff)) = num"
  by (rule bit_word_eqI) (auto simp: bit_simps PackSequenceAndType_def and_0xff)

section \<open>Internal keys\<close>

lemma EncodeFixed64_Decode: "length p = 8 \<Longrightarrow> EncodeFixed64 (DecodeFixed64 p) = p"
  using word_to_le_of_le [of p, where 'a = 64] by (simp add: EncodeFixed64_def DecodeFixed64_def del: word_to_le.simps)

lemma ikey_parts [simp]:
  "ExtractUserKey (PutFixed64 u num) = u" "ikey_num (PutFixed64 u num) = num" "length (PutFixed64 u num) = length u + 8"
  using DecodeFixed64_Encode [of num "[]"] by (simp_all add: ExtractUserKey_def ikey_num_def PutFixed64_def)

lemma ikey_split: "8 \<le> length k \<Longrightarrow> k = PutFixed64 (ExtractUserKey k) (ikey_num k)"
  by (simp add: ExtractUserKey_def ikey_num_def PutFixed64_def EncodeFixed64_Decode)

lemma ikey_eq: "8 \<le> length a \<Longrightarrow> 8 \<le> length b \<Longrightarrow>
    a = b \<longleftrightarrow> ExtractUserKey a = ExtractUserKey b \<and> ikey_num a = ikey_num b"
  by (metis ikey_split)

lemma ParseInternalKey_Append:
  assumes "pik_sequence key \<le> kMaxSequenceNumber" and "pik_type key \<le> kTypeValue"
  shows "ParseInternalKey (AppendInternalKey [] key) = Some key"
  using assms ikey_parts [of "pik_user_key key"]
  by (simp add: ParseInternalKey_def AppendInternalKey_def Let_def Pack_parts ExtractUserKey_def)

lemma Append_ParseInternalKey: "ParseInternalKey k = Some key \<Longrightarrow> AppendInternalKey [] key = k \<and> pik_type key \<le> kTypeValue"
  using ikey_split [of k]
  by (auto simp: ParseInternalKey_def AppendInternalKey_def Let_def unpack ExtractUserKey_def split: if_splits)

lemma LookupKey_parts [simp]:
  "lk_user_key (LookupKey u s) = u" "lk_internal_key (LookupKey u s) = InternalKey u s kValueTypeForSeek"
  "lk_memtable_key (LookupKey u s) = EncodeVarint32 (of_nat (length u + 8)) @ InternalKey u s kValueTypeForSeek"
  by (simp_all add: LookupKey_def lk_user_key_def lk_internal_key_def lk_memtable_key_def Let_def InternalKey_def
      AppendInternalKey_def ParsedInternalKey_def PutFixed64_def)

section \<open>The order of internal keys\<close>

locale user_comparator =
  comparator "\<lambda>_. True" "cmp_Compare u" "cmp_FindShortestSeparator u" "cmp_FindShortSuccessor u"
  for u :: comparator_ops
begin

lemma ikey_Compare_less:
  "ikey_Compare u a b < 0 \<longleftrightarrow> cmp_Compare u (ExtractUserKey a) (ExtractUserKey b) < 0
     \<or> ExtractUserKey a = ExtractUserKey b \<and> ikey_num b < ikey_num a"
  using equal [of "ExtractUserKey a" "ExtractUserKey b"]
  by (cases "ExtractUserKey a = ExtractUserKey b") (simp_all add: ikey_Compare_def Let_def)

lemma ikey_Compare_greater: "ikey_Compare u a b > 0 \<longleftrightarrow> ikey_Compare u b a < 0"
  using equal [of "ExtractUserKey a" "ExtractUserKey b"] equal [of "ExtractUserKey b" "ExtractUserKey a"]
    swap [of "ExtractUserKey b" "ExtractUserKey a"]
  by (cases "ExtractUserKey a = ExtractUserKey b") (auto simp: ikey_Compare_def Let_def)

lemma ikey_Compare_0: "8 \<le> length a \<Longrightarrow> 8 \<le> length b \<Longrightarrow> ikey_Compare u a b = 0 \<longleftrightarrow> a = b"
  using equal [of "ExtractUserKey a" "ExtractUserKey b"] ikey_eq [of a b]
  by (cases "ExtractUserKey a = ExtractUserKey b") (auto simp: ikey_Compare_def Let_def)

lemma ikey_Compare_le: "8 \<le> length a \<Longrightarrow> 8 \<le> length b \<Longrightarrow> ikey_Compare u a b \<le> 0 \<longleftrightarrow> ikey_Compare u a b < 0 \<or> a = b"
  using ikey_Compare_0 [of a b] by auto

end

sublocale user_comparator \<subseteq> ikey: key_order "\<lambda>k. 8 \<le> length k" "ikey_Compare u"
proof
  fix a b c :: slice
  assume "8 \<le> length a" "8 \<le> length b"
  then show "ikey_Compare u a b = 0 \<longleftrightarrow> a = b" by (rule ikey_Compare_0)
  show "ikey_Compare u a b < 0 \<longleftrightarrow> ikey_Compare u b a > 0" by (simp add: ikey_Compare_greater)
  show "ikey_Compare u a b < 0 \<Longrightarrow> ikey_Compare u b c < 0 \<Longrightarrow> ikey_Compare u a c < 0"
    using trans [of "ExtractUserKey a" "ExtractUserKey b" "ExtractUserKey c"] by (auto simp: ikey_Compare_less)
qed

context user_comparator
begin

lemma ikey_order: "key_order (\<lambda>k. 8 \<le> length k) (ikey_Compare u)"
  by (rule ikey.key_order_axioms)

lemma ikey_succeeds:
  "8 \<le> length k \<Longrightarrow> 8 \<le> length (ikey_FindShortSuccessor u k) \<and> ikey_Compare u k (ikey_FindShortSuccessor u k) \<le> 0"
  by (auto simp: ikey_FindShortSuccessor_def Let_def ikey_Compare_le ikey_Compare_less)

text \<open>
  For two internal keys with the same user key the comparator asks for a separator of that key and itself. The user's
  comparator promises nothing about it; leaving the key as it is does no harm.
\<close>

definition leaves_key :: "slice \<Rightarrow> bool" where
  "leaves_key key \<longleftrightarrow> cmp_FindShortestSeparator u key key = key"

lemma ikey_separates:
  assumes "8 \<le> length a" and "8 \<le> length b" and less: "ikey_Compare u a b < 0"
    and same: "ExtractUserKey a = ExtractUserKey b \<Longrightarrow> leaves_key (ExtractUserKey a)"
  shows "8 \<le> length (ikey_FindShortestSeparator u a b) \<and> ikey_Compare u a (ikey_FindShortestSeparator u a b) \<le> 0
     \<and> ikey_Compare u (ikey_FindShortestSeparator u a b) b < 0"
proof -
  define s where "s = cmp_FindShortestSeparator u (ExtractUserKey a) (ExtractUserKey b)"
  have "cmp_Compare u s (ExtractUserKey b) < 0" if "cmp_Compare u (ExtractUserKey a) s < 0"
    using separates [of "ExtractUserKey a" "ExtractUserKey b"] same less that
    by (auto simp: ikey_Compare_less s_def leaves_key_def)
  with less assms(1) show ?thesis
    by (auto simp: ikey_FindShortestSeparator_def Let_def ikey_Compare_le ikey_Compare_less simp flip: s_def)
qed

end

text \<open>For a comparator that leaves every key alone, the comparator of internal keys keeps the whole contract.\<close>

locale steady_comparator = user_comparator +
  assumes separator_same: "cmp_FindShortestSeparator u key key = key"

sublocale steady_comparator \<subseteq> ikey_full:
  comparator "\<lambda>k. 8 \<le> length k" "ikey_Compare u" "ikey_FindShortestSeparator u" "ikey_FindShortSuccessor u"
  using ikey_separates ikey_succeeds by unfold_locales (auto simp: leaves_key_def separator_same)

lemma FindShortestSeparator_same: "FindShortestSeparator a a = a"
proof -
  have "diff_index a a = length a" by (induction a) auto
  then show ?thesis by (simp add: FindShortestSeparator_def)
qed

interpretation bytewise_user: user_comparator BytewiseComparator
  using bytewise.comparator_axioms by (simp add: user_comparator_def BytewiseComparator_def)

interpretation bytewise_steady: steady_comparator BytewiseComparator
  by unfold_locales (simp add: BytewiseComparator_def FindShortestSeparator_same)

section \<open>Filters of internal keys\<close>

text \<open>What a filter policy promises for a number of keys it can handle: a filter matches the keys it was created from.\<close>

locale filter_policy =
  fixes handles :: "nat \<Rightarrow> bool" and p :: filter_policy_ops
  assumes no_false_negatives: "handles (length keys) \<Longrightarrow> key \<in> set keys \<Longrightarrow>
      fp_KeyMayMatch p key (drop (length dst) (snd (fp_CreateFilter p keys dst)))"

locale user_filter_policy = filter_policy

sublocale user_filter_policy \<subseteq> internal: filter_policy handles "InternalFilterPolicy p"
proof
  fix keys dst and key :: slice
  assume "handles (length keys)" "key \<in> set keys"
  then show "fp_KeyMayMatch (InternalFilterPolicy p) key (drop (length dst) (snd (fp_CreateFilter (InternalFilterPolicy p) keys dst)))"
    using no_false_negatives [of "map ExtractUserKey keys" "ExtractUserKey key" dst]
    by (simp add: InternalFilterPolicy_def ifp_CreateFilter_def ifp_KeyMayMatch_def)
qed

interpretation bloom: user_filter_policy "\<lambda>n. n * unat bits_per_key + 7 < 2 ^ 64" "bloom_policy_ops (BloomFilterPolicy bits_per_key product)"
  for bits_per_key product
  by unfold_locales (simp add: bloom_policy_ops_def CreateFilter_matches [OF _ refl])

end
