(* ===== verification/Ldb_Memtable.thy ===== *)
theory Ldb_Memtable
  imports Ldb_Skiplist_Ops Ldb_Dbformat
begin

text \<open>
  The memtable (\<^verbatim>\<open>db/memtable.cc\<close>): a skip list of entries. An entry is the array of its bytes, with the internal
  key and the value behind their lengths; \<^verbatim>\<open>const char*\<close> is the list of the bytes from the pointer on. The memory
  of the arena is not modelled beyond the nodes of the list.
\<close>

section \<open>Entries\<close>

text \<open>
  The slice at a pointer, with the bytes behind it. The source assumes that the five bytes at the pointer hold a
  length; without one the pointer is \<^verbatim>\<open>NULL\<close> and nothing can be said of the slice.
\<close>

definition mem_GetLengthPrefixedSlice :: "slice \<Rightarrow> slice \<times> slice" where
  "mem_GetLengthPrefixedSlice data =
     (case GetVarint32Ptr (take 5 data) of
        None \<Rightarrow> ([], [])
      | Some (len, rest) \<Rightarrow>
          let p = drop (length (take 5 data) - length rest) data in (take (unat len) p, drop (unat len) p))"

definition mem_KeyComparator :: "comparator_ops \<Rightarrow> slice \<Rightarrow> slice \<Rightarrow> int" where
  "mem_KeyComparator u aptr bptr =
     ikey_Compare u (fst (mem_GetLengthPrefixedSlice aptr)) (fst (mem_GetLengthPrefixedSlice bptr))"

definition EncodeKey :: "slice \<Rightarrow> slice" where
  "EncodeKey target = PutVarint32 [] (of_nat (length target)) @ target"

section \<open>The table\<close>

record memtable =
  mt_comparator :: comparator_ops
  mt_refs :: int
  mt_table :: "slice skiplist"

definition MemTable_new :: "comparator_ops \<Rightarrow> memtable" where
  "MemTable_new u = \<lparr>mt_comparator = u, mt_refs = 0, mt_table = SkipList_new []\<rparr>"

definition mem_Ref :: "memtable \<Rightarrow> memtable" where
  "mem_Ref m = m\<lparr>mt_refs := mt_refs m + 1\<rparr>"

text \<open>The second component says whether the table is deleted.\<close>

definition mem_Unref :: "memtable \<Rightarrow> memtable \<times> bool" where
  "mem_Unref m = (let m' = m\<lparr>mt_refs := mt_refs m - 1\<rparr> in (m', mt_refs m' \<le> 0))"

text \<open>The bytes of an entry.\<close>

definition mem_entry :: "u64 \<Rightarrow> u8 \<Rightarrow> slice \<Rightarrow> slice \<Rightarrow> slice" where
  "mem_entry s t key val =
     EncodeVarint32 (of_nat (length key + 8)) @ key @ EncodeFixed64 (push_bit 8 s OR ucast t)
       @ EncodeVarint32 (of_nat (length val)) @ val"

definition mem_Add :: "memtable \<Rightarrow> u64 \<Rightarrow> u8 \<Rightarrow> slice \<Rightarrow> slice \<Rightarrow> memtable option" where
  "mem_Add m s t key val =
     map_option (\<lambda>table. m\<lparr>mt_table := table\<rparr>)
       (SkipList_Insert (mem_KeyComparator (mt_comparator m)) (mt_table m) (mem_entry s t key val))"

text \<open>
  A lookup: \<open>None\<close> inside is \<^verbatim>\<open>false\<close>, else the value or the status \<^verbatim>\<open>NotFound\<close>.
\<close>

definition mem_Get :: "memtable \<Rightarrow> lookup_key \<Rightarrow> (status + slice) option option" where
  "mem_Get m key = do {
     iter \<leftarrow> SkipListIter_Seek (mem_KeyComparator (mt_comparator m)) (mt_table m) (lk_memtable_key key);
     if SkipListIter_Valid iter then do {
       entry \<leftarrow> SkipListIter_key (mt_table m) iter;
       (key_length, rest) \<leftarrow> GetVarint32Ptr (take 5 entry);
       let key_ptr = drop (length (take 5 entry) - length rest) entry;
       if cmp_Compare (mt_comparator m) (take (unat (key_length - 8)) key_ptr) (lk_user_key key) = 0 then
         let tag = DecodeFixed64 (drop (unat key_length - 8) key_ptr); ty = ucast (tag AND 0xff) :: u8 in
         if ty = kTypeValue then Some (Some (Inr (fst (mem_GetLengthPrefixedSlice (drop (unat key_length) key_ptr)))))
         else if ty = kTypeDeletion then Some (Some (Inl (Status_NotFound [] [])))
         else Some None
       else Some None
     } else Some None
   }"

section \<open>Iterators\<close>

definition MemTableIterator_Seek :: "memtable \<Rightarrow> slice \<Rightarrow> sl_iterator option" where
  "MemTableIterator_Seek m k = SkipListIter_Seek (mem_KeyComparator (mt_comparator m)) (mt_table m) (EncodeKey k)"
definition MemTableIterator_SeekToFirst :: "memtable \<Rightarrow> sl_iterator option" where
  "MemTableIterator_SeekToFirst m = SkipListIter_SeekToFirst (mt_table m)"
definition MemTableIterator_SeekToLast :: "memtable \<Rightarrow> sl_iterator option" where
  "MemTableIterator_SeekToLast m = SkipListIter_SeekToLast (mt_table m)"
definition MemTableIterator_Next :: "memtable \<Rightarrow> sl_iterator \<Rightarrow> sl_iterator option" where
  "MemTableIterator_Next m it = SkipListIter_Next (mt_table m) it"
definition MemTableIterator_Prev :: "memtable \<Rightarrow> sl_iterator \<Rightarrow> sl_iterator option" where
  "MemTableIterator_Prev m it = SkipListIter_Prev (mem_KeyComparator (mt_comparator m)) (mt_table m) it"
definition MemTableIterator_key :: "memtable \<Rightarrow> sl_iterator \<Rightarrow> slice option" where
  "MemTableIterator_key m it = map_option (\<lambda>e. fst (mem_GetLengthPrefixedSlice e)) (SkipListIter_key (mt_table m) it)"
definition MemTableIterator_value :: "memtable \<Rightarrow> sl_iterator \<Rightarrow> slice option" where
  "MemTableIterator_value m it =
     map_option (\<lambda>e. fst (mem_GetLengthPrefixedSlice (snd (mem_GetLengthPrefixedSlice e)))) (SkipListIter_key (mt_table m) it)"

section \<open>The order of entries\<close>

lemma GetVarint32Ptr_take5: "GetVarint32Ptr (take 5 (EncodeVarint32 v @ rest)) = Some (v, take (5 - length (EncodeVarint32 v)) rest)"
  using GetVarint32_Encode [of v "take (5 - length (EncodeVarint32 v)) rest"] length_EncodeVarint32 [of v]
  by (simp add: GetVarint32_def)

lemma mem_slice [simp]:
  assumes "length k < 2 ^ 32"
  shows "mem_GetLengthPrefixedSlice (EncodeVarint32 (of_nat (length k)) @ k @ rest) = (k, rest)"
proof -
  have "unat (of_nat (length k) :: u32) = length k" using assms by (simp add: unat_of_nat)
  moreover have "length (take 5 (EncodeVarint32 (of_nat (length k)) @ k @ rest))
      - length (take (5 - length (EncodeVarint32 (of_nat (length k)))) (k @ rest)) = length (EncodeVarint32 (of_nat (length k)))"
    using length_EncodeVarint32 [of "of_nat (length k)"] by auto
  ultimately show ?thesis
    unfolding mem_GetLengthPrefixedSlice_def GetVarint32Ptr_take5 by (simp add: Let_def)
qed

text \<open>Entries and search keys begin with an internal key behind its length.\<close>

definition mem_valid :: "slice \<Rightarrow> bool" where
  "mem_valid e \<longleftrightarrow> (\<exists>k rest. e = EncodeVarint32 (of_nat (length k)) @ k @ rest \<and> 8 \<le> length k \<and> length k < 2 ^ 32)"

lemma mem_valid_key: "mem_valid e \<Longrightarrow> 8 \<le> length (fst (mem_GetLengthPrefixedSlice e))"
  by (auto simp: mem_valid_def simp del: append_assoc)

sublocale user_comparator \<subseteq> mem: compare_order mem_valid "mem_KeyComparator u"
proof
  fix a b c
  assume "mem_valid a" "mem_valid b"
  then have l: "8 \<le> length (fst (mem_GetLengthPrefixedSlice a))" "8 \<le> length (fst (mem_GetLengthPrefixedSlice b))"
    by (simp_all add: mem_valid_key)
  show "mem_KeyComparator u a b < 0 \<longleftrightarrow> mem_KeyComparator u b a > 0"
    unfolding mem_KeyComparator_def using l by (rule ikey.order_swap)
  assume "mem_valid c" "mem_KeyComparator u a b \<le> 0" "mem_KeyComparator u b c \<le> 0"
  then show "mem_KeyComparator u a c \<le> 0"
    unfolding mem_KeyComparator_def using ikey.order_trans [OF l] mem_valid_key by blast
qed

end
