(* ===== verification/Ldb_Memtable_Spec.thy ===== *)
theory Ldb_Memtable_Spec
  imports Ldb_Memtable
begin

text \<open>
  What a memtable stands for: the writes that were added to it. A lookup with a sequence number finds the last
  write to the key up to that number.
\<close>

section \<open>Writes\<close>

type_synonym mem_write = "u64 \<times> u8 \<times> slice \<times> slice"

definition write_ok :: "mem_write \<Rightarrow> bool" where
  "write_ok w \<longleftrightarrow> (case w of (s, t, k, v) \<Rightarrow>
     s \<le> kMaxSequenceNumber \<and> t \<le> kTypeValue \<and> length k + 8 < 2 ^ 32 \<and> length v < 2 ^ 32)"

definition write_entry :: "mem_write \<Rightarrow> slice" where
  "write_entry w = (case w of (s, t, k, v) \<Rightarrow> mem_entry s t k v)"

text \<open>Adding a sequence of writes.\<close>

fun mem_adds :: "memtable \<Rightarrow> mem_write list \<Rightarrow> memtable option" where
  "mem_adds m [] = Some m"
| "mem_adds m ((s, t, k, v) # ws) = mem_Add m s t k v \<bind> (\<lambda>m'. mem_adds m' ws)"

text \<open>The last write to a key up to a sequence number, and what a lookup makes of it.\<close>

definition visible :: "slice \<Rightarrow> u64 \<Rightarrow> mem_write \<Rightarrow> bool" where
  "visible key snapshot w \<longleftrightarrow> (case w of (s, t, k, v) \<Rightarrow> k = key \<and> s \<le> snapshot)"

definition last_write :: "mem_write list \<Rightarrow> slice \<Rightarrow> u64 \<Rightarrow> (status + slice) option" where
  "last_write ws key snapshot =
     (case rev (filter (visible key snapshot) ws) of
        [] \<Rightarrow> None
      | (s, t, k, v) # _ \<Rightarrow> Some (if t = kTypeValue then Inr v else Inl (Status_NotFound [] [])))"

section \<open>Entries of writes\<close>

lemma mem_entry_InternalKey:
  "mem_entry s t k v = EncodeVarint32 (of_nat (length (InternalKey k s t))) @ InternalKey k s t @ EncodeVarint32 (of_nat (length v)) @ v"
  by (simp add: mem_entry_def InternalKey_def AppendInternalKey_def ParsedInternalKey_def PutFixed64_def PackSequenceAndType_def)

lemma InternalKey_parts [simp]:
  "length (InternalKey k s t) = length k + 8" "ExtractUserKey (InternalKey k s t) = k"
  "ikey_num (InternalKey k s t) = PackSequenceAndType s t"
  by (simp_all add: InternalKey_def AppendInternalKey_def ParsedInternalKey_def)

lemma mem_slice_entry [simp]:
  "write_ok (s, t, k, v) \<Longrightarrow>
   mem_GetLengthPrefixedSlice (mem_entry s t k v) = (InternalKey k s t, EncodeVarint32 (of_nat (length v)) @ v)"
  unfolding mem_entry_InternalKey by (subst mem_slice) (auto simp: write_ok_def)

lemma mem_valid_entry: "write_ok (s, t, k, v) \<Longrightarrow> mem_valid (mem_entry s t k v)"
  unfolding mem_entry_InternalKey mem_valid_def by (intro exI conjI, rule refl) (auto simp: write_ok_def)

lemma lookup_valid:
  assumes "length k + 8 < 2 ^ 32"
  shows "mem_valid (lk_memtable_key (LookupKey k s))"
    and "mem_GetLengthPrefixedSlice (lk_memtable_key (LookupKey k s)) = (InternalKey k s kValueTypeForSeek, [])"
proof -
  have e: "lk_memtable_key (LookupKey k s)
      = EncodeVarint32 (of_nat (length (InternalKey k s kValueTypeForSeek))) @ InternalKey k s kValueTypeForSeek @ []" by simp
  show "mem_valid (lk_memtable_key (LookupKey k s))"
    unfolding e mem_valid_def by (intro exI conjI, rule refl) (use assms in auto)
  show "mem_GetLengthPrefixedSlice (lk_memtable_key (LookupKey k s)) = (InternalKey k s kValueTypeForSeek, [])"
    unfolding e by (rule mem_slice) (use assms in simp)
qed

lemma Pack_le:
  assumes "s \<le> kMaxSequenceNumber" and "s' \<le> kMaxSequenceNumber"
  shows "PackSequenceAndType s t \<le> PackSequenceAndType s' t' \<longleftrightarrow> s < s' \<or> s = s' \<and> t \<le> t'"
proof -
  have "unat s * 256 + unat t \<le> unat s' * 256 + unat t' \<longleftrightarrow> unat s < unat s' \<or> unat s = unat s' \<and> unat t \<le> unat t'"
    using unsigned_less [of t, where ?'a = nat] unsigned_less [of t', where ?'a = nat] by auto
  then show ?thesis using assms by (simp add: word_le_nat_alt word_less_nat_alt unat_Pack word_unat_eq_iff)
qed

lemma Pack_seek: "s \<le> kMaxSequenceNumber \<Longrightarrow> s' \<le> kMaxSequenceNumber \<Longrightarrow> t \<le> kTypeValue \<Longrightarrow>
    PackSequenceAndType s t \<le> PackSequenceAndType s' kValueTypeForSeek \<longleftrightarrow> s \<le> s'"
  by (auto simp: Pack_le kValueTypeForSeek_def)

section \<open>What a table holds\<close>

definition mem_holds :: "comparator_ops \<Rightarrow> memtable \<Rightarrow> mem_write list \<Rightarrow> bool" where
  "mem_holds u m ws \<longleftrightarrow> mt_comparator m = u \<and> (\<forall>w\<in>set ws. write_ok w)
     \<and> (\<exists>es. represents mem_valid (mem_KeyComparator u) (mt_table m) es \<and> set es = write_entry ` set ws)"

lemma mem_holds_new: "mem_holds u (MemTable_new u) []"
  using represents_new by (fastforce simp: mem_holds_def MemTable_new_def)

lemma set_insert_key: "set (insert_key cmp k ks) = insert k (set ks)"
  using set_append [of "takeWhile (\<lambda>x. cmp x k < 0) ks" "dropWhile (\<lambda>x. cmp x k < 0) ks"] by (simp add: insert_key_def)

context user_comparator
begin

lemma mem_KeyComparator_entries:
  assumes "write_ok (s, t, k, v)" and "write_ok (s', t', k', v')"
  shows "mem_KeyComparator u (mem_entry s t k v) (mem_entry s' t' k' v') < 0 \<longleftrightarrow>
     cmp_Compare u k k' < 0 \<or> k = k' \<and> PackSequenceAndType s' t' < PackSequenceAndType s t"
    and "mem_KeyComparator u (mem_entry s t k v) (mem_entry s' t' k' v') = 0 \<longleftrightarrow>
     k = k' \<and> PackSequenceAndType s t = PackSequenceAndType s' t'"
  using assms by (simp_all add: mem_KeyComparator_def ikey_Compare_less ikey_Compare_0 ikey_eq)

lemma mem_Add_holds:
  assumes "mem_holds u m ws" and "write_ok (s, t, k, v)" and "s \<notin> fst ` set ws"
  shows "\<exists>m'. mem_Add m s t k v = Some m' \<and> mem_holds u m' (ws @ [(s, t, k, v)])"
proof -
  obtain es where m: "mt_comparator m = u" "\<forall>w\<in>set ws. write_ok w" "represents mem_valid (mem_KeyComparator u) (mt_table m) es"
    "set es = write_entry ` set ws" using assms(1) by (auto simp: mem_holds_def)
  have "mem_KeyComparator u e (mem_entry s t k v) \<noteq> 0" if "e \<in> set es" for e
  proof -
    from that m(4) obtain s' t' k' v' where w: "(s', t', k', v') \<in> set ws" "e = mem_entry s' t' k' v'"
      by (auto simp: write_entry_def)
    with m(2) have "write_ok (s', t', k', v')" by auto
    moreover from w assms(3) have "s' \<noteq> s" by force
    ultimately show ?thesis
      using assms(2) Pack_parts(1) [of s' t'] Pack_parts(1) [of s t]
      by (auto simp: w(2) mem_KeyComparator_entries(2) write_ok_def)
  qed
  with mem.represents_Insert [OF m(3) mem_valid_entry [OF assms(2)]] obtain table where
    "SkipList_Insert (mem_KeyComparator u) (mt_table m) (mem_entry s t k v) = Some table"
    "represents mem_valid (mem_KeyComparator u) table (insert_key (mem_KeyComparator u) (mem_entry s t k v) es)" by auto
  moreover have "set (insert_key (mem_KeyComparator u) (mem_entry s t k v) es) = write_entry ` set (ws @ [(s, t, k, v)])"
    by (simp add: set_insert_key m(4)) (simp add: write_entry_def)
  ultimately show ?thesis using m(1,2) assms(2) unfolding mem_Add_def mem_holds_def by auto
qed

lemma mem_adds_holds:
  assumes "mem_holds u m ws" and "\<forall>w\<in>set ws'. write_ok w" and "distinct (map fst (ws @ ws'))"
  shows "\<exists>m'. mem_adds m ws' = Some m' \<and> mem_holds u m' (ws @ ws')"
  using assms
proof (induction ws' arbitrary: m ws)
  case (Cons w ws')
  obtain s t k v where w: "w = (s, t, k, v)" by (metis prod_cases4)
  with Cons.prems obtain m1 where "mem_Add m s t k v = Some m1" "mem_holds u m1 (ws @ [w])"
    using mem_Add_holds [of m ws s t k v] by auto
  with Cons.IH [of m1 "ws @ [w]"] Cons.prems show ?case by (auto simp: w)
qed simp

section \<open>Lookups\<close>

lemma mem_KeyComparator_lookup:
  assumes "write_ok (s, t, k, v)" and "length key + 8 < 2 ^ 32" and "snapshot \<le> kMaxSequenceNumber"
  shows "mem_KeyComparator u (mem_entry s t k v) (lk_memtable_key (LookupKey key snapshot)) < 0 \<longleftrightarrow>
     cmp_Compare u k key < 0 \<or> k = key \<and> snapshot < s"
proof -
  have "PackSequenceAndType snapshot kValueTypeForSeek < PackSequenceAndType s t \<longleftrightarrow> snapshot < s"
    using Pack_seek [of s snapshot t] assms by (auto simp: write_ok_def not_le)
  then show ?thesis using assms unfolding mem_KeyComparator_def lookup_valid(2) [OF assms(2)] by (simp add: ikey_Compare_less)
qed

text \<open>What a lookup makes of the entry it finds.\<close>

lemma mem_Get_entry:
  assumes "mt_comparator m = u" and "write_ok (s, t, k, v)"
    and "SkipListIter_Seek (mem_KeyComparator u) (mt_table m) (lk_memtable_key (LookupKey key snapshot)) = Some it"
    and "SkipListIter_Valid it" and "SkipListIter_key (mt_table m) it = Some (mem_entry s t k v)"
  shows "mem_Get m (LookupKey key snapshot) =
     Some (if k = key then Some (if t = kTypeValue then Inr v else Inl (Status_NotFound [] [])) else None)"
proof -
  define rest where "rest = k @ EncodeFixed64 (PackSequenceAndType s t) @ EncodeVarint32 (of_nat (length v)) @ v"
  define n :: u32 where "n = of_nat (length k + 8)"
  have e: "mem_entry s t k v = EncodeVarint32 n @ rest"
    by (simp add: mem_entry_def rest_def n_def PackSequenceAndType_def)
  have n: "unat n = length k + 8" "unat (n - 8) = length k"
    using assms(2) by (simp_all add: n_def write_ok_def unat_of_nat unat_sub word_le_nat_alt del: of_nat_add)
  have g: "GetVarint32Ptr (take 5 (mem_entry s t k v)) = Some (n, take (5 - length (EncodeVarint32 n)) rest)"
    unfolding e by (rule GetVarint32Ptr_take5)
  have d: "drop (length (take 5 (mem_entry s t k v)) - length (take (5 - length (EncodeVarint32 n)) rest)) (mem_entry s t k v) = rest"
    using length_EncodeVarint32 [of n] unfolding e by auto
  have ty: "t = kTypeValue \<or> t = kTypeDeletion" and v: "length v < 2 ^ 32"
    using assms(2) by (auto simp: write_ok_def kTypeValue_def kTypeDeletion_def word_le_nat_alt word_unat_eq_iff)
  have tag: "ucast (PackSequenceAndType s t AND 0xff) = t" using assms(2) Pack_parts(2) [of s t] by (simp add: write_ok_def)
  have r: "take (length k) rest = k" "DecodeFixed64 (drop (length k) rest) = PackSequenceAndType s t"
    "drop (length k + 8) rest = EncodeVarint32 (of_nat (length v)) @ v" by (simp_all add: rest_def)
  have "mem_Get m (LookupKey key snapshot) =
      (if cmp_Compare u (take (unat (n - 8)) rest) key = 0 then
         let tag = DecodeFixed64 (drop (unat n - 8) rest); ty = ucast (tag AND 0xff) :: u8 in
         if ty = kTypeValue then Some (Some (Inr (fst (mem_GetLengthPrefixedSlice (drop (unat n) rest)))))
         else if ty = kTypeDeletion then Some (Some (Inl (Status_NotFound [] []))) else Some None
       else Some None)"
    unfolding mem_Get_def assms(1,3)
    by (simp add: assms(4,5) g d Let_def del: LookupKey_parts(3) length_take drop_drop)
  also have "\<dots> = (if cmp_Compare u k key = 0 then
         if t = kTypeValue then Some (Some (Inr (fst (mem_GetLengthPrefixedSlice (EncodeVarint32 (of_nat (length v)) @ v)))))
         else if t = kTypeDeletion then Some (Some (Inl (Status_NotFound [] []))) else Some None
       else Some None)"
    by (simp add: n r Let_def tag)
  finally show ?thesis using ty v equal [of k key] mem_slice [of v "[]"] by auto
qed

lemma last_write_None: "\<not> (\<exists>w\<in>set ws. visible key snapshot w) \<Longrightarrow> last_write ws key snapshot = None"
  by (auto simp: last_write_def filter_empty_conv split: list.splits)

lemma last_write_Some:
  assumes "filter (visible key snapshot) ws = ws' @ [(s, t, k, v)]"
  shows "last_write ws key snapshot = Some (if t = kTypeValue then Inr v else Inl (Status_NotFound [] []))"
  using assms by (simp add: last_write_def)

text \<open>The first entry at or after the search key is that of the last visible write.\<close>

lemma first_visible:
  assumes ok: "\<forall>w\<in>set ws. write_ok w" and "sorted_wrt (<) (map fst ws)"
    and "filter (visible key snapshot) ws = ws' @ [(s', t', key, v')]"
    and w: "(s, t, k, v) \<in> set ws" and "\<not> (cmp_Compare u k key < 0 \<or> k = key \<and> snapshot < s)"
  shows "\<not> mem_KeyComparator u (mem_entry s t k v) (mem_entry s' t' key v') < 0"
proof
  assume less: "mem_KeyComparator u (mem_entry s t k v) (mem_entry s' t' key v') < 0"
  have "(s', t', key, v') \<in> set (filter (visible key snapshot) ws)" using assms(3) by simp
  then have wl: "(s', t', key, v') \<in> set ws" by simp
  with less ok w have "cmp_Compare u k key < 0 \<or> k = key \<and> PackSequenceAndType s' t' < PackSequenceAndType s t"
    using mem_KeyComparator_entries(1) [of s t k v s' t' key v'] by auto
  with assms(5) have k: "k = key" "PackSequenceAndType s' t' < PackSequenceAndType s t" "s \<le> snapshot" by auto
  with w have "(s, t, k, v) \<in> set (filter (visible key snapshot) ws)" by (simp add: visible_def)
  then have "(s, t, k, v) \<in> set ws' \<or> (s, t, k, v) = (s', t', key, v')" unfolding assms(3) by auto
  moreover have "sorted_wrt (\<lambda>a b. fst a < fst b) (ws' @ [(s', t', key, v')])"
    using assms(2) sorted_wrt_filter [of "\<lambda>a b. fst a < fst b" ws "visible key snapshot"] by (simp add: sorted_wrt_map assms(3))
  ultimately have "s < s' \<or> s = s' \<and> t = t'" by (auto simp: sorted_wrt_append)
  then have "PackSequenceAndType s t \<le> PackSequenceAndType s' t'"
    using Pack_le [of s s' t t'] ok w wl by (auto simp: write_ok_def)
  with k(2) show False by simp
qed

lemma mem_Get_last:
  assumes "mem_holds u m ws" and "length key + 8 < 2 ^ 32" and "snapshot \<le> kMaxSequenceNumber"
    and "sorted_wrt (<) (map fst ws)"
  shows "mem_Get m (LookupKey key snapshot) = Some (last_write ws key snapshot)"
proof -
  obtain es where m: "mt_comparator m = u" "\<forall>w\<in>set ws. write_ok w" "represents mem_valid (mem_KeyComparator u) (mt_table m) es"
    "set es = write_entry ` set ws" using assms(1) by (auto simp: mem_holds_def)
  define Q where "Q = (\<lambda>e. mem_KeyComparator u e (lk_memtable_key (LookupKey key snapshot)) < 0)"
  define n where "n = length (takeWhile Q es)"
  obtain it where it: "SkipListIter_Seek (mem_KeyComparator u) (mt_table m) (lk_memtable_key (LookupKey key snapshot)) = Some it"
    "iter_at mem_valid (mem_KeyComparator u) (mt_table m) es n it"
    using mem.Seek_at [OF m(3) lookup_valid(1) [OF assms(2)], of snapshot] unfolding n_def Q_def by metis
  have Q: "Q (mem_entry s t k v) \<longleftrightarrow> cmp_Compare u k key < 0 \<or> k = key \<and> snapshot < s" if "(s, t, k, v) \<in> set ws" for s t k v
    unfolding Q_def using mem_KeyComparator_lookup [OF _ assms(2,3)] m(2) that by blast
  show ?thesis
  proof (cases "n < length es")
    case False
    then have "takeWhile Q es = es" by (metis n_def length_takeWhile_le linorder_neqE_nat not_le takeWhile_eq_take take_all_iff)
    then have "\<forall>e\<in>set es. Q e" by (simp add: takeWhile_eq_all_conv)
    then have "\<not> (\<exists>w\<in>set ws. visible key snapshot w)" using Q by (force simp: m(4) visible_def write_entry_def)
    then have "last_write ws key snapshot = None" by (simp add: last_write_None)
    moreover have "mem_Get m (LookupKey key snapshot) = Some None"
      using mem.iter_key(1) [OF it(2)] False unfolding mem_Get_def m(1) it(1) by simp
    ultimately show ?thesis by simp
  next
    case True
    then have nQ: "\<not> Q (es ! n)" unfolding n_def by (rule nth_length_takeWhile)
    have "es ! n \<in> write_entry ` set ws" using True m(4) nth_mem by blast
    then obtain s t k v where w: "(s, t, k, v) \<in> set ws" "es ! n = mem_entry s t k v" by (auto simp: write_entry_def)
    have get: "mem_Get m (LookupKey key snapshot) =
        Some (if k = key then Some (if t = kTypeValue then Inr v else Inl (Status_NotFound [] [])) else None)"
      if "(s, t, k, v) \<in> set ws" "es ! n = mem_entry s t k v" for s t k v
      using mem_Get_entry [OF m(1) _ it(1)] mem.iter_key [OF it(2)] True that m(2) by auto
    show ?thesis
    proof (cases "filter (visible key snapshot) ws" rule: rev_cases)
      case Nil
      then have "last_write ws key snapshot = None" by (simp add: last_write_def)
      moreover have "k \<noteq> key" using Nil nQ w Q [OF w(1)] by (auto simp: filter_empty_conv visible_def not_less)
      ultimately show ?thesis using get [OF w] by simp
    next
      case (snoc ws' wl)
      obtain s' t' v' where wl: "wl = (s', t', key, v')" "(s', t', key, v') \<in> set ws" "s' \<le> snapshot"
      proof -
        have "wl \<in> set (filter (visible key snapshot) ws)" unfolding snoc by simp
        with that show thesis by (cases wl) (auto simp: visible_def)
      qed
      obtain j where j: "j < length es" "es ! j = mem_entry s' t' key v'"
      proof -
        have "write_entry (s', t', key, v') \<in> set es" unfolding m(4) using wl(2) by (rule imageI)
        with that show thesis by (auto simp: write_entry_def in_set_conv_nth)
      qed
      have "\<not> Q (es ! j)" using Q [OF wl(2)] wl(3) by (simp add: j(2) refl)
      then have "n \<le> j" using j(1) takeWhile_nth [of j Q es] nth_mem [of j "takeWhile Q es"] set_takeWhileD [of _ Q es]
        unfolding n_def by (metis not_le)
      moreover have "\<not> n < j"
        using first_visible [OF m(2) assms(4) snoc [unfolded wl(1)] w(1)] nQ [unfolded w(2) Q [OF w(1)]]
          sorted_wrt_nth_less [OF mem.represents_sorted(1) [OF m(3)], of n j] j w(2) by auto
      ultimately have "es ! n = mem_entry s' t' key v'" using j(2) by simp
      with get [OF wl(2)] last_write_Some [OF snoc [unfolded wl(1)]] show ?thesis by simp
    qed
  qed
qed

end

end
