(* ===== verification/Ldb_WriteBatch.thy ===== *)
theory Ldb_WriteBatch
  imports Ldb_Memtable_Spec
begin

text \<open>
  Write batches (\<^verbatim>\<open>db/write_batch.cc\<close>). A batch is its string: a sequence number, a count and the records. A
  handler is a state with an operation for each kind of record; the operations are in the option monad like those
  of the memtable.
\<close>

section \<open>Batches\<close>

definition kHeader :: nat where "kHeader = 12"

definition WriteBatch_Clear :: slice where
  "WriteBatch_Clear = replicate kHeader 0"

definition wb_Count :: "slice \<Rightarrow> u32" where
  "wb_Count rep = DecodeFixed32 (drop 8 rep)"
definition wb_SetCount :: "slice \<Rightarrow> u32 \<Rightarrow> slice" where
  "wb_SetCount rep n = take 8 rep @ EncodeFixed32 n @ drop 12 rep"
definition wb_Sequence :: "slice \<Rightarrow> u64" where
  "wb_Sequence rep = DecodeFixed64 rep"
definition wb_SetSequence :: "slice \<Rightarrow> u64 \<Rightarrow> slice" where
  "wb_SetSequence rep seq = EncodeFixed64 seq @ drop 8 rep"

definition WriteBatch_Put :: "slice \<Rightarrow> slice \<Rightarrow> slice \<Rightarrow> slice" where
  "WriteBatch_Put rep key val =
     PutLengthPrefixedSlice (PutLengthPrefixedSlice (wb_SetCount rep (wb_Count rep + 1) @ [kTypeValue]) key) val"
definition WriteBatch_Delete :: "slice \<Rightarrow> slice \<Rightarrow> slice" where
  "WriteBatch_Delete rep key = PutLengthPrefixedSlice (wb_SetCount rep (wb_Count rep + 1) @ [kTypeDeletion]) key"

definition wb_SetContents :: "slice \<Rightarrow> slice" where
  "wb_SetContents contents = contents"

definition wb_Append :: "slice \<Rightarrow> slice \<Rightarrow> slice" where
  "wb_Append dst src = wb_SetCount dst (wb_Count dst + wb_Count src) @ drop kHeader src"

section \<open>Iteration\<close>

record 'h wb_handler =
  wh_Put :: "slice \<Rightarrow> slice \<Rightarrow> 'h \<Rightarrow> 'h option"
  wh_Delete :: "slice \<Rightarrow> 'h \<Rightarrow> 'h option"

text \<open>The loop: the status of a corruption or the number of records found, with the state of the handler.\<close>

lemma GetLengthPrefixedSlice_shorter: "length (snd (GetLengthPrefixedSlice input)) \<le> length input"
  using GetVarint32_shorter [of input]
  by (auto simp: GetLengthPrefixedSlice_def split: option.splits prod.splits intro: le_trans less_imp_le)

function wb_loop :: "'h wb_handler \<Rightarrow> u32 \<Rightarrow> slice \<Rightarrow> 'h \<Rightarrow> ((status + u32) \<times> 'h) option" where
  "wb_loop handler found [] h = Some (Inr found, h)"
| "wb_loop handler found (tag # input) h =
     (if tag = kTypeValue then
        case GetLengthPrefixedSlice input of
          (None, _) \<Rightarrow> Some (Inl (Status_Corruption (str ''bad WriteBatch Put'') []), h)
        | (Some key, input1) \<Rightarrow>
            (case GetLengthPrefixedSlice input1 of
               (None, _) \<Rightarrow> Some (Inl (Status_Corruption (str ''bad WriteBatch Put'') []), h)
             | (Some val, input2) \<Rightarrow> wh_Put handler key val h \<bind> wb_loop handler (found + 1) input2)
      else if tag = kTypeDeletion then
        case GetLengthPrefixedSlice input of
          (None, _) \<Rightarrow> Some (Inl (Status_Corruption (str ''bad WriteBatch Delete'') []), h)
        | (Some key, input1) \<Rightarrow> wh_Delete handler key h \<bind> wb_loop handler (found + 1) input1
      else Some (Inl (Status_Corruption (str ''unknown WriteBatch tag'') []), h))"
  by pat_completeness auto
termination
proof (relation "measure (\<lambda>(handler, found, input, h). length input)", goal_cases)
  case (2 handler found tag input h p input1 key p2 input2 val)
  then show ?case
    using GetLengthPrefixedSlice_shorter [of input] GetLengthPrefixedSlice_shorter [of input1]
    by (auto simp: less_Suc_eq_le dest!: sym [of _ "GetLengthPrefixedSlice _"])
next
  case (3 handler found tag input h p input1 key)
  then show ?case using GetLengthPrefixedSlice_shorter [of input]
    by (auto simp: less_Suc_eq_le dest!: sym [of _ "GetLengthPrefixedSlice _"])
qed simp

definition WriteBatch_Iterate :: "'h wb_handler \<Rightarrow> slice \<Rightarrow> 'h \<Rightarrow> (status \<times> 'h) option" where
  "WriteBatch_Iterate handler rep h =
     (if length rep < kHeader then Some (Status_Corruption (str ''malformed WriteBatch (too small)'') [], h)
      else do {
        (r, h') \<leftarrow> wb_loop handler 0 (remove_prefix kHeader rep) h;
        case r of
          Inl s \<Rightarrow> Some (s, h')
        | Inr found \<Rightarrow>
            if found \<noteq> wb_Count rep then Some (Status_Corruption (str ''WriteBatch has wrong count'') [], h')
            else Some (Status_OK, h')
      })"

section \<open>Insertion into a memtable\<close>

text \<open>The state of the inserter is its sequence number and the table.\<close>

definition MemTableInserter :: "(u64 \<times> memtable) wb_handler" where
  "MemTableInserter =
     \<lparr>wh_Put = \<lambda>key val (sequence, mem). map_option (Pair (sequence + 1)) (mem_Add mem sequence kTypeValue key val),
      wh_Delete = \<lambda>key (sequence, mem). map_option (Pair (sequence + 1)) (mem_Add mem sequence kTypeDeletion key [])\<rparr>"

definition wb_InsertInto :: "slice \<Rightarrow> memtable \<Rightarrow> (status \<times> memtable) option" where
  "wb_InsertInto rep mem =
     map_option (\<lambda>(s, sequence, mem'). (s, mem')) (WriteBatch_Iterate MemTableInserter rep (wb_Sequence rep, mem))"

section \<open>What a batch stands for\<close>

datatype batch_op = BPut slice slice | BDelete slice

fun batch_apply :: "slice \<Rightarrow> batch_op \<Rightarrow> slice" where
  "batch_apply rep (BPut k v) = WriteBatch_Put rep k v"
| "batch_apply rep (BDelete k) = WriteBatch_Delete rep k"

fun op_ok :: "batch_op \<Rightarrow> bool" where
  "op_ok (BPut k v) \<longleftrightarrow> length k < 2 ^ 32 \<and> length v < 2 ^ 32"
| "op_ok (BDelete k) \<longleftrightarrow> length k < 2 ^ 32"

fun op_bytes :: "batch_op \<Rightarrow> slice" where
  "op_bytes (BPut k v) = kTypeValue # EncodeSlice k @ EncodeSlice v"
| "op_bytes (BDelete k) = kTypeDeletion # EncodeSlice k"

fun handle_op :: "'h wb_handler \<Rightarrow> batch_op \<Rightarrow> 'h \<Rightarrow> 'h option" where
  "handle_op handler (BPut k v) h = wh_Put handler k v h"
| "handle_op handler (BDelete k) h = wh_Delete handler k h"

fun handle_ops :: "'h wb_handler \<Rightarrow> batch_op list \<Rightarrow> 'h \<Rightarrow> 'h option" where
  "handle_ops handler [] h = Some h"
| "handle_ops handler (b # bs) h = handle_op handler b h \<bind> handle_ops handler bs"

text \<open>The string of a batch with a sequence number and records.\<close>

definition batch_rep :: "u64 \<Rightarrow> batch_op list \<Rightarrow> slice" where
  "batch_rep seq ops = EncodeFixed64 seq @ EncodeFixed32 (of_nat (length ops)) @ concat (map op_bytes ops)"

lemma batch_rep_parts [simp]:
  "length (batch_rep seq ops) = 12 + length (concat (map op_bytes ops))" "wb_Sequence (batch_rep seq ops) = seq"
  "wb_Count (batch_rep seq ops) = of_nat (length ops)" "take 8 (batch_rep seq ops) = EncodeFixed64 seq"
  "drop 12 (batch_rep seq ops) = concat (map op_bytes ops)"
  by (simp_all add: batch_rep_def wb_Sequence_def wb_Count_def)

lemma batch_apply_rep: "batch_apply (batch_rep seq ops) b = batch_rep seq (ops @ [b])"
proof -
  have "wb_SetCount (batch_rep seq ops) (wb_Count (batch_rep seq ops) + 1)
      = EncodeFixed64 seq @ EncodeFixed32 (of_nat (length (ops @ [b]))) @ concat (map op_bytes ops)"
    by (simp add: wb_SetCount_def add.commute)
  then show ?thesis
    by (cases b) (simp_all add: WriteBatch_Put_def WriteBatch_Delete_def batch_rep_def PutLengthPrefixedSlice_def PutVarint32_def)
qed

lemma batch_clear_rep: "WriteBatch_Clear = batch_rep 0 []"
  by (simp add: WriteBatch_Clear_def kHeader_def batch_rep_def EncodeFixed64_def EncodeFixed32_def numeral_eq_Suc)

lemma batch_build: "foldl batch_apply (batch_rep seq ops) ops' = batch_rep seq (ops @ ops')"
  by (induction ops' arbitrary: ops) (simp_all add: batch_apply_rep)

lemma batch_append_rep: "wb_Append (batch_rep seq ops) (batch_rep seq' ops') = batch_rep seq (ops @ ops')"
  by (simp add: wb_Append_def wb_SetCount_def kHeader_def) (simp add: batch_rep_def)

lemma wb_SetSequence_batch_rep: "wb_SetSequence (batch_rep seq ops) seq' = batch_rep seq' ops"
  by (simp add: wb_SetSequence_def batch_rep_def)

lemma wb_loop_op:
  assumes "op_ok b"
  shows "wb_loop handler found (op_bytes b @ input) h = handle_op handler b h \<bind> wb_loop handler (found + 1) input"
  using assms GetLengthPrefixedSlice_Put by (cases b) (simp_all add: kTypeValue_def kTypeDeletion_def)

lemma wb_loop_ops:
  "\<forall>b\<in>set bs. op_ok b \<Longrightarrow>
   wb_loop handler found (concat (map op_bytes bs)) h = map_option (Pair (Inr (found + of_nat (length bs)))) (handle_ops handler bs h)"
proof (induction bs arbitrary: found h)
  case (Cons b bs)
  then show ?case by (cases "handle_op handler b h") (simp_all add: wb_loop_op algebra_simps)
qed simp

lemma Iterate_batch_rep:
  "\<forall>b\<in>set bs. op_ok b \<Longrightarrow> WriteBatch_Iterate handler (batch_rep seq bs) h = map_option (Pair Status_OK) (handle_ops handler bs h)"
  using wb_loop_ops [of bs handler 0 h]
  by (cases "handle_ops handler bs h") (simp_all add: WriteBatch_Iterate_def kHeader_def remove_prefix_def)

section \<open>The writes of a batch\<close>

fun numbered :: "u64 \<Rightarrow> batch_op list \<Rightarrow> mem_write list" where
  "numbered seq [] = []"
| "numbered seq (BPut k v # bs) = (seq, kTypeValue, k, v) # numbered (seq + 1) bs"
| "numbered seq (BDelete k # bs) = (seq, kTypeDeletion, k, []) # numbered (seq + 1) bs"

fun op_key :: "batch_op \<Rightarrow> slice" where
  "op_key (BPut k v) = k"
| "op_key (BDelete k) = k"

lemma handle_ops_inserter:
  "handle_ops MemTableInserter bs (seq, m) = map_option (Pair (seq + of_nat (length bs))) (mem_adds m (numbered seq bs))"
proof (induction bs arbitrary: seq m)
  case (Cons b bs)
  have "handle_op MemTableInserter b (seq, m) = map_option (Pair (seq + 1)) (mem_adds m (numbered seq [b]))"
    by (cases b) (simp_all add: MemTableInserter_def)
  moreover have "mem_adds m (numbered seq (b # bs)) = mem_adds m (numbered seq [b]) \<bind> (\<lambda>m'. mem_adds m' (numbered (seq + 1) bs))"
    by (cases b) simp_all
  ultimately show ?case
    using Cons.IH by (cases "mem_adds m (numbered seq [b])") (simp_all add: algebra_simps)
qed simp

lemma fst_numbered: "map fst (numbered seq bs) = map (\<lambda>i. seq + of_nat i) [0..<length bs]"
proof (induction seq bs rule: numbered.induct)
  case (2 seq k v bs)
  then show ?case by (simp add: upt_conv_Cons map_Suc_upt [symmetric] comp_def algebra_simps del: upt_Suc)
next
  case (3 seq k bs)
  then show ?case by (simp add: upt_conv_Cons map_Suc_upt [symmetric] comp_def algebra_simps del: upt_Suc)
qed simp

lemma seq_plus:
  assumes "unat seq + n \<le> 2 ^ 56" and "i < n"
  shows "unat (seq + of_nat i) = unat seq + i" and "seq + of_nat i \<le> kMaxSequenceNumber"
proof -
  have "i < 2 ^ 64" "unat seq + i < 2 ^ 64" using assms by auto
  then show u: "unat (seq + of_nat i) = unat seq + i" by (simp add: unat_word_ariths unat_of_nat)
  show "seq + of_nat i \<le> kMaxSequenceNumber" using assms by (simp add: kMaxSequenceNumber_def word_le_nat_alt u)
qed

lemma sorted_numbered: "unat seq + length bs \<le> 2 ^ 56 \<Longrightarrow> sorted_wrt (<) (map fst (numbered seq bs))"
  unfolding fst_numbered sorted_wrt_map
  by (rule sorted_wrt_mono_rel [OF _ sorted_wrt_upt]) (auto simp: word_less_nat_alt seq_plus(1))

lemma numbered_ok:
  assumes "unat seq + length bs \<le> 2 ^ 56" and "\<forall>b\<in>set bs. op_ok b \<and> length (op_key b) + 8 < 2 ^ 32"
  shows "\<forall>w\<in>set (numbered seq bs). write_ok w"
  using assms
proof (induction seq bs rule: numbered.induct)
  case (2 seq k v bs)
  then have "unat (seq + 1) + length bs \<le> 2 ^ 56" by (simp add: unat_word_ariths)
  with 2 show ?case using seq_plus(2) [of seq "Suc (length bs)" 0] by (auto simp: write_ok_def kTypeValue_def)
next
  case (3 seq k bs)
  then have "unat (seq + 1) + length bs \<le> 2 ^ 56" by (simp add: unat_word_ariths)
  with 3 show ?case using seq_plus(2) [of seq "Suc (length bs)" 0] by (auto simp: write_ok_def kTypeValue_def kTypeDeletion_def)
qed simp

context user_comparator
begin

lemma InsertInto_holds:
  assumes "mem_holds u m ws" and "sorted_wrt (<) (map fst ws)" and "\<forall>w\<in>set ws. fst w < seq"
    and "unat seq + length ops \<le> 2 ^ 56" and "\<forall>b\<in>set ops. op_ok b \<and> length (op_key b) + 8 < 2 ^ 32"
  shows "\<exists>m'. wb_InsertInto (batch_rep seq ops) m = Some (Status_OK, m') \<and> mem_holds u m' (ws @ numbered seq ops)
    \<and> sorted_wrt (<) (map fst (ws @ numbered seq ops))"
proof -
  have "seq \<le> s" if "s \<in> set (map fst (numbered seq ops))" for s
    using that seq_plus(1) [OF assms(4)] by (auto simp: fst_numbered word_le_nat_alt)
  then have sorted: "sorted_wrt (<) (map fst (ws @ numbered seq ops))"
    using assms(2,3) sorted_numbered [OF assms(4)] by (fastforce simp: sorted_wrt_append)
  then have "distinct (map fst (ws @ numbered seq ops))" by (rule sorted_wrt_distinct) simp
  from mem_adds_holds [OF assms(1) numbered_ok [OF assms(4,5)] this] obtain m' where
    "mem_adds m (numbered seq ops) = Some m'" "mem_holds u m' (ws @ numbered seq ops)" by blast
  moreover have "\<forall>b\<in>set ops. op_ok b" using assms(5) by blast
  ultimately show ?thesis
    using sorted by (simp add: wb_InsertInto_def Iterate_batch_rep handle_ops_inserter)
qed

end

end
