(* ===== verification/Ldb_Memtable_Props.thy ===== *)
theory Ldb_Memtable_Props
  imports Ldb_WriteBatch
begin

text \<open>The properties of internal keys, memtables and write batches, for every user comparator that keeps its contract.\<close>

section \<open>Internal keys\<close>

text \<open>
  Internal keys are parsed as they were made: a key with a sequence number below \<open>2^56\<close> and a known type is read
  back, every string that parses is the encoding of what it parses to, and strings of fewer than eight bytes or
  with another type are rejected.
\<close>
theorem internal_key_roundtrip:
  "(pik_sequence key \<le> kMaxSequenceNumber \<longrightarrow> pik_type key \<le> kTypeValue \<longrightarrow> ParseInternalKey (AppendInternalKey [] key) = Some key)
   \<and> (ParseInternalKey k = Some key \<longrightarrow> AppendInternalKey [] key = k)
   \<and> (ParseInternalKey k = None \<longleftrightarrow> length k < 8 \<or> ExtractValueType k > kTypeValue)"
  using ParseInternalKey_Append [of key] Append_ParseInternalKey [of k key]
  by (auto simp: ParseInternalKey_def ExtractValueType_def Let_def not_le not_less)

text \<open>
  C29. The comparator of internal keys, on all keys of at least eight bytes, when the user's comparator keeps the documented
  contract: it is a total order in which a later sequence number of the same user key comes first, its successors are
  successors, and its separators lie between two keys of different user keys. Between two keys of the same user key they do if
  the user's comparator leaves that key as it is, which comparators are not asked to do; without it \<^verbatim>\<open>assert\<close>s of the code can fail.
\<close>
theorem internal_comparator_contract:
  assumes "user_comparator u"
  shows "key_order (\<lambda>k. 8 \<le> length k) (ikey_Compare u)
    \<and> (\<forall>k s t s' t'. s' < s \<longrightarrow> s \<le> kMaxSequenceNumber \<longrightarrow> ikey_Compare u (InternalKey k s t) (InternalKey k s' t') < 0)
    \<and> (\<forall>k. 8 \<le> length k \<longrightarrow> 8 \<le> length (ikey_FindShortSuccessor u k) \<and> ikey_Compare u k (ikey_FindShortSuccessor u k) \<le> 0)
    \<and> (\<forall>a b. 8 \<le> length a \<longrightarrow> 8 \<le> length b \<longrightarrow> ikey_Compare u a b < 0 \<longrightarrow>
         (ExtractUserKey a = ExtractUserKey b \<longrightarrow> cmp_FindShortestSeparator u (ExtractUserKey a) (ExtractUserKey a) = ExtractUserKey a) \<longrightarrow>
         8 \<le> length (ikey_FindShortestSeparator u a b) \<and> ikey_Compare u a (ikey_FindShortestSeparator u a b) \<le> 0
         \<and> ikey_Compare u (ikey_FindShortestSeparator u a b) b < 0)"
proof (intro conjI allI impI)
  show "key_order (\<lambda>k. 8 \<le> length k) (ikey_Compare u)" using assms by (rule user_comparator.ikey_order)
  fix k s t s' t' assume "s' < s" "s \<le> kMaxSequenceNumber"
  moreover from this have "s' \<le> kMaxSequenceNumber" by (meson less_imp_le order.trans)
  ultimately have "PackSequenceAndType s' t' < PackSequenceAndType s t" using Pack_le [of s s' t t'] by (auto simp: not_le [symmetric])
  then show "ikey_Compare u (InternalKey k s t) (InternalKey k s' t') < 0"
    using user_comparator.ikey_Compare_less [OF assms] by simp
qed (use user_comparator.ikey_succeeds [OF assms] user_comparator.ikey_separates [OF assms] user_comparator.leaves_key_def [OF assms] in blast)+

theorem internal_comparator_contract_witness:
  "key_order (\<lambda>k. 8 \<le> length k) (ikey_Compare BytewiseComparator)
   \<and> ikey_Compare BytewiseComparator (InternalKey [97] 7 kTypeDeletion) (InternalKey [97] 3 kTypeValue) < 0
   \<and> ikey_Compare BytewiseComparator (ikey_FindShortestSeparator BytewiseComparator (InternalKey [97] 7 1) (InternalKey [100] 3 1))
       (InternalKey [100] 3 1) < 0"
proof -
  have l: "8 \<le> length (InternalKey [97] 7 1)" "8 \<le> length (InternalKey [100] 3 1)"
    by (simp_all add: InternalKey_def AppendInternalKey_def ParsedInternalKey_def)
  have e: "ExtractUserKey (InternalKey k s t) = k" for k s t
    by (simp add: InternalKey_def AppendInternalKey_def ParsedInternalKey_def)
  have "ikey_Compare BytewiseComparator (InternalKey [97] 7 1) (InternalKey [100] 3 1) < 0"
    using bytewise_user.ikey_Compare_less by (simp add: e BytewiseComparator_def)
  with internal_comparator_contract [OF bytewise_user.user_comparator_axioms] l show ?thesis
    by (auto simp: kMaxSequenceNumber_def e)
qed

section \<open>The memtable\<close>

text \<open>
  A lookup in a memtable sees the last write at or before its snapshot: after writes with increasing sequence
  numbers, every lookup of a key with a sequence number returns the value of the last write to the key up to
  that number, that it was deleted, or that the table knows nothing of it.
\<close>
theorem memtable_get_last_write:
  assumes "user_comparator u" and "\<forall>w\<in>set ws. write_ok w" and "sorted_wrt (<) (map fst ws)"
    and "length key + 8 < 2 ^ 32" and "snapshot \<le> kMaxSequenceNumber"
  shows "\<exists>m. mem_adds (MemTable_new u) ws = Some m \<and> mem_Get m (LookupKey key snapshot) = Some (last_write ws key snapshot)"
proof -
  have "distinct (map fst ([] @ ws))" using sorted_wrt_distinct [OF assms(3)] by simp
  from user_comparator.mem_adds_holds [OF assms(1) mem_holds_new assms(2) this] obtain m where
    m: "mem_adds (MemTable_new u) ws = Some m" "mem_holds u m ws" by auto
  with user_comparator.mem_Get_last [OF assms(1) m(2) assms(4,5,3)] show ?thesis by blast
qed

section \<open>Write batches\<close>

text \<open>
  C30. A batch replays its operations: a batch made by clearing it and then putting and deleting, with a sequence
  number set at the end, calls a handler with exactly these operations in their order and reports no error; the
  appending of a second batch gives the batch with the operations of both.
\<close>
theorem write_batch_replays:
  assumes "\<forall>b\<in>set (ops @ ops'). op_ok b"
  shows "WriteBatch_Iterate handler
      (wb_SetSequence (wb_Append (foldl batch_apply WriteBatch_Clear ops) (foldl batch_apply WriteBatch_Clear ops')) seq) h
    = map_option (Pair Status_OK) (handle_ops handler (ops @ ops') h)"
  unfolding batch_clear_rep batch_build batch_append_rep append_Nil wb_SetSequence_batch_rep
  using assms by (rule Iterate_batch_rep)

theorem write_batch_replays_witness:
  "WriteBatch_Iterate \<lparr>wh_Put = \<lambda>k v l. Some (l @ [BPut k v]), wh_Delete = \<lambda>k l. Some (l @ [BDelete k])\<rparr>
     (wb_SetSequence (wb_Append (WriteBatch_Put WriteBatch_Clear [1] [2]) (WriteBatch_Delete WriteBatch_Clear [3])) 9) []
   = Some (Status_OK, [BPut [1] [2], BDelete [3]])"
  using write_batch_replays [of "[BPut [1] [2]]" "[BDelete [3]]"
      "\<lparr>wh_Put = \<lambda>k v l. Some (l @ [BPut k v]), wh_Delete = \<lambda>k l. Some (l @ [BDelete k])\<rparr>" 9 "[]"] by simp

text \<open>Batches inserted one after the other, each with the sequence number behind those of the last.\<close>

fun insert_batches :: "u64 \<Rightarrow> batch_op list list \<Rightarrow> memtable \<Rightarrow> memtable option" where
  "insert_batches seq [] m = Some m"
| "insert_batches seq (ops # bs) m =
     wb_InsertInto (wb_SetSequence (foldl batch_apply WriteBatch_Clear ops) seq) m \<bind>
       (\<lambda>(s, m'). if status_ok s then insert_batches (seq + of_nat (length ops)) bs m' else None)"

lemma numbered_append: "numbered seq (as @ bs) = numbered seq as @ numbered (seq + of_nat (length as)) bs"
  by (induction seq as rule: numbered.induct) (simp_all add: algebra_simps)

lemma insert_batches_holds:
  assumes "user_comparator u" and "mem_holds u m ws" and "sorted_wrt (<) (map fst ws)" and "\<forall>w\<in>set ws. fst w < seq"
    and "unat seq + length (concat bs) < 2 ^ 56" and "\<forall>b\<in>set (concat bs). op_ok b \<and> length (op_key b) + 8 < 2 ^ 32"
  shows "\<exists>m'. insert_batches seq bs m = Some m' \<and> mem_holds u m' (ws @ numbered seq (concat bs))
    \<and> sorted_wrt (<) (map fst (ws @ numbered seq (concat bs)))"
  using assms(2-)
proof (induction bs arbitrary: seq m ws)
  case (Cons ops bs)
  define seq' where "seq' = seq + of_nat (length ops)"
  obtain m1 where m1: "wb_InsertInto (batch_rep seq ops) m = Some (Status_OK, m1)" "mem_holds u m1 (ws @ numbered seq ops)"
    "sorted_wrt (<) (map fst (ws @ numbered seq ops))"
    using user_comparator.InsertInto_holds [OF assms(1) Cons.prems(1-3), of ops] Cons.prems(4,5) by auto
  have s: "unat seq' = unat seq + length ops"
    using Cons.prems(4) by (simp add: seq'_def unat_word_ariths unat_of_nat)
  have "fst w < seq'" if "w \<in> set (ws @ numbered seq ops)" for w
  proof -
    have "fst w < seq \<or> fst w \<in> set (map fst (numbered seq ops))" using that Cons.prems(3) by auto
    then show ?thesis
      using s Cons.prems(4) seq_plus(1) [of seq "length ops"] by (auto simp: fst_numbered word_less_nat_alt)
  qed
  then have "\<exists>m'. insert_batches seq' bs m1 = Some m' \<and> mem_holds u m' ((ws @ numbered seq ops) @ numbered seq' (concat bs))
    \<and> sorted_wrt (<) (map fst ((ws @ numbered seq ops) @ numbered seq' (concat bs)))"
    using m1(2,3) Cons.prems(4,5) s by (intro Cons.IH) auto
  with m1(1) show ?case
    by (auto simp: batch_clear_rep batch_build wb_SetSequence_batch_rep numbered_append seq'_def status_ok_def Status_OK_def)
qed simp

text \<open>
  C9. The write path and the read path of the memtable fit together: when batches are inserted one after the other
  into a new table, every lookup with a snapshot returns what the last operation on the key up to that sequence
  number did, the operations of all batches being numbered in their order.
\<close>
theorem batches_then_lookup:
  assumes "user_comparator u" and "unat seq + length (concat bs) < 2 ^ 56"
    and "\<forall>b\<in>set (concat bs). op_ok b \<and> length (op_key b) + 8 < 2 ^ 32"
    and "length key + 8 < 2 ^ 32" and "snapshot \<le> kMaxSequenceNumber"
  shows "\<exists>m. insert_batches seq bs (MemTable_new u) = Some m
    \<and> mem_Get m (LookupKey key snapshot) = Some (last_write (numbered seq (concat bs)) key snapshot)"
proof -
  obtain m where m: "insert_batches seq bs (MemTable_new u) = Some m" "mem_holds u m (numbered seq (concat bs))"
    "sorted_wrt (<) (map fst (numbered seq (concat bs)))"
    using insert_batches_holds [OF assms(1) mem_holds_new _ _ assms(2,3)] by auto
  with user_comparator.mem_Get_last [OF assms(1) m(2) assms(4,5) m(3)] show ?thesis by blast
qed

theorem batches_then_lookup_witness:
  "\<exists>m. insert_batches 1 [[BPut [97] [1], BPut [98] [2]], [BDelete [97]]] (MemTable_new BytewiseComparator) = Some m
     \<and> mem_Get m (LookupKey [97] 3) = Some (Some (Inl (Status_NotFound [] [])))"
  using batches_then_lookup [OF bytewise_user.user_comparator_axioms, of 1 "[[BPut [97] [1], BPut [98] [2]], [BDelete [97]]]" "[97]" 3]
  by (simp add: kMaxSequenceNumber_def last_write_def visible_def kTypeValue_def kTypeDeletion_def)

end
