(* ===== verification/Ldb_Block.thy ===== *)
theory Ldb_Block
  imports Ldb_Comparator "HOL-Library.Monad_Syntax"
begin

text \<open>
  Blocks of tables: \<^verbatim>\<open>table/block_builder.cc\<close>, \<^verbatim>\<open>table/block.cc\<close>. Keys share prefixes with the key before them, except
  at restart points, whose offsets are stored behind the entries. A pointer into the block is an offset from
  \<^verbatim>\<open>data_\<close>. Offsets are natural numbers; where the source stores one in a \<^verbatim>\<open>uint32_t\<close>, it is taken modulo \<open>2^32\<close>.
\<close>

section \<open>The builder\<close>

record block_builder =
  bb_interval :: int
  bb_buffer :: slice
  bb_restarts :: "u32 list"
  bb_counter :: int
  bb_finished :: bool
  bb_last_key :: slice

definition BlockBuilder_new :: "int \<Rightarrow> block_builder" where
  "BlockBuilder_new interval =
     \<lparr>bb_interval = interval, bb_buffer = [], bb_restarts = [0], bb_counter = 0, bb_finished = False, bb_last_key = []\<rparr>"

definition BlockBuilder_Reset :: "block_builder \<Rightarrow> block_builder" where
  "BlockBuilder_Reset b =
     b\<lparr>bb_buffer := [], bb_restarts := [0], bb_counter := 0, bb_finished := False, bb_last_key := []\<rparr>"

definition CurrentSizeEstimate :: "block_builder \<Rightarrow> nat" where
  "CurrentSizeEstimate b = length (bb_buffer b) + length (bb_restarts b) * 4 + 4"

definition BlockBuilder_empty :: "block_builder \<Rightarrow> bool" where
  "BlockBuilder_empty b \<longleftrightarrow> bb_buffer b = []"

definition BlockBuilder_Finish :: "block_builder \<Rightarrow> slice \<times> block_builder" where
  "BlockBuilder_Finish b =
     (let buffer = PutFixed32 (foldl PutFixed32 (bb_buffer b) (bb_restarts b)) (of_nat (length (bb_restarts b)))
      in (buffer, b\<lparr>bb_buffer := buffer, bb_finished := True\<rparr>))"

text \<open>The loop that counts the shared bytes is that of the bytewise comparator.\<close>

definition BlockBuilder_Add :: "block_builder \<Rightarrow> slice \<Rightarrow> slice \<Rightarrow> block_builder" where
  "BlockBuilder_Add b key val =
     (let compress = bb_counter b < bb_interval b;
          shared = (if compress then diff_index (bb_last_key b) key else 0);
          restarts = (if compress then bb_restarts b else bb_restarts b @ [of_nat (length (bb_buffer b))]);
          counter = (if compress then bb_counter b else 0);
          non_shared = length key - shared;
          buffer = PutVarint32 (PutVarint32 (PutVarint32 (bb_buffer b) (of_nat shared)) (of_nat non_shared)) (of_nat (length val))
      in b\<lparr>bb_buffer := buffer @ drop shared key @ val, bb_restarts := restarts, bb_counter := counter + 1,
           bb_last_key := take shared (bb_last_key b) @ drop shared key\<rparr>)"

section \<open>Blocks\<close>

record block =
  bl_data :: slice
  bl_size :: nat
  bl_restart_offset :: nat

definition NumRestarts :: "slice \<Rightarrow> nat \<Rightarrow> nat" where
  "NumRestarts data sz = unat (DecodeFixed32 (drop (sz - 4) data))"

definition Block_new :: "slice \<Rightarrow> block" where
  "Block_new contents =
     (let sz = length contents in
      if sz < 4 then \<lparr>bl_data = contents, bl_size = 0, bl_restart_offset = 0\<rparr>
      else let max_restarts_allowed = (sz - 4) div 4; num = NumRestarts contents sz in
        if num > max_restarts_allowed then \<lparr>bl_data = contents, bl_size = 0, bl_restart_offset = 0\<rparr>
        else \<lparr>bl_data = contents, bl_size = sz, bl_restart_offset = (sz - (1 + num) mod 2 ^ 32 * 4) mod 2 ^ 32\<rparr>)"

text \<open>The three lengths in front of an entry, with a fast path for three single bytes.\<close>

definition decode_lengths :: "slice \<Rightarrow> (u32 \<times> u32 \<times> u32 \<times> slice) option" where
  "decode_lengths bytes =
     (if length bytes < 3 then None
      else let shared = ucast (bytes ! 0) :: u32; non_shared = ucast (bytes ! 1); value_length = ucast (bytes ! 2) in
        if shared OR non_shared OR value_length < 128 then Some (shared, non_shared, value_length, drop 3 bytes)
        else do {
          (shared, r1) \<leftarrow> GetVarint32Ptr bytes;
          (non_shared, r2) \<leftarrow> GetVarint32Ptr r1;
          (value_length, r3) \<leftarrow> GetVarint32Ptr r2;
          Some (shared, non_shared, value_length, r3)
        })"

text \<open>
  The entry at offset \<open>p\<close>: the number of shared bytes, of other bytes and of bytes of the value, and the offset of
  the key. The sum in the check is that of 32-bit numbers.
\<close>

definition DecodeEntry :: "slice \<Rightarrow> nat \<Rightarrow> nat \<Rightarrow> (u32 \<times> u32 \<times> u32 \<times> nat) option" where
  "DecodeEntry data p limit =
     (let bytes = take (limit - p) (drop p data) in do {
        (shared, non_shared, value_length, rest) \<leftarrow> decode_lengths bytes;
        if (of_nat (length rest) :: u32) < non_shared + value_length then None
        else Some (shared, non_shared, value_length, p + (length bytes - length rest))
      })"

section \<open>Iterators\<close>

text \<open>
  Slices of the contents have no bytes when they reach behind the block: reading them is undefined, and so is what
  comes after, \<open>None\<close>. The loops below are partial functions whose outer \<open>None\<close> means that they never come back.
\<close>

definition block_slice :: "slice \<Rightarrow> nat \<Rightarrow> nat \<Rightarrow> slice option" where
  "block_slice data p n = (if p + n \<le> length data then Some (take n (drop p data)) else None)"

text \<open>\<^verbatim>\<open>value_\<close> is its offset and its length.\<close>

record block_iter =
  bi_data :: slice
  bi_restarts :: nat
  bi_num_restarts :: nat
  bi_current :: nat
  bi_restart_index :: nat
  bi_key :: slice
  bi_value_pos :: nat
  bi_value_len :: nat
  bi_status :: status

definition BlockIter_new :: "slice \<Rightarrow> nat \<Rightarrow> nat \<Rightarrow> block_iter" where
  "BlockIter_new data restarts num_restarts =
     \<lparr>bi_data = data, bi_restarts = restarts, bi_num_restarts = num_restarts, bi_current = restarts,
      bi_restart_index = num_restarts, bi_key = [], bi_value_pos = 0, bi_value_len = 0, bi_status = Status_OK\<rparr>"

text \<open>An iterator of a block, or the iterator without entries and with a status.\<close>

datatype block_iterator = EmptyIterator status | Block_Iter block_iter

definition Block_NewIterator :: "block \<Rightarrow> block_iterator" where
  "Block_NewIterator b =
     (if bl_size b < 4 then EmptyIterator (Status_Corruption (str ''bad block contents'') [])
      else let num_restarts = NumRestarts (bl_data b) (bl_size b) in
        if num_restarts = 0 then EmptyIterator Status_OK
        else Block_Iter (BlockIter_new (bl_data b) (bl_restart_offset b) num_restarts))"

definition BlockIter_Valid :: "block_iter \<Rightarrow> bool" where
  "BlockIter_Valid it \<longleftrightarrow> bi_current it < bi_restarts it"

definition BlockIter_value :: "block_iter \<Rightarrow> slice option" where
  "BlockIter_value it = block_slice (bi_data it) (bi_value_pos it) (bi_value_len it)"

definition NextEntryOffset :: "block_iter \<Rightarrow> nat" where
  "NextEntryOffset it = (bi_value_pos it + bi_value_len it) mod 2 ^ 32"

definition GetRestartPoint :: "block_iter \<Rightarrow> nat \<Rightarrow> nat" where
  "GetRestartPoint it index = unat (DecodeFixed32 (drop (bi_restarts it + index * 4) (bi_data it)))"

definition SeekToRestartPoint :: "block_iter \<Rightarrow> nat \<Rightarrow> block_iter" where
  "SeekToRestartPoint it index =
     it\<lparr>bi_key := [], bi_restart_index := index, bi_value_pos := GetRestartPoint it index, bi_value_len := 0\<rparr>"

text \<open>The offset of the cleared slice is never used.\<close>

definition CorruptionError :: "block_iter \<Rightarrow> block_iter" where
  "CorruptionError it =
     it\<lparr>bi_current := bi_restarts it, bi_restart_index := bi_num_restarts it,
        bi_status := Status_Corruption (str ''bad entry in block'') [], bi_key := [], bi_value_pos := 0, bi_value_len := 0\<rparr>"

function advance_restart :: "block_iter \<Rightarrow> nat \<Rightarrow> nat" where
  "advance_restart it index =
     (if index + 1 < bi_num_restarts it \<and> GetRestartPoint it (index + 1) < bi_current it
      then advance_restart it (index + 1) else index)"
  by pat_completeness auto
termination by (relation "measure (\<lambda>(it, index). bi_num_restarts it - index)") auto

declare advance_restart.simps [simp del]

text \<open>\<open>None\<close> when the bytes appended to the key lie behind the block.\<close>

definition ParseNextKey :: "block_iter \<Rightarrow> (bool \<times> block_iter) option" where
  "ParseNextKey it0 =
     (let it = it0\<lparr>bi_current := NextEntryOffset it0\<rparr> in
      if bi_current it \<ge> bi_restarts it
      then Some (False, it\<lparr>bi_current := bi_restarts it, bi_restart_index := bi_num_restarts it\<rparr>)
      else case DecodeEntry (bi_data it) (bi_current it) (bi_restarts it) of
          None \<Rightarrow> Some (False, CorruptionError it)
        | Some (shared, non_shared, value_length, p) \<Rightarrow>
            if length (bi_key it) < unat shared then Some (False, CorruptionError it)
            else do {
              delta \<leftarrow> block_slice (bi_data it) p (unat non_shared);
              let it1 = it\<lparr>bi_key := take (unat shared) (bi_key it) @ delta,
                     bi_value_pos := p + unat non_shared, bi_value_len := unat value_length\<rparr>
              in Some (True, it1\<lparr>bi_restart_index := advance_restart it1 (bi_restart_index it1)\<rparr>)
            })"

definition BlockIter_Next :: "block_iter \<Rightarrow> block_iter option" where
  "BlockIter_Next it = map_option snd (ParseNextKey it)"

text \<open>The loop \<^verbatim>\<open>while (ParseNextKey() && NextEntryOffset() < bound)\<close>.\<close>

partial_function (option) scan_loop :: "nat \<Rightarrow> block_iter \<Rightarrow> block_iter option option" where
  [code]: "scan_loop bound it =
     (case ParseNextKey it of
        None \<Rightarrow> Some None
      | Some (ok, it') \<Rightarrow> if ok \<and> NextEntryOffset it' < bound then scan_loop bound it' else Some (Some it'))"

text \<open>The loop of \<^verbatim>\<open>Prev\<close> over the restart points: \<open>None\<close> when there is no entry before.\<close>

fun prev_restart :: "block_iter \<Rightarrow> nat \<Rightarrow> nat \<Rightarrow> nat option" where
  "prev_restart it original 0 = (if GetRestartPoint it 0 \<ge> original then None else Some 0)"
| "prev_restart it original (Suc index) =
     (if GetRestartPoint it (Suc index) \<ge> original then prev_restart it original index else Some (Suc index))"

definition BlockIter_Prev :: "block_iter \<Rightarrow> block_iter option option" where
  "BlockIter_Prev it =
     (let original = bi_current it in
      case prev_restart it original (bi_restart_index it) of
        None \<Rightarrow> Some (Some (it\<lparr>bi_current := bi_restarts it, bi_restart_index := bi_num_restarts it\<rparr>))
      | Some index \<Rightarrow> scan_loop original (SeekToRestartPoint it index))"

text \<open>The binary search of \<^verbatim>\<open>Seek\<close> ends at the restart point to start from, at a bad entry, or at a key behind the block.\<close>

datatype seek_result = Seek_from nat | Bad_entry | Behind_block

partial_function (option) seek_binary ::
  "(slice \<Rightarrow> slice \<Rightarrow> int) \<Rightarrow> slice \<Rightarrow> block_iter \<Rightarrow> nat \<Rightarrow> nat \<Rightarrow> seek_result option" where
  [code]: "seek_binary cmp target it left right =
     (if left < right then
        let mid = (left + right + 1) mod 2 ^ 32 div 2; region_offset = GetRestartPoint it mid in
        case DecodeEntry (bi_data it) region_offset (bi_restarts it) of
          None \<Rightarrow> Some Bad_entry
        | Some (shared, non_shared, value_length, p) \<Rightarrow>
            if shared \<noteq> 0 then Some Bad_entry
            else case block_slice (bi_data it) p (unat non_shared) of
                None \<Rightarrow> Some Behind_block
              | Some mid_key \<Rightarrow>
                  if cmp mid_key target < 0 then seek_binary cmp target it mid right
                  else seek_binary cmp target it left ((mid + 2 ^ 32 - 1) mod 2 ^ 32)
      else Some (Seek_from left))"

partial_function (option) seek_linear :: "(slice \<Rightarrow> slice \<Rightarrow> int) \<Rightarrow> slice \<Rightarrow> block_iter \<Rightarrow> block_iter option option" where
  [code]: "seek_linear cmp target it =
     (case ParseNextKey it of
        None \<Rightarrow> Some None
      | Some (ok, it') \<Rightarrow>
          if \<not> ok then Some (Some it') else if cmp (bi_key it') target \<ge> 0 then Some (Some it') else seek_linear cmp target it')"

definition BlockIter_Seek :: "(slice \<Rightarrow> slice \<Rightarrow> int) \<Rightarrow> slice \<Rightarrow> block_iter \<Rightarrow> block_iter option option" where
  "BlockIter_Seek cmp target it = do {
     r \<leftarrow> seek_binary cmp target it 0 (bi_num_restarts it - 1);
     case r of
       Bad_entry \<Rightarrow> Some (Some (CorruptionError it))
     | Behind_block \<Rightarrow> Some None
     | Seek_from left \<Rightarrow> seek_linear cmp target (SeekToRestartPoint it left)
   }"

definition BlockIter_SeekToFirst :: "block_iter \<Rightarrow> block_iter option" where
  "BlockIter_SeekToFirst it = map_option snd (ParseNextKey (SeekToRestartPoint it 0))"

definition BlockIter_SeekToLast :: "block_iter \<Rightarrow> block_iter option option" where
  "BlockIter_SeekToLast it = scan_loop (bi_restarts it) (SeekToRestartPoint it (bi_num_restarts it - 1))"

end
