(* ===== verification/Ldb_Block_Spec.thy ===== *)
theory Ldb_Block_Spec
  imports Ldb_Block
begin

text \<open>
  Well-formed blocks and the positions of iterators in them. An entry is its offset, its key and its value.
\<close>

section \<open>Well-formed blocks\<close>

type_synonym block_entry = "nat \<times> slice \<times> slice"

abbreviation entry_key :: "block_entry \<Rightarrow> slice" where "entry_key e \<equiv> fst (snd e)"

text \<open>From an offset, with the key of the entry before, the block holds the entries and then ends.\<close>

fun laid :: "slice \<Rightarrow> nat \<Rightarrow> nat \<Rightarrow> slice \<Rightarrow> block_entry list \<Rightarrow> bool" where
  "laid data lim off prev [] \<longleftrightarrow> off = lim"
| "laid data lim off prev ((a, k, v) # es) \<longleftrightarrow> a = off \<and> off < lim
     \<and> (\<exists>s n m p. DecodeEntry data off lim = Some (s, n, m, p) \<and> unat s \<le> length prev
          \<and> k = take (unat s) prev @ take (unat n) (drop p data) \<and> v = take (unat m) (drop (p + unat n) data)
          \<and> off < p + unat n + unat m \<and> laid data lim (p + unat n + unat m) k es)"

definition block_ok :: "slice \<Rightarrow> nat \<Rightarrow> nat list \<Rightarrow> block_entry list \<Rightarrow> bool" where
  "block_ok data lim rs es \<longleftrightarrow>
     lim + 4 * length rs < 2 ^ 32 \<and> lim \<le> length data \<and> laid data lim 0 [] es \<and> rs \<noteq> [] \<and> hd rs = 0
     \<and> (\<forall>j<length rs. unat (DecodeFixed32 (drop (lim + j * 4) data)) = rs ! j
          \<and> (\<exists>i. (j = 0 \<longrightarrow> i = 0) \<and> (0 < j \<longrightarrow> i < length es) \<and> laid data lim (rs ! j) [] (drop i es)))"

definition next_off :: "nat \<Rightarrow> block_entry list \<Rightarrow> nat" where
  "next_off lim es = (case es of [] \<Rightarrow> lim | e # _ \<Rightarrow> fst e)"

lemma next_off_simps [simp]: "next_off lim [] = lim" "next_off lim (e # es) = fst e"
  by (simp_all add: next_off_def)

lemma laid_off: "laid data lim off prev es \<Longrightarrow> off = next_off lim es"
  by (cases es) auto

lemma laid_ConsE:
  assumes "laid data lim off prev (e # es)"
  obtains s n m p where "DecodeEntry data off lim = Some (s, n, m, p)" and "unat s \<le> length prev"
    and "entry_key e = take (unat s) prev @ take (unat n) (drop p data)" and "snd (snd e) = take (unat m) (drop (p + unat n) data)"
    and "p + unat n + unat m = next_off lim es" and "off < next_off lim es" and "fst e = off" and "off < lim"
    and "laid data lim (next_off lim es) (entry_key e) es"
proof -
  obtain a k v where e: "e = (a, k, v)" by (cases e)
  from assms obtain s n m p where d: "DecodeEntry data off lim = Some (s, n, m, p)" "unat s \<le> length prev"
    "k = take (unat s) prev @ take (unat n) (drop p data)" "v = take (unat m) (drop (p + unat n) data)"
    "off < p + unat n + unat m" "laid data lim (p + unat n + unat m) k es" unfolding e laid.simps by blast
  have "a = off" "off < lim" using assms unfolding e laid.simps by blast+
  with d laid_off [OF d(6)] that show thesis by (simp add: e)
qed

lemma laid_less: "laid data lim off prev (e # es) \<Longrightarrow> fst e < next_off lim es \<and> fst e < lim"
  by (erule laid_ConsE) simp

lemma laid_tl: "laid data lim off prev (e # es) \<Longrightarrow> laid data lim (next_off lim es) (entry_key e) es"
  by (erule laid_ConsE) simp

lemma laid_le: "laid data lim off prev es \<Longrightarrow> off \<le> lim"
  by (cases es) auto

lemma laid_increasing: "laid data lim off prev (as @ e # es) \<Longrightarrow> off \<le> fst e \<and> fst e < next_off lim es \<and> fst e < lim"
proof (induction as arbitrary: off prev)
  case Nil
  then show ?case using laid_less [of data lim off prev e es] laid_off [of data lim off prev "e # es"] by simp
next
  case (Cons a as)
  then have "laid data lim (next_off lim (as @ e # es)) (entry_key a) (as @ e # es)"
    using laid_tl [of data lim off prev a "as @ e # es"] by simp
  from Cons.IH [OF this] laid_less [of data lim off prev a "as @ e # es"] laid_off [of data lim off prev "a # as @ e # es"]
    Cons.prems show ?case by simp
qed

lemma laid_drop: "laid data lim off prev es \<Longrightarrow> i < length es \<Longrightarrow>
    laid data lim (next_off lim (drop (Suc i) es)) (entry_key (es ! i)) (drop (Suc i) es)"
proof (induction es arbitrary: off prev i)
  case (Cons e es)
  then show ?case using laid_tl [OF Cons.prems(1)] by (cases i) auto
qed simp

lemma laid_nth_less: "laid data lim off prev es \<Longrightarrow> i < length es \<Longrightarrow> fst (es ! i) < next_off lim (drop (Suc i) es) \<and> fst (es ! i) < lim"
  using laid_increasing [of data lim off prev "take i es" "es ! i" "drop (Suc i) es"] by (simp add: id_take_nth_drop [symmetric])

lemma laid_offsets_mono:
  assumes "laid data lim off prev es" and "i \<le> i'" and "i < length es"
  shows "fst (es ! i) \<le> next_off lim (drop i' es)"
proof (cases "i' < length es")
  case True
  show ?thesis
  proof (cases "i = i'")
    case True
    then show ?thesis using \<open>i' < length es\<close> by (simp add: Cons_nth_drop_Suc [symmetric])
  next
    case False
    define as where "as = take (i' - Suc i) (drop (Suc i) es)"
    have "drop (Suc i) es = as @ drop (i' - Suc i) (drop (Suc i) es)" by (simp add: as_def del: drop_drop)
    also have "drop (i' - Suc i) (drop (Suc i) es) = es ! i' # drop (Suc i') es"
      using True False assms(2) by (simp add: Cons_nth_drop_Suc)
    finally have "next_off lim (drop (Suc i) es) \<le> fst (es ! i')"
      using laid_increasing [of data lim "next_off lim (drop (Suc i) es)" "entry_key (es ! i)" as "es ! i'" "drop (Suc i') es"]
        laid_drop [OF assms(1,3)] by simp
    then show ?thesis using laid_nth_less [OF assms(1,3)] True by (simp add: Cons_nth_drop_Suc [symmetric])
  qed
qed (use laid_nth_less [OF assms(1,3)] in simp)

lemma drop_butlast_last: "i < length xs \<Longrightarrow> drop i xs = drop i (butlast xs) @ [last xs]"
  by (induction xs rule: rev_induct) auto

lemma block_okD:
  assumes "block_ok data lim rs es"
  shows "lim < 2 ^ 32" "lim \<le> length data" "4 * length rs < 2 ^ 32" "laid data lim 0 [] es" "0 < length rs" "rs ! 0 = 0"
    "j < length rs \<Longrightarrow> unat (DecodeFixed32 (drop (lim + j * 4) data)) = rs ! j"
  using assms by (auto simp: block_ok_def hd_conv_nth)

lemma block_ok_restart:
  assumes "block_ok data lim rs es" and "j < length rs"
  obtains i where "j = 0 \<Longrightarrow> i = 0" and "0 < j \<Longrightarrow> i < length es" and "laid data lim (rs ! j) [] (drop i es)"
  using assms by (auto simp: block_ok_def)

section \<open>Positions\<close>

definition it_on :: "slice \<Rightarrow> nat \<Rightarrow> nat list \<Rightarrow> block_iter \<Rightarrow> bool" where
  "it_on data lim rs it \<longleftrightarrow>
     bi_data it = data \<and> bi_restarts it = lim \<and> bi_num_restarts it = length rs \<and> bi_status it = Status_OK"

text \<open>The iterator parses these entries next.\<close>

definition pending :: "slice \<Rightarrow> nat \<Rightarrow> nat list \<Rightarrow> block_iter \<Rightarrow> block_entry list \<Rightarrow> bool" where
  "pending data lim rs it bs \<longleftrightarrow> it_on data lim rs it \<and> laid data lim (NextEntryOffset it) (bi_key it) bs
     \<and> bi_restart_index it < length rs \<and> rs ! bi_restart_index it \<le> NextEntryOffset it"

text \<open>The iterator is at an entry, with others behind it.\<close>

definition at_entry :: "slice \<Rightarrow> nat \<Rightarrow> nat list \<Rightarrow> block_iter \<Rightarrow> block_entry \<Rightarrow> block_entry list \<Rightarrow> bool" where
  "at_entry data lim rs it e bs \<longleftrightarrow> pending data lim rs it bs \<and> bi_current it = fst e \<and> bi_key it = entry_key e
     \<and> BlockIter_value it = Some (snd (snd e)) \<and> fst e < lim \<and> rs ! bi_restart_index it \<le> fst e"

definition at_end :: "slice \<Rightarrow> nat \<Rightarrow> nat list \<Rightarrow> block_iter \<Rightarrow> bool" where
  "at_end data lim rs it \<longleftrightarrow> it_on data lim rs it \<and> bi_current it = lim"

definition block_at :: "slice \<Rightarrow> nat \<Rightarrow> nat list \<Rightarrow> block_entry list \<Rightarrow> block_iter \<Rightarrow> nat \<Rightarrow> bool" where
  "block_at data lim rs es it i \<longleftrightarrow>
     (if i < length es then at_entry data lim rs it (es ! i) (drop (Suc i) es) else at_end data lim rs it)"

lemma advance_restart_spec:
  assumes "i < bi_num_restarts it" and "GetRestartPoint it i \<le> bi_current it"
  shows "advance_restart it i < bi_num_restarts it \<and> GetRestartPoint it (advance_restart it i) \<le> bi_current it"
  using assms
proof (induction it i rule: advance_restart.induct)
  case (1 it i)
  then show ?case by (subst (1 2) advance_restart.simps) auto
qed

lemma GetRestartPoint_on: "block_ok data lim rs es \<Longrightarrow> it_on data lim rs it \<Longrightarrow> j < length rs \<Longrightarrow> GetRestartPoint it j = rs ! j"
  by (simp add: GetRestartPoint_def it_on_def block_okD)

lemma parse_end:
  assumes "pending data lim rs it []"
  obtains it' where "ParseNextKey it = Some (False, it')" and "at_end data lim rs it'"
  using assms by (auto simp: pending_def it_on_def at_end_def ParseNextKey_def)

lemma parse_entry:
  assumes ok: "block_ok data lim rs es" and "pending data lim rs it (e # bs)"
  obtains it' where "ParseNextKey it = Some (True, it')" and "at_entry data lim rs it' e bs"
proof -
  note p = assms(2) [unfolded pending_def]
  then have "laid data lim (NextEntryOffset it) (bi_key it) (e # bs)" by blast
  then obtain s n m q where d: "DecodeEntry data (NextEntryOffset it) lim = Some (s, n, m, q)" "unat s \<le> length (bi_key it)"
    "entry_key e = take (unat s) (bi_key it) @ take (unat n) (drop q data)" "snd (snd e) = take (unat m) (drop (q + unat n) data)"
    "q + unat n + unat m = next_off lim bs" "fst e = NextEntryOffset it" "NextEntryOffset it < lim"
    "laid data lim (next_off lim bs) (entry_key e) bs" "NextEntryOffset it < next_off lim bs"
    by (rule laid_ConsE)
  define a k where "a = fst e" and "k = entry_key e"
  have le: "next_off lim bs \<le> lim" using laid_le [OF d(8)] .
  then have slices: "block_slice data q (unat n) = Some (take (unat n) (drop q data))"
    "block_slice data (q + unat n) (unat m) = Some (snd (snd e))"
    using block_okD(2) [OF ok] d(4,5) by (simp_all add: block_slice_def)
  define it1 where "it1 = it\<lparr>bi_current := a, bi_key := k, bi_value_pos := q + unat n, bi_value_len := unat m\<rparr>"
  define it' where "it' = it1\<lparr>bi_restart_index := advance_restart it1 (bi_restart_index it1)\<rparr>"
  have on: "it_on data lim rs it" "it_on data lim rs it1" using p by (auto simp: it1_def it_on_def)
  have "ParseNextKey it = Some (True, it')"
    using d slices on by (simp add: ParseNextKey_def it'_def it1_def it_on_def Let_def not_less a_def k_def)
  moreover have "advance_restart it1 (bi_restart_index it1) < length rs \<and> rs ! advance_restart it1 (bi_restart_index it1) \<le> a"
    using advance_restart_spec [of "bi_restart_index it1" it1] GetRestartPoint_on [OF ok on(2)] p on(2) d(6)
    by (auto simp: it1_def it_on_def a_def)
  moreover have "NextEntryOffset it' = next_off lim bs"
    using le block_okD(1) [OF ok] by (simp add: it'_def it1_def NextEntryOffset_def d(5))
  ultimately show thesis
    using that d slices le on by (auto simp: at_entry_def pending_def it'_def it1_def it_on_def a_def k_def BlockIter_value_def)
qed

section \<open>Moves\<close>

lemma block_at_Next:
  assumes ok: "block_ok data lim rs es" and "pending data lim rs it (drop i es)"
  shows "\<exists>r. ParseNextKey it = Some r \<and> block_at data lim rs es (snd r) i"
proof (cases "i < length es")
  case True
  with assms(2) have "pending data lim rs it (es ! i # drop (Suc i) es)" by (simp add: Cons_nth_drop_Suc)
  then obtain it' where "ParseNextKey it = Some (True, it')" "at_entry data lim rs it' (es ! i) (drop (Suc i) es)"
    by (rule parse_entry [OF ok])
  with True show ?thesis by (simp add: block_at_def)
next
  case False
  with assms(2) have "pending data lim rs it []" by simp
  then obtain it' where "ParseNextKey it = Some (False, it')" "at_end data lim rs it'" by (rule parse_end)
  with False show ?thesis by (simp add: block_at_def)
qed

lemma pending_restart:
  assumes "block_ok data lim rs es" and "it_on data lim rs it" and "j < length rs" and "laid data lim (rs ! j) [] bs"
  shows "pending data lim rs (SeekToRestartPoint it j) bs"
proof -
  have "rs ! j < 2 ^ 32" using laid_le [OF assms(4)] block_okD(1) [OF assms(1)] by simp
  then show ?thesis
    using assms GetRestartPoint_on [OF assms(1-3)]
    by (simp add: pending_def SeekToRestartPoint_def NextEntryOffset_def it_on_def)
qed

lemma scan_loop_to:
  assumes ok: "block_ok data lim rs es"
  shows "pending data lim rs it (as @ e # bs) \<Longrightarrow>
    \<exists>it'. scan_loop (next_off lim bs) it = Some (Some it') \<and> at_entry data lim rs it' e bs"
proof (induction as arbitrary: it)
  case Nil
  then obtain it' where it': "ParseNextKey it = Some (True, it')" "at_entry data lim rs it' e bs"
    using parse_entry [OF ok] by (metis append_Nil)
  then have "NextEntryOffset it' = next_off lim bs" using laid_off unfolding at_entry_def pending_def by blast
  with it' show ?case by (subst scan_loop.simps) simp
next
  case (Cons a as)
  then have "pending data lim rs it (a # (as @ e # bs))" by simp
  then obtain it' where it': "ParseNextKey it = Some (True, it')" "at_entry data lim rs it' a (as @ e # bs)"
    by (rule parse_entry [OF ok])
  then have p: "pending data lim rs it' (as @ e # bs)" by (simp add: at_entry_def)
  then have "NextEntryOffset it' < next_off lim bs"
    using laid_increasing [of data lim "NextEntryOffset it'" "bi_key it'" as e bs] unfolding pending_def by linarith
  with it'(1) have "scan_loop (next_off lim bs) it = scan_loop (next_off lim bs) it'" by (subst scan_loop.simps) simp
  with Cons.IH [OF p] show ?case by simp
qed

lemma block_at_SeekToFirst:
  assumes "block_ok data lim rs es" and "it_on data lim rs it"
  shows "\<exists>it'. BlockIter_SeekToFirst it = Some it' \<and> block_at data lim rs es it' 0"
  using assms block_at_Next [OF assms(1), of "SeekToRestartPoint it 0" 0] pending_restart [OF assms, of 0 es]
    block_okD(4-6) [OF assms(1)]
  by (auto simp: BlockIter_SeekToFirst_def)

lemma block_at_SeekToLast:
  assumes ok: "block_ok data lim rs es" and on: "it_on data lim rs it"
  shows "\<exists>it'. BlockIter_SeekToLast it = Some (Some it') \<and> block_at data lim rs es it' (length es - 1)"
proof -
  define j where "j = length rs - 1"
  have j: "j < length rs" using block_okD(5) [OF ok] by (simp add: j_def)
  obtain i where i: "j = 0 \<Longrightarrow> i = 0" "0 < j \<Longrightarrow> i < length es" "laid data lim (rs ! j) [] (drop i es)"
    using block_ok_restart [OF ok j] by blast
  have p: "pending data lim rs (SeekToRestartPoint it j) (drop i es)" using pending_restart [OF ok on j i(3)] .
  have b: "BlockIter_SeekToLast it = scan_loop lim (SeekToRestartPoint it j)"
    using on by (simp add: BlockIter_SeekToLast_def it_on_def j_def)
  show ?thesis
  proof (cases "es = []")
    case True
    with p obtain it' where "ParseNextKey (SeekToRestartPoint it j) = Some (False, it')" "at_end data lim rs it'"
      using parse_end by (metis drop_Nil)
    with True b show ?thesis by (subst b, subst scan_loop.simps) (simp add: block_at_def)
  next
    case False
    with i have "i < length es" by (cases "j = 0") auto
    then have "drop i es = drop i (butlast es) @ last es # []"
      by (simp add: drop_butlast_last)
    with p have "pending data lim rs (SeekToRestartPoint it j) (drop i (butlast es) @ last es # [])" by simp
    from scan_loop_to [OF ok this] False b show ?thesis by (auto simp: block_at_def last_conv_nth)
  qed
qed

lemma prev_restart_None: "prev_restart it original i = None \<longleftrightarrow> (\<forall>j\<le>i. original \<le> GetRestartPoint it j)"
  by (induction i) (auto simp: le_Suc_eq)

lemma prev_restart_Some: "prev_restart it original i = Some j \<Longrightarrow> j \<le> i \<and> GetRestartPoint it j < original"
  by (induction i) (auto split: if_splits)

lemma block_at_Prev:
  assumes ok: "block_ok data lim rs es" and at: "block_at data lim rs es it i" and "i < length es"
  shows "\<exists>it'. BlockIter_Prev it = Some (Some it') \<and> block_at data lim rs es it' (if i = 0 then length es else i - 1)"
proof -
  have e: "at_entry data lim rs it (es ! i) (drop (Suc i) es)" using at assms(3) by (simp add: block_at_def)
  then have on: "it_on data lim rs it" and cur: "bi_current it = fst (es ! i)" and idx: "bi_restart_index it < length rs"
    by (auto simp: at_entry_def pending_def)
  have grp: "GetRestartPoint it j = rs ! j" if "j \<le> bi_restart_index it" for j
    using GetRestartPoint_on [OF ok on] that idx by simp
  have split: "es = take i es @ es ! i # drop (Suc i) es" using assms(3) by (simp add: id_take_nth_drop)
  show ?thesis
  proof (cases "i = 0")
    case True
    with split laid_off [OF block_okD(4) [OF ok]] have "fst (es ! i) = 0" by (cases es) auto
    then have "prev_restart it (bi_current it) (bi_restart_index it) = None" by (simp add: prev_restart_None cur)
    with True on show ?thesis by (simp add: BlockIter_Prev_def block_at_def at_end_def it_on_def)
  next
    case False
    define o1 where "o1 = fst (es ! i)"
    have prev: "i - 1 < length es" "Suc (i - 1) = i" using False assms(3) by auto
    have nx: "next_off lim (drop i es) = o1" using assms(3) by (simp add: o1_def Cons_nth_drop_Suc [symmetric])
    have "0 < o1" using laid_nth_less [OF block_okD(4) [OF ok] prev(1)] prev(2) nx by simp
    then have "prev_restart it o1 (bi_restart_index it) \<noteq> None"
      using block_okD(6) [OF ok] grp [of 0] by (auto simp: prev_restart_None intro!: exI [of _ 0])
    then obtain j where j: "prev_restart it o1 (bi_restart_index it) = Some j" by auto
    with prev_restart_Some [OF j] grp idx have less: "j < length rs" "rs ! j < o1" by auto
    obtain i' where i': "laid data lim (rs ! j) [] (drop i' es)" using block_ok_restart [OF ok less(1)] by blast
    have "i' \<le> i - 1"
      using laid_offsets_mono [OF block_okD(4) [OF ok], of i i'] assms(3) laid_off [OF i'] less(2) by (fastforce simp: o1_def)
    then have "drop i' es = take (i - 1 - i') (drop i' es) @ es ! (i - 1) # drop i es"
      using prev by (metis Cons_nth_drop_Suc append_take_drop_id drop_drop le_add_diff_inverse2)
    with pending_restart [OF ok on less(1) i']
    have "pending data lim rs (SeekToRestartPoint it j) (take (i - 1 - i') (drop i' es) @ es ! (i - 1) # drop i es)" by simp
    from scan_loop_to [OF ok this] nx j prev False show ?thesis
      by (auto simp: BlockIter_Prev_def cur o1_def [symmetric] block_at_def)
  qed
qed

section \<open>Seeking\<close>

lemma seek_linear_pending:
  assumes ok: "block_ok data lim rs es"
  shows "pending data lim rs it (drop i es) \<Longrightarrow>
    \<exists>it'. seek_linear cmp target it = Some (Some it')
      \<and> block_at data lim rs es it' (i + length (takeWhile (\<lambda>e. cmp (entry_key e) target < 0) (drop i es)))"
proof (induction "length es - i" arbitrary: i it)
  case 0
  then have "pending data lim rs it []" by simp
  then obtain it' where "ParseNextKey it = Some (False, it')" "at_end data lim rs it'" by (rule parse_end)
  with 0 show ?case by (subst seek_linear.simps) (simp add: block_at_def)
next
  case (Suc n)
  then have i: "i < length es" by simp
  with Suc.prems have "pending data lim rs it (es ! i # drop (Suc i) es)" by (simp add: Cons_nth_drop_Suc)
  then obtain it' where it': "ParseNextKey it = Some (True, it')" "at_entry data lim rs it' (es ! i) (drop (Suc i) es)"
    by (rule parse_entry [OF ok])
  show ?case
  proof (cases "cmp (entry_key (es ! i)) target < 0")
    case True
    with it' have "seek_linear cmp target it = seek_linear cmp target it'" by (subst seek_linear.simps) (simp add: at_entry_def)
    moreover have "n = length es - Suc i" using Suc.hyps(2) by simp
    moreover have "pending data lim rs it' (drop (Suc i) es)" using it'(2) by (simp add: at_entry_def)
    ultimately show ?thesis using Suc.hyps(1) [of "Suc i" it'] True i by (simp add: Cons_nth_drop_Suc [symmetric])
  next
    case False
    with it' i show ?thesis
      by (subst seek_linear.simps) (simp add: at_entry_def block_at_def Cons_nth_drop_Suc [symmetric])
  qed
qed

text \<open>A restart point from which a search for a target may start.\<close>

definition seek_from :: "(slice \<Rightarrow> slice \<Rightarrow> int) \<Rightarrow> slice \<Rightarrow> slice \<Rightarrow> nat \<Rightarrow> nat list \<Rightarrow> block_entry list \<Rightarrow> nat \<Rightarrow> bool" where
  "seek_from cmp target data lim rs es j \<longleftrightarrow> j < length rs
     \<and> (\<exists>i. laid data lim (rs ! j) [] (drop i es) \<and> (i = 0 \<or> i < length es \<and> cmp (entry_key (es ! i)) target < 0))"

lemma seek_binary_from:
  assumes ok: "block_ok data lim rs es" and on: "it_on data lim rs it"
  shows "seek_from cmp target data lim rs es left \<Longrightarrow> left \<le> right \<Longrightarrow> right < length rs \<Longrightarrow>
    \<exists>j. seek_binary cmp target it left right = Some (Seek_from j) \<and> seek_from cmp target data lim rs es j"
proof (induction "right - left" arbitrary: left right rule: less_induct)
  case less
  show ?case
  proof (cases "left < right")
    case False
    with less.prems show ?thesis by (subst seek_binary.simps) simp
  next
    case True
    define mid where "mid = (left + right + 1) div 2"
    have mid: "left < mid" "mid \<le> right" "0 < mid" "mid < length rs" using True less.prems by (auto simp: mid_def)
    have "left + right + 1 < 2 ^ 32" using less.prems block_okD(3) [OF ok] by simp
    then have m: "(left + right + 1) mod 2 ^ 32 div 2 = mid" "(mid + 2 ^ 32 - 1) mod 2 ^ 32 = mid - 1"
      using mid less.prems(3) by (simp_all add: mid_def mod_if)
    obtain i where i: "i < length es" "laid data lim (rs ! mid) [] (drop i es)"
      using block_ok_restart [OF ok mid(4)] mid(3) by metis
    then have "laid data lim (rs ! mid) [] (es ! i # drop (Suc i) es)" by (simp add: Cons_nth_drop_Suc)
    then obtain s n v p where d: "DecodeEntry data (rs ! mid) lim = Some (s, n, v, p)" "unat s \<le> length ([] :: slice)"
      "entry_key (es ! i) = take (unat s) [] @ take (unat n) (drop p data)"
      "p + unat n + unat v = next_off lim (drop (Suc i) es)" "laid data lim (next_off lim (drop (Suc i) es)) (entry_key (es ! i)) (drop (Suc i) es)"
      by (rule laid_ConsE)
    then have "s = 0" "block_slice data p (unat n) = Some (entry_key (es ! i))"
      using laid_le [OF d(5)] block_okD(2) [OF ok] by (simp_all add: word_unat_eq_iff block_slice_def)
    with d(1) True m on GetRestartPoint_on [OF ok on mid(4)]
    have step: "seek_binary cmp target it left right =
        (if cmp (entry_key (es ! i)) target < 0 then seek_binary cmp target it mid right else seek_binary cmp target it left (mid - 1))"
      by (subst seek_binary.simps) (simp add: Let_def it_on_def)
    show ?thesis
    proof (cases "cmp (entry_key (es ! i)) target < 0")
      case True
      then have "seek_from cmp target data lim rs es mid" using i mid(4) by (auto simp: seek_from_def)
      with step True mid less.prems less.hyps [of right mid] show ?thesis by simp
    next
      case False
      with step mid less.prems less.hyps [of "mid - 1" left] show ?thesis by simp
    qed
  qed
qed

lemma block_at_Seek:
  assumes order: "compare_order valid cmp" and ok: "block_ok data lim rs es" and on: "it_on data lim rs it"
    and sorted: "sorted_wrt (\<lambda>a b. cmp (entry_key a) (entry_key b) < 0) es"
    and keys: "\<forall>e\<in>set es. valid (entry_key e)" "valid target"
  shows "\<exists>it'. BlockIter_Seek cmp target it = Some (Some it')
    \<and> block_at data lim rs es it' (length (takeWhile (\<lambda>e. cmp (entry_key e) target < 0) es))"
proof -
  define Q where "Q = (\<lambda>e :: block_entry. cmp (entry_key e) target < 0)"
  have n: "0 < length rs" using block_okD(5) [OF ok] .
  have "seek_from cmp target data lim rs es 0"
    using n block_okD(4,6) [OF ok] by (auto simp: seek_from_def intro!: exI [of _ 0])
  then obtain j where j: "seek_binary cmp target it 0 (length rs - 1) = Some (Seek_from j)" "seek_from cmp target data lim rs es j"
    using seek_binary_from [OF ok on, of cmp target 0 "length rs - 1"] n by auto
  from j(2) obtain i where i: "j < length rs" "laid data lim (rs ! j) [] (drop i es)" "i = 0 \<or> i < length es \<and> Q (es ! i)"
    by (auto simp: seek_from_def Q_def)
  have "Q e" if e: "e \<in> set (take i es)" for e
  proof -
    from e obtain m where m: "m < i" "m < length es" "e = es ! m" by (auto simp: in_set_conv_nth)
    with i(3) have "i < length es" "Q (es ! i)" by auto
    with m sorted_wrt_nth_less [OF sorted m(1)] keys compare_order.less_trans [OF order, of "entry_key e" "entry_key (es ! i)" target]
    show ?thesis by (simp add: Q_def)
  qed
  then have "takeWhile Q es = take i es @ takeWhile Q (drop i es)"
    using takeWhile_append2 [of "take i es" Q "drop i es"] by simp
  moreover have "i \<le> length es" using i(3) by auto
  ultimately have l: "length (takeWhile Q es) = i + length (takeWhile Q (drop i es))" by simp
  from seek_linear_pending [OF ok pending_restart [OF ok on i(1,2)], of cmp target] j(1) on l
  show ?thesis by (auto simp: BlockIter_Seek_def it_on_def Q_def)
qed

end
