(* ===== verification/Ldb_Block_Build.thy ===== *)
theory Ldb_Block_Build
  imports Ldb_Block_Spec
begin

text \<open>Blocks made by the builder are well-formed and hold the entries that were added.\<close>

section \<open>Decoding an entry\<close>

lemma below_128: "w < 128 \<longleftrightarrow> drop_bit 7 w = 0" for w :: u32
proof -
  have "drop_bit 7 w = 0 \<longleftrightarrow> unat w div 128 = 0" by (simp add: word_unat_eq_iff drop_bit_eq_div unat_div)
  then show ?thesis by (auto simp: word_less_nat_alt div_eq_0_iff)
qed

lemma or_below_128: "a OR b < 128 \<longleftrightarrow> a < 128 \<and> b < 128" for a b :: u32
  by (simp only: below_128 drop_bit_or or_eq_0_iff)

lemma bit_7_from_128: "bit w 7 \<Longrightarrow> \<not> w < 128" for w :: u32
proof
  assume "bit w 7" and "w < 128"
  from \<open>w < 128\<close> have "drop_bit 7 w = 0" by (simp only: below_128)
  moreover have "bit (drop_bit 7 w) 0 \<longleftrightarrow> bit w 7" by (simp only: bit_drop_bit_eq comp_apply add_0_right)
  ultimately show False using \<open>bit w 7\<close> by simp
qed

lemma varint_below_128: "v < 128 \<Longrightarrow> EncodeVarint32 v = [ucast v] \<and> (ucast (ucast v :: u8) :: u32) = v"
proof
  assume v: "v < 128"
  then show "EncodeVarint32 v = [ucast v]" by (simp add: EncodeVarint32_def)
  have "unat v < 128" using v by (simp add: word_less_nat_alt)
  then show "(ucast (ucast v :: u8) :: u32) = v" by (simp add: word_unat_eq_iff unsigned_ucast_eq unsigned_take_bit_eq take_bit_nat_eq_self)
qed

lemma varint_from_128: "\<not> v < 128 \<Longrightarrow> \<exists>b bs. EncodeVarint32 v = b # bs \<and> \<not> (ucast b :: u32) < 128"
proof -
  assume v: "\<not> v < 128"
  then have "EncodeVarint32 v = ucast (v OR 128) # tl (EncodeVarint32 v)" by (simp add: EncodeVarint32_def)
  moreover have "bit (ucast (ucast (v OR 128) :: u8) :: u32) 7" by (simp add: bit_simps)
  ultimately show ?thesis using bit_7_from_128 by blast
qed

lemma GetVarint32Ptr_Encode: "GetVarint32Ptr (EncodeVarint32 v @ rest) = Some (v, rest)"
  using GetVarint32_Encode by (simp add: GetVarint32_def)

lemma EncodeVarint32_Cons: "\<exists>b bs. EncodeVarint32 v = b # bs"
  using varint_below_128 [of v] varint_from_128 [of v] by blast

text \<open>The fast path for three lengths below 128 agrees with the general one.\<close>

lemma decode_lengths_encoded:
  "decode_lengths (EncodeVarint32 s @ EncodeVarint32 n @ EncodeVarint32 m @ rest) = Some (s, n, m, rest)"
proof -
  define bytes where "bytes = EncodeVarint32 s @ EncodeVarint32 n @ EncodeVarint32 m @ rest"
  obtain a as b bs c cs where abc: "EncodeVarint32 s = a # as" "EncodeVarint32 n = b # bs" "EncodeVarint32 m = c # cs"
    using EncodeVarint32_Cons by metis
  have len: "\<not> length bytes < 3" using abc by (simp add: bytes_def)
  show ?thesis
  proof (cases "s < 128 \<and> n < 128 \<and> m < 128")
    case True
    then show ?thesis by (simp add: decode_lengths_def varint_below_128 or_below_128)
  next
    case False
    have "\<not> ((ucast (bytes ! 0) :: u32) OR ucast (bytes ! 1) OR ucast (bytes ! 2) < 128)"
    proof (cases "s < 128"; cases "n < 128")
      assume "s < 128" "n < 128"
      with False varint_below_128 varint_from_128 [of m] show ?thesis by (auto simp: bytes_def or_below_128)
    next
      assume "s < 128" "\<not> n < 128"
      with varint_below_128 varint_from_128 [of n] show ?thesis by (auto simp: bytes_def or_below_128)
    qed (use varint_from_128 [of s] in \<open>auto simp: bytes_def or_below_128\<close>)
    with len have "decode_lengths bytes = do { (shared, r1) \<leftarrow> GetVarint32Ptr bytes; (non_shared, r2) \<leftarrow> GetVarint32Ptr r1;
        (value_length, r3) \<leftarrow> GetVarint32Ptr r2; Some (shared, non_shared, value_length, r3) }"
      by (simp add: decode_lengths_def Let_def)
    then show ?thesis by (simp add: bytes_def GetVarint32Ptr_Encode)
  qed
qed

lemma DecodeEntry_encoded:
  assumes "take (lim - p) (drop p data) = EncodeVarint32 s @ EncodeVarint32 n @ EncodeVarint32 m @ rest"
    and "unat n + unat m \<le> length rest" and "length rest < 2 ^ 32"
  shows "DecodeEntry data p lim = Some (s, n, m, p + length (EncodeVarint32 s @ EncodeVarint32 n @ EncodeVarint32 m))"
proof -
  have "\<not> (of_nat (length rest) :: u32) < n + m"
    using assms(2,3) by (simp add: word_less_nat_alt unat_word_ariths unat_of_nat)
  then show ?thesis unfolding DecodeEntry_def assms(1) by (simp add: decode_lengths_encoded)
qed

section \<open>The layout of a block\<close>

definition entry_bytes :: "nat \<Rightarrow> slice \<Rightarrow> slice \<Rightarrow> slice" where
  "entry_bytes shared k v =
     EncodeVarint32 (of_nat shared) @ EncodeVarint32 (of_nat (length k - shared)) @ EncodeVarint32 (of_nat (length v))
       @ drop shared k @ v"

text \<open>The entries with their offsets, their bytes and the restart points behind the first, from a state of the builder on.\<close>

fun layout :: "int \<Rightarrow> int \<Rightarrow> slice \<Rightarrow> nat \<Rightarrow> (slice \<times> slice) list \<Rightarrow> block_entry list \<times> slice \<times> nat list" where
  "layout interval counter last_key off [] = ([], [], [])"
| "layout interval counter last_key off ((k, v) # kvs) =
     (let restart = \<not> counter < interval;
          b = entry_bytes (if restart then 0 else diff_index last_key k) k v;
          (es, bs, rs) = layout interval (if restart then 1 else counter + 1) k (off + length b) kvs
      in ((off, k, v) # es, b @ bs, if restart then off # rs else rs))"

abbreviation add_entry :: "block_builder \<Rightarrow> slice \<times> slice \<Rightarrow> block_builder" where
  "add_entry b kv \<equiv> BlockBuilder_Add b (fst kv) (snd kv)"

lemma diff_index_prefix: "diff_index a b \<le> length a \<and> diff_index a b \<le> length b \<and> take (diff_index a b) a = take (diff_index a b) b"
  by (induction a b rule: diff_index.induct) auto

lemma add_layout:
  assumes "layout (bb_interval b) (bb_counter b) (bb_last_key b) (length (bb_buffer b)) kvs = (es, bs, rs)"
  shows "bb_buffer (foldl add_entry b kvs) = bb_buffer b @ bs \<and> bb_restarts (foldl add_entry b kvs) = bb_restarts b @ map of_nat rs"
  using assms
proof (induction kvs arbitrary: b es bs rs)
  case (Cons kv kvs)
  obtain k v where kv: "kv = (k, v)" by fastforce
  define restart where "restart \<longleftrightarrow> \<not> bb_counter b < bb_interval b"
  define shared where "shared = (if restart then 0 else diff_index (bb_last_key b) k)"
  define b1 where "b1 = BlockBuilder_Add b k v"
  have k: "take shared (bb_last_key b) @ drop shared k = k"
    using diff_index_prefix [of "bb_last_key b" k] by (auto simp: shared_def)
  have b1: "bb_buffer b1 = bb_buffer b @ entry_bytes shared k v" "bb_interval b1 = bb_interval b"
    "bb_counter b1 = (if restart then 1 else bb_counter b + 1)" "bb_last_key b1 = k"
    "bb_restarts b1 = bb_restarts b @ (if restart then [of_nat (length (bb_buffer b))] else [])"
    using k by (auto simp: b1_def BlockBuilder_Add_def Let_def restart_def shared_def entry_bytes_def PutVarint32_def)
  obtain es' bs' rs' where l: "layout (bb_interval b) (if restart then 1 else bb_counter b + 1) k
      (length (bb_buffer b) + length (entry_bytes shared k v)) kvs = (es', bs', rs')" by (metis prod_cases3)
  then have "bs = entry_bytes shared k v @ bs'" "rs = (if restart then length (bb_buffer b) # rs' else rs')"
    using Cons.prems by (auto simp: kv restart_def shared_def Let_def split: if_splits)
  moreover have "layout (bb_interval b1) (bb_counter b1) (bb_last_key b1) (length (bb_buffer b1)) kvs = (es', bs', rs')"
    using l by (simp add: b1)
  from Cons.IH [OF this] have "bb_buffer (foldl add_entry b1 kvs) = bb_buffer b1 @ bs'"
    "bb_restarts (foldl add_entry b1 kvs) = bb_restarts b1 @ map of_nat rs'" by auto
  ultimately show ?case by (simp add: kv b1_def [symmetric] b1)
qed simp

lemma laid_entry:
  assumes "data = pre @ entry_bytes shared k v @ bs @ post" and "lim = length pre + length (entry_bytes shared k v @ bs)"
    and "lim < 2 ^ 32" and "shared \<le> length prev" and "shared \<le> length k" and "take shared prev = take shared k"
    and "laid data lim (length pre + length (entry_bytes shared k v)) k es" and "length k < 2 ^ 32"
  shows "laid data lim (length pre) prev ((length pre, k, v) # es)"
proof -
  define s n m :: u32 where "s = of_nat shared" and "n = of_nat (length k - shared)" and "m = of_nat (length v)"
  define h where "h = EncodeVarint32 s @ EncodeVarint32 n @ EncodeVarint32 m"
  define p where "p = length pre + length h"
  have e: "entry_bytes shared k v = h @ drop shared k @ v" by (simp add: entry_bytes_def h_def s_def n_def m_def)
  have small: "length k - shared + length v + length bs < 2 ^ 32" "0 < length h"
    using assms(2,3) EncodeVarint32_Cons [of s] by (auto simp: e h_def)
  have u: "unat s = shared" "unat n = length k - shared" "unat m = length v"
    using small assms(5,8) unfolding s_def n_def m_def unat_of_nat by simp_all
  have "DecodeEntry data (length pre) lim = Some (s, n, m, p)"
    unfolding p_def h_def using small u by (intro DecodeEntry_encoded [where rest = "drop shared k @ v @ bs"]) (auto simp: assms(1,2) e h_def)
  moreover have d: "drop p data = drop shared k @ v @ bs @ post" by (simp add: assms(1) e p_def)
  moreover have "k = take shared prev @ take (length k - shared) (drop p data)"
    using assms(5,6) by (simp add: d)
  moreover have "v = take (length v) (drop (p + (length k - shared)) data)"
    using d by (metis append_eq_conv_conj drop_drop length_drop add.commute)
  moreover have "p + (length k - shared) + length v = length pre + length (entry_bytes shared k v)" by (simp add: p_def e)
  ultimately show ?thesis using assms(2,4,7) small u unfolding laid.simps by (auto simp: e p_def add.assoc)
qed

lemma layout_laid:
  assumes "layout interval counter last_key (length pre) kvs = (es, bs, rs)" and "data = pre @ bs @ post"
    and "lim = length pre + length bs" and "lim < 2 ^ 32" and "\<forall>kv\<in>set kvs. length (fst kv) < 2 ^ 32"
  shows "laid data lim (length pre) last_key es \<and> map snd es = kvs
    \<and> (\<forall>r\<in>set rs. \<exists>i<length es. laid data lim r [] (drop i es))"
  using assms
proof (induction kvs arbitrary: counter last_key pre es bs rs)
  case (Cons kv kvs)
  obtain k v where kv: "kv = (k, v)" by fastforce
  define restart where "restart \<longleftrightarrow> \<not> counter < interval"
  define shared where "shared = (if restart then 0 else diff_index last_key k)"
  define b where "b = entry_bytes shared k v"
  obtain es' bs' rs' where l: "layout interval (if restart then 1 else counter + 1) k (length (pre @ b)) kvs = (es', bs', rs')"
    by (metis prod_cases3)
  then have r: "es = (length pre, k, v) # es'" "bs = b @ bs'" "rs = (if restart then length pre # rs' else rs')"
    using Cons.prems(1) by (auto simp: kv restart_def shared_def b_def Let_def split: if_splits)
  have ih: "laid data lim (length (pre @ b)) k es' \<and> map snd es' = kvs \<and> (\<forall>r\<in>set rs'. \<exists>i<length es'. laid data lim r [] (drop i es'))"
    using Cons.prems r by (intro Cons.IH [OF l]) auto
  have sh: "shared \<le> length last_key" "shared \<le> length k" "take shared last_key = take shared k"
    using diff_index_prefix [of last_key k] by (auto simp: shared_def)
  have k: "length k < 2 ^ 32" using Cons.prems(5) by (simp add: kv)
  have laid: "laid data lim (length pre) prev es"
    if "shared \<le> length prev" "take shared prev = take shared k" for prev
    unfolding r(1) by (rule laid_entry [where bs = bs' and post = post]) (use Cons.prems that sh(2) ih k in \<open>auto simp: r b_def\<close>)
  have "\<exists>i<length es. laid data lim a [] (drop i es)" if "a \<in> set rs'" for a
    using ih that r(1) by (metis Suc_less_eq drop_Suc_Cons length_Cons)
  moreover have "laid data lim (length pre) [] (drop 0 es)" if restart using laid [of "[]"] that by (simp add: shared_def)
  ultimately show ?case using laid [OF sh(1,3)] ih r kv by (auto intro!: exI [of _ 0])
qed auto

section \<open>Finished blocks\<close>

lemma foldl_PutFixed32: "foldl PutFixed32 buffer rs = buffer @ concat (map EncodeFixed32 rs)"
  by (induction rs arbitrary: buffer) (simp_all add: PutFixed32_def)

lemma length_concat_fixed32: "length (concat (map EncodeFixed32 rs)) = 4 * length rs"
  by (induction rs) simp_all

lemma DecodeFixed32_nth: "j < length rs \<Longrightarrow> DecodeFixed32 (drop (j * 4) (concat (map EncodeFixed32 rs) @ post)) = rs ! j"
proof (induction rs arbitrary: j)
  case (Cons r rs)
  then show ?case by (cases j) (simp_all add: algebra_simps)
qed simp

text \<open>The block of a sequence of entries.\<close>

definition build_block :: "int \<Rightarrow> (slice \<times> slice) list \<Rightarrow> slice" where
  "build_block interval kvs = fst (BlockBuilder_Finish (foldl add_entry (BlockBuilder_new interval) kvs))"

lemma build_block_ok:
  assumes "1 \<le> interval" and "length (build_block interval kvs) < 2 ^ 32" and "\<forall>kv\<in>set kvs. length (fst kv) < 2 ^ 32"
  obtains lim rs es where "block_ok (build_block interval kvs) lim rs es" and "map snd es = kvs"
    and "Block_NewIterator (Block_new (build_block interval kvs)) = Block_Iter (BlockIter_new (build_block interval kvs) lim (length rs))"
proof -
  define data where "data = build_block interval kvs"
  obtain es bs rs1 where l: "layout interval 0 [] 0 kvs = (es, bs, rs1)" by (metis prod_cases3)
  define rs where "rs = 0 # rs1"
  define post where "post = concat (map EncodeFixed32 (map of_nat rs)) @ EncodeFixed32 (of_nat (length rs))"
  define lim where "lim = length bs"
  have data: "data = bs @ post"
    using add_layout [of "BlockBuilder_new interval" kvs es bs rs1] l
    by (simp add: data_def build_block_def BlockBuilder_Finish_def Let_def BlockBuilder_new_def foldl_PutFixed32 PutFixed32_def post_def rs_def)
  have len: "length data = lim + 4 * length rs + 4"
    by (simp add: data post_def lim_def length_concat_fixed32 del: map_map)
  have small: "lim + 4 * length rs + 4 < 2 ^ 32" using assms(2) len by (simp add: data_def)
  have laid: "laid data lim 0 [] es \<and> map snd es = kvs \<and> (\<forall>r\<in>set rs1. \<exists>i<length es. laid data lim r [] (drop i es))"
    using layout_laid [of interval 0 "[]" "[]" kvs es bs rs1 data post lim] l data small assms(3) by (simp add: lim_def)
  have "unat (DecodeFixed32 (drop (lim + j * 4) data)) = rs ! j" if "j < length rs" for j
  proof -
    have "DecodeFixed32 (drop (lim + j * 4) data) = of_nat (rs ! j)"
      using that DecodeFixed32_nth [of j "map of_nat rs" "EncodeFixed32 (of_nat (length rs))"] by (simp add: data lim_def post_def del: map_map)
    moreover have "rs ! j < 2 ^ 32"
    proof (cases j)
      case (Suc j')
      with that have "rs ! j \<in> set rs1" by (simp add: rs_def)
      with laid obtain i where "laid data lim (rs ! j) [] (drop i es)" by blast
      from laid_le [OF this] small show ?thesis by simp
    qed (simp add: rs_def)
    ultimately show ?thesis by (simp add: unat_of_nat)
  qed
  moreover have "\<exists>i. (j = 0 \<longrightarrow> i = 0) \<and> (0 < j \<longrightarrow> i < length es) \<and> laid data lim (rs ! j) [] (drop i es)" if "j < length rs" for j
  proof (cases j)
    case (Suc j')
    with that have "rs ! j \<in> set rs1" by (simp add: rs_def)
    with laid Suc show ?thesis by blast
  qed (use laid in \<open>simp add: rs_def\<close>)
  ultimately have "block_ok data lim rs es" using small laid len by (simp add: block_ok_def rs_def)
  moreover have "Block_NewIterator (Block_new data) = Block_Iter (BlockIter_new data lim (length rs))"
  proof -
    have "drop (length data - 4) data = EncodeFixed32 (of_nat (length rs)) @ []"
      by (simp add: data post_def length_concat_fixed32 del: map_map)
    then have n: "NumRestarts data (length data) = length rs"
      using small DecodeFixed32_Encode [of "of_nat (length rs)" "[]"] by (simp add: NumRestarts_def unat_of_nat)
    have "Block_new data = \<lparr>bl_data = data, bl_size = length data, bl_restart_offset = lim\<rparr>"
      using small by (simp add: Block_new_def Let_def n [unfolded len] len)
    then show ?thesis using len n by (simp add: Block_NewIterator_def rs_def)
  qed
  ultimately show thesis using that laid by (simp add: data_def)
qed

end
