(* ===== verification/Ldb_Block_Safe.thy ===== *)
theory Ldb_Block_Safe
  imports Ldb_Block
begin

text \<open>
  Iterators of arbitrary blocks, also corrupted ones: whatever the contents are, the operations end, the restart
  array is read inside the block and the state stays well-formed, unless the lengths of an entry wrap and the operation
  reads behind the block.
\<close>

section \<open>Entries\<close>

lemma decode_lengths_shorter:
  assumes "decode_lengths bytes = Some (s, n, m, rest)"
  shows "length rest < length bytes"
proof -
  consider "3 \<le> length bytes" "rest = drop 3 bytes"
    | r1 r2 where "GetVarint32Ptr bytes = Some (s, r1)" "GetVarint32Ptr r1 = Some (n, r2)" "GetVarint32Ptr r2 = Some (m, rest)"
    using assms by (auto simp: decode_lengths_def Let_def not_less split: if_splits bind_splits)
  then show ?thesis
  proof cases
    case 2
    from this [folded GetVarint32_def] have "length r1 < length bytes" "length r2 < length r1" "length rest < length r2"
      by (simp_all add: GetVarint32_shorter)
    then show ?thesis by linarith
  qed simp
qed

lemma DecodeEntry_inside: "DecodeEntry data p lim = Some (s, n, m, q) \<Longrightarrow> p < lim"
  by (auto simp: DecodeEntry_def decode_lengths_def Let_def split: if_splits bind_splits)

text \<open>A decoded entry makes progress, and the next entry, computed modulo \<open>2^32\<close>, begins inside the block.\<close>

lemma DecodeEntry_progress:
  assumes "DecodeEntry data p lim = Some (s, n, m, q)" and "p < lim" and "lim \<le> length data" and "lim < 2 ^ 32"
  shows "p < q" and "(q + unat n + unat m) mod 2 ^ 32 = q + unat (n + m)" and "q + unat (n + m) \<le> lim"
proof -
  define bytes where "bytes = take (lim - p) (drop p data)"
  obtain rest where d: "decode_lengths bytes = Some (s, n, m, rest)" "\<not> (of_nat (length rest) :: u32) < n + m"
    "q = p + (length bytes - length rest)"
    using assms(1) by (auto simp: DecodeEntry_def bytes_def [symmetric] Let_def split: bind_splits if_splits)
  have l: "length bytes = lim - p" "length rest < length bytes"
    using assms(2,3) decode_lengths_shorter [OF d(1)] by (simp_all add: bytes_def)
  then show "p < q" using d(3) by simp
  have "unat (n + m) \<le> length rest" using d(2) l assms(4) by (simp add: word_less_nat_alt unat_of_nat not_less)
  then show le: "q + unat (n + m) \<le> lim" using d(3) l assms(2) by simp
  have "(q + unat n + unat m) mod 2 ^ 32 = (q + unat (n + m)) mod 2 ^ 32" by (simp add: unat_word_ariths mod_add_right_eq add.assoc)
  then show "(q + unat n + unat m) mod 2 ^ 32 = q + unat (n + m)" using le assms(4) by simp
qed

section \<open>Well-formed iterators\<close>

definition iter_wf :: "block_iter \<Rightarrow> bool" where
  "iter_wf it \<longleftrightarrow> 0 < bi_num_restarts it \<and> bi_restarts it + 4 * bi_num_restarts it + 4 \<le> length (bi_data it)
     \<and> length (bi_data it) < 2 ^ 32 \<and> bi_current it \<le> bi_restarts it \<and> bi_restart_index it \<le> bi_num_restarts it"

definition same_block :: "block_iter \<Rightarrow> block_iter \<Rightarrow> bool" where
  "same_block it it' \<longleftrightarrow> bi_data it' = bi_data it \<and> bi_restarts it' = bi_restarts it \<and> bi_num_restarts it' = bi_num_restarts it"

lemma same_block_trans: "same_block a b \<Longrightarrow> same_block b c \<Longrightarrow> same_block a c"
  by (simp add: same_block_def)

lemma NewIterator_wf:
  assumes "length contents < 2 ^ 32" and "Block_NewIterator (Block_new contents) = Block_Iter it"
  shows "iter_wf it"
  using assms by (auto simp: Block_NewIterator_def Block_new_def BlockIter_new_def iter_wf_def Let_def split: if_splits)

lemma advance_restart_le: "i \<le> bi_num_restarts it \<Longrightarrow> advance_restart it i \<le> bi_num_restarts it"
  by (induction it i rule: advance_restart.induct) (subst advance_restart.simps, auto)

lemma SeekToRestartPoint_wf: "iter_wf it \<Longrightarrow> j < bi_num_restarts it \<Longrightarrow> iter_wf (SeekToRestartPoint it j) \<and> same_block it (SeekToRestartPoint it j)"
  by (simp add: iter_wf_def SeekToRestartPoint_def same_block_def)

text \<open>Some entry has a key and a value whose lengths, added as 32-bit numbers, wrap.\<close>

definition lengths_wrap :: "block_iter \<Rightarrow> bool" where
  "lengths_wrap it \<longleftrightarrow> (\<exists>p s n m q. p < bi_restarts it \<and> DecodeEntry (bi_data it) p (bi_restarts it) = Some (s, n, m, q)
     \<and> 2 ^ 32 \<le> unat n + unat m)"

text \<open>
  An operation ends with a well-formed iterator of the same block, whose value lies in the block when it is at an entry.
  Only if the lengths of an entry wrap, it may also read behind the block.
\<close>

definition iter_result :: "block_iter \<Rightarrow> block_iter option \<Rightarrow> bool" where
  "iter_result it r \<longleftrightarrow> (case r of
       None \<Rightarrow> lengths_wrap it
     | Some it' \<Rightarrow> iter_wf it' \<and> same_block it it' \<and> (BlockIter_Valid it' \<and> BlockIter_value it' = None \<longrightarrow> lengths_wrap it))"

lemma same_block_wrap: "same_block it it' \<Longrightarrow> lengths_wrap it' \<longleftrightarrow> lengths_wrap it"
  by (simp add: same_block_def lengths_wrap_def)

lemma iter_result_trans: "same_block it it' \<Longrightarrow> iter_result it' r \<Longrightarrow> iter_result it r"
  by (auto simp: iter_result_def same_block_wrap intro: same_block_trans split: option.splits)

lemma iter_result_end:
  "iter_wf it \<Longrightarrow> iter_result it (Some (it\<lparr>bi_current := bi_restarts it, bi_restart_index := bi_num_restarts it\<rparr>))"
  by (simp add: iter_result_def iter_wf_def same_block_def BlockIter_Valid_def)

lemma iter_result_CorruptionError: "iter_wf it \<Longrightarrow> iter_result it (Some (CorruptionError it))"
  by (simp add: iter_result_def iter_wf_def same_block_def BlockIter_Valid_def CorruptionError_def)

lemma block_slice_wrap:
  assumes "DecodeEntry (bi_data it) p (bi_restarts it) = Some (s, n, m, q)" and "p < bi_restarts it" and "iter_wf it"
    and "block_slice (bi_data it) q (unat n) = None \<or> block_slice (bi_data it) (q + unat n) (unat m) = None"
  shows "lengths_wrap it"
proof -
  have "q + unat (n + m) \<le> length (bi_data it)"
    using DecodeEntry_progress(3) [OF assms(1,2)] assms(3) by (simp add: iter_wf_def)
  then have "2 ^ 32 \<le> unat n + unat m"
    using assms(4) by (rule_tac ccontr) (auto simp: block_slice_def unat_word_ariths split: if_splits)
  with assms(1,2) show ?thesis by (auto simp: lengths_wrap_def)
qed

lemma ParseNextKey_wf:
  assumes "iter_wf it"
  shows "iter_result it (map_option snd (ParseNextKey it))"
    and "ParseNextKey it = Some (True, it') \<Longrightarrow>
      NextEntryOffset it < NextEntryOffset it' \<and> NextEntryOffset it' \<le> bi_restarts it \<and> iter_wf it' \<and> same_block it it'"
proof -
  define a where "a = NextEntryOffset it"
  define it0 where "it0 = it\<lparr>bi_current := a\<rparr>"
  consider (last) "bi_restarts it \<le> a"
    | (bad) "a < bi_restarts it" "ParseNextKey it = Some (False, CorruptionError it0)"
    | (entry) s n m q where "a < bi_restarts it" "DecodeEntry (bi_data it) a (bi_restarts it) = Some (s, n, m, q)"
      "unat s \<le> length (bi_key it)"
    by (cases "DecodeEntry (bi_data it) a (bi_restarts it)") (fastforce simp: ParseNextKey_def a_def it0_def Let_def)+
  then have "iter_result it (map_option snd (ParseNextKey it)) \<and> (\<forall>it'. ParseNextKey it = Some (True, it') \<longrightarrow>
      NextEntryOffset it < NextEntryOffset it' \<and> NextEntryOffset it' \<le> bi_restarts it \<and> iter_wf it' \<and> same_block it it')"
  proof cases
    case last
    then show ?thesis using assms iter_result_end [of it] by (auto simp: ParseNextKey_def a_def)
  next
    case bad
    with assms have "iter_result it (Some (CorruptionError it0))"
      by (simp add: it0_def iter_result_def iter_wf_def same_block_def BlockIter_Valid_def CorruptionError_def)
    with bad show ?thesis by simp
  next
    case entry
    note p = DecodeEntry_progress [OF entry(2,1)]
    show ?thesis
    proof (cases "block_slice (bi_data it) q (unat n)")
      case None
      then have "ParseNextKey it = None" using entry by (simp add: ParseNextKey_def a_def Let_def)
      then show ?thesis using block_slice_wrap [OF entry(2,1) assms] None by (simp add: iter_result_def)
    next
      case (Some delta)
      define it1 where "it1 = it\<lparr>bi_current := a, bi_key := take (unat s) (bi_key it) @ delta,
        bi_value_pos := q + unat n, bi_value_len := unat m\<rparr>"
      define it' where "it' = it1\<lparr>bi_restart_index := advance_restart it1 (bi_restart_index it1)\<rparr>"
      have parse: "ParseNextKey it = Some (True, it')"
        using entry Some by (simp add: ParseNextKey_def a_def Let_def it1_def it'_def)
      have "NextEntryOffset it' = q + unat (n + m)"
        using p(2) assms by (simp add: it'_def it1_def NextEntryOffset_def iter_wf_def)
      then have ahead: "NextEntryOffset it < NextEntryOffset it' \<and> NextEntryOffset it' \<le> bi_restarts it"
        using p assms by (simp add: iter_wf_def a_def)
      have wf: "iter_wf it' \<and> same_block it it'"
        using assms entry(1) advance_restart_le [of "bi_restart_index it1" it1]
        by (simp add: it'_def it1_def iter_wf_def same_block_def)
      have "BlockIter_value it' = None \<longrightarrow> lengths_wrap it"
        using block_slice_wrap [OF entry(2,1) assms] by (simp add: it'_def it1_def BlockIter_value_def)
      with parse ahead wf show ?thesis by (simp add: iter_result_def)
    qed
  qed
  then show "iter_result it (map_option snd (ParseNextKey it))"
    and "ParseNextKey it = Some (True, it') \<Longrightarrow>
      NextEntryOffset it < NextEntryOffset it' \<and> NextEntryOffset it' \<le> bi_restarts it \<and> iter_wf it' \<and> same_block it it'" by blast+
qed

text \<open>The loops over entries end, since every entry makes progress.\<close>

lemma scan_loop_wf: "iter_wf it \<Longrightarrow> \<exists>r. scan_loop bound it = Some r \<and> iter_result it r"
proof (induction "bi_restarts it - NextEntryOffset it" arbitrary: it rule: less_induct)
  case less
  note wf = ParseNextKey_wf [OF less.prems]
  show ?case
  proof (cases "\<exists>it1. ParseNextKey it = Some (True, it1) \<and> NextEntryOffset it1 < bound")
    case True
    then obtain it1 where p: "ParseNextKey it = Some (True, it1)" "NextEntryOffset it1 < bound" by blast
    with wf(2) [OF p(1)] have "\<exists>r. scan_loop bound it1 = Some r \<and> iter_result it1 r"
      by (intro less.hyps) (auto simp: same_block_def)
    with p wf(2) [OF p(1)] show ?thesis by (subst scan_loop.simps) (auto intro: iter_result_trans)
  next
    case False
    with wf(1) show ?thesis by (subst scan_loop.simps) (auto split: option.splits)
  qed
qed

lemma seek_linear_wf: "iter_wf it \<Longrightarrow> \<exists>r. seek_linear cmp target it = Some r \<and> iter_result it r"
proof (induction "bi_restarts it - NextEntryOffset it" arbitrary: it rule: less_induct)
  case less
  note wf = ParseNextKey_wf [OF less.prems]
  show ?case
  proof (cases "\<exists>it1. ParseNextKey it = Some (True, it1) \<and> cmp (bi_key it1) target < 0")
    case True
    then obtain it1 where p: "ParseNextKey it = Some (True, it1)" "cmp (bi_key it1) target < 0" by blast
    with wf(2) [OF p(1)] have "\<exists>r. seek_linear cmp target it1 = Some r \<and> iter_result it1 r"
      by (intro less.hyps) (auto simp: same_block_def)
    with p wf(2) [OF p(1)] show ?thesis by (subst seek_linear.simps) (auto intro: iter_result_trans)
  next
    case False
    with wf(1) show ?thesis by (subst seek_linear.simps) (auto split: option.splits)
  qed
qed

lemma seek_binary_total:
  assumes "2 * bi_num_restarts it \<le> 2 ^ 32" and "iter_wf it"
  shows "left \<le> right \<Longrightarrow> right < bi_num_restarts it \<Longrightarrow>
    \<exists>r. seek_binary cmp target it left right = Some r \<and> (\<forall>j. r = Seek_from j \<longrightarrow> j < bi_num_restarts it)
      \<and> (r = Behind_block \<longrightarrow> lengths_wrap it)"
proof (induction "right - left" arbitrary: left right rule: less_induct)
  case less
  show ?case
  proof (cases "left < right")
    case False
    with less.prems show ?thesis by (subst seek_binary.simps) simp
  next
    case True
    define mid where "mid = (left + right + 1) div 2"
    have mid: "left < mid" "mid \<le> right" using True by (auto simp: mid_def)
    have m: "(left + right + 1) mod 2 ^ 32 div 2 = mid" "(mid + 2 ^ 32 - 1) mod 2 ^ 32 = mid - 1"
      using mid less.prems(2) assms by (simp_all add: mid_def mod_if)
    have "\<exists>r. seek_binary cmp target it mid right = Some r \<and> (\<forall>j. r = Seek_from j \<longrightarrow> j < bi_num_restarts it)
        \<and> (r = Behind_block \<longrightarrow> lengths_wrap it)"
      "\<exists>r. seek_binary cmp target it left (mid - 1) = Some r \<and> (\<forall>j. r = Seek_from j \<longrightarrow> j < bi_num_restarts it)
        \<and> (r = Behind_block \<longrightarrow> lengths_wrap it)"
      using mid less.prems by (auto intro!: less.hyps)
    moreover have "lengths_wrap it" if "DecodeEntry (bi_data it) (GetRestartPoint it mid) (bi_restarts it) = Some (s, n, v, p)"
      "block_slice (bi_data it) p (unat n) = None" for s n v p
      using block_slice_wrap [OF that(1) DecodeEntry_inside [OF that(1)] assms(2)] that(2) by blast
    ultimately show ?thesis using True m
      by (subst seek_binary.simps) (auto simp: Let_def split: option.splits)
  qed
qed

lemma prev_restart_le: "prev_restart it original i = Some j \<Longrightarrow> j \<le> i"
  by (induction i) (auto split: if_splits)

end
