(* ===== verification/Ldb_Block_Props.thy ===== *)
theory Ldb_Block_Props
  imports Ldb_Block_Build Ldb_Block_Safe
begin

text \<open>The properties of blocks.\<close>

section \<open>Reading what was built\<close>

text \<open>The entries that an iterator yields from its position on.\<close>

fun read_entries :: "nat \<Rightarrow> block_iter \<Rightarrow> (slice \<times> slice) list option" where
  "read_entries 0 it = Some []"
| "read_entries (Suc n) it =
     (if BlockIter_Valid it then do {
        v \<leftarrow> BlockIter_value it;
        it' \<leftarrow> BlockIter_Next it;
        es \<leftarrow> read_entries n it';
        Some ((bi_key it, v) # es)
      } else Some [])"

lemma block_at_entry:
  assumes "block_ok data lim rs es" and "block_at data lim rs es it i"
  shows "BlockIter_Valid it \<longleftrightarrow> i < length es"
    and "i < length es \<Longrightarrow> BlockIter_value it = Some (snd (snd (es ! i))) \<and> bi_key it = entry_key (es ! i)"
    and "i < length es \<Longrightarrow> \<exists>it'. BlockIter_Next it = Some it' \<and> block_at data lim rs es it' (Suc i)"
proof -
  show "BlockIter_Valid it \<longleftrightarrow> i < length es"
    using assms(2) by (auto simp: block_at_def at_entry_def at_end_def pending_def it_on_def BlockIter_Valid_def split: if_splits)
  show "BlockIter_value it = Some (snd (snd (es ! i))) \<and> bi_key it = entry_key (es ! i)" if "i < length es"
    using assms(2) that by (simp add: block_at_def at_entry_def)
  show "\<exists>it'. BlockIter_Next it = Some it' \<and> block_at data lim rs es it' (Suc i)" if "i < length es"
    using block_at_Next [OF assms(1), of it "Suc i"] assms(2) that by (auto simp: BlockIter_Next_def block_at_def at_entry_def)
qed

lemma read_entries_from:
  assumes ok: "block_ok data lim rs es"
  shows "block_at data lim rs es it i \<Longrightarrow> length es \<le> i + n \<Longrightarrow> read_entries n it = Some (map snd (drop i es))"
proof (induction n arbitrary: it i)
  case (Suc n)
  note at = block_at_entry [OF ok Suc.prems(1)]
  show ?case
  proof (cases "i < length es")
    case True
    then obtain it' where "BlockIter_Next it = Some it'" "read_entries n it' = Some (map snd (drop (Suc i) es))"
      using Suc at(3) by fastforce
    then show ?thesis using True at(1,2) by (simp add: Cons_nth_drop_Suc [symmetric])
  qed (simp add: at(1))
qed simp

lemma build_block_iterator:
  assumes "1 \<le> interval" and "length (build_block interval kvs) < 2 ^ 32" and "\<forall>kv\<in>set kvs. length (fst kv) < 2 ^ 32"
  shows "\<exists>it. Block_NewIterator (Block_new (build_block interval kvs)) = Block_Iter it"
  using build_block_ok [OF assms] by blast

text \<open>
  C32. A block gives back what was added to it: an iterator of the finished block, moved to the first entry and then
  forward, yields all entries with their values in order; from every entry it moves to the next and to
  the one before, and it can start at the last.
\<close>
theorem block_roundtrip:
  assumes "1 \<le> interval" and "length (build_block interval kvs) < 2 ^ 32" and "\<forall>kv\<in>set kvs. length (fst kv) < 2 ^ 32"
  shows "\<exists>it at. Block_NewIterator (Block_new (build_block interval kvs)) = Block_Iter it
    \<and> (\<exists>it'. BlockIter_SeekToFirst it = Some it' \<and> at it' 0 \<and> (\<forall>n\<ge>length kvs. read_entries n it' = Some kvs))
    \<and> (\<exists>it'. BlockIter_SeekToLast it = Some (Some it') \<and> at it' (length kvs - 1))
    \<and> (\<forall>it' i. at it' i \<longrightarrow> BlockIter_Valid it' = (i < length kvs)
         \<and> (i < length kvs \<longrightarrow> (\<exists>v. BlockIter_value it' = Some v \<and> (bi_key it', v) = kvs ! i)
              \<and> (\<exists>s. BlockIter_Next it' = Some s \<and> at s (i + 1))
              \<and> (\<exists>p. BlockIter_Prev it' = Some (Some p) \<and> at p (if i = 0 then length kvs else i - 1))))"
proof -
  obtain lim rs es where ok: "block_ok (build_block interval kvs) lim rs es" and es: "map snd es = kvs"
    and it: "Block_NewIterator (Block_new (build_block interval kvs)) = Block_Iter (BlockIter_new (build_block interval kvs) lim (length rs))"
    using build_block_ok [OF assms] by blast
  define i0 where "i0 = BlockIter_new (build_block interval kvs) lim (length rs)"
  have on: "it_on (build_block interval kvs) lim rs i0" by (simp add: it_on_def BlockIter_new_def i0_def)
  have len: "length es = length kvs" using es by auto
  define at where "at = block_at (build_block interval kvs) lim rs es"
  have first: "\<exists>it'. BlockIter_SeekToFirst i0 = Some it' \<and> at it' 0 \<and> (\<forall>n\<ge>length kvs. read_entries n it' = Some kvs)"
  proof -
    obtain it' where it': "BlockIter_SeekToFirst i0 = Some it'" "at it' 0" using block_at_SeekToFirst [OF ok on] unfolding at_def by blast
    have "read_entries n it' = Some kvs" if "length kvs \<le> n" for n
      using read_entries_from [OF ok it'(2) [unfolded at_def], of n] that es len by simp
    with it' show ?thesis by blast
  qed
  have final: "\<exists>it'. BlockIter_SeekToLast i0 = Some (Some it') \<and> at it' (length kvs - 1)"
    using block_at_SeekToLast [OF ok on] by (simp add: at_def len)
  have valid: "BlockIter_Valid it' = (i < length kvs)" if "at it' i" for it' i
    using block_at_entry(1) [OF ok that [unfolded at_def]] len by simp
  have entry: "\<exists>v. BlockIter_value it' = Some v \<and> (bi_key it', v) = kvs ! i" "\<exists>s. BlockIter_Next it' = Some s \<and> at s (i + 1)"
      "\<exists>p. BlockIter_Prev it' = Some (Some p) \<and> at p (if i = 0 then length kvs else i - 1)" if "at it' i" "i < length kvs" for it' i
  proof -
    have i: "i < length es" using that(2) len by simp
    note a = that(1) [unfolded at_def]
    show "\<exists>v. BlockIter_value it' = Some v \<and> (bi_key it', v) = kvs ! i"
      using block_at_entry(2) [OF ok a i] i by (simp add: es [symmetric])
    show "\<exists>s. BlockIter_Next it' = Some s \<and> at s (i + 1)" using block_at_entry(3) [OF ok a i] by (simp add: at_def)
    show "\<exists>p. BlockIter_Prev it' = Some (Some p) \<and> at p (if i = 0 then length kvs else i - 1)"
      using block_at_Prev [OF ok a i] unfolding at_def len .
  qed
  show ?thesis
    by (rule exI [of _ i0], rule exI [of _ at], intro conjI allI impI it [folded i0_def] first final valid entry)
qed

theorem block_roundtrip_witness:
  "\<exists>it it'. Block_NewIterator (Block_new (build_block 2 [([1], [9]), ([1, 2], []), ([1, 2, 3], [7])])) = Block_Iter it
     \<and> BlockIter_SeekToFirst it = Some it' \<and> read_entries 5 it' = Some [([1], [9]), ([1, 2], []), ([1, 2, 3], [7])]"
proof -
  have "length (build_block 2 [([1], [9]), ([1, 2], []), ([1, 2, 3], [7])]) < 2 ^ 32"
    by (simp add: build_block_def BlockBuilder_Finish_def BlockBuilder_Add_def BlockBuilder_new_def Let_def PutVarint32_def
        EncodeVarint32_def PutFixed32_def)
  from block_roundtrip [OF _ this] show ?thesis by fastforce
qed

text \<open>
  C33. Seeking in a block finds the first entry at or after the target, or the end, when the keys were added in order:
  the binary search over the restart points and the scan behind it agree with a linear search.
\<close>
theorem block_seek_first:
  assumes "compare_order valid cmp" and "1 \<le> interval" and "length (build_block interval kvs) < 2 ^ 32"
    and "\<forall>kv\<in>set kvs. length (fst kv) < 2 ^ 32 \<and> valid (fst kv)" and "sorted_wrt (\<lambda>a b. cmp (fst a) (fst b) < 0) kvs"
    and "valid target" and "Block_NewIterator (Block_new (build_block interval kvs)) = Block_Iter it"
  shows "\<exists>it'. BlockIter_Seek cmp target it = Some (Some it')
    \<and> read_entries (length kvs) it' = Some (dropWhile (\<lambda>kv. cmp (fst kv) target < 0) kvs)"
proof -
  have "\<forall>kv\<in>set kvs. length (fst kv) < 2 ^ 32" using assms(4) by blast
  then obtain lim rs es where ok: "block_ok (build_block interval kvs) lim rs es" and es: "map snd es = kvs"
    and it: "Block_NewIterator (Block_new (build_block interval kvs)) = Block_Iter (BlockIter_new (build_block interval kvs) lim (length rs))"
    using build_block_ok [OF assms(2,3)] by blast
  have on: "it_on (build_block interval kvs) lim rs it" using assms(7) it by (auto simp: it_on_def BlockIter_new_def)
  have "sorted_wrt (\<lambda>a b. cmp (entry_key a) (entry_key b) < 0) es" using assms(5) es by (auto simp: sorted_wrt_map)
  moreover have "\<forall>e\<in>set es. valid (entry_key e)" using assms(4) unfolding es [symmetric] by simp
  ultimately obtain it' where it': "BlockIter_Seek cmp target it = Some (Some it')"
    "block_at (build_block interval kvs) lim rs es it' (length (takeWhile (\<lambda>e. cmp (entry_key e) target < 0) es))"
    using block_at_Seek [OF assms(1) ok on _ _ assms(6)] by blast
  have "read_entries (length kvs) it' = Some (map snd (dropWhile (\<lambda>e. cmp (entry_key e) target < 0) es))"
    using read_entries_from [OF ok it'(2), of "length kvs"] es by (auto simp: dropWhile_eq_drop)
  also have "\<dots> = Some (dropWhile (\<lambda>kv. cmp (fst kv) target < 0) kvs)" by (simp add: es [symmetric] dropWhile_map comp_def)
  finally show ?thesis using it'(1) by blast
qed

theorem block_seek_first_witness:
  "\<exists>it it'. Block_NewIterator (Block_new (build_block 1 [([1], [9]), ([3], [7])])) = Block_Iter it
     \<and> BlockIter_Seek Bytewise_Compare [2] it = Some (Some it') \<and> read_entries 2 it' = Some [([3], [7])]"
proof -
  have l: "length (build_block 1 [([1], [9]), ([3], [7])]) < 2 ^ 32"
    by (simp add: build_block_def BlockBuilder_Finish_def BlockBuilder_Add_def BlockBuilder_new_def Let_def PutVarint32_def
        EncodeVarint32_def PutFixed32_def)
  obtain it where it: "Block_NewIterator (Block_new (build_block 1 [([1], [9]), ([3], [7])])) = Block_Iter it"
    using build_block_iterator [OF _ l] by auto
  from block_seek_first [OF bytewise.compare_order_axioms _ l _ _ _ it, of "[2]"]
  have "\<exists>it'. BlockIter_Seek Bytewise_Compare [2] it = Some (Some it') \<and> read_entries 2 it' = Some [([3], [7])]"
    by (simp del: read_entries.simps add: numeral_2_eq_2 [symmetric])
  with it show ?thesis by blast
qed

section \<open>Arbitrary blocks\<close>

text \<open>An entry whose key has \<open>2^32 - 1\<close> bytes and whose value has one, so that together they have none.\<close>

abbreviation wrapping_block :: slice where
  "wrapping_block \<equiv> [0, 255, 255, 255, 255, 15, 1, 0, 0, 0, 0, 1, 0, 0, 0]"

lemma wrapping_block_entry: "DecodeEntry wrapping_block 0 7 = Some (0, 0xFFFFFFFF, 1, 7)"
proof -
  have "take (7 - 0) (drop 0 wrapping_block) = EncodeVarint32 0 @ EncodeVarint32 0xFFFFFFFF @ EncodeVarint32 1 @ []"
    by (simp add: EncodeVarint32_def)
  moreover have "length (EncodeVarint32 0 @ EncodeVarint32 0xFFFFFFFF @ EncodeVarint32 1) = 7" by (simp add: EncodeVarint32_def)
  ultimately show ?thesis using decode_lengths_encoded [of 0 "0xFFFFFFFF" 1 "[]"] unfolding DecodeEntry_def by simp
qed

lemma wrapping_block_iterator: "Block_NewIterator (Block_new wrapping_block) = Block_Iter (BlockIter_new wrapping_block 7 1)"
  by (simp add: Block_NewIterator_def Block_new_def NumRestarts_def DecodeFixed32_def)

lemma wrapping_block_first: "BlockIter_SeekToFirst (BlockIter_new wrapping_block 7 1) = None"
  using wrapping_block_entry
  by (simp add: BlockIter_SeekToFirst_def ParseNextKey_def SeekToRestartPoint_def BlockIter_new_def GetRestartPoint_def
      NextEntryOffset_def DecodeFixed32_def block_slice_def)

text \<open>
  C34. Iterators on every block of less than \<open>2^32\<close> bytes, whatever its contents: the restart array lies inside the block,
  and every operation that may be called ends, with a well-formed iterator of the same block whose value lies in the
  block, as long as the lengths of no entry wrap. Only if those of some entry do, an operation or the value may
  instead read behind the block; there is a block of fifteen bytes where moving to the first entry does.
\<close>
theorem block_iterator_wf:
  assumes "length contents < 2 ^ 32" and "Block_NewIterator (Block_new contents) = Block_Iter it0"
    and "iter_wf it" and "same_block it0 it"
  shows "iter_wf it0 \<and> (\<forall>j<bi_num_restarts it. bi_restarts it + j * 4 + 4 \<le> length (bi_data it))
    \<and> iter_result it0 (BlockIter_SeekToFirst it)
    \<and> (\<exists>r. BlockIter_SeekToLast it = Some r \<and> iter_result it0 r)
    \<and> (\<exists>r. BlockIter_Seek cmp target it = Some r \<and> iter_result it0 r)
    \<and> iter_result it0 (BlockIter_Next it)
    \<and> (bi_restart_index it < bi_num_restarts it \<longrightarrow> (\<exists>r. BlockIter_Prev it = Some r \<and> iter_result it0 r))
    \<and> (\<exists>bad it1. length bad = 15 \<and> Block_NewIterator (Block_new bad) = Block_Iter it1 \<and> BlockIter_SeekToFirst it1 = None)"
proof -
  have n: "0 < bi_num_restarts it" "2 * bi_num_restarts it \<le> 2 ^ 32" using assms(3) by (auto simp: iter_wf_def)
  note from_it = iter_result_trans [OF assms(4)]
  have restart: "iter_wf (SeekToRestartPoint it j)" "\<And>r. iter_result (SeekToRestartPoint it j) r \<Longrightarrow> iter_result it0 r"
    if "j < bi_num_restarts it" for j
    using SeekToRestartPoint_wf [OF assms(3) that] iter_result_trans from_it by blast+
  have scan: "\<exists>r. scan_loop bound (SeekToRestartPoint it j) = Some r \<and> iter_result it0 r" if "j < bi_num_restarts it" for bound j
    using scan_loop_wf [OF restart(1) [OF that]] restart(2) [OF that] by blast
  have seek: "\<exists>r. BlockIter_Seek cmp target it = Some r \<and> iter_result it0 r"
  proof -
    obtain r where r: "seek_binary cmp target it 0 (bi_num_restarts it - 1) = Some r"
      "\<forall>j. r = Seek_from j \<longrightarrow> j < bi_num_restarts it" "r = Behind_block \<longrightarrow> lengths_wrap it"
      using seek_binary_total [OF n(2) assms(3), of 0 "bi_num_restarts it - 1" cmp target] n(1)
      by (metis diff_less le0 less_numeral_extra(1))
    show ?thesis
    proof (cases r)
      case Seek_from
      then show ?thesis
        using r seek_linear_wf [OF restart(1)] restart(2) by (fastforce simp: BlockIter_Seek_def)
    next
      case Bad_entry
      then show ?thesis using r iter_result_CorruptionError [OF assms(3)] from_it by (auto simp: BlockIter_Seek_def)
    next
      case Behind_block
      then show ?thesis using r same_block_wrap [OF assms(4)] by (auto simp: BlockIter_Seek_def iter_result_def)
    qed
  qed
  have prev: "\<exists>r. BlockIter_Prev it = Some r \<and> iter_result it0 r" if "bi_restart_index it < bi_num_restarts it"
  proof (cases "prev_restart it (bi_current it) (bi_restart_index it)")
    case None
    then show ?thesis using iter_result_end [OF assms(3)] from_it by (simp add: BlockIter_Prev_def)
  next
    case (Some j)
    then show ?thesis using scan [of j "bi_current it"] prev_restart_le [OF Some] that by (simp add: BlockIter_Prev_def)
  qed
  have array: "\<forall>j<bi_num_restarts it. bi_restarts it + j * 4 + 4 \<le> length (bi_data it)" using assms(3) by (auto simp: iter_wf_def)
  have first: "iter_result it0 (BlockIter_SeekToFirst it)"
    using ParseNextKey_wf(1) [OF restart(1)] restart(2) n(1) by (simp add: BlockIter_SeekToFirst_def)
  have final: "\<exists>r. BlockIter_SeekToLast it = Some r \<and> iter_result it0 r"
    using scan [of "bi_num_restarts it - 1" "bi_restarts it"] n(1) by (simp add: BlockIter_SeekToLast_def)
  have forward: "iter_result it0 (BlockIter_Next it)"
    using ParseNextKey_wf(1) [OF assms(3)] from_it by (simp add: BlockIter_Next_def)
  have bad: "\<exists>bad it1. length bad = 15 \<and> Block_NewIterator (Block_new bad) = Block_Iter it1 \<and> BlockIter_SeekToFirst it1 = None"
    using wrapping_block_iterator wrapping_block_first by (intro exI [of _ wrapping_block]) simp
  show ?thesis by (intro conjI impI NewIterator_wf [OF assms(1,2)] array first final seek forward prev bad)
qed

lemma no_wrap_small:
  assumes "DecodeEntry [7, 7, 0, 0, 0, 0, 1, 0, 0, 0] p 2 = Some (s, n, m, q)" shows False
  using assms by (auto simp: DecodeEntry_def decode_lengths_def Let_def split: if_splits)

theorem block_iterator_wf_witness:
  "\<exists>it0 it'. Block_NewIterator (Block_new [7, 7, 0, 0, 0, 0, 1, 0, 0, 0]) = Block_Iter it0
     \<and> BlockIter_SeekToLast it0 = Some (Some it') \<and> iter_wf it'"
proof -
  define it0 where "it0 = BlockIter_new [7, 7, 0, 0, 0, 0, 1, 0, 0, 0] 2 1"
  define d where "d = ([7, 7, 0, 0, 0, 0, 1, 0, 0, 0] :: slice)"
  have n: "NumRestarts d 10 = 1" "length d = 10" by (simp_all add: d_def NumRestarts_def DecodeFixed32_def)
  have it0: "Block_NewIterator (Block_new [7, 7, 0, 0, 0, 0, 1, 0, 0, 0]) = Block_Iter it0"
    unfolding it0_def d_def [symmetric] by (simp add: n Block_NewIterator_def Block_new_def)
  have "iter_wf it0" "same_block it0 it0" by (simp_all add: it0_def BlockIter_new_def iter_wf_def same_block_def)
  from block_iterator_wf [OF _ it0 this, of "\<lambda>_ _. 0" "[]"]
  obtain r where r: "BlockIter_SeekToLast it0 = Some r" "iter_result it0 r" by auto
  have "\<not> lengths_wrap it0" using no_wrap_small by (fastforce simp: lengths_wrap_def it0_def BlockIter_new_def)
  with r have "\<exists>it'. BlockIter_SeekToLast it0 = Some (Some it') \<and> iter_wf it'"
    by (cases r) (simp_all add: iter_result_def)
  with it0 show ?thesis by blast
qed

text \<open>
  C35. The check of the lengths of an entry is made with 32-bit sums: a decoded entry lies inside the block when the
  lengths of its key and its value do not overflow together; when they do, an entry passes whose key reaches far
  behind the block.
\<close>
theorem block_entry_bounds:
  "(\<forall>data p lim s n m q. DecodeEntry data p lim = Some (s, n, m, q) \<longrightarrow> p < lim \<longrightarrow> lim \<le> length data \<longrightarrow> lim < 2 ^ 32 \<longrightarrow>
      unat n + unat m < 2 ^ 32 \<longrightarrow> q + unat n + unat m \<le> lim)
   \<and> DecodeEntry (EncodeVarint32 0 @ EncodeVarint32 0xFFFFFFFF @ EncodeVarint32 1) 0 7 = Some (0, 0xFFFFFFFF, 1, 7)"
proof (intro conjI allI impI)
  fix data p lim s n m q
  assume "DecodeEntry data p lim = Some (s, n, m, q)" "p < lim" "lim \<le> length data" "lim < 2 ^ 32" "unat n + unat m < 2 ^ 32"
  with DecodeEntry_progress(3) [of data p lim s n m q] show "q + unat n + unat m \<le> lim" by (simp add: unat_word_ariths)
next
  have l: "length (EncodeVarint32 0 @ EncodeVarint32 0xFFFFFFFF @ EncodeVarint32 1) = 7" by (simp add: EncodeVarint32_def)
  then have "take (7 - 0) (drop 0 (EncodeVarint32 0 @ EncodeVarint32 0xFFFFFFFF @ EncodeVarint32 1))
      = EncodeVarint32 0 @ EncodeVarint32 0xFFFFFFFF @ EncodeVarint32 1 @ []" by simp
  then show "DecodeEntry (EncodeVarint32 0 @ EncodeVarint32 0xFFFFFFFF @ EncodeVarint32 1) 0 7 = Some (0, 0xFFFFFFFF, 1, 7)"
    using decode_lengths_encoded [of 0 "0xFFFFFFFF" 1 "[]"] l unfolding DecodeEntry_def by simp
qed

theorem block_entry_bounds_witness: "\<exists>q. DecodeEntry [0, 1, 1, 8, 9] 0 5 = Some (0, 1, 1, q) \<and> q + 1 + 1 \<le> 5"
proof -
  have d: "DecodeEntry [0, 1, 1, 8, 9] 0 5 = Some (0, 1, 1, 3)"
    by (simp add: DecodeEntry_def decode_lengths_def or_below_128)
  with block_entry_bounds show ?thesis by fastforce
qed

end
