(* ===== verification/Ldb_VersionEdit.thy ===== *)
theory Ldb_VersionEdit
  imports Ldb_Dbformat "HOL-Library.Product_Lexorder" "HOL-Library.Monad_Syntax"
begin

text \<open>
  Version edits, the records of a manifest (\<^verbatim>\<open>db/version_edit.h\<close>, \<^verbatim>\<open>db/version_edit.cc\<close>): which files a change of
  the database adds and deletes. The ordered set of deleted files is a sorted list without duplicates.
\<close>

section \<open>Edits\<close>

definition kNumLevels :: u32 where "kNumLevels = 7"

record file_meta_data =
  fm_refs :: int
  fm_allowed_seeks :: int
  fm_number :: u64
  fm_file_size :: u64
  fm_smallest :: slice
  fm_largest :: slice

record version_edit =
  ve_comparator :: slice
  ve_log_number :: u64
  ve_prev_log_number :: u64
  ve_next_file_number :: u64
  ve_last_sequence :: u64
  ve_has_comparator :: bool
  ve_has_log_number :: bool
  ve_has_prev_log_number :: bool
  ve_has_next_file_number :: bool
  ve_has_last_sequence :: bool
  ve_compact_pointers :: "(int \<times> slice) list"
  ve_deleted_files :: "(int \<times> u64) list"
  ve_new_files :: "(int \<times> file_meta_data) list"

definition VersionEdit_Clear :: "version_edit \<Rightarrow> version_edit" where
  "VersionEdit_Clear e =
     e\<lparr>ve_comparator := [], ve_log_number := 0, ve_prev_log_number := 0, ve_last_sequence := 0, ve_next_file_number := 0,
       ve_has_comparator := False, ve_has_log_number := False, ve_has_prev_log_number := False,
       ve_has_next_file_number := False, ve_has_last_sequence := False, ve_deleted_files := [], ve_new_files := []\<rparr>"

text \<open>The constructor: the members are empty, and \<^verbatim>\<open>Clear\<close> sets the numbers, which are arbitrary before it.\<close>

definition VersionEdit_new :: version_edit where
  "VersionEdit_new =
     \<lparr>ve_comparator = [], ve_log_number = 0, ve_prev_log_number = 0, ve_next_file_number = 0, ve_last_sequence = 0,
      ve_has_comparator = False, ve_has_log_number = False, ve_has_prev_log_number = False,
      ve_has_next_file_number = False, ve_has_last_sequence = False,
      ve_compact_pointers = [], ve_deleted_files = [], ve_new_files = []\<rparr>"

definition SetComparatorName :: "slice \<Rightarrow> version_edit \<Rightarrow> version_edit" where
  "SetComparatorName name e = e\<lparr>ve_has_comparator := True, ve_comparator := name\<rparr>"
definition SetLogNumber :: "u64 \<Rightarrow> version_edit \<Rightarrow> version_edit" where
  "SetLogNumber num e = e\<lparr>ve_has_log_number := True, ve_log_number := num\<rparr>"
definition SetPrevLogNumber :: "u64 \<Rightarrow> version_edit \<Rightarrow> version_edit" where
  "SetPrevLogNumber num e = e\<lparr>ve_has_prev_log_number := True, ve_prev_log_number := num\<rparr>"
definition SetNextFile :: "u64 \<Rightarrow> version_edit \<Rightarrow> version_edit" where
  "SetNextFile num e = e\<lparr>ve_has_next_file_number := True, ve_next_file_number := num\<rparr>"
definition SetLastSequence :: "u64 \<Rightarrow> version_edit \<Rightarrow> version_edit" where
  "SetLastSequence seq e = e\<lparr>ve_has_last_sequence := True, ve_last_sequence := seq\<rparr>"
definition SetCompactPointer :: "int \<Rightarrow> slice \<Rightarrow> version_edit \<Rightarrow> version_edit" where
  "SetCompactPointer level key e = e\<lparr>ve_compact_pointers := ve_compact_pointers e @ [(level, key)]\<rparr>"

definition FileMetaData_new :: "u64 \<Rightarrow> u64 \<Rightarrow> slice \<Rightarrow> slice \<Rightarrow> file_meta_data" where
  "FileMetaData_new number file_size smallest largest =
     \<lparr>fm_refs = 0, fm_allowed_seeks = 2 ^ 30, fm_number = number, fm_file_size = file_size, fm_smallest = smallest,
      fm_largest = largest\<rparr>"

definition AddFile :: "int \<Rightarrow> u64 \<Rightarrow> u64 \<Rightarrow> slice \<Rightarrow> slice \<Rightarrow> version_edit \<Rightarrow> version_edit" where
  "AddFile level file file_size smallest largest e =
     e\<lparr>ve_new_files := ve_new_files e @ [(level, FileMetaData_new file file_size smallest largest)]\<rparr>"

definition DeleteFile :: "int \<Rightarrow> u64 \<Rightarrow> version_edit \<Rightarrow> version_edit" where
  "DeleteFile level file e = e\<lparr>ve_deleted_files := insort_insert (level, file) (ve_deleted_files e)\<rparr>"

section \<open>The encoding\<close>

definition kComparator :: u32 where "kComparator = 1"
definition kLogNumber :: u32 where "kLogNumber = 2"
definition kNextFileNumber :: u32 where "kNextFileNumber = 3"
definition kLastSequence :: u32 where "kLastSequence = 4"
definition kCompactPointer :: u32 where "kCompactPointer = 5"
definition kDeletedFile :: u32 where "kDeletedFile = 6"
definition kNewFile :: u32 where "kNewFile = 7"
definition kPrevLogNumber :: u32 where "kPrevLogNumber = 9"

definition put_compact_pointer :: "slice \<Rightarrow> int \<times> slice \<Rightarrow> slice" where
  "put_compact_pointer dst p =
     PutLengthPrefixedSlice (PutVarint32 (PutVarint32 dst kCompactPointer) (of_int (fst p))) (snd p)"

definition put_deleted_file :: "slice \<Rightarrow> int \<times> u64 \<Rightarrow> slice" where
  "put_deleted_file dst p = PutVarint64 (PutVarint32 (PutVarint32 dst kDeletedFile) (of_int (fst p))) (snd p)"

definition put_new_file :: "slice \<Rightarrow> int \<times> file_meta_data \<Rightarrow> slice" where
  "put_new_file dst p =
     (let f = snd p;
          d = PutVarint64 (PutVarint64 (PutVarint32 (PutVarint32 dst kNewFile) (of_int (fst p))) (fm_number f)) (fm_file_size f)
      in PutLengthPrefixedSlice (PutLengthPrefixedSlice d (fm_smallest f)) (fm_largest f))"

definition VersionEdit_EncodeTo :: "version_edit \<Rightarrow> slice \<Rightarrow> slice" where
  "VersionEdit_EncodeTo e dst =
     (let dst = (if ve_has_comparator e then PutLengthPrefixedSlice (PutVarint32 dst kComparator) (ve_comparator e) else dst);
          dst = (if ve_has_log_number e then PutVarint64 (PutVarint32 dst kLogNumber) (ve_log_number e) else dst);
          dst = (if ve_has_prev_log_number e then PutVarint64 (PutVarint32 dst kPrevLogNumber) (ve_prev_log_number e) else dst);
          dst = (if ve_has_next_file_number e then PutVarint64 (PutVarint32 dst kNextFileNumber) (ve_next_file_number e) else dst);
          dst = (if ve_has_last_sequence e then PutVarint64 (PutVarint32 dst kLastSequence) (ve_last_sequence e) else dst);
          dst = foldl put_compact_pointer dst (ve_compact_pointers e);
          dst = foldl put_deleted_file dst (ve_deleted_files e)
      in foldl put_new_file dst (ve_new_files e))"

section \<open>The decoder\<close>

text \<open>\<^verbatim>\<open>GetLengthPrefixedSlice\<close>, where the input no longer matters after a failure.\<close>

definition get_slice :: "slice \<Rightarrow> (slice \<times> slice) option" where
  "get_slice input = (case GetLengthPrefixedSlice input of (Some s, rest) \<Rightarrow> Some (s, rest) | (None, rest) \<Rightarrow> None)"

definition GetInternalKey :: "slice \<Rightarrow> (slice \<times> slice) option" where
  "GetInternalKey input = get_slice input"

definition GetLevel :: "slice \<Rightarrow> (int \<times> slice) option" where
  "GetLevel input =
     (case GetVarint32 input of Some (v, rest) \<Rightarrow> if v < kNumLevels then Some (uint v, rest) else None | None \<Rightarrow> None)"

definition or_msg :: "string \<Rightarrow> 'a option \<Rightarrow> slice + 'a" where
  "or_msg msg r = (case r of None \<Rightarrow> Inl (str msg) | Some x \<Rightarrow> Inr x)"

text \<open>The cases of a tag: the message of an error, or the edit and the rest of the input.\<close>

definition decode_edit_field :: "u32 \<Rightarrow> slice \<Rightarrow> version_edit \<Rightarrow> slice + (version_edit \<times> slice)" where
  "decode_edit_field tag input e =
     (if tag = kComparator then or_msg ''comparator name'' (do {
        (s, r) \<leftarrow> get_slice input;
        Some (e\<lparr>ve_has_comparator := True, ve_comparator := s\<rparr>, r)})
      else if tag = kLogNumber then or_msg ''log number'' (do {
        (n, r) \<leftarrow> GetVarint64 input;
        Some (e\<lparr>ve_has_log_number := True, ve_log_number := n\<rparr>, r)})
      else if tag = kPrevLogNumber then or_msg ''previous log number'' (do {
        (n, r) \<leftarrow> GetVarint64 input;
        Some (e\<lparr>ve_has_prev_log_number := True, ve_prev_log_number := n\<rparr>, r)})
      else if tag = kNextFileNumber then or_msg ''next file number'' (do {
        (n, r) \<leftarrow> GetVarint64 input;
        Some (e\<lparr>ve_has_next_file_number := True, ve_next_file_number := n\<rparr>, r)})
      else if tag = kLastSequence then or_msg ''last sequence number'' (do {
        (n, r) \<leftarrow> GetVarint64 input;
        Some (e\<lparr>ve_has_last_sequence := True, ve_last_sequence := n\<rparr>, r)})
      else if tag = kCompactPointer then or_msg ''compaction pointer'' (do {
        (level, r1) \<leftarrow> GetLevel input;
        (key, r2) \<leftarrow> GetInternalKey r1;
        Some (e\<lparr>ve_compact_pointers := ve_compact_pointers e @ [(level, key)]\<rparr>, r2)})
      else if tag = kDeletedFile then or_msg ''deleted file'' (do {
        (level, r1) \<leftarrow> GetLevel input;
        (number, r2) \<leftarrow> GetVarint64 r1;
        Some (e\<lparr>ve_deleted_files := insort_insert (level, number) (ve_deleted_files e)\<rparr>, r2)})
      else if tag = kNewFile then or_msg ''new-file entry'' (do {
        (level, r1) \<leftarrow> GetLevel input;
        (number, r2) \<leftarrow> GetVarint64 r1;
        (file_size, r3) \<leftarrow> GetVarint64 r2;
        (smallest, r4) \<leftarrow> GetInternalKey r3;
        (largest, r5) \<leftarrow> GetInternalKey r4;
        Some (e\<lparr>ve_new_files := ve_new_files e @ [(level, FileMetaData_new number file_size smallest largest)]\<rparr>, r5)})
      else Inl (str ''unknown tag''))"

lemma GetVarint64Ptr_shorter: "GetVarint64Ptr shift r p = Some (v, rest) \<Longrightarrow> length rest < length p"
proof (induction shift r p rule: GetVarint64Ptr.induct)
  case (1 shift r p)
  from "1.prems" obtain b q where p: "p = b # q" "shift \<le> 63"
    by (subst (asm) GetVarint64Ptr.simps) (cases p; auto split: if_splits)
  show ?case
  proof (cases "(ucast b :: u64) AND 128 = 0")
    case True
    with "1.prems" p show ?thesis by (subst (asm) GetVarint64Ptr.simps) (simp add: Let_def)
  next
    case False
    with "1.prems" p have "GetVarint64Ptr (shift + 7) (r OR push_bit shift (ucast b AND 127)) q = Some (v, rest)"
      by (subst (asm) GetVarint64Ptr.simps) (simp add: Let_def)
    with "1.IH" [of "ucast b"] p False show ?thesis by auto
  qed
qed

lemma GetVarint64_shorter: "GetVarint64 p = Some (v, rest) \<Longrightarrow> length rest < length p"
  by (simp add: GetVarint64_def GetVarint64Ptr_shorter)

lemma get_slice_shorter: "get_slice p = Some (s, rest) \<Longrightarrow> length rest < length p"
  using GetVarint32_shorter [of p]
  by (auto simp: get_slice_def GetLengthPrefixedSlice_def split: option.splits prod.splits if_splits)

lemma GetLevel_shorter: "GetLevel p = Some (l, rest) \<Longrightarrow> length rest < length p"
  using GetVarint32_shorter [of p] by (auto simp: GetLevel_def split: option.splits if_splits)

lemma or_msg_Inr [simp]: "or_msg msg r = Inr x \<longleftrightarrow> r = Some x"
  by (simp add: or_msg_def split: option.splits)

lemma decode_field_shorter: "decode_edit_field tag input e = Inr (e', rest) \<Longrightarrow> length rest < length input"
  by (auto simp: decode_edit_field_def GetInternalKey_def split: if_splits bind_splits
      dest!: GetVarint64_shorter get_slice_shorter GetLevel_shorter)

text \<open>The loop over the tags: the message of an error, if any, the edit and the rest of the input.\<close>

function decode_tags :: "slice \<Rightarrow> version_edit \<Rightarrow> slice option \<times> version_edit \<times> slice" where
  "decode_tags input e =
     (case GetVarint32 input of
        None \<Rightarrow> (None, e, input)
      | Some (tag, rest) \<Rightarrow>
          (case decode_edit_field tag rest e of
             Inl msg \<Rightarrow> (Some msg, e, rest)
           | Inr (e', rest') \<Rightarrow> decode_tags rest' e'))"
  by pat_completeness auto
termination
proof (relation "measure (\<lambda>(input, e). length input)", goal_cases)
  case (2 input e p tag rest q e' rest')
  then show ?case using GetVarint32_shorter [of input tag rest] decode_field_shorter [of tag rest e e' rest'] by auto
qed simp

declare decode_tags.simps [simp del]

definition VersionEdit_DecodeFrom :: "slice \<Rightarrow> version_edit \<Rightarrow> status \<times> version_edit" where
  "VersionEdit_DecodeFrom src e0 =
     (let (msg, e, input) = decode_tags src (VersionEdit_Clear e0);
          msg = (if msg = None \<and> input \<noteq> [] then Some (str ''invalid tag'') else msg)
      in (case msg of None \<Rightarrow> (Status_OK, e) | Some m \<Rightarrow> (Status_Corruption (str ''VersionEdit'') m, e)))"

section \<open>Printing\<close>

definition VersionEdit_DebugString :: "version_edit \<Rightarrow> slice" where
  "VersionEdit_DebugString e =
     (let nl = str [CHR 0x0A]; r = str ''VersionEdit {'';
          r = (if ve_has_comparator e then r @ nl @ str ''  Comparator: '' @ ve_comparator e else r);
          r = (if ve_has_log_number e then AppendNumberTo (r @ nl @ str ''  LogNumber: '') (ve_log_number e) else r);
          r = (if ve_has_prev_log_number e then AppendNumberTo (r @ nl @ str ''  PrevLogNumber: '') (ve_prev_log_number e) else r);
          r = (if ve_has_next_file_number e then AppendNumberTo (r @ nl @ str ''  NextFile: '') (ve_next_file_number e) else r);
          r = (if ve_has_last_sequence e then AppendNumberTo (r @ nl @ str ''  LastSeq: '') (ve_last_sequence e) else r);
          r = foldl (\<lambda>r (level, key). AppendNumberTo (r @ nl @ str ''  CompactPointer: '') (of_int level) @ str '' ''
                @ InternalKey_DebugString key) r (ve_compact_pointers e);
          r = foldl (\<lambda>r (level, number). AppendNumberTo (AppendNumberTo (r @ nl @ str ''  DeleteFile: '') (of_int level)
                @ str '' '') number) r (ve_deleted_files e);
          r = foldl (\<lambda>r (level, f). AppendNumberTo (AppendNumberTo (AppendNumberTo (r @ nl @ str ''  AddFile: '') (of_int level)
                @ str '' '') (fm_number f) @ str '' '') (fm_file_size f) @ str '' '' @ InternalKey_DebugString (fm_smallest f)
                @ str '' .. '' @ InternalKey_DebugString (fm_largest f)) r (ve_new_files e)
      in r @ nl @ str ''}'' @ nl)"

section \<open>Well-formed edits\<close>

definition level_ok :: "int \<Rightarrow> bool" where
  "level_ok level \<longleftrightarrow> 0 \<le> level \<and> level < 7"

definition ve_wf :: "version_edit \<Rightarrow> bool" where
  "ve_wf e \<longleftrightarrow>
     length (ve_comparator e) < 2 ^ 32 \<and> (\<not> ve_has_comparator e \<longrightarrow> ve_comparator e = [])
     \<and> (\<not> ve_has_log_number e \<longrightarrow> ve_log_number e = 0) \<and> (\<not> ve_has_prev_log_number e \<longrightarrow> ve_prev_log_number e = 0)
     \<and> (\<not> ve_has_next_file_number e \<longrightarrow> ve_next_file_number e = 0) \<and> (\<not> ve_has_last_sequence e \<longrightarrow> ve_last_sequence e = 0)
     \<and> (\<forall>(level, key)\<in>set (ve_compact_pointers e). level_ok level \<and> length key < 2 ^ 32)
     \<and> (\<forall>(level, number)\<in>set (ve_deleted_files e). level_ok level)
     \<and> sorted (ve_deleted_files e) \<and> distinct (ve_deleted_files e)
     \<and> (\<forall>(level, f)\<in>set (ve_new_files e). level_ok level \<and> length (fm_smallest f) < 2 ^ 32 \<and> length (fm_largest f) < 2 ^ 32
          \<and> fm_refs f = 0 \<and> fm_allowed_seeks f = 2 ^ 30)"

lemma ve_wf_new: "ve_wf VersionEdit_new"
  by (simp add: ve_wf_def VersionEdit_new_def)

lemma ve_wf_set:
  assumes "ve_wf e"
  shows "length name < 2 ^ 32 \<Longrightarrow> ve_wf (SetComparatorName name e)" "ve_wf (SetLogNumber n e)" "ve_wf (SetPrevLogNumber n e)"
    "ve_wf (SetNextFile n e)" "ve_wf (SetLastSequence n e)"
  using assms by (simp_all add: ve_wf_def SetComparatorName_def SetLogNumber_def SetPrevLogNumber_def SetNextFile_def SetLastSequence_def)

lemma ve_wf_add:
  assumes "ve_wf e" and "level_ok level"
  shows "length key < 2 ^ 32 \<Longrightarrow> ve_wf (SetCompactPointer level key e)" "ve_wf (DeleteFile level number e)"
    "length smallest < 2 ^ 32 \<Longrightarrow> length largest < 2 ^ 32 \<Longrightarrow> ve_wf (AddFile level number file_size smallest largest e)"
  using assms by (auto simp: ve_wf_def SetCompactPointer_def DeleteFile_def AddFile_def FileMetaData_new_def
      set_insort_insert sorted_insort_insert distinct_insort_insert)

section \<open>Decoding an encoding\<close>

lemma get_slice_Encode: "length s < 2 ^ 32 \<Longrightarrow> get_slice (EncodeSlice s @ rest) = Some (s, rest)"
  by (simp add: get_slice_def GetLengthPrefixedSlice_Put)

lemma GetLevel_Encode: "level_ok level \<Longrightarrow> GetLevel (EncodeVarint32 (of_int level) @ rest) = Some (level, rest)"
proof -
  assume "level_ok level"
  then have l: "uint (of_int level :: u32) = level" by (simp add: level_ok_def uint_word_of_int)
  with \<open>level_ok level\<close> have "(of_int level :: u32) < kNumLevels" by (simp add: word_less_def kNumLevels_def level_ok_def)
  with l show ?thesis by (simp add: GetLevel_def GetVarint32_Encode)
qed

lemmas decode_parts = get_slice_Encode GetLevel_Encode GetVarint64_Encode GetInternalKey_def or_msg_def
lemmas tag_defs = kComparator_def kLogNumber_def kPrevLogNumber_def kNextFileNumber_def kLastSequence_def kCompactPointer_def
  kDeletedFile_def kNewFile_def

lemma decode_tags_step:
  "decode_edit_field tag (bs @ rest) e = Inr (e', rest) \<Longrightarrow> decode_tags (EncodeVarint32 tag @ bs @ rest) e = decode_tags rest e'"
  by (subst decode_tags.simps) (simp add: GetVarint32_Encode)

lemma decode_tags_end: "decode_tags [] e = (None, e, [])"
  by (subst decode_tags.simps) (simp add: GetVarint32_def GetVarint32Ptr_fallback GetVarint32PtrFallback.simps)

text \<open>The scalar members.\<close>

definition scalar_bytes :: "version_edit \<Rightarrow> slice" where
  "scalar_bytes e =
     (if ve_has_comparator e then EncodeVarint32 kComparator @ EncodeSlice (ve_comparator e) else [])
     @ (if ve_has_log_number e then EncodeVarint32 kLogNumber @ EncodeVarint64 (ve_log_number e) else [])
     @ (if ve_has_prev_log_number e then EncodeVarint32 kPrevLogNumber @ EncodeVarint64 (ve_prev_log_number e) else [])
     @ (if ve_has_next_file_number e then EncodeVarint32 kNextFileNumber @ EncodeVarint64 (ve_next_file_number e) else [])
     @ (if ve_has_last_sequence e then EncodeVarint32 kLastSequence @ EncodeVarint64 (ve_last_sequence e) else [])"

definition cp_bytes :: "int \<times> slice \<Rightarrow> slice" where
  "cp_bytes p = EncodeVarint32 kCompactPointer @ EncodeVarint32 (of_int (fst p)) @ EncodeSlice (snd p)"
definition df_bytes :: "int \<times> u64 \<Rightarrow> slice" where
  "df_bytes p = EncodeVarint32 kDeletedFile @ EncodeVarint32 (of_int (fst p)) @ EncodeVarint64 (snd p)"
definition nf_bytes :: "int \<times> file_meta_data \<Rightarrow> slice" where
  "nf_bytes p = EncodeVarint32 kNewFile @ EncodeVarint32 (of_int (fst p)) @ EncodeVarint64 (fm_number (snd p))
     @ EncodeVarint64 (fm_file_size (snd p)) @ EncodeSlice (fm_smallest (snd p)) @ EncodeSlice (fm_largest (snd p))"

lemma foldl_append_bytes: "(\<And>dst x. f dst x = dst @ g x) \<Longrightarrow> foldl f dst xs = dst @ concat (map g xs)"
  by (induction xs arbitrary: dst) auto

lemma put_bytes: "put_compact_pointer dst p = dst @ cp_bytes p" "put_deleted_file dst q = dst @ df_bytes q"
    "put_new_file dst r = dst @ nf_bytes r"
  by (simp_all add: PutLengthPrefixedSlice_def put_compact_pointer_def put_deleted_file_def put_new_file_def cp_bytes_def df_bytes_def nf_bytes_def
      PutVarint32_def PutVarint64_def Let_def)

lemma EncodeTo_bytes:
  "VersionEdit_EncodeTo e dst = dst @ scalar_bytes e @ concat (map cp_bytes (ve_compact_pointers e))
     @ concat (map df_bytes (ve_deleted_files e)) @ concat (map nf_bytes (ve_new_files e))"
  by (simp add: PutLengthPrefixedSlice_def VersionEdit_EncodeTo_def Let_def foldl_append_bytes [OF put_bytes(1)] foldl_append_bytes [OF put_bytes(2)]
      foldl_append_bytes [OF put_bytes(3)] PutVarint32_def PutVarint64_def scalar_bytes_def)

lemma decode_cps:
  "\<forall>(level, key)\<in>set ps. level_ok level \<and> length key < 2 ^ 32 \<Longrightarrow>
   decode_tags (concat (map cp_bytes ps) @ rest) e = decode_tags rest (e\<lparr>ve_compact_pointers := ve_compact_pointers e @ ps\<rparr>)"
proof (induction ps arbitrary: e)
  case (Cons p ps)
  then have "decode_tags (cp_bytes p @ concat (map cp_bytes ps) @ rest) e
      = decode_tags (concat (map cp_bytes ps) @ rest) (e\<lparr>ve_compact_pointers := ve_compact_pointers e @ [p]\<rparr>)"
    unfolding cp_bytes_def append_assoc by (subst append_assoc [symmetric], intro decode_tags_step) (auto simp: decode_edit_field_def tag_defs decode_parts)
  with Cons show ?case by simp
qed simp

lemma insort_insert_last: "\<forall>y\<in>set ys. y < x \<Longrightarrow> insort_insert x ys = ys @ [x]" for x :: "'a :: linorder"
proof -
  have "\<forall>y\<in>set ys. y < x \<Longrightarrow> insort x ys = ys @ [x]" by (induction ys) auto
  then show "\<forall>y\<in>set ys. y < x \<Longrightarrow> insort_insert x ys = ys @ [x]" by (auto simp: insort_insert_key_def)
qed

lemma decode_dfs:
  "\<forall>(level, n)\<in>set ps. level_ok level \<Longrightarrow> sorted (ve_deleted_files e @ ps) \<Longrightarrow> distinct (ve_deleted_files e @ ps) \<Longrightarrow>
   decode_tags (concat (map df_bytes ps) @ rest) e = decode_tags rest (e\<lparr>ve_deleted_files := ve_deleted_files e @ ps\<rparr>)"
proof (induction ps arbitrary: e)
  case (Cons p ps)
  have "\<forall>q\<in>set (ve_deleted_files e). q < p" using Cons.prems(2,3) by (force simp: sorted_append less_le)
  with Cons.prems(1) have "decode_tags (df_bytes p @ concat (map df_bytes ps) @ rest) e
      = decode_tags (concat (map df_bytes ps) @ rest) (e\<lparr>ve_deleted_files := ve_deleted_files e @ [p]\<rparr>)"
    unfolding df_bytes_def append_assoc
    by (subst append_assoc [symmetric], intro decode_tags_step) (auto simp: decode_edit_field_def tag_defs decode_parts insort_insert_last)
  with Cons show ?case by simp
qed simp

lemma decode_nfs:
  "\<forall>(level, f)\<in>set ps. level_ok level \<and> length (fm_smallest f) < 2 ^ 32 \<and> length (fm_largest f) < 2 ^ 32
      \<and> fm_refs f = 0 \<and> fm_allowed_seeks f = 2 ^ 30 \<Longrightarrow>
   decode_tags (concat (map nf_bytes ps) @ rest) e = decode_tags rest (e\<lparr>ve_new_files := ve_new_files e @ ps\<rparr>)"
proof (induction ps arbitrary: e)
  case (Cons p ps)
  then have "FileMetaData_new (fm_number (snd p)) (fm_file_size (snd p)) (fm_smallest (snd p)) (fm_largest (snd p)) = snd p"
    by (auto simp: FileMetaData_new_def)
  with Cons.prems have "decode_tags (nf_bytes p @ concat (map nf_bytes ps) @ rest) e
      = decode_tags (concat (map nf_bytes ps) @ rest) (e\<lparr>ve_new_files := ve_new_files e @ [p]\<rparr>)"
    unfolding nf_bytes_def append_assoc
    by (subst (1 2 3 4) append_assoc [symmetric], intro decode_tags_step) (auto simp: decode_edit_field_def tag_defs decode_parts)
  with Cons show ?case by simp
qed simp

lemma decode_optional:
  assumes "has \<Longrightarrow> decode_edit_field tag (bs @ rest) e = Inr (e', rest)"
  shows "decode_tags ((if has then EncodeVarint32 tag @ bs else []) @ rest) e = decode_tags rest (if has then e' else e)"
  using decode_tags_step [OF assms] by simp

lemma decode_scalars:
  assumes "ve_wf e"
  shows "decode_tags (scalar_bytes e @ rest) (VersionEdit_Clear e0)
    = decode_tags rest (e\<lparr>ve_compact_pointers := ve_compact_pointers e0, ve_deleted_files := [], ve_new_files := []\<rparr>)"
proof -
  define e1 where "e1 = (if ve_has_comparator e
    then VersionEdit_Clear e0\<lparr>ve_has_comparator := True, ve_comparator := ve_comparator e\<rparr> else VersionEdit_Clear e0)"
  define e2 where "e2 = (if ve_has_log_number e then e1\<lparr>ve_has_log_number := True, ve_log_number := ve_log_number e\<rparr> else e1)"
  define e3 where "e3 = (if ve_has_prev_log_number e
    then e2\<lparr>ve_has_prev_log_number := True, ve_prev_log_number := ve_prev_log_number e\<rparr> else e2)"
  define e4 where "e4 = (if ve_has_next_file_number e
    then e3\<lparr>ve_has_next_file_number := True, ve_next_file_number := ve_next_file_number e\<rparr> else e3)"
  define e5 where "e5 = (if ve_has_last_sequence e
    then e4\<lparr>ve_has_last_sequence := True, ve_last_sequence := ve_last_sequence e\<rparr> else e4)"
  note defs = decode_edit_field_def tag_defs decode_parts
  have "length (ve_comparator e) < 2 ^ 32" using assms by (simp add: ve_wf_def)
  then have "decode_tags (scalar_bytes e @ rest) (VersionEdit_Clear e0) = decode_tags rest e5"
    unfolding scalar_bytes_def append_assoc e5_def e4_def e3_def e2_def e1_def
    by (subst decode_optional, simp add: defs)+ (simp add: defs)
  moreover have "e5 = e\<lparr>ve_compact_pointers := ve_compact_pointers e0, ve_deleted_files := [], ve_new_files := []\<rparr>"
    using assms unfolding e5_def e4_def e3_def e2_def e1_def
    by (intro version_edit.equality) (auto simp: ve_wf_def VersionEdit_Clear_def defs)
  ultimately show ?thesis by simp
qed

text \<open>
  C38. Version edits survive the manifest: decoding what was encoded from a well-formed edit gives back its comparator, numbers
  and files without an error. The compaction pointers are added to those of the edit that is decoded into, since
  \<^verbatim>\<open>Clear\<close> keeps them. The constructor and every setter make well-formed edits.
\<close>
theorem version_edit_roundtrip:
  assumes "ve_wf e"
  shows "VersionEdit_DecodeFrom (VersionEdit_EncodeTo e []) e0
    = (Status_OK, e\<lparr>ve_compact_pointers := ve_compact_pointers e0 @ ve_compact_pointers e\<rparr>)"
proof -
  let ?e1 = "e\<lparr>ve_compact_pointers := ve_compact_pointers e0, ve_deleted_files := [], ve_new_files := []\<rparr>"
  have "decode_tags (VersionEdit_EncodeTo e []) (VersionEdit_Clear e0)
      = decode_tags (concat (map nf_bytes (ve_new_files e)) @ [])
          (?e1\<lparr>ve_compact_pointers := ve_compact_pointers e0 @ ve_compact_pointers e, ve_deleted_files := ve_deleted_files e\<rparr>)"
    using assms unfolding EncodeTo_bytes append_Nil decode_scalars [OF assms]
    by (subst decode_cps) (auto simp: ve_wf_def decode_dfs)
  also have "\<dots> = (None, e\<lparr>ve_compact_pointers := ve_compact_pointers e0 @ ve_compact_pointers e\<rparr>, [])"
    using assms by (subst decode_nfs) (auto simp: ve_wf_def decode_tags_end)
  finally show ?thesis by (simp add: VersionEdit_DecodeFrom_def)
qed

theorem version_edit_roundtrip_witness:
  "VersionEdit_DecodeFrom (VersionEdit_EncodeTo (DeleteFile 1 9 (AddFile 2 12 300 [97] [98] (SetLogNumber 7 VersionEdit_new))) [])
     VersionEdit_new = (Status_OK, DeleteFile 1 9 (AddFile 2 12 300 [97] [98] (SetLogNumber 7 VersionEdit_new)))"
proof -
  have "ve_wf (DeleteFile 1 9 (AddFile 2 12 300 [97] [98] (SetLogNumber 7 VersionEdit_new)))"
    by (intro ve_wf_add ve_wf_set ve_wf_new) (simp_all add: level_ok_def)
  from version_edit_roundtrip [OF this, of VersionEdit_new] show ?thesis
    by (simp add: DeleteFile_def AddFile_def SetLogNumber_def VersionEdit_new_def)
qed

text \<open>
  Whatever the bytes are, decoding comes back with an edit whose levels exist.
\<close>
lemma decode_field_wf:
  assumes "ve_wf e" and "decode_edit_field tag input e = Inr (e', rest)"
  shows "ve_wf e'"
proof -
  have level: "level_ok l" if "GetLevel p = Some (l, r)" for p l r
    using that uint_ge_0 by (auto simp: GetLevel_def level_ok_def kNumLevels_def word_less_def split: option.splits if_splits)
  have slice: "length t < 2 ^ 32" if "get_slice p = Some (t, r)" for p t r
    using that unsigned_less [where 'b = 32 and 'a = nat]
    by (auto simp: get_slice_def GetLengthPrefixedSlice_def split: option.splits prod.splits if_splits)
  note up = ve_wf_set [OF assms(1), unfolded SetComparatorName_def SetLogNumber_def SetPrevLogNumber_def SetNextFile_def
      SetLastSequence_def]
    ve_wf_add [OF assms(1), unfolded SetCompactPointer_def DeleteFile_def AddFile_def]
  show ?thesis
    by (insert assms(2), unfold decode_edit_field_def GetInternalKey_def)
      ((split if_split_asm, clarsimp simp: Option.bind_eq_Some_conv, (rule up(2-5) | rule up(1,6-8), (erule level slice)+))+, simp)
qed

lemma decode_tags_wf: "ve_wf e \<Longrightarrow> decode_tags input e = (msg, e', rest) \<Longrightarrow> ve_wf e'"
proof (induction input e rule: decode_tags.induct)
  case (1 input e)
  show ?case
  proof (cases "GetVarint32 input")
    case (Some p)
    obtain tag r where p: "p = (tag, r)" by fastforce
    show ?thesis
    proof (cases "decode_edit_field tag r e")
      case (Inl m)
      with 1 Some p show ?thesis by (simp add: decode_tags.simps [of input e])
    next
      case (Inr q)
      obtain e1 r1 where q: "q = (e1, r1)" by fastforce
      have "decode_tags r1 e1 = (msg, e', rest)"
        using "1.prems"(2) Some p Inr q by (simp add: decode_tags.simps [of input e])
      with "1.IH" [OF Some p [symmetric] Inr q [symmetric] decode_field_wf [OF "1.prems"(1) Inr [unfolded q]]] show ?thesis .
    qed
  qed (use 1 in \<open>simp add: decode_tags.simps [of input e]\<close>)
qed

section \<open>The grammar of manifests\<close>

text \<open>
  What is a well-formed record, said without the decoder: variable-length integers are at most five or ten groups of seven bits,
  strings come behind their length, a record is a sequence of fields behind their tags. An edit is read from it by the
  operations that build edits.
\<close>

definition varint32_item :: "slice \<Rightarrow> u32 \<Rightarrow> bool" where
  "varint32_item bs v \<longleftrightarrow> varint_form bs \<and> length bs \<le> 5 \<and> v = groups_word bs"

definition varint64_item :: "slice \<Rightarrow> u64 \<Rightarrow> bool" where
  "varint64_item bs v \<longleftrightarrow> varint_form bs \<and> length bs \<le> 10 \<and> v = groups_word bs"

definition level_item :: "slice \<Rightarrow> int \<Rightarrow> bool" where
  "level_item bs level \<longleftrightarrow> level_ok level \<and> varint32_item bs (of_int level)"

inductive string_item :: "slice \<Rightarrow> slice \<Rightarrow> bool" where
  "length s < 2 ^ 32 \<Longrightarrow> varint32_item n (of_nat (length s)) \<Longrightarrow> string_item (n @ s) s"

inductive edit_field :: "version_edit \<Rightarrow> u32 \<Rightarrow> slice \<Rightarrow> version_edit \<Rightarrow> bool" for e where
  "string_item a name \<Longrightarrow> edit_field e 1 a (SetComparatorName name e)"
| "varint64_item a n \<Longrightarrow> edit_field e 2 a (SetLogNumber n e)"
| "varint64_item a n \<Longrightarrow> edit_field e 9 a (SetPrevLogNumber n e)"
| "varint64_item a n \<Longrightarrow> edit_field e 3 a (SetNextFile n e)"
| "varint64_item a n \<Longrightarrow> edit_field e 4 a (SetLastSequence n e)"
| "level_item a level \<Longrightarrow> string_item b key \<Longrightarrow> edit_field e 5 (a @ b) (SetCompactPointer level key e)"
| "level_item a level \<Longrightarrow> varint64_item b n \<Longrightarrow> edit_field e 6 (a @ b) (DeleteFile level n e)"
| "level_item a level \<Longrightarrow> varint64_item b n \<Longrightarrow> varint64_item c fsz \<Longrightarrow> string_item d smallest \<Longrightarrow> string_item f largest \<Longrightarrow>
   edit_field e 7 (a @ b @ c @ d @ f) (AddFile level n fsz smallest largest e)"

inductive edit_fields :: "version_edit \<Rightarrow> slice \<Rightarrow> version_edit \<Rightarrow> bool" where
  edit_fields_none: "edit_fields e [] e"
| edit_fields_more: "varint32_item t tag \<Longrightarrow> edit_field e tag a e' \<Longrightarrow> edit_fields e' bs e'' \<Longrightarrow> edit_fields e (t @ a @ bs) e''"

text \<open>The readers of items read exactly the items.\<close>

lemma GetVarint32Ptr_item:
  "GetVarint32PtrFallback shift r p = Some (v, rest) \<Longrightarrow>
   \<exists>q. p = q @ rest \<and> varint_form q \<and> shift + 7 * (length q - 1) \<le> 28 \<and> v = r OR push_bit shift (groups_word q)"
proof (induction shift r p rule: GetVarint32PtrFallback.induct)
  case (1 shift r p)
  from "1.prems" obtain b q where p: "p = b # q" and s: "shift \<le> 28"
    by (subst (asm) GetVarint32PtrFallback.simps) (cases p; auto split: if_splits)
  have low: "(ucast b :: u32) AND 127 = ucast (b AND 0x7F)"
    by (rule bit_word_eqI) (auto simp: bit_simps dest: bit_imp_le_length)
  show ?case
  proof (cases "(ucast b :: u32) AND 128 = 0")
    case True
    with "1.prems" p s have "rest = q" "v = r OR push_bit shift (ucast b)"
      by (subst (asm) GetVarint32PtrFallback.simps, simp add: Let_def)+
    with p s True high_bit_u32 [of b] show ?thesis
      by (intro exI [of _ "[b]"]) (simp add: varint_form_Cons byte_low7)
  next
    case False
    with "1.prems" p s have "GetVarint32PtrFallback (shift + 7) (r OR push_bit shift (ucast b AND 127)) q = Some (v, rest)"
      by (subst (asm) GetVarint32PtrFallback.simps) (simp add: Let_def)
    with "1.IH" [of "ucast b"] p s False obtain q' where q': "q = q' @ rest" "varint_form q'"
        "shift + 7 + 7 * (length q' - 1) \<le> 28" "v = (r OR push_bit shift (ucast b AND 127)) OR push_bit (shift + 7) (groups_word q')"
      by auto
    from q'(2) have "q' \<noteq> []" by auto
    with p q' False high_bit_u32 [of b] low show ?thesis
      by (intro exI [of _ "b # q'"]) (auto simp: varint_form_Cons or.assoc length_greater_0_conv [symmetric] simp del: length_greater_0_conv)
  qed
qed

lemma GetVarint64Ptr_item:
  "GetVarint64Ptr shift r p = Some (v, rest) \<Longrightarrow>
   \<exists>q. p = q @ rest \<and> varint_form q \<and> shift + 7 * (length q - 1) \<le> 63 \<and> v = r OR push_bit shift (groups_word q)"
proof (induction shift r p rule: GetVarint64Ptr.induct)
  case (1 shift r p)
  from "1.prems" obtain b q where p: "p = b # q" and s: "shift \<le> 63"
    by (subst (asm) GetVarint64Ptr.simps) (cases p; auto split: if_splits)
  have low: "(ucast b :: u64) AND 127 = ucast (b AND 0x7F)"
    by (rule bit_word_eqI) (auto simp: bit_simps dest: bit_imp_le_length)
  show ?case
  proof (cases "(ucast b :: u64) AND 128 = 0")
    case True
    with "1.prems" p s have "rest = q" "v = r OR push_bit shift (ucast b)"
      by (subst (asm) GetVarint64Ptr.simps, simp add: Let_def)+
    with p s True high_bit_u64 [of b] show ?thesis
      by (intro exI [of _ "[b]"]) (simp add: varint_form_Cons byte_low7)
  next
    case False
    with "1.prems" p s have "GetVarint64Ptr (shift + 7) (r OR push_bit shift (ucast b AND 127)) q = Some (v, rest)"
      by (subst (asm) GetVarint64Ptr.simps) (simp add: Let_def)
    with "1.IH" [of "ucast b"] p s False obtain q' where q': "q = q' @ rest" "varint_form q'"
        "shift + 7 + 7 * (length q' - 1) \<le> 63" "v = (r OR push_bit shift (ucast b AND 127)) OR push_bit (shift + 7) (groups_word q')"
      by auto
    from q'(2) have "q' \<noteq> []" by auto
    with p q' False high_bit_u64 [of b] low show ?thesis
      by (intro exI [of _ "b # q'"]) (auto simp: varint_form_Cons or.assoc length_greater_0_conv [symmetric] simp del: length_greater_0_conv)
  qed
qed

lemma GetVarint32_iff: "GetVarint32 p = Some (v, rest) \<longleftrightarrow> (\<exists>q. p = q @ rest \<and> varint32_item q v)"
  using GetVarint32Ptr_item [of 0 0 p v rest] GetVarint32PtrFallback_groups [of _ 0 0 rest]
  by (fastforce simp: GetVarint32_def GetVarint32Ptr_fallback varint32_item_def)

lemma GetVarint64_iff: "GetVarint64 p = Some (v, rest) \<longleftrightarrow> (\<exists>q. p = q @ rest \<and> varint64_item q v)"
  using GetVarint64Ptr_item [of 0 0 p v rest] GetVarint64Ptr_groups [of _ 0 0 rest]
  by (fastforce simp: GetVarint64_def varint64_item_def)

lemma get_slice_iff: "get_slice p = Some (s, rest) \<longleftrightarrow> (\<exists>q. p = q @ rest \<and> string_item q s)"
proof
  assume "get_slice p = Some (s, rest)"
  then obtain n r where "GetVarint32 p = Some (n, r)" "unat n \<le> length r" "s = take (unat n) r" "rest = drop (unat n) r"
    by (auto simp: get_slice_def GetLengthPrefixedSlice_def split: option.splits if_splits)
  moreover from this obtain q where "p = q @ r" "varint32_item q n" by (auto simp: GetVarint32_iff)
  moreover have "unat n < 2 ^ 32" using unsigned_less [of n, where 'a = nat] by simp
  ultimately show "\<exists>q. p = q @ rest \<and> string_item q s"
    by (intro exI [of _ "q @ s"]) (simp add: string_item.intros)
next
  assume "\<exists>q. p = q @ rest \<and> string_item q s"
  then obtain n where p: "p = n @ s @ rest" "varint32_item n (of_nat (length s))" "length s < 2 ^ 32"
    by (auto elim: string_item.cases)
  then have "GetVarint32 p = Some (of_nat (length s), s @ rest)" by (auto simp: GetVarint32_iff)
  with p(3) show "get_slice p = Some (s, rest)"
    by (simp add: get_slice_def GetLengthPrefixedSlice_def unat_of_nat)
qed

lemma GetLevel_iff: "GetLevel p = Some (level, rest) \<longleftrightarrow> (\<exists>q. p = q @ rest \<and> level_item q level)"
proof
  assume "GetLevel p = Some (level, rest)"
  then obtain v where v: "GetVarint32 p = Some (v, rest)" "v < kNumLevels" "level = uint v"
    by (auto simp: GetLevel_def split: option.splits if_splits)
  moreover have "level_ok level" using v(2,3) by (simp add: level_ok_def kNumLevels_def word_less_def)
  ultimately show "\<exists>q. p = q @ rest \<and> level_item q level" by (auto simp: GetVarint32_iff level_item_def)
next
  assume "\<exists>q. p = q @ rest \<and> level_item q level"
  then obtain q where "p = q @ rest" "level_ok level" "varint32_item q (of_int level)" by (auto simp: level_item_def)
  moreover from this have "uint (of_int level :: u32) = level" by (simp add: level_ok_def uint_word_of_int)
  moreover from this \<open>level_ok level\<close> have "(of_int level :: u32) < kNumLevels"
    by (simp add: word_less_def kNumLevels_def level_ok_def)
  moreover have "GetVarint32 p = Some (of_int level, rest)" using calculation by (auto simp: GetVarint32_iff)
  ultimately show "GetLevel p = Some (level, rest)" by (simp add: GetLevel_def)
qed


lemma item_readers:
  "varint32_item q v \<Longrightarrow> GetVarint32 (q @ rest) = Some (v, rest)" "varint64_item q n \<Longrightarrow> GetVarint64 (q @ rest) = Some (n, rest)"
  "string_item q s \<Longrightarrow> get_slice (q @ rest) = Some (s, rest)" "level_item q l \<Longrightarrow> GetLevel (q @ rest) = Some (l, rest)"
  by (auto simp: GetVarint32_iff GetVarint64_iff get_slice_iff GetLevel_iff)

lemmas setter_defs = SetComparatorName_def SetLogNumber_def SetPrevLogNumber_def SetNextFile_def SetLastSequence_def
  SetCompactPointer_def DeleteFile_def AddFile_def

lemma decode_edit_field_item: "edit_field e tag q e' \<Longrightarrow> decode_edit_field tag (q @ rest) e = Inr (e', rest)"
  by (erule edit_field.cases) (simp_all add: decode_edit_field_def tag_defs item_readers GetInternalKey_def or_msg_def setter_defs)

lemma item_of_decode_edit_field:
  assumes "decode_edit_field tag p e = Inr (e', rest)"
  shows "\<exists>q. p = q @ rest \<and> edit_field e tag q e'"
proof -
  note rules = edit_field.intros [where e = e, unfolded setter_defs]
  show ?thesis
    by (insert assms, unfold decode_edit_field_def GetInternalKey_def tag_defs)
      ((split if_split_asm, clarsimp simp: Option.bind_eq_Some_conv get_slice_iff GetVarint64_iff GetLevel_iff,
        ((rule rules, assumption+) | (rule exI, rule conjI [rotated], rule rules, assumption+, simp))[1])+, simp)
qed

text \<open>So a run of the loop that ends without a message and without left-over bytes has read a sequence of fields.\<close>

lemma decode_tags_fields: "decode_tags input e = (None, e', []) \<longleftrightarrow> edit_fields e input e'"
proof
  show "decode_tags input e = (None, e', []) \<Longrightarrow> edit_fields e input e'"
  proof (induction input e rule: decode_tags.induct)
    case (1 input e)
    show ?case
    proof (cases "GetVarint32 input")
      case (Some p)
      obtain tag r where p: "p = (tag, r)" by fastforce
      obtain e1 r1 where d: "decode_edit_field tag r e = Inr (e1, r1)" and run: "decode_tags r1 e1 = (None, e', [])"
        using "1.prems" Some p by (auto simp: decode_tags.simps [of input e] split: sum.splits)
      obtain t q where "input = t @ q @ r1" "varint32_item t tag" "edit_field e tag q e1"
        using Some p item_of_decode_edit_field [OF d] by (auto simp: GetVarint32_iff)
      with "1.IH" [OF Some p [symmetric] d refl run] show ?thesis by (auto intro: edit_fields_more)
    qed (use "1.prems" in \<open>simp add: decode_tags.simps [of input e] edit_fields_none\<close>)
  qed
  show "edit_fields e input e' \<Longrightarrow> decode_tags input e = (None, e', [])"
  proof (induction rule: edit_fields.induct)
    case (edit_fields_more t tag e a e' bs e'')
    then show ?case
      by (subst decode_tags.simps) (simp add: item_readers(1) decode_edit_field_item)
  qed (rule decode_tags_end)
qed

text \<open>
  C39. The decoder accepts exactly the well-formed records: it returns OK with an edit if and only if the whole input is a
  sequence of fields, each behind its tag, from which this edit is built. On every other input it returns a corruption. In both
  cases it comes back, and the levels of the edit exist and its deleted files are a set, so that it can be encoded again.
\<close>
theorem version_edit_decode_wf:
  assumes "ve_wf e0"
  shows "(VersionEdit_DecodeFrom src e0 = (Status_OK, e) \<longleftrightarrow> edit_fields (VersionEdit_Clear e0) src e)
    \<and> (VersionEdit_DecodeFrom src e0 = (s, e) \<longrightarrow> ve_wf e \<and> (s = Status_OK \<or> IsCorruption s))"
proof -
  obtain msg e' r where d: "decode_tags src (VersionEdit_Clear e0) = (msg, e', r)" by (metis prod_cases3)
  have "ve_wf (VersionEdit_Clear e0)" using assms(1) by (simp add: ve_wf_def VersionEdit_Clear_def)
  then have "ve_wf e'" using d by (rule decode_tags_wf)
  moreover have c: "IsCorruption (Status_Corruption m m')" "Status_Corruption m m' \<noteq> Status_OK" for m m'
    by (simp_all add: Status_Corruption_def IsCorruption_def status_code_def Status_new_def Let_def nth_append Status_OK_def)
  ultimately show ?thesis using d c(2) decode_tags_fields [of src "VersionEdit_Clear e0" e]
    by (auto simp: VersionEdit_DecodeFrom_def split: option.splits if_splits)
qed

theorem version_edit_decode_wf_witness:
  "VersionEdit_DecodeFrom [2, 7] VersionEdit_new = (Status_OK, SetLogNumber 7 VersionEdit_new)
   \<and> (\<exists>s e. VersionEdit_DecodeFrom [2, 7, 200] VersionEdit_new = (s, e) \<and> ve_wf e \<and> (s = Status_OK \<or> IsCorruption s))"
proof -
  have "varint32_item [2] 2" "varint64_item [7] 7" by (simp_all add: varint32_item_def varint64_item_def varint_form_def)
  then have "edit_fields (VersionEdit_Clear VersionEdit_new) ([2] @ [7] @ []) (SetLogNumber 7 (VersionEdit_Clear VersionEdit_new))"
    by (rule edit_fields_more [OF _ edit_field.intros(2) edit_fields_none])
  moreover have "VersionEdit_Clear VersionEdit_new = VersionEdit_new" by (simp add: VersionEdit_Clear_def VersionEdit_new_def)
  ultimately show ?thesis
    using version_edit_decode_wf [OF ve_wf_new, of "[2, 7]" "SetLogNumber 7 VersionEdit_new"]
      version_edit_decode_wf [OF ve_wf_new, of "[2, 7, 200]"] by (metis append_Cons append_Nil surj_pair)
qed
end
