(* ===== verification/Ldb_Iterator.thy ===== *)
theory Ldb_Iterator
  imports Ldb_Block_Build
begin

text \<open>
  The interface of iterators (\<^verbatim>\<open>include/leveldb/iterator.h\<close>), the wrapper that caches the current key
  (\<^verbatim>\<open>table/iterator_wrapper.h\<close>) and the iterators of blocks as an implementation of the interface. An iterator is a
  state with a record of operations; the operations that move it are in the option monad, where \<open>None\<close> is a failed
  assertion or a loop that does not end.
\<close>

section \<open>The interface\<close>

record 's iterator_ops =
  it_Valid :: "'s \<Rightarrow> bool"
  it_key :: "'s \<Rightarrow> slice"
  it_value :: "'s \<Rightarrow> slice"
  it_status :: "'s \<Rightarrow> status"
  it_SeekToFirst :: "'s \<Rightarrow> 's option"
  it_SeekToLast :: "'s \<Rightarrow> 's option"
  it_Seek :: "slice \<Rightarrow> 's \<Rightarrow> 's option"
  it_Next :: "'s \<Rightarrow> 's option"
  it_Prev :: "'s \<Rightarrow> 's option"

text \<open>The number of entries in front of a target.\<close>

definition lower_bound :: "(slice \<Rightarrow> slice \<Rightarrow> int) \<Rightarrow> (slice \<times> slice) list \<Rightarrow> slice \<Rightarrow> nat" where
  "lower_bound cmp es target = length (takeWhile (\<lambda>e. cmp (fst e) target < 0) es)"

text \<open>
  An iterator stands at a position of a list of entries, where the length of the list is the position of an
  iterator that is not valid. Every client of iterators relies on these laws.
\<close>

locale iterator_contract =
  fixes ops :: "'s iterator_ops" and valid :: "slice \<Rightarrow> bool" and compare :: "slice \<Rightarrow> slice \<Rightarrow> int"
    and es :: "(slice \<times> slice) list" and at :: "'s \<Rightarrow> nat \<Rightarrow> bool"
  assumes at_le: "at s i \<Longrightarrow> i \<le> length es"
    and at_Valid: "at s i \<Longrightarrow> it_Valid ops s \<longleftrightarrow> i < length es"
    and at_entry: "at s i \<Longrightarrow> i < length es \<Longrightarrow> (it_key ops s, it_value ops s) = es ! i"
    and at_status: "at s i \<Longrightarrow> it_status ops s = Status_OK"
    and at_first: "at s i \<Longrightarrow> \<exists>s'. it_SeekToFirst ops s = Some s' \<and> at s' 0"
    and at_last: "at s i \<Longrightarrow> \<exists>s'. it_SeekToLast ops s = Some s' \<and> at s' (length es - 1)"
    and at_seek: "at s i \<Longrightarrow> valid target \<Longrightarrow> \<exists>s'. it_Seek ops target s = Some s' \<and> at s' (lower_bound compare es target)"
    and at_next: "at s i \<Longrightarrow> i < length es \<Longrightarrow> \<exists>s'. it_Next ops s = Some s' \<and> at s' (Suc i)"
    and at_prev: "at s i \<Longrightarrow> i < length es \<Longrightarrow> \<exists>s'. it_Prev ops s = Some s' \<and> at s' (if i = 0 then length es else i - 1)"
begin

lemma at_key: "at s i \<Longrightarrow> i < length es \<Longrightarrow> it_key ops s = fst (es ! i)"
  and at_value: "at s i \<Longrightarrow> i < length es \<Longrightarrow> it_value ops s = snd (es ! i)"
  using at_entry [of s i] by (metis fst_conv, metis snd_conv)

end

text \<open>The entries that an iterator yields from its position on.\<close>

fun it_read :: "'s iterator_ops \<Rightarrow> nat \<Rightarrow> 's \<Rightarrow> (slice \<times> slice) list option" where
  "it_read ops 0 s = Some []"
| "it_read ops (Suc n) s =
     (if it_Valid ops s then do {
        s' \<leftarrow> it_Next ops s;
        rest \<leftarrow> it_read ops n s';
        Some ((it_key ops s, it_value ops s) # rest)
      } else Some [])"

context iterator_contract
begin

lemma it_read_at: "at s i \<Longrightarrow> length es \<le> i + n \<Longrightarrow> it_read ops n s = Some (drop i es)"
proof (induction n arbitrary: s i)
  case (Suc n)
  show ?case
  proof (cases "i < length es")
    case True
    then obtain s' where s': "it_Next ops s = Some s'" "at s' (Suc i)" using at_next [OF Suc.prems(1)] by blast
    then have "it_read ops n s' = Some (drop (Suc i) es)" using Suc by simp
    then show ?thesis using True s' at_Valid [OF Suc.prems(1)] at_entry [OF Suc.prems(1) True]
      by (simp add: Cons_nth_drop_Suc [symmetric])
  qed (use at_Valid [OF Suc.prems(1)] in simp)
qed simp

end

section \<open>The wrapper\<close>

record 's iter_wrapper =
  iw_iter :: "'s option"
  iw_valid :: bool
  iw_key :: slice

definition iw_null :: "'s iter_wrapper" where
  "iw_null = \<lparr>iw_iter = None, iw_valid = False, iw_key = []\<rparr>"

definition iw_Update :: "'s iterator_ops \<Rightarrow> 's iter_wrapper \<Rightarrow> 's \<Rightarrow> 's iter_wrapper" where
  "iw_Update ops w s =
     (let w' = w\<lparr>iw_iter := Some s, iw_valid := it_Valid ops s\<rparr>
      in if it_Valid ops s then w'\<lparr>iw_key := it_key ops s\<rparr> else w')"

definition iw_Set :: "'s iterator_ops \<Rightarrow> 's option \<Rightarrow> 's iter_wrapper \<Rightarrow> 's iter_wrapper" where
  "iw_Set ops it w = (case it of None \<Rightarrow> w\<lparr>iw_iter := None, iw_valid := False\<rparr> | Some s \<Rightarrow> iw_Update ops w s)"

text \<open>The methods that move the wrapped iterator require that there is one.\<close>

definition iw_move :: "'s iterator_ops \<Rightarrow> ('s \<Rightarrow> 's option) \<Rightarrow> 's iter_wrapper \<Rightarrow> 's iter_wrapper option" where
  "iw_move ops f w = do { s \<leftarrow> iw_iter w; s' \<leftarrow> f s; Some (iw_Update ops w s') }"

definition iw_SeekToFirst :: "'s iterator_ops \<Rightarrow> 's iter_wrapper \<Rightarrow> 's iter_wrapper option" where
  "iw_SeekToFirst ops = iw_move ops (it_SeekToFirst ops)"
definition iw_SeekToLast :: "'s iterator_ops \<Rightarrow> 's iter_wrapper \<Rightarrow> 's iter_wrapper option" where
  "iw_SeekToLast ops = iw_move ops (it_SeekToLast ops)"
definition iw_Seek :: "'s iterator_ops \<Rightarrow> slice \<Rightarrow> 's iter_wrapper \<Rightarrow> 's iter_wrapper option" where
  "iw_Seek ops k = iw_move ops (it_Seek ops k)"
definition iw_Next :: "'s iterator_ops \<Rightarrow> 's iter_wrapper \<Rightarrow> 's iter_wrapper option" where
  "iw_Next ops = iw_move ops (it_Next ops)"
definition iw_Prev :: "'s iterator_ops \<Rightarrow> 's iter_wrapper \<Rightarrow> 's iter_wrapper option" where
  "iw_Prev ops = iw_move ops (it_Prev ops)"

definition iw_value :: "'s iterator_ops \<Rightarrow> 's iter_wrapper \<Rightarrow> slice" where
  "iw_value ops w = it_value ops (the (iw_iter w))"
definition iw_status :: "'s iterator_ops \<Rightarrow> 's iter_wrapper \<Rightarrow> status" where
  "iw_status ops w = it_status ops (the (iw_iter w))"

definition wrapper_ops :: "'s iterator_ops \<Rightarrow> 's iter_wrapper iterator_ops" where
  "wrapper_ops ops =
     \<lparr>it_Valid = iw_valid, it_key = iw_key, it_value = iw_value ops, it_status = iw_status ops,
      it_SeekToFirst = iw_SeekToFirst ops, it_SeekToLast = iw_SeekToLast ops, it_Seek = iw_Seek ops, it_Next = iw_Next ops,
      it_Prev = iw_Prev ops\<rparr>"

lemma wrapper_ops_sel [simp]:
  "it_Valid (wrapper_ops ops) = iw_valid" "it_key (wrapper_ops ops) = iw_key" "it_value (wrapper_ops ops) = iw_value ops"
  "it_status (wrapper_ops ops) = iw_status ops" "it_SeekToFirst (wrapper_ops ops) = iw_SeekToFirst ops"
  "it_SeekToLast (wrapper_ops ops) = iw_SeekToLast ops" "it_Seek (wrapper_ops ops) = iw_Seek ops"
  "it_Next (wrapper_ops ops) = iw_Next ops" "it_Prev (wrapper_ops ops) = iw_Prev ops"
  by (simp_all add: wrapper_ops_def)

text \<open>The cached values are those of the iterator, so a wrapper keeps the contract of what it wraps.\<close>

definition wrapped_at :: "'s iterator_ops \<Rightarrow> ('s \<Rightarrow> nat \<Rightarrow> bool) \<Rightarrow> 's iter_wrapper \<Rightarrow> nat \<Rightarrow> bool" where
  "wrapped_at ops at w i \<longleftrightarrow> (\<exists>s. iw_iter w = Some s \<and> at s i \<and> iw_valid w = it_Valid ops s
     \<and> (it_Valid ops s \<longrightarrow> iw_key w = it_key ops s))"

lemma wrapped_Update: "at s i \<Longrightarrow> wrapped_at ops at (iw_Update ops w s) i"
  by (simp add: wrapped_at_def iw_Update_def Let_def)

lemma wrapped_move:
  "wrapped_at ops at w i \<Longrightarrow> (\<And>s. at s i \<Longrightarrow> \<exists>s'. f s = Some s' \<and> at s' j) \<Longrightarrow>
   \<exists>w'. iw_move ops f w = Some w' \<and> wrapped_at ops at w' j"
  by (force simp: wrapped_at_def [of _ _ w] iw_move_def intro: wrapped_Update)

context iterator_contract
begin

lemma wrapped_contract: "iterator_contract (wrapper_ops ops) valid compare es (wrapped_at ops at)"
proof
  fix w i assume w: "wrapped_at ops at w i"
  then obtain s where s: "iw_iter w = Some s" "at s i" "iw_valid w = it_Valid ops s" "it_Valid ops s \<Longrightarrow> iw_key w = it_key ops s"
    by (auto simp: wrapped_at_def)
  show "i \<le> length es" "it_Valid (wrapper_ops ops) w \<longleftrightarrow> i < length es" "it_status (wrapper_ops ops) w = Status_OK"
    using s at_le at_Valid at_status by (auto simp: iw_status_def)
  show "(it_key (wrapper_ops ops) w, it_value (wrapper_ops ops) w) = es ! i" if "i < length es"
    using s at_entry [OF s(2) that] at_Valid [OF s(2)] that by (simp add: iw_value_def)
  note move = wrapped_move [OF w]
  show "\<exists>w'. it_SeekToFirst (wrapper_ops ops) w = Some w' \<and> wrapped_at ops at w' 0"
    unfolding wrapper_ops_sel iw_SeekToFirst_def by (rule move) (rule at_first)
  show "\<exists>w'. it_SeekToLast (wrapper_ops ops) w = Some w' \<and> wrapped_at ops at w' (length es - 1)"
    unfolding wrapper_ops_sel iw_SeekToLast_def by (rule move) (rule at_last)
  show "\<exists>w'. it_Seek (wrapper_ops ops) target w = Some w' \<and> wrapped_at ops at w' (lower_bound compare es target)"
    if "valid target" for target
    unfolding wrapper_ops_sel iw_Seek_def by (rule move) (rule at_seek [OF _ that])
  show "\<exists>w'. it_Next (wrapper_ops ops) w = Some w' \<and> wrapped_at ops at w' (Suc i)" if "i < length es"
    unfolding wrapper_ops_sel iw_Next_def by (rule move) (rule at_next [OF _ that])
  show "\<exists>w'. it_Prev (wrapper_ops ops) w = Some w' \<and> wrapped_at ops at w' (if i = 0 then length es else i - 1)"
    if "i < length es"
    unfolding wrapper_ops_sel iw_Prev_def by (rule move) (rule at_prev [OF _ that])
qed

end

section \<open>Blocks\<close>

text \<open>
  The moves of an iterator without entries. There is no result when a move does not come back and when it reads behind
  the block; a value behind the block is left unspecified.
\<close>

definition on_block :: "(block_iter \<Rightarrow> block_iter option option) \<Rightarrow> block_iterator \<Rightarrow> block_iterator option" where
  "on_block f b = (case b of EmptyIterator s \<Rightarrow> Some b | Block_Iter it \<Rightarrow> do { r \<leftarrow> f it; map_option Block_Iter r })"

definition on_valid_block :: "(block_iter \<Rightarrow> block_iter option option) \<Rightarrow> block_iterator \<Rightarrow> block_iterator option" where
  "on_valid_block f b = (case b of EmptyIterator s \<Rightarrow> None
     | Block_Iter it \<Rightarrow> if BlockIter_Valid it then do { r \<leftarrow> f it; map_option Block_Iter r } else None)"

definition block_iterator_ops :: "(slice \<Rightarrow> slice \<Rightarrow> int) \<Rightarrow> block_iterator iterator_ops" where
  "block_iterator_ops cmp =
     \<lparr>it_Valid = \<lambda>b. (case b of EmptyIterator s \<Rightarrow> False | Block_Iter it \<Rightarrow> BlockIter_Valid it),
      it_key = \<lambda>b. (case b of EmptyIterator s \<Rightarrow> [] | Block_Iter it \<Rightarrow> bi_key it),
      it_value = \<lambda>b. (case b of EmptyIterator s \<Rightarrow> [] | Block_Iter it \<Rightarrow> the (BlockIter_value it)),
      it_status = \<lambda>b. (case b of EmptyIterator s \<Rightarrow> s | Block_Iter it \<Rightarrow> bi_status it),
      it_SeekToFirst = on_block (\<lambda>it. Some (BlockIter_SeekToFirst it)),
      it_SeekToLast = on_block BlockIter_SeekToLast,
      it_Seek = \<lambda>target. on_block (BlockIter_Seek cmp target),
      it_Next = on_valid_block (\<lambda>it. Some (BlockIter_Next it)),
      it_Prev = on_valid_block BlockIter_Prev\<rparr>"

text \<open>
  An iterator of a block whose keys are in the order of the comparator.
\<close>

definition block_iterator_at :: "(slice \<Rightarrow> bool) \<Rightarrow> (slice \<Rightarrow> slice \<Rightarrow> int) \<Rightarrow> slice \<Rightarrow> nat \<Rightarrow> nat list \<Rightarrow> block_entry list
    \<Rightarrow> block_iterator \<Rightarrow> nat \<Rightarrow> bool" where
  "block_iterator_at valid cmp data lim rs es b i \<longleftrightarrow>
     compare_order valid cmp \<and> block_ok data lim rs es \<and> sorted_wrt (\<lambda>a b. cmp (fst a) (fst b) < 0) (map snd es)
     \<and> (\<forall>e\<in>set (map snd es). valid (fst e)) \<and> i \<le> length es \<and> (\<exists>it. b = Block_Iter it \<and> block_at data lim rs es it i)"

lemma block_at_on: "block_at data lim rs es it i \<Longrightarrow> it_on data lim rs it"
  by (auto simp: block_at_def at_entry_def at_end_def pending_def split: if_splits)

lemma block_at_valid: "block_at data lim rs es it i \<Longrightarrow> BlockIter_Valid it \<longleftrightarrow> i < length es"
  by (auto simp: block_at_def at_entry_def at_end_def pending_def it_on_def BlockIter_Valid_def split: if_splits)

lemma lower_bound_block: "lower_bound cmp (map snd es) target = length (takeWhile (\<lambda>e. cmp (entry_key e) target < 0) es)"
  by (simp add: lower_bound_def takeWhile_map comp_def)

interpretation block_entries: iterator_contract "block_iterator_ops cmp" valid cmp "map snd es" "block_iterator_at valid cmp data lim rs es"
proof
  fix b i assume "block_iterator_at valid cmp data lim rs es b i"
  then obtain it where order: "compare_order valid cmp" and ok: "block_ok data lim rs es"
    and sorted: "sorted_wrt (\<lambda>a b. cmp (fst a) (fst b) < 0) (map snd es)" and keys: "\<forall>e\<in>set (map snd es). valid (fst e)"
    and i: "i \<le> length es" and b: "b = Block_Iter it" and at: "block_at data lim rs es it i"
    by (auto simp: block_iterator_at_def)
  have here: "block_iterator_at valid cmp data lim rs es (Block_Iter it') j \<longleftrightarrow> j \<le> length es \<and> block_at data lim rs es it' j"
    for it' j
    using order ok sorted keys by (simp add: block_iterator_at_def)
  note on = block_at_on [OF at] and V = block_at_valid [OF at]
  note simps = b block_iterator_ops_def on_block_def on_valid_block_def here V
  show "i \<le> length (map snd es)" using i by simp
  show "it_Valid (block_iterator_ops cmp) b \<longleftrightarrow> i < length (map snd es)" by (simp add: simps)
  show "it_status (block_iterator_ops cmp) b = Status_OK" using on by (simp add: simps it_on_def)
  show "(it_key (block_iterator_ops cmp) b, it_value (block_iterator_ops cmp) b) = map snd es ! i" if "i < length (map snd es)"
    using at that by (simp add: simps block_at_def at_entry_def)
  show "\<exists>b'. it_SeekToFirst (block_iterator_ops cmp) b = Some b' \<and> block_iterator_at valid cmp data lim rs es b' 0"
    using block_at_SeekToFirst [OF ok on] by (auto simp: simps)
  show "\<exists>b'. it_SeekToLast (block_iterator_ops cmp) b = Some b' \<and> block_iterator_at valid cmp data lim rs es b' (length (map snd es) - 1)"
    using block_at_SeekToLast [OF ok on] by (auto simp: simps)
  show "\<exists>b'. it_Seek (block_iterator_ops cmp) target b = Some b'
      \<and> block_iterator_at valid cmp data lim rs es b' (lower_bound cmp (map snd es) target)" if "valid target" for target
    using block_at_Seek [OF order ok on _ _ that] sorted keys length_takeWhile_le
    by (auto simp: simps lower_bound_block sorted_wrt_map)
  show "\<exists>b'. it_Next (block_iterator_ops cmp) b = Some b' \<and> block_iterator_at valid cmp data lim rs es b' (Suc i)" if "i < length (map snd es)"
    using block_at_Next [OF ok, of it "Suc i"] at that by (auto simp: simps BlockIter_Next_def block_at_def [of _ _ _ _ it] at_entry_def)
  show "\<exists>b'. it_Prev (block_iterator_ops cmp) b = Some b'
      \<and> block_iterator_at valid cmp data lim rs es b' (if i = 0 then length (map snd es) else i - 1)" if "i < length (map snd es)"
    using block_at_Prev [OF ok at] that by (auto simp: simps)
qed

lemma built_block_contract:
  assumes "compare_order valid cmp" and "1 \<le> interval" and "length (build_block interval kvs) < 2 ^ 32"
    and "\<forall>kv\<in>set kvs. length (fst kv) < 2 ^ 32 \<and> valid (fst kv)" and "sorted_wrt (\<lambda>a b. cmp (fst a) (fst b) < 0) kvs"
  shows "\<exists>at. iterator_contract (block_iterator_ops cmp) valid cmp kvs at
    \<and> at (Block_NewIterator (Block_new (build_block interval kvs))) (length kvs)"
proof -
  have "\<forall>kv\<in>set kvs. length (fst kv) < 2 ^ 32" using assms(4) by blast
  then obtain lim rs es where ok: "block_ok (build_block interval kvs) lim rs es" and es: "map snd es = kvs"
    and it: "Block_NewIterator (Block_new (build_block interval kvs)) = Block_Iter (BlockIter_new (build_block interval kvs) lim (length rs))"
    using build_block_ok [OF assms(2,3)] by blast
  have "block_at (build_block interval kvs) lim rs es (BlockIter_new (build_block interval kvs) lim (length rs)) (length kvs)"
    by (simp add: es [symmetric] block_at_def at_end_def it_on_def BlockIter_new_def)
  then have "block_iterator_at valid cmp (build_block interval kvs) lim rs es
      (Block_NewIterator (Block_new (build_block interval kvs))) (length kvs)"
    using assms ok it unfolding block_iterator_at_def es [symmetric] by simp
  with block_entries.iterator_contract_axioms [of cmp valid es] show ?thesis unfolding es by blast
qed

end
