(* ===== verification/Ldb_Merger.thy ===== *)
theory Ldb_Merger
  imports Ldb_Iterator
begin

text \<open>
  Merging iterators (\<^verbatim>\<open>table/merger.cc\<close>): an iterator over the union of its children, with the state that
  depends on the direction it moves in. Children are states of one type of iterators, wrapped like in the source.
\<close>

section \<open>Operations\<close>

datatype direction = kForward | kReverse

record 's merging_iter =
  mi_children :: "'s iter_wrapper list"
  mi_current :: "nat option"
  mi_direction :: direction

text \<open>A loop over the children with their indices.\<close>

fun each_child :: "(nat \<Rightarrow> 'w \<Rightarrow> 'w option) \<Rightarrow> nat \<Rightarrow> 'w list \<Rightarrow> 'w list option" where
  "each_child f i [] = Some []"
| "each_child f i (w # ws) = do { w' \<leftarrow> f i w; ws' \<leftarrow> each_child f (Suc i) ws; Some (w' # ws') }"

definition MergingIterator_new :: "'s iterator_ops \<Rightarrow> 's list \<Rightarrow> 's merging_iter" where
  "MergingIterator_new ops children =
     \<lparr>mi_children = map (\<lambda>s. iw_Set ops (Some s) iw_null) children, mi_current = None, mi_direction = kForward\<rparr>"

definition MergingIterator_Valid :: "'s merging_iter \<Rightarrow> bool" where
  "MergingIterator_Valid m \<longleftrightarrow> mi_current m \<noteq> None"

fun find_smallest :: "(slice \<Rightarrow> slice \<Rightarrow> int) \<Rightarrow> (nat \<times> 's iter_wrapper) option \<Rightarrow> (nat \<times> 's iter_wrapper) list
    \<Rightarrow> (nat \<times> 's iter_wrapper) option" where
  "find_smallest cmp smallest [] = smallest"
| "find_smallest cmp smallest ((i, child) # rest) = find_smallest cmp
     (if iw_valid child then
        case smallest of None \<Rightarrow> Some (i, child)
        | Some (j, w) \<Rightarrow> if cmp (iw_key child) (iw_key w) < 0 then Some (i, child) else smallest
      else smallest) rest"

definition FindSmallest :: "(slice \<Rightarrow> slice \<Rightarrow> int) \<Rightarrow> 's merging_iter \<Rightarrow> 's merging_iter" where
  "FindSmallest cmp m = m\<lparr>mi_current := map_option fst (find_smallest cmp None (enumerate 0 (mi_children m)))\<rparr>"

fun find_largest :: "(slice \<Rightarrow> slice \<Rightarrow> int) \<Rightarrow> (nat \<times> 's iter_wrapper) option \<Rightarrow> (nat \<times> 's iter_wrapper) list
    \<Rightarrow> (nat \<times> 's iter_wrapper) option" where
  "find_largest cmp largest [] = largest"
| "find_largest cmp largest ((i, child) # rest) = find_largest cmp
     (if iw_valid child then
        case largest of None \<Rightarrow> Some (i, child)
        | Some (j, w) \<Rightarrow> if cmp (iw_key child) (iw_key w) > 0 then Some (i, child) else largest
      else largest) rest"

definition FindLargest :: "(slice \<Rightarrow> slice \<Rightarrow> int) \<Rightarrow> 's merging_iter \<Rightarrow> 's merging_iter" where
  "FindLargest cmp m = m\<lparr>mi_current := map_option fst (find_largest cmp None (rev (enumerate 0 (mi_children m))))\<rparr>"

definition MergingIterator_SeekToFirst ::
  "'s iterator_ops \<Rightarrow> (slice \<Rightarrow> slice \<Rightarrow> int) \<Rightarrow> 's merging_iter \<Rightarrow> 's merging_iter option" where
  "MergingIterator_SeekToFirst ops cmp m = do {
     ws \<leftarrow> each_child (\<lambda>i. iw_SeekToFirst ops) 0 (mi_children m);
     Some ((FindSmallest cmp (m\<lparr>mi_children := ws\<rparr>))\<lparr>mi_direction := kForward\<rparr>)
   }"

definition MergingIterator_SeekToLast ::
  "'s iterator_ops \<Rightarrow> (slice \<Rightarrow> slice \<Rightarrow> int) \<Rightarrow> 's merging_iter \<Rightarrow> 's merging_iter option" where
  "MergingIterator_SeekToLast ops cmp m = do {
     ws \<leftarrow> each_child (\<lambda>i. iw_SeekToLast ops) 0 (mi_children m);
     Some ((FindLargest cmp (m\<lparr>mi_children := ws\<rparr>))\<lparr>mi_direction := kReverse\<rparr>)
   }"

definition MergingIterator_Seek ::
  "'s iterator_ops \<Rightarrow> (slice \<Rightarrow> slice \<Rightarrow> int) \<Rightarrow> slice \<Rightarrow> 's merging_iter \<Rightarrow> 's merging_iter option" where
  "MergingIterator_Seek ops cmp target m = do {
     ws \<leftarrow> each_child (\<lambda>i. iw_Seek ops target) 0 (mi_children m);
     Some ((FindSmallest cmp (m\<lparr>mi_children := ws\<rparr>))\<lparr>mi_direction := kForward\<rparr>)
   }"

text \<open>The loops that turn the children around; the current child keeps its place.\<close>

definition child_after ::
  "'s iterator_ops \<Rightarrow> (slice \<Rightarrow> slice \<Rightarrow> int) \<Rightarrow> slice \<Rightarrow> nat \<Rightarrow> nat \<Rightarrow> 's iter_wrapper \<Rightarrow> 's iter_wrapper option" where
  "child_after ops cmp key current i child =
     (if i \<noteq> current then do {
        w \<leftarrow> iw_Seek ops key child;
        if iw_valid w \<and> cmp key (iw_key w) = 0 then iw_Next ops w else Some w
      } else Some child)"

definition child_before :: "'s iterator_ops \<Rightarrow> slice \<Rightarrow> nat \<Rightarrow> nat \<Rightarrow> 's iter_wrapper \<Rightarrow> 's iter_wrapper option" where
  "child_before ops key current i child =
     (if i \<noteq> current then do {
        w \<leftarrow> iw_Seek ops key child;
        if iw_valid w then iw_Prev ops w else iw_SeekToLast ops w
      } else Some child)"

definition move_current :: "('s iter_wrapper \<Rightarrow> 's iter_wrapper option) \<Rightarrow> nat \<Rightarrow> 's iter_wrapper list \<Rightarrow> 's iter_wrapper list option" where
  "move_current f c ws = do { w \<leftarrow> f (ws ! c); Some (ws[c := w]) }"

definition MergingIterator_Next ::
  "'s iterator_ops \<Rightarrow> (slice \<Rightarrow> slice \<Rightarrow> int) \<Rightarrow> 's merging_iter \<Rightarrow> 's merging_iter option" where
  "MergingIterator_Next ops cmp m = do {
     c \<leftarrow> mi_current m;
     ws \<leftarrow> (if mi_direction m \<noteq> kForward
            then each_child (child_after ops cmp (iw_key (mi_children m ! c)) c) 0 (mi_children m) else Some (mi_children m));
     ws' \<leftarrow> move_current (iw_Next ops) c ws;
     Some (FindSmallest cmp (m\<lparr>mi_children := ws', mi_direction := kForward\<rparr>))
   }"

definition MergingIterator_Prev ::
  "'s iterator_ops \<Rightarrow> (slice \<Rightarrow> slice \<Rightarrow> int) \<Rightarrow> 's merging_iter \<Rightarrow> 's merging_iter option" where
  "MergingIterator_Prev ops cmp m = do {
     c \<leftarrow> mi_current m;
     ws \<leftarrow> (if mi_direction m \<noteq> kReverse
            then each_child (child_before ops (iw_key (mi_children m ! c)) c) 0 (mi_children m) else Some (mi_children m));
     ws' \<leftarrow> move_current (iw_Prev ops) c ws;
     Some (FindLargest cmp (m\<lparr>mi_children := ws', mi_direction := kReverse\<rparr>))
   }"

definition MergingIterator_key :: "'s merging_iter \<Rightarrow> slice" where
  "MergingIterator_key m = iw_key (mi_children m ! the (mi_current m))"
definition MergingIterator_value :: "'s iterator_ops \<Rightarrow> 's merging_iter \<Rightarrow> slice" where
  "MergingIterator_value ops m = iw_value ops (mi_children m ! the (mi_current m))"

text \<open>The first status that is not OK.\<close>

fun children_status :: "'s iterator_ops \<Rightarrow> status \<Rightarrow> 's iter_wrapper list \<Rightarrow> status" where
  "children_status ops s [] = s"
| "children_status ops s (w # ws) =
     (let s' = iw_status ops w in if \<not> status_ok s' then s' else children_status ops s' ws)"

definition MergingIterator_status :: "'s iterator_ops \<Rightarrow> 's merging_iter \<Rightarrow> status" where
  "MergingIterator_status ops m = children_status ops Status_OK (mi_children m)"

definition merging_ops :: "'s iterator_ops \<Rightarrow> (slice \<Rightarrow> slice \<Rightarrow> int) \<Rightarrow> 's merging_iter iterator_ops" where
  "merging_ops ops cmp =
     \<lparr>it_Valid = MergingIterator_Valid, it_key = MergingIterator_key, it_value = MergingIterator_value ops,
      it_status = MergingIterator_status ops, it_SeekToFirst = MergingIterator_SeekToFirst ops cmp,
      it_SeekToLast = MergingIterator_SeekToLast ops cmp, it_Seek = MergingIterator_Seek ops cmp,
      it_Next = MergingIterator_Next ops cmp, it_Prev = MergingIterator_Prev ops cmp\<rparr>"

text \<open>Without children there is an empty iterator, and a single child is not wrapped.\<close>

datatype 's merged = Merged_empty status | Merged_child 's | Merged "'s merging_iter"

definition NewMergingIterator :: "'s iterator_ops \<Rightarrow> 's list \<Rightarrow> 's merged" where
  "NewMergingIterator ops children =
     (case children of [] \<Rightarrow> Merged_empty Status_OK | [s] \<Rightarrow> Merged_child s | _ \<Rightarrow> Merged (MergingIterator_new ops children))"

section \<open>Choosing a child\<close>

lemma find_smallest_Some: "find_smallest cmp (Some x) ps \<noteq> None"
  by (induction ps arbitrary: x) (auto split: prod.splits)

lemma find_smallest_None: "find_smallest cmp None ps = None \<longleftrightarrow> (\<forall>p\<in>set ps. \<not> iw_valid (snd p))"
  by (induction ps) (auto simp: find_smallest_Some split: if_splits)

lemma find_smallest_append: "find_smallest cmp acc (as @ bs) = find_smallest cmp (find_smallest cmp acc as) bs"
  by (induction cmp acc as rule: find_smallest.induct) auto

lemma find_smallest_in: "find_smallest cmp acc ps = Some q \<Longrightarrow> acc = Some q \<or> q \<in> set ps \<and> iw_valid (snd q)"
  by (induction cmp acc ps rule: find_smallest.induct) (auto split: if_splits option.splits)

lemma find_smallest_keep:
  "\<forall>q\<in>set ps. iw_valid (snd q) \<longrightarrow> \<not> cmp (iw_key (snd q)) (iw_key w) < 0 \<Longrightarrow> find_smallest cmp (Some (c, w)) ps = Some (c, w)"
  by (induction ps) (auto split: prod.splits)

text \<open>The child that is found is the first one in the list with the least key.\<close>

lemma find_smallest_first:
  assumes "iw_valid w" and "\<forall>q\<in>set as. iw_valid (snd q) \<longrightarrow> cmp (iw_key w) (iw_key (snd q)) < 0"
    and "\<forall>q\<in>set bs. iw_valid (snd q) \<longrightarrow> \<not> cmp (iw_key (snd q)) (iw_key w) < 0"
  shows "find_smallest cmp None (as @ (c, w) # bs) = Some (c, w)"
proof (cases "find_smallest cmp None as")
  case None
  then show ?thesis using find_smallest_keep [of bs cmp w c, OF assms(3)] assms(1) by (simp add: find_smallest_append)
next
  case (Some q)
  then have "cmp (iw_key w) (iw_key (snd q)) < 0" using find_smallest_in [OF Some] assms(2) by auto
  with Some show ?thesis using find_smallest_keep [of bs cmp w c, OF assms(3)] assms(1)
    by (cases q) (simp add: find_smallest_append)
qed

lemma enumerate_split:
  assumes "c < length ws"
  obtains as bs where "enumerate 0 ws = as @ (c, ws ! c) # bs" and "set as = {(j, ws ! j) | j. j < c}"
    and "set bs = {(j, ws ! j) | j. c < j \<and> j < length ws}"
proof
  have "enumerate 0 ws = enumerate 0 (take c ws) @ enumerate c (ws ! c # drop (Suc c) ws)"
    using id_take_nth_drop [OF assms] enumerate_append_eq [of 0 "take c ws"] assms by (metis add_0 length_take min.absorb4)
  then show "enumerate 0 ws = enumerate 0 (take c ws) @ (c, ws ! c) # enumerate (Suc c) (drop (Suc c) ws)" by simp
  show "set (enumerate 0 (take c ws)) = {(j, ws ! j) | j. j < c}"
    using assms by (auto simp: in_set_enumerate_eq)
  show "set (enumerate (Suc c) (drop (Suc c) ws)) = {(j, ws ! j) | j. c < j \<and> j < length ws}"
  proof (rule set_eqI)
    fix q :: "nat \<times> _"
    show "q \<in> set (enumerate (Suc c) (drop (Suc c) ws)) \<longleftrightarrow> q \<in> {(j, ws ! j) | j. c < j \<and> j < length ws}"
      using assms by (cases q) (auto simp: in_set_enumerate_eq)
  qed
qed

text \<open>The search for the largest child is the search for the smallest in the inverse order.\<close>

lemma find_largest_inverse: "find_largest cmp acc ps = find_smallest (\<lambda>a b. - cmp a b) acc ps"
  by (induction cmp acc ps rule: find_largest.induct) (auto split: option.splits)

section \<open>Positions of the children\<close>

lemma takeWhile_sorted_filter:
  assumes "sorted_wrt R xs" and "\<And>x y. x \<in> set xs \<Longrightarrow> y \<in> set xs \<Longrightarrow> R x y \<Longrightarrow> P y \<Longrightarrow> P x"
  shows "takeWhile P xs = filter P xs \<and> dropWhile P xs = filter (\<lambda>x. \<not> P x) xs"
  using assms
proof (induction xs)
  case (Cons x xs)
  have "takeWhile P xs = filter P xs \<and> dropWhile P xs = filter (\<lambda>x. \<not> P x) xs"
    using Cons.prems by (intro Cons.IH) auto
  moreover have "\<forall>y\<in>set xs. \<not> P y" if "\<not> P x" using Cons.prems that by auto
  ultimately show ?case by (auto simp: filter_empty_conv filter_id_conv)
qed simp

text \<open>
  The entries of all children, each with the index of its child: in the order of their keys, and those with the same key in
  the order of the children. A key that several children hold occurs once for each of them.
\<close>

abbreviation key_less :: "(slice \<Rightarrow> slice \<Rightarrow> int) \<Rightarrow> slice \<times> slice \<Rightarrow> slice \<times> slice \<Rightarrow> bool" where
  "key_less cmp a b \<equiv> cmp (fst a) (fst b) < 0"

abbreviation tag_key :: "nat \<times> slice \<times> slice \<Rightarrow> slice" where
  "tag_key t \<equiv> fst (snd t)"

definition tag_less :: "(slice \<Rightarrow> slice \<Rightarrow> int) \<Rightarrow> nat \<times> slice \<times> slice \<Rightarrow> nat \<times> slice \<times> slice \<Rightarrow> bool" where
  "tag_less cmp a b \<longleftrightarrow> cmp (tag_key a) (tag_key b) < 0 \<or> cmp (tag_key a) (tag_key b) = 0 \<and> fst a < fst b"

definition merge_of ::
  "(slice \<Rightarrow> bool) \<Rightarrow> (slice \<Rightarrow> slice \<Rightarrow> int) \<Rightarrow> (slice \<times> slice) list list \<Rightarrow> (nat \<times> slice \<times> slice) list \<Rightarrow> bool" where
  "merge_of valid cmp ess ts \<longleftrightarrow> compare_order valid cmp \<and> sorted_wrt (tag_less cmp) ts \<and> (\<forall>t\<in>set ts. valid (tag_key t))
     \<and> set ts = (\<Union>j<length ess. Pair j ` set (ess ! j)) \<and> (\<forall>j<length ess. sorted_wrt (key_less cmp) (ess ! j))"

definition upper_bound :: "(slice \<Rightarrow> slice \<Rightarrow> int) \<Rightarrow> (slice \<times> slice) list \<Rightarrow> slice \<Rightarrow> nat" where
  "upper_bound cmp es target = length (takeWhile (\<lambda>e. cmp (fst e) target \<le> 0) es)"

text \<open>The children stand between the first \<open>i\<close> entries and the others.\<close>

definition cut :: "(slice \<times> slice) list list \<Rightarrow> (nat \<times> slice \<times> slice) list \<Rightarrow> nat \<Rightarrow> (nat \<Rightarrow> nat) \<Rightarrow> bool" where
  "cut ess ts i p \<longleftrightarrow> i \<le> length ts \<and> (\<forall>j<length ess. p j \<le> length (ess ! j)
     \<and> Pair j ` set (take (p j) (ess ! j)) \<subseteq> set (take i ts) \<and> Pair j ` set (drop (p j) (ess ! j)) \<subseteq> set (drop i ts))"

lemma merge_ofD:
  assumes "merge_of valid cmp ess ts"
  shows "compare_order valid cmp" "sorted_wrt (tag_less cmp) ts" "t \<in> set ts \<Longrightarrow> valid (tag_key t)"
    "j < length ess \<Longrightarrow> sorted_wrt (key_less cmp) (ess ! j)" "j < length ess \<Longrightarrow> e \<in> set (ess ! j) \<Longrightarrow> (j, e) \<in> set ts"
    "t \<in> set ts \<Longrightarrow> fst t < length ess \<and> snd t \<in> set (ess ! fst t)"
    "j < length ess \<Longrightarrow> e \<in> set (ess ! j) \<Longrightarrow> valid (fst e)"
proof -
  have d: "compare_order valid cmp" "sorted_wrt (tag_less cmp) ts" "\<forall>t\<in>set ts. valid (tag_key t)"
    "set ts = (\<Union>j<length ess. Pair j ` set (ess ! j))" "\<forall>j<length ess. sorted_wrt (key_less cmp) (ess ! j)"
    using assms unfolding merge_of_def by blast+
  show "compare_order valid cmp" "sorted_wrt (tag_less cmp) ts" by (fact d)+
  show "t \<in> set ts \<Longrightarrow> valid (tag_key t)" "j < length ess \<Longrightarrow> sorted_wrt (key_less cmp) (ess ! j)" using d(3,5) by blast+
  show in_ts: "(j, e) \<in> set ts" if "j < length ess" "e \<in> set (ess ! j)" for j e using that d(4) by blast
  show "t \<in> set ts \<Longrightarrow> fst t < length ess \<and> snd t \<in> set (ess ! fst t)" using d(4) by auto
  show "j < length ess \<Longrightarrow> e \<in> set (ess ! j) \<Longrightarrow> valid (fst e)" using in_ts d(3) by fastforce
qed

lemma cutD:
  assumes "cut ess ts i p" and "j < length ess"
  shows "p j \<le> length (ess ! j)" "e \<in> set (take (p j) (ess ! j)) \<Longrightarrow> (j, e) \<in> set (take i ts)"
    "e \<in> set (drop (p j) (ess ! j)) \<Longrightarrow> (j, e) \<in> set (drop i ts)"
  using assms unfolding cut_def by blast+

lemma child_order:
  assumes "merge_of valid cmp ess ts" and "j < length ess" and "x < y" and "y < length (ess ! j)"
  shows "cmp (fst (ess ! j ! x)) (fst (ess ! j ! y)) < 0" "cmp (fst (ess ! j ! y)) (fst (ess ! j ! x)) > 0"
proof -
  show "cmp (fst (ess ! j ! x)) (fst (ess ! j ! y)) < 0"
    using sorted_wrt_nth_less [OF merge_ofD(4) [OF assms(1,2)] assms(3,4)] .
  then show "cmp (fst (ess ! j ! y)) (fst (ess ! j ! x)) > 0"
    using compare_order.order_swap [OF merge_ofD(1) [OF assms(1)]] merge_ofD(7) [OF assms(1,2) nth_mem] assms(3,4) by simp
qed

lemma tag_less_asym:
  assumes "merge_of valid cmp ess ts" and "a \<in> set ts" and "b \<in> set ts" and "tag_less cmp a b"
  shows "\<not> tag_less cmp b a" "a \<noteq> b" "\<not> cmp (tag_key b) (tag_key a) < 0"
  using compare_order.order_swap [OF merge_ofD(1) [OF assms(1)], of "tag_key a" "tag_key b"]
    compare_order.order_swap [OF merge_ofD(1) [OF assms(1)], of "tag_key b" "tag_key a"]
    compare_order.same [OF merge_ofD(1) [OF assms(1)], of "tag_key a"]
    merge_ofD(3) [OF assms(1)] assms(2-4) by (auto simp: tag_less_def)

lemma merge_of_distinct:
  assumes "merge_of valid cmp ess ts"
  shows "distinct ts" "j < length ess \<Longrightarrow> distinct (ess ! j)"
proof -
  have "distinct xs" if "sorted_wrt (tag_less cmp) xs" "set xs \<subseteq> set ts" for xs
    using that by (induction xs) (use tag_less_asym(2) [OF assms] in force)+
  then show "distinct ts" using merge_ofD(2) [OF assms] by blast
  show "distinct (ess ! j)" if j: "j < length ess"
    unfolding distinct_conv_nth using child_order(1) [OF assms j] compare_order.same [OF merge_ofD(1) [OF assms]]
      merge_ofD(7) [OF assms j nth_mem] by (metis less_irrefl nat_neq_iff)
qed

text \<open>A condition on keys that holds for all keys before one it holds for cuts all the lists.\<close>

lemma cut_key:
  assumes m: "merge_of valid cmp ess ts" and P: "\<And>k l. valid k \<Longrightarrow> valid l \<Longrightarrow> cmp k l \<le> 0 \<Longrightarrow> P l \<Longrightarrow> P k"
  shows "cut ess ts (length (takeWhile (\<lambda>t. P (tag_key t)) ts)) (\<lambda>j. length (takeWhile (\<lambda>e. P (fst e)) (ess ! j)))"
proof -
  have t: "takeWhile (\<lambda>t. P (tag_key t)) ts = filter (\<lambda>t. P (tag_key t)) ts
      \<and> dropWhile (\<lambda>t. P (tag_key t)) ts = filter (\<lambda>t. \<not> P (tag_key t)) ts"
    by (rule takeWhile_sorted_filter [OF merge_ofD(2) [OF m]])
      (use P [OF merge_ofD(3) [OF m] merge_ofD(3) [OF m]] in \<open>force simp: tag_less_def\<close>)
  have c: "takeWhile (\<lambda>e. P (fst e)) (ess ! j) = filter (\<lambda>e. P (fst e)) (ess ! j)
      \<and> dropWhile (\<lambda>e. P (fst e)) (ess ! j) = filter (\<lambda>e. \<not> P (fst e)) (ess ! j)" if j: "j < length ess" for j
    by (rule takeWhile_sorted_filter [OF merge_ofD(4) [OF m j]])
      (use P [OF merge_ofD(7) [OF m j] merge_ofD(7) [OF m j]] in force)
  show ?thesis
    using t c merge_ofD(5) [OF m] unfolding cut_def takeWhile_eq_take [symmetric] dropWhile_eq_drop [symmetric]
    by (auto simp: length_takeWhile_le)
qed

lemma lower_bound_le: "lower_bound cmp xs t \<le> length xs"
  by (simp add: lower_bound_def length_takeWhile_le)

lemma cut_lower:
  assumes "merge_of valid cmp ess ts" and "valid t"
  shows "cut ess ts (lower_bound cmp (map snd ts) t) (\<lambda>j. lower_bound cmp (ess ! j) t)"
  unfolding lower_bound_def takeWhile_map length_map comp_def
  by (rule cut_key [OF assms(1)]) (rule compare_order.le_of_less [OF merge_ofD(1) [OF assms(1)] _ _ assms(2)])

lemma cut_upper:
  assumes "merge_of valid cmp ess ts" and "valid t"
  shows "cut ess ts (upper_bound cmp (map snd ts) t) (\<lambda>j. upper_bound cmp (ess ! j) t)"
  unfolding upper_bound_def takeWhile_map length_map comp_def
  by (rule cut_key [OF assms(1)]) (rule compare_order.order_trans [OF merge_ofD(1) [OF assms(1)] _ _ assms(2)])

text \<open>In a child, the upper bound of a key is behind the entry at the lower bound if that has the key.\<close>

lemma upper_of_lower:
  assumes m: "merge_of valid cmp ess ts" and j: "j < length ess" and v: "valid t"
  shows "upper_bound cmp (ess ! j) t =
    (if lower_bound cmp (ess ! j) t < length (ess ! j) \<and> cmp t (fst (ess ! j ! lower_bound cmp (ess ! j) t)) = 0
     then Suc (lower_bound cmp (ess ! j) t) else lower_bound cmp (ess ! j) t)"
proof -
  define xs where "xs = ess ! j"
  define l where "l = lower_bound cmp xs t"
  note order = merge_ofD(1) [OF m]
  have valid: "valid (fst (xs ! i))" if "i < length xs" for i using merge_ofD(7) [OF m j nth_mem] that unfolding xs_def by blast
  have less: "cmp (fst (xs ! i)) t < 0" if "i < l" for i
    using nth_length_takeWhile [of "\<lambda>e. cmp (fst e) t < 0" xs] takeWhile_nth [of i "\<lambda>e. cmp (fst e) t < 0" xs]
      set_takeWhileD [of "xs ! i" "\<lambda>e. cmp (fst e) t < 0" xs] that nth_mem [of i "takeWhile (\<lambda>e. cmp (fst e) t < 0) xs"]
    unfolding l_def lower_bound_def by metis
  have at_l: "\<not> cmp (fst (xs ! l)) t < 0" if "l < length xs"
    using nth_length_takeWhile [of "\<lambda>e. cmp (fst e) t < 0" xs] that unfolding l_def lower_bound_def by blast
  have eq: "cmp (fst (xs ! l)) t \<le> 0 \<longleftrightarrow> cmp t (fst (xs ! l)) = 0" if "l < length xs"
    using at_l [OF that] compare_order.order_swap [OF order valid [OF that] v] compare_order.order_swap [OF order v valid [OF that]] by auto
  have "takeWhile (\<lambda>e. cmp (fst e) t \<le> 0) xs = take (if l < length xs \<and> cmp t (fst (xs ! l)) = 0 then Suc l else l) xs"
  proof (cases "l < length xs \<and> cmp t (fst (xs ! l)) = 0")
    case True
    have "takeWhile (\<lambda>e. cmp (fst e) t \<le> 0) xs = take (Suc l) xs"
    proof (rule takeWhile_eq_take_P_nth)
      show "cmp (fst (xs ! i)) t \<le> 0" if "i < Suc l" "i < length xs" for i
        using less [of i] eq True that by (cases "i = l") auto
      show "\<not> cmp (fst (xs ! Suc l)) t \<le> 0" if n: "Suc l < length xs"
      proof
        assume "cmp (fst (xs ! Suc l)) t \<le> 0"
        moreover have "cmp (fst (xs ! l)) (fst (xs ! Suc l)) < 0" using child_order(1) [OF m j, of l "Suc l"] n unfolding xs_def by simp
        ultimately have "cmp (fst (xs ! l)) t < 0" using compare_order.less_of_le [OF order valid valid v] n by (meson Suc_lessD)
        then show False using at_l n by simp
      qed
    qed
    then show ?thesis using True by simp
  next
    case False
    have "takeWhile (\<lambda>e. cmp (fst e) t \<le> 0) xs = take l xs"
    proof (rule takeWhile_eq_take_P_nth)
      show "cmp (fst (xs ! i)) t \<le> 0" if "i < l" "i < length xs" for i using less [OF that(1)] by simp
      show "\<not> cmp (fst (xs ! l)) t \<le> 0" if "l < length xs" using eq [OF that] False that by blast
    qed
    then show ?thesis unfolding if_not_P [OF False] .
  qed
  then have "upper_bound cmp xs t = (if l < length xs \<and> cmp t (fst (xs ! l)) = 0 then Suc l else l)"
    using lower_bound_le [of cmp xs t] unfolding upper_bound_def l_def [symmetric] by simp
  then show ?thesis unfolding xs_def l_def .
qed

lemma cut_first: "merge_of valid cmp ess ts \<Longrightarrow> cut ess ts 0 (\<lambda>_. 0)"
  using merge_ofD(5) by (auto simp: cut_def)

lemma cut_end: "merge_of valid cmp ess ts \<Longrightarrow> cut ess ts (length ts) (\<lambda>j. length (ess ! j))"
  using merge_ofD(5) by (auto simp: cut_def)

lemma nth_drop_in: "p \<le> x \<Longrightarrow> x < length xs \<Longrightarrow> xs ! x \<in> set (drop p xs)"
  using nth_mem [of "x - p" "drop p xs"] by simp

lemma nth_take_in: "x < p \<Longrightarrow> x < length xs \<Longrightarrow> xs ! x \<in> set (take p xs)"
  using nth_mem [of x "take p xs"] by simp

lemma in_take_nth: "x \<in> set (take p xs) \<Longrightarrow> \<exists>y<p. y < length xs \<and> xs ! y = x"
  by (auto simp: in_set_conv_nth)

lemma in_drop_nth: "x \<in> set (drop p xs) \<Longrightarrow> \<exists>y\<ge>p. y < length xs \<and> xs ! y = x"
  by (auto simp: in_set_conv_nth) (metis le_add1 less_diff_conv add.commute)

text \<open>An entry of a child lies on the same side of the cut as in the list of all entries.\<close>

lemma cut_side:
  assumes m: "merge_of valid cmp ess ts" and c: "cut ess ts i p" and j: "j < length ess" "x < length (ess ! j)"
    and t: "y < length ts" "ts ! y = (j, ess ! j ! x)"
  shows "x < p j \<longleftrightarrow> y < i"
proof
  note d = nth_eq_iff_index_eq [OF merge_of_distinct(1) [OF m]]
  show "y < i" if "x < p j"
  proof -
    have "ts ! y \<in> set (take i ts)" unfolding t(2) by (rule cutD(2) [OF c j(1) nth_take_in [OF that j(2)]])
    then show ?thesis using in_take_nth d t(1) by metis
  qed
  show "x < p j" if "y < i"
  proof (rule ccontr)
    assume "\<not> x < p j"
    then have "ts ! y \<in> set (drop i ts)" unfolding t(2) using cutD(3) [OF c j(1)] nth_drop_in [of "p j" x "ess ! j"] j(2) by simp
    then show False using in_drop_nth d t(1) that by (metis not_less)
  qed
qed

lemma cutI:
  assumes m: "merge_of valid cmp ess ts" and i: "i \<le> length ts" and le: "\<And>j. j < length ess \<Longrightarrow> p j \<le> length (ess ! j)"
    and side: "\<And>j x y. j < length ess \<Longrightarrow> x < length (ess ! j) \<Longrightarrow> y < length ts \<Longrightarrow> ts ! y = (j, ess ! j ! x) \<Longrightarrow> x < p j \<longleftrightarrow> y < i"
  shows "cut ess ts i p"
  unfolding cut_def
proof (intro conjI allI impI subsetI)
  show "i \<le> length ts" by (rule i)
  fix j q assume j: "j < length ess"
  show "p j \<le> length (ess ! j)" using le j .
  have pos: "\<exists>y<length ts. ts ! y = (j, ess ! j ! x)" if "x < length (ess ! j)" for x
    using merge_ofD(5) [OF m j nth_mem [OF that]] by (auto simp: in_set_conv_nth)
  show "q \<in> set (take i ts)" if "q \<in> Pair j ` set (take (p j) (ess ! j))"
  proof -
    from that obtain e where e: "q = (j, e)" "e \<in> set (take (p j) (ess ! j))" by blast
    from in_take_nth [OF e(2)] obtain x where x: "x < p j" "x < length (ess ! j)" "ess ! j ! x = e" by blast
    from pos [OF x(2)] obtain y where y: "y < length ts" "ts ! y = (j, ess ! j ! x)" by blast
    then have "y < i" using side [OF j x(2) y] x(1) by blast
    from nth_take_in [OF this y(1)] show ?thesis using y(2) x(3) e(1) by simp
  qed
  show "q \<in> set (drop i ts)" if "q \<in> Pair j ` set (drop (p j) (ess ! j))"
  proof -
    from that obtain e where e: "q = (j, e)" "e \<in> set (drop (p j) (ess ! j))" by blast
    from in_drop_nth [OF e(2)] obtain x where x: "p j \<le> x" "x < length (ess ! j)" "ess ! j ! x = e" by blast
    from pos [OF x(2)] obtain y where y: "y < length ts" "ts ! y = (j, ess ! j ! x)" by blast
    have "\<not> y < i" using side [OF j x(2) y] x(1) by simp
    then have "i \<le> y" by simp
    from nth_drop_in [OF this y(1)] show ?thesis using y(2) x(3) e(1) by simp
  qed
qed

text \<open>The child of the next entry stands at it, the child of the entry before stands behind that.\<close>

lemma cut_next_child:
  assumes m: "merge_of valid cmp ess ts" and c: "cut ess ts i p" and i: "i < length ts" and t: "ts ! i = (j, e)"
  shows "j < length ess" "p j < length (ess ! j)" "ess ! j ! p j = e"
proof -
  have j: "j < length ess" "e \<in> set (ess ! j)" using merge_ofD(6) [OF m nth_mem [OF i]] t by auto
  then obtain x where x: "x < length (ess ! j)" "ess ! j ! x = e" by (auto simp: in_set_conv_nth)
  have "\<not> x < p j" using cut_side [OF m c j(1) x(1) i] t x(2) by simp
  moreover have "\<not> p j < x"
  proof
    assume l: "p j < x"
    then have "(j, ess ! j ! p j) \<in> set (drop i ts)"
      using cutD(3) [OF c j(1)] x(1) nth_drop_in [of "p j" "p j" "ess ! j"] by simp
    then obtain y where y: "i \<le> y" "y < length ts" "ts ! y = (j, ess ! j ! p j)" using in_drop_nth by metis
    have less: "tag_less cmp (ts ! y) (ts ! i)" using child_order(1) [OF m j(1) l x(1)] t x(2) y(3) by (simp add: tag_less_def)
    then have "i \<noteq> y" using tag_less_asym(2) [OF m nth_mem nth_mem] y(2) i by blast
    then have "tag_less cmp (ts ! i) (ts ! y)" using sorted_wrt_nth_less [OF merge_ofD(2) [OF m]] y(1,2) by simp
    with less show False using tag_less_asym(1) [OF m nth_mem nth_mem] y(2) i by blast
  qed
  ultimately have "x = p j" by simp
  then show "j < length ess" "p j < length (ess ! j)" "ess ! j ! p j = e" using j x by auto
qed

lemma cut_previous_child:
  assumes m: "merge_of valid cmp ess ts" and c: "cut ess ts (Suc i) p" and t: "ts ! i = (j, e)"
  shows "j < length ess" "0 < p j" "p j - 1 < length (ess ! j)" "ess ! j ! (p j - 1) = e"
proof -
  have i: "i < length ts" using c by (simp add: cut_def)
  have j: "j < length ess" "e \<in> set (ess ! j)" using merge_ofD(6) [OF m nth_mem [OF i]] t by auto
  then obtain x where x: "x < length (ess ! j)" "ess ! j ! x = e" by (auto simp: in_set_conv_nth)
  have le: "p j \<le> length (ess ! j)" using c j(1) by (simp add: cut_def)
  have "x < p j" using cut_side [OF m c j(1) x(1) i] t x(2) by simp
  moreover have "\<not> x < p j - 1"
  proof
    assume l: "x < p j - 1"
    then have l': "p j - 1 < length (ess ! j)" "p j - 1 < p j" using le by auto
    then have "(j, ess ! j ! (p j - 1)) \<in> set (take (Suc i) ts)" using cutD(2) [OF c j(1)] nth_take_in [OF l'(2,1)] by blast
    then obtain y where y: "y < Suc i" "y < length ts" "ts ! y = (j, ess ! j ! (p j - 1))" using in_take_nth by metis
    have less: "tag_less cmp (ts ! i) (ts ! y)" using child_order(1) [OF m j(1) l l'(1)] t x(2) y(3) by (simp add: tag_less_def)
    then have "y \<noteq> i" using tag_less_asym(2) [OF m nth_mem nth_mem] y(2) i by blast
    then have "tag_less cmp (ts ! y) (ts ! i)" using sorted_wrt_nth_less [OF merge_ofD(2) [OF m]] y(1) i by simp
    with less show False using tag_less_asym(1) [OF m nth_mem nth_mem] y(2) i by blast
  qed
  ultimately have "x = p j - 1" "0 < p j" by auto
  then show "j < length ess" "0 < p j" "p j - 1 < length (ess ! j)" "ess ! j ! (p j - 1) = e" using j x by auto
qed

text \<open>The other children stand at later entries, or behind earlier ones.\<close>

lemma cut_other_child:
  assumes m: "merge_of valid cmp ess ts" and c: "cut ess ts i p" and i: "i < length ts" and t: "ts ! i = (k, e)"
    and j: "j < length ess" "p j < length (ess ! j)" and "j \<noteq> k"
  shows "tag_less cmp (ts ! i) (j, ess ! j ! p j)" "(j, ess ! j ! p j) \<in> set ts"
proof -
  have "(j, ess ! j ! p j) \<in> set (drop i ts)" using cutD(3) [OF c j(1)] nth_drop_in [OF le_refl j(2)] by blast
  then obtain y where y: "i \<le> y" "y < length ts" "ts ! y = (j, ess ! j ! p j)" using in_drop_nth by metis
  have "y \<noteq> i" using t y(3) \<open>j \<noteq> k\<close> by auto
  then show "tag_less cmp (ts ! i) (j, ess ! j ! p j)"
    using sorted_wrt_nth_less [OF merge_ofD(2) [OF m], of i y] y by simp
  show "(j, ess ! j ! p j) \<in> set ts" using y(2,3) by (metis nth_mem)
qed

lemma cut_other_child_before:
  assumes m: "merge_of valid cmp ess ts" and c: "cut ess ts (Suc i) p" and t: "ts ! i = (k, e)"
    and j: "j < length ess" "0 < p j" and "j \<noteq> k"
  shows "tag_less cmp (j, ess ! j ! (p j - 1)) (ts ! i)" "(j, ess ! j ! (p j - 1)) \<in> set ts"
proof -
  have i: "i < length ts" using c by (simp add: cut_def)
  have "p j - 1 < length (ess ! j)" "p j - 1 < p j" using cutD(1) [OF c j(1)] j(2) by auto
  then have "(j, ess ! j ! (p j - 1)) \<in> set (take (Suc i) ts)" using cutD(2) [OF c j(1)] nth_take_in by blast
  then obtain y where y: "y < Suc i" "y < length ts" "ts ! y = (j, ess ! j ! (p j - 1))" using in_take_nth by metis
  have "y \<noteq> i" using t y(3) \<open>j \<noteq> k\<close> by auto
  then show "tag_less cmp (j, ess ! j ! (p j - 1)) (ts ! i)" using sorted_wrt_nth_less [OF merge_ofD(2) [OF m], of y i] y i by simp
  show "(j, ess ! j ! (p j - 1)) \<in> set ts" using y(2,3) by (metis nth_mem)
qed

text \<open>The entry at the cut is the one of its child there.\<close>

lemma entry_index:
  assumes m: "merge_of valid cmp ess ts" and y: "y < length ts" "ts ! y = (j, ess ! j ! x)" and x: "x < length (ess ! j)"
    and i: "i < length ts" "ts ! i = (k, ess ! k ! z)" and z: "k < length ess" "z < length (ess ! k)"
  shows "y = i \<longleftrightarrow> j = k \<and> x = z"
proof -
  have "y = i \<longleftrightarrow> ts ! y = ts ! i" using nth_eq_iff_index_eq [OF merge_of_distinct(1) [OF m] y(1) i(1)] by simp
  moreover have "ess ! k ! x = ess ! k ! z \<longleftrightarrow> x = z" if "j = k"
    using nth_eq_iff_index_eq [OF merge_of_distinct(2) [OF m z(1)] _ z(2), of x] x that by simp
  ultimately show ?thesis using y(2) i(2) by auto
qed

lemma cut_advance:
  assumes m: "merge_of valid cmp ess ts" and c: "cut ess ts i p" and i: "i < length ts" and t: "ts ! i = (k, e)"
  shows "cut ess ts (Suc i) (p(k := Suc (p k)))"
proof (rule cutI [OF m])
  note k = cut_next_child [OF assms]
  show "Suc i \<le> length ts" using i by simp
  fix j assume j: "j < length ess"
  show "(p(k := Suc (p k))) j \<le> length (ess ! j)" using cutD(1) [OF c j] k(2) by simp
  fix x y assume x: "x < length (ess ! j)" and y: "y < length ts" "ts ! y = (j, ess ! j ! x)"
  have "y = i \<longleftrightarrow> j = k \<and> x = p k" using entry_index [OF m y x i _ k(1,2)] t k(3) by simp
  then show "(x < (p(k := Suc (p k))) j) = (y < Suc i)" using cut_side [OF m c j x y] by (auto simp: less_Suc_eq)
qed

lemma cut_retreat:
  assumes m: "merge_of valid cmp ess ts" and c: "cut ess ts (Suc i) p" and t: "ts ! i = (k, e)"
  shows "cut ess ts i (p(k := p k - 1))"
proof (rule cutI [OF m])
  note k = cut_previous_child [OF assms]
  have i: "i < length ts" using c by (simp add: cut_def)
  then show "i \<le> length ts" by simp
  fix j assume j: "j < length ess"
  show "(p(k := p k - 1)) j \<le> length (ess ! j)" using cutD(1) [OF c j] by auto
  fix x y assume x: "x < length (ess ! j)" and y: "y < length ts" "ts ! y = (j, ess ! j ! x)"
  have "y = i \<longleftrightarrow> j = k \<and> x = p k - 1" using entry_index [OF m y x i _ k(1,3)] t k(4) by simp
  then show "(x < (p(k := p k - 1)) j) = (y < i)" using cut_side [OF m c j x y] k(2) by auto
qed

section \<open>The contract\<close>

definition child_contracts where
  "child_contracts ops valid cmp ess ats \<longleftrightarrow> length ats = length ess
     \<and> (\<forall>j<length ess. iterator_contract ops valid cmp (ess ! j) (ats ! j))"

definition children_at :: "'s iterator_ops \<Rightarrow> ('s \<Rightarrow> nat \<Rightarrow> bool) list \<Rightarrow> 's iter_wrapper list \<Rightarrow> (nat \<Rightarrow> nat) \<Rightarrow> bool" where
  "children_at ops ats ws q \<longleftrightarrow> length ws = length ats \<and> (\<forall>j<length ats. wrapped_at ops (ats ! j) (ws ! j) (q j))"

text \<open>Where a child stands that moves backward: at its last entry before the cut.\<close>

definition before_cut :: "(slice \<times> slice) list list \<Rightarrow> (nat \<Rightarrow> nat) \<Rightarrow> nat \<Rightarrow> nat" where
  "before_cut ess p j = (if p j = 0 then length (ess ! j) else p j - 1)"

lemma child_contractsD:
  assumes "child_contracts ops valid cmp ess ats" and "j < length ess"
  shows "iterator_contract (wrapper_ops ops) valid cmp (ess ! j) (wrapped_at ops (ats ! j))" "length ats = length ess"
  using assms iterator_contract.wrapped_contract unfolding child_contracts_def by blast+

lemma children_entry:
  assumes "child_contracts ops valid cmp ess ats" and "children_at ops ats ws q" and "j < length ess"
  shows "iw_valid (ws ! j) \<longleftrightarrow> q j < length (ess ! j)"
    and "q j < length (ess ! j) \<Longrightarrow> iw_key (ws ! j) = fst (ess ! j ! q j) \<and> iw_value ops (ws ! j) = snd (ess ! j ! q j)"
proof -
  note c = child_contractsD [OF assms(1,3)]
  have w: "wrapped_at ops (ats ! j) (ws ! j) (q j)" using assms(2,3) c(2) by (simp add: children_at_def)
  show "iw_valid (ws ! j) \<longleftrightarrow> q j < length (ess ! j)" using iterator_contract.at_Valid [OF c(1) w] by simp
  show "iw_key (ws ! j) = fst (ess ! j ! q j) \<and> iw_value ops (ws ! j) = snd (ess ! j ! q j)" if "q j < length (ess ! j)"
    using iterator_contract.at_key [OF c(1) w that] iterator_contract.at_value [OF c(1) w that] by simp
qed

lemma FindSmallest_at:
  assumes m: "merge_of valid cmp ess ts" and cs: "child_contracts ops valid cmp ess ats"
    and c: "cut ess ts i p" and at: "children_at ops ats (mi_children mi) p"
  shows "mi_current (FindSmallest cmp mi) = (if i < length ts then Some (fst (ts ! i)) else None)"
proof -
  define ws where "ws = mi_children mi"
  have len: "length ws = length ess" using cs at by (auto simp: ws_def children_at_def child_contracts_def)
  note entry = children_entry [OF cs at [folded ws_def]]
  show ?thesis
  proof (cases "i < length ts")
    case True
    obtain k e where t: "ts ! i = (k, e)" by (metis surj_pair)
    note k = cut_next_child [OF m c True t]
    obtain as bs where split: "enumerate 0 ws = as @ (k, ws ! k) # bs" "set as = {(j, ws ! j) | j. j < k}"
      "set bs = {(j, ws ! j) | j. k < j \<and> j < length ws}"
      by (rule enumerate_split [of k ws]) (use k(1) len in simp)
    have other: "tag_less cmp (ts ! i) (j, ess ! j ! p j)" "\<not> cmp (iw_key (ws ! j)) (iw_key (ws ! k)) < 0"
      "iw_key (ws ! j) = fst (ess ! j ! p j)" "iw_key (ws ! k) = fst e"
      if j: "j < length ess" "iw_valid (ws ! j)" "j \<noteq> k" for j
    proof -
      have l: "p j < length (ess ! j)" using entry(1) [OF j(1)] j(2) by simp
      show less: "tag_less cmp (ts ! i) (j, ess ! j ! p j)" using cut_other_child(1) [OF m c True t j(1) l j(3)] .
      show key: "iw_key (ws ! j) = fst (ess ! j ! p j)" "iw_key (ws ! k) = fst e"
        using entry(2) [OF j(1) l] entry(2) [OF k(1,2)] k(3) by simp_all
      show "\<not> cmp (iw_key (ws ! j)) (iw_key (ws ! k)) < 0"
        using tag_less_asym(3) [OF m nth_mem [OF True] cut_other_child(2) [OF m c True t j(1) l j(3)] less] t key by simp
    qed
    have "find_smallest cmp None (as @ (k, ws ! k) # bs) = Some (k, ws ! k)"
    proof (rule find_smallest_first)
      show "iw_valid (ws ! k)" using entry(1) [OF k(1)] k(2) by simp
      show "\<forall>q\<in>set as. iw_valid (snd q) \<longrightarrow> cmp (iw_key (ws ! k)) (iw_key (snd q)) < 0"
      proof (intro ballI impI)
        fix q assume "q \<in> set as" and v: "iw_valid (snd q)"
        then obtain j where q: "q = (j, ws ! j)" and j: "j < k" unfolding split(2) by blast
        then have l: "j < length ess" "iw_valid (ws ! j)" "j \<noteq> k" using v k(1) by auto
        show "cmp (iw_key (ws ! k)) (iw_key (snd q)) < 0"
          using other(1) [OF l] other(3,4) [OF l] t q j by (simp add: tag_less_def)
      qed
      show "\<forall>q\<in>set bs. iw_valid (snd q) \<longrightarrow> \<not> cmp (iw_key (snd q)) (iw_key (ws ! k)) < 0"
      proof (intro ballI impI)
        fix q assume "q \<in> set bs" and v: "iw_valid (snd q)"
        then obtain j where q: "q = (j, ws ! j)" and j: "k < j" "j < length ws" unfolding split(3) by blast
        then show "\<not> cmp (iw_key (snd q)) (iw_key (ws ! k)) < 0" using other(2) [of j] v len by simp
      qed
    qed
    then show ?thesis using True t split(1) by (simp add: FindSmallest_def ws_def)
  next
    case False
    then have "\<not> iw_valid (ws ! j)" if "j < length ess" for j
      using cutD(1,3) [OF c that] entry(1) [OF that] by (cases "drop (p j) (ess ! j)") auto
    then have "find_smallest cmp None (enumerate 0 ws) = None" unfolding find_smallest_None using len by (auto simp: in_set_enumerate_eq)
    then show ?thesis using False by (simp add: FindSmallest_def ws_def)
  qed
qed

lemma FindLargest_at:
  assumes m: "merge_of valid cmp ess ts" and cs: "child_contracts ops valid cmp ess ats"
    and c: "cut ess ts i p" and at: "children_at ops ats (mi_children mi) (before_cut ess p)"
  shows "mi_current (FindLargest cmp mi) = (if 0 < i then Some (fst (ts ! (i - 1))) else None)"
proof -
  define ws where "ws = mi_children mi"
  have len: "length ws = length ess" using cs at by (auto simp: ws_def children_at_def child_contracts_def)
  have valid: "iw_valid (ws ! j) \<longleftrightarrow> 0 < p j" if "j < length ess" for j
    using children_entry(1) [OF cs at [folded ws_def] that] cutD(1) [OF c that] by (auto simp: before_cut_def)
  have key: "iw_key (ws ! j) = fst (ess ! j ! (p j - 1))" if "j < length ess" "0 < p j" for j
    using children_entry(2) [OF cs at [folded ws_def] that(1)] cutD(1) [OF c that(1)] that(2) by (auto simp: before_cut_def)
  show ?thesis
  proof (cases "0 < i")
    case True
    define i' where "i' = i - 1"
    have c': "cut ess ts (Suc i') p" and i: "i' < length ts" using True c by (auto simp: i'_def cut_def)
    obtain k e where t: "ts ! i' = (k, e)" by (metis surj_pair)
    note k = cut_previous_child [OF m c' t]
    obtain as bs where split: "enumerate 0 ws = as @ (k, ws ! k) # bs" "set as = {(j, ws ! j) | j. j < k}"
      "set bs = {(j, ws ! j) | j. k < j \<and> j < length ws}"
      by (rule enumerate_split [of k ws]) (use k(1) len in simp)
    have other: "cmp (iw_key (ws ! j)) (iw_key (ws ! k)) < 0 \<or> cmp (iw_key (ws ! j)) (iw_key (ws ! k)) = 0 \<and> j < k"
      "cmp (iw_key (ws ! j)) (iw_key (ws ! k)) < 0 \<longleftrightarrow> cmp (iw_key (ws ! k)) (iw_key (ws ! j)) > 0"
      if j: "j < length ess" "iw_valid (ws ! j)" "j \<noteq> k" for j
    proof -
      have l: "0 < p j" using valid [OF j(1)] j(2) by simp
      note o = cut_other_child_before [OF m c' t j(1) l j(3)]
      show "cmp (iw_key (ws ! j)) (iw_key (ws ! k)) < 0 \<or> cmp (iw_key (ws ! j)) (iw_key (ws ! k)) = 0 \<and> j < k"
        using o(1) t key [OF j(1) l] key [OF k(1,2)] k(4) by (simp add: tag_less_def)
      show "cmp (iw_key (ws ! j)) (iw_key (ws ! k)) < 0 \<longleftrightarrow> cmp (iw_key (ws ! k)) (iw_key (ws ! j)) > 0"
        using compare_order.order_swap [OF merge_ofD(1) [OF m] merge_ofD(3) [OF m o(2)] merge_ofD(3) [OF m nth_mem [OF i]]]
          t key [OF j(1) l] key [OF k(1,2)] k(4) by simp
    qed
    have "find_largest cmp None (rev bs @ (k, ws ! k) # rev as) = Some (k, ws ! k)"
      unfolding find_largest_inverse
    proof (rule find_smallest_first)
      show "iw_valid (ws ! k)" using valid [OF k(1)] k(2) by simp
      show "\<forall>q\<in>set (rev bs). iw_valid (snd q) \<longrightarrow> - cmp (iw_key (ws ! k)) (iw_key (snd q)) < 0"
      proof (intro ballI impI)
        fix q assume "q \<in> set (rev bs)" and v: "iw_valid (snd q)"
        then obtain j where q: "q = (j, ws ! j)" and j: "k < j" "j < length ws" unfolding set_rev split(3) by blast
        then show "- cmp (iw_key (ws ! k)) (iw_key (snd q)) < 0" using other [of j] v len by auto
      qed
      show "\<forall>q\<in>set (rev as). iw_valid (snd q) \<longrightarrow> \<not> - cmp (iw_key (snd q)) (iw_key (ws ! k)) < 0"
      proof (intro ballI impI)
        fix q assume "q \<in> set (rev as)" and v: "iw_valid (snd q)"
        then obtain j where q: "q = (j, ws ! j)" and j: "j < k" unfolding set_rev split(2) by blast
        then show "\<not> - cmp (iw_key (snd q)) (iw_key (ws ! k)) < 0" using other [of j] v k(1) by auto
      qed
    qed
    then show ?thesis using True t split(1) by (simp add: FindLargest_def ws_def i'_def)
  next
    case False
    then have "\<not> iw_valid (ws ! j)" if "j < length ess" for j
      using cutD(2) [OF c that] valid [OF that] cutD(1) [OF c that]
      by (cases "take (p j) (ess ! j)") auto
    then have "find_largest cmp None (rev (enumerate 0 ws)) = None"
      unfolding find_largest_inverse find_smallest_None using len by (auto simp: in_set_enumerate_eq)
    then show ?thesis using False by (simp add: FindLargest_def ws_def)
  qed
qed

end
