(* ===== verification/Ldb_Merger_Props.thy ===== *)
theory Ldb_Merger_Props
  imports Ldb_Merger
begin

text \<open>
  A merging iterator is an iterator over the entries of all its children, in the order of their keys. Where several children hold
  the same key, it depends on the direction in which it moves what comes next; the locale \<open>directed_contract\<close> says how, and
  is the contract of iterators for keys that are all different.
\<close>

section \<open>Iterators with a direction\<close>

locale directed_contract =
  fixes ops :: "'s iterator_ops" and valid :: "slice \<Rightarrow> bool" and compare :: "slice \<Rightarrow> slice \<Rightarrow> int"
    and es :: "(slice \<times> slice) list" and at :: "'s \<Rightarrow> direction \<Rightarrow> nat \<Rightarrow> bool"
  assumes at_le: "at s d i \<Longrightarrow> i \<le> length es"
    and at_Valid: "at s d i \<Longrightarrow> it_Valid ops s \<longleftrightarrow> i < length es"
    and at_entry: "at s d i \<Longrightarrow> i < length es \<Longrightarrow> (it_key ops s, it_value ops s) = es ! i"
    and at_status: "at s d i \<Longrightarrow> it_status ops s = Status_OK"
    and at_first: "at s d i \<Longrightarrow> \<exists>s'. it_SeekToFirst ops s = Some s' \<and> at s' kForward 0"
    and at_last: "at s d i \<Longrightarrow> \<exists>s'. it_SeekToLast ops s = Some s' \<and> at s' kReverse (length es - 1)"
    and at_seek: "at s d i \<Longrightarrow> valid target \<Longrightarrow>
      \<exists>s'. it_Seek ops target s = Some s' \<and> at s' kForward (lower_bound compare es target)"
    and at_next: "at s d i \<Longrightarrow> i < length es \<Longrightarrow> \<exists>s'. it_Next ops s = Some s'
      \<and> at s' kForward (if d = kForward then Suc i else upper_bound compare es (fst (es ! i)))"
    and at_prev: "at s d i \<Longrightarrow> i < length es \<Longrightarrow> \<exists>s'. it_Prev ops s = Some s'
      \<and> at s' kReverse (let j = if d = kReverse then i else lower_bound compare es (fst (es ! i)) in if j = 0 then length es else j - 1)"

text \<open>In a list without equal keys the bounds of an entry's key are the entry and the next one.\<close>

lemma bounds_of_entry:
  assumes "compare_order valid cmp" and "sorted_wrt (key_less cmp) es" and "\<forall>e\<in>set es. valid (fst e)" and "i < length es"
  shows "lower_bound cmp es (fst (es ! i)) = i" and "upper_bound cmp es (fst (es ! i)) = Suc i"
proof -
  note less = sorted_wrt_nth_less [OF assms(2)]
  have v: "valid (fst (es ! j))" if "j < length es" for j using assms(3) that nth_mem by blast
  have same: "cmp (fst (es ! i)) (fst (es ! i)) = 0" using compare_order.same [OF assms(1) v [OF assms(4)]] .
  have "takeWhile (\<lambda>e. key_less cmp e (es ! i)) es = take i es"
    using less [of _ i] assms(4) same by (intro takeWhile_eq_take_P_nth) auto
  then show "lower_bound cmp es (fst (es ! i)) = i" using assms(4) by (simp add: lower_bound_def)
  have "takeWhile (\<lambda>e. cmp (fst e) (fst (es ! i)) \<le> 0) es = take (Suc i) es"
  proof (rule takeWhile_eq_take_P_nth)
    show "cmp (fst (es ! j)) (fst (es ! i)) \<le> 0" if "j < Suc i" "j < length es" for j
      using less [of j i] assms(4) same that by (cases "j = i") auto
    show "\<not> cmp (fst (es ! Suc i)) (fst (es ! i)) \<le> 0" if "Suc i < length es"
      using less [of i "Suc i"] compare_order.less_not_le [OF assms(1) v [OF assms(4)] v [OF that]] that by simp
  qed
  then show "upper_bound cmp es (fst (es ! i)) = Suc i" using assms(4) by (simp add: upper_bound_def)
qed

context directed_contract
begin

lemma strict_contract:
  assumes "compare_order valid compare" and "sorted_wrt (key_less compare) es" and "\<forall>e\<in>set es. valid (fst e)"
  shows "iterator_contract ops valid compare es (\<lambda>s i. \<exists>d. at s d i)"
proof
  note bounds = bounds_of_entry [OF assms]
  fix s i assume "\<exists>d. at s d i"
  then obtain d where at: "at s d i" ..
  show "i \<le> length es" "it_Valid ops s \<longleftrightarrow> i < length es" "it_status ops s = Status_OK"
    using at_le at_Valid at_status at by blast+
  show "i < length es \<Longrightarrow> (it_key ops s, it_value ops s) = es ! i" using at_entry [OF at] .
  show "\<exists>s'. it_SeekToFirst ops s = Some s' \<and> (\<exists>d. at s' d 0)" using at_first [OF at] by blast
  show "\<exists>s'. it_SeekToLast ops s = Some s' \<and> (\<exists>d. at s' d (length es - 1))" using at_last [OF at] by blast
  show "\<exists>s'. it_Seek ops target s = Some s' \<and> (\<exists>d. at s' d (lower_bound compare es target))" if "valid target" for target
    using at_seek [OF at that] by blast
  show "\<exists>s'. it_Next ops s = Some s' \<and> (\<exists>d. at s' d (Suc i))" if "i < length es"
    using at_next [OF at that] bounds(2) [OF that] by (auto split: if_splits)
  show "\<exists>s'. it_Prev ops s = Some s' \<and> (\<exists>d. at s' d (if i = 0 then length es else i - 1))" if "i < length es"
    using at_prev [OF at that] bounds(1) [OF that] by (auto simp: Let_def split: if_splits)
qed

end

section \<open>Positions\<close>

definition merging_at ::
  "(slice \<Rightarrow> bool) \<Rightarrow> (slice \<Rightarrow> slice \<Rightarrow> int) \<Rightarrow> 's iterator_ops \<Rightarrow> (slice \<times> slice) list list \<Rightarrow> ('s \<Rightarrow> nat \<Rightarrow> bool) list
    \<Rightarrow> (nat \<times> slice \<times> slice) list \<Rightarrow> 's merging_iter \<Rightarrow> direction \<Rightarrow> nat \<Rightarrow> bool" where
  "merging_at valid cmp ops ess ats ts m d i \<longleftrightarrow>
     merge_of valid cmp ess ts \<and> child_contracts ops valid cmp ess ats \<and> i \<le> length ts \<and> mi_direction m = d
     \<and> (if i = length ts then mi_current m = None \<and> (\<exists>q. children_at ops ats (mi_children m) q)
        else mi_current m = Some (fst (ts ! i))
          \<and> (case d of kForward \<Rightarrow> \<exists>p. cut ess ts i p \<and> children_at ops ats (mi_children m) p
             | kReverse \<Rightarrow> \<exists>p. cut ess ts (Suc i) p \<and> children_at ops ats (mi_children m) (before_cut ess p)))"

lemma forward_at:
  assumes "merge_of valid cmp ess ts" and "child_contracts ops valid cmp ess ats" and "cut ess ts i p"
    and "children_at ops ats (mi_children mi) p" and "mi_children m = mi_children mi" and "mi_direction m = kForward"
    and "mi_current m = mi_current (FindSmallest cmp mi)"
  shows "merging_at valid cmp ops ess ats ts m kForward i"
  using FindSmallest_at [OF assms(1-4)] assms by (auto simp: merging_at_def cut_def [of _ _ i])

lemma backward_at:
  assumes "merge_of valid cmp ess ts" and "child_contracts ops valid cmp ess ats" and "cut ess ts i p"
    and "children_at ops ats (mi_children mi) (before_cut ess p)" and "mi_children m = mi_children mi"
    and "mi_direction m = kReverse" and "mi_current m = mi_current (FindLargest cmp mi)"
  shows "merging_at valid cmp ops ess ats ts m kReverse (if i = 0 then length ts else i - 1)"
proof (cases "i = 0")
  case True
  then show ?thesis using FindLargest_at [OF assms(1-4)] assms by (auto simp: merging_at_def)
next
  case False
  then have "i - 1 < length ts" "Suc (i - 1) = i" using assms(3) by (auto simp: cut_def)
  then show ?thesis using False FindLargest_at [OF assms(1-4)] assms by (auto simp: merging_at_def)
qed

lemma each_child_at:
  assumes "length ws = n" and "\<And>j. j < n \<Longrightarrow> \<exists>w'. f (k + j) (ws ! j) = Some w' \<and> Q j w'"
  shows "\<exists>ws'. each_child f k ws = Some ws' \<and> length ws' = n \<and> (\<forall>j<n. Q j (ws' ! j))"
  using assms
proof (induction ws arbitrary: k n Q)
  case (Cons w ws)
  obtain w' where w': "f k w = Some w'" "Q 0 w'" using Cons.prems(2) [of 0] Cons.prems(1) by auto
  have "\<exists>ws'. each_child f (Suc k) ws = Some ws' \<and> length ws' = length ws \<and> (\<forall>j<length ws. Q (Suc j) (ws' ! j))"
  proof (rule Cons.IH)
    fix j assume "j < length ws"
    then show "\<exists>w'. f (Suc k + j) (ws ! j) = Some w' \<and> Q (Suc j) w'" using Cons.prems(2) [of "Suc j"] Cons.prems(1) by simp
  qed simp
  then obtain ws' where ws': "each_child f (Suc k) ws = Some ws'" "length ws' = length ws" "\<forall>j<length ws. Q (Suc j) (ws' ! j)"
    by blast
  have "Q j ((w' # ws') ! j)" if "j < n" for j using that ws'(3) w'(2) Cons.prems(1) by (cases j) auto
  with w' ws' Cons.prems(1) show ?case by auto
qed simp

lemma each_child_moves:
  assumes "child_contracts ops valid cmp ess ats" and "children_at ops ats ws q"
    and "\<And>j w. j < length ess \<Longrightarrow> iterator_contract (wrapper_ops ops) valid cmp (ess ! j) (wrapped_at ops (ats ! j)) \<Longrightarrow>
      w = ws ! j \<Longrightarrow> wrapped_at ops (ats ! j) w (q j) \<Longrightarrow> \<exists>w'. f j w = Some w' \<and> wrapped_at ops (ats ! j) w' (q' j)"
  shows "\<exists>ws'. each_child f 0 ws = Some ws' \<and> children_at ops ats ws' q'"
proof -
  have len: "length ws = length ess" "length ats = length ess" using assms(1,2) by (auto simp: children_at_def child_contracts_def)
  have "\<exists>w'. f (0 + j) (ws ! j) = Some w' \<and> wrapped_at ops (ats ! j) w' (q' j)" if "j < length ess" for j
    using assms(2,3) child_contractsD(1) [OF assms(1)] that len by (simp add: children_at_def)
  then have "\<exists>ws'. each_child f 0 ws = Some ws' \<and> length ws' = length ess \<and> (\<forall>j<length ess. wrapped_at ops (ats ! j) (ws' ! j) (q' j))"
    by (intro each_child_at len(1))
  then show ?thesis by (auto simp: children_at_def len)
qed

lemma children_status_OK: "\<forall>w\<in>set ws. iw_status ops w = Status_OK \<Longrightarrow> children_status ops Status_OK ws = Status_OK"
  by (induction ws) (auto simp: Status_OK_def status_ok_def)

lemma merging_at_children:
  "merging_at valid cmp ops ess ats ts m d i \<Longrightarrow> \<exists>q. children_at ops ats (mi_children m) q"
  by (auto simp: merging_at_def split: if_splits direction.splits)

section \<open>The contract\<close>

text \<open>The state at an entry: the current child stands at it.\<close>

lemma merging_atE:
  assumes "merging_at valid cmp ops ess ats ts m d i" and "i < length ts"
  obtains c e q where "ts ! i = (c, e)" and "mi_current m = Some c" and "c < length ess" and "q c < length (ess ! c)"
    and "ess ! c ! q c = e" and "children_at ops ats (mi_children m) q"
    and "d = kForward \<longrightarrow> cut ess ts i q" and "d = kReverse \<longrightarrow> (\<exists>p. cut ess ts (Suc i) p \<and> q = before_cut ess p)"
proof -
  have m: "merge_of valid cmp ess ts" using assms(1) by (simp add: merging_at_def)
  obtain c e where t: "ts ! i = (c, e)" by (metis surj_pair)
  then have cur: "mi_current m = Some c" using assms by (simp add: merging_at_def)
  show thesis
  proof (cases d)
    case kForward
    then obtain q where q: "cut ess ts i q" "children_at ops ats (mi_children m) q" using assms by (auto simp: merging_at_def)
    show thesis by (rule that [OF t cur cut_next_child [OF m q(1) assms(2) t] q(2)]) (simp_all add: q kForward)
  next
    case kReverse
    then obtain p where p: "cut ess ts (Suc i) p" "children_at ops ats (mi_children m) (before_cut ess p)"
      using assms by (auto simp: merging_at_def)
    note c = cut_previous_child [OF m p(1) t]
    have "before_cut ess p c < length (ess ! c)" "ess ! c ! before_cut ess p c = e" using c by (simp_all add: before_cut_def)
    then show thesis by (rule that [OF t cur c(1) _ _ p(2)]) (use p kReverse in auto)
  qed
qed

text \<open>Turning around, every child but the current one goes behind or before all entries with the current key.\<close>

lemma children_turn_forward:
  assumes m: "merge_of valid cmp ess ts" and cs: "child_contracts ops valid cmp ess ats" and v: "valid key"
    and q: "children_at ops ats ws q"
  shows "\<exists>ws'. each_child (child_after ops cmp key c) 0 ws = Some ws'
    \<and> children_at ops ats ws' (\<lambda>j. if j = c then q c else upper_bound cmp (ess ! j) key)"
proof (rule each_child_moves [OF cs q])
  fix j w assume j: "j < length ess" and con: "iterator_contract (wrapper_ops ops) valid cmp (ess ! j) (wrapped_at ops (ats ! j))"
    and w: "wrapped_at ops (ats ! j) w (q j)"
  show "\<exists>w'. child_after ops cmp key c j w = Some w'
      \<and> wrapped_at ops (ats ! j) w' (if j = c then q c else upper_bound cmp (ess ! j) key)"
  proof (cases "j = c")
    case False
    define l where "l = lower_bound cmp (ess ! j) key"
    obtain w' where w': "iw_Seek ops key w = Some w'" "wrapped_at ops (ats ! j) w' l"
      using iterator_contract.at_seek [OF con w v] unfolding l_def by auto
    have V: "iw_valid w' \<longleftrightarrow> l < length (ess ! j)" using iterator_contract.at_Valid [OF con w'(2)] by simp
    have K: "iw_key w' = fst (ess ! j ! l)" if "l < length (ess ! j)" using iterator_contract.at_key [OF con w'(2) that] by simp
    note upper = upper_of_lower [OF m j v, folded l_def]
    show ?thesis
    proof (cases "l < length (ess ! j) \<and> cmp key (fst (ess ! j ! l)) = 0")
      case True
      then obtain w'' where "iw_Next ops w' = Some w''" "wrapped_at ops (ats ! j) w'' (Suc l)"
        using iterator_contract.at_next [OF con w'(2)] by auto
      then show ?thesis using True False w'(1) V K upper by (auto simp: child_after_def)
    next
      case no: False
      then show ?thesis using False w' V K upper by (auto simp: child_after_def)
    qed
  qed (use w in \<open>simp add: child_after_def\<close>)
qed

lemma children_turn_back:
  assumes m: "merge_of valid cmp ess ts" and cs: "child_contracts ops valid cmp ess ats" and v: "valid key"
    and q: "children_at ops ats ws q"
  shows "\<exists>ws'. each_child (child_before ops key c) 0 ws = Some ws'
    \<and> children_at ops ats ws' (\<lambda>j. if j = c then q c else before_cut ess (\<lambda>j. lower_bound cmp (ess ! j) key) j)"
proof (rule each_child_moves [OF cs q])
  fix j w assume j: "j < length ess" and con: "iterator_contract (wrapper_ops ops) valid cmp (ess ! j) (wrapped_at ops (ats ! j))"
    and w: "wrapped_at ops (ats ! j) w (q j)"
  show "\<exists>w'. child_before ops key c j w = Some w'
      \<and> wrapped_at ops (ats ! j) w' (if j = c then q c else before_cut ess (\<lambda>j. lower_bound cmp (ess ! j) key) j)"
  proof (cases "j = c")
    case False
    define l where "l = lower_bound cmp (ess ! j) key"
    obtain w' where w': "iw_Seek ops key w = Some w'" "wrapped_at ops (ats ! j) w' l"
      using iterator_contract.at_seek [OF con w v] unfolding l_def by auto
    have V: "iw_valid w' \<longleftrightarrow> l < length (ess ! j)" using iterator_contract.at_Valid [OF con w'(2)] by simp
    show ?thesis
    proof (cases "l < length (ess ! j)")
      case True
      then show ?thesis using w'(1) False V iterator_contract.at_prev [OF con w'(2)]
        by (auto simp: child_before_def before_cut_def simp flip: l_def)
    next
      case l: False
      then have "l = length (ess ! j)" using lower_bound_le [of cmp "ess ! j" key] unfolding l_def by simp
      then have "length (ess ! j) - 1 = (if l = 0 then length (ess ! j) else l - 1)" by simp
      then show ?thesis using w'(1) False l V iterator_contract.at_last [OF con w'(2)]
        by (auto simp: child_before_def before_cut_def simp flip: l_def)
    qed
  qed (use w in \<open>simp add: child_before_def\<close>)
qed

lemma move_current_at:
  assumes cs: "child_contracts ops valid cmp ess ats" and c: "c < length ess" and at: "children_at ops ats ws q"
    and f: "\<And>w. iterator_contract (wrapper_ops ops) valid cmp (ess ! c) (wrapped_at ops (ats ! c)) \<Longrightarrow>
      wrapped_at ops (ats ! c) w (q c) \<Longrightarrow> \<exists>w'. f w = Some w' \<and> wrapped_at ops (ats ! c) w' k"
  shows "\<exists>ws'. move_current f c ws = Some ws' \<and> children_at ops ats ws' (q(c := k))"
proof -
  have "length ats = length ess" using cs by (simp add: child_contracts_def)
  then obtain w' where "f (ws ! c) = Some w'" "wrapped_at ops (ats ! c) w' k"
    using f [OF child_contractsD(1) [OF cs c]] at c by (force simp: children_at_def)
  then show ?thesis using at by (auto simp: move_current_def children_at_def nth_list_update)
qed

lemma merging_Next_at:
  assumes at: "merging_at valid cmp ops ess ats ts m d i" and i: "i < length ts"
  shows "\<exists>m'. MergingIterator_Next ops cmp m = Some m' \<and> merging_at valid cmp ops ess ats ts m' kForward
    (if d = kForward then Suc i else upper_bound cmp (map snd ts) (tag_key (ts ! i)))"
proof -
  have m: "merge_of valid cmp ess ts" and cs: "child_contracts ops valid cmp ess ats" and d: "mi_direction m = d"
    using at by (auto simp: merging_at_def)
  obtain c e q where t: "ts ! i = (c, e)" and c: "mi_current m = Some c" "c < length ess" "q c < length (ess ! c)" "ess ! c ! q c = e"
    and q: "children_at ops ats (mi_children m) q" "d = kForward \<longrightarrow> cut ess ts i q"
      "d = kReverse \<longrightarrow> (\<exists>p. cut ess ts (Suc i) p \<and> q = before_cut ess p)"
    by (rule merging_atE [OF assms])
  have key: "iw_key (mi_children m ! c) = fst e" using children_entry(2) [OF cs q(1) c(2,3)] c(4) by simp
  have v: "valid (fst e)" using merge_ofD(7) [OF m c(2) nth_mem [OF c(3)]] c(4) by simp
  have own: "upper_bound cmp (ess ! c) (fst e) = Suc (q c)"
    using bounds_of_entry(2) [OF merge_ofD(1) [OF m] merge_ofD(4) [OF m c(2)] _ c(3)] merge_ofD(7) [OF m c(2)] c(4) by auto
  define r where "r = (if d = kForward then q else (\<lambda>j. if j = c then q c else upper_bound cmp (ess ! j) (fst e)))"
  obtain ws where ws: "(if d \<noteq> kForward then each_child (child_after ops cmp (fst e) c) 0 (mi_children m)
      else Some (mi_children m)) = Some ws" "children_at ops ats ws r"
    using children_turn_forward [OF m cs v q(1), of c] q(1) unfolding r_def by (cases d) auto
  have rc: "r c = q c" by (simp add: r_def)
  have next_at: "\<exists>w'. iw_Next ops w = Some w' \<and> wrapped_at ops (ats ! c) w' (Suc (q c))"
    if "iterator_contract (wrapper_ops ops) valid cmp (ess ! c) (wrapped_at ops (ats ! c))" "wrapped_at ops (ats ! c) w (r c)" for w
    using iterator_contract.at_next [OF that] c(3) rc by simp
  have "\<exists>ws'. move_current (iw_Next ops) c ws = Some ws' \<and> children_at ops ats ws' (r(c := Suc (q c)))"
    by (rule move_current_at [OF cs c(2) ws(2)]) (rule next_at)
  then obtain ws' where ws': "move_current (iw_Next ops) c ws = Some ws'" "children_at ops ats ws' (r(c := Suc (q c)))" by blast
  define i' where "i' = (if d = kForward then Suc i else upper_bound cmp (map snd ts) (fst e))"
  have cut: "cut ess ts i' (r(c := Suc (q c)))"
  proof (cases d)
    case kForward
    then show ?thesis using cut_advance [OF m q(2) [rule_format] i t] by (simp add: r_def i'_def)
  next
    case kReverse
    then have "r(c := Suc (q c)) = (\<lambda>j. upper_bound cmp (ess ! j) (fst e))" using own by (auto simp: r_def fun_eq_iff)
    then show ?thesis using cut_upper [OF m v] kReverse by (simp add: i'_def)
  qed
  have "merging_at valid cmp ops ess ats ts (FindSmallest cmp (m\<lparr>mi_children := ws', mi_direction := kForward\<rparr>)) kForward i'"
    by (rule forward_at [OF m cs cut, of "m\<lparr>mi_children := ws', mi_direction := kForward\<rparr>"])
      (use ws'(2) in \<open>simp_all add: FindSmallest_def\<close>)
  then show ?thesis using ws(1) ws'(1) c(1) key d t by (cases d) (simp_all add: MergingIterator_Next_def i'_def)
qed

lemma merging_Prev_at:
  assumes at: "merging_at valid cmp ops ess ats ts m d i" and i: "i < length ts"
  shows "\<exists>m'. MergingIterator_Prev ops cmp m = Some m' \<and> merging_at valid cmp ops ess ats ts m' kReverse
    (let j = if d = kReverse then i else lower_bound cmp (map snd ts) (tag_key (ts ! i)) in if j = 0 then length ts else j - 1)"
proof -
  have m: "merge_of valid cmp ess ts" and cs: "child_contracts ops valid cmp ess ats" and d: "mi_direction m = d"
    using at by (auto simp: merging_at_def)
  obtain c e q where t: "ts ! i = (c, e)" and c: "mi_current m = Some c" "c < length ess" "q c < length (ess ! c)" "ess ! c ! q c = e"
    and q: "children_at ops ats (mi_children m) q" "d = kForward \<longrightarrow> cut ess ts i q"
      "d = kReverse \<longrightarrow> (\<exists>p. cut ess ts (Suc i) p \<and> q = before_cut ess p)"
    by (rule merging_atE [OF assms])
  have key: "iw_key (mi_children m ! c) = fst e" using children_entry(2) [OF cs q(1) c(2,3)] c(4) by simp
  have v: "valid (fst e)" using merge_ofD(7) [OF m c(2) nth_mem [OF c(3)]] c(4) by simp
  have own: "lower_bound cmp (ess ! c) (fst e) = q c"
    using bounds_of_entry(1) [OF merge_ofD(1) [OF m] merge_ofD(4) [OF m c(2)] _ c(3)] merge_ofD(7) [OF m c(2)] c(4) by auto
  define lower where "lower = (\<lambda>j. lower_bound cmp (ess ! j) (fst e))"
  define r where "r = (if d = kReverse then q else (\<lambda>j. if j = c then q c else before_cut ess lower j))"
  obtain ws where ws: "(if d \<noteq> kReverse then each_child (child_before ops (fst e) c) 0 (mi_children m)
      else Some (mi_children m)) = Some ws" "children_at ops ats ws r"
    using children_turn_back [OF m cs v q(1), of c, folded lower_def] q(1) unfolding r_def by (cases d) auto
  define b where "b = (if q c = 0 then length (ess ! c) else q c - 1)"
  have rc: "r c = q c" by (simp add: r_def)
  have prev_at: "\<exists>w'. iw_Prev ops w = Some w' \<and> wrapped_at ops (ats ! c) w' b"
    if "iterator_contract (wrapper_ops ops) valid cmp (ess ! c) (wrapped_at ops (ats ! c))" "wrapped_at ops (ats ! c) w (r c)" for w
    using iterator_contract.at_prev [OF that] c(3) unfolding rc b_def by simp
  have "\<exists>ws'. move_current (iw_Prev ops) c ws = Some ws' \<and> children_at ops ats ws' (r(c := b))"
    by (rule move_current_at [OF cs c(2) ws(2)]) (rule prev_at)
  then obtain ws' where ws': "move_current (iw_Prev ops) c ws = Some ws'" "children_at ops ats ws' (r(c := b))" by blast
  define i' where "i' = (if d = kReverse then i else lower_bound cmp (map snd ts) (fst e))"
  obtain p where cut: "cut ess ts i' p" "r(c := b) = before_cut ess p"
  proof (cases d)
    case kForward
    then have "r(c := b) = before_cut ess lower" using own by (auto simp: r_def b_def lower_def before_cut_def fun_eq_iff)
    then show thesis using that cut_lower [OF m v, folded lower_def] kForward by (simp add: i'_def)
  next
    case kReverse
    then obtain p where p: "cut ess ts (Suc i) p" "q = before_cut ess p" using q(3) by blast
    note k = cut_previous_child [OF m p(1) t]
    have "r(c := b) = before_cut ess (p(c := p c - 1))"
      using kReverse k(2) by (auto simp: r_def b_def p(2) before_cut_def fun_eq_iff)
    then show thesis using that cut_retreat [OF m p(1) t] kReverse by (simp add: i'_def)
  qed
  have "merging_at valid cmp ops ess ats ts (FindLargest cmp (m\<lparr>mi_children := ws', mi_direction := kReverse\<rparr>)) kReverse
      (if i' = 0 then length ts else i' - 1)"
    by (rule backward_at [OF m cs cut(1), of "m\<lparr>mi_children := ws', mi_direction := kReverse\<rparr>"])
      (use ws'(2) cut(2) in \<open>simp_all add: FindLargest_def\<close>)
  moreover have "MergingIterator_Prev ops cmp m = Some (FindLargest cmp (m\<lparr>mi_children := ws', mi_direction := kReverse\<rparr>))"
    unfolding MergingIterator_Prev_def c(1) d Option.bind.bind_lunit key using ws(1) ws'(1) by simp
  ultimately show ?thesis unfolding Let_def t tag_key_def fst_conv snd_conv i'_def by blast
qed

lemma merging_ops_sel [simp]:
  "it_Valid (merging_ops ops cmp) = MergingIterator_Valid" "it_key (merging_ops ops cmp) = MergingIterator_key"
  "it_value (merging_ops ops cmp) = MergingIterator_value ops" "it_status (merging_ops ops cmp) = MergingIterator_status ops"
  "it_SeekToFirst (merging_ops ops cmp) = MergingIterator_SeekToFirst ops cmp"
  "it_SeekToLast (merging_ops ops cmp) = MergingIterator_SeekToLast ops cmp" "it_Seek (merging_ops ops cmp) = MergingIterator_Seek ops cmp"
  "it_Next (merging_ops ops cmp) = MergingIterator_Next ops cmp" "it_Prev (merging_ops ops cmp) = MergingIterator_Prev ops cmp"
  by (simp_all add: merging_ops_def)

interpretation merged_entries: directed_contract "merging_ops ops cmp" valid cmp "map snd ts" "merging_at valid cmp ops ess ats ts"
proof
  fix mi d i assume at: "merging_at valid cmp ops ess ats ts mi d i"
  then have m: "merge_of valid cmp ess ts" and cs: "child_contracts ops valid cmp ess ats" and i: "i \<le> length ts"
    by (auto simp: merging_at_def)
  obtain q where q: "children_at ops ats (mi_children mi) q" using merging_at_children [OF at] by blast
  have len: "length (mi_children mi) = length ess" "length ats = length ess"
    using cs q by (auto simp: children_at_def child_contracts_def)
  show "i \<le> length (map snd ts)" using i by simp
  show "it_Valid (merging_ops ops cmp) mi \<longleftrightarrow> i < length (map snd ts)"
    using at i by (auto simp: MergingIterator_Valid_def merging_at_def split: if_splits)
  show "(it_key (merging_ops ops cmp) mi, it_value (merging_ops ops cmp) mi) = map snd ts ! i" if l: "i < length (map snd ts)"
  proof -
    have l': "i < length ts" using l by simp
    obtain c e q where "ts ! i = (c, e)" "mi_current mi = Some c" "c < length ess" "q c < length (ess ! c)" "ess ! c ! q c = e"
      "children_at ops ats (mi_children mi) q" "d = kForward \<longrightarrow> cut ess ts i q"
      "d = kReverse \<longrightarrow> (\<exists>p. cut ess ts (Suc i) p \<and> q = before_cut ess p)"
      by (rule merging_atE [OF at l'])
    then show ?thesis using children_entry(2) [OF cs, of "mi_children mi" q c] l'
      by (simp add: MergingIterator_key_def MergingIterator_value_def)
  qed
  have "iw_status ops w = Status_OK" if "w \<in> set (mi_children mi)" for w
  proof -
    obtain j where "j < length ess" "w = mi_children mi ! j" using \<open>w \<in> _\<close> len by (auto simp: in_set_conv_nth)
    then show ?thesis
      using iterator_contract.at_status [OF child_contractsD(1) [OF cs]] q len by (force simp: children_at_def)
  qed
  then show "it_status (merging_ops ops cmp) mi = Status_OK"
    by (simp add: MergingIterator_status_def children_status_OK)
  show "\<exists>m'. it_SeekToFirst (merging_ops ops cmp) mi = Some m' \<and> merging_at valid cmp ops ess ats ts m' kForward 0"
  proof -
    obtain ws where ws: "each_child (\<lambda>i. iw_SeekToFirst ops) 0 (mi_children mi) = Some ws" "children_at ops ats ws (\<lambda>_. 0)"
      using each_child_moves [OF cs q, of "\<lambda>i. iw_SeekToFirst ops" "\<lambda>_. 0"] iterator_contract.at_first by fastforce
    then show ?thesis using forward_at [OF m cs cut_first [OF m], of "mi\<lparr>mi_children := ws\<rparr>"]
      by (simp add: MergingIterator_SeekToFirst_def FindSmallest_def)
  qed
  show "\<exists>m'. it_SeekToLast (merging_ops ops cmp) mi = Some m' \<and> merging_at valid cmp ops ess ats ts m' kReverse (length (map snd ts) - 1)"
  proof -
    have "\<exists>ws. each_child (\<lambda>i. iw_SeekToLast ops) 0 (mi_children mi) = Some ws
        \<and> children_at ops ats ws (before_cut ess (\<lambda>j. length (ess ! j)))"
    proof (rule each_child_moves [OF cs q])
      fix j w assume con: "iterator_contract (wrapper_ops ops) valid cmp (ess ! j) (wrapped_at ops (ats ! j))"
        and w: "wrapped_at ops (ats ! j) w (q j)"
      have "before_cut ess (\<lambda>j. length (ess ! j)) j = length (ess ! j) - 1" by (simp add: before_cut_def)
      with iterator_contract.at_last [OF con w]
      show "\<exists>w'. iw_SeekToLast ops w = Some w' \<and> wrapped_at ops (ats ! j) w' (before_cut ess (\<lambda>j. length (ess ! j)) j)" by simp
    qed
    then obtain ws where ws: "each_child (\<lambda>i. iw_SeekToLast ops) 0 (mi_children mi) = Some ws"
      "children_at ops ats ws (before_cut ess (\<lambda>j. length (ess ! j)))" by blast
    have "merging_at valid cmp ops ess ats ts ((FindLargest cmp (mi\<lparr>mi_children := ws\<rparr>))\<lparr>mi_direction := kReverse\<rparr>)
        kReverse (if length ts = 0 then length ts else length ts - 1)"
      by (rule backward_at [OF m cs cut_end [OF m], where mi = "mi\<lparr>mi_children := ws\<rparr>"]) (simp_all add: ws(2) FindLargest_def)
    then show ?thesis using ws(1) by (cases "length ts = 0") (simp_all add: MergingIterator_SeekToLast_def)
  qed
  show "\<exists>m'. it_Seek (merging_ops ops cmp) target mi = Some m' \<and> merging_at valid cmp ops ess ats ts m' kForward (lower_bound cmp (map snd ts) target)"
    if "valid target" for target
  proof -
    have "\<exists>ws. each_child (\<lambda>i. iw_Seek ops target) 0 (mi_children mi) = Some ws
        \<and> children_at ops ats ws (\<lambda>j. lower_bound cmp (ess ! j) target)"
    proof (rule each_child_moves [OF cs q])
      fix j w assume con: "iterator_contract (wrapper_ops ops) valid cmp (ess ! j) (wrapped_at ops (ats ! j))"
        and w: "wrapped_at ops (ats ! j) w (q j)"
      from iterator_contract.at_seek [OF con w that]
      show "\<exists>w'. iw_Seek ops target w = Some w' \<and> wrapped_at ops (ats ! j) w' (lower_bound cmp (ess ! j) target)" by simp
    qed
    then obtain ws where ws: "each_child (\<lambda>i. iw_Seek ops target) 0 (mi_children mi) = Some ws"
      "children_at ops ats ws (\<lambda>j. lower_bound cmp (ess ! j) target)" by blast
    then show ?thesis using forward_at [OF m cs cut_lower [OF m that], of "mi\<lparr>mi_children := ws\<rparr>"]
      by (simp add: MergingIterator_Seek_def FindSmallest_def)
  qed
  show "\<exists>m'. it_Next (merging_ops ops cmp) mi = Some m' \<and> merging_at valid cmp ops ess ats ts m' kForward
      (if d = kForward then Suc i else upper_bound cmp (map snd ts) (fst (map snd ts ! i)))" if "i < length (map snd ts)"
    unfolding length_map nth_map [OF that [unfolded length_map]] merging_ops_sel by (rule merging_Next_at [OF at]) (use that in simp)
  show "\<exists>m'. it_Prev (merging_ops ops cmp) mi = Some m' \<and> merging_at valid cmp ops ess ats ts m' kReverse
      (let j = if d = kReverse then i else lower_bound cmp (map snd ts) (fst (map snd ts ! i))
       in if j = 0 then length (map snd ts) else j - 1)" if "i < length (map snd ts)"
    unfolding length_map nth_map [OF that [unfolded length_map]] merging_ops_sel by (rule merging_Prev_at [OF at]) (use that in simp)
qed

text \<open>
  C36. Merging refines the union. For children that are iterators of sorted lists of entries, the merging iterator yields the entries of
  all of them in the order of their keys; a key that K children hold is yielded K times, in the order of the children, forward and
  backward. All its moves come back from every position. When the direction changes, it goes to the next larger or smaller key, so it
  leaves out the other copies of the current one. If no two children share a key, it keeps the whole contract of iterators.
\<close>
theorem merging_iterator_contract:
  assumes "merge_of valid cmp ess ts" and "child_contracts ops valid cmp ess ats"
    and "length children = length ess" and "\<forall>j<length ess. \<exists>i. (ats ! j) (children ! j) i"
  shows "\<exists>at. directed_contract (merging_ops ops cmp) valid cmp (map snd ts) at
    \<and> at (MergingIterator_new ops children) kForward (length ts)
    \<and> (sorted_wrt (key_less cmp) (map snd ts) \<longrightarrow> iterator_contract (merging_ops ops cmp) valid cmp (map snd ts) (\<lambda>m i. \<exists>d. at m d i))"
proof (intro exI conjI impI)
  let ?at = "merging_at valid cmp ops ess ats ts"
  show d: "directed_contract (merging_ops ops cmp) valid cmp (map snd ts) ?at" by (rule merged_entries.directed_contract_axioms)
  show "iterator_contract (merging_ops ops cmp) valid cmp (map snd ts) (\<lambda>m i. \<exists>d. ?at m d i)" if "sorted_wrt (key_less cmp) (map snd ts)"
    using directed_contract.strict_contract [OF d merge_ofD(1) [OF assms(1)] that] merge_ofD(3) [OF assms(1)] by auto
  have len: "length ats = length ess" using assms(2) by (simp add: child_contracts_def)
  obtain q where q: "(ats ! j) (children ! j) (q j)" if "j < length ess" for j using assms(4) by metis
  have "children_at ops ats (mi_children (MergingIterator_new ops children)) q"
    using q len assms(3) by (auto simp: children_at_def MergingIterator_new_def iw_Set_def intro: wrapped_Update)
  then show "?at (MergingIterator_new ops children) kForward (length ts)"
    using assms(1,2) by (auto simp: merging_at_def MergingIterator_new_def)
qed

lemma two_blocks_small:
  "length (build_block 1 [([1], [9]), ([2], [7])]) < 2 ^ 32" "length (build_block 1 [([2], [8])]) < 2 ^ 32"
  by (simp_all add: build_block_def BlockBuilder_Finish_def BlockBuilder_Add_def BlockBuilder_new_def Let_def PutVarint32_def
      EncodeVarint32_def PutFixed32_def)

theorem merging_iterator_contract_witness:
  "\<exists>at. directed_contract (merging_ops (block_iterator_ops Bytewise_Compare) Bytewise_Compare) (\<lambda>_. True) Bytewise_Compare
       [([1], [9]), ([2], [7]), ([2], [8])] at
     \<and> at (MergingIterator_new (block_iterator_ops Bytewise_Compare)
         [Block_NewIterator (Block_new (build_block 1 [([1], [9]), ([2], [7])])),
          Block_NewIterator (Block_new (build_block 1 [([2], [8])]))]) kForward 3"
proof -
  let ?ess = "[[([1], [9]), ([2], [7])], [([2], [8])]] :: (slice \<times> slice) list list"
  let ?ops = "block_iterator_ops Bytewise_Compare"
  note built = built_block_contract [OF bytewise.compare_order_axioms, of 1]
  obtain at1 at2 where c: "iterator_contract ?ops (\<lambda>_. True) Bytewise_Compare (?ess ! 0) at1"
    "at1 (Block_NewIterator (Block_new (build_block 1 (?ess ! 0)))) (Suc (Suc 0))"
    "iterator_contract ?ops (\<lambda>_. True) Bytewise_Compare (?ess ! 1) at2"
    "at2 (Block_NewIterator (Block_new (build_block 1 (?ess ! 1)))) (Suc 0)"
    using built [OF _ two_blocks_small(1)] built [OF _ two_blocks_small(2)] by auto
  have m: "merge_of (\<lambda>_. True) Bytewise_Compare ?ess [(0, [1], [9]), (0, [2], [7]), (1, [2], [8])]"
    using bytewise.compare_order_axioms bytewise.equal by (auto simp: merge_of_def tag_less_def less_Suc_eq lessThan_Suc)
  have cs: "child_contracts ?ops (\<lambda>_. True) Bytewise_Compare ?ess [at1, at2]"
    using c by (auto simp: child_contracts_def less_Suc_eq)
  have "\<forall>j<length ?ess. \<exists>i. ([at1, at2] ! j) ([Block_NewIterator (Block_new (build_block 1 (?ess ! 0))),
      Block_NewIterator (Block_new (build_block 1 (?ess ! 1)))] ! j) i"
    using c(2,4) by (auto simp: less_Suc_eq)
  from merging_iterator_contract [OF m cs _ this] show ?thesis by (auto simp: numeral_3_eq_3)
qed

end
