(* ===== verification/Ldb_DBIter.thy ===== *)
theory Ldb_DBIter
  imports Ldb_Merger Ldb_Dbformat Ldb_Skiplist_Props
begin

text \<open>
  The iterator of a database (\<^verbatim>\<open>db/db_iter.cc\<close>): it makes from an iterator over internal keys one over the
  user keys that a snapshot sees. The calls of \<^verbatim>\<open>RecordReadSample\<close> are collected in a list.
\<close>

section \<open>The state\<close>

definition kReadBytesPeriod :: int where "kReadBytesPeriod = 1048576"

record 's db_iter =
  di_iter :: 's
  di_sequence :: u64
  di_status :: status
  di_saved_key :: slice
  di_saved_value :: slice
  di_direction :: direction
  di_valid :: bool
  di_rnd :: u32
  di_bytes_counter :: int
  di_samples :: "slice list"

definition RandomPeriod :: "u32 \<Rightarrow> int \<times> u32" where
  "RandomPeriod rnd = (let (r, rnd') = Random_Uniform (2 * kReadBytesPeriod) rnd in (uint r, rnd'))"

definition DBIter_new :: "'s \<Rightarrow> u64 \<Rightarrow> u32 \<Rightarrow> 's db_iter" where
  "DBIter_new it s seed =
     (let (period, rnd) = RandomPeriod (Random_new seed) in
      \<lparr>di_iter = it, di_sequence = s, di_status = Status_OK, di_saved_key = [], di_saved_value = [], di_direction = kForward,
       di_valid = False, di_rnd = rnd, di_bytes_counter = period, di_samples = []\<rparr>)"

definition DBIter_key :: "'s iterator_ops \<Rightarrow> 's db_iter \<Rightarrow> slice" where
  "DBIter_key ops d = (if di_direction d = kForward then ExtractUserKey (it_key ops (di_iter d)) else di_saved_key d)"
definition DBIter_value :: "'s iterator_ops \<Rightarrow> 's db_iter \<Rightarrow> slice" where
  "DBIter_value ops d = (if di_direction d = kForward then it_value ops (di_iter d) else di_saved_value d)"
definition DBIter_status :: "'s iterator_ops \<Rightarrow> 's db_iter \<Rightarrow> status" where
  "DBIter_status ops d = (if status_ok (di_status d) then it_status ops (di_iter d) else di_status d)"

section \<open>Parsing\<close>

text \<open>Random gaps are added until the counter is no longer negative; each time the key is sampled.\<close>

partial_function (option) sample_loop :: "slice \<Rightarrow> 's db_iter \<Rightarrow> 's db_iter option" where
  [code]: "sample_loop k d =
     (if di_bytes_counter d < 0 then
        let (period, rnd) = RandomPeriod (di_rnd d)
        in sample_loop k (d\<lparr>di_bytes_counter := di_bytes_counter d + period, di_rnd := rnd, di_samples := di_samples d @ [k]\<rparr>)
      else Some d)"

definition ParseKey :: "'s iterator_ops \<Rightarrow> 's db_iter \<Rightarrow> (parsed_ikey option \<times> 's db_iter) option" where
  "ParseKey ops d =
     (let k = it_key ops (di_iter d); n = int (length k) + int (length (it_value ops (di_iter d))) in do {
        d' \<leftarrow> sample_loop k (d\<lparr>di_bytes_counter := di_bytes_counter d - n\<rparr>);
        case ParseInternalKey k of
          None \<Rightarrow> Some (None, d'\<lparr>di_status := Status_Corruption (str ''corrupted internal key in DBIter'') []\<rparr>)
        | Some ikey \<Rightarrow> Some (Some ikey, d')
      })"

section \<open>Forward\<close>

text \<open>One round of the loop: an entry that can be yielded, or the new value of \<^verbatim>\<open>skipping\<close>. The key to skip is \<^verbatim>\<open>saved_key_\<close>.\<close>

definition next_round :: "comparator_ops \<Rightarrow> bool \<Rightarrow> parsed_ikey option \<Rightarrow> 's db_iter \<Rightarrow> bool \<times> bool \<times> 's db_iter" where
  "next_round u skipping parsed d =
     (case parsed of
        None \<Rightarrow> (False, skipping, d)
      | Some ikey \<Rightarrow>
          if pik_sequence ikey \<le> di_sequence d then
            if pik_type ikey = kTypeDeletion then (False, True, d\<lparr>di_saved_key := pik_user_key ikey\<rparr>)
            else if pik_type ikey = kTypeValue then
              if skipping \<and> cmp_Compare u (pik_user_key ikey) (di_saved_key d) \<le> 0 then (False, skipping, d)
              else (True, skipping, d\<lparr>di_valid := True, di_saved_key := []\<rparr>)
            else (False, skipping, d)
          else (False, skipping, d))"

partial_function (option) FindNextUserEntry ::
  "'s iterator_ops \<Rightarrow> comparator_ops \<Rightarrow> bool \<Rightarrow> 's db_iter \<Rightarrow> 's db_iter option" where
  [code]: "FindNextUserEntry ops u skipping d = do {
     (parsed, d1) \<leftarrow> ParseKey ops d;
     let (found, skipping', d2) = next_round u skipping parsed d1 in
     if found then Some d2
     else do {
       it \<leftarrow> it_Next ops (di_iter d2);
       let d3 = d2\<lparr>di_iter := it\<rparr> in
       if it_Valid ops it then FindNextUserEntry ops u skipping' d3
       else Some (d3\<lparr>di_saved_key := [], di_valid := False\<rparr>)
     }
   }"

definition DBIter_Next :: "'s iterator_ops \<Rightarrow> comparator_ops \<Rightarrow> 's db_iter \<Rightarrow> 's db_iter option" where
  "DBIter_Next ops u d =
     (if di_direction d = kReverse then do {
        it \<leftarrow> (if \<not> it_Valid ops (di_iter d) then it_SeekToFirst ops (di_iter d) else it_Next ops (di_iter d));
        let d1 = d\<lparr>di_direction := kForward, di_iter := it\<rparr> in
        if \<not> it_Valid ops it then Some (d1\<lparr>di_valid := False, di_saved_key := []\<rparr>)
        else FindNextUserEntry ops u True d1
      } else FindNextUserEntry ops u True (d\<lparr>di_saved_key := ExtractUserKey (it_key ops (di_iter d))\<rparr>))"

section \<open>Backward\<close>

text \<open>The loop, with the type of the last entry it looked at; \<open>None\<close> in the round ends it.\<close>

definition prev_round ::
  "'s iterator_ops \<Rightarrow> comparator_ops \<Rightarrow> u8 \<Rightarrow> parsed_ikey option \<Rightarrow> 's db_iter \<Rightarrow> (u8 \<times> 's db_iter) option" where
  "prev_round ops u value_type parsed d =
     (case parsed of
        None \<Rightarrow> Some (value_type, d)
      | Some ikey \<Rightarrow>
          if pik_sequence ikey \<le> di_sequence d then
            if value_type \<noteq> kTypeDeletion \<and> cmp_Compare u (pik_user_key ikey) (di_saved_key d) < 0 then None
            else if pik_type ikey = kTypeDeletion
              then Some (pik_type ikey, d\<lparr>di_saved_key := [], di_saved_value := []\<rparr>)
              else Some (pik_type ikey, d\<lparr>di_saved_key := ExtractUserKey (it_key ops (di_iter d)),
                di_saved_value := it_value ops (di_iter d)\<rparr>)
          else Some (value_type, d))"

partial_function (option) find_prev_loop ::
  "'s iterator_ops \<Rightarrow> comparator_ops \<Rightarrow> u8 \<Rightarrow> 's db_iter \<Rightarrow> (u8 \<times> 's db_iter) option" where
  [code]: "find_prev_loop ops u value_type d = do {
     (parsed, d1) \<leftarrow> ParseKey ops d;
     case prev_round ops u value_type parsed d1 of
       None \<Rightarrow> Some (value_type, d1)
     | Some (value_type', d2) \<Rightarrow> do {
         it \<leftarrow> it_Prev ops (di_iter d2);
         let d3 = d2\<lparr>di_iter := it\<rparr> in
         if it_Valid ops it then find_prev_loop ops u value_type' d3 else Some (value_type', d3)
       }
   }"

definition FindPrevUserEntry :: "'s iterator_ops \<Rightarrow> comparator_ops \<Rightarrow> 's db_iter \<Rightarrow> 's db_iter option" where
  "FindPrevUserEntry ops u d = do {
     (value_type, d1) \<leftarrow> (if it_Valid ops (di_iter d) then find_prev_loop ops u kTypeDeletion d else Some (kTypeDeletion, d));
     if value_type = kTypeDeletion
       then Some (d1\<lparr>di_valid := False, di_saved_key := [], di_saved_value := [], di_direction := kForward\<rparr>)
       else Some (d1\<lparr>di_valid := True\<rparr>)
   }"

text \<open>The loop that leaves the entries of the current key: \<open>None\<close> inside where there are no more entries.\<close>

partial_function (option) leave_key ::
  "'s iterator_ops \<Rightarrow> comparator_ops \<Rightarrow> slice \<Rightarrow> 's \<Rightarrow> (bool \<times> 's) option" where
  [code]: "leave_key ops u key s = do {
     it \<leftarrow> it_Prev ops s;
     if \<not> it_Valid ops it then Some (False, it)
     else if cmp_Compare u (ExtractUserKey (it_key ops it)) key < 0 then Some (True, it)
     else leave_key ops u key it
   }"

definition DBIter_Prev :: "'s iterator_ops \<Rightarrow> comparator_ops \<Rightarrow> 's db_iter \<Rightarrow> 's db_iter option" where
  "DBIter_Prev ops u d =
     (if di_direction d = kForward then do {
        let d1 = d\<lparr>di_saved_key := ExtractUserKey (it_key ops (di_iter d))\<rparr> in do {
          (left, it) \<leftarrow> leave_key ops u (di_saved_key d1) (di_iter d1);
          let d2 = d1\<lparr>di_iter := it\<rparr> in
          if \<not> left then Some (d2\<lparr>di_valid := False, di_saved_key := [], di_saved_value := []\<rparr>)
          else FindPrevUserEntry ops u (d2\<lparr>di_direction := kReverse\<rparr>)
        }
      } else FindPrevUserEntry ops u d)"

section \<open>Seeking\<close>

definition find_from :: "'s iterator_ops \<Rightarrow> comparator_ops \<Rightarrow> 's db_iter \<Rightarrow> 's db_iter option" where
  "find_from ops u d =
     (if it_Valid ops (di_iter d) then FindNextUserEntry ops u False d else Some (d\<lparr>di_valid := False\<rparr>))"

definition DBIter_Seek :: "'s iterator_ops \<Rightarrow> comparator_ops \<Rightarrow> slice \<Rightarrow> 's db_iter \<Rightarrow> 's db_iter option" where
  "DBIter_Seek ops u target d =
     (let d1 = d\<lparr>di_direction := kForward, di_saved_value := [],
        di_saved_key := AppendInternalKey [] (ParsedInternalKey target (di_sequence d) kValueTypeForSeek)\<rparr> in do {
        it \<leftarrow> it_Seek ops (di_saved_key d1) (di_iter d1);
        find_from ops u (d1\<lparr>di_iter := it\<rparr>)
      })"

definition DBIter_SeekToFirst :: "'s iterator_ops \<Rightarrow> comparator_ops \<Rightarrow> 's db_iter \<Rightarrow> 's db_iter option" where
  "DBIter_SeekToFirst ops u d =
     (let d1 = d\<lparr>di_direction := kForward, di_saved_value := []\<rparr> in do {
        it \<leftarrow> it_SeekToFirst ops (di_iter d1);
        find_from ops u (d1\<lparr>di_iter := it\<rparr>)
      })"

definition DBIter_SeekToLast :: "'s iterator_ops \<Rightarrow> comparator_ops \<Rightarrow> 's db_iter \<Rightarrow> 's db_iter option" where
  "DBIter_SeekToLast ops u d =
     (let d1 = d\<lparr>di_direction := kReverse, di_saved_value := []\<rparr> in do {
        it \<leftarrow> it_SeekToLast ops (di_iter d1);
        FindPrevUserEntry ops u (d1\<lparr>di_iter := it\<rparr>)
      })"

definition db_iter_ops :: "'s iterator_ops \<Rightarrow> comparator_ops \<Rightarrow> 's db_iter iterator_ops" where
  "db_iter_ops ops u =
     \<lparr>it_Valid = di_valid, it_key = DBIter_key ops, it_value = DBIter_value ops, it_status = DBIter_status ops,
      it_SeekToFirst = DBIter_SeekToFirst ops u, it_SeekToLast = DBIter_SeekToLast ops u, it_Seek = DBIter_Seek ops u,
      it_Next = DBIter_Next ops u, it_Prev = DBIter_Prev ops u\<rparr>"

section \<open>Sampling ends\<close>

text \<open>Two consecutive numbers of the generator are not both multiples of \<open>2^21\<close>, so every second gap is positive.\<close>

definition rnd_ok :: "u32 \<Rightarrow> bool" where
  "rnd_ok r \<longleftrightarrow> 0 < unat r \<and> unat r < 2147483647"

lemma rnd_ok_next: "rnd_ok r \<Longrightarrow> rnd_ok (Random_Next r)"
  using Random_Next_mod [of r] lehmer_not_0 [of "unat r"] by (simp add: rnd_ok_def)

lemma lehmer_gap:
  fixes s :: nat
  assumes "0 < s" and "s < 2147483647" and "s mod 2097152 = 0"
  shows "s * 16807 mod 2147483647 mod 2097152 \<noteq> 0"
proof -
  define k where "k = s div 2097152"
  have s: "s = k * 2097152" using assms(3) by (simp add: k_def) (metis dvd_div_mult_self mod_0_imp_dvd)
  then have k: "0 < k" "k < 1024" using assms(1,2) by auto
  define q r where "q = k * 16807 div 1024" and "r = k * 16807 mod 1024"
  have "k * 16807 = q * 1024 + r" by (simp add: q_def r_def)
  then have "s * 16807 = (q * 1024 + r) * 2097152" using s by simp
  also have "\<dots> = (q + r * 2097152) + q * 2147483647" by simp
  finally have e: "s * 16807 = (q + r * 2097152) + q * 2147483647" .
  have "s * 16807 mod 2147483647 = (q + r * 2097152) mod 2147483647" unfolding e by (rule mod_mult_self1)
  moreover have "q \<le> 16790" "r < 1024" "0 < q" using k by (auto simp: q_def r_def)
  then have "q + r * 2097152 < 2147483647" by simp
  ultimately have "s * 16807 mod 2147483647 mod 2097152 = q mod 2097152" by simp
  then show ?thesis using \<open>q \<le> 16790\<close> \<open>0 < q\<close> by simp
qed

lemma RandomPeriod_parts: "RandomPeriod rnd = (int (unat (Random_Next rnd) mod 2097152), Random_Next rnd)"
proof -
  have "unat (Random_Next rnd mod 2097152) = unat (Random_Next rnd) mod 2097152" by (simp add: unat_mod)
  then have "uint (Random_Next rnd mod 2097152) = int (unat (Random_Next rnd) mod 2097152)" by (metis uint_nat)
  then show ?thesis by (simp add: RandomPeriod_def Random_Uniform_def Let_def kReadBytesPeriod_def)
qed

lemma sample_loop_ends:
  "rnd_ok (di_rnd d) \<Longrightarrow> \<exists>c r samples. sample_loop k d = Some (d\<lparr>di_bytes_counter := c, di_rnd := r, di_samples := samples\<rparr>) \<and> rnd_ok r"
proof (induction "2 * nat (- di_bytes_counter d) + (if unat (di_rnd d) mod 2097152 = 0 then 0 else 1)" arbitrary: d rule: less_induct)
  case less
  define r where "r = Random_Next (di_rnd d)"
  define d1 where "d1 = d\<lparr>di_bytes_counter := di_bytes_counter d + int (unat r mod 2097152), di_rnd := r, di_samples := di_samples d @ [k]\<rparr>"
  show ?case
  proof (cases "di_bytes_counter d < 0")
    case True
    have "unat (di_rnd d) mod 2097152 \<noteq> 0" if "unat r mod 2097152 = 0"
      using lehmer_gap [of "unat (di_rnd d)"] that less.prems Random_Next_mod [of "di_rnd d"] by (auto simp: r_def rnd_ok_def)
    then have "2 * nat (- di_bytes_counter d1) + (if unat (di_rnd d1) mod 2097152 = 0 then 0 else 1)
        < 2 * nat (- di_bytes_counter d) + (if unat (di_rnd d) mod 2097152 = 0 then 0 else 1)"
      using True by (auto simp: d1_def)
    moreover have "rnd_ok (di_rnd d1)" using rnd_ok_next [OF less.prems] by (simp add: d1_def r_def)
    ultimately obtain c r' samples where "sample_loop k d1 = Some (d1\<lparr>di_bytes_counter := c, di_rnd := r', di_samples := samples\<rparr>)" "rnd_ok r'"
      using less.hyps by blast
    with True show ?thesis
      by (subst sample_loop.simps) (auto simp: RandomPeriod_parts d1_def r_def)
  next
    case False
    with less.prems show ?thesis
      by (intro exI [of _ "di_bytes_counter d"] exI [of _ "di_rnd d"] exI [of _ "di_samples d"]) (subst sample_loop.simps, simp)
  qed
qed

lemma ParseKey_parses:
  assumes "rnd_ok (di_rnd d)" and "ParseInternalKey (it_key ops (di_iter d)) = Some ikey"
  shows "\<exists>c r samples. ParseKey ops d = Some (Some ikey, d\<lparr>di_bytes_counter := c, di_rnd := r, di_samples := samples\<rparr>) \<and> rnd_ok r"
proof -
  define d1 where "d1 = d\<lparr>di_bytes_counter := di_bytes_counter d
    - (int (length (it_key ops (di_iter d))) + int (length (it_value ops (di_iter d))))\<rparr>"
  obtain c r samples where "sample_loop (it_key ops (di_iter d)) d1 = Some (d1\<lparr>di_bytes_counter := c, di_rnd := r, di_samples := samples\<rparr>)"
    "rnd_ok r"
    using sample_loop_ends [of d1 "it_key ops (di_iter d)"] assms(1) unfolding d1_def by fastforce
  with assms(2) show ?thesis by (auto simp: ParseKey_def Let_def d1_def [symmetric]) (auto simp: d1_def)
qed

end
