(* ===== verification/Ldb_DBIter_Spec.thy ===== *)
theory Ldb_DBIter_Spec
  imports Ldb_DBIter
begin

text \<open>
  What a database iterator is to yield: for every user key the newest entry that the snapshot sees, when it is a value.
  The lemmas show where the loops of the iterator stop.
\<close>

section \<open>The view of a snapshot\<close>

type_synonym entry = "slice \<times> slice"

definition ukey :: "entry \<Rightarrow> slice" where
  "ukey e = ExtractUserKey (fst e)"
definition sees :: "u64 \<Rightarrow> entry \<Rightarrow> bool" where
  "sees s e \<longleftrightarrow> drop_bit 8 (ikey_num (fst e)) \<le> s"
definition is_value :: "entry \<Rightarrow> bool" where
  "is_value e \<longleftrightarrow> ExtractValueType (fst e) = kTypeValue"

definition yields :: "u64 \<Rightarrow> entry list \<Rightarrow> nat \<Rightarrow> bool" where
  "yields s es i \<longleftrightarrow> i < length es \<and> sees s (es ! i) \<and> is_value (es ! i) \<and> (\<forall>j<i. sees s (es ! j) \<longrightarrow> ukey (es ! j) \<noteq> ukey (es ! i))"

definition yielded :: "u64 \<Rightarrow> entry list \<Rightarrow> nat list" where
  "yielded s es = filter (yields s es) [0..<length es]"

definition db_view :: "u64 \<Rightarrow> entry list \<Rightarrow> entry list" where
  "db_view s es = map (\<lambda>i. (ukey (es ! i), snd (es ! i))) (yielded s es)"

text \<open>What a lookup in the snapshot is to find.\<close>

definition newest_value :: "u64 \<Rightarrow> entry list \<Rightarrow> slice \<Rightarrow> slice option" where
  "newest_value s es k =
     (case List.find (\<lambda>e. ukey e = k \<and> sees s e) es of None \<Rightarrow> None | Some e \<Rightarrow> if is_value e then Some (snd e) else None)"

lemma yielded_nth: "k < length (yielded s es) \<Longrightarrow> yields s es (yielded s es ! k)"
  using nth_mem [of k "yielded s es"] by (auto simp: yielded_def)

lemma yielded_mono: "k < k' \<Longrightarrow> k' < length (yielded s es) \<Longrightarrow> yielded s es ! k < yielded s es ! k'"
proof -
  have "sorted_wrt (<) (yielded s es)" unfolding yielded_def by (rule sorted_wrt_filter) simp
  then show "k < k' \<Longrightarrow> k' < length (yielded s es) \<Longrightarrow> yielded s es ! k < yielded s es ! k'" by (rule sorted_wrt_nth_less)
qed

lemma yielded_less_iff:
  "k < length (yielded s es) \<Longrightarrow> k' < length (yielded s es) \<Longrightarrow> yielded s es ! k < yielded s es ! k' \<longleftrightarrow> k < k'"
  using yielded_mono [of k k' s es] yielded_mono [of k' k s es] by (cases k k' rule: linorder_cases) auto

lemma yields_yielded: "yields s es i \<Longrightarrow> \<exists>k<length (yielded s es). yielded s es ! k = i"
  unfolding in_set_conv_nth [symmetric] by (auto simp: yielded_def yields_def)

text \<open>The first and the last of the entries up to a bound, in terms of the view.\<close>

lemma yielded_first:
  assumes "\<And>j. i \<le> j \<Longrightarrow> j < m \<Longrightarrow> \<not> T j" and "m < length es \<Longrightarrow> T m" and "i \<le> m" and "m \<le> length es"
    and "\<And>k'. k' < length (yielded s es) \<Longrightarrow> T (yielded s es ! k') \<and> i \<le> yielded s es ! k' \<longleftrightarrow> k \<le> k'"
    and "\<And>j. T j \<Longrightarrow> yields s es j" and "k \<le> length (yielded s es)"
  shows "if k < length (yielded s es) then m = yielded s es ! k else m = length es"
proof (cases "m < length es")
  case True
  then obtain k' where k': "k' < length (yielded s es)" "yielded s es ! k' = m" using assms(2,6) yields_yielded by blast
  then have "k \<le> k'" using assms(2,3,5) True by blast
  moreover have "\<not> k < k'"
  proof
    assume "k < k'"
    then have "yielded s es ! k < m" "T (yielded s es ! k) \<and> i \<le> yielded s es ! k" using k' yielded_mono assms(5) [of k] by auto
    then show False using assms(1) by blast
  qed
  ultimately show ?thesis using k' by auto
next
  case False
  have "\<not> k < length (yielded s es)"
  proof
    assume k: "k < length (yielded s es)"
    then have "T (yielded s es ! k) \<and> i \<le> yielded s es ! k" using assms(5) by blast
    moreover have "yielded s es ! k < m" using yielded_nth [OF k] False assms(4) by (simp add: yields_def)
    ultimately show False using assms(1) by blast
  qed
  then show ?thesis using False assms(4) by simp
qed

lemma yielded_last:
  assumes "yields s es c" and "c \<le> i" and "\<And>m. c < m \<Longrightarrow> m \<le> i \<Longrightarrow> \<not> yields s es m"
    and "\<And>k'. k' < length (yielded s es) \<Longrightarrow> yielded s es ! k' \<le> i \<longleftrightarrow> k' < k" and "k \<le> length (yielded s es)"
  shows "0 < k \<and> c = yielded s es ! (k - 1)"
proof -
  obtain k' where k': "k' < length (yielded s es)" "yielded s es ! k' = c" using yields_yielded [OF assms(1)] by blast
  then have "k' < k" using assms(2,4) by blast
  moreover have "\<not> k' < k - 1"
  proof
    assume "k' < k - 1"
    then have l: "k - 1 < length (yielded s es)" using assms(5) by simp
    show False using yielded_mono [OF \<open>k' < k - 1\<close> l] k'(2) assms(3) assms(4) [OF l] yielded_nth [OF l] \<open>k' < k\<close> by auto
  qed
  ultimately show ?thesis using k' by (metis One_nat_def Suc_pred less_antisym not_less_zero zero_less_iff_neq_zero)
qed

section \<open>Sources\<close>

text \<open>An iterator over entries with well-formed internal keys, in the order of a comparator of user keys.\<close>

definition db_source :: "comparator_ops \<Rightarrow> 's iterator_ops \<Rightarrow> u64 \<Rightarrow> entry list \<Rightarrow> ('s \<Rightarrow> nat \<Rightarrow> bool) \<Rightarrow> bool" where
  "db_source u ops s es at \<longleftrightarrow> user_comparator u \<and> iterator_contract ops (\<lambda>k. 8 \<le> length k) (ikey_Compare u) es at
     \<and> (\<forall>e\<in>set es. ParseInternalKey (fst e) \<noteq> None) \<and> sorted_wrt (key_less (ikey_Compare u)) es \<and> s \<le> kMaxSequenceNumber"

abbreviation user_less :: "comparator_ops \<Rightarrow> slice \<Rightarrow> slice \<Rightarrow> bool" where
  "user_less u a b \<equiv> cmp_Compare u a b < 0"

lemma db_sourceD:
  assumes "db_source u ops s es at"
  shows "user_comparator u" "iterator_contract ops (\<lambda>k. 8 \<le> length k) (ikey_Compare u) es at"
    "sorted_wrt (key_less (ikey_Compare u)) es" "s \<le> kMaxSequenceNumber"
    "e \<in> set es \<Longrightarrow> ParseInternalKey (fst e) \<noteq> None"
  using assms by (auto simp: db_source_def)

lemma user_less_facts:
  assumes "user_comparator u"
  shows "\<not> user_less u a a" "user_less u a b \<Longrightarrow> \<not> user_less u b a" "\<not> user_less u a b \<Longrightarrow> a = b \<or> user_less u b a"
    "user_less u a b \<Longrightarrow> user_less u b c \<Longrightarrow> user_less u a c" "cmp_Compare u a b \<le> 0 \<longleftrightarrow> \<not> user_less u b a"
proof -
  note c = comparator.axioms(1) [OF assms [unfolded user_comparator_def]]
  show "\<not> user_less u a a" "user_less u a b \<Longrightarrow> user_less u b c \<Longrightarrow> user_less u a c"
    using key_order.refl [OF c, of a] key_order.trans [OF c, of a b c] by auto
  show "user_less u a b \<Longrightarrow> \<not> user_less u b a" "\<not> user_less u a b \<Longrightarrow> a = b \<or> user_less u b a"
    "cmp_Compare u a b \<le> 0 \<longleftrightarrow> \<not> user_less u b a"
    using key_order.swap [OF c, of a b] key_order.swap [OF c, of b a] key_order.equal [OF c, of a b] by auto
qed

lemma source_key:
  assumes "db_source u ops s es at" and "i < length es"
  obtains ikey where "ParseInternalKey (fst (es ! i)) = Some ikey" and "pik_user_key ikey = ukey (es ! i)"
    and "pik_sequence ikey \<le> s \<longleftrightarrow> sees s (es ! i)" and "pik_type ikey = kTypeValue \<longleftrightarrow> is_value (es ! i)"
    and "pik_type ikey = kTypeDeletion \<longleftrightarrow> \<not> is_value (es ! i)"
proof -
  obtain ikey where p: "ParseInternalKey (fst (es ! i)) = Some ikey" using db_sourceD(5) [OF assms(1) nth_mem [OF assms(2)]] by auto
  then have t: "pik_type ikey \<le> 1" "pik_type ikey = ExtractValueType (fst (es ! i))"
    by (auto simp: ParseInternalKey_def Let_def ExtractValueType_def kTypeValue_def split: if_splits)
  then have "pik_type ikey = 0 \<or> pik_type ikey = 1" by (simp add: word_le_nat_alt word_unat_eq_iff le_Suc_eq)
  with t p show thesis
    by (intro that [OF p]) (auto simp: ParseInternalKey_def Let_def ukey_def sees_def is_value_def ExtractUserKey_def
        kTypeValue_def kTypeDeletion_def split: if_splits)
qed

lemma source_order:
  assumes src: "db_source u ops s es at" and "i < j" and "j < length es"
  shows "ukey (es ! i) = ukey (es ! j) \<or> user_less u (ukey (es ! i)) (ukey (es ! j))" "\<not> user_less u (ukey (es ! j)) (ukey (es ! i))"
proof -
  have "key_less (ikey_Compare u) (es ! i) (es ! j)" using sorted_wrt_nth_less [OF db_sourceD(3) [OF src] assms(2,3)] .
  then show "ukey (es ! i) = ukey (es ! j) \<or> user_less u (ukey (es ! i)) (ukey (es ! j))"
    using user_comparator.ikey_Compare_less [OF db_sourceD(1) [OF src]] by (auto simp: ukey_def)
  then show "\<not> user_less u (ukey (es ! j)) (ukey (es ! i))" using user_less_facts [OF db_sourceD(1) [OF src]] by metis
qed

section \<open>Where the loops stop\<close>

text \<open>The internal iterator is at a position, and nothing went wrong.\<close>

definition di_ok :: "u64 \<Rightarrow> ('s \<Rightarrow> nat \<Rightarrow> bool) \<Rightarrow> 's db_iter \<Rightarrow> nat \<Rightarrow> bool" where
  "di_ok s at d m \<longleftrightarrow> at (di_iter d) m \<and> rnd_ok (di_rnd d) \<and> di_sequence d = s \<and> di_status d = Status_OK"

text \<open>What a forward search looks for.\<close>

definition wanted :: "comparator_ops \<Rightarrow> u64 \<Rightarrow> entry list \<Rightarrow> bool \<Rightarrow> slice \<Rightarrow> nat \<Rightarrow> bool" where
  "wanted u s es skipping K j \<longleftrightarrow> yields s es j \<and> (skipping \<longrightarrow> user_less u K (ukey (es ! j)))"

definition search_inv :: "comparator_ops \<Rightarrow> u64 \<Rightarrow> entry list \<Rightarrow> bool \<Rightarrow> slice \<Rightarrow> nat \<Rightarrow> bool" where
  "search_inv u s es skipping K i \<longleftrightarrow>
     (if skipping
      then (\<forall>j<i. sees s (es ! j) \<longrightarrow> \<not> user_less u K (ukey (es ! j)))
        \<and> (\<forall>j. i \<le> j \<longrightarrow> j < length es \<longrightarrow> sees s (es ! j) \<longrightarrow> \<not> user_less u (ukey (es ! j)) K)
      else \<forall>j<i. sees s (es ! j) \<longrightarrow> (\<forall>m. i \<le> m \<longrightarrow> m < length es \<longrightarrow> sees s (es ! m) \<longrightarrow> ukey (es ! j) \<noteq> ukey (es ! m)))"

lemma ParseKey_at:
  assumes src: "db_source u ops s es at" and ok: "di_ok s at d i" and i: "i < length es"
  obtains ikey c r samples where "ParseKey ops d = Some (Some ikey, d\<lparr>di_bytes_counter := c, di_rnd := r, di_samples := samples\<rparr>)"
    and "rnd_ok r" and "pik_user_key ikey = ukey (es ! i)"
    and "pik_sequence ikey \<le> s \<longleftrightarrow> sees s (es ! i)" and "pik_type ikey = kTypeValue \<longleftrightarrow> is_value (es ! i)"
    and "pik_type ikey = kTypeDeletion \<longleftrightarrow> \<not> is_value (es ! i)"
proof -
  obtain ikey where k: "ParseInternalKey (fst (es ! i)) = Some ikey" "pik_user_key ikey = ukey (es ! i)"
    "pik_sequence ikey \<le> s \<longleftrightarrow> sees s (es ! i)" "pik_type ikey = kTypeValue \<longleftrightarrow> is_value (es ! i)"
    "pik_type ikey = kTypeDeletion \<longleftrightarrow> \<not> is_value (es ! i)" by (rule source_key [OF src i])
  have "it_key ops (di_iter d) = fst (es ! i)"
    using iterator_contract.at_key [OF db_sourceD(2) [OF src] _ i] ok by (simp add: di_ok_def)
  then obtain c r samples where "ParseKey ops d = Some (Some ikey, d\<lparr>di_bytes_counter := c, di_rnd := r, di_samples := samples\<rparr>)" "rnd_ok r"
    using ParseKey_parses [of d ops ikey] k(1) ok by (auto simp: di_ok_def)
  then show thesis by (rule that) (fact k)+
qed

text \<open>A round that does not find its entry keeps the invariant and what is wanted.\<close>

definition after_round :: "u64 \<Rightarrow> entry \<Rightarrow> bool \<Rightarrow> slice \<Rightarrow> bool \<times> slice" where
  "after_round s e skipping K = (if sees s e \<and> \<not> is_value e then (True, ukey e) else (skipping, K))"

lemma wanted_round:
  assumes src: "db_source u ops s es at" and i: "i < length es" and inv: "search_inv u s es skipping K i"
    and r: "after_round s (es ! i) skipping K = (skipping', K')"
    and hidden: "sees s (es ! i) \<and> is_value (es ! i) \<Longrightarrow> skipping \<and> \<not> user_less u K (ukey (es ! i))"
  shows "\<not> wanted u s es skipping K i" and "search_inv u s es skipping' K' (Suc i)"
    and "i < j \<Longrightarrow> wanted u s es skipping K j \<longleftrightarrow> wanted u s es skipping' K' j"
proof -
  note less = user_less_facts [OF db_sourceD(1) [OF src]]
  show "\<not> wanted u s es skipping K i" using hidden by (auto simp: wanted_def yields_def)
  have order: "\<not> user_less u (ukey (es ! j)) (ukey (es ! i))" if "i < j" "j < length es" for j using source_order(2) [OF src that] .
  have order': "\<not> user_less u (ukey (es ! i)) (ukey (es ! j))" if "j < i" for j using source_order(2) [OF src that i] .
  consider (skip) "\<not> sees s (es ! i)" "skipping' = skipping" "K' = K"
    | (del) "sees s (es ! i)" "\<not> is_value (es ! i)" "skipping'" "K' = ukey (es ! i)"
    | (hid) "sees s (es ! i)" "skipping" "\<not> user_less u K (ukey (es ! i))" "skipping'" "K' = K"
  proof (cases "sees s (es ! i)")
    case False
    then show ?thesis using r by (intro skip) (simp_all add: after_round_def)
  next
    case True
    show ?thesis
    proof (cases "is_value (es ! i)")
      case v: True
      then show ?thesis using hidden r True by (intro hid) (simp_all add: after_round_def)
    next
      case v: False
      then show ?thesis using r True by (intro del) (simp_all add: after_round_def)
    qed
  qed
  then show "search_inv u s es skipping' K' (Suc i)"
  proof cases
    case skip
    with inv show ?thesis by (auto simp: search_inv_def less_Suc_eq Suc_le_eq split: if_splits)
  next
    case del
    have "\<not> user_less u K' (ukey (es ! j))" if "j < Suc i" for j
      using del(4) order' [of j] less(1) that by (cases "j = i") (simp_all add: less_Suc_eq)
    moreover have "\<not> user_less u (ukey (es ! j)) K'" if "Suc i \<le> j" "j < length es" for j
      using del(4) order [of j] that by simp
    ultimately show ?thesis using del(3) unfolding search_inv_def by simp
  next
    case hid
    with inv show ?thesis by (auto simp: search_inv_def less_Suc_eq Suc_le_eq)
  qed
  assume j: "i < j"
  show "wanted u s es skipping K j \<longleftrightarrow> wanted u s es skipping' K' j"
  proof (cases "sees s (es ! i) \<and> \<not> is_value (es ! i)")
    case True
    then have r': "skipping'" "K' = ukey (es ! i)" using r by (auto simp: after_round_def)
    show ?thesis
    proof (cases "yields s es j")
      case y: True
      then have l: "j < length es" "sees s (es ! j)" and "ukey (es ! i) \<noteq> ukey (es ! j)" using True j by (auto simp: yields_def)
      then have "user_less u (ukey (es ! i)) (ukey (es ! j))" using order [OF j l(1)] less(3) by metis
      moreover have "\<not> user_less u (ukey (es ! i)) K" if skipping using inv that i True by (auto simp: search_inv_def)
      ultimately show ?thesis using r' y less(3,4) by (auto simp: wanted_def) metis
    qed (simp add: wanted_def)
  next
    case False
    then show ?thesis using r by (auto simp: after_round_def split: if_splits)
  qed
qed

lemma wanted_found:
  assumes src: "db_source u ops s es at" and i: "i < length es" and inv: "search_inv u s es skipping K i"
    and "sees s (es ! i)" "is_value (es ! i)" "skipping \<longrightarrow> user_less u K (ukey (es ! i))"
  shows "wanted u s es skipping K i"
proof -
  have "ukey (es ! j) \<noteq> ukey (es ! i)" if "j < i" "sees s (es ! j)" for j
    using inv assms(4,6) that i by (auto simp: search_inv_def split: if_splits)
  then show ?thesis using assms(4-6) i by (auto simp: wanted_def yields_def)
qed

lemma FindNextUserEntry_stops:
  assumes src: "db_source u ops s es at"
  shows "di_ok s at d i \<Longrightarrow> i < length es \<Longrightarrow> search_inv u s es skipping (di_saved_key d) i \<Longrightarrow>
    \<exists>d' m. FindNextUserEntry ops u skipping d = Some d' \<and> di_ok s at d' m \<and> di_direction d' = di_direction d
      \<and> i \<le> m \<and> m \<le> length es \<and> (\<forall>j. i \<le> j \<longrightarrow> j < m \<longrightarrow> \<not> wanted u s es skipping (di_saved_key d) j)
      \<and> di_valid d' = (m < length es) \<and> (m < length es \<longrightarrow> wanted u s es skipping (di_saved_key d) m)"
proof (induction "length es - i" arbitrary: d i skipping rule: less_induct)
  case less
  obtain ikey c r samples where p: "ParseKey ops d = Some (Some ikey, d\<lparr>di_bytes_counter := c, di_rnd := r, di_samples := samples\<rparr>)"
    and k: "rnd_ok r" "pik_user_key ikey = ukey (es ! i)" "pik_sequence ikey \<le> s \<longleftrightarrow> sees s (es ! i)"
      "pik_type ikey = kTypeValue \<longleftrightarrow> is_value (es ! i)" "pik_type ikey = kTypeDeletion \<longleftrightarrow> \<not> is_value (es ! i)"
    by (rule ParseKey_at [OF src less.prems(1,2)])
  define d1 where "d1 = d\<lparr>di_bytes_counter := c, di_rnd := r, di_samples := samples\<rparr>"
  note less_facts = user_less_facts [OF db_sourceD(1) [OF src]]
  have d1: "di_ok s at d1 i" "di_sequence d1 = s" "di_saved_key d1 = di_saved_key d" "di_direction d1 = di_direction d"
    using less.prems(1) k(1) by (auto simp: d1_def di_ok_def)
  show ?case
  proof (cases "sees s (es ! i) \<and> is_value (es ! i) \<and> (skipping \<longrightarrow> user_less u (di_saved_key d) (ukey (es ! i)))")
    case True
    then have "next_round u skipping (Some ikey) d1 = (True, skipping, d1\<lparr>di_valid := True, di_saved_key := []\<rparr>)"
      using k d1 less_facts(5) by (auto simp: next_round_def)
    then have "FindNextUserEntry ops u skipping d = Some (d1\<lparr>di_valid := True, di_saved_key := []\<rparr>)"
      using p by (subst FindNextUserEntry.simps) (simp add: d1_def)
    moreover have "wanted u s es skipping (di_saved_key d) i" using wanted_found [OF src less.prems(2,3)] True by blast
    ultimately show ?thesis using less.prems(2) d1 
      by (intro exI [of _ "d1\<lparr>di_valid := True, di_saved_key := []\<rparr>"] exI [of _ i]) (auto simp: di_ok_def)
  next
    case False
    obtain skipping' K' where r': "after_round s (es ! i) skipping (di_saved_key d) = (skipping', K')" by fastforce
    have "next_round u skipping (Some ikey) d1 = (False, skipping', d1\<lparr>di_saved_key := K'\<rparr>)"
      using r' False k d1 less_facts(5) by (auto simp: next_round_def after_round_def split: if_splits)
    note step = wanted_round [OF src less.prems(2,3) r'] and run = p [folded d1_def] this
    have hidden: "sees s (es ! i) \<and> is_value (es ! i) \<Longrightarrow> skipping \<and> \<not> user_less u (di_saved_key d) (ukey (es ! i))"
      using False by blast
    obtain it where it: "it_Next ops (di_iter d1) = Some it" "at it (Suc i)"
      using iterator_contract.at_next [OF db_sourceD(2) [OF src] _ less.prems(2)] d1(1) by (auto simp: di_ok_def)
    have V: "it_Valid ops it \<longleftrightarrow> Suc i < length es" using iterator_contract.at_Valid [OF db_sourceD(2) [OF src] it(2)] .
    define d3 where "d3 = d1\<lparr>di_saved_key := K', di_iter := it\<rparr>"
    have d3: "di_ok s at d3 (Suc i)" "di_saved_key d3 = K'" "di_direction d3 = di_direction d"
      using d1 it(2) by (auto simp: d3_def di_ok_def)
    show ?thesis
    proof (cases "Suc i < length es")
      case True
      with less.hyps [OF _ d3(1), of skipping'] step(2) [OF hidden] less.prems(2)
      obtain d' m where m: "FindNextUserEntry ops u skipping' d3 = Some d'" "di_ok s at d' m" "di_direction d' = di_direction d"
        "Suc i \<le> m" "m \<le> length es" "\<And>j. Suc i \<le> j \<Longrightarrow> j < m \<Longrightarrow> \<not> wanted u s es skipping' K' j"
        "di_valid d' = (m < length es)" "m < length es \<Longrightarrow> wanted u s es skipping' K' m"
        unfolding d3(2,3) by (metis diff_less_mono2 lessI)
      have "FindNextUserEntry ops u skipping d = Some d'"
        using run it(1) V True m(1) by (subst FindNextUserEntry.simps) (simp add: d3_def)
      moreover have "\<not> wanted u s es skipping (di_saved_key d) j" if "i \<le> j" "j < m" for j
        using step(1,3) [OF hidden] m(6) that by (metis Suc_leI le_neq_implies_less)
      moreover have "wanted u s es skipping (di_saved_key d) m" if "m < length es"
        using step(3) [OF hidden, of m] m(4,8) that by simp
      ultimately show ?thesis using m(2-5,7) by (intro exI [of _ d'] exI [of _ m]) auto
    next
      case no_more: False
      have "FindNextUserEntry ops u skipping d = Some (d3\<lparr>di_saved_key := [], di_valid := False\<rparr>)"
        using run it(1) V no_more by (subst FindNextUserEntry.simps) (simp add: d3_def)
      moreover have l: "Suc i = length es" using no_more less.prems(2) by simp
      moreover have "\<not> wanted u s es skipping (di_saved_key d) j" if "i \<le> j" "j < Suc i" for j
        using step(1) [OF hidden] that by (metis le_antisym less_Suc_eq_le)
      ultimately show ?thesis using d3(1,3)
        by (intro exI [of _ "d3\<lparr>di_saved_key := [], di_valid := False\<rparr>"] exI [of _ "Suc i"]) (simp add: di_ok_def)
    qed
  qed
qed

end
