(* ===== verification/Ldb_DBIter_Props.thy ===== *)
theory Ldb_DBIter_Props
  imports Ldb_DBIter_Spec Ldb_Memtable_Spec
begin

text \<open>A database iterator keeps the contract of iterators over the view of its snapshot.\<close>

section \<open>Backward\<close>

text \<open>Where the internal iterator stands for an entry that was found backward: at the entry before that is seen.\<close>

definition seen_before :: "u64 \<Rightarrow> entry list \<Rightarrow> nat \<Rightarrow> nat \<Rightarrow> bool" where
  "seen_before s es c m \<longleftrightarrow> (m < c \<and> sees s (es ! m) \<and> (\<forall>j. m < j \<longrightarrow> j < c \<longrightarrow> \<not> sees s (es ! j)))
     \<or> (m = length es \<and> (\<forall>j<c. \<not> sees s (es ! j)))"

text \<open>The entries from \<open>b\<close> to \<open>i0\<close> have been looked at; the candidate is the newest of its key so far.\<close>

definition back_inv :: "u64 \<Rightarrow> entry list \<Rightarrow> nat \<Rightarrow> u8 \<Rightarrow> 's db_iter \<Rightarrow> nat \<Rightarrow> bool" where
  "back_inv s es i0 value_type d b \<longleftrightarrow> i0 < length es \<and>
     (if value_type = kTypeDeletion then \<forall>m. b \<le> m \<longrightarrow> m \<le> i0 \<longrightarrow> \<not> yields s es m
      else \<exists>c. b \<le> c \<and> c \<le> i0 \<and> sees s (es ! c) \<and> is_value (es ! c)
        \<and> di_saved_key d = ukey (es ! c) \<and> di_saved_value d = snd (es ! c)
        \<and> (\<forall>m. b \<le> m \<longrightarrow> m < c \<longrightarrow> \<not> sees s (es ! m)) \<and> (\<forall>m. c < m \<longrightarrow> m \<le> i0 \<longrightarrow> \<not> yields s es m))"

text \<open>What the loop finds: the last entry up to \<open>i0\<close> that is yielded, if there is one.\<close>

definition back_result :: "u64 \<Rightarrow> entry list \<Rightarrow> nat \<Rightarrow> u8 \<Rightarrow> 's db_iter \<Rightarrow> nat \<Rightarrow> bool" where
  "back_result s es i0 value_type d m \<longleftrightarrow>
     (if value_type = kTypeDeletion then \<forall>j\<le>i0. \<not> yields s es j
      else \<exists>c\<le>i0. yields s es c \<and> di_saved_key d = ukey (es ! c) \<and> di_saved_value d = snd (es ! c)
        \<and> (\<forall>j. c < j \<longrightarrow> j \<le> i0 \<longrightarrow> \<not> yields s es j) \<and> seen_before s es c m)"

lemma back_inv_end:
  assumes "back_inv s es i0 value_type d 0"
  shows "back_result s es i0 value_type d (length es)"
proof (cases "value_type = kTypeDeletion")
  case True
  with assms show ?thesis by (simp add: back_inv_def back_result_def)
next
  case False
  with assms obtain c where c: "c \<le> i0" "sees s (es ! c)" "is_value (es ! c)" "di_saved_key d = ukey (es ! c)"
    "di_saved_value d = snd (es ! c)" "\<forall>m<c. \<not> sees s (es ! m)" "\<forall>m. c < m \<longrightarrow> m \<le> i0 \<longrightarrow> \<not> yields s es m" "i0 < length es"
    by (auto simp: back_inv_def)
  then have "yields s es c" by (simp add: yields_def)
  with False c show ?thesis unfolding back_result_def seen_before_def by auto
qed

lemma back_inv_break:
  assumes src: "db_source u ops s es at" and inv: "back_inv s es i0 value_type d (Suc i)" and "i < length es"
    and "sees s (es ! i)" "value_type \<noteq> kTypeDeletion" "user_less u (ukey (es ! i)) (di_saved_key d)"
  shows "back_result s es i0 value_type d i"
proof -
  obtain c where c: "Suc i \<le> c" "c \<le> i0" "sees s (es ! c)" "is_value (es ! c)" "di_saved_key d = ukey (es ! c)"
    "di_saved_value d = snd (es ! c)" "\<forall>m. Suc i \<le> m \<longrightarrow> m < c \<longrightarrow> \<not> sees s (es ! m)"
    "\<forall>m. c < m \<longrightarrow> m \<le> i0 \<longrightarrow> \<not> yields s es m" "i0 < length es"
    using inv assms(5) by (auto simp: back_inv_def)
  note less = user_less_facts [OF db_sourceD(1) [OF src]]
  have "ukey (es ! j) \<noteq> ukey (es ! c)" if "j < c" "sees s (es ! j)" for j
  proof -
    have "j \<le> i" using c(7) that by (metis not_less_eq_eq)
    then have "ukey (es ! j) = ukey (es ! i) \<or> user_less u (ukey (es ! j)) (ukey (es ! i))"
      using source_order(1) [OF src, of j i] assms(3) by (cases "j = i") auto
    then show ?thesis using assms(6) c(5) less(1,4) by metis
  qed
  then have "yields s es c" using c by (simp add: yields_def)
  moreover have "seen_before s es c i" using c(1,7) assms(4) by (auto simp: seen_before_def Suc_le_eq)
  ultimately show ?thesis using assms(5) c unfolding back_result_def by auto
qed

text \<open>A round without a break.\<close>

lemma back_inv_step:
  assumes src: "db_source u ops s es at" and inv: "back_inv s es i0 value_type d (Suc i)" and i: "i \<le> i0"
    and no_break: "sees s (es ! i) \<Longrightarrow> value_type \<noteq> kTypeDeletion \<Longrightarrow> \<not> user_less u (ukey (es ! i)) (di_saved_key d)"
    and same: "\<not> sees s (es ! i) \<Longrightarrow> value_type' = value_type \<and> di_saved_key d' = di_saved_key d \<and> di_saved_value d' = di_saved_value d"
    and del: "sees s (es ! i) \<Longrightarrow> \<not> is_value (es ! i) \<Longrightarrow> value_type' = kTypeDeletion"
    and val: "sees s (es ! i) \<Longrightarrow> is_value (es ! i) \<Longrightarrow> value_type' = kTypeValue \<and> di_saved_key d' = ukey (es ! i)
      \<and> di_saved_value d' = snd (es ! i)"
  shows "back_inv s es i0 value_type' d' i"
proof (cases "sees s (es ! i)")
  case False
  then have "\<not> yields s es i" by (simp add: yields_def)
  note s = same [OF False]
  have up: "P m" if "i \<le> m" "P i" "\<And>m. Suc i \<le> m \<Longrightarrow> P m" for P m using that by (cases "m = i") auto
  show ?thesis
  proof (cases "value_type = kTypeDeletion")
    case True
    then have "\<forall>m. Suc i \<le> m \<longrightarrow> m \<le> i0 \<longrightarrow> \<not> yields s es m" "i0 < length es" using inv by (auto simp: back_inv_def)
    moreover from this have "\<not> yields s es m" if "i \<le> m" "m \<le> i0" for m
      using up [of m "\<lambda>m. m \<le> i0 \<longrightarrow> \<not> yields s es m"] \<open>\<not> yields s es i\<close> that by blast
    ultimately show ?thesis using s True unfolding back_inv_def by simp
  next
    case v: False
    then obtain c where c: "Suc i \<le> c" "c \<le> i0" "sees s (es ! c)" "is_value (es ! c)" "di_saved_key d = ukey (es ! c)"
      "di_saved_value d = snd (es ! c)" "\<forall>m. Suc i \<le> m \<longrightarrow> m < c \<longrightarrow> \<not> sees s (es ! m)"
      "\<forall>m. c < m \<longrightarrow> m \<le> i0 \<longrightarrow> \<not> yields s es m" "i0 < length es"
      using inv by (auto simp: back_inv_def)
    have "\<not> sees s (es ! m)" if "i \<le> m" "m < c" for m
      using up [of m "\<lambda>m. m < c \<longrightarrow> \<not> sees s (es ! m)"] c(7) False that by blast
    moreover have "i \<le> c" using c(1) by simp
    ultimately show ?thesis using v s c unfolding back_inv_def by (auto intro!: exI [of _ c])
  qed
next
  case True
  note less = user_less_facts [OF db_sourceD(1) [OF src]]
  have i0: "i0 < length es" using inv by (simp add: back_inv_def)
  have old: "\<not> yields s es m" if "i < m" "m \<le> i0" for m
  proof (cases "value_type = kTypeDeletion")
    case True
    then show ?thesis using inv that by (auto simp: back_inv_def)
  next
    case False
    then obtain c where c: "Suc i \<le> c" "c \<le> i0" "di_saved_key d = ukey (es ! c)"
      "\<forall>m. Suc i \<le> m \<longrightarrow> m < c \<longrightarrow> \<not> sees s (es ! m)" "\<forall>m. c < m \<longrightarrow> m \<le> i0 \<longrightarrow> \<not> yields s es m"
      using inv by (auto simp: back_inv_def)
    have "ukey (es ! i) = ukey (es ! c)"
      using source_order(1) [OF src, of i c] no_break [OF True False] c i0 by auto
    then have "\<not> yields s es c" using True c(1) by (auto simp: yields_def Suc_le_eq)
    then show ?thesis using c(4,5) that by (cases m c rule: linorder_cases) (auto simp: yields_def)
  qed
  show ?thesis
  proof (cases "is_value (es ! i)")
    case v: True
    then have "value_type' \<noteq> kTypeDeletion" using val True by (simp add: kTypeValue_def kTypeDeletion_def)
    then show ?thesis using val [OF True v] True v old i i0 unfolding back_inv_def by auto
  next
    case v: False
    then have "\<not> yields s es i" by (simp add: yields_def)
    then show ?thesis using del [OF True v] old i0 unfolding back_inv_def by (auto simp: le_less)
  qed
qed

lemma find_prev_stops:
  assumes src: "db_source u ops s es at"
  shows "di_ok s at d i \<Longrightarrow> i \<le> i0 \<Longrightarrow> back_inv s es i0 value_type d (Suc i) \<Longrightarrow>
    \<exists>value_type' d' m. find_prev_loop ops u value_type d = Some (value_type', d') \<and> di_ok s at d' m
      \<and> di_direction d' = di_direction d \<and> back_result s es i0 value_type' d' m"
proof (induction i arbitrary: d value_type rule: less_induct)
  case (less i)
  have i: "i < length es" using less.prems(2,3) by (simp add: back_inv_def)
  obtain ikey c r samples where p: "ParseKey ops d = Some (Some ikey, d\<lparr>di_bytes_counter := c, di_rnd := r, di_samples := samples\<rparr>)"
    and k: "rnd_ok r" "pik_user_key ikey = ukey (es ! i)" "pik_sequence ikey \<le> s \<longleftrightarrow> sees s (es ! i)"
      "pik_type ikey = kTypeValue \<longleftrightarrow> is_value (es ! i)" "pik_type ikey = kTypeDeletion \<longleftrightarrow> \<not> is_value (es ! i)"
    by (rule ParseKey_at [OF src less.prems(1) i])
  define d1 where "d1 = d\<lparr>di_bytes_counter := c, di_rnd := r, di_samples := samples\<rparr>"
  have d1: "di_ok s at d1 i" "di_sequence d1 = s" "di_saved_key d1 = di_saved_key d" "di_saved_value d1 = di_saved_value d"
    "di_direction d1 = di_direction d"
    using less.prems(1) k(1) by (auto simp: d1_def di_ok_def)
  have at: "at (di_iter d1) i" using d1(1) by (simp add: di_ok_def)
  note con = db_sourceD(2) [OF src]
  have it_kv: "it_key ops (di_iter d1) = fst (es ! i)" "it_value ops (di_iter d1) = snd (es ! i)"
    using iterator_contract.at_key [OF con at i] iterator_contract.at_value [OF con at i] by auto
  show ?case
  proof (cases "sees s (es ! i) \<and> value_type \<noteq> kTypeDeletion \<and> user_less u (ukey (es ! i)) (di_saved_key d)")
    case True
    then have "prev_round ops u value_type (Some ikey) d1 = None" using k d1 by (simp add: prev_round_def)
    then have "find_prev_loop ops u value_type d = Some (value_type, d1)"
      using p by (subst find_prev_loop.simps) (simp add: d1_def)
    moreover have "back_result s es i0 value_type d1 i"
      using back_inv_break [OF src less.prems(3) i] True d1 by (simp add: back_result_def)
    ultimately show ?thesis using d1 by auto
  next
    case False
    obtain value_type' d2 where round: "prev_round ops u value_type (Some ikey) d1 = Some (value_type', d2)"
      and same: "\<not> sees s (es ! i) \<Longrightarrow> value_type' = value_type \<and> di_saved_key d2 = di_saved_key d \<and> di_saved_value d2 = di_saved_value d"
      and del: "sees s (es ! i) \<Longrightarrow> \<not> is_value (es ! i) \<Longrightarrow> value_type' = kTypeDeletion"
      and val: "sees s (es ! i) \<Longrightarrow> is_value (es ! i) \<Longrightarrow> value_type' = kTypeValue \<and> di_saved_key d2 = ukey (es ! i)
        \<and> di_saved_value d2 = snd (es ! i)"
      and d2: "di_iter d2 = di_iter d1" "di_rnd d2 = di_rnd d1" "di_sequence d2 = s" "di_status d2 = di_status d1"
        "di_direction d2 = di_direction d"
    proof (cases "sees s (es ! i)")
      case s: True
      note break = False [simplified s simp_thms]
      show ?thesis
      proof (cases "is_value (es ! i)")
        case v: True
        show ?thesis
          by (rule that [of kTypeValue "d1\<lparr>di_saved_key := ukey (es ! i), di_saved_value := snd (es ! i)\<rparr>"])
            (use s v break k d1 it_kv in \<open>auto simp: prev_round_def ukey_def\<close>)
      next
        case v: False
        show ?thesis
          by (rule that [of kTypeDeletion "d1\<lparr>di_saved_key := [], di_saved_value := []\<rparr>"])
            (use s v break k d1 in \<open>auto simp: prev_round_def\<close>)
      qed
    next
      case s: False
      show ?thesis by (rule that [of value_type d1]) (use s k d1 in \<open>auto simp: prev_round_def\<close>)
    qed
    have inv: "back_inv s es i0 value_type' d2 i"
      by (rule back_inv_step [OF src less.prems(3,2) _ same del val]) (use False in auto)
    obtain it where it: "it_Prev ops (di_iter d2) = Some it" "at it (if i = 0 then length es else i - 1)"
      using iterator_contract.at_prev [OF con at i] d2(1) by auto
    have V: "it_Valid ops it \<longleftrightarrow> 0 < i" using iterator_contract.at_Valid [OF con it(2)] i by auto
    define d3 where "d3 = d2\<lparr>di_iter := it\<rparr>"
    have d3: "di_ok s at d3 (if i = 0 then length es else i - 1)" "di_direction d3 = di_direction d"
      using d1(1) d2 it(2) by (auto simp: d3_def di_ok_def)
    have inv3: "back_inv s es i0 value_type' d3 i" using inv by (simp add: back_inv_def d3_def)
    show ?thesis
    proof (cases "i = 0")
      case True
      then have "find_prev_loop ops u value_type d = Some (value_type', d3)"
        using p round it(1) V by (subst find_prev_loop.simps) (simp add: d1_def d3_def)
      then show ?thesis using d3 inv3 back_inv_end True by fastforce
    next
      case False
      then have "find_prev_loop ops u value_type d = find_prev_loop ops u value_type' d3"
        using p round it(1) V by (subst find_prev_loop.simps) (simp add: d1_def d3_def)
      moreover have "Suc (i - 1) = i" "i - 1 < i" "i - 1 \<le> i0" using False less.prems(2) by auto
      ultimately show ?thesis using less.IH [of "i - 1" d3 value_type'] d3 inv3 False by simp
    qed
  qed
qed

section \<open>Positions in the view\<close>

definition db_at :: "comparator_ops \<Rightarrow> 's iterator_ops \<Rightarrow> u64 \<Rightarrow> entry list \<Rightarrow> ('s \<Rightarrow> nat \<Rightarrow> bool) \<Rightarrow> 's db_iter \<Rightarrow> nat \<Rightarrow> bool" where
  "db_at u ops s es at d k \<longleftrightarrow> db_source u ops s es at \<and> k \<le> length (yielded s es) \<and> (\<exists>m. di_ok s at d m \<and>
     (if k = length (yielded s es) then \<not> di_valid d
      else di_valid d \<and> (if di_direction d = kForward then m = yielded s es ! k
        else di_saved_key d = ukey (es ! (yielded s es ! k)) \<and> di_saved_value d = snd (es ! (yielded s es ! k))
          \<and> seen_before s es (yielded s es ! k) m)))"

lemma yielded_keys:
  assumes "db_source u ops s es at" and "k < k'" and "k' < length (yielded s es)"
  shows "user_less u (ukey (es ! (yielded s es ! k))) (ukey (es ! (yielded s es ! k')))"
proof -
  note y = yielded_nth [of k s es] yielded_nth [OF assms(3)] yielded_mono [OF assms(2,3)]
  then have "ukey (es ! (yielded s es ! k)) \<noteq> ukey (es ! (yielded s es ! k'))" using assms(2,3) by (auto simp: yields_def)
  then show ?thesis using source_order(1) [OF assms(1) y(3)] y(2) by (auto simp: yields_def)
qed

lemma takeWhile_nth_iff:
  assumes "\<And>a b. a < b \<Longrightarrow> b < length xs \<Longrightarrow> P (xs ! b) \<Longrightarrow> P (xs ! a)" and "i < length xs"
  shows "i < length (takeWhile P xs) \<longleftrightarrow> P (xs ! i)"
proof
  assume "i < length (takeWhile P xs)"
  then show "P (xs ! i)" by (metis nth_mem set_takeWhileD takeWhile_nth)
next
  assume P: "P (xs ! i)"
  show "i < length (takeWhile P xs)"
  proof (rule ccontr)
    assume "\<not> i < length (takeWhile P xs)"
    then have l: "length (takeWhile P xs) \<le> i" by simp
    then have "\<not> P (xs ! length (takeWhile P xs))" using assms(2) by (intro nth_length_takeWhile) simp
    then show False using assms P l by (metis le_neq_implies_less)
  qed
qed

lemma found_forward:
  assumes src: "db_source u ops s es at" and "di_ok s at d i" and "i < length es"
    and "search_inv u s es skipping (di_saved_key d) i" and "di_direction d = kForward" and "k \<le> length (yielded s es)"
    and k: "\<And>k'. k' < length (yielded s es) \<Longrightarrow>
      (skipping \<longrightarrow> user_less u (di_saved_key d) (ukey (es ! (yielded s es ! k')))) \<and> i \<le> yielded s es ! k' \<longleftrightarrow> k \<le> k'"
  shows "\<exists>d'. FindNextUserEntry ops u skipping d = Some d' \<and> db_at u ops s es at d' k"
proof -
  obtain d' m where d': "FindNextUserEntry ops u skipping d = Some d'" "di_ok s at d' m" "di_direction d' = di_direction d"
    "i \<le> m" "m \<le> length es" "\<And>j. i \<le> j \<Longrightarrow> j < m \<Longrightarrow> \<not> wanted u s es skipping (di_saved_key d) j"
    "di_valid d' = (m < length es)" "m < length es \<Longrightarrow> wanted u s es skipping (di_saved_key d) m"
    using FindNextUserEntry_stops [OF assms(1-4)] by blast
  have "if k < length (yielded s es) then m = yielded s es ! k else m = length es"
    by (rule yielded_first [where T = "wanted u s es skipping (di_saved_key d)", OF d'(6,8,4,5) _ _ assms(6)]) (use k yielded_nth in \<open>auto simp: wanted_def\<close>)
  then have "db_at u ops s es at d' k"
    using src assms(5,6) d'(2,3,7) yielded_nth [of k s es] by (auto simp: db_at_def yields_def split: if_splits)
  with d'(1) show ?thesis by blast
qed

lemma found_back:
  assumes src: "db_source u ops s es at" and ok: "di_ok s at d i" and dir: "di_direction d = kReverse"
    and kl: "k \<le> length (yielded s es)"
    and k: "\<And>k'. k' < length (yielded s es) \<Longrightarrow> (i < length es \<and> yielded s es ! k' \<le> i) \<longleftrightarrow> k' < k"
  shows "\<exists>d'. FindPrevUserEntry ops u d = Some d' \<and> db_at u ops s es at d' (if k = 0 then length (yielded s es) else k - 1)"
proof -
  have V: "it_Valid ops (di_iter d) \<longleftrightarrow> i < length es"
    using iterator_contract.at_Valid [OF db_sourceD(2) [OF src]] ok by (auto simp: di_ok_def)
  show ?thesis
  proof (cases "i < length es")
    case False
    then have "k = 0" using k kl by (cases k) force+
    then show ?thesis using False V src ok by (auto simp: FindPrevUserEntry_def db_at_def di_ok_def)
  next
    case True
    have "back_inv s es i kTypeDeletion d (Suc i)" using True by (simp add: back_inv_def)
    then obtain t d1 m where d1: "find_prev_loop ops u kTypeDeletion d = Some (t, d1)" "di_ok s at d1 m" "di_direction d1 = kReverse"
      "back_result s es i t d1 m"
      using find_prev_stops [OF src ok le_refl] dir by metis
    show ?thesis
    proof (cases "t = kTypeDeletion")
      case del: True
      then have "\<forall>j\<le>i. \<not> yields s es j" using d1(4) by (simp add: back_result_def)
      then have "\<not> 0 < k" using k [of 0] kl yielded_nth [of 0 s es] True by (cases "yielded s es") auto
      then show ?thesis using del True V d1 src by (auto simp: FindPrevUserEntry_def db_at_def di_ok_def)
    next
      case val: False
      then obtain c where c: "c \<le> i" "yields s es c" "di_saved_key d1 = ukey (es ! c)" "di_saved_value d1 = snd (es ! c)"
        "\<And>j. c < j \<Longrightarrow> j \<le> i \<Longrightarrow> \<not> yields s es j" "seen_before s es c m"
        using d1(4) by (auto simp: back_result_def)
      have y: "0 < k \<and> c = yielded s es ! (k - 1)" by (rule yielded_last [OF c(2,1,5) _ kl]) (use k True in auto)
      have "db_at u ops s es at (d1\<lparr>di_valid := True\<rparr>) (k - 1)"
        using src y kl c(3,4,6) d1(2,3) by (auto simp: db_at_def di_ok_def)
      with y val True V d1(1) show ?thesis by (auto simp: FindPrevUserEntry_def)
    qed
  qed
qed

lemma leave_key_stops:
  assumes src: "db_source u ops s es at"
  shows "at it i \<Longrightarrow> i < length es \<Longrightarrow> \<exists>left it' m. leave_key ops u K it = Some (left, it') \<and> at it' m
    \<and> (if left then m < i \<and> user_less u (ukey (es ! m)) K \<and> (\<forall>j. m < j \<longrightarrow> j < i \<longrightarrow> \<not> user_less u (ukey (es ! j)) K)
       else m = length es \<and> (\<forall>j<i. \<not> user_less u (ukey (es ! j)) K))"
proof (induction i arbitrary: it rule: less_induct)
  case (less i)
  note con = db_sourceD(2) [OF src]
  obtain it1 where it1: "it_Prev ops it = Some it1" "at it1 (if i = 0 then length es else i - 1)"
    using iterator_contract.at_prev [OF con less.prems] by blast
  have V: "it_Valid ops it1 \<longleftrightarrow> 0 < i" using iterator_contract.at_Valid [OF con it1(2)] less.prems(2) by auto
  show ?case
  proof (cases "i = 0")
    case True
    then show ?thesis using it1 V by (subst leave_key.simps) auto
  next
    case False
    then have i: "i - 1 < i" "i - 1 < length es" and at1: "at it1 (i - 1)" using it1(2) less.prems(2) by auto
    have key: "ExtractUserKey (it_key ops it1) = ukey (es ! (i - 1))" using iterator_contract.at_key [OF con at1 i(2)] by (simp add: ukey_def)
    show ?thesis
    proof (cases "user_less u (ukey (es ! (i - 1))) K")
      case True
      then have "leave_key ops u K it = Some (True, it1)" using it1(1) V False key by (subst leave_key.simps) simp
      then show ?thesis using True at1 False by (intro exI [of _ True] exI [of _ it1] exI [of _ "i - 1"]) auto
    next
      case rest: False
      then have e: "leave_key ops u K it = leave_key ops u K it1" using it1(1) V False key by (subst leave_key.simps) simp
      have "j < i \<longleftrightarrow> j = i - 1 \<or> j < i - 1" for j using False by auto
      with rest have none: "\<not> user_less u (ukey (es ! j)) K" if "j < i" "\<not> j < i - 1" for j using that by metis
      obtain left it' m where m: "leave_key ops u K it1 = Some (left, it')" "at it' m"
        "if left then m < i - 1 \<and> user_less u (ukey (es ! m)) K \<and> (\<forall>j. m < j \<longrightarrow> j < i - 1 \<longrightarrow> \<not> user_less u (ukey (es ! j)) K)
         else m = length es \<and> (\<forall>j<i - 1. \<not> user_less u (ukey (es ! j)) K)"
        using less.IH [OF i(1) at1 i(2)] by blast
      have "if left then m < i \<and> user_less u (ukey (es ! m)) K \<and> (\<forall>j. m < j \<longrightarrow> j < i \<longrightarrow> \<not> user_less u (ukey (es ! j)) K)
         else m = length es \<and> (\<forall>j<i. \<not> user_less u (ukey (es ! j)) K)"
      proof (cases left)
        case True
        then have m': "m < i - 1" "user_less u (ukey (es ! m)) K" "\<And>j. m < j \<Longrightarrow> j < i - 1 \<Longrightarrow> \<not> user_less u (ukey (es ! j)) K"
          using m(3) by auto
        then have "\<not> user_less u (ukey (es ! j)) K" if "m < j" "j < i" for j using none [OF that(2)] that(1) by (cases "j < i - 1") auto
        with m' i(1) True show ?thesis by simp
      next
        case False
        then have m': "m = length es" "\<And>j. j < i - 1 \<Longrightarrow> \<not> user_less u (ukey (es ! j)) K" using m(3) by auto
        then have "\<not> user_less u (ukey (es ! j)) K" if "j < i" for j using none [OF that] by (cases "j < i - 1") auto
        with m' False show ?thesis by simp
      qed
      with m(1,2) show ?thesis unfolding e by blast
    qed
  qed
qed

section \<open>The moves\<close>

lemma yielded_less_key:
  assumes src: "db_source u ops s es at" and "k < length (yielded s es)" and "k' < length (yielded s es)"
  shows "user_less u (ukey (es ! (yielded s es ! k))) (ukey (es ! (yielded s es ! k'))) \<longleftrightarrow> k < k'"
proof -
  note less = user_less_facts [OF db_sourceD(1) [OF src]]
  show ?thesis
    using yielded_keys [OF src, of k k'] yielded_keys [OF src, of k' k] assms(2,3) less(1,2) by (cases k k' rule: linorder_cases) auto
qed

lemma key_inv:
  assumes src: "db_source u ops s es at" and c: "c < length es" and "i \<le> c"
    and unseen: "\<And>j. i \<le> j \<Longrightarrow> j < c \<Longrightarrow> \<not> sees s (es ! j)"
  shows "search_inv u s es True (ukey (es ! c)) i"
proof -
  note less = user_less_facts [OF db_sourceD(1) [OF src]]
  have "\<not> user_less u (ukey (es ! c)) (ukey (es ! j))" if "j < i" for j
    using source_order(2) [OF src _ c, of j] assms(3) that by simp
  moreover have "\<not> user_less u (ukey (es ! j)) (ukey (es ! c))" if "i \<le> j" "j < length es" "sees s (es ! j)" for j
    using source_order(2) [OF src, of c j] unseen [of j] that less(1) by (cases j c rule: linorder_cases) auto
  ultimately show ?thesis by (simp add: search_inv_def)
qed

lemma db_Next_at:
  assumes at: "db_at u ops s es at d k" and k: "k < length (yielded s es)"
  shows "\<exists>d'. DBIter_Next ops u d = Some d' \<and> db_at u ops s es at d' (Suc k)"
proof -
  define c where "c = yielded s es ! k"
  have src: "db_source u ops s es at" using at by (simp add: db_at_def)
  note con = db_sourceD(2) [OF src]
  have c: "c < length es" using yielded_nth [OF k] by (simp add: c_def yields_def)
  obtain m where ok: "di_ok s at d m" and valid: "di_valid d"
    and m: "if di_direction d = kForward then m = c else di_saved_key d = ukey (es ! c) \<and> seen_before s es c m"
    using at k by (auto simp: db_at_def c_def split: if_splits)
  have atm: "at (di_iter d) m" using ok by (simp add: di_ok_def)
  have after: "user_less u (ukey (es ! c)) (ukey (es ! (yielded s es ! k'))) \<and> i \<le> yielded s es ! k' \<longleftrightarrow> Suc k \<le> k'"
    if "k' < length (yielded s es)" "i \<le> c" for k' i
    using yielded_less_key [OF src k that(1)] yielded_mono [of k k' s es] that by (auto simp: c_def Suc_le_eq)
  have found: "\<exists>d'. FindNextUserEntry ops u True d1 = Some d' \<and> db_at u ops s es at d' (Suc k)"
    if "di_ok s at d1 i" "i \<le> c" "\<And>j. i \<le> j \<Longrightarrow> j < c \<Longrightarrow> \<not> sees s (es ! j)" "di_saved_key d1 = ukey (es ! c)"
      "di_direction d1 = kForward" for d1 i
    by (rule found_forward [OF src that(1) _ _ that(5)]) (use that c k key_inv [OF src c that(2,3)] after in simp_all)
  show ?thesis
  proof (cases "di_direction d")
    case kForward
    then have "m = c" using m by simp
    then have "ExtractUserKey (it_key ops (di_iter d)) = ukey (es ! c)" using iterator_contract.at_key [OF con atm] c by (simp add: ukey_def)
    then show ?thesis using found [of "d\<lparr>di_saved_key := ukey (es ! c)\<rparr>" c] ok \<open>m = c\<close> kForward by (simp add: DBIter_Next_def di_ok_def)
  next
    case kReverse
    then have sb: "di_saved_key d = ukey (es ! c)" "seen_before s es c m" using m by auto
    have V: "it_Valid ops (di_iter d) \<longleftrightarrow> m < length es" using iterator_contract.at_Valid [OF con atm] .
    obtain it i where it: "(if \<not> it_Valid ops (di_iter d) then it_SeekToFirst ops (di_iter d) else it_Next ops (di_iter d)) = Some it"
      "at it i" "i \<le> c" "\<And>j. i \<le> j \<Longrightarrow> j < c \<Longrightarrow> \<not> sees s (es ! j)"
    proof (cases "m < length es")
      case True
      then obtain it where "it_Next ops (di_iter d) = Some it" "at it (Suc m)" using iterator_contract.at_next [OF con atm] by blast
      with True sb(2) V show ?thesis by (intro that [of it "Suc m"]) (auto simp: seen_before_def)
    next
      case False
      then obtain it where "it_SeekToFirst ops (di_iter d) = Some it" "at it 0" using iterator_contract.at_first [OF con atm] by blast
      with False sb(2) V c show ?thesis by (intro that [of it 0]) (auto simp: seen_before_def)
    qed
    have "it_Valid ops it" using iterator_contract.at_Valid [OF con it(2)] it(3) c by simp
    moreover have "\<exists>d'. FindNextUserEntry ops u True (d\<lparr>di_direction := kForward, di_iter := it\<rparr>) = Some d' \<and> db_at u ops s es at d' (Suc k)"
      by (rule found [of _ i]) (use it ok sb(1) in \<open>simp_all add: di_ok_def\<close>)
    ultimately show ?thesis using it(1) kReverse by (simp add: DBIter_Next_def)
  qed
qed

lemma db_Prev_at:
  assumes at: "db_at u ops s es at d k" and k: "k < length (yielded s es)"
  shows "\<exists>d'. DBIter_Prev ops u d = Some d' \<and> db_at u ops s es at d' (if k = 0 then length (yielded s es) else k - 1)"
proof -
  define c where "c = yielded s es ! k"
  have src: "db_source u ops s es at" using at by (simp add: db_at_def)
  note con = db_sourceD(2) [OF src] and less = user_less_facts [OF db_sourceD(1) [OF src]]
  have c: "c < length es" "yields s es c" using yielded_nth [OF k] by (simp_all add: c_def yields_def)
  obtain m where ok: "di_ok s at d m" and m: "if di_direction d = kForward then m = c else seen_before s es c m"
    using at k by (auto simp: db_at_def c_def split: if_splits)
  have atm: "at (di_iter d) m" using ok by (simp add: di_ok_def)
  show ?thesis
  proof (cases "di_direction d")
    case kReverse
    then have sb: "seen_before s es c m" using m by simp
    have "(m < length es \<and> yielded s es ! k' \<le> m) \<longleftrightarrow> k' < k" if k': "k' < length (yielded s es)" for k'
    proof -
      have "sees s (es ! (yielded s es ! k'))" using yielded_nth [OF k'] by (simp add: yields_def)
      then show ?thesis using sb yielded_less_iff [OF k' k] c(1) by (auto simp: seen_before_def c_def [symmetric] not_less)
    qed
    then show ?thesis using found_back [OF src ok kReverse, of k] k kReverse by (simp add: DBIter_Prev_def)
  next
    case kForward
    then have mc: "m = c" using m by simp
    have key: "ExtractUserKey (it_key ops (di_iter d)) = ukey (es ! c)"
      using iterator_contract.at_key [OF con atm] c mc by (simp add: ukey_def)
    obtain left it j where it: "leave_key ops u (ukey (es ! c)) (di_iter d) = Some (left, it)" "at it j"
      "if left then j < c \<and> user_less u (ukey (es ! j)) (ukey (es ! c))
           \<and> (\<forall>i. j < i \<longrightarrow> i < c \<longrightarrow> \<not> user_less u (ukey (es ! i)) (ukey (es ! c)))
       else j = length es \<and> (\<forall>i<c. \<not> user_less u (ukey (es ! i)) (ukey (es ! c)))"
      using leave_key_stops [OF src atm] c(1) mc by metis
    have before: "user_less u (ukey (es ! (yielded s es ! k'))) (ukey (es ! c))" "yielded s es ! k' < c" if "k' < k" for k'
      using yielded_keys [OF src that k] yielded_mono [OF that k] by (simp_all add: c_def)
    show ?thesis
    proof (cases left)
      case False
      then have "k = 0" using it(3) before by (metis neq0_conv)
      then show ?thesis using it(1,2) False kForward key src ok by (auto simp: DBIter_Prev_def Let_def db_at_def di_ok_def)
    next
      case True
      then have j: "j < c" "\<And>i. j < i \<Longrightarrow> i < c \<Longrightarrow> \<not> user_less u (ukey (es ! i)) (ukey (es ! c))" using it(3) by auto
      define d1 where "d1 = d\<lparr>di_saved_key := ukey (es ! c), di_iter := it, di_direction := kReverse\<rparr>"
      have "(j < length es \<and> yielded s es ! k' \<le> j) \<longleftrightarrow> k' < k" if k': "k' < length (yielded s es)" for k'
        using before [of k'] j c(1) yielded_less_iff [OF k' k] by (auto simp: c_def [symmetric]) (meson not_le_imp_less)
      then have "\<exists>d'. FindPrevUserEntry ops u d1 = Some d' \<and> db_at u ops s es at d' (if k = 0 then length (yielded s es) else k - 1)"
        using ok it(2) k by (intro found_back [OF src]) (simp_all add: d1_def di_ok_def)
      then show ?thesis using it(1) True kForward key by (simp add: DBIter_Prev_def Let_def d1_def)
    qed
  qed
qed

section \<open>Seeking\<close>

lemma lower_bound_nth:
  assumes "\<And>a b c. cmp a b < 0 \<Longrightarrow> cmp b c < 0 \<Longrightarrow> cmp a c < 0" and "sorted_wrt (\<lambda>a b. cmp (fst a) (fst b) < 0) xs" and "i < length xs"
  shows "i < lower_bound cmp xs target \<longleftrightarrow> cmp (fst (xs ! i)) target < 0"
  unfolding lower_bound_def
  by (rule takeWhile_nth_iff [where P = "\<lambda>e. cmp (fst e) target < 0"])
    (use assms sorted_wrt_nth_less [OF assms(2)] in blast)+

lemma view_sorted:
  assumes "db_source u ops s es at"
  shows "sorted_wrt (\<lambda>a b. cmp_Compare u (fst a) (fst b) < 0) (db_view s es)"
  using yielded_keys [OF assms] by (auto simp: sorted_wrt_iff_nth_less db_view_def)

lemma view_lower_bound:
  assumes src: "db_source u ops s es at" and "k < length (yielded s es)"
  shows "k < lower_bound (cmp_Compare u) (db_view s es) target \<longleftrightarrow> user_less u (ukey (es ! (yielded s es ! k))) target"
  using lower_bound_nth [OF user_less_facts(4) [OF db_sourceD(1) [OF src]] view_sorted [OF src], where i = k and target = target] assms(2)
  by (simp add: db_view_def)

text \<open>Of the entries the snapshot sees, those in front of the internal key that is sought have smaller user keys.\<close>

lemma seek_less:
  assumes src: "db_source u ops s es at" and i: "i < length es" and "sees s (es ! i)"
  shows "ikey_Compare u (fst (es ! i)) (AppendInternalKey [] (ParsedInternalKey target s kValueTypeForSeek)) < 0
    \<longleftrightarrow> user_less u (ukey (es ! i)) target"
proof -
  obtain ikey where p: "ParseInternalKey (fst (es ! i)) = Some ikey" using db_sourceD(5) [OF src nth_mem [OF i]] by auto
  have "fst (es ! i) = AppendInternalKey [] ikey" and t: "pik_type ikey \<le> kTypeValue" using Append_ParseInternalKey [OF p] by auto
  then have num: "ikey_num (fst (es ! i)) = PackSequenceAndType (pik_sequence ikey) (pik_type ikey)"
    by (simp add: AppendInternalKey_def)
  have s: "s \<le> kMaxSequenceNumber" using db_sourceD(4) [OF src] .
  have "pik_sequence ikey = drop_bit 8 (ikey_num (fst (es ! i)))"
    using p by (auto simp: ParseInternalKey_def Let_def split: if_splits)
  then have q: "pik_sequence ikey \<le> s" using assms(3) by (simp add: sees_def)
  have "\<not> PackSequenceAndType s kValueTypeForSeek < PackSequenceAndType (pik_sequence ikey) (pik_type ikey)"
    using Pack_seek [OF order_trans [OF q s] s t] q by (simp add: not_less)
  then show ?thesis
    using user_comparator.ikey_Compare_less [OF db_sourceD(1) [OF src]] num
    by (auto simp: ukey_def AppendInternalKey_def ParsedInternalKey_def)
qed

lemma found_from:
  assumes src: "db_source u ops s es at" and ok: "di_ok s at d i" and "i \<le> length es" and "di_direction d = kForward"
    and "search_inv u s es False (di_saved_key d) i" and kl: "k \<le> length (yielded s es)"
    and k: "\<And>k'. k' < length (yielded s es) \<Longrightarrow> i \<le> yielded s es ! k' \<longleftrightarrow> k \<le> k'"
  shows "\<exists>d'. find_from ops u d = Some d' \<and> db_at u ops s es at d' k"
proof -
  have V: "it_Valid ops (di_iter d) \<longleftrightarrow> i < length es"
    using iterator_contract.at_Valid [OF db_sourceD(2) [OF src]] ok by (auto simp: di_ok_def)
  show ?thesis
  proof (cases "i < length es")
    case True
    then show ?thesis using found_forward [OF src ok True assms(5,4) kl] k V by (simp add: find_from_def)
  next
    case False
    have "\<not> k < length (yielded s es)"
      using k [of k] yielded_nth [of k s es] False by (auto simp: yields_def)
    then have "k = length (yielded s es)" using kl by simp
    then show ?thesis using False V src ok by (auto simp: find_from_def db_at_def di_ok_def)
  qed
qed

lemma db_SeekToFirst_at:
  assumes "db_at u ops s es at d k"
  shows "\<exists>d'. DBIter_SeekToFirst ops u d = Some d' \<and> db_at u ops s es at d' 0"
proof -
  obtain m where src: "db_source u ops s es at" and ok: "di_ok s at d m" using assms by (auto simp: db_at_def)
  then obtain it where it: "it_SeekToFirst ops (di_iter d) = Some it" "at it 0"
    using iterator_contract.at_first [OF db_sourceD(2) [OF src]] by (auto simp: di_ok_def)
  have "\<exists>d'. find_from ops u (d\<lparr>di_direction := kForward, di_saved_value := [], di_iter := it\<rparr>) = Some d' \<and> db_at u ops s es at d' 0"
    using ok it(2) by (intro found_from [OF src, of _ 0]) (simp_all add: di_ok_def search_inv_def)
  then show ?thesis using it(1) by (simp add: DBIter_SeekToFirst_def)
qed

lemma db_SeekToLast_at:
  assumes "db_at u ops s es at d k"
  shows "\<exists>d'. DBIter_SeekToLast ops u d = Some d' \<and> db_at u ops s es at d' (length (yielded s es) - 1)"
proof -
  obtain m where src: "db_source u ops s es at" and ok: "di_ok s at d m" using assms by (auto simp: db_at_def)
  then obtain it where it: "it_SeekToLast ops (di_iter d) = Some it" "at it (length es - 1)"
    using iterator_contract.at_last [OF db_sourceD(2) [OF src]] by (auto simp: di_ok_def)
  have y: "yielded s es ! k' < length es" if "k' < length (yielded s es)" for k' using yielded_nth [OF that] by (simp add: yields_def)
  have "\<exists>d'. FindPrevUserEntry ops u (d\<lparr>di_direction := kReverse, di_saved_value := [], di_iter := it\<rparr>) = Some d'
      \<and> db_at u ops s es at d' (if length (yielded s es) = 0 then length (yielded s es) else length (yielded s es) - 1)"
    by (rule found_back [OF src, of _ "length es - 1"]) (use ok it(2) y in \<open>fastforce simp: di_ok_def\<close>)+
  then show ?thesis using it(1) by (simp add: DBIter_SeekToLast_def split: if_splits)
qed

lemma db_Seek_at:
  assumes "db_at u ops s es at d k"
  shows "\<exists>d'. DBIter_Seek ops u target d = Some d' \<and> db_at u ops s es at d' (lower_bound (cmp_Compare u) (db_view s es) target)"
proof -
  obtain m where src: "db_source u ops s es at" and ok: "di_ok s at d m" using assms by (auto simp: db_at_def)
  define key where "key = AppendInternalKey [] (ParsedInternalKey target s kValueTypeForSeek)"
  define i where "i = lower_bound (ikey_Compare u) es key"
  have "8 \<le> length key" by (simp add: key_def AppendInternalKey_def)
  then obtain it where it: "it_Seek ops key (di_iter d) = Some it" "at it i"
    using iterator_contract.at_seek [OF db_sourceD(2) [OF src]] ok unfolding di_ok_def i_def by blast
  note less = user_less_facts [OF db_sourceD(1) [OF src]]
  have "ikey_Compare u a c < 0" if "ikey_Compare u a b < 0" "ikey_Compare u b c < 0" for a b c
    using that less(4) by (auto simp: user_comparator.ikey_Compare_less [OF db_sourceD(1) [OF src]])
  then have front: "j < i \<longleftrightarrow> ikey_Compare u (fst (es ! j)) key < 0" if "j < length es" for j
    unfolding i_def using db_sourceD(3) [OF src] that by (intro lower_bound_nth) auto
  have seen: "j < i \<longleftrightarrow> user_less u (ukey (es ! j)) target" if "j < length es" "sees s (es ! j)" for j
    using front [OF that(1)] seek_less [OF src that] by (simp add: key_def)
  have il: "i \<le> length es" by (simp add: i_def lower_bound_le)
  have inv: "search_inv u s es False K i" for K
    unfolding search_inv_def using seen il by (metis leD order_less_le_trans)
  have k: "i \<le> yielded s es ! k' \<longleftrightarrow> lower_bound (cmp_Compare u) (db_view s es) target \<le> k'" if "k' < length (yielded s es)" for k'
    using view_lower_bound [OF src that, of target] seen [of "yielded s es ! k'"] yielded_nth [OF that] by (auto simp: yields_def not_less [symmetric])
  have kl: "lower_bound (cmp_Compare u) (db_view s es) target \<le> length (yielded s es)"
    using lower_bound_le [of _ "db_view s es"] by (simp add: db_view_def)
  have "\<exists>d'. find_from ops u (d\<lparr>di_direction := kForward, di_saved_value := [], di_saved_key := key, di_iter := it\<rparr>) = Some d'
      \<and> db_at u ops s es at d' (lower_bound (cmp_Compare u) (db_view s es) target)"
    using ok it(2) by (intro found_from [OF src _ il _ inv kl k]) (simp_all add: di_ok_def)
  moreover have "di_sequence d = s" using ok by (simp add: di_ok_def)
  ultimately show ?thesis using it(1) by (simp add: DBIter_Seek_def Let_def key_def)
qed

section \<open>The contract\<close>

lemma db_iter_ops_sel [simp]:
  "it_Valid (db_iter_ops ops u) = di_valid" "it_key (db_iter_ops ops u) = DBIter_key ops" "it_value (db_iter_ops ops u) = DBIter_value ops"
  "it_status (db_iter_ops ops u) = DBIter_status ops" "it_SeekToFirst (db_iter_ops ops u) = DBIter_SeekToFirst ops u"
  "it_SeekToLast (db_iter_ops ops u) = DBIter_SeekToLast ops u" "it_Seek (db_iter_ops ops u) = DBIter_Seek ops u"
  "it_Next (db_iter_ops ops u) = DBIter_Next ops u" "it_Prev (db_iter_ops ops u) = DBIter_Prev ops u"
  by (simp_all add: db_iter_ops_def)

lemma length_view: "length (db_view s es) = length (yielded s es)"
  by (simp add: db_view_def)

interpretation db_entries: iterator_contract "db_iter_ops ops u" "\<lambda>_. True" "cmp_Compare u" "db_view s es" "db_at u ops s es at"
  unfolding iterator_contract_def db_iter_ops_sel length_view
proof (intro conjI allI impI)
  fix d k assume at: "db_at u ops s es at d k"
  then obtain m where src: "db_source u ops s es at" and kl: "k \<le> length (yielded s es)" and ok: "di_ok s at d m"
    by (auto simp: db_at_def)
  have atm: "at (di_iter d) m" using ok by (simp add: di_ok_def)
  note con = db_sourceD(2) [OF src]
  show "k \<le> length (yielded s es)" by (rule kl)
  show "di_valid d \<longleftrightarrow> k < length (yielded s es)" using at kl by (cases "k = length (yielded s es)") (auto simp: db_at_def)
  show "DBIter_status ops d = Status_OK" using ok iterator_contract.at_status [OF con atm] by (simp add: DBIter_status_def di_ok_def)
  show "\<exists>d'. DBIter_SeekToFirst ops u d = Some d' \<and> db_at u ops s es at d' 0" by (rule db_SeekToFirst_at [OF at])
  show "\<exists>d'. DBIter_SeekToLast ops u d = Some d' \<and> db_at u ops s es at d' (length (yielded s es) - 1)" by (rule db_SeekToLast_at [OF at])
  show "\<exists>d'. DBIter_Seek ops u target d = Some d' \<and> db_at u ops s es at d' (lower_bound (cmp_Compare u) (db_view s es) target)" for target
    by (rule db_Seek_at [OF at])
  assume k: "k < length (yielded s es)"
  show "\<exists>d'. DBIter_Next ops u d = Some d' \<and> db_at u ops s es at d' (Suc k)" by (rule db_Next_at [OF at k])
  show "\<exists>d'. DBIter_Prev ops u d = Some d' \<and> db_at u ops s es at d' (if k = 0 then length (yielded s es) else k - 1)" by (rule db_Prev_at [OF at k])
  define c where "c = yielded s es ! k"
  have c: "c < length es" using yielded_nth [OF k] by (simp add: c_def yields_def)
  obtain j where j: "di_ok s at d j" "if di_direction d = kForward then j = c else di_saved_key d = ukey (es ! c) \<and> di_saved_value d = snd (es ! c)"
    using at k by (auto simp: db_at_def c_def split: if_splits)
  then have "di_direction d = kForward \<Longrightarrow> at (di_iter d) c" by (simp add: di_ok_def)
  then show "(DBIter_key ops d, DBIter_value ops d) = db_view s es ! k"
    using j(2) iterator_contract.at_key [OF con _ c] iterator_contract.at_value [OF con _ c] k
    by (auto simp: DBIter_key_def DBIter_value_def db_view_def c_def [symmetric] ukey_def split: if_splits)
qed

section \<open>Lookups in the view\<close>

lemma view_mem: "(k, v) \<in> set (db_view s es) \<longleftrightarrow> (\<exists>i. yields s es i \<and> ukey (es ! i) = k \<and> snd (es ! i) = v)"
  by (auto simp: db_view_def yielded_def yields_def)

lemma view_keys_distinct:
  assumes "db_source u ops s es at"
  shows "distinct (map fst (db_view s es))"
  using view_sorted [OF assms] user_less_facts(1) [OF db_sourceD(1) [OF assms]]
  unfolding distinct_conv_nth sorted_wrt_iff_nth_less by (metis length_map linorder_neqE_nat nth_map)

lemma view_newest_value:
  assumes "db_source u ops s es at"
  shows "map_of (db_view s es) k = newest_value s es k"
proof (cases "List.find (\<lambda>e. ukey e = k \<and> sees s e) es")
  case None
  then have "\<forall>e\<in>set es. \<not> (ukey e = k \<and> sees s e)" by (auto simp: find_None_iff)
  then have "ukey (es ! i) \<noteq> k" if "yields s es i" for i
    using that nth_mem [of i es] unfolding yields_def by blast
  then have "k \<notin> fst ` set (db_view s es)" by (force simp: view_mem)
  then show ?thesis using None by (simp add: newest_value_def map_of_eq_None_iff)
next
  case (Some e)
  then obtain i where i: "i < length es" "ukey (es ! i) = k" "sees s (es ! i)" "es ! i = e"
    "\<And>j. j < i \<Longrightarrow> sees s (es ! j) \<Longrightarrow> ukey (es ! j) \<noteq> k"
    by (auto simp: find_Some_iff)
  then have first: "yields s es j \<and> ukey (es ! j) = k \<longleftrightarrow> j = i \<and> is_value e" for j
    by (cases i j rule: linorder_cases) (auto simp: yields_def)
  show ?thesis
  proof (cases "is_value e")
    case True
    then have "(k, snd e) \<in> set (db_view s es)" using first [of i] i by (auto simp: view_mem)
    then show ?thesis using True Some map_of_eq_Some_iff [OF view_keys_distinct [OF assms]] by (simp add: newest_value_def)
  next
    case False
    then have "k \<notin> fst ` set (db_view s es)" using first by (force simp: view_mem)
    then show ?thesis using False Some by (simp add: newest_value_def map_of_eq_None_iff)
  qed
qed

text \<open>
  C37. The database iterator refines the snapshot's view. Over an iterator of well-formed internal keys in the internal
  order, it is an iterator of a list of user keys in the user's order in which every user key has the value of the newest
  entry not above the snapshot's sequence number, unless that entry is a deletion or there is none. All its moves come
  back, from every position and in both directions, whatever the seed of the read samples.
\<close>
theorem db_iterator_contract:
  assumes "user_comparator u" and "iterator_contract ops (\<lambda>k. 8 \<le> length k) (ikey_Compare u) es at" and "at it i"
    and "\<forall>e\<in>set es. ParseInternalKey (fst e) \<noteq> None" and "sorted_wrt (key_less (ikey_Compare u)) es"
    and "s \<le> kMaxSequenceNumber"
  shows "\<exists>view at'. sorted_wrt (key_less (cmp_Compare u)) view \<and> map_of view = newest_value s es
    \<and> iterator_contract (db_iter_ops ops u) (\<lambda>_. True) (cmp_Compare u) view at' \<and> at' (DBIter_new it s seed) (length view)"
proof -
  have src: "db_source u ops s es at" using assms by (simp add: db_source_def)
  have "rnd_ok (Random_Next (Random_new seed))" using Random_new_range rnd_ok_next by (simp add: rnd_ok_def)
  then have "db_at u ops s es at (DBIter_new it s seed) (length (db_view s es))"
    using src assms(3) by (auto simp: db_at_def length_view DBIter_new_def RandomPeriod_parts di_ok_def)
  moreover have "map_of (db_view s es) = newest_value s es" using view_newest_value [OF src] by blast
  ultimately show ?thesis using view_sorted [OF src] db_entries.iterator_contract_axioms by blast
qed

definition sample_block :: "(slice \<times> slice) list" where
  "sample_block = [(InternalKey [97] 5 kTypeDeletion, []), (InternalKey [97] 3 kTypeValue, [7]), (InternalKey [98] 4 kTypeValue, [8]),
     (InternalKey [98] 2 kTypeValue, [9])]"


text \<open>What a snapshot at \<open>4\<close> sees of a key that is deleted at \<open>5\<close> and of one that is overwritten at \<open>4\<close>.\<close>

lemma sample_keys: "\<forall>e\<in>set sample_block. length (fst e) = 9 \<and> ParseInternalKey (fst e) \<noteq> None"
  by (simp add: sample_block_def InternalKey_def ParsedInternalKey_def ParseInternalKey_Append kMaxSequenceNumber_def
      kTypeDeletion_def kTypeValue_def) (simp add: AppendInternalKey_def)

lemma sample_sorted: "sorted_wrt (key_less (ikey_Compare BytewiseComparator)) sample_block"
  unfolding sample_block_def by code_simp

lemma sample_small: "length (build_block 2 sample_block) < 2 ^ 32"
proof -
  have "length (build_block 2 sample_block) < 100" unfolding sample_block_def by code_simp
  then show ?thesis by (rule less_trans) simp
qed

lemma sample_newest: "newest_value 4 sample_block [97] = Some [7] \<and> newest_value 4 sample_block [98] = Some [8]"
  unfolding sample_block_def by code_simp

theorem db_iterator_contract_witness:
  "\<exists>view at'. sorted_wrt (key_less Bytewise_Compare) view \<and> map_of view [97] = Some [7] \<and> map_of view [98] = Some [8]
    \<and> iterator_contract (db_iter_ops (block_iterator_ops (ikey_Compare BytewiseComparator)) BytewiseComparator) (\<lambda>_. True)
        Bytewise_Compare view at'
    \<and> at' (DBIter_new (Block_NewIterator (Block_new (build_block 2 sample_block))) 4 301) (length view)"
proof -
  have keys: "\<forall>e\<in>set sample_block. length (fst e) < 2 ^ 32 \<and> 8 \<le> length (fst e)" using sample_keys by fastforce
  obtain at where at: "iterator_contract (block_iterator_ops (ikey_Compare BytewiseComparator)) (\<lambda>k. 8 \<le> length k)
        (ikey_Compare BytewiseComparator) sample_block at"
    "at (Block_NewIterator (Block_new (build_block 2 sample_block))) (length sample_block)"
    using built_block_contract [OF bytewise_user.ikey.compare_order_axioms _ sample_small keys sample_sorted] by fastforce
  have s: "(4 :: u64) \<le> kMaxSequenceNumber" by (simp add: kMaxSequenceNumber_def)
  have parsed: "\<forall>e\<in>set sample_block. ParseInternalKey (fst e) \<noteq> None" using sample_keys by blast
  have cmp: "cmp_Compare BytewiseComparator = Bytewise_Compare" by (simp add: BytewiseComparator_def)
  obtain view at' where v: "sorted_wrt (key_less Bytewise_Compare) view" "map_of view = newest_value 4 sample_block"
    "iterator_contract (db_iter_ops (block_iterator_ops (ikey_Compare BytewiseComparator)) BytewiseComparator) (\<lambda>_. True)
        Bytewise_Compare view at'"
    "at' (DBIter_new (Block_NewIterator (Block_new (build_block 2 sample_block))) 4 301) (length view)"
    using db_iterator_contract [OF bytewise_user.user_comparator_axioms at parsed sample_sorted s, of 301] unfolding cmp by blast
  show ?thesis by (rule exI [of _ view], rule exI [of _ at'], intro conjI v) (simp_all only: v(2) sample_newest)
qed

end
