(* ===== verification/Ldb_Format.thy ===== *)
theory Ldb_Format
  imports Ldb_Env Ldb_Block
begin

text \<open>
  The parts of a table file (\<^verbatim>\<open>table/format.h\<close>, \<^verbatim>\<open>table/format.cc\<close>): handles of blocks, the footer, and the
  reading of a block with its trailer. \<open>None\<close> is a failed assertion or a read outside a buffer.
\<close>

section \<open>Handles and footers\<close>

record block_handle =
  bh_offset :: u64
  bh_size :: u64

definition BlockHandle_new :: block_handle where
  "BlockHandle_new = \<lparr>bh_offset = NOT 0, bh_size = NOT 0\<rparr>"

definition kMaxEncodedLength :: nat where "kMaxEncodedLength = 10 + 10"
definition kEncodedLength :: nat where "kEncodedLength = 2 * kMaxEncodedLength + 8"
definition kTableMagicNumber :: u64 where "kTableMagicNumber = 0xdb4775248b80fb57"
definition kBlockTrailerSize :: u64 where "kBlockTrailerSize = 5"

definition BlockHandle_EncodeTo :: "block_handle \<Rightarrow> slice \<Rightarrow> slice option" where
  "BlockHandle_EncodeTo h dst =
     (if bh_offset h = NOT 0 \<or> bh_size h = NOT 0 then None else Some (PutVarint64 (PutVarint64 dst (bh_offset h)) (bh_size h)))"

text \<open>A number that cannot be read leaves its member and the input as they are.\<close>

definition BlockHandle_DecodeFrom :: "slice \<Rightarrow> block_handle \<Rightarrow> status \<times> block_handle \<times> slice" where
  "BlockHandle_DecodeFrom input h =
     (case GetVarint64 input of
        None \<Rightarrow> (Status_Corruption (str ''bad block handle'') [], h, input)
      | Some (offset, input1) \<Rightarrow>
          (case GetVarint64 input1 of
             None \<Rightarrow> (Status_Corruption (str ''bad block handle'') [], h\<lparr>bh_offset := offset\<rparr>, input1)
           | Some (sz, input2) \<Rightarrow> (Status_OK, \<lparr>bh_offset = offset, bh_size = sz\<rparr>, input2)))"

record footer =
  ft_metaindex_handle :: block_handle
  ft_index_handle :: block_handle

definition Footer_new :: footer where
  "Footer_new = \<lparr>ft_metaindex_handle = BlockHandle_new, ft_index_handle = BlockHandle_new\<rparr>"

text \<open>\<^verbatim>\<open>string::resize\<close> cuts the string off or fills it with zeros.\<close>

definition resize :: "nat \<Rightarrow> slice \<Rightarrow> slice" where
  "resize n s = take n s @ replicate (n - length s) 0"

definition Footer_EncodeTo :: "footer \<Rightarrow> slice \<Rightarrow> slice option" where
  "Footer_EncodeTo f dst = do {
     d1 \<leftarrow> BlockHandle_EncodeTo (ft_metaindex_handle f) dst;
     d2 \<leftarrow> BlockHandle_EncodeTo (ft_index_handle f) d1;
     let d3 = resize (2 * kMaxEncodedLength) d2;
         d4 = PutFixed32 (PutFixed32 d3 (ucast (kTableMagicNumber AND 0xffffffff))) (ucast (drop_bit 32 kTableMagicNumber))
     in if length d4 = length dst + kEncodedLength then Some d4 else None
   }"

definition Footer_DecodeFrom :: "slice \<Rightarrow> footer \<Rightarrow> (status \<times> footer \<times> slice) option" where
  "Footer_DecodeFrom input f =
     (if length input < kEncodedLength then None
      else let magic_ptr = drop (kEncodedLength - 8) input;
               magic_lo = DecodeFixed32 magic_ptr; magic_hi = DecodeFixed32 (drop 4 magic_ptr);
               magic = push_bit 32 (ucast magic_hi) OR ucast magic_lo :: u64
        in if magic \<noteq> kTableMagicNumber then Some (Status_Corruption (str ''not an sstable (bad magic number)'') [], f, input)
           else let (s1, mh, i1) = BlockHandle_DecodeFrom input (ft_metaindex_handle f); f1 = f\<lparr>ft_metaindex_handle := mh\<rparr> in
             if \<not> status_ok s1 then Some (s1, f1, i1)
             else let (s2, ih, i2) = BlockHandle_DecodeFrom i1 (ft_index_handle f1); f2 = f1\<lparr>ft_index_handle := ih\<rparr> in
               Some (s2, f2, if status_ok s2 then drop 8 magic_ptr else i2))"

section \<open>Reading a block\<close>

text \<open>\<^verbatim>\<open>port::Snappy\<close>: the functions that compress and uncompress, and those of a build without the library.\<close>

record snappy_ops =
  sn_Compress :: "slice \<Rightarrow> slice option"
  sn_GetUncompressedLength :: "slice \<Rightarrow> nat option"
  sn_Uncompress :: "slice \<Rightarrow> slice option"

definition no_snappy :: snappy_ops where
  "no_snappy = \<lparr>sn_Compress = \<lambda>_. None, sn_GetUncompressedLength = \<lambda>_. None, sn_Uncompress = \<lambda>_. None\<rparr>"

definition kNoCompression :: u8 where "kNoCompression = 0"
definition kSnappyCompression :: u8 where "kSnappyCompression = 1"

text \<open>
  \<^verbatim>\<open>RandomAccessFile::Read\<close> of an offset and a number of bytes: the status, the bytes, and whether they are in the caller's buffer.
\<close>

type_synonym random_access_file = "u64 \<Rightarrow> u64 \<Rightarrow> status \<times> slice \<times> bool"

record block_contents =
  bc_data :: slice
  bc_cachable :: bool
  bc_heap_allocated :: bool

definition no_contents :: block_contents where
  "no_contents = \<lparr>bc_data = [], bc_cachable = False, bc_heap_allocated = False\<rparr>"

text \<open>
  The sum of the size and the trailer is one of 64 bits; where it wraps, the bytes that the code looks at are not in the buffer.
\<close>

definition ReadBlock :: "snappy_ops \<Rightarrow> random_access_file \<Rightarrow> bool \<Rightarrow> block_handle \<Rightarrow> (status \<times> block_contents) option" where
  "ReadBlock sn rfile verify_checksums h =
     (let n = bh_size h; (s, data, in_buf) = rfile (bh_offset h) (n + kBlockTrailerSize) in
      if \<not> status_ok s then Some (s, no_contents)
      else if length data \<noteq> unat (n + kBlockTrailerSize) then Some (Status_Corruption (str ''truncated block read'') [], no_contents)
      else if length data < unat n + unat kBlockTrailerSize then None
      else let n = unat n in
        if verify_checksums \<and> crc_Value 0 (take (n + 1) data) \<noteq> crc_Unmask (DecodeFixed32 (drop (n + 1) data))
        then Some (Status_Corruption (str ''block checksum mismatch'') [], no_contents)
        else if data ! n = kNoCompression then Some (Status_OK, \<lparr>bc_data = take n data, bc_cachable = in_buf, bc_heap_allocated = in_buf\<rparr>)
        else if data ! n = kSnappyCompression then
          (case sn_GetUncompressedLength sn (take n data) of
             None \<Rightarrow> Some (Status_Corruption (str ''corrupted compressed block contents'') [], no_contents)
           | Some ulength \<Rightarrow>
               (case sn_Uncompress sn (take n data) of
                  None \<Rightarrow> Some (Status_Corruption (str ''corrupted compressed block contents'') [], no_contents)
                | Some ubuf \<Rightarrow> Some (Status_OK, \<lparr>bc_data = take ulength ubuf, bc_cachable = True, bc_heap_allocated = True\<rparr>)))
        else Some (Status_Corruption (str ''bad block type'') [], no_contents))"

section \<open>What they rely on\<close>

text \<open>A file whose reads inside its contents succeed.\<close>

locale random_access =
  fixes rfile :: random_access_file and bytes :: slice
  assumes read: "length bytes < 2 ^ 64 \<Longrightarrow> unat off + unat n \<le> length bytes \<Longrightarrow>
      \<exists>in_buf. rfile off n = (Status_OK, take (unat n) (drop (unat off) bytes), in_buf)"

text \<open>The files of \<^verbatim>\<open>PosixEnv\<close>: by \<^verbatim>\<open>pread\<close> from a file with these bytes, and from a mapped region.\<close>

definition pread_bytes :: "slice \<Rightarrow> int \<Rightarrow> u64 \<Rightarrow> nat \<Rightarrow> slice option" where
  "pread_bytes bytes fd off n = Some (take n (drop (unat off) bytes))"

definition posix_random_file :: "slice \<Rightarrow> slice \<Rightarrow> random_access_file" where
  "posix_random_file filename bytes off n =
     (let (s, r) = PosixRandomAccessFile_Read filename [] False (\<lambda>_. 0) (pread_bytes bytes) 0 off (unat n)
      in (s, case r of None \<Rightarrow> [] | Some bs \<Rightarrow> bs, True))"

definition posix_mmap_file :: "slice \<Rightarrow> slice \<Rightarrow> random_access_file" where
  "posix_mmap_file filename region off n =
     (let (s, o', n') = PosixMmapReadableFile_Read filename (of_nat (length region)) off n
      in (s, take (unat n') (drop (unat o') region), False))"

interpretation pread_file: random_access "posix_random_file filename bytes" bytes for filename bytes
  by unfold_locales (auto simp: posix_random_file_def PosixRandomAccessFile_Read_def pread_bytes_def)

interpretation mmap_file: random_access "posix_mmap_file filename region" region for filename region
proof
  fix off n :: u64
  assume "length region < 2 ^ 64" and le: "unat off + unat n \<le> length region"
  then have "unat (of_nat (length region) :: u64) = length region" "unat (off + n) = unat off + unat n"
    by (simp_all add: unsigned_of_nat take_bit_nat_eq_self unat_word_ariths)
  then have "\<not> off + n > of_nat (length region)" using le by (simp add: word_less_nat_alt)
  then show "\<exists>in_buf. posix_mmap_file filename region off n = (Status_OK, take (unat n) (drop (unat off) region), in_buf)"
    by (auto simp: posix_mmap_file_def PosixMmapReadableFile_Read_def)
qed

text \<open>What was compressed can be uncompressed; the format of snappy has a length of 32 bits.\<close>

locale snappy =
  fixes sn :: snappy_ops
  assumes uncompress: "sn_Compress sn raw = Some c \<Longrightarrow>
      sn_Uncompress sn c = Some raw \<and> sn_GetUncompressedLength sn c = Some (length raw)"
    and compress_limit: "sn_Compress sn raw = Some c \<Longrightarrow> length raw < 2 ^ 32"

interpretation without_snappy: snappy no_snappy
  by unfold_locales (simp_all add: no_snappy_def)

section \<open>Round trips\<close>

lemma BlockHandle_roundtrip:
  "BlockHandle_EncodeTo h [] = Some e \<Longrightarrow> BlockHandle_DecodeFrom (e @ rest) h0 = (Status_OK, h, rest)"
  by (cases h) (auto simp: BlockHandle_EncodeTo_def BlockHandle_DecodeFrom_def PutVarint64_def GetVarint64_Encode split: if_splits)

lemma BlockHandle_length: "BlockHandle_EncodeTo h [] = Some e \<Longrightarrow> length e \<le> kMaxEncodedLength"
  using varint_bytes_le_10 [of "bh_offset h"] varint_bytes_le_10 [of "bh_size h"]
  by (auto simp: BlockHandle_EncodeTo_def PutVarint64_def EncodeVarint64_bytes kMaxEncodedLength_def split: if_splits)

lemma BlockHandle_append: "BlockHandle_EncodeTo h dst = map_option ((@) dst) (BlockHandle_EncodeTo h [])"
  by (simp add: BlockHandle_EncodeTo_def PutVarint64_def)

lemma Footer_encoding:
  assumes "BlockHandle_EncodeTo (ft_metaindex_handle f) [] = Some m" and "BlockHandle_EncodeTo (ft_index_handle f) [] = Some i"
  shows "Footer_EncodeTo f [] = Some (m @ i @ replicate (40 - (length m + length i)) 0
    @ EncodeFixed32 (ucast (kTableMagicNumber AND 0xffffffff)) @ EncodeFixed32 (ucast (drop_bit 32 kTableMagicNumber)))"
proof -
  have "length m + length i \<le> 40" using BlockHandle_length [OF assms(1)] BlockHandle_length [OF assms(2)] by (simp add: kMaxEncodedLength_def)
  then show ?thesis
    using assms by (simp add: Footer_EncodeTo_def BlockHandle_append [of _ m] resize_def kMaxEncodedLength_def kEncodedLength_def
        PutFixed32_def Let_def)
qed

lemma Footer_roundtrip:
  assumes "Footer_EncodeTo f [] = Some e"
  shows "length e = kEncodedLength" and "Footer_DecodeFrom (e @ rest) f0 = Some (Status_OK, f, rest)"
proof -
  obtain m i where mi: "BlockHandle_EncodeTo (ft_metaindex_handle f) [] = Some m" "BlockHandle_EncodeTo (ft_index_handle f) [] = Some i"
    using assms by (auto simp: Footer_EncodeTo_def BlockHandle_append [of _ "_ # _"] BlockHandle_EncodeTo_def split: bind_splits if_splits)
  define pad where "pad = replicate (40 - (length m + length i)) (0 :: u8)"
  define magic :: slice where "magic = EncodeFixed32 (ucast (kTableMagicNumber AND 0xffffffff)) @ EncodeFixed32 (ucast (drop_bit 32 kTableMagicNumber))"
  have e: "e = m @ i @ pad @ magic" using Footer_encoding [OF mi] assms by (simp add: pad_def magic_def)
  have l: "length (m @ i @ pad) = 40"
    using BlockHandle_length [OF mi(1)] BlockHandle_length [OF mi(2)] by (simp add: kMaxEncodedLength_def pad_def)
  then show len: "length e = kEncodedLength" by (simp add: e magic_def kEncodedLength_def kMaxEncodedLength_def)
  have "drop 40 (e @ rest) = magic @ rest" using l by (simp add: e)
  moreover have "push_bit 32 (ucast (ucast (drop_bit 32 kTableMagicNumber) :: u32)) OR ucast (ucast (kTableMagicNumber AND 0xffffffff) :: u32)
      = kTableMagicNumber" by (simp add: kTableMagicNumber_def)
  ultimately show "Footer_DecodeFrom (e @ rest) f0 = Some (Status_OK, f, rest)"
    using BlockHandle_roundtrip [OF mi(1), of "i @ pad @ magic @ rest"] BlockHandle_roundtrip [OF mi(2), of "pad @ magic @ rest"] len
    by (simp add: Footer_DecodeFrom_def kEncodedLength_def kMaxEncodedLength_def Let_def magic_def DecodeFixed32_Encode e)
qed

text \<open>The bytes of a block in a file.\<close>

definition raw_block :: "slice \<Rightarrow> u8 \<Rightarrow> slice" where
  "raw_block contents t = contents @ t # EncodeFixed32 (crc_Mask (crc_Extend 0 (crc_Value 0 contents) [t]))"

lemma length_raw_block [simp]: "length (raw_block contents t) = length contents + 5"
  by (simp add: raw_block_def)

context random_access
begin

lemma ReadBlock_raw:
  assumes "bytes = pre @ raw_block contents t @ post" and "length bytes < 2 ^ 64"
    and "bh_offset h = of_nat (length pre)" and "bh_size h = of_nat (length contents)"
  shows "\<exists>in_buf. ReadBlock sn rfile verify h =
    (if t = kNoCompression then Some (Status_OK, \<lparr>bc_data = contents, bc_cachable = in_buf, bc_heap_allocated = in_buf\<rparr>)
     else if t = kSnappyCompression then
       (case (sn_GetUncompressedLength sn contents, sn_Uncompress sn contents) of
          (Some ulength, Some ubuf) \<Rightarrow> Some (Status_OK, \<lparr>bc_data = take ulength ubuf, bc_cachable = True, bc_heap_allocated = True\<rparr>)
        | _ \<Rightarrow> Some (Status_Corruption (str ''corrupted compressed block contents'') [], no_contents))
     else Some (Status_Corruption (str ''bad block type'') [], no_contents))"
proof -
  have l: "length pre + (length contents + 5) \<le> length bytes" using assms(1) by simp
  then have u: "unat (bh_offset h) = length pre" "unat (bh_size h) = length contents"
    "unat (bh_size h + kBlockTrailerSize) = length contents + 5"
    using assms(2-4) by (simp_all add: unsigned_of_nat take_bit_nat_eq_self unat_word_ariths kBlockTrailerSize_def)
  then obtain in_buf where r: "rfile (bh_offset h) (bh_size h + kBlockTrailerSize) = (Status_OK, raw_block contents t, in_buf)"
    using read [OF assms(2), of "bh_offset h" "bh_size h + kBlockTrailerSize"] l assms(1) by auto
  have "crc_Value 0 (take (length contents + 1) (raw_block contents t)) = crc_Unmask (DecodeFixed32 (drop (length contents + 1) (raw_block contents t)))"
    using crc_Extend_append [of 0 0 contents "[t]" 0 0] DecodeFixed32_Encode [of _ "[]"]
    by (simp add: raw_block_def crc_Value_def)
  then show ?thesis using r u
    by (intro exI [of _ in_buf])
      (auto simp: ReadBlock_def Let_def kBlockTrailerSize_def raw_block_def nth_append kNoCompression_def kSnappyCompression_def split: option.splits)
qed

end

text \<open>
  A damaged handle whose size is within five of \<open>2^64\<close>: the read of the wrapped number of bytes succeeds and has the expected
  length, and the code goes on to look at bytes outside the buffer.
\<close>
lemma ReadBlock_size_wraps:
  "ReadBlock sn (posix_random_file filename bytes) verify \<lparr>bh_offset = 0, bh_size = 0xFFFFFFFFFFFFFFFB\<rparr> = None"
  by (simp add: ReadBlock_def posix_random_file_def PosixRandomAccessFile_Read_def pread_bytes_def kBlockTrailerSize_def Let_def)

end
