(* ===== verification/Ldb_FilterBlock.thy ===== *)
theory Ldb_FilterBlock
  imports Ldb_Dbformat Ldb_Block_Build
begin

text \<open>
  Filter blocks of tables (\<^verbatim>\<open>table/filter_block.h\<close>, \<^verbatim>\<open>table/filter_block.cc\<close>): one filter for every 2 KiB of the file,
  created from the keys of the data blocks that start there. A shift by 64 or more places, which C++ leaves undefined, and
  a failed assertion are the result \<open>None\<close>.
\<close>

section \<open>The builder\<close>

definition kFilterBaseLg :: nat where "kFilterBaseLg = 11"
definition kFilterBase :: u64 where "kFilterBase = 2 ^ kFilterBaseLg"

record filter_builder =
  fb_keys :: slice
  fb_start :: "nat list"
  fb_result :: slice
  fb_tmp_keys :: "slice list"
  fb_offsets :: "u32 list"

definition FilterBlockBuilder_new :: filter_builder where
  "FilterBlockBuilder_new = \<lparr>fb_keys = [], fb_start = [], fb_result = [], fb_tmp_keys = [], fb_offsets = []\<rparr>"

text \<open>
  The number of keys is passed to the policy as an \<^verbatim>\<open>int\<close>; it is the length of the list here, which is the same
  below \<open>2^31\<close> keys in one filter.
\<close>

definition GenerateFilter :: "filter_policy_ops \<Rightarrow> filter_builder \<Rightarrow> filter_builder" where
  "GenerateFilter p b =
     (let num_keys = length (fb_start b) in
      if num_keys = 0 then b\<lparr>fb_offsets := fb_offsets b @ [of_nat (length (fb_result b))]\<rparr>
      else let start = fb_start b @ [length (fb_keys b)];
               tmp_keys = map (\<lambda>i. take (start ! (i + 1) - start ! i) (drop (start ! i) (fb_keys b))) [0..<num_keys];
               offsets = fb_offsets b @ [of_nat (length (fb_result b))];
               (tmp_keys', result) = fp_CreateFilter p tmp_keys (fb_result b)
        in b\<lparr>fb_keys := [], fb_start := [], fb_result := result, fb_tmp_keys := [], fb_offsets := offsets\<rparr>)"

lemma GenerateFilter_offsets [simp]: "length (fb_offsets (GenerateFilter p b)) = Suc (length (fb_offsets b))"
  by (simp add: GenerateFilter_def Let_def split: prod.splits)

text \<open>The loop that generates filters until there are as many as asked for.\<close>

function generate_until :: "filter_policy_ops \<Rightarrow> nat \<Rightarrow> filter_builder \<Rightarrow> filter_builder" where
  "generate_until p filter_index b =
     (if filter_index > length (fb_offsets b) then generate_until p filter_index (GenerateFilter p b) else b)"
  by pat_completeness auto
termination by (relation "measure (\<lambda>(p, filter_index, b). filter_index - length (fb_offsets b))") auto

declare generate_until.simps [simp del]

definition StartBlock :: "filter_policy_ops \<Rightarrow> u64 \<Rightarrow> filter_builder \<Rightarrow> filter_builder option" where
  "StartBlock p block_offset b =
     (let filter_index = unat (block_offset div kFilterBase) in
      if filter_index < length (fb_offsets b) then None else Some (generate_until p filter_index b))"

definition AddKey :: "slice \<Rightarrow> filter_builder \<Rightarrow> filter_builder" where
  "AddKey key b = b\<lparr>fb_start := fb_start b @ [length (fb_keys b)], fb_keys := fb_keys b @ key\<rparr>"

definition FilterBlock_Finish :: "filter_policy_ops \<Rightarrow> filter_builder \<Rightarrow> slice \<times> filter_builder" where
  "FilterBlock_Finish p b =
     (let b1 = (if fb_start b \<noteq> [] then GenerateFilter p b else b);
          array_offset = of_nat (length (fb_result b1));
          result = PutFixed32 (foldl PutFixed32 (fb_result b1) (fb_offsets b1)) array_offset @ [of_nat kFilterBaseLg]
      in (result, b1\<lparr>fb_result := result\<rparr>))"

section \<open>The reader\<close>

text \<open>\<^verbatim>\<open>offset_\<close> is its distance from \<^verbatim>\<open>data_\<close>; the byte for \<^verbatim>\<open>base_lg_\<close> is a \<^verbatim>\<open>char\<close>, which is widened with its sign.\<close>

record filter_reader =
  fr_data :: slice
  fr_offset :: nat
  fr_num :: nat
  fr_base_lg :: u64

definition FilterBlockReader_new :: "slice \<Rightarrow> filter_reader" where
  "FilterBlockReader_new contents =
     (let n = length contents in
      if n < 5 then \<lparr>fr_data = [], fr_offset = 0, fr_num = 0, fr_base_lg = 0\<rparr>
      else let base_lg = scast (contents ! (n - 1)); last_word = unat (DecodeFixed32 (drop (n - 5) contents)) in
        if last_word > n - 5 then \<lparr>fr_data = [], fr_offset = 0, fr_num = 0, fr_base_lg = base_lg\<rparr>
        else \<lparr>fr_data = contents, fr_offset = last_word, fr_num = (n - 5 - last_word) div 4, fr_base_lg = base_lg\<rparr>)"

definition FilterBlock_KeyMayMatch :: "filter_policy_ops \<Rightarrow> u64 \<Rightarrow> slice \<Rightarrow> filter_reader \<Rightarrow> bool option" where
  "FilterBlock_KeyMayMatch p block_offset key r =
     (if fr_base_lg r \<ge> 64 then None
      else let index = unat (drop_bit (unat (fr_base_lg r)) block_offset) in
        if index < fr_num r then
          let start = DecodeFixed32 (drop (fr_offset r + index * 4) (fr_data r));
              limit = DecodeFixed32 (drop (fr_offset r + index * 4 + 4) (fr_data r))
          in if start \<le> limit \<and> unat limit \<le> fr_offset r
             then Some (fp_KeyMayMatch p key (take (unat (limit - start)) (drop (unat start) (fr_data r))))
             else if start = limit then Some False else Some True
        else Some True)"

section \<open>What a builder holds\<close>

text \<open>A policy appends its filters to the string it is given, as \<^verbatim>\<open>filter_policy.h\<close> asks for.\<close>

locale appending_filter_policy = filter_policy +
  assumes appends: "take (length dst) (snd (fp_CreateFilter p keys dst)) = dst"
begin

lemma appended: "\<exists>f. snd (fp_CreateFilter p keys dst) = dst @ f"
  using appends [of dst keys] by (metis append_take_drop_id)

end

locale appending_user_policy = appending_filter_policy

sublocale appending_user_policy \<subseteq> user_filter_policy
  by unfold_locales

sublocale appending_user_policy \<subseteq> internal_append: appending_filter_policy handles "InternalFilterPolicy p"
proof
  show "take (length dst) (snd (fp_CreateFilter (InternalFilterPolicy p) keys dst)) = dst" for dst keys
    using appends [of dst "map ExtractUserKey keys"] by (simp add: InternalFilterPolicy_def ifp_CreateFilter_def)
qed

interpretation bloom_append: appending_user_policy "\<lambda>n. n * unat bits_per_key + 7 < 2 ^ 64"
    "bloom_policy_ops (BloomFilterPolicy bits_per_key product)"
  for bits_per_key product
  by unfold_locales (simp add: bloom_policy_ops_def CreateFilter_def Let_def)

text \<open>The filter of a group of keys, created behind what there is already.\<close>

definition filter_of :: "filter_policy_ops \<Rightarrow> slice list \<Rightarrow> slice \<Rightarrow> slice" where
  "filter_of p keys dst = (if keys = [] then [] else drop (length dst) (snd (fp_CreateFilter p keys dst)))"

fun filters_of :: "filter_policy_ops \<Rightarrow> slice list list \<Rightarrow> slice \<Rightarrow> slice" where
  "filters_of p [] dst = dst"
| "filters_of p (g # gs) dst = filters_of p gs (dst @ filter_of p g dst)"

definition group_start :: "filter_policy_ops \<Rightarrow> slice list list \<Rightarrow> nat \<Rightarrow> nat" where
  "group_start p gs i = length (filters_of p (take i gs) [])"

text \<open>The builder has made filters for the groups of keys \<open>gs\<close> and collects the keys \<open>ks\<close>.\<close>

definition fb_holds :: "filter_policy_ops \<Rightarrow> slice list list \<Rightarrow> slice list \<Rightarrow> filter_builder \<Rightarrow> bool" where
  "fb_holds p gs ks b \<longleftrightarrow>
     fb_keys b = concat ks \<and> fb_start b = map (\<lambda>i. length (concat (take i ks))) [0..<length ks]
     \<and> fb_result b = filters_of p gs [] \<and> fb_offsets b = map (\<lambda>i. of_nat (group_start p gs i)) [0..<length gs]"

lemma filters_of_snoc: "filters_of p (gs @ [g]) dst = filters_of p gs dst @ filter_of p g (filters_of p gs dst)"
  by (induction gs arbitrary: dst) simp_all

lemma filters_of_prefix: "\<exists>rest. filters_of p gs dst = dst @ rest"
  by (induction gs arbitrary: dst) (simp, metis append.assoc filters_of.simps(2))

lemma take_group: "i < length ks \<Longrightarrow> take (length (concat (take (Suc i) ks)) - length (concat (take i ks)))
    (drop (length (concat (take i ks))) (concat ks)) = ks ! i"
proof -
  assume i: "i < length ks"
  then have "concat ks = concat (take i ks) @ ks ! i @ concat (drop (Suc i) ks)"
    by (metis append_take_drop_id concat.simps(2) concat_append Cons_nth_drop_Suc)
  then have "drop (length (concat (take i ks))) (concat ks) = ks ! i @ concat (drop (Suc i) ks)" by simp
  moreover have "length (concat (take (Suc i) ks)) - length (concat (take i ks)) = length (ks ! i)"
    using i by (simp add: take_Suc_conv_app_nth)
  ultimately show ?thesis by simp
qed

lemma group_keys:
  assumes "start = map (\<lambda>i. length (concat (take i ks))) [0..<length ks] @ [length (concat ks)]"
  shows "map (\<lambda>i. take (start ! (i + 1) - start ! i) (drop (start ! i) (concat ks))) [0..<length ks] = ks"
proof -
  have "start ! j = length (concat (take j ks))" if "j \<le> length ks" for j
    using that assms by (cases "j = length ks") (simp_all add: nth_append)
  then show ?thesis by (intro nth_equalityI) (simp_all add: take_group)
qed

lemma fb_holds_new: "fb_holds p [] [] FilterBlockBuilder_new"
  by (simp add: fb_holds_def FilterBlockBuilder_new_def)

lemma fb_holds_AddKey: "fb_holds p gs ks b \<Longrightarrow> fb_holds p gs (ks @ [k]) (AddKey k b)"
  by (simp add: fb_holds_def AddKey_def)

context appending_filter_policy
begin

lemma fb_holds_Generate:
  assumes "fb_holds p gs ks b"
  shows "fb_holds p (gs @ [ks]) [] (GenerateFilter p b)"
proof -
  have offs: "map (\<lambda>i. of_nat (group_start p (gs @ [ks]) i) :: u32) [0..<length (gs @ [ks])]
      = map (\<lambda>i. of_nat (group_start p gs i)) [0..<length gs] @ [of_nat (length (filters_of p gs []))]"
    by (simp add: group_start_def)
  show ?thesis
  proof (cases "ks = []")
    case True
    with assms offs show ?thesis by (simp add: fb_holds_def GenerateFilter_def filters_of_snoc filter_of_def)
  next
    case False
    obtain f where f: "snd (fp_CreateFilter p ks (filters_of p gs [])) = filters_of p gs [] @ f" using appended by blast
    obtain t r where c: "fp_CreateFilter p ks (filters_of p gs []) = (t, r)" by fastforce
    with f have "filters_of p (gs @ [ks]) [] = r" using False by (simp add: filters_of_snoc filter_of_def)
    with assms offs False c group_keys [OF refl, of ks] show ?thesis by (simp add: fb_holds_def GenerateFilter_def Let_def)
  qed
qed

end

text \<open>A key is in the group with a number, which may be the group that is being collected.\<close>

definition in_group :: "slice list list \<Rightarrow> slice list \<Rightarrow> nat \<Rightarrow> slice \<Rightarrow> bool" where
  "in_group gs ks i k \<longleftrightarrow> i \<le> length gs \<and> k \<in> set ((gs @ [ks]) ! i)"

lemma in_group_AddKey: "in_group gs ks i k \<Longrightarrow> in_group gs (ks @ [k']) i k" "in_group gs (ks @ [k]) (length gs) k"
  by (auto simp: in_group_def nth_append)

context appending_filter_policy
begin

lemma group_start_mono: "i \<le> j \<Longrightarrow> group_start p gs i \<le> group_start p gs j"
proof -
  assume "i \<le> j"
  then have "take j gs = take i gs @ take (j - i) (drop i gs)" by (metis le_add_diff_inverse take_add)
  moreover have "filters_of p (as @ bs) dst = filters_of p bs (filters_of p as dst)" for as bs dst
    by (induction as arbitrary: dst) simp_all
  ultimately show ?thesis
    using filters_of_prefix [of p "take (j - i) (drop i gs)" "filters_of p (take i gs) []"] by (auto simp: group_start_def)
qed

lemma filters_of_nth:
  assumes "i < length gs"
  shows "take (group_start p gs (Suc i) - group_start p gs i) (drop (group_start p gs i) (filters_of p gs [] @ rest))
    = filter_of p (gs ! i) (filters_of p (take i gs) [])"
proof -
  have "gs = take i gs @ gs ! i # drop (Suc i) gs" using assms by (rule id_take_nth_drop)
  moreover have "filters_of p (as @ bs) dst = filters_of p bs (filters_of p as dst)" for as bs dst
    by (induction as arbitrary: dst) simp_all
  ultimately have e: "filters_of p gs [] = filters_of p (drop (Suc i) gs)
      (filters_of p (take i gs) [] @ filter_of p (gs ! i) (filters_of p (take i gs) []))"
    by (metis filters_of.simps(2))
  obtain r where "filters_of p (drop (Suc i) gs) (filters_of p (take i gs) [] @ filter_of p (gs ! i) (filters_of p (take i gs) []))
      = (filters_of p (take i gs) [] @ filter_of p (gs ! i) (filters_of p (take i gs) [])) @ r" using filters_of_prefix by blast
  with e have e': "filters_of p gs [] = filters_of p (take i gs) [] @ filter_of p (gs ! i) (filters_of p (take i gs) []) @ r" by simp
  have "group_start p gs (Suc i) = group_start p gs i + length (filter_of p (gs ! i) (filters_of p (take i gs) []))"
    using assms by (simp add: group_start_def take_Suc_conv_app_nth filters_of_snoc)
  then show ?thesis unfolding e' by (simp add: group_start_def)
qed

lemma finished_match:
  assumes "handles (length (gs ! i))" and "i < length gs" and "k \<in> set (gs ! i)"
    and "length (filters_of p gs []) < 2 ^ 32" and "unat (off div kFilterBase) = i"
    and contents: "contents = PutFixed32 (foldl PutFixed32 (filters_of p gs []) (map (\<lambda>i. of_nat (group_start p gs i)) [0..<length gs]))
      (of_nat (length (filters_of p gs []))) @ [of_nat kFilterBaseLg]"
  shows "FilterBlock_KeyMayMatch p off k (FilterBlockReader_new contents) = Some True"
proof -
  define R where "R = filters_of p gs []"
  define starts :: "u32 list" where "starts = map (\<lambda>i. of_nat (group_start p gs i)) [0..<Suc (length gs)]"
  have R: "group_start p gs (length gs) = length R" "length R < 2 ^ 32" using assms(4) by (simp_all add: group_start_def R_def)
  have c: "contents = R @ concat (map EncodeFixed32 starts) @ [11]"
    using R(1) by (simp add: contents foldl_PutFixed32 PutFixed32_def starts_def R_def kFilterBaseLg_def)
  have "length (concat (map EncodeFixed32 starts)) = 4 * Suc (length gs)" unfolding length_concat_fixed32 by (simp add: starts_def)
  then have n: "length contents = length R + 4 * length gs + 5" unfolding c by simp
  have dec: "DecodeFixed32 (drop (length R + j * 4) contents) = of_nat (group_start p gs j)" if "j \<le> length gs" for j
    using that DecodeFixed32_nth [of j starts "[11]"] by (simp add: c starts_def nth_append del: upt_Suc)
  have last: "DecodeFixed32 (drop (length contents - 5) contents) = of_nat (length R)"
    using dec [of "length gs"] R(1) n by (simp add: mult.commute)
  have "contents ! (length contents - 1) = 11" unfolding c by (simp add: nth_append)
  then have r: "FilterBlockReader_new contents = \<lparr>fr_data = contents, fr_offset = length R, fr_num = length gs, fr_base_lg = 11\<rparr>"
    using n last R(2) by (simp add: FilterBlockReader_new_def Let_def take_bit_nat_eq_self unsigned_of_nat)
  have "drop_bit 11 off = off div kFilterBase" by (simp add: drop_bit_eq_div kFilterBase_def kFilterBaseLg_def)
  then have index: "unat (drop_bit 11 off) = i" using assms(5) by simp
  have bounds: "group_start p gs i \<le> group_start p gs (Suc i)" "group_start p gs (Suc i) \<le> length R"
    using group_start_mono [of i "Suc i" gs] group_start_mono [of "Suc i" "length gs" gs] assms(2) R(1) by simp_all
  then have small: "group_start p gs i < 2 ^ 32" "group_start p gs (Suc i) < 2 ^ 32" using R(2) by auto
  define start limit :: u32 where "start = of_nat (group_start p gs i)" and "limit = of_nat (group_start p gs (Suc i))"
  have sl: "unat start = group_start p gs i" "unat limit = group_start p gs (Suc i)"
    using small by (simp_all add: start_def limit_def unsigned_of_nat take_bit_nat_eq_self)
  then have le: "start \<le> limit" using bounds(1) by (simp add: word_le_nat_alt)
  have d: "DecodeFixed32 (drop (length R + i * 4) contents) = start" "DecodeFixed32 (drop (length R + i * 4 + 4) contents) = limit"
    using dec [of i] dec [of "Suc i"] assms(2) by (simp_all add: start_def limit_def add.commute add.left_commute)
  have keys: "gs ! i \<noteq> []" using assms(3) by auto
  have f: "take (unat (limit - start)) (drop (unat start) contents) = filter_of p (gs ! i) (filters_of p (take i gs) [])"
    using filters_of_nth [OF assms(2), of "concat (map EncodeFixed32 starts) @ [11]"] sl le
    by (simp add: c R_def unat_sub)
  have "fp_KeyMayMatch p k (filter_of p (gs ! i) (filters_of p (take i gs) []))"
    using no_false_negatives [OF assms(1,3)] keys by (simp add: filter_of_def)
  then show ?thesis
    unfolding r using assms(2) index d le sl(2) bounds(2) f by (simp add: FilterBlock_KeyMayMatch_def Let_def)
qed

lemma Finish_match:
  assumes holds: "fb_holds p gs ks b" and handles: "\<And>n. n \<le> length (concat (gs @ [ks])) \<Longrightarrow> handles n"
    and "in_group gs ks i k" and "unat (off div kFilterBase) = i" and "length (fst (FilterBlock_Finish p b)) < 2 ^ 32"
  shows "FilterBlock_KeyMayMatch p off k (FilterBlockReader_new (fst (FilterBlock_Finish p b))) = Some True"
proof -
  define gs' where "gs' = (if ks = [] then gs else gs @ [ks])"
  define b' where "b' = (if fb_start b \<noteq> [] then GenerateFilter p b else b)"
  have h: "fb_holds p gs' [] b'"
    using holds fb_holds_Generate [OF holds] by (auto simp: gs'_def b'_def fb_holds_def)
  have i: "i < length gs'" "k \<in> set (gs' ! i)"
    using assms(3) by (auto simp: in_group_def gs'_def nth_append le_less split: if_splits)
  have "length (gs' ! i) \<le> length (concat (gs @ [ks]))"
    using i(1) member_le_sum_list [of "length (gs' ! i)" "map length gs'"] by (auto simp: gs'_def length_concat split: if_splits)
  then have hn: "handles (length (gs' ! i))" by (rule handles)
  have c: "fst (FilterBlock_Finish p b) = PutFixed32 (foldl PutFixed32 (filters_of p gs' []) (map (\<lambda>i. of_nat (group_start p gs' i)) [0..<length gs']))
      (of_nat (length (filters_of p gs' []))) @ [of_nat kFilterBaseLg]"
    using h by (simp add: FilterBlock_Finish_def Let_def b'_def [symmetric] fb_holds_def)
  have "length (filters_of p gs' []) \<le> length (fst (FilterBlock_Finish p b))" unfolding c by (simp add: foldl_PutFixed32 PutFixed32_def)
  then have "length (filters_of p gs' []) < 2 ^ 32" using assms(5) by simp
  from finished_match [OF hn i this assms(4) c] show ?thesis .
qed

text \<open>The keys of the groups are those that were added.\<close>

lemma StartBlock_keys:
  assumes "fb_holds p gs ks b" and "StartBlock p off b = Some b'"
  shows "\<exists>gs' ks'. fb_holds p gs' ks' b' \<and> length gs' = unat (off div kFilterBase) \<and> (\<forall>i k. in_group gs ks i k \<longrightarrow> in_group gs' ks' i k)
    \<and> length (concat (gs' @ [ks'])) = length (concat (gs @ [ks]))"
proof -
  have until: "\<exists>gs' ks'. fb_holds p gs' ks' (generate_until p n b) \<and> length gs' = n \<and> (\<forall>i k. in_group gs ks i k \<longrightarrow> in_group gs' ks' i k)
      \<and> length (concat (gs' @ [ks'])) = length (concat (gs @ [ks]))"
    if "fb_holds p gs ks b" "length gs \<le> n" for n gs ks b
    using that
  proof (induction "n - length gs" arbitrary: gs ks b)
    case 0
    then have "length gs = n" "length (fb_offsets b) = n" by (simp_all add: fb_holds_def)
    with 0 show ?case by (subst generate_until.simps) auto
  next
    case (Suc m)
    then have l: "length gs < n" "length (fb_offsets b) = length gs" by (simp_all add: fb_holds_def)
    have "m = n - length (gs @ [ks])" "length (gs @ [ks]) \<le> n" using Suc.hyps(2) l by simp_all
    note IH = Suc.hyps(1) [OF this(1) fb_holds_Generate [OF Suc.prems(1)] this(2)]
    have "in_group (gs @ [ks]) [] i k" if "in_group gs ks i k" for i k using that by (auto simp: in_group_def nth_append)
    moreover have "generate_until p n b = generate_until p n (GenerateFilter p b)" using l by (subst generate_until.simps) simp
    ultimately show ?case using IH by (simp only:) fastforce
  qed
  have "b' = generate_until p (unat (off div kFilterBase)) b" "length gs \<le> unat (off div kFilterBase)"
    using assms by (auto simp: StartBlock_def Let_def fb_holds_def split: if_splits)
  with until [OF assms(1)] show ?thesis by blast
qed

end

section \<open>No key is missed\<close>

text \<open>A sequence of calls: for every data block its offset and its keys.\<close>

fun fb_run :: "filter_policy_ops \<Rightarrow> (u64 \<times> slice list) list \<Rightarrow> filter_builder \<Rightarrow> filter_builder option" where
  "fb_run p [] b = Some b"
| "fb_run p ((off, keys) # blocks) b = do { b' \<leftarrow> StartBlock p off b; fb_run p blocks (foldl (\<lambda>b k. AddKey k b) b' keys) }"

context appending_filter_policy
begin

lemma fb_holds_AddKeys: "fb_holds p gs ks b \<Longrightarrow> fb_holds p gs (ks @ keys) (foldl (\<lambda>b k. AddKey k b) b keys)"
  by (induction keys arbitrary: ks b) (simp, use fb_holds_AddKey in fastforce)

lemma fb_run_holds:
  "fb_run p blocks b = Some b' \<Longrightarrow> fb_holds p gs ks b \<Longrightarrow>
   \<exists>gs' ks'. fb_holds p gs' ks' b' \<and> (\<forall>i k. in_group gs ks i k \<longrightarrow> in_group gs' ks' i k)
     \<and> (\<forall>(off, keys)\<in>set blocks. \<forall>k\<in>set keys. in_group gs' ks' (unat (off div kFilterBase)) k)
     \<and> length (concat (gs' @ [ks'])) = length (concat (gs @ [ks])) + length (concat (map snd blocks))"
proof (induction blocks arbitrary: gs ks b)
  case (Cons blk blocks)
  obtain off keys where blk: "blk = (off, keys)" by fastforce
  from Cons.prems(1) blk obtain b1 where b1: "StartBlock p off b = Some b1"
    and run: "fb_run p blocks (foldl (\<lambda>b k. AddKey k b) b1 keys) = Some b'" by (auto split: bind_splits)
  from StartBlock_keys [OF Cons.prems(2) b1] obtain g1 k1 where g1: "fb_holds p g1 k1 b1" "length g1 = unat (off div kFilterBase)"
    "\<And>i k. in_group gs ks i k \<Longrightarrow> in_group g1 k1 i k" "length (concat (g1 @ [k1])) = length (concat (gs @ [ks]))" by blast
  from Cons.IH [OF run fb_holds_AddKeys [OF g1(1)]] obtain g2 k2 where g2: "fb_holds p g2 k2 b'"
    "\<And>i k. in_group g1 (k1 @ keys) i k \<Longrightarrow> in_group g2 k2 i k"
    "\<forall>(off, keys)\<in>set blocks. \<forall>k\<in>set keys. in_group g2 k2 (unat (off div kFilterBase)) k"
    "length (concat (g2 @ [k2])) = length (concat (g1 @ [k1 @ keys])) + length (concat (map snd blocks))" by blast
  have "in_group g1 (k1 @ keys) i k" if "in_group g1 k1 i k" for i k using that by (auto simp: in_group_def nth_append)
  moreover have "in_group g1 (k1 @ keys) (unat (off div kFilterBase)) k" if "k \<in> set keys" for k
    using that g1(2) by (simp add: in_group_def nth_append)
  ultimately show ?case using g1 g2 blk by (intro exI [of _ g2] exI [of _ k2]) auto
qed auto

end

text \<open>
  C40. A filter block has no false negatives: for every policy that keeps its contract and appends its filters, a key that was
  added for a block at an offset may match at that offset, for any number of blocks per filter and of gaps between
  blocks, as long as the filter block is below 4 GiB.
\<close>
theorem filter_block_no_false_negatives:
  assumes "appending_filter_policy handles p" and "fb_run p blocks FilterBlockBuilder_new = Some b"
    and "(off, keys) \<in> set blocks" and "k \<in> set keys" and "\<forall>n\<le>length (concat (map snd blocks)). handles n"
    and "length (fst (FilterBlock_Finish p b)) < 2 ^ 32"
  shows "FilterBlock_KeyMayMatch p off k (FilterBlockReader_new (fst (FilterBlock_Finish p b))) = Some True"
proof -
  obtain gs ks where "fb_holds p gs ks b" "in_group gs ks (unat (off div kFilterBase)) k"
    "length (concat (gs @ [ks])) = length (concat (map snd blocks))"
    using appending_filter_policy.fb_run_holds [OF assms(1,2) fb_holds_new] assms(3,4) by fastforce
  with appending_filter_policy.Finish_match [OF assms(1) this(1) _ this(2) refl assms(6)] assms(5) show ?thesis by simp
qed

theorem filter_block_no_false_negatives_witness:
  "\<exists>b. fb_run (bloom_policy_ops (BloomFilterPolicy 10 6)) [(0, [[1], [2]]), (100, [[3]])] FilterBlockBuilder_new = Some b
    \<and> FilterBlock_KeyMayMatch (bloom_policy_ops (BloomFilterPolicy 10 6)) 100 [3]
        (FilterBlockReader_new (fst (FilterBlock_Finish (bloom_policy_ops (BloomFilterPolicy 10 6)) b))) = Some True"
proof -
  let ?p = "bloom_policy_ops (BloomFilterPolicy 10 6)"
  let ?b = "\<lparr>fb_keys = [1, 2, 3], fb_start = [0, 1, 2], fb_result = [], fb_tmp_keys = [], fb_offsets = []\<rparr>"
  have b: "fb_run ?p [(0, [[1], [2]]), (100, [[3]])] FilterBlockBuilder_new = Some ?b"
    by (simp add: StartBlock_def kFilterBase_def kFilterBaseLg_def generate_until.simps AddKey_def FilterBlockBuilder_new_def)
  have small: "length (fst (FilterBlock_Finish ?p ?b)) < 2 ^ 32"
    by (simp add: FilterBlock_Finish_def Let_def GenerateFilter_def bloom_policy_ops_def CreateFilter_def filter_bytes_def
        BloomFilterPolicy_def foldl_PutFixed32 PutFixed32_def)
  from filter_block_no_false_negatives [OF bloom_append.appending_filter_policy_axioms b _ _ _ small, of 100 "[[3]]" "[3]"] b
  show ?thesis by simp
qed

text \<open>
  Where the reader differs from its comment that errors are potential matches: the offsets of an empty filter behind the
  data hide the key, and a last byte of 64 or more leads to an undefined shift.
\<close>
lemma filter_block_damaged:
  "FilterBlock_KeyMayMatch p 0 k (FilterBlockReader_new [9, 0, 0, 0, 9, 0, 0, 0, 0, 0, 0, 0, 11]) = Some False"
  "FilterBlock_KeyMayMatch p 0 k (FilterBlockReader_new [0, 0, 0, 0, 64]) = None"
  by (simp_all add: FilterBlock_KeyMayMatch_def FilterBlockReader_new_def Let_def DecodeFixed32_def)

end
