(* ===== verification/Ldb_TableBuilder.thy ===== *)
theory Ldb_TableBuilder
  imports Ldb_Format Ldb_FilterBlock
begin

text \<open>
  The builder of table files (\<^verbatim>\<open>table/table_builder.cc\<close>). Its state is the record \<open>table_builder\<close>, with the file it
  writes to; a failed assertion and the use of a null pointer are the result \<open>None\<close>.
\<close>

section \<open>The state\<close>

text \<open>Of \<^verbatim>\<open>Options\<close>, what tables use.\<close>

record table_options =
  to_comparator :: comparator_ops
  to_paranoid_checks :: bool
  to_block_size :: u64
  to_restart_interval :: int
  to_compression :: u8
  to_filter_policy :: "filter_policy_ops option"

text \<open>The filter block builder keeps the policy that it was created with.\<close>

record 'f table_builder =
  tb_options :: table_options
  tb_file :: 'f
  tb_offset :: u64
  tb_status :: status
  tb_data_block :: block_builder
  tb_index_block :: block_builder
  tb_last_key :: slice
  tb_num_entries :: u64
  tb_closed :: bool
  tb_filter_block :: "(filter_policy_ops \<times> filter_builder) option"
  tb_pending_index_entry :: bool
  tb_pending_handle :: block_handle

definition tb_ok :: "'f table_builder \<Rightarrow> bool" where
  "tb_ok b \<longleftrightarrow> status_ok (tb_status b)"

text \<open>The filter block builder, if there is one, starts a block at an offset.\<close>

definition start_filter_block :: "u64 \<Rightarrow> 'f table_builder \<Rightarrow> 'f table_builder option" where
  "start_filter_block off b =
     (case tb_filter_block b of
        None \<Rightarrow> Some b
      | Some (p, fb) \<Rightarrow> map_option (\<lambda>fb'. b\<lparr>tb_filter_block := Some (p, fb')\<rparr>) (StartBlock p off fb))"

definition TableBuilder_new :: "table_options \<Rightarrow> 'f \<Rightarrow> 'f table_builder option" where
  "TableBuilder_new opt file = start_filter_block 0
     \<lparr>tb_options = opt, tb_file = file, tb_offset = 0, tb_status = Status_OK,
      tb_data_block = BlockBuilder_new (to_restart_interval opt), tb_index_block = BlockBuilder_new 1,
      tb_last_key = [], tb_num_entries = 0, tb_closed = False,
      tb_filter_block = map_option (\<lambda>p. (p, FilterBlockBuilder_new)) (to_filter_policy opt),
      tb_pending_index_entry = False, tb_pending_handle = BlockHandle_new\<rparr>"

text \<open>Live block builders point to the options and pick up the new interval.\<close>

definition ChangeOptions :: "table_options \<Rightarrow> 'f table_builder \<Rightarrow> status \<times> 'f table_builder" where
  "ChangeOptions opt b =
     (if to_comparator opt \<noteq> to_comparator (tb_options b)
      then (Status_InvalidArgument (str ''changing comparator while building table'') [], b)
      else (Status_OK, b\<lparr>tb_options := opt, tb_data_block := (tb_data_block b)\<lparr>bb_interval := to_restart_interval opt\<rparr>\<rparr>))"

section \<open>Writing blocks\<close>

definition WriteRawBlock :: "'f wfile \<Rightarrow> slice \<Rightarrow> u8 \<Rightarrow> 'f table_builder \<Rightarrow> block_handle \<times> 'f table_builder" where
  "WriteRawBlock ops contents t b =
     (let h = \<lparr>bh_offset = tb_offset b, bh_size = of_nat (length contents)\<rparr>;
          (s1, f1) = wf_Append ops contents (tb_file b); b1 = b\<lparr>tb_status := s1, tb_file := f1\<rparr>
      in if \<not> status_ok s1 then (h, b1)
         else let crc = crc_Extend 0 (crc_Value 0 contents) [t];
                  (s2, f2) = wf_Append ops (t # EncodeFixed32 (crc_Mask crc)) f1; b2 = b1\<lparr>tb_status := s2, tb_file := f2\<rparr>
              in (h, if status_ok s2 then b2\<lparr>tb_offset := tb_offset b + (of_nat (length contents) + kBlockTrailerSize)\<rparr> else b2))"

text \<open>The contents and the type that are stored for a block.\<close>

definition stored_block :: "snappy_ops \<Rightarrow> u8 \<Rightarrow> slice \<Rightarrow> slice \<times> u8" where
  "stored_block sn compression raw =
     (if compression = kNoCompression then (raw, compression)
      else if compression = kSnappyCompression then
        (case sn_Compress sn raw of
           Some compressed \<Rightarrow> if length compressed < length raw - length raw div 8 then (compressed, compression) else (raw, kNoCompression)
         | None \<Rightarrow> (raw, kNoCompression))
      else ([], compression))"

definition WriteBlock ::
  "'f wfile \<Rightarrow> snappy_ops \<Rightarrow> block_builder \<Rightarrow> 'f table_builder \<Rightarrow> (block_handle \<times> block_builder \<times> 'f table_builder) option" where
  "WriteBlock ops sn block b =
     (if \<not> tb_ok b then None
      else let (raw, block') = BlockBuilder_Finish block; (contents, t) = stored_block sn (to_compression (tb_options b)) raw;
               (h, b') = WriteRawBlock ops contents t b
        in Some (h, BlockBuilder_Reset block', b'))"

section \<open>Operations\<close>

definition TableBuilder_Flush :: "'f wfile \<Rightarrow> snappy_ops \<Rightarrow> 'f table_builder \<Rightarrow> 'f table_builder option" where
  "TableBuilder_Flush ops sn b =
     (if tb_closed b then None
      else if \<not> tb_ok b then Some b
      else if BlockBuilder_empty (tb_data_block b) then Some b
      else if tb_pending_index_entry b then None
      else do {
        (h, block, b1) \<leftarrow> WriteBlock ops sn (tb_data_block b) b;
        let b2 = b1\<lparr>tb_data_block := block, tb_pending_handle := h\<rparr>;
            b3 = (if tb_ok b2 then
                    let (s, f) = wf_Flush ops (tb_file b2) in b2\<lparr>tb_pending_index_entry := True, tb_status := s, tb_file := f\<rparr>
                  else b2)
        in start_filter_block (tb_offset b3) b3
      })"

text \<open>The index entry of the block before, under a key that separates the blocks.\<close>

definition add_index_entry :: "slice \<Rightarrow> 'f table_builder \<Rightarrow> 'f table_builder option" where
  "add_index_entry separator b =
     map_option (\<lambda>encoding. b\<lparr>tb_last_key := separator, tb_index_block := BlockBuilder_Add (tb_index_block b) separator encoding,
       tb_pending_index_entry := False\<rparr>) (BlockHandle_EncodeTo (tb_pending_handle b) [])"

definition TableBuilder_Add :: "'f wfile \<Rightarrow> snappy_ops \<Rightarrow> slice \<Rightarrow> slice \<Rightarrow> 'f table_builder \<Rightarrow> 'f table_builder option" where
  "TableBuilder_Add ops sn key val b =
     (if tb_closed b then None
      else if \<not> tb_ok b then Some b
      else if 0 <s tb_num_entries b \<and> \<not> cmp_Compare (to_comparator (tb_options b)) key (tb_last_key b) > 0 then None
      else do {
        b1 \<leftarrow> (if tb_pending_index_entry b then
                 if \<not> BlockBuilder_empty (tb_data_block b) then None
                 else add_index_entry (cmp_FindShortestSeparator (to_comparator (tb_options b)) (tb_last_key b) key) b
               else Some b);
        let b2 = b1\<lparr>tb_filter_block := map_option (map_prod id (AddKey key)) (tb_filter_block b1)\<rparr>;
            b3 = b2\<lparr>tb_last_key := key, tb_num_entries := tb_num_entries b2 + 1,
                   tb_data_block := BlockBuilder_Add (tb_data_block b2) key val\<rparr>
        in if CurrentSizeEstimate (tb_data_block b3) \<ge> unat (to_block_size (tb_options b3)) then TableBuilder_Flush ops sn b3 else Some b3
      })"

definition filter_key :: "filter_policy_ops \<Rightarrow> slice" where
  "filter_key p = str ''filter.'' @ fp_Name p"

text \<open>The steps of \<^verbatim>\<open>Finish\<close>, each taken if nothing failed so far; the handles are those of the blocks written.\<close>

definition write_filter_block :: "'f wfile \<Rightarrow> 'f table_builder \<Rightarrow> block_handle \<times> 'f table_builder" where
  "write_filter_block ops b =
     (case (tb_ok b, tb_filter_block b) of
        (True, Some (p, fb)) \<Rightarrow>
          (let (contents, fb') = FilterBlock_Finish p fb
           in WriteRawBlock ops contents kNoCompression (b\<lparr>tb_filter_block := Some (p, fb')\<rparr>))
      | _ \<Rightarrow> (BlockHandle_new, b))"

definition write_metaindex_block ::
  "'f wfile \<Rightarrow> snappy_ops \<Rightarrow> block_handle \<Rightarrow> 'f table_builder \<Rightarrow> (block_handle \<times> 'f table_builder) option" where
  "write_metaindex_block ops sn filter_handle b =
     (if \<not> tb_ok b then Some (BlockHandle_new, b)
      else let meta = BlockBuilder_new (to_restart_interval (tb_options b)) in do {
        meta' \<leftarrow> (case tb_filter_block b of
                    None \<Rightarrow> Some meta
                  | Some _ \<Rightarrow> do {
                      p \<leftarrow> to_filter_policy (tb_options b);
                      encoding \<leftarrow> BlockHandle_EncodeTo filter_handle [];
                      Some (BlockBuilder_Add meta (filter_key p) encoding)
                    });
        (h, block, b') \<leftarrow> WriteBlock ops sn meta' b;
        Some (h, b')
      })"

definition write_index_block :: "'f wfile \<Rightarrow> snappy_ops \<Rightarrow> 'f table_builder \<Rightarrow> (block_handle \<times> 'f table_builder) option" where
  "write_index_block ops sn b =
     (if \<not> tb_ok b then Some (BlockHandle_new, b)
      else do {
        b1 \<leftarrow> (if tb_pending_index_entry b
                then add_index_entry (cmp_FindShortSuccessor (to_comparator (tb_options b)) (tb_last_key b)) b else Some b);
        (h, block, b2) \<leftarrow> WriteBlock ops sn (tb_index_block b1) b1;
        Some (h, b2\<lparr>tb_index_block := block\<rparr>)
      })"

definition write_footer :: "'f wfile \<Rightarrow> block_handle \<Rightarrow> block_handle \<Rightarrow> 'f table_builder \<Rightarrow> 'f table_builder option" where
  "write_footer ops metaindex_handle index_handle b =
     (if \<not> tb_ok b then Some b
      else do {
        encoding \<leftarrow> Footer_EncodeTo \<lparr>ft_metaindex_handle = metaindex_handle, ft_index_handle = index_handle\<rparr> [];
        let (s, f) = wf_Append ops encoding (tb_file b); b' = b\<lparr>tb_status := s, tb_file := f\<rparr>
        in Some (if status_ok s then b'\<lparr>tb_offset := tb_offset b + of_nat (length encoding)\<rparr> else b')
      })"

definition TableBuilder_Finish :: "'f wfile \<Rightarrow> snappy_ops \<Rightarrow> 'f table_builder \<Rightarrow> (status \<times> 'f table_builder) option" where
  "TableBuilder_Finish ops sn b = do {
     b0 \<leftarrow> TableBuilder_Flush ops sn b;
     let (filter_handle, b1) = write_filter_block ops (b0\<lparr>tb_closed := True\<rparr>) in do {
       (metaindex_handle, b2) \<leftarrow> write_metaindex_block ops sn filter_handle b1;
       (index_handle, b3) \<leftarrow> write_index_block ops sn b2;
       b4 \<leftarrow> write_footer ops metaindex_handle index_handle b3;
       Some (tb_status b4, b4)
     }
   }"

definition TableBuilder_Abandon :: "'f table_builder \<Rightarrow> 'f table_builder option" where
  "TableBuilder_Abandon b = (if tb_closed b then None else Some (b\<lparr>tb_closed := True\<rparr>))"

definition TableBuilder_status :: "'f table_builder \<Rightarrow> status" where
  "TableBuilder_status b = tb_status b"
definition TableBuilder_NumEntries :: "'f table_builder \<Rightarrow> u64" where
  "TableBuilder_NumEntries b = tb_num_entries b"
definition TableBuilder_FileSize :: "'f table_builder \<Rightarrow> u64" where
  "TableBuilder_FileSize b = tb_offset b"

text \<open>A table of a sequence of entries.\<close>

fun add_all :: "'f wfile \<Rightarrow> snappy_ops \<Rightarrow> (slice \<times> slice) list \<Rightarrow> 'f table_builder \<Rightarrow> 'f table_builder option" where
  "add_all ops sn [] b = Some b"
| "add_all ops sn ((k, v) # kvs) b = do { b' \<leftarrow> TableBuilder_Add ops sn k v b; add_all ops sn kvs b' }"

definition build_table :: "'f wfile \<Rightarrow> snappy_ops \<Rightarrow> table_options \<Rightarrow> (slice \<times> slice) list \<Rightarrow> 'f \<Rightarrow> (status \<times> 'f table_builder) option" where
  "build_table ops sn opt kvs file = do {
     b0 \<leftarrow> TableBuilder_new opt file;
     b \<leftarrow> add_all ops sn kvs b0;
     TableBuilder_Finish ops sn b
   }"

end
