(* ===== verification/Ldb_TwoLevel.thy ===== *)
theory Ldb_TwoLevel
  imports Ldb_Merger
begin

text \<open>
  Two-level iterators (\<^verbatim>\<open>table/two_level_iterator.cc\<close>): an index iterator yields handles of blocks, and a function makes an
  iterator of a block from its handle. The argument of the function is a state, which it returns updated.
\<close>

section \<open>Operations\<close>

record ('i, 'd, 'a) two_level =
  tl_arg :: 'a
  tl_status :: status
  tl_index :: "'i iter_wrapper"
  tl_data :: "'d iter_wrapper"
  tl_handle :: slice

text \<open>What does not change: the operations of both iterators and the block function.\<close>

record ('i, 'd, 'a) two_level_env =
  te_index :: "'i iterator_ops"
  te_data :: "'d iterator_ops"
  te_block :: "slice \<Rightarrow> 'a \<Rightarrow> ('d \<times> 'a) option"

definition TwoLevel_new :: "('i, 'd, 'a) two_level_env \<Rightarrow> 'i \<Rightarrow> 'a \<Rightarrow> ('i, 'd, 'a) two_level" where
  "TwoLevel_new te index_iter arg =
     \<lparr>tl_arg = arg, tl_status = Status_OK, tl_index = iw_Set (te_index te) (Some index_iter) iw_null,
      tl_data = iw_Set (te_data te) None iw_null, tl_handle = []\<rparr>"

definition SaveError :: "status \<Rightarrow> ('i, 'd, 'a) two_level \<Rightarrow> ('i, 'd, 'a) two_level" where
  "SaveError s t = (if status_ok (tl_status t) \<and> \<not> status_ok s then t\<lparr>tl_status := s\<rparr> else t)"

definition SetDataIterator :: "('i, 'd, 'a) two_level_env \<Rightarrow> 'd option \<Rightarrow> ('i, 'd, 'a) two_level \<Rightarrow> ('i, 'd, 'a) two_level" where
  "SetDataIterator te data_iter t =
     (let t1 = (if iw_iter (tl_data t) \<noteq> None then SaveError (iw_status (te_data te) (tl_data t)) t else t)
      in t1\<lparr>tl_data := iw_Set (te_data te) data_iter (tl_data t1)\<rparr>)"

definition InitDataBlock :: "('i, 'd, 'a) two_level_env \<Rightarrow> ('i, 'd, 'a) two_level \<Rightarrow> ('i, 'd, 'a) two_level option" where
  "InitDataBlock te t =
     (if \<not> iw_valid (tl_index t) then Some (SetDataIterator te None t)
      else let h = iw_value (te_index te) (tl_index t) in
        if iw_iter (tl_data t) \<noteq> None \<and> Slice_compare h (tl_handle t) = 0 then Some t
        else do {
          (d, arg) \<leftarrow> te_block te h (tl_arg t);
          Some (SetDataIterator te (Some d) (t\<lparr>tl_arg := arg, tl_handle := h\<rparr>))
        })"

text \<open>A move of the index iterator, and one of the data iterator if there is one.\<close>

definition tl_move_index ::
  "('i iter_wrapper \<Rightarrow> 'i iter_wrapper option) \<Rightarrow> ('i, 'd, 'a) two_level \<Rightarrow> ('i, 'd, 'a) two_level option" where
  "tl_move_index f t = map_option (\<lambda>w. t\<lparr>tl_index := w\<rparr>) (f (tl_index t))"

definition tl_move_data ::
  "('d iter_wrapper \<Rightarrow> 'd iter_wrapper option) \<Rightarrow> ('i, 'd, 'a) two_level \<Rightarrow> ('i, 'd, 'a) two_level option" where
  "tl_move_data f t =
     (if iw_iter (tl_data t) \<noteq> None then map_option (\<lambda>w. t\<lparr>tl_data := w\<rparr>) (f (tl_data t)) else Some t)"

partial_function (option) SkipEmptyDataBlocksForward ::
  "('i, 'd, 'a) two_level_env \<Rightarrow> ('i, 'd, 'a) two_level \<Rightarrow> ('i, 'd, 'a) two_level option" where
  [code]: "SkipEmptyDataBlocksForward te t =
     (if iw_iter (tl_data t) = None \<or> \<not> iw_valid (tl_data t) then
        if \<not> iw_valid (tl_index t) then Some (SetDataIterator te None t)
        else do {
          t1 \<leftarrow> tl_move_index (iw_Next (te_index te)) t;
          t2 \<leftarrow> InitDataBlock te t1;
          t3 \<leftarrow> tl_move_data (iw_SeekToFirst (te_data te)) t2;
          SkipEmptyDataBlocksForward te t3
        }
      else Some t)"

partial_function (option) SkipEmptyDataBlocksBackward ::
  "('i, 'd, 'a) two_level_env \<Rightarrow> ('i, 'd, 'a) two_level \<Rightarrow> ('i, 'd, 'a) two_level option" where
  [code]: "SkipEmptyDataBlocksBackward te t =
     (if iw_iter (tl_data t) = None \<or> \<not> iw_valid (tl_data t) then
        if \<not> iw_valid (tl_index t) then Some (SetDataIterator te None t)
        else do {
          t1 \<leftarrow> tl_move_index (iw_Prev (te_index te)) t;
          t2 \<leftarrow> InitDataBlock te t1;
          t3 \<leftarrow> tl_move_data (iw_SeekToLast (te_data te)) t2;
          SkipEmptyDataBlocksBackward te t3
        }
      else Some t)"

definition TwoLevel_Seek :: "('i, 'd, 'a) two_level_env \<Rightarrow> slice \<Rightarrow> ('i, 'd, 'a) two_level \<Rightarrow> ('i, 'd, 'a) two_level option" where
  "TwoLevel_Seek te target t = do {
     t1 \<leftarrow> tl_move_index (iw_Seek (te_index te) target) t;
     t2 \<leftarrow> InitDataBlock te t1;
     t3 \<leftarrow> tl_move_data (iw_Seek (te_data te) target) t2;
     SkipEmptyDataBlocksForward te t3
   }"

definition TwoLevel_SeekToFirst :: "('i, 'd, 'a) two_level_env \<Rightarrow> ('i, 'd, 'a) two_level \<Rightarrow> ('i, 'd, 'a) two_level option" where
  "TwoLevel_SeekToFirst te t = do {
     t1 \<leftarrow> tl_move_index (iw_SeekToFirst (te_index te)) t;
     t2 \<leftarrow> InitDataBlock te t1;
     t3 \<leftarrow> tl_move_data (iw_SeekToFirst (te_data te)) t2;
     SkipEmptyDataBlocksForward te t3
   }"

definition TwoLevel_SeekToLast :: "('i, 'd, 'a) two_level_env \<Rightarrow> ('i, 'd, 'a) two_level \<Rightarrow> ('i, 'd, 'a) two_level option" where
  "TwoLevel_SeekToLast te t = do {
     t1 \<leftarrow> tl_move_index (iw_SeekToLast (te_index te)) t;
     t2 \<leftarrow> InitDataBlock te t1;
     t3 \<leftarrow> tl_move_data (iw_SeekToLast (te_data te)) t2;
     SkipEmptyDataBlocksBackward te t3
   }"

text \<open>\<^verbatim>\<open>Next\<close> and \<^verbatim>\<open>Prev\<close> require that the iterator is valid.\<close>

definition TwoLevel_Next :: "('i, 'd, 'a) two_level_env \<Rightarrow> ('i, 'd, 'a) two_level \<Rightarrow> ('i, 'd, 'a) two_level option" where
  "TwoLevel_Next te t =
     (if \<not> iw_valid (tl_data t) then None
      else do { w \<leftarrow> iw_Next (te_data te) (tl_data t); SkipEmptyDataBlocksForward te (t\<lparr>tl_data := w\<rparr>) })"

definition TwoLevel_Prev :: "('i, 'd, 'a) two_level_env \<Rightarrow> ('i, 'd, 'a) two_level \<Rightarrow> ('i, 'd, 'a) two_level option" where
  "TwoLevel_Prev te t =
     (if \<not> iw_valid (tl_data t) then None
      else do { w \<leftarrow> iw_Prev (te_data te) (tl_data t); SkipEmptyDataBlocksBackward te (t\<lparr>tl_data := w\<rparr>) })"

definition TwoLevel_status :: "('i, 'd, 'a) two_level_env \<Rightarrow> ('i, 'd, 'a) two_level \<Rightarrow> status" where
  "TwoLevel_status te t =
     (if \<not> status_ok (iw_status (te_index te) (tl_index t)) then iw_status (te_index te) (tl_index t)
      else if iw_iter (tl_data t) \<noteq> None \<and> \<not> status_ok (iw_status (te_data te) (tl_data t)) then iw_status (te_data te) (tl_data t)
      else tl_status t)"

definition two_level_ops :: "('i, 'd, 'a) two_level_env \<Rightarrow> ('i, 'd, 'a) two_level iterator_ops" where
  "two_level_ops te =
     \<lparr>it_Valid = \<lambda>t. iw_valid (tl_data t), it_key = \<lambda>t. iw_key (tl_data t), it_value = \<lambda>t. iw_value (te_data te) (tl_data t),
      it_status = TwoLevel_status te, it_SeekToFirst = TwoLevel_SeekToFirst te, it_SeekToLast = TwoLevel_SeekToLast te,
      it_Seek = TwoLevel_Seek te, it_Next = TwoLevel_Next te, it_Prev = TwoLevel_Prev te\<rparr>"

lemma two_level_ops_sel [simp]:
  "it_Valid (two_level_ops te) t = iw_valid (tl_data t)" "it_key (two_level_ops te) t = iw_key (tl_data t)"
  "it_value (two_level_ops te) t = iw_value (te_data te) (tl_data t)" "it_status (two_level_ops te) = TwoLevel_status te"
  "it_SeekToFirst (two_level_ops te) = TwoLevel_SeekToFirst te" "it_SeekToLast (two_level_ops te) = TwoLevel_SeekToLast te"
  "it_Seek (two_level_ops te) = TwoLevel_Seek te" "it_Next (two_level_ops te) = TwoLevel_Next te"
  "it_Prev (two_level_ops te) = TwoLevel_Prev te"
  by (simp_all add: two_level_ops_def)

section \<open>What it iterates over\<close>

text \<open>
  The blocks of an index: \<open>blk\<close> gives the entries of the block with a handle. Every key of a block is at most its index
  key and greater than the index keys before.
\<close>

definition block_entries_of :: "(slice \<Rightarrow> (slice \<times> slice) list) \<Rightarrow> (slice \<times> slice) list \<Rightarrow> (slice \<times> slice) list" where
  "block_entries_of blk idx = concat (map (blk \<circ> snd) idx)"

definition index_separates :: "(slice \<Rightarrow> bool) \<Rightarrow> (slice \<Rightarrow> slice \<Rightarrow> int) \<Rightarrow> (slice \<Rightarrow> (slice \<times> slice) list) \<Rightarrow> (slice \<times> slice) list \<Rightarrow> bool" where
  "index_separates valid cmp blk idx \<longleftrightarrow> compare_order valid cmp
     \<and> (\<forall>p\<in>set idx. valid (fst p) \<and> (\<forall>e\<in>set (blk (snd p)). valid (fst e) \<and> cmp (fst e) (fst p) \<le> 0))
     \<and> sorted_wrt (\<lambda>p q. \<forall>e\<in>set (blk (snd q)). cmp (fst p) (fst e) < 0) idx"

text \<open>A block function that keeps an invariant of its argument and makes iterators of the blocks.\<close>

definition two_level_source :: "('i, 'd, 'a) two_level_env \<Rightarrow> (slice \<Rightarrow> bool) \<Rightarrow> (slice \<Rightarrow> slice \<Rightarrow> int) \<Rightarrow> (slice \<Rightarrow> (slice \<times> slice) list)
    \<Rightarrow> (slice \<times> slice) list \<Rightarrow> ('i \<Rightarrow> nat \<Rightarrow> bool) \<Rightarrow> (slice \<Rightarrow> 'd \<Rightarrow> nat \<Rightarrow> bool) \<Rightarrow> ('a \<Rightarrow> bool) \<Rightarrow> bool" where
  "two_level_source te valid cmp blk idx iat dat ainv \<longleftrightarrow>
     index_separates valid cmp blk idx \<and> iterator_contract (te_index te) valid cmp idx iat
     \<and> (\<forall>p\<in>set idx. iterator_contract (te_data te) valid cmp (blk (snd p)) (dat (snd p))
         \<and> (\<forall>a. ainv a \<longrightarrow> (\<exists>d a' i. te_block te (snd p) a = Some (d, a') \<and> ainv a' \<and> dat (snd p) d i)))"

text \<open>The number of entries in front of a block.\<close>

definition block_start :: "(slice \<Rightarrow> (slice \<times> slice) list) \<Rightarrow> (slice \<times> slice) list \<Rightarrow> nat \<Rightarrow> nat" where
  "block_start blk idx j = length (block_entries_of blk (take j idx))"

text \<open>The index iterator is at \<open>j\<close>; the data iterator, if there is one, is one of some block.\<close>

definition tl_ok :: "('i, 'd, 'a) two_level_env \<Rightarrow> (slice \<times> slice) list \<Rightarrow> ('i \<Rightarrow> nat \<Rightarrow> bool) \<Rightarrow> (slice \<Rightarrow> 'd \<Rightarrow> nat \<Rightarrow> bool)
    \<Rightarrow> ('a \<Rightarrow> bool) \<Rightarrow> ('i, 'd, 'a) two_level \<Rightarrow> nat \<Rightarrow> bool" where
  "tl_ok te idx iat dat ainv t j \<longleftrightarrow> wrapped_at (te_index te) iat (tl_index t) j \<and> tl_status t = Status_OK \<and> ainv (tl_arg t)
     \<and> (if iw_iter (tl_data t) = None then \<not> iw_valid (tl_data t)
        else tl_handle t \<in> snd ` set idx \<and> (\<exists>i. wrapped_at (te_data te) (dat (tl_handle t)) (tl_data t) i))"

definition on_entry :: "('i, 'd, 'a) two_level_env \<Rightarrow> (slice \<times> slice) list \<Rightarrow> (slice \<Rightarrow> 'd \<Rightarrow> nat \<Rightarrow> bool)
    \<Rightarrow> ('i, 'd, 'a) two_level \<Rightarrow> nat \<Rightarrow> nat \<Rightarrow> bool" where
  "on_entry te idx dat t j i \<longleftrightarrow> j < length idx \<and> tl_handle t = snd (idx ! j) \<and> wrapped_at (te_data te) (dat (snd (idx ! j))) (tl_data t) i"

definition two_level_at :: "('i, 'd, 'a) two_level_env \<Rightarrow> (slice \<Rightarrow> bool) \<Rightarrow> (slice \<Rightarrow> slice \<Rightarrow> int) \<Rightarrow> (slice \<Rightarrow> (slice \<times> slice) list)
    \<Rightarrow> (slice \<times> slice) list \<Rightarrow> ('i \<Rightarrow> nat \<Rightarrow> bool) \<Rightarrow> (slice \<Rightarrow> 'd \<Rightarrow> nat \<Rightarrow> bool) \<Rightarrow> ('a \<Rightarrow> bool) \<Rightarrow> ('i, 'd, 'a) two_level \<Rightarrow> nat \<Rightarrow> bool" where
  "two_level_at te valid cmp blk idx iat dat ainv t g \<longleftrightarrow> two_level_source te valid cmp blk idx iat dat ainv
     \<and> (\<exists>j. tl_ok te idx iat dat ainv t j
         \<and> (g = length (block_entries_of blk idx) \<and> iw_iter (tl_data t) = None
            \<or> (\<exists>i. on_entry te idx dat t j i \<and> i < length (blk (snd (idx ! j))) \<and> g = block_start blk idx j + i)))"

lemma block_start_Suc: "j < length idx \<Longrightarrow> block_start blk idx (Suc j) = block_start blk idx j + length (blk (snd (idx ! j)))"
  by (simp add: block_start_def block_entries_of_def take_Suc_conv_app_nth)

lemma block_start_0 [simp]: "block_start blk idx 0 = 0" "block_start blk idx (length idx) = length (block_entries_of blk idx)"
  by (simp_all add: block_start_def block_entries_of_def)

lemma block_split: "j < length idx \<Longrightarrow>
    block_entries_of blk idx = block_entries_of blk (take j idx) @ blk (snd (idx ! j)) @ block_entries_of blk (drop (Suc j) idx)"
proof -
  assume "j < length idx"
  then have "idx = take j idx @ idx ! j # drop (Suc j) idx" by (rule id_take_nth_drop)
  then have "block_entries_of blk idx = block_entries_of blk (take j idx @ idx ! j # drop (Suc j) idx)" by (rule arg_cong)
  then show ?thesis by (simp add: block_entries_of_def)
qed

lemma block_nth: "j < length idx \<Longrightarrow> i < length (blk (snd (idx ! j))) \<Longrightarrow>
    block_start blk idx j + i < length (block_entries_of blk idx)
    \<and> block_entries_of blk idx ! (block_start blk idx j + i) = blk (snd (idx ! j)) ! i"
  using block_split [of j idx blk] by (simp add: block_start_def nth_append)

section \<open>Seeking through the index\<close>

lemma lower_bound_append:
  "lower_bound cmp (xs @ ys) target =
     (if \<forall>e\<in>set xs. cmp (fst e) target < 0 then length xs + lower_bound cmp ys target else lower_bound cmp xs target)"
  by (auto simp: lower_bound_def takeWhile_append)

lemma lower_bound_before: "j < lower_bound cmp es target \<Longrightarrow> cmp (fst (es ! j)) target < 0"
  unfolding lower_bound_def by (metis nth_mem set_takeWhileD takeWhile_nth)

lemma lower_bound_blocks:
  assumes sep: "index_separates valid cmp blk idx" and t: "valid target"
    and front: "\<forall>p\<in>set (take j idx). cmp (fst p) target < 0"
  shows "j < length idx \<Longrightarrow> \<not> cmp (fst (idx ! j)) target < 0 \<Longrightarrow>
      lower_bound cmp (block_entries_of blk idx) target = block_start blk idx j + lower_bound cmp (blk (snd (idx ! j))) target"
    and "j = length idx \<Longrightarrow> lower_bound cmp (block_entries_of blk idx) target = length (block_entries_of blk idx)"
proof -
  have order: "compare_order valid cmp" using sep by (simp add: index_separates_def)
  note less_trans = compare_order.less_trans [OF order]
  have before: "cmp (fst e) target < 0" if "p \<in> set (take j idx)" "e \<in> set (blk (snd p))" for p e
  proof -
    have p: "p \<in> set idx" using that(1) by (rule in_set_takeD)
    then have v: "valid (fst p)" "valid (fst e)" "cmp (fst e) (fst p) \<le> 0" using sep that(2) by (auto simp: index_separates_def)
    then show ?thesis using compare_order.le_of_less [OF order v(2,1) t v(3)] front that(1) by blast
  qed
  then have all: "\<forall>e\<in>set (block_entries_of blk (take j idx)). cmp (fst e) target < 0" by (auto simp: block_entries_of_def)
  show "lower_bound cmp (block_entries_of blk idx) target = length (block_entries_of blk idx)" if "j = length idx"
    using all that by (simp add: lower_bound_def takeWhile_eq_all_conv [THEN iffD2])
  assume j: "j < length idx" and stop: "\<not> cmp (fst (idx ! j)) target < 0"
  have after: "\<not> cmp (fst e) target < 0" if e: "e \<in> set (block_entries_of blk (drop (Suc j) idx))" for e
  proof -
    obtain q where q: "q \<in> set (drop (Suc j) idx)" "e \<in> set (blk (snd q))" using e by (auto simp: block_entries_of_def)
    then obtain n where "n < length (drop (Suc j) idx)" "drop (Suc j) idx ! n = q" unfolding in_set_conv_nth by blast
    then have m: "j < Suc j + n" "Suc j + n < length idx" "q = idx ! (Suc j + n)" by auto
    have l: "cmp (fst (idx ! j)) (fst e) < 0"
      using sep sorted_wrt_nth_less [OF _ m(1,2)] q(2) m(3) unfolding index_separates_def by blast
    have v: "valid (fst (idx ! j))" "valid (fst e)" using sep j m q by (auto simp: index_separates_def)
    show ?thesis using less_trans [OF v t l] stop by blast
  qed
  then have "lower_bound cmp (block_entries_of blk (drop (Suc j) idx)) target = 0"
    by (cases "block_entries_of blk (drop (Suc j) idx)") (auto simp: lower_bound_def)
  then have "lower_bound cmp (blk (snd (idx ! j)) @ block_entries_of blk (drop (Suc j) idx)) target = lower_bound cmp (blk (snd (idx ! j))) target"
    by (auto simp: lower_bound_append) (auto simp: lower_bound_def takeWhile_eq_all_conv [THEN iffD2])
  then show "lower_bound cmp (block_entries_of blk idx) target = block_start blk idx j + lower_bound cmp (blk (snd (idx ! j))) target"
    unfolding block_split [OF j, of blk] using all by (simp add: lower_bound_append [of _ "block_entries_of blk (take j idx)"] block_start_def)
qed

end
