(* ===== verification/Ldb_TwoLevel_Props.thy ===== *)
theory Ldb_TwoLevel_Props
  imports Ldb_TwoLevel
begin

text \<open>A two-level iterator keeps the contract of iterators over the entries of all blocks.\<close>

section \<open>Sources\<close>

lemma two_level_sourceD:
  assumes "two_level_source te valid cmp blk idx iat dat ainv"
  shows "index_separates valid cmp blk idx" "iterator_contract (te_index te) valid cmp idx iat"
    "p \<in> set idx \<Longrightarrow> iterator_contract (te_data te) valid cmp (blk (snd p)) (dat (snd p))"
    "p \<in> set idx \<Longrightarrow> ainv a \<Longrightarrow> \<exists>d a' i. te_block te (snd p) a = Some (d, a') \<and> ainv a' \<and> dat (snd p) d i"
  using assms by (auto simp: two_level_source_def)

lemma source_wrapped:
  assumes "two_level_source te valid cmp blk idx iat dat ainv"
  shows "iterator_contract (wrapper_ops (te_index te)) valid cmp idx (wrapped_at (te_index te) iat)"
    and "p \<in> set idx \<Longrightarrow> iterator_contract (wrapper_ops (te_data te)) valid cmp (blk (snd p)) (wrapped_at (te_data te) (dat (snd p)))"
  using iterator_contract.wrapped_contract [OF two_level_sourceD(2) [OF assms]]
    iterator_contract.wrapped_contract [OF two_level_sourceD(3) [OF assms]] by auto

lemma wrapped_iter: "wrapped_at ops at w i \<Longrightarrow> iw_iter w \<noteq> None"
  by (auto simp: wrapped_at_def)

lemma tl_index_valid:
  assumes "two_level_source te valid cmp blk idx iat dat ainv" and "tl_ok te idx iat dat ainv t j"
  shows "j \<le> length idx" and "iw_valid (tl_index t) \<longleftrightarrow> j < length idx"
  using iterator_contract.at_le [OF source_wrapped(1) [OF assms(1)]] iterator_contract.at_Valid [OF source_wrapped(1) [OF assms(1)]] assms(2)
  by (auto simp: tl_ok_def)

lemma data_status:
  assumes src: "two_level_source te valid cmp blk idx iat dat ainv" and ok: "tl_ok te idx iat dat ainv t j" and "iw_iter (tl_data t) \<noteq> None"
  shows "iw_status (te_data te) (tl_data t) = Status_OK"
proof -
  obtain p i where p: "p \<in> set idx" "tl_handle t = snd p" "wrapped_at (te_data te) (dat (snd p)) (tl_data t) i"
    using ok assms(3) by (auto simp: tl_ok_def)
  show ?thesis using iterator_contract.at_status [OF source_wrapped(2) [OF src p(1)] p(3)] by simp
qed

lemma SetDataIterator_parts:
  assumes src: "two_level_source te valid cmp blk idx iat dat ainv" and ok: "tl_ok te idx iat dat ainv t j"
  shows "SetDataIterator te d t = t\<lparr>tl_data := iw_Set (te_data te) d (tl_data t)\<rparr>"
  using data_status [OF src ok] by (auto simp: SetDataIterator_def SaveError_def Let_def Status_OK_def status_ok_def)

section \<open>Steps\<close>

lemma InitDataBlock_at:
  assumes src: "two_level_source te valid cmp blk idx iat dat ainv" and ok: "tl_ok te idx iat dat ainv t j"
  shows "\<exists>t'. InitDataBlock te t = Some t' \<and> tl_ok te idx iat dat ainv t' j
    \<and> (if j < length idx then \<exists>i. on_entry te idx dat t' j i else iw_iter (tl_data t') = None)"
proof (cases "j < length idx")
  case False
  then show ?thesis using tl_index_valid [OF src ok] ok SetDataIterator_parts [OF src ok, of None]
    by (auto simp: InitDataBlock_def tl_ok_def iw_Set_def)
next
  case True
  then have V: "iw_valid (tl_index t)" using tl_index_valid [OF src ok] by simp
  have mem: "idx ! j \<in> set idx" using True by simp
  have h: "iw_value (te_index te) (tl_index t) = snd (idx ! j)"
    using iterator_contract.at_value [OF source_wrapped(1) [OF src] _ True] ok by (simp add: tl_ok_def)
  show ?thesis
  proof (cases "iw_iter (tl_data t) \<noteq> None \<and> Slice_compare (snd (idx ! j)) (tl_handle t) = 0")
    case same: True
    then have "snd (idx ! j) = tl_handle t" using bytewise.equal [of "snd (idx ! j)" "tl_handle t"] by (simp add: Bytewise_Compare_def)
    then have "\<exists>i. on_entry te idx dat t j i" using ok same True by (auto simp: tl_ok_def on_entry_def)
    then show ?thesis using same V h True ok by (auto simp: InitDataBlock_def Let_def)
  next
    case new: False
    have "ainv (tl_arg t)" using ok by (simp add: tl_ok_def)
    then obtain d a' i where d: "te_block te (snd (idx ! j)) (tl_arg t) = Some (d, a')" "ainv a'" "dat (snd (idx ! j)) d i"
      using two_level_sourceD(4) [OF src mem] by blast
    define t1 where "t1 = t\<lparr>tl_arg := a', tl_handle := snd (idx ! j)\<rparr>"
    have "SetDataIterator te (Some d) t1 = t1\<lparr>tl_data := iw_Set (te_data te) (Some d) (tl_data t1)\<rparr>"
      using data_status [OF src ok] by (auto simp: SetDataIterator_def SaveError_def Let_def t1_def Status_OK_def status_ok_def)
    moreover have w: "wrapped_at (te_data te) (dat (snd (idx ! j))) (iw_Set (te_data te) (Some d) (tl_data t1)) i"
      using wrapped_Update [of "dat (snd (idx ! j))", OF d(3)] by (simp add: iw_Set_def)
    ultimately show ?thesis
      using new V h d True ok mem wrapped_iter [OF w]
      by (auto simp: InitDataBlock_def Let_def t1_def tl_ok_def on_entry_def)
  qed
qed

lemma index_init:
  assumes src: "two_level_source te valid cmp blk idx iat dat ainv" and ok: "tl_ok te idx iat dat ainv t j"
    and f: "\<And>w. wrapped_at (te_index te) iat w j \<Longrightarrow> \<exists>w'. f w = Some w' \<and> wrapped_at (te_index te) iat w' j'"
  obtains t1 t2 where "tl_move_index f t = Some t1" "InitDataBlock te t1 = Some t2" "tl_ok te idx iat dat ainv t2 j'"
    "if j' < length idx then \<exists>i. on_entry te idx dat t2 j' i else iw_iter (tl_data t2) = None"
proof -
  obtain w where w: "f (tl_index t) = Some w" "wrapped_at (te_index te) iat w j'" using f ok by (auto simp: tl_ok_def)
  then have "tl_ok te idx iat dat ainv (t\<lparr>tl_index := w\<rparr>) j'" using ok by (simp add: tl_ok_def)
  from InitDataBlock_at [OF src this] w(1) that show thesis by (auto simp: tl_move_index_def)
qed

lemma data_move:
  assumes ok: "tl_ok te idx iat dat ainv t j" and on: "on_entry te idx dat t j i"
    and f: "\<And>w. wrapped_at (te_data te) (dat (snd (idx ! j))) w i \<Longrightarrow> \<exists>w'. f w = Some w' \<and> wrapped_at (te_data te) (dat (snd (idx ! j))) w' i'"
  obtains w where "f (tl_data t) = Some w" "tl_move_data f t = Some (t\<lparr>tl_data := w\<rparr>)"
    "tl_ok te idx iat dat ainv (t\<lparr>tl_data := w\<rparr>) j" "on_entry te idx dat (t\<lparr>tl_data := w\<rparr>) j i'"
proof -
  obtain w where w: "f (tl_data t) = Some w" "wrapped_at (te_data te) (dat (snd (idx ! j))) w i'" using f on by (auto simp: on_entry_def)
  have "iw_iter (tl_data t) \<noteq> None" "iw_iter w \<noteq> None" using on w(2) by (auto simp: on_entry_def dest: wrapped_iter)
  then show thesis using w on ok by (intro that) (auto simp: tl_move_data_def tl_ok_def on_entry_def)
qed

lemma on_entry_valid:
  assumes src: "two_level_source te valid cmp blk idx iat dat ainv" and on: "on_entry te idx dat t j i"
  shows "iw_valid (tl_data t) \<longleftrightarrow> i < length (blk (snd (idx ! j)))" and "i \<le> length (blk (snd (idx ! j)))" and "iw_iter (tl_data t) \<noteq> None"
proof -
  have p: "idx ! j \<in> set idx" "wrapped_at (te_data te) (dat (snd (idx ! j))) (tl_data t) i" using on by (simp_all add: on_entry_def)
  note con = source_wrapped(2) [OF src p(1)]
  show "iw_valid (tl_data t) \<longleftrightarrow> i < length (blk (snd (idx ! j)))" "i \<le> length (blk (snd (idx ! j)))" "iw_iter (tl_data t) \<noteq> None"
    using iterator_contract.at_Valid [OF con p(2)] iterator_contract.at_le [OF con p(2)] wrapped_iter [OF p(2)] by auto
qed

section \<open>Loops\<close>

lemma Skip_end:
  assumes src: "two_level_source te valid cmp blk idx iat dat ainv" and ok: "tl_ok te idx iat dat ainv t (length idx)" and "iw_iter (tl_data t) = None"
  shows "\<exists>t'. SkipEmptyDataBlocksForward te t = Some t' \<and> two_level_at te valid cmp blk idx iat dat ainv t' (length (block_entries_of blk idx))"
    and "\<exists>t'. SkipEmptyDataBlocksBackward te t = Some t' \<and> two_level_at te valid cmp blk idx iat dat ainv t' (length (block_entries_of blk idx))"
    and "tl_move_data f t = Some t"
proof -
  have "tl_ok te idx iat dat ainv (SetDataIterator te None t) (length idx)" "iw_iter (tl_data (SetDataIterator te None t)) = None"
    using ok SetDataIterator_parts [OF src ok, of None] by (auto simp: tl_ok_def iw_Set_def)
  then have "two_level_at te valid cmp blk idx iat dat ainv (SetDataIterator te None t) (length (block_entries_of blk idx))"
    using src by (auto simp: two_level_at_def)
  moreover have "\<not> iw_valid (tl_index t)" using tl_index_valid [OF src ok] by simp
  ultimately show "\<exists>t'. SkipEmptyDataBlocksForward te t = Some t' \<and> two_level_at te valid cmp blk idx iat dat ainv t' (length (block_entries_of blk idx))"
    "\<exists>t'. SkipEmptyDataBlocksBackward te t = Some t' \<and> two_level_at te valid cmp blk idx iat dat ainv t' (length (block_entries_of blk idx))"
    using assms(3) by (simp_all add: SkipEmptyDataBlocksForward.simps [of te t] SkipEmptyDataBlocksBackward.simps [of te t])
  show "tl_move_data f t = Some t" using assms(3) by (simp add: tl_move_data_def)
qed

lemma stays:
  assumes "two_level_source te valid cmp blk idx iat dat ainv" and "tl_ok te idx iat dat ainv t j" and "on_entry te idx dat t j i"
    and "i < length (blk (snd (idx ! j)))"
  shows "two_level_at te valid cmp blk idx iat dat ainv t (block_start blk idx j + i)"
  using assms by (auto simp: two_level_at_def)

lemma SkipForward_at:
  assumes src: "two_level_source te valid cmp blk idx iat dat ainv"
  shows "tl_ok te idx iat dat ainv t j \<Longrightarrow> on_entry te idx dat t j i \<Longrightarrow>
    \<exists>t'. SkipEmptyDataBlocksForward te t = Some t' \<and> two_level_at te valid cmp blk idx iat dat ainv t' (block_start blk idx j + i)"
proof (induction "length idx - j" arbitrary: t i j rule: less_induct)
  case less
  note V = on_entry_valid [OF src less.prems(2)]
  have j: "j < length idx" using less.prems(2) by (simp add: on_entry_def)
  show ?case
  proof (cases "i < length (blk (snd (idx ! j)))")
    case True
    then have "SkipEmptyDataBlocksForward te t = Some t" using V(1,3) by (subst SkipEmptyDataBlocksForward.simps) auto
    with True stays [OF src less.prems True] show ?thesis by simp
  next
    case False
    have nx: "\<exists>w'. iw_Next (te_index te) w = Some w' \<and> wrapped_at (te_index te) iat w' (Suc j)" if "wrapped_at (te_index te) iat w j" for w
      using iterator_contract.at_next [OF source_wrapped(1) [OF src] that j] by simp
    obtain t1 t2 where t: "tl_move_index (iw_Next (te_index te)) t = Some t1" "InitDataBlock te t1 = Some t2"
      "tl_ok te idx iat dat ainv t2 (Suc j)" "if Suc j < length idx then \<exists>i. on_entry te idx dat t2 (Suc j) i else iw_iter (tl_data t2) = None"
      using index_init [where f = "iw_Next (te_index te)", OF src less.prems(1) nx] by blast
    have step: "SkipEmptyDataBlocksForward te t = tl_move_data (iw_SeekToFirst (te_data te)) t2 \<bind> SkipEmptyDataBlocksForward te"
      using False V(1) tl_index_valid [OF src less.prems(1)] j t(1,2) by (subst SkipEmptyDataBlocksForward.simps) simp
    have start: "block_start blk idx j + i = block_start blk idx (Suc j)" using False V(2) j by (simp add: block_start_Suc)
    show ?thesis
    proof (cases "Suc j < length idx")
      case True
      then obtain i1 where on: "on_entry te idx dat t2 (Suc j) i1" using t(4) by auto
      have "idx ! Suc j \<in> set idx" using True by simp
      note con = source_wrapped(2) [OF src this]
      obtain w where w: "tl_move_data (iw_SeekToFirst (te_data te)) t2 = Some (t2\<lparr>tl_data := w\<rparr>)"
        "tl_ok te idx iat dat ainv (t2\<lparr>tl_data := w\<rparr>) (Suc j)" "on_entry te idx dat (t2\<lparr>tl_data := w\<rparr>) (Suc j) 0"
        by (rule data_move [where f = "iw_SeekToFirst (te_data te)", OF t(3) on]) (use iterator_contract.at_first [OF con] in auto)
      from less.hyps [OF _ w(2,3)] j w(1) start show ?thesis unfolding step by simp
    next
      case False
      then have "Suc j = length idx" using j by simp
      with t(3,4) Skip_end [OF src, of t2] start show ?thesis unfolding step by simp
    qed
  qed
qed

lemma SkipBackward_at:
  assumes src: "two_level_source te valid cmp blk idx iat dat ainv"
  shows "tl_ok te idx iat dat ainv t j \<Longrightarrow> on_entry te idx dat t j i \<Longrightarrow>
    \<exists>t'. SkipEmptyDataBlocksBackward te t = Some t' \<and> two_level_at te valid cmp blk idx iat dat ainv t'
      (if i < length (blk (snd (idx ! j))) then block_start blk idx j + i
       else if block_start blk idx j = 0 then length (block_entries_of blk idx) else block_start blk idx j - 1)"
proof (induction j arbitrary: t i rule: less_induct)
  case (less j)
  note V = on_entry_valid [OF src less.prems(2)]
  have j: "j < length idx" using less.prems(2) by (simp add: on_entry_def)
  show ?case
  proof (cases "i < length (blk (snd (idx ! j)))")
    case True
    then have "SkipEmptyDataBlocksBackward te t = Some t" using V(1,3) by (subst SkipEmptyDataBlocksBackward.simps) auto
    with True stays [OF src less.prems True] show ?thesis by simp
  next
    case False
    have prev: "\<exists>w'. iw_Prev (te_index te) w = Some w' \<and> wrapped_at (te_index te) iat w' (if j = 0 then length idx else j - 1)"
      if "wrapped_at (te_index te) iat w j" for w
      using iterator_contract.at_prev [OF source_wrapped(1) [OF src] that j] by simp
    obtain t1 t2 where t: "tl_move_index (iw_Prev (te_index te)) t = Some t1" "InitDataBlock te t1 = Some t2"
      "tl_ok te idx iat dat ainv t2 (if j = 0 then length idx else j - 1)"
      "if (if j = 0 then length idx else j - 1) < length idx then \<exists>i. on_entry te idx dat t2 (if j = 0 then length idx else j - 1) i
       else iw_iter (tl_data t2) = None"
      using index_init [where f = "iw_Prev (te_index te)", OF src less.prems(1) prev] by blast
    have step: "SkipEmptyDataBlocksBackward te t = tl_move_data (iw_SeekToLast (te_data te)) t2 \<bind> SkipEmptyDataBlocksBackward te"
      using False V(1) tl_index_valid [OF src less.prems(1)] j t(1,2) by (subst SkipEmptyDataBlocksBackward.simps) simp
    show ?thesis
    proof (cases "j = 0")
      case True
      with t(3,4) Skip_end [OF src, of t2] False show ?thesis unfolding step by simp
    next
      case pos: False
      then obtain i1 where on: "on_entry te idx dat t2 (j - 1) i1" and ok2: "tl_ok te idx iat dat ainv t2 (j - 1)"
        using t(3,4) j by (auto split: if_splits)
      have "idx ! (j - 1) \<in> set idx" using j by simp
      note con = source_wrapped(2) [OF src this]
      obtain w where w: "tl_move_data (iw_SeekToLast (te_data te)) t2 = Some (t2\<lparr>tl_data := w\<rparr>)"
        "tl_ok te idx iat dat ainv (t2\<lparr>tl_data := w\<rparr>) (j - 1)"
        "on_entry te idx dat (t2\<lparr>tl_data := w\<rparr>) (j - 1) (length (blk (snd (idx ! (j - 1)))) - 1)"
        by (rule data_move [where f = "iw_SeekToLast (te_data te)", OF ok2 on]) (use iterator_contract.at_last [OF con] in auto)
      have "block_start blk idx j = block_start blk idx (j - 1) + length (blk (snd (idx ! (j - 1))))"
        using block_start_Suc [of "j - 1" idx blk] j pos by simp
      then have "(if length (blk (snd (idx ! (j - 1)))) - 1 < length (blk (snd (idx ! (j - 1))))
            then block_start blk idx (j - 1) + (length (blk (snd (idx ! (j - 1)))) - 1)
          else if block_start blk idx (j - 1) = 0 then length (block_entries_of blk idx) else block_start blk idx (j - 1) - 1)
        = (if block_start blk idx j = 0 then length (block_entries_of blk idx) else block_start blk idx j - 1)"
        by (cases "length (blk (snd (idx ! (j - 1))))") auto
      with less.IH [OF _ w(2,3)] pos w(1) False show ?thesis unfolding step by simp
    qed
  qed
qed

section \<open>Moves\<close>

text \<open>The moves that start at the index.\<close>

lemma forward_from_index:
  assumes src: "two_level_source te valid cmp blk idx iat dat ainv" and ok: "tl_ok te idx iat dat ainv t j0"
    and f: "\<And>w. wrapped_at (te_index te) iat w j0 \<Longrightarrow> \<exists>w'. f w = Some w' \<and> wrapped_at (te_index te) iat w' j"
    and g: "\<And>w i. j < length idx \<Longrightarrow> wrapped_at (te_data te) (dat (snd (idx ! j))) w i \<Longrightarrow>
      \<exists>w'. g w = Some w' \<and> wrapped_at (te_data te) (dat (snd (idx ! j))) w' i'"
    and pos: "pos = (if j < length idx then block_start blk idx j + i' else length (block_entries_of blk idx))"
  shows "\<exists>t'. tl_move_index f t \<bind> InitDataBlock te \<bind> tl_move_data g \<bind> SkipEmptyDataBlocksForward te = Some t'
    \<and> two_level_at te valid cmp blk idx iat dat ainv t' pos"
proof -
  obtain t1 t2 where t: "tl_move_index f t = Some t1" "InitDataBlock te t1 = Some t2" "tl_ok te idx iat dat ainv t2 j"
    "if j < length idx then \<exists>i. on_entry te idx dat t2 j i else iw_iter (tl_data t2) = None"
    using index_init [where f = f, OF src ok f] by blast
  show ?thesis
  proof (cases "j < length idx")
    case True
    then obtain i where on: "on_entry te idx dat t2 j i" using t(4) by auto
    obtain w where "tl_move_data g t2 = Some (t2\<lparr>tl_data := w\<rparr>)" "tl_ok te idx iat dat ainv (t2\<lparr>tl_data := w\<rparr>) j"
      "on_entry te idx dat (t2\<lparr>tl_data := w\<rparr>) j i'" using data_move [where f = g, OF t(3) on g [OF True, of _ i]] by blast
    with SkipForward_at [OF src this(2,3)] True t(1,2) pos show ?thesis by simp
  next
    case False
    then have "j = length idx" using tl_index_valid(1) [OF src t(3)] by simp
    with t Skip_end [OF src, of t2] pos show ?thesis by simp
  qed
qed

lemma tl_SeekToFirst_at:
  assumes "two_level_at te valid cmp blk idx iat dat ainv t g"
  shows "\<exists>t'. TwoLevel_SeekToFirst te t = Some t' \<and> two_level_at te valid cmp blk idx iat dat ainv t' 0"
proof -
  obtain j where src: "two_level_source te valid cmp blk idx iat dat ainv" and ok: "tl_ok te idx iat dat ainv t j"
    using assms by (auto simp: two_level_at_def)
  have f: "\<exists>w'. iw_SeekToFirst (te_index te) w = Some w' \<and> wrapped_at (te_index te) iat w' 0" if "wrapped_at (te_index te) iat w j" for w
    using iterator_contract.at_first [OF source_wrapped(1) [OF src] that] by simp
  have g: "\<exists>w'. iw_SeekToFirst (te_data te) w = Some w' \<and> wrapped_at (te_data te) (dat (snd (idx ! 0))) w' 0"
    if "0 < length idx" "wrapped_at (te_data te) (dat (snd (idx ! 0))) w i" for w i
    using iterator_contract.at_first [OF source_wrapped(2) [OF src nth_mem [OF that(1)]] that(2)] by simp
  from forward_from_index [where f = "iw_SeekToFirst (te_index te)" and g = "iw_SeekToFirst (te_data te)", OF src ok f g refl] show ?thesis
    by (cases "0 < length idx") (auto simp: TwoLevel_SeekToFirst_def block_entries_of_def)
qed

lemma tl_Seek_at:
  assumes "two_level_at te valid cmp blk idx iat dat ainv t g" and target: "valid target"
  shows "\<exists>t'. TwoLevel_Seek te target t = Some t'
    \<and> two_level_at te valid cmp blk idx iat dat ainv t' (lower_bound cmp (block_entries_of blk idx) target)"
proof -
  obtain j0 where src: "two_level_source te valid cmp blk idx iat dat ainv" and ok: "tl_ok te idx iat dat ainv t j0"
    using assms by (auto simp: two_level_at_def)
  define j where "j = lower_bound cmp idx target"
  have f: "\<exists>w'. iw_Seek (te_index te) target w = Some w' \<and> wrapped_at (te_index te) iat w' j" if "wrapped_at (te_index te) iat w j0" for w
    using iterator_contract.at_seek [OF source_wrapped(1) [OF src] that target] by (simp add: j_def)
  have g: "\<exists>w'. iw_Seek (te_data te) target w = Some w'
      \<and> wrapped_at (te_data te) (dat (snd (idx ! j))) w' (lower_bound cmp (blk (snd (idx ! j))) target)"
    if "j < length idx" "wrapped_at (te_data te) (dat (snd (idx ! j))) w i" for w i
    using iterator_contract.at_seek [OF source_wrapped(2) [OF src nth_mem [OF that(1)]] that(2) target] by simp
  have le: "j \<le> length idx" by (simp add: j_def lower_bound_le)
  have front: "\<forall>p\<in>set (take j idx). cmp (fst p) target < 0"
    using lower_bound_before [of _ cmp idx target] by (force simp: in_set_conv_nth j_def)
  have stop: "\<not> cmp (fst (idx ! j)) target < 0" if "j < length idx"
    using that nth_length_takeWhile [of "\<lambda>e. cmp (fst e) target < 0" idx] by (simp add: j_def lower_bound_def)
  note bounds = lower_bound_blocks [OF two_level_sourceD(1) [OF src] target front]
  have "lower_bound cmp (block_entries_of blk idx) target = (if j < length idx
      then block_start blk idx j + lower_bound cmp (blk (snd (idx ! j))) target else length (block_entries_of blk idx))"
    using bounds(1) [OF _ stop] bounds(2) le by (cases "j < length idx") auto
  from forward_from_index [where f = "iw_Seek (te_index te) target" and g = "iw_Seek (te_data te) target", OF src ok f g this] show ?thesis by (simp add: TwoLevel_Seek_def)
qed

lemma tl_SeekToLast_at:
  assumes "two_level_at te valid cmp blk idx iat dat ainv t g"
  shows "\<exists>t'. TwoLevel_SeekToLast te t = Some t'
    \<and> two_level_at te valid cmp blk idx iat dat ainv t' (length (block_entries_of blk idx) - 1)"
proof -
  obtain j0 where src: "two_level_source te valid cmp blk idx iat dat ainv" and ok: "tl_ok te idx iat dat ainv t j0"
    using assms by (auto simp: two_level_at_def)
  define j where "j = length idx - 1"
  have f: "\<exists>w'. iw_SeekToLast (te_index te) w = Some w' \<and> wrapped_at (te_index te) iat w' j" if "wrapped_at (te_index te) iat w j0" for w
    using iterator_contract.at_last [OF source_wrapped(1) [OF src] that] by (simp add: j_def)
  obtain t1 t2 where t: "tl_move_index (iw_SeekToLast (te_index te)) t = Some t1" "InitDataBlock te t1 = Some t2" "tl_ok te idx iat dat ainv t2 j"
    "if j < length idx then \<exists>i. on_entry te idx dat t2 j i else iw_iter (tl_data t2) = None"
    using index_init [where f = "iw_SeekToLast (te_index te)", OF src ok f] by blast
  show ?thesis
  proof (cases "idx = []")
    case True
    with t Skip_end [OF src, of t2] show ?thesis by (auto simp: TwoLevel_SeekToLast_def j_def block_entries_of_def)
  next
    case False
    then have j: "j < length idx" "Suc j = length idx" by (simp_all add: j_def)
    then obtain i where on: "on_entry te idx dat t2 j i" using t(4) by auto
    note con = source_wrapped(2) [OF src nth_mem [OF j(1)]]
    have g: "\<exists>w'. iw_SeekToLast (te_data te) w = Some w' \<and> wrapped_at (te_data te) (dat (snd (idx ! j))) w' (length (blk (snd (idx ! j))) - 1)"
      if "wrapped_at (te_data te) (dat (snd (idx ! j))) w i" for w using iterator_contract.at_last [OF con that] by simp
    obtain w where w: "tl_move_data (iw_SeekToLast (te_data te)) t2 = Some (t2\<lparr>tl_data := w\<rparr>)" "tl_ok te idx iat dat ainv (t2\<lparr>tl_data := w\<rparr>) j"
      "on_entry te idx dat (t2\<lparr>tl_data := w\<rparr>) j (length (blk (snd (idx ! j))) - 1)" using data_move [where f = "iw_SeekToLast (te_data te)", OF t(3) on g] by blast
    have "length (block_entries_of blk idx) = block_start blk idx j + length (blk (snd (idx ! j)))"
      using block_start_Suc [OF j(1), of blk] j(2) by simp
    then have "(if length (blk (snd (idx ! j))) - 1 < length (blk (snd (idx ! j))) then block_start blk idx j + (length (blk (snd (idx ! j))) - 1)
        else if block_start blk idx j = 0 then length (block_entries_of blk idx) else block_start blk idx j - 1)
      = length (block_entries_of blk idx) - 1" by (cases "length (blk (snd (idx ! j)))") auto
    with SkipBackward_at [OF src w(2,3)] w(1) t(1,2) show ?thesis by (simp add: TwoLevel_SeekToLast_def)
  qed
qed

lemma two_level_pos:
  assumes "two_level_at te valid cmp blk idx iat dat ainv t g" and "g < length (block_entries_of blk idx)"
  obtains j i where "tl_ok te idx iat dat ainv t j" "on_entry te idx dat t j i" "i < length (blk (snd (idx ! j)))" "g = block_start blk idx j + i"
  using assms by (auto simp: two_level_at_def)

lemma tl_Next_at:
  assumes at: "two_level_at te valid cmp blk idx iat dat ainv t g" and "g < length (block_entries_of blk idx)"
  shows "\<exists>t'. TwoLevel_Next te t = Some t' \<and> two_level_at te valid cmp blk idx iat dat ainv t' (Suc g)"
proof -
  have src: "two_level_source te valid cmp blk idx iat dat ainv" using at by (simp add: two_level_at_def)
  obtain j i where ok: "tl_ok te idx iat dat ainv t j" and on: "on_entry te idx dat t j i" and i: "i < length (blk (snd (idx ! j)))"
    and g: "g = block_start blk idx j + i" by (rule two_level_pos [OF assms])
  have j: "j < length idx" using on by (simp add: on_entry_def)
  have f: "\<exists>w'. iw_Next (te_data te) w = Some w' \<and> wrapped_at (te_data te) (dat (snd (idx ! j))) w' (Suc i)"
    if "wrapped_at (te_data te) (dat (snd (idx ! j))) w i" for w
    using iterator_contract.at_next [OF source_wrapped(2) [OF src nth_mem [OF j]] that i] by simp
  obtain w where "iw_Next (te_data te) (tl_data t) = Some w" "tl_ok te idx iat dat ainv (t\<lparr>tl_data := w\<rparr>) j"
    "on_entry te idx dat (t\<lparr>tl_data := w\<rparr>) j (Suc i)" using data_move [where f = "iw_Next (te_data te)", OF ok on f] by blast
  with SkipForward_at [OF src this(2,3)] on_entry_valid(1) [OF src on] i g show ?thesis by (simp add: TwoLevel_Next_def)
qed

lemma tl_Prev_at:
  assumes at: "two_level_at te valid cmp blk idx iat dat ainv t g" and "g < length (block_entries_of blk idx)"
  shows "\<exists>t'. TwoLevel_Prev te t = Some t'
    \<and> two_level_at te valid cmp blk idx iat dat ainv t' (if g = 0 then length (block_entries_of blk idx) else g - 1)"
proof -
  have src: "two_level_source te valid cmp blk idx iat dat ainv" using at by (simp add: two_level_at_def)
  obtain j i where ok: "tl_ok te idx iat dat ainv t j" and on: "on_entry te idx dat t j i" and i: "i < length (blk (snd (idx ! j)))"
    and g: "g = block_start blk idx j + i" by (rule two_level_pos [OF assms])
  have j: "j < length idx" using on by (simp add: on_entry_def)
  have f: "\<exists>w'. iw_Prev (te_data te) w = Some w'
      \<and> wrapped_at (te_data te) (dat (snd (idx ! j))) w' (if i = 0 then length (blk (snd (idx ! j))) else i - 1)"
    if "wrapped_at (te_data te) (dat (snd (idx ! j))) w i" for w
    using iterator_contract.at_prev [OF source_wrapped(2) [OF src nth_mem [OF j]] that i] by simp
  obtain w where "iw_Prev (te_data te) (tl_data t) = Some w" "tl_ok te idx iat dat ainv (t\<lparr>tl_data := w\<rparr>) j"
    "on_entry te idx dat (t\<lparr>tl_data := w\<rparr>) j (if i = 0 then length (blk (snd (idx ! j))) else i - 1)" using data_move [where f = "iw_Prev (te_data te)", OF ok on f] by blast
  with SkipBackward_at [OF src this(2,3)] on_entry_valid(1) [OF src on] i g show ?thesis
    by (auto simp: TwoLevel_Prev_def split: if_splits)
qed

section \<open>The contract\<close>

interpretation two_level_entries: iterator_contract "two_level_ops te" valid cmp "block_entries_of blk idx"
    "two_level_at te valid cmp blk idx iat dat ainv"
proof
  fix t g assume at: "two_level_at te valid cmp blk idx iat dat ainv t g"
  then have src: "two_level_source te valid cmp blk idx iat dat ainv" by (simp add: two_level_at_def)
  from at consider (out) j where "tl_ok te idx iat dat ainv t j" "g = length (block_entries_of blk idx)" "iw_iter (tl_data t) = None"
    | (on) j i where "tl_ok te idx iat dat ainv t j" "on_entry te idx dat t j i" "i < length (blk (snd (idx ! j)))"
        "g = block_start blk idx j + i" by (auto simp: two_level_at_def)
  note here = this
  from here show "g \<le> length (block_entries_of blk idx)" and V: "it_Valid (two_level_ops te) t \<longleftrightarrow> g < length (block_entries_of blk idx)"
    using block_nth [of _ idx _ blk] on_entry_valid(1) [OF src] by (cases; auto simp: tl_ok_def on_entry_def less_imp_le)+
  from here have "\<exists>j. tl_ok te idx iat dat ainv t j" by cases blast+
  then obtain j where ok: "tl_ok te idx iat dat ainv t j" by blast
  have "iw_status (te_index te) (tl_index t) = Status_OK"
    using iterator_contract.at_status [OF source_wrapped(1) [OF src]] ok by (auto simp: tl_ok_def)
  then show "it_status (two_level_ops te) t = Status_OK"
    using data_status [OF src ok] ok by (simp add: TwoLevel_status_def tl_ok_def)
  show "\<exists>t'. it_SeekToFirst (two_level_ops te) t = Some t' \<and> two_level_at te valid cmp blk idx iat dat ainv t' 0"
    using tl_SeekToFirst_at [OF at] by simp
  show "\<exists>t'. it_SeekToLast (two_level_ops te) t = Some t'
      \<and> two_level_at te valid cmp blk idx iat dat ainv t' (length (block_entries_of blk idx) - 1)" using tl_SeekToLast_at [OF at] by simp
  show "\<exists>t'. it_Seek (two_level_ops te) target t = Some t'
      \<and> two_level_at te valid cmp blk idx iat dat ainv t' (lower_bound cmp (block_entries_of blk idx) target)" if "valid target" for target
    using tl_Seek_at [OF at that] by simp
  assume g: "g < length (block_entries_of blk idx)"
  show "\<exists>t'. it_Next (two_level_ops te) t = Some t' \<and> two_level_at te valid cmp blk idx iat dat ainv t' (Suc g)"
    using tl_Next_at [OF at g] by simp
  show "\<exists>t'. it_Prev (two_level_ops te) t = Some t'
      \<and> two_level_at te valid cmp blk idx iat dat ainv t' (if g = 0 then length (block_entries_of blk idx) else g - 1)"
    using tl_Prev_at [OF at g] by simp
  show "(it_key (two_level_ops te) t, it_value (two_level_ops te) t) = block_entries_of blk idx ! g"
  proof (rule two_level_pos [OF at g])
    fix j i assume on: "on_entry te idx dat t j i" "i < length (blk (snd (idx ! j)))" "g = block_start blk idx j + i"
    then have j: "j < length idx" by (simp add: on_entry_def)
    show ?thesis
      using iterator_contract.at_entry [OF source_wrapped(2) [OF src nth_mem [OF j]] _ on(2)] on block_nth [where blk = blk, OF j on(2)]
      by (simp add: on_entry_def)
  qed
qed

lemma two_level_new_at:
  assumes "two_level_source te valid cmp blk idx iat dat ainv" and "iat s j" and "ainv arg"
  shows "two_level_at te valid cmp blk idx iat dat ainv (TwoLevel_new te s arg) (length (block_entries_of blk idx))"
proof -
  have "tl_ok te idx iat dat ainv (TwoLevel_new te s arg) j"
    using assms by (simp add: tl_ok_def TwoLevel_new_def iw_Set_def iw_null_def wrapped_Update)
  then show ?thesis using assms(1) by (auto simp: two_level_at_def TwoLevel_new_def iw_Set_def iw_null_def)
qed

end
