(* ===== verification/Ldb_Table.thy ===== *)
theory Ldb_Table
  imports Ldb_TableBuilder Ldb_TwoLevel_Props
begin

text \<open>
  Table files (\<^verbatim>\<open>table/table.cc\<close>): opening a table, its iterators and lookups. The block cache is a state with a record
  of operations; the release of its handles, which happens when an iterator is destroyed, is left out.
\<close>

section \<open>The block cache\<close>

text \<open>A lookup finds a block or not; an insertion has the key, the block and its charge.\<close>

record 'c cache_ops =
  cc_NewId :: "'c \<Rightarrow> u64 \<times> 'c"
  cc_Lookup :: "slice \<Rightarrow> 'c \<Rightarrow> block option \<times> 'c"
  cc_Insert :: "slice \<Rightarrow> block \<Rightarrow> nat \<Rightarrow> 'c \<Rightarrow> 'c"

section \<open>Tables\<close>

text \<open>The options of reads.\<close>

record read_options =
  ro_verify_checksums :: bool
  ro_fill_cache :: bool

definition ReadOptions_new :: read_options where
  "ReadOptions_new = \<lparr>ro_verify_checksums = False, ro_fill_cache = True\<rparr>"

definition table_read_options :: "table_options \<Rightarrow> read_options" where
  "table_read_options opt = (if to_paranoid_checks opt then ReadOptions_new\<lparr>ro_verify_checksums := True\<rparr> else ReadOptions_new)"

text \<open>What a table is opened with: the snappy functions, the file and the block cache.\<close>

record 'c table_env =
  tv_snappy :: snappy_ops
  tv_file :: random_access_file
  tv_cache :: "'c cache_ops option"

record table =
  tab_options :: table_options
  tab_cache_id :: u64
  tab_filter :: "filter_reader option"
  tab_metaindex_handle :: block_handle
  tab_index_block :: block

definition read_block :: "'c table_env \<Rightarrow> read_options \<Rightarrow> block_handle \<Rightarrow> (status \<times> block_contents) option" where
  "read_block env ro = ReadBlock (tv_snappy env) (tv_file env) (ro_verify_checksums ro)"

definition ReadFilter :: "'c table_env \<Rightarrow> slice \<Rightarrow> table \<Rightarrow> table option" where
  "ReadFilter env filter_handle_value t =
     (let (s, filter_handle, _) = BlockHandle_DecodeFrom filter_handle_value BlockHandle_new in
      if \<not> status_ok s then Some t
      else do {
        (s, contents) \<leftarrow> read_block env (table_read_options (tab_options t)) filter_handle;
        Some (if status_ok s then t\<lparr>tab_filter := Some (FilterBlockReader_new (bc_data contents))\<rparr> else t)
      })"

definition ReadMeta :: "'c table_env \<Rightarrow> block_handle \<Rightarrow> table \<Rightarrow> table option" where
  "ReadMeta env metaindex_handle t =
     (case to_filter_policy (tab_options t) of
        None \<Rightarrow> Some t
      | Some p \<Rightarrow> do {
          (s, contents) \<leftarrow> read_block env (table_read_options (tab_options t)) metaindex_handle;
          if \<not> status_ok s then Some t
          else let iops = block_iterator_ops Bytewise_Compare in do {
            it \<leftarrow> it_Seek iops (filter_key p) (Block_NewIterator (Block_new (bc_data contents)));
            if it_Valid iops it \<and> it_key iops it = filter_key p then ReadFilter env (it_value iops it) t else Some t
          }
        })"

definition Table_Open :: "'c table_env \<Rightarrow> table_options \<Rightarrow> u64 \<Rightarrow> 'c \<Rightarrow> (status \<times> table option \<times> 'c) option" where
  "Table_Open env opt sz c =
     (if sz < of_nat kEncodedLength then Some (Status_Corruption (str ''file is too short to be an sstable'') [], None, c)
      else let (s, footer_input, _) = tv_file env (sz - of_nat kEncodedLength) (of_nat kEncodedLength) in
        if \<not> status_ok s then Some (s, None, c)
        else do {
          (s, footer, _) \<leftarrow> Footer_DecodeFrom footer_input Footer_new;
          if \<not> status_ok s then Some (s, None, c)
          else do {
            (s, contents) \<leftarrow> read_block env (table_read_options opt) (ft_index_handle footer);
            if \<not> status_ok s then Some (s, None, c)
            else let (cache_id, c') = (case tv_cache env of None \<Rightarrow> (0, c) | Some cops \<Rightarrow> cc_NewId cops c);
                     t = \<lparr>tab_options = opt, tab_cache_id = cache_id, tab_filter = None,
                       tab_metaindex_handle = ft_metaindex_handle footer, tab_index_block = Block_new (bc_data contents)\<rparr> in do {
              t' \<leftarrow> ReadMeta env (ft_metaindex_handle footer) t;
              Some (s, Some t', c')
            }
          }
        })"

section \<open>Reading\<close>

definition cache_key :: "u64 \<Rightarrow> u64 \<Rightarrow> slice" where
  "cache_key cache_id offset = EncodeFixed64 cache_id @ EncodeFixed64 offset"

text \<open>The block of a handle, or the status of the failed read.\<close>

definition find_block :: "'c table_env \<Rightarrow> read_options \<Rightarrow> table \<Rightarrow> block_handle \<Rightarrow> 'c \<Rightarrow> ((status + block) \<times> 'c) option" where
  "find_block env ro t h c =
     (case tv_cache env of
        None \<Rightarrow> do {
          (s, contents) \<leftarrow> read_block env ro h;
          Some (if status_ok s then Inr (Block_new (bc_data contents)) else Inl s, c)
        }
      | Some cops \<Rightarrow>
          (let key = cache_key (tab_cache_id t) (bh_offset h); (found, c1) = cc_Lookup cops key c in
           case found of
             Some b \<Rightarrow> Some (Inr b, c1)
           | None \<Rightarrow> do {
               (s, contents) \<leftarrow> read_block env ro h;
               Some (if \<not> status_ok s then (Inl s, c1)
                     else let b = Block_new (bc_data contents)
                       in (Inr b, if bc_cachable contents \<and> ro_fill_cache ro then cc_Insert cops key b (bl_size b) c1 else c1))
             }))"

definition BlockReader :: "'c table_env \<Rightarrow> read_options \<Rightarrow> table \<Rightarrow> slice \<Rightarrow> 'c \<Rightarrow> (block_iterator \<times> 'c) option" where
  "BlockReader env ro t index_value c =
     (let (s, h, _) = BlockHandle_DecodeFrom index_value BlockHandle_new in
      if \<not> status_ok s then Some (EmptyIterator s, c)
      else do {
        (r, c') \<leftarrow> find_block env ro t h c;
        Some (case r of Inl s \<Rightarrow> EmptyIterator s | Inr b \<Rightarrow> Block_NewIterator b, c')
      })"

definition table_iops :: "table \<Rightarrow> block_iterator iterator_ops" where
  "table_iops t = block_iterator_ops (cmp_Compare (to_comparator (tab_options t)))"

definition table_iterator_env :: "'c table_env \<Rightarrow> read_options \<Rightarrow> table \<Rightarrow> (block_iterator, block_iterator, 'c) two_level_env" where
  "table_iterator_env env ro t = \<lparr>te_index = table_iops t, te_data = table_iops t, te_block = BlockReader env ro t\<rparr>"

definition Table_NewIterator :: "'c table_env \<Rightarrow> read_options \<Rightarrow> table \<Rightarrow> 'c \<Rightarrow> (block_iterator, block_iterator, 'c) two_level" where
  "Table_NewIterator env ro t c = TwoLevel_new (table_iterator_env env ro t) (Block_NewIterator (tab_index_block t)) c"

text \<open>Whether the filter says that a key is not in the block of an index entry.\<close>

definition filtered_out :: "table \<Rightarrow> slice \<Rightarrow> slice \<Rightarrow> bool option" where
  "filtered_out t handle_value k =
     (case tab_filter t of
        None \<Rightarrow> Some False
      | Some fr \<Rightarrow>
          (let (s, h, _) = BlockHandle_DecodeFrom handle_value BlockHandle_new in
           if \<not> status_ok s then Some False
           else do {
             p \<leftarrow> to_filter_policy (tab_options t);
             m \<leftarrow> FilterBlock_KeyMayMatch p (bh_offset h) k fr;
             Some (\<not> m)
           }))"

text \<open>The status, the entry that the callback is given, if it is called, and the cache.\<close>

definition InternalGet :: "'c table_env \<Rightarrow> read_options \<Rightarrow> table \<Rightarrow> slice \<Rightarrow> 'c \<Rightarrow> (status \<times> (slice \<times> slice) option \<times> 'c) option" where
  "InternalGet env ro t k c =
     (let iops = table_iops t in do {
        iiter \<leftarrow> it_Seek iops k (Block_NewIterator (tab_index_block t));
        (s, saved, c') \<leftarrow> (if it_Valid iops iiter then do {
            out \<leftarrow> filtered_out t (it_value iops iiter) k;
            if out then Some (Status_OK, None, c)
            else do {
              (block_iter, c') \<leftarrow> BlockReader env ro t (it_value iops iiter) c;
              block_iter \<leftarrow> it_Seek iops k block_iter;
              Some (it_status iops block_iter,
                if it_Valid iops block_iter then Some (it_key iops block_iter, it_value iops block_iter) else None, c')
            }
          } else Some (Status_OK, None, c));
        Some (if status_ok s then it_status iops iiter else s, saved, c')
      })"

definition ApproximateOffsetOf :: "table \<Rightarrow> slice \<Rightarrow> u64 option" where
  "ApproximateOffsetOf t key =
     (let iops = table_iops t in do {
        index_iter \<leftarrow> it_Seek iops key (Block_NewIterator (tab_index_block t));
        Some (if it_Valid iops index_iter then
                let (s, h, _) = BlockHandle_DecodeFrom (it_value iops index_iter) BlockHandle_new
                in if status_ok s then bh_offset h else bh_offset (tab_metaindex_handle t)
              else bh_offset (tab_metaindex_handle t))
      })"

end
