(* ===== verification/Ldb_TableBuilder_Spec.thy ===== *)
theory Ldb_TableBuilder_Spec
  imports Ldb_TableBuilder
begin

text \<open>
  What a finished table file holds, and that the builder writes it. A block of the table is known by its entries, its
  handle, and the contents and the type that are stored for it.
\<close>

section \<open>Stored blocks\<close>

record table_block =
  tk_entries :: "(slice \<times> slice) list"
  tk_handle :: block_handle
  tk_contents :: slice
  tk_type :: u8

definition stores :: "snappy_ops \<Rightarrow> slice \<Rightarrow> slice \<Rightarrow> u8 \<Rightarrow> bool" where
  "stores sn raw contents t \<longleftrightarrow> t = kNoCompression \<and> contents = raw \<or> t = kSnappyCompression \<and> sn_Compress sn raw = Some contents"

lemma stored_block_stores:
  "compression = kNoCompression \<or> compression = kSnappyCompression \<Longrightarrow> stored_block sn compression raw = (c, t) \<Longrightarrow> stores sn raw c t"
  by (auto simp: stored_block_def stores_def kNoCompression_def kSnappyCompression_def split: if_splits option.splits)

definition handle_bytes :: "block_handle \<Rightarrow> slice" where
  "handle_bytes h = PutVarint64 (PutVarint64 [] (bh_offset h)) (bh_size h)"

lemma EncodeTo_handle_bytes: "BlockHandle_EncodeTo h [] = Some e \<Longrightarrow> e = handle_bytes h"
  by (auto simp: BlockHandle_EncodeTo_def handle_bytes_def split: if_splits)

lemma DecodeFrom_handle_bytes [simp]: "BlockHandle_DecodeFrom (handle_bytes h) h0 = (Status_OK, h, [])"
  using GetVarint64_Encode [of "bh_size h" "[]"]
  by (cases h) (simp add: BlockHandle_DecodeFrom_def handle_bytes_def PutVarint64_def GetVarint64_Encode)

definition blocks_bytes :: "table_block list \<Rightarrow> slice" where
  "blocks_bytes blks = concat (map (\<lambda>k. raw_block (tk_contents k) (tk_type k)) blks)"

definition block_in_place :: "snappy_ops \<Rightarrow> int \<Rightarrow> table_block list \<Rightarrow> nat \<Rightarrow> bool" where
  "block_in_place sn interval blks j \<longleftrightarrow>
     bh_offset (tk_handle (blks ! j)) = of_nat (length (blocks_bytes (take j blks)))
     \<and> bh_size (tk_handle (blks ! j)) = of_nat (length (tk_contents (blks ! j)))
     \<and> stores sn (build_block interval (tk_entries (blks ! j))) (tk_contents (blks ! j)) (tk_type (blks ! j))
     \<and> tk_entries (blks ! j) \<noteq> []"

text \<open>The entries of the index block for the blocks that have a separator.\<close>

definition index_entries :: "slice list \<Rightarrow> table_block list \<Rightarrow> (slice \<times> slice) list" where
  "index_entries seps blks = zip seps (map (handle_bytes \<circ> tk_handle) blks)"

definition seps_ok :: "(slice \<Rightarrow> bool) \<Rightarrow> (slice \<Rightarrow> slice \<Rightarrow> int) \<Rightarrow> slice list \<Rightarrow> table_block list \<Rightarrow> (slice \<times> slice) list \<Rightarrow> bool" where
  "seps_ok valid cmp seps blks cur \<longleftrightarrow> (\<forall>j<length seps. valid (seps ! j)
     \<and> (\<forall>e\<in>set (tk_entries (blks ! j)). cmp (fst e) (seps ! j) \<le> 0)
     \<and> (\<forall>m<length blks. j < m \<longrightarrow> (\<forall>e\<in>set (tk_entries (blks ! m)). cmp (seps ! j) (fst e) < 0))
     \<and> (\<forall>e\<in>set cur. cmp (seps ! j) (fst e) < 0))"

definition sorted_entries :: "(slice \<Rightarrow> bool) \<Rightarrow> table_options \<Rightarrow> (slice \<times> slice) list \<Rightarrow> bool" where
  "sorted_entries valid opt kvs \<longleftrightarrow>
     (\<forall>e\<in>set kvs. valid (fst e)) \<and> sorted_wrt (\<lambda>a b. cmp_Compare (to_comparator opt) (fst a) (fst b) < 0) kvs"

section \<open>The invariant of the builder\<close>

definition entries_of :: "table_block list \<Rightarrow> (slice \<times> slice) list" where
  "entries_of blks = concat (map tk_entries blks)"

text \<open>The filter block builder has the keys of every block in the group of the block's offset.\<close>

definition filter_inv :: "table_options \<Rightarrow> table_block list \<Rightarrow> (slice \<times> slice) list \<Rightarrow> 'f table_builder \<Rightarrow> bool" where
  "filter_inv opt blks cur b \<longleftrightarrow>
     (case tb_filter_block b of
        None \<Rightarrow> to_filter_policy opt = None
      | Some (p, fb) \<Rightarrow> to_filter_policy opt = Some p \<and> (\<exists>gs ks. fb_holds p gs ks fb
          \<and> length (concat (gs @ [ks])) = length (entries_of blks @ cur) \<and> length gs = unat (tb_offset b div kFilterBase)
          \<and> (\<forall>blk\<in>set blks. \<forall>e\<in>set (tk_entries blk). in_group gs ks (unat (bh_offset (tk_handle blk) div kFilterBase)) (fst e))
          \<and> (\<forall>e\<in>set cur. in_group gs ks (length gs) (fst e))))"

text \<open>The contract that tables rely on: the options are sensible, and what they point to keeps its own contract.\<close>

locale table_config = snappy sn +
  comparator valid "cmp_Compare (to_comparator opt)" "cmp_FindShortestSeparator (to_comparator opt)" "cmp_FindShortSuccessor (to_comparator opt)"
  for sn :: snappy_ops and opt :: table_options and valid :: "slice \<Rightarrow> bool" and handles :: "nat \<Rightarrow> bool" +
  assumes interval: "1 \<le> to_restart_interval opt"
    and compression: "to_compression opt = kNoCompression \<or> to_compression opt = kSnappyCompression"
    and policy: "to_filter_policy opt = Some p \<Longrightarrow> appending_filter_policy handles p"

locale table_writer = table_config sn opt valid handles + log_dest ops bytes_of full noflush
  for sn :: snappy_ops and opt :: table_options and valid :: "slice \<Rightarrow> bool" and handles :: "nat \<Rightarrow> bool"
    and ops :: "'f wfile" and bytes_of :: "'f \<Rightarrow> slice" and full :: "'f \<Rightarrow> bool" and noflush :: "'f \<Rightarrow> bool"

text \<open>The options' defaults (\<^verbatim>\<open>util/options.cc\<close>), with a Bloom filter.\<close>

definition Options_new :: table_options where
  "Options_new = \<lparr>to_comparator = BytewiseComparator, to_paranoid_checks = False, to_block_size = 4096, to_restart_interval = 16,
     to_compression = kSnappyCompression, to_filter_policy = None\<rparr>"

interpretation default_tables: table_writer no_snappy
    "Options_new\<lparr>to_filter_policy := Some (bloom_policy_ops (BloomFilterPolicy bits_per_key product))\<rparr>" "\<lambda>_. True"
    "\<lambda>n. n * unat bits_per_key + 7 < 2 ^ 64" posix_wfile "cf_bytes \<circ> pf_file" "\<lambda>f. cf_room (pf_file f) = 0" "cf_flush_fails \<circ> pf_file"
  for bits_per_key product
proof (intro table_writer.intro table_config.intro table_config_axioms.intro)
  show "comparator (\<lambda>_. True) (cmp_Compare (to_comparator (Options_new\<lparr>to_filter_policy := Some (bloom_policy_ops (BloomFilterPolicy bits_per_key product))\<rparr>)))
      (cmp_FindShortestSeparator (to_comparator (Options_new\<lparr>to_filter_policy := Some (bloom_policy_ops (BloomFilterPolicy bits_per_key product))\<rparr>)))
      (cmp_FindShortSuccessor (to_comparator (Options_new\<lparr>to_filter_policy := Some (bloom_policy_ops (BloomFilterPolicy bits_per_key product))\<rparr>)))"
    using bytewise.comparator_axioms by (simp add: Options_new_def BytewiseComparator_def)
  show "appending_filter_policy (\<lambda>n. n * unat bits_per_key + 7 < 2 ^ 64) p"
    if "to_filter_policy (Options_new\<lparr>to_filter_policy := Some (bloom_policy_ops (BloomFilterPolicy bits_per_key product))\<rparr>) = Some p" for p
    using that bloom_append.appending_filter_policy_axioms [of bits_per_key product] by simp
qed (simp_all add: Options_new_def without_snappy.snappy_axioms posix_dest.log_dest_axioms)

section \<open>Writing\<close>

lemma add_entry_foldl: "foldl add_entry b (kvs @ [(k, v)]) = BlockBuilder_Add (foldl add_entry b kvs) k v"
  by simp

lemma BlockBuilder_interval [simp]: "bb_interval (BlockBuilder_Add b k v) = bb_interval b" "bb_interval (foldl add_entry b kvs) = bb_interval b"
  by (simp_all add: BlockBuilder_Add_def Let_def) (induction kvs arbitrary: b, simp_all add: BlockBuilder_Add_def Let_def)

lemma BlockBuilder_Reset_new: "BlockBuilder_Reset b = BlockBuilder_new (bb_interval b)"
  by (simp add: BlockBuilder_Reset_def BlockBuilder_new_def)

lemma BlockBuilder_empty_new [simp]: "BlockBuilder_empty (BlockBuilder_new n)"
  by (simp add: BlockBuilder_empty_def BlockBuilder_new_def)

lemma BlockBuilder_empty_foldl: "BlockBuilder_empty (foldl add_entry (BlockBuilder_new n) kvs) \<longleftrightarrow> kvs = []"
proof (cases kvs rule: rev_cases)
  case (snoc ys y)
  obtain k v where "y = (k, v)" by fastforce
  moreover have "EncodeVarint32 w \<noteq> []" for w using EncodeVarint32_Cons [of w] by auto
  ultimately show ?thesis using snoc by (simp add: BlockBuilder_empty_def BlockBuilder_Add_def Let_def PutVarint32_def)
qed (simp add: BlockBuilder_empty_def BlockBuilder_new_def)

context log_dest
begin

lemma WriteRawBlock_ok:
  assumes w: "WriteRawBlock ops c t b = (h, b')" and ok: "tb_ok b'"
  shows "contents (tb_file b') = contents (tb_file b) @ raw_block c t" and "h = \<lparr>bh_offset = tb_offset b, bh_size = of_nat (length c)\<rparr>"
    and "\<exists>s f. b' = b\<lparr>tb_status := s, tb_file := f, tb_offset := tb_offset b + of_nat (length (raw_block c t))\<rparr> \<and> status_ok s"
proof -
  obtain s1 f1 where a1: "wf_Append ops c (tb_file b) = (s1, f1)" by fastforce
  define tr where "tr = t # EncodeFixed32 (crc_Mask (crc_Extend 0 (crc_Value 0 c) [t]))"
  obtain s2 f2 where a2: "wf_Append ops tr f1 = (s2, f2)" by fastforce
  have s1: "status_ok s1"
  proof (rule ccontr)
    assume "\<not> status_ok s1"
    with w a1 have "b' = b\<lparr>tb_status := s1, tb_file := f1\<rparr>" by (simp add: WriteRawBlock_def)
    with ok \<open>\<not> status_ok s1\<close> show False by (simp add: tb_ok_def)
  qed
  then have s2: "status_ok s2" using w ok a1 a2 by (auto simp: WriteRawBlock_def Let_def tb_ok_def tr_def [symmetric] split: if_splits)
  have "contents f1 = contents (tb_file b) @ c" "contents f2 = contents f1 @ tr" using append [OF a1] append [OF a2] s1 s2 by auto
  moreover have "of_nat (length (raw_block c t)) = (of_nat (length c) + kBlockTrailerSize :: u64)" by (simp add: kBlockTrailerSize_def)
  ultimately show "contents (tb_file b') = contents (tb_file b) @ raw_block c t" "h = \<lparr>bh_offset = tb_offset b, bh_size = of_nat (length c)\<rparr>"
    "\<exists>s f. b' = b\<lparr>tb_status := s, tb_file := f, tb_offset := tb_offset b + of_nat (length (raw_block c t))\<rparr> \<and> status_ok s"
    using w a1 a2 s1 s2 by (auto simp: WriteRawBlock_def Let_def tr_def [symmetric] raw_block_def [of c t] simp del: length_raw_block)
qed

lemma WriteBlock_ok:
  assumes w: "WriteBlock ops sn (foldl add_entry (BlockBuilder_new n) es) b = Some (h, block, b')" and ok: "tb_ok b'"
    and compression: "to_compression (tb_options b) = kNoCompression \<or> to_compression (tb_options b) = kSnappyCompression"
  shows "block = BlockBuilder_new n"
    and "\<exists>c t s f. stores sn (build_block n es) c t \<and> contents (tb_file b') = contents (tb_file b) @ raw_block c t
      \<and> h = \<lparr>bh_offset = tb_offset b, bh_size = of_nat (length c)\<rparr>
      \<and> b' = b\<lparr>tb_status := s, tb_file := f, tb_offset := tb_offset b + of_nat (length (raw_block c t))\<rparr> \<and> status_ok s"
proof -
  obtain raw blk' where fin: "BlockBuilder_Finish (foldl add_entry (BlockBuilder_new n) es) = (raw, blk')" by fastforce
  obtain c t where st: "stored_block sn (to_compression (tb_options b)) raw = (c, t)" by fastforce
  obtain h1 b1 where wr: "WriteRawBlock ops c t b = (h1, b1)" by fastforce
  have parts: "h = h1" "block = BlockBuilder_Reset blk'" "b' = b1"
    using w fin st wr by (auto simp: WriteBlock_def split: if_splits)
  have "raw = build_block n es" and "bb_interval blk' = bb_interval (foldl add_entry (BlockBuilder_new n) es)"
    using fin by (auto simp: build_block_def BlockBuilder_Finish_def Let_def)
  then show "block = BlockBuilder_new n" using parts(2) by (simp add: BlockBuilder_Reset_new) (simp add: BlockBuilder_new_def)
  have "stores sn raw c t" using stored_block_stores [OF compression st] .
  then show "\<exists>c t s f. stores sn (build_block n es) c t \<and> contents (tb_file b') = contents (tb_file b) @ raw_block c t
      \<and> h = \<lparr>bh_offset = tb_offset b, bh_size = of_nat (length c)\<rparr>
      \<and> b' = b\<lparr>tb_status := s, tb_file := f, tb_offset := tb_offset b + of_nat (length (raw_block c t))\<rparr> \<and> status_ok s"
    using WriteRawBlock_ok [OF wr] ok parts \<open>raw = build_block n es\<close> by blast
qed

end

section \<open>Adding entries\<close>

text \<open>The invariant: \<open>blks\<close> are written, \<open>seps\<close> are the separators known so far, \<open>cur\<close> is in the data block.\<close>

definition tb_core :: "snappy_ops \<Rightarrow> table_options \<Rightarrow> (slice \<Rightarrow> bool) \<Rightarrow> ('f \<Rightarrow> slice) \<Rightarrow> table_block list \<Rightarrow> slice list
    \<Rightarrow> (slice \<times> slice) list \<Rightarrow> 'f table_builder \<Rightarrow> bool" where
  "tb_core sn opt valid bytes_of blks seps cur b \<longleftrightarrow>
     tb_options b = opt \<and> \<not> tb_closed b \<and> bytes_of (tb_file b) = blocks_bytes blks
     \<and> tb_offset b = of_nat (length (blocks_bytes blks)) \<and> (\<forall>j<length blks. block_in_place sn (to_restart_interval opt) blks j)
     \<and> tb_data_block b = foldl add_entry (BlockBuilder_new (to_restart_interval opt)) cur
     \<and> tb_index_block b = foldl add_entry (BlockBuilder_new 1) (index_entries seps blks)
     \<and> length blks = length seps + (if tb_pending_index_entry b then 1 else 0)
     \<and> (tb_pending_index_entry b \<longrightarrow> cur = [] \<and> tb_pending_handle b = tk_handle (last blks))
     \<and> seps_ok valid (cmp_Compare (to_comparator opt)) seps blks cur \<and> filter_inv opt blks cur b
     \<and> tb_num_entries b = of_nat (length (entries_of blks @ cur))"

definition tb_inv :: "snappy_ops \<Rightarrow> table_options \<Rightarrow> (slice \<Rightarrow> bool) \<Rightarrow> ('f \<Rightarrow> slice) \<Rightarrow> table_block list \<Rightarrow> slice list
    \<Rightarrow> (slice \<times> slice) list \<Rightarrow> 'f table_builder \<Rightarrow> bool" where
  "tb_inv sn opt valid bytes_of blks seps cur b \<longleftrightarrow> tb_core sn opt valid bytes_of blks seps cur b
     \<and> (entries_of blks @ cur \<noteq> [] \<longrightarrow> tb_last_key b = fst (last (entries_of blks @ cur)))
     \<and> (\<not> tb_pending_index_entry b \<and> blks \<noteq> [] \<longrightarrow> cur \<noteq> [])"

lemma blocks_bytes_snoc: "blocks_bytes (blks @ [k]) = blocks_bytes blks @ raw_block (tk_contents k) (tk_type k)"
  by (simp add: blocks_bytes_def)

lemma entries_of_snoc: "entries_of (blks @ [k]) = entries_of blks @ tk_entries k"
  by (simp add: entries_of_def)

lemma block_in_place_snoc:
  assumes "\<forall>j<length blks. block_in_place sn n blks j" and "tk_handle k = \<lparr>bh_offset = of_nat (length (blocks_bytes blks)), bh_size = of_nat (length (tk_contents k))\<rparr>"
    and "stores sn (build_block n (tk_entries k)) (tk_contents k) (tk_type k)" and "tk_entries k \<noteq> []"
  shows "\<forall>j<length (blks @ [k]). block_in_place sn n (blks @ [k]) j"
  using assms by (auto simp: block_in_place_def nth_append less_Suc_eq)

lemma index_entries_snoc: "length seps \<le> length blks \<Longrightarrow> index_entries seps (blks @ [k]) = index_entries seps blks"
  by (simp add: index_entries_def zip_append2)

lemma index_entries_last: "blks \<noteq> [] \<Longrightarrow> length blks = Suc (length seps) \<Longrightarrow>
    index_entries (seps @ [s]) blks = index_entries seps blks @ [(s, handle_bytes (tk_handle (last blks)))]"
  by (cases blks rule: rev_cases) (simp_all add: index_entries_def zip_append2)

lemma seps_ok_flush:
  "seps_ok valid cmp seps blks cur \<Longrightarrow> length seps \<le> length blks \<Longrightarrow> tk_entries k = cur \<Longrightarrow> seps_ok valid cmp seps (blks @ [k]) []"
  by (auto simp: seps_ok_def nth_append less_Suc_eq)

lemma seps_ok_add:
  "seps_ok valid cmp seps blks cur \<Longrightarrow> \<forall>j<length seps. cmp (seps ! j) k < 0 \<Longrightarrow> seps_ok valid cmp seps blks (cur @ [(k, v)])"
  by (auto simp: seps_ok_def)

lemma seps_ok_index:
  assumes "seps_ok valid cmp seps blks []" and l: "length blks = Suc (length seps)" and "valid s"
    and "\<forall>e\<in>set (tk_entries (blks ! length seps)). cmp (fst e) s \<le> 0"
  shows "seps_ok valid cmp (seps @ [s]) blks []"
  unfolding seps_ok_def
proof (intro allI impI)
  fix j assume "j < length (seps @ [s])"
  then consider "j < length seps" | "j = length seps" by fastforce
  then show "valid ((seps @ [s]) ! j) \<and> (\<forall>e\<in>set (tk_entries (blks ! j)). cmp (fst e) ((seps @ [s]) ! j) \<le> 0)
      \<and> (\<forall>m<length blks. j < m \<longrightarrow> (\<forall>e\<in>set (tk_entries (blks ! m)). cmp ((seps @ [s]) ! j) (fst e) < 0))
      \<and> (\<forall>e\<in>set []. cmp ((seps @ [s]) ! j) (fst e) < 0)"
  proof cases
    case 1
    then have "(seps @ [s]) ! j = seps ! j" by (simp add: nth_append)
    with 1 assms(1) show ?thesis unfolding seps_ok_def by simp
  next
    case 2
    then show ?thesis using l assms(3,4) by simp
  qed
qed

lemma filter_inv_same:
  assumes "filter_inv opt blks cur b" and "tb_filter_block b' = tb_filter_block b" and "tb_offset b' = tb_offset b"
  shows "filter_inv opt blks cur b'"
  using assms(1) unfolding filter_inv_def assms(2,3) .

lemma filter_inv_start:
  assumes "start_filter_block (tb_offset b) b = Some b'" and "\<And>p. to_filter_policy opt = Some p \<Longrightarrow> appending_filter_policy handles p"
    and "filter_inv opt blks cur b0" and "tb_filter_block b = tb_filter_block b0" and "tk_entries k = cur"
    and "bh_offset (tk_handle k) = tb_offset b0"
  shows "filter_inv opt (blks @ [k]) [] b' \<and> (\<exists>fb. b' = b\<lparr>tb_filter_block := fb\<rparr>)"
proof (cases "tb_filter_block b")
  case None
  then have "b' = b\<lparr>tb_filter_block := None\<rparr>" using assms(1) by (simp add: start_filter_block_def)
  then show ?thesis using assms(3,4) None by (auto simp: filter_inv_def)
next
  case (Some pf)
  obtain p fb where pf: "pf = (p, fb)" by fastforce
  obtain fb' where fb': "StartBlock p (tb_offset b) fb = Some fb'" "b' = b\<lparr>tb_filter_block := Some (p, fb')\<rparr>"
    using assms(1) Some pf by (auto simp: start_filter_block_def)
  have fb: "tb_filter_block b0 = Some (p, fb)" using assms(4) Some pf by simp
  obtain gs ks where g: "fb_holds p gs ks fb" "length (concat (gs @ [ks])) = length (entries_of blks @ cur)"
    "length gs = unat (tb_offset b0 div kFilterBase)" "to_filter_policy opt = Some p"
    "\<forall>blk\<in>set blks. \<forall>e\<in>set (tk_entries blk). in_group gs ks (unat (bh_offset (tk_handle blk) div kFilterBase)) (fst e)"
    "\<forall>e\<in>set cur. in_group gs ks (length gs) (fst e)"
    using assms(3) fb unfolding filter_inv_def by auto
  obtain gs' ks' where g': "fb_holds p gs' ks' fb'" "length gs' = unat (tb_offset b div kFilterBase)"
    "\<forall>i k. in_group gs ks i k \<longrightarrow> in_group gs' ks' i k" "length (concat (gs' @ [ks'])) = length (concat (gs @ [ks]))"
    using appending_filter_policy.StartBlock_keys [OF assms(2) [OF g(4)] g(1) fb'(1)] by blast
  then have "filter_inv opt (blks @ [k]) [] b'"
    using g fb'(2) assms(5,6) by (auto simp: filter_inv_def entries_of_snoc intro!: exI [of _ gs'] exI [of _ ks'])
  with fb'(2) show ?thesis by blast
qed

context table_writer
begin

lemma Flush_inv:
  assumes core: "tb_core sn opt valid bytes_of blks seps cur b" and run: "TableBuilder_Flush ops sn b = Some b'" and ok: "tb_ok b'"
    and last: "cur \<noteq> [] \<Longrightarrow> tb_last_key b = fst (last cur)" and "cur = [] \<Longrightarrow> tb_inv sn opt valid bytes_of blks seps cur b"
  shows "\<exists>blks'. tb_inv sn opt valid bytes_of blks' seps [] b' \<and> entries_of blks' = entries_of blks @ cur"
proof -
  have okb: "tb_ok b"
  proof (rule ccontr)
    assume "\<not> tb_ok b"
    then have "b' = b" using run by (simp add: TableBuilder_Flush_def split: if_splits)
    then show False using ok \<open>\<not> tb_ok b\<close> by simp
  qed
  have data: "tb_data_block b = foldl add_entry (BlockBuilder_new (to_restart_interval opt)) cur" using core by (simp add: tb_core_def)
  show ?thesis
  proof (cases "cur = []")
    case True
    then have "b' = b" using run okb data core by (simp add: TableBuilder_Flush_def BlockBuilder_empty_foldl tb_core_def)
    then show ?thesis using assms(5) True by auto
  next
    case False
    then have pend: "\<not> tb_pending_index_entry b" "length blks = length seps" using core by (auto simp: tb_core_def split: if_splits)
    obtain h block b1 where w: "WriteBlock ops sn (tb_data_block b) b = Some (h, block, b1)"
      and rest: "start_filter_block (tb_offset b1) (if tb_ok b1 then let (s, f) = wf_Flush ops (tb_file b1)
          in b1\<lparr>tb_data_block := block, tb_pending_handle := h, tb_pending_index_entry := True, tb_status := s, tb_file := f\<rparr>
        else b1\<lparr>tb_data_block := block, tb_pending_handle := h\<rparr>) = Some b'"
      using run okb data False core pend
      by (auto simp: TableBuilder_Flush_def BlockBuilder_empty_foldl tb_core_def tb_ok_def Let_def split: bind_splits prod.splits if_splits)
    have keep: "tb_status b2' = tb_status b2" if "start_filter_block off b2 = Some b2'" for off b2 and b2' :: "'f table_builder"
      using that by (auto simp: start_filter_block_def split: option.splits)
    have ok1: "tb_ok b1"
    proof (rule ccontr)
      assume "\<not> tb_ok b1"
      then show False using keep [OF rest] ok by (simp add: tb_ok_def)
    qed
    obtain s f where fl: "wf_Flush ops (tb_file b1) = (s, f)" by fastforce
    define b2 where "b2 = b1\<lparr>tb_data_block := block, tb_pending_handle := h, tb_pending_index_entry := True, tb_status := s, tb_file := f\<rparr>"
    have start: "start_filter_block (tb_offset b2) b2 = Some b'" using rest ok1 fl by (simp add: b2_def)
    have s: "status_ok s" using keep [OF start] ok by (simp add: tb_ok_def b2_def)
    have opt: "tb_options b = opt" using core by (simp add: tb_core_def)
    obtain c t s1 f1 where wr: "stores sn (build_block (to_restart_interval opt) cur) c t" "bytes_of (tb_file b1) = bytes_of (tb_file b) @ raw_block c t"
      "h = \<lparr>bh_offset = tb_offset b, bh_size = of_nat (length c)\<rparr>"
      "b1 = b\<lparr>tb_status := s1, tb_file := f1, tb_offset := tb_offset b + of_nat (length (raw_block c t))\<rparr>"
      and block: "block = BlockBuilder_new (to_restart_interval opt)"
      using WriteBlock_ok [OF w [unfolded data] ok1] compression unfolding opt by blast
    define k where "k = \<lparr>tk_entries = cur, tk_handle = h, tk_contents = c, tk_type = t\<rparr>"
    have "filter_inv opt (blks @ [k]) [] b' \<and> (\<exists>fb. b' = b2\<lparr>tb_filter_block := fb\<rparr>)"
      by (rule filter_inv_start [OF start policy, of opt blks cur b]) (use core wr(3,4) in \<open>auto simp: tb_core_def k_def b2_def\<close>)
    then obtain fb where filt: "filter_inv opt (blks @ [k]) [] b'" and b': "b' = b2\<lparr>tb_filter_block := fb\<rparr>" by blast
    have place: "\<forall>j<length (blks @ [k]). block_in_place sn (to_restart_interval opt) (blks @ [k]) j"
      by (rule block_in_place_snoc) (use core wr(1,3) False in \<open>auto simp: tb_core_def k_def\<close>)
    have "bytes_of f = blocks_bytes (blks @ [k])" using flush [OF fl] wr(2) core by (simp add: blocks_bytes_snoc k_def tb_core_def)
    moreover have "seps_ok valid (cmp_Compare (to_comparator opt)) seps (blks @ [k]) []"
      by (rule seps_ok_flush [of _ _ _ _ cur]) (use core pend in \<open>auto simp: tb_core_def k_def\<close>)
    ultimately have "tb_core sn opt valid bytes_of (blks @ [k]) seps [] b'"
      using core filt place wr block pend unfolding tb_core_def
      by (simp add: b' b2_def blocks_bytes_snoc entries_of_snoc k_def index_entries_snoc)
    then have "tb_inv sn opt valid bytes_of (blks @ [k]) seps [] b'"
      using last [OF False] False wr(4) by (simp add: tb_inv_def entries_of_snoc k_def b' b2_def)
    then show ?thesis by (auto simp: entries_of_snoc k_def)
  qed
qed

text \<open>The index entry of the last block.\<close>

lemma add_index_entry_core:
  assumes core: "tb_core sn opt valid bytes_of blks seps [] b" and pend: "tb_pending_index_entry b"
    and add: "add_index_entry s b = Some b'" and s: "valid s" "\<forall>e\<in>set (tk_entries (last blks)). cmp_Compare (to_comparator opt) (fst e) s \<le> 0"
  shows "tb_core sn opt valid bytes_of blks (seps @ [s]) [] b'" and "blks \<noteq> []" and "\<not> tb_pending_index_entry b'"
    and "tb_status b' = tb_status b"
proof -
  have l: "length blks = Suc (length seps)" and blks: "blks \<noteq> []" using core pend by (auto simp: tb_core_def)
  then have last: "last blks = blks ! length seps" by (simp add: last_conv_nth)
  obtain e where e: "BlockHandle_EncodeTo (tb_pending_handle b) [] = Some e"
    and b': "b' = b\<lparr>tb_last_key := s, tb_index_block := BlockBuilder_Add (tb_index_block b) s e, tb_pending_index_entry := False\<rparr>"
    using add by (auto simp: add_index_entry_def)
  have "e = handle_bytes (tk_handle (last blks))" using EncodeTo_handle_bytes [OF e] core pend by (simp add: tb_core_def)
  then have "tb_index_block b' = foldl add_entry (BlockBuilder_new 1) (index_entries (seps @ [s]) blks)"
    using core by (simp add: b' tb_core_def index_entries_last [OF blks l])
  moreover have "seps_ok valid (cmp_Compare (to_comparator opt)) (seps @ [s]) blks []"
    by (rule seps_ok_index) (use core s l last in \<open>auto simp: tb_core_def\<close>)
  moreover have "filter_inv opt blks [] b" using core by (simp add: tb_core_def)
  then have "filter_inv opt blks [] b'" by (rule filter_inv_same) (simp_all add: b')
  ultimately show "tb_core sn opt valid bytes_of blks (seps @ [s]) [] b'" using core pend unfolding tb_core_def by (simp add: b')
  show "blks \<noteq> []" "\<not> tb_pending_index_entry b'" "tb_status b' = tb_status b" using blks by (simp_all add: b')
qed

lemma add_key_core:
  assumes core: "tb_core sn opt valid bytes_of blks seps cur b" and "\<not> tb_pending_index_entry b"
    and less: "\<forall>j<length seps. cmp_Compare (to_comparator opt) (seps ! j) k < 0"
    and b': "b' = b\<lparr>tb_filter_block := map_option (map_prod id (AddKey k)) (tb_filter_block b), tb_last_key := k,
      tb_num_entries := tb_num_entries b + 1, tb_data_block := BlockBuilder_Add (tb_data_block b) k v\<rparr>"
  shows "tb_core sn opt valid bytes_of blks seps (cur @ [(k, v)]) b'"
proof -
  have "filter_inv opt blks (cur @ [(k, v)]) b'"
  proof (cases "tb_filter_block b")
    case None
    then show ?thesis using core by (simp add: tb_core_def filter_inv_def b')
  next
    case (Some pf)
    obtain p fb where pf: "pf = (p, fb)" by fastforce
    obtain gs ks where g: "fb_holds p gs ks fb" "length (concat (gs @ [ks])) = length (entries_of blks @ cur)"
      "length gs = unat (tb_offset b div kFilterBase)" "to_filter_policy opt = Some p"
      "\<forall>blk\<in>set blks. \<forall>e\<in>set (tk_entries blk). in_group gs ks (unat (bh_offset (tk_handle blk) div kFilterBase)) (fst e)"
      "\<forall>e\<in>set cur. in_group gs ks (length gs) (fst e)"
      using core Some pf unfolding tb_core_def filter_inv_def by auto
    have "fb_holds p gs (ks @ [k]) (AddKey k fb)" by (rule fb_holds_AddKey [OF g(1)])
    moreover have "\<forall>blk\<in>set blks. \<forall>e\<in>set (tk_entries blk). in_group gs (ks @ [k]) (unat (bh_offset (tk_handle blk) div kFilterBase)) (fst e)"
      "\<forall>e\<in>set (cur @ [(k, v)]). in_group gs (ks @ [k]) (length gs) (fst e)"
      using g(5,6) in_group_AddKey(1) [of gs ks _ _ k] in_group_AddKey(2) [of gs ks k] by auto
    moreover have "length (concat (gs @ [ks @ [k]])) = length (entries_of blks @ cur @ [(k, v)])" using g(2) by simp
    moreover have "tb_filter_block b' = Some (p, AddKey k fb)" "tb_offset b' = tb_offset b" using Some pf by (simp_all add: b')
    ultimately show ?thesis using g(3,4) unfolding filter_inv_def by (auto intro!: exI [of _ gs] exI [of _ "ks @ [k]"])
  qed
  moreover have "seps_ok valid (cmp_Compare (to_comparator opt)) seps blks (cur @ [(k, v)])"
    by (rule seps_ok_add) (use core less in \<open>auto simp: tb_core_def\<close>)
  ultimately show ?thesis using core assms(2) unfolding tb_core_def by (simp add: b')
qed

lemma seps_below:
  assumes inv: "tb_inv sn opt valid bytes_of blks seps cur b" and kvs: "sorted_entries valid opt (entries_of blks @ cur @ [(k, v)])" and j: "j < length seps"
  shows "cmp_Compare (to_comparator opt) (seps ! j) k < 0"
proof -
  have core: "tb_core sn opt valid bytes_of blks seps cur b" using inv by (simp add: tb_inv_def)
  obtain e where e: "e \<in> set (entries_of blks @ cur)" "cmp_Compare (to_comparator opt) (seps ! j) (fst e) < 0"
  proof (cases "Suc j < length blks")
    case True
    then have m: "Suc j < length blks" "tk_entries (blks ! Suc j) \<noteq> []" using core by (auto simp: tb_core_def block_in_place_def)
    then obtain e where "e \<in> set (tk_entries (blks ! Suc j))" by (cases "tk_entries (blks ! Suc j)") auto
    moreover from this have "e \<in> set (entries_of blks)" using m by (auto simp: entries_of_def)
    ultimately show ?thesis using core j m by (intro that [of e]) (auto simp: tb_core_def seps_ok_def)
  next
    case False
    then have "\<not> tb_pending_index_entry b" "blks \<noteq> []" using core j by (auto simp: tb_core_def split: if_splits)
    then have "cur \<noteq> []" using inv by (simp add: tb_inv_def)
    then obtain e where "e \<in> set cur" by (cases cur) auto
    then show ?thesis using core j by (intro that [of e]) (auto simp: tb_core_def seps_ok_def)
  qed
  have "cmp_Compare (to_comparator opt) (fst e) k < 0" using kvs e(1) by (auto simp: sorted_entries_def sorted_wrt_append)
  moreover have "valid (fst e)" "valid k" "valid (seps ! j)" using kvs e(1) core j by (auto simp: sorted_entries_def tb_core_def seps_ok_def)
  ultimately show ?thesis using trans [OF _ _ _ e(2)] by blast
qed

lemma Add_inv:
  assumes inv: "tb_inv sn opt valid bytes_of blks seps cur b" and add: "TableBuilder_Add ops sn k v b = Some b'" and ok: "tb_ok b'"
    and kvs: "sorted_entries valid opt (entries_of blks @ cur @ [(k, v)])"
  shows "\<exists>blks' seps' cur'. tb_inv sn opt valid bytes_of blks' seps' cur' b' \<and> entries_of blks' @ cur' = entries_of blks @ cur @ [(k, v)]"
proof -
  have core: "tb_core sn opt valid bytes_of blks seps cur b" and opt: "tb_options b = opt" "\<not> tb_closed b"
    using inv by (auto simp: tb_inv_def tb_core_def)
  have okb: "tb_ok b"
  proof (rule ccontr)
    assume "\<not> tb_ok b"
    then have "b' = b" using add opt by (simp add: TableBuilder_Add_def)
    then show False using ok \<open>\<not> tb_ok b\<close> by simp
  qed
  define stage1 where "stage1 = (if tb_pending_index_entry b then
      if \<not> BlockBuilder_empty (tb_data_block b) then None
      else add_index_entry (cmp_FindShortestSeparator (to_comparator opt) (tb_last_key b) k) b else Some b)"
  define stage2 where "stage2 b1 = (let b2 = b1\<lparr>tb_filter_block := map_option (map_prod id (AddKey k)) (tb_filter_block b1)\<rparr>;
      b3 = b2\<lparr>tb_last_key := k, tb_num_entries := tb_num_entries b2 + 1, tb_data_block := BlockBuilder_Add (tb_data_block b2) k v\<rparr>
    in if CurrentSizeEstimate (tb_data_block b3) \<ge> unat (to_block_size (tb_options b3)) then TableBuilder_Flush ops sn b3 else Some b3)" for b1
  define misplaced where "misplaced \<longleftrightarrow> 0 <s tb_num_entries b \<and> \<not> cmp_Compare (to_comparator opt) k (tb_last_key b) > 0"
  have "TableBuilder_Add ops sn k v b =
      (if tb_closed b then None else if \<not> tb_ok b then Some b else if misplaced then None else stage1 \<bind> stage2)"
    unfolding TableBuilder_Add_def stage1_def stage2_def [abs_def] misplaced_def opt(1) by (simp only: id_def map_prod_def)
  then have stages: "stage1 \<bind> stage2 = Some b'" using add opt(2) okb by (auto split: if_splits)
  then obtain b1 where b1: "stage1 = Some b1" by (cases stage1) auto
  obtain seps1 where core1: "tb_core sn opt valid bytes_of blks seps1 cur b1" and np: "\<not> tb_pending_index_entry b1"
    and less: "\<forall>j<length seps1. cmp_Compare (to_comparator opt) (seps1 ! j) k < 0"
  proof (cases "tb_pending_index_entry b")
    case False
    then show ?thesis using b1 core seps_below [OF inv kvs] by (intro that [of seps]) (auto simp: stage1_def)
  next
    case True
    then have cur: "cur = []" and blks: "blks \<noteq> []" using core by (auto simp: tb_core_def)
    then have "length blks - 1 < length blks" by simp
    then have "tk_entries (blks ! (length blks - 1)) \<noteq> []" using core unfolding tb_core_def block_in_place_def by blast
    moreover have "entries_of blks = entries_of (butlast blks) @ tk_entries (last blks)"
      using blks entries_of_snoc [of "butlast blks" "last blks"] by simp
    ultimately have ents: "tk_entries (last blks) \<noteq> []" "entries_of blks = entries_of (butlast blks) @ tk_entries (last blks)"
      using blks by (simp_all add: last_conv_nth)
    then have lk: "tb_last_key b = fst (last (tk_entries (last blks)))" using inv cur by (simp add: tb_inv_def)
    define l where "l = last (tk_entries (last blks))"
    have l: "l \<in> set (tk_entries (last blks))" using ents(1) by (simp add: l_def)
    then have v: "valid (fst l)" "valid k" "cmp_Compare (to_comparator opt) (fst l) k < 0"
      using kvs ents(2) cur by (auto simp: sorted_entries_def sorted_wrt_append)
    define s where "s = cmp_FindShortestSeparator (to_comparator opt) (fst l) k"
    have s: "valid s" "cmp_Compare (to_comparator opt) (fst l) s \<le> 0" "cmp_Compare (to_comparator opt) s k < 0"
      using separates [OF v] by (auto simp: s_def)
    have "cmp_Compare (to_comparator opt) (fst e) s \<le> 0" if "e \<in> set (tk_entries (last blks))" for e
    proof -
      have "sorted_wrt (\<lambda>a b. cmp_Compare (to_comparator opt) (fst a) (fst b) < 0) (butlast (tk_entries (last blks)) @ [l])"
        using kvs ents cur by (simp add: sorted_entries_def sorted_wrt_append l_def)
      moreover have "e \<in> set (butlast (tk_entries (last blks)) @ [l])" using that ents(1) by (simp add: l_def)
      ultimately have "e = l \<or> cmp_Compare (to_comparator opt) (fst e) (fst l) < 0" by (auto simp: sorted_wrt_append)
      moreover have "valid (fst e)" using kvs ents(2) that by (auto simp: sorted_entries_def)
      ultimately show ?thesis using s order_trans [of "fst e" "fst l" s] v(1) by (metis less_imp_le)
    qed
    then have add1: "add_index_entry s b = Some b1" "\<forall>e\<in>set (tk_entries (last blks)). cmp_Compare (to_comparator opt) (fst e) s \<le> 0"
      using b1 True lk by (auto simp: stage1_def s_def l_def split: if_splits)
    note step = add_index_entry_core [OF core [unfolded cur] True add1(1) s(1) add1(2)]
    have "cmp_Compare (to_comparator opt) ((seps @ [s]) ! j) k < 0" if "j < length (seps @ [s])" for j
      using that s(3) seps_below [OF inv kvs, of j] by (cases "j = length seps") (simp_all add: nth_append)
    then show ?thesis using step cur by (intro that [of "seps @ [s]"]) auto
  qed
  define b2 where "b2 = b1\<lparr>tb_filter_block := map_option (map_prod id (AddKey k)) (tb_filter_block b1), tb_last_key := k,
      tb_num_entries := tb_num_entries b1 + 1, tb_data_block := BlockBuilder_Add (tb_data_block b1) k v\<rparr>"
  have core2: "tb_core sn opt valid bytes_of blks seps1 (cur @ [(k, v)]) b2" by (rule add_key_core [OF core1 np less b2_def])
  have run: "(if CurrentSizeEstimate (tb_data_block b2) \<ge> unat (to_block_size (tb_options b2)) then TableBuilder_Flush ops sn b2 else Some b2) = Some b'"
    using stages b1 by (simp add: stage2_def b2_def Let_def split: if_splits)
  show ?thesis
  proof (cases "CurrentSizeEstimate (tb_data_block b2) \<ge> unat (to_block_size (tb_options b2))")
    case True
    then have "TableBuilder_Flush ops sn b2 = Some b'" using run by simp
    from Flush_inv [OF core2 this ok] obtain blks' where "tb_inv sn opt valid bytes_of blks' seps1 [] b'"
      "entries_of blks' = entries_of blks @ cur @ [(k, v)]" by (auto simp: b2_def)
    then show ?thesis by force
  next
    case False
    then have "b' = b2" using run by simp
    then show ?thesis using core2 by (intro exI [of _ blks] exI [of _ seps1] exI [of _ "cur @ [(k, v)]"]) (simp add: tb_inv_def b2_def)
  qed
qed

end

end
