(* ===== verification/Ldb_TableBuilder_Props.thy ===== *)
theory Ldb_TableBuilder_Props
  imports Ldb_TableBuilder_Spec
begin

text \<open>What \<^verbatim>\<open>TableBuilder::Finish\<close> leaves in the file: the layout of a whole table, from the invariant of the builder.\<close>

section \<open>The layout of a table\<close>

text \<open>A block with these contents is stored at a handle, with its trailer.\<close>

definition holds_block :: "snappy_ops \<Rightarrow> slice \<Rightarrow> block_handle \<Rightarrow> slice \<Rightarrow> bool" where
  "holds_block sn bytes h raw \<longleftrightarrow> (\<exists>pre c t post. bytes = pre @ raw_block c t @ post
     \<and> h = \<lparr>bh_offset = of_nat (length pre), bh_size = of_nat (length c)\<rparr> \<and> stores sn raw c t)"

lemma holds_block_append: "holds_block sn bytes h raw \<Longrightarrow> holds_block sn (bytes @ bs) h raw"
  unfolding holds_block_def by (metis append.assoc)

text \<open>The entries of the metaindex block and the filter they lead to.\<close>

definition filter_stored :: "snappy_ops \<Rightarrow> table_options \<Rightarrow> (nat \<Rightarrow> bool) \<Rightarrow> table_block list \<Rightarrow> (slice \<times> slice) list \<Rightarrow> slice \<Rightarrow> bool" where
  "filter_stored sn opt handles blks meta bytes \<longleftrightarrow>
     (case to_filter_policy opt of
        None \<Rightarrow> meta = []
      | Some p \<Rightarrow> (\<exists>fh filter. meta = [(filter_key p, handle_bytes fh)] \<and> holds_block sn bytes fh filter
          \<and> (length filter < 2 ^ 32 \<longrightarrow> (\<forall>n\<le>length (entries_of blks). handles n) \<longrightarrow>
             (\<forall>k\<in>set blks. \<forall>e\<in>set (tk_entries k).
                FilterBlock_KeyMayMatch p (bh_offset (tk_handle k)) (fst e) (FilterBlockReader_new filter) = Some True))))"

text \<open>The data blocks come first; the index has an entry for each of them, and the footer leads to it and to the metaindex.\<close>

definition table_layout :: "snappy_ops \<Rightarrow> table_options \<Rightarrow> (slice \<Rightarrow> bool) \<Rightarrow> (nat \<Rightarrow> bool) \<Rightarrow> table_block list \<Rightarrow> slice list
    \<Rightarrow> (slice \<times> slice) list \<Rightarrow> footer \<Rightarrow> slice \<Rightarrow> bool" where
  "table_layout sn opt valid handles blks seps meta foot bytes \<longleftrightarrow>
     (\<exists>rest. bytes = blocks_bytes blks @ rest) \<and> (\<forall>j<length blks. block_in_place sn (to_restart_interval opt) blks j)
     \<and> length seps = length blks \<and> seps_ok valid (cmp_Compare (to_comparator opt)) seps blks []
     \<and> filter_stored sn opt handles blks meta bytes
     \<and> holds_block sn bytes (ft_metaindex_handle foot) (build_block (to_restart_interval opt) meta)
     \<and> holds_block sn bytes (ft_index_handle foot) (build_block 1 (index_entries seps blks))
     \<and> (\<exists>pre fbytes. bytes = pre @ fbytes \<and> Footer_EncodeTo foot [] = Some fbytes)"

section \<open>Writing\<close>

text \<open>A block was written behind what was in the file; the members that it does not concern are unchanged.\<close>

definition wrote :: "('f \<Rightarrow> slice) \<Rightarrow> slice \<Rightarrow> u8 \<Rightarrow> 'f table_builder \<Rightarrow> block_handle \<Rightarrow> 'f table_builder \<Rightarrow> bool" where
  "wrote bytes_of c t b h b' \<longleftrightarrow> bytes_of (tb_file b') = bytes_of (tb_file b) @ raw_block c t
     \<and> h = \<lparr>bh_offset = tb_offset b, bh_size = of_nat (length c)\<rparr>
     \<and> (\<exists>s f. b' = b\<lparr>tb_status := s, tb_file := f, tb_offset := tb_offset b + of_nat (length (raw_block c t))\<rparr>)"

definition at_end_of :: "('f \<Rightarrow> slice) \<Rightarrow> 'f table_builder \<Rightarrow> bool" where
  "at_end_of bytes_of b \<longleftrightarrow> tb_offset b = of_nat (length (bytes_of (tb_file b)))"

lemma wrote_at_end: "wrote bytes_of c t b h b' \<Longrightarrow> at_end_of bytes_of b \<Longrightarrow> at_end_of bytes_of b'"
  by (auto simp: wrote_def at_end_of_def)

lemma wrote_holds:
  "wrote bytes_of c t b h b' \<Longrightarrow> at_end_of bytes_of b \<Longrightarrow> stores sn raw c t \<Longrightarrow> holds_block sn (bytes_of (tb_file b')) h raw"
  unfolding wrote_def at_end_of_def holds_block_def
  by (rule exI [of _ "bytes_of (tb_file b)"], rule exI [of _ c], rule exI [of _ t], rule exI [of _ "[]"]) auto

lemma wrote_keeps:
  "wrote bytes_of c t b h b' \<Longrightarrow> tb_options b' = tb_options b \<and> tb_filter_block b' = tb_filter_block b
    \<and> tb_pending_index_entry b' = tb_pending_index_entry b \<and> tb_pending_handle b' = tb_pending_handle b
    \<and> tb_last_key b' = tb_last_key b \<and> tb_index_block b' = tb_index_block b \<and> tb_num_entries b' = tb_num_entries b"
  by (auto simp: wrote_def)

lemma wrote_bytes: "wrote bytes_of c t b h b' \<Longrightarrow> bytes_of (tb_file b') = bytes_of (tb_file b) @ raw_block c t"
  by (simp add: wrote_def)

context log_dest
begin

lemma WriteRawBlock_wrote: "WriteRawBlock ops c t b = (h, b') \<Longrightarrow> tb_ok b' \<Longrightarrow> wrote contents c t b h b'"
  using WriteRawBlock_ok unfolding wrote_def by blast

lemma WriteBlock_wrote:
  assumes "WriteBlock ops sn (foldl add_entry (BlockBuilder_new n) es) b = Some (h, block, b')" and "tb_ok b'"
    and "to_compression (tb_options b) = kNoCompression \<or> to_compression (tb_options b) = kSnappyCompression"
  shows "\<exists>c t. stores sn (build_block n es) c t \<and> wrote contents c t b h b'"
  using WriteBlock_ok(2) [OF assms] unfolding wrote_def by blast

lemma finish_steps_ok:
  "write_filter_block ops b = (h, b') \<Longrightarrow> tb_ok b' \<Longrightarrow> tb_ok b"
  "write_metaindex_block ops sn fh b = Some (h, b') \<Longrightarrow> tb_ok b' \<Longrightarrow> tb_ok b"
  "write_index_block ops sn b = Some (h, b') \<Longrightarrow> tb_ok b' \<Longrightarrow> tb_ok b"
  "write_footer ops mh ih b = Some b' \<Longrightarrow> tb_ok b' \<Longrightarrow> tb_ok b"
  by (auto simp: write_filter_block_def write_metaindex_block_def write_index_block_def write_footer_def split: bool.splits if_splits)

lemma write_filter_block_wrote:
  assumes w: "write_filter_block ops b = (h, b')" and ok: "tb_ok b'"
  shows "tb_filter_block b = None \<Longrightarrow> b' = b"
    and "tb_filter_block b = Some (p, fb) \<Longrightarrow> \<exists>b1 fb' c. b1 = b\<lparr>tb_filter_block := Some (p, fb')\<rparr> \<and> c = fst (FilterBlock_Finish p fb)
      \<and> wrote contents c kNoCompression b1 h b'"
proof -
  note okb = finish_steps_ok(1) [OF w ok]
  show "b' = b" if "tb_filter_block b = None" using w that by (simp add: write_filter_block_def split: bool.splits)
  assume fb: "tb_filter_block b = Some (p, fb)"
  obtain c fb' where c: "FilterBlock_Finish p fb = (c, fb')" by fastforce
  then have "WriteRawBlock ops c kNoCompression (b\<lparr>tb_filter_block := Some (p, fb')\<rparr>) = (h, b')"
    using w okb fb by (simp add: write_filter_block_def)
  from WriteRawBlock_wrote [OF this ok] c
  show "\<exists>b1 fb' c. b1 = b\<lparr>tb_filter_block := Some (p, fb')\<rparr> \<and> c = fst (FilterBlock_Finish p fb) \<and> wrote contents c kNoCompression b1 h b'"
    by auto
qed

text \<open>The entries of the metaindex block: one for the filter, if there is one.\<close>

lemma write_metaindex_block_wrote:
  assumes w: "write_metaindex_block ops sn fh b = Some (h, b')" and ok: "tb_ok b'"
    and "to_compression (tb_options b) = kNoCompression \<or> to_compression (tb_options b) = kSnappyCompression"
  shows "\<exists>c t meta. stores sn (build_block (to_restart_interval (tb_options b)) meta) c t \<and> wrote contents c t b h b'
      \<and> (case tb_filter_block b of None \<Rightarrow> meta = []
         | Some _ \<Rightarrow> \<exists>p. to_filter_policy (tb_options b) = Some p \<and> meta = [(filter_key p, handle_bytes fh)])"
proof -
  note okb = finish_steps_ok(2) [OF w ok]
  define n where "n = to_restart_interval (tb_options b)"
  obtain meta block where wb: "WriteBlock ops sn (foldl add_entry (BlockBuilder_new n) meta) b = Some (h, block, b')"
    and m: "case tb_filter_block b of None \<Rightarrow> meta = []
         | Some _ \<Rightarrow> \<exists>p. to_filter_policy (tb_options b) = Some p \<and> meta = [(filter_key p, handle_bytes fh)]"
  proof (cases "tb_filter_block b")
    case None
    with w okb obtain block where "WriteBlock ops sn (BlockBuilder_new n) b = Some (h, block, b')"
      by (auto simp: write_metaindex_block_def n_def Let_def split: bind_splits)
    then show ?thesis using None by (intro that [of "[]" block]) simp_all
  next
    case (Some pf)
    with w okb obtain p e block where p: "to_filter_policy (tb_options b) = Some p" "BlockHandle_EncodeTo fh [] = Some e"
      "WriteBlock ops sn (BlockBuilder_Add (BlockBuilder_new n) (filter_key p) e) b = Some (h, block, b')"
      by (auto simp: write_metaindex_block_def n_def Let_def split: bind_splits)
    then show ?thesis using Some EncodeTo_handle_bytes [OF p(2)] by (intro that [of "[(filter_key p, handle_bytes fh)]" block]) simp_all
  qed
  from WriteBlock_wrote [OF wb ok assms(3)] m
  show "\<exists>c t meta. stores sn (build_block (to_restart_interval (tb_options b)) meta) c t \<and> wrote contents c t b h b'
      \<and> (case tb_filter_block b of None \<Rightarrow> meta = []
         | Some _ \<Rightarrow> \<exists>p. to_filter_policy (tb_options b) = Some p \<and> meta = [(filter_key p, handle_bytes fh)])"
    unfolding n_def by blast
qed

lemma write_index_block_wrote:
  assumes w: "write_index_block ops sn b = Some (h, b')" and ok: "tb_ok b'"
    and "to_compression (tb_options b) = kNoCompression \<or> to_compression (tb_options b) = kSnappyCompression"
    and index: "tb_index_block b = foldl add_entry (BlockBuilder_new 1) idx"
  shows "\<exists>c t b1 b2. stores sn (build_block 1 (if tb_pending_index_entry b then idx @
        [(cmp_FindShortSuccessor (to_comparator (tb_options b)) (tb_last_key b), handle_bytes (tb_pending_handle b))] else idx)) c t
      \<and> wrote contents c t b1 h b2 \<and> tb_file b1 = tb_file b \<and> tb_offset b1 = tb_offset b \<and> tb_file b' = tb_file b2 \<and> tb_offset b' = tb_offset b2
      \<and> tb_status b' = tb_status b2"
proof -
  note okb = finish_steps_ok(3) [OF w ok]
  define last where "last = cmp_FindShortSuccessor (to_comparator (tb_options b)) (tb_last_key b)"
  define idx' where "idx' = (if tb_pending_index_entry b then idx @ [(last, handle_bytes (tb_pending_handle b))] else idx)"
  from w okb obtain b1 block b2 where b1: "(if tb_pending_index_entry b then add_index_entry last b else Some b) = Some b1"
    and wb: "WriteBlock ops sn (tb_index_block b1) b1 = Some (h, block, b2)" and b': "b' = b2\<lparr>tb_index_block := block\<rparr>"
    unfolding last_def by (fastforce simp: write_index_block_def split: bind_splits)
  have same: "tb_index_block b1 = foldl add_entry (BlockBuilder_new 1) idx' \<and> tb_file b1 = tb_file b \<and> tb_offset b1 = tb_offset b
      \<and> tb_options b1 = tb_options b"
    using b1 index EncodeTo_handle_bytes [of "tb_pending_handle b"] by (auto simp: idx'_def add_index_entry_def split: if_splits)
  have "tb_ok b2" using ok b' by (simp add: tb_ok_def)
  with WriteBlock_wrote [OF wb [unfolded same [THEN conjunct1]]] assms(3) same
  obtain c t where "stores sn (build_block 1 idx') c t" "wrote contents c t b1 h b2" by auto
  then show "\<exists>c t b1 b2. stores sn (build_block 1 (if tb_pending_index_entry b then idx @
        [(cmp_FindShortSuccessor (to_comparator (tb_options b)) (tb_last_key b), handle_bytes (tb_pending_handle b))] else idx)) c t
      \<and> wrote contents c t b1 h b2 \<and> tb_file b1 = tb_file b \<and> tb_offset b1 = tb_offset b \<and> tb_file b' = tb_file b2 \<and> tb_offset b' = tb_offset b2
      \<and> tb_status b' = tb_status b2"
    using same b' unfolding idx'_def last_def by (intro exI [of _ c] exI [of _ t] exI [of _ b1] exI [of _ b2]) simp
qed

lemma write_footer_wrote:
  assumes w: "write_footer ops mh ih b = Some b'" and ok: "tb_ok b'"
  shows "\<exists>e. Footer_EncodeTo \<lparr>ft_metaindex_handle = mh, ft_index_handle = ih\<rparr> [] = Some e
      \<and> contents (tb_file b') = contents (tb_file b) @ e" and "at_end_of contents b \<Longrightarrow> at_end_of contents b'"
proof -
  note okb = finish_steps_ok(4) [OF w ok]
  obtain e where e: "Footer_EncodeTo \<lparr>ft_metaindex_handle = mh, ft_index_handle = ih\<rparr> [] = Some e"
    using w okb by (auto simp: write_footer_def split: bind_splits)
  obtain s f where a: "wf_Append ops e (tb_file b) = (s, f)" by fastforce
  have s: "status_ok s" using w okb e a ok by (auto simp: write_footer_def tb_ok_def Let_def split: if_splits)
  then have "contents f = contents (tb_file b) @ e" using append [OF a] by auto
  then show "\<exists>e. Footer_EncodeTo \<lparr>ft_metaindex_handle = mh, ft_index_handle = ih\<rparr> [] = Some e
      \<and> contents (tb_file b') = contents (tb_file b) @ e" "at_end_of contents b \<Longrightarrow> at_end_of contents b'"
    using w okb e a s by (auto simp: write_footer_def Let_def at_end_of_def)
qed

end

section \<open>Finish\<close>

lemma last_block_below:
  assumes "sorted_entries valid opt (entries_of blks)" and "blks \<noteq> []" and "tk_entries (last blks) \<noteq> []"
    and "valid s" "cmp_Compare (to_comparator opt) (fst (last (entries_of blks))) s \<le> 0" and order: "compare_order valid (cmp_Compare (to_comparator opt))"
  shows "\<forall>e\<in>set (tk_entries (last blks)). cmp_Compare (to_comparator opt) (fst e) s \<le> 0"
proof
  fix e assume e: "e \<in> set (tk_entries (last blks))"
  define l where "l = last (tk_entries (last blks))"
  have ents: "entries_of blks = (entries_of (butlast blks) @ butlast (tk_entries (last blks))) @ [l]"
    using assms(2,3) entries_of_snoc [of "butlast blks" "last blks"] by (simp add: l_def)
  have "e \<in> set (butlast (tk_entries (last blks)) @ [l])" using e assms(3) by (simp add: l_def)
  then have "e = l \<or> cmp_Compare (to_comparator opt) (fst e) (fst l) < 0" and v: "valid (fst e)" "valid (fst l)"
    using assms(1) unfolding sorted_entries_def ents by (auto simp: sorted_wrt_append)
  moreover have "cmp_Compare (to_comparator opt) (fst l) s \<le> 0" using assms(5) unfolding ents by simp
  ultimately show "cmp_Compare (to_comparator opt) (fst e) s \<le> 0"
    using compare_order.order_trans [OF order v(1,2) assms(4)] by auto
qed

context table_writer
begin

lemma tb_inv_new:
  assumes "TableBuilder_new opt file = Some b" and "bytes_of file = []"
  shows "tb_inv sn opt valid bytes_of [] [] [] b"
proof -
  obtain fb where b: "b = \<lparr>tb_options = opt, tb_file = file, tb_offset = 0, tb_status = Status_OK,
      tb_data_block = BlockBuilder_new (to_restart_interval opt), tb_index_block = BlockBuilder_new 1,
      tb_last_key = [], tb_num_entries = 0, tb_closed = False, tb_filter_block = fb, tb_pending_index_entry = False, tb_pending_handle = BlockHandle_new\<rparr>"
    and fb: "case to_filter_policy opt of None \<Rightarrow> fb = None | Some p \<Rightarrow> fb = Some (p, FilterBlockBuilder_new)"
    using assms(1) by (auto simp: TableBuilder_new_def start_filter_block_def StartBlock_def Let_def generate_until.simps FilterBlockBuilder_new_def
        split: option.splits if_splits)
  have "filter_inv opt [] [] b"
  proof (cases "to_filter_policy opt")
    case (Some p)
    then show ?thesis using fb fb_holds_new [of p] by (auto simp: b filter_inv_def entries_of_def intro!: exI [of _ "[]"])
  qed (use fb in \<open>simp add: b filter_inv_def\<close>)
  then show ?thesis using assms(2) by (simp add: tb_inv_def tb_core_def b blocks_bytes_def index_entries_def seps_ok_def entries_of_def)
qed

lemma add_all_inv:
  assumes "tb_inv sn opt valid bytes_of blks seps cur b" and "add_all ops sn kvs b = Some b'" and "tb_ok b'"
    and "sorted_entries valid opt (entries_of blks @ cur @ kvs)"
  shows "\<exists>blks' seps' cur'. tb_inv sn opt valid bytes_of blks' seps' cur' b' \<and> entries_of blks' @ cur' = entries_of blks @ cur @ kvs"
  using assms
proof (induction kvs arbitrary: blks seps cur b)
  case (Cons kv kvs)
  obtain k v where kv: "kv = (k, v)" by fastforce
  from Cons.prems(2) kv obtain b1 where b1: "TableBuilder_Add ops sn k v b = Some b1" and rest: "add_all ops sn kvs b1 = Some b'"
    by (auto split: bind_splits)
  have stay: "add_all ops sn xs c = Some c' \<Longrightarrow> \<not> tb_ok c \<Longrightarrow> c' = c" for xs c c'
    by (induction xs arbitrary: c) (auto simp: TableBuilder_Add_def split: bind_splits if_splits)
  have ok: "tb_ok b1" using stay [OF rest] Cons.prems(3) by blast
  have sorted: "sorted_entries valid opt (entries_of blks @ cur @ [(k, v)])"
    using Cons.prems(4) by (auto simp: kv sorted_entries_def sorted_wrt_append)
  from Add_inv [OF Cons.prems(1) b1 ok sorted] obtain blks1 seps1 cur1 where
    inv1: "tb_inv sn opt valid bytes_of blks1 seps1 cur1 b1" and e1: "entries_of blks1 @ cur1 = entries_of blks @ cur @ [(k, v)]" by blast
  have e2: "entries_of blks1 @ cur1 @ kvs = entries_of blks @ cur @ kv # kvs"
    using arg_cong [OF e1, of "\<lambda>xs. xs @ kvs"] by (simp add: kv)
  show ?case using Cons.IH [OF inv1 rest Cons.prems(3)] Cons.prems(4) unfolding e2 by simp
qed auto

lemma filter_stored_match:
  assumes "filter_inv opt blks [] b" and "tb_filter_block b = Some (p, fb)" and "holds_block sn bytes fh (fst (FilterBlock_Finish p fb))"
  shows "filter_stored sn opt handles blks [(filter_key p, handle_bytes fh)] bytes"
proof -
  obtain gs ks where g: "fb_holds p gs ks fb" "length (concat (gs @ [ks])) = length (entries_of blks)" "to_filter_policy opt = Some p"
    "\<forall>blk\<in>set blks. \<forall>e\<in>set (tk_entries blk). in_group gs ks (unat (bh_offset (tk_handle blk) div kFilterBase)) (fst e)"
    using assms(1,2) unfolding filter_inv_def by auto
  have "FilterBlock_KeyMayMatch p (bh_offset (tk_handle k)) (fst e) (FilterBlockReader_new (fst (FilterBlock_Finish p fb))) = Some True"
    if "length (fst (FilterBlock_Finish p fb)) < 2 ^ 32" "\<forall>n\<le>length (entries_of blks). handles n" "k \<in> set blks" "e \<in> set (tk_entries k)" for k e
    using appending_filter_policy.Finish_match [OF policy [OF g(3)] g(1) _ _ HOL.refl that(1)] g(2,4) that(2-4) by simp
  then show ?thesis unfolding filter_stored_def using assms(3) g(3) by (simp only: option.case) blast
qed

text \<open>The index block, with the entry of the last data block.\<close>

lemma index_complete:
  assumes inv: "tb_inv sn opt valid bytes_of blks seps [] b" and kvs: "sorted_entries valid opt (entries_of blks)"
    and idx: "idx = (if tb_pending_index_entry b then index_entries seps blks @
        [(cmp_FindShortSuccessor (to_comparator opt) (tb_last_key b), handle_bytes (tb_pending_handle b))] else index_entries seps blks)"
  obtains seps' where "length seps' = length blks" and "seps_ok valid (cmp_Compare (to_comparator opt)) seps' blks []"
    and "idx = index_entries seps' blks"
proof (cases "tb_pending_index_entry b")
  case False
  then show ?thesis using inv idx by (intro that [of seps]) (auto simp: tb_inv_def tb_core_def)
next
  case True
  have core: "tb_core sn opt valid bytes_of blks seps [] b" using inv by (simp add: tb_inv_def)
  have l: "length blks = Suc (length seps)" and blks: "blks \<noteq> []" using core True by (auto simp: tb_core_def)
  have "length blks - 1 < length blks" using blks by simp
  then have "block_in_place sn (to_restart_interval opt) blks (length blks - 1)" using core unfolding tb_core_def by blast
  then have ne: "tk_entries (last blks) \<noteq> []" using blks by (simp add: block_in_place_def last_conv_nth)
  have ents: "entries_of blks = entries_of (butlast blks) @ tk_entries (last blks)"
    using blks entries_of_snoc [of "butlast blks" "last blks"] by simp
  define s where "s = cmp_FindShortSuccessor (to_comparator opt) (tb_last_key b)"
  have key: "tb_last_key b = fst (last (entries_of blks))" using inv ents ne by (simp add: tb_inv_def)
  have "valid (tb_last_key b)" using kvs ents ne by (simp add: sorted_entries_def key)
  then have s: "valid s" "cmp_Compare (to_comparator opt) (fst (last (entries_of blks))) s \<le> 0"
    using succeeds by (simp_all add: s_def key)
  have below: "\<forall>e\<in>set (tk_entries (blks ! length seps)). cmp_Compare (to_comparator opt) (fst e) s \<le> 0"
    using last_block_below [OF kvs blks ne s] compare_order_axioms l blks by (simp add: last_conv_nth)
  have "seps_ok valid (cmp_Compare (to_comparator opt)) (seps @ [s]) blks []"
    by (rule seps_ok_index) (use core l s(1) below in \<open>auto simp: tb_core_def\<close>)
  moreover have "idx = index_entries (seps @ [s]) blks"
    using idx True core index_entries_last [OF blks l, of s] by (simp add: tb_core_def s_def)
  ultimately show ?thesis using l by (intro that [of "seps @ [s]"]) simp_all
qed

lemma Finish_layout:
  assumes inv: "tb_inv sn opt valid bytes_of blks0 seps0 cur b" and run: "TableBuilder_Finish ops sn b = Some (s, b')" and s: "status_ok s"
    and kvs: "sorted_entries valid opt (entries_of blks0 @ cur)"
  shows "\<exists>blks seps meta foot. table_layout sn opt valid handles blks seps meta foot (bytes_of (tb_file b'))
    \<and> entries_of blks = entries_of blks0 @ cur"
    and "tb_offset b' = of_nat (length (bytes_of (tb_file b')))"
proof -
  obtain b0 fh b1 mh b2 ih b3 where steps: "TableBuilder_Flush ops sn b = Some b0"
    "write_filter_block ops (b0\<lparr>tb_closed := True\<rparr>) = (fh, b1)" "write_metaindex_block ops sn fh b1 = Some (mh, b2)"
    "write_index_block ops sn b2 = Some (ih, b3)" "write_footer ops mh ih b3 = Some b'" "s = tb_status b'"
    using run by (auto simp: TableBuilder_Finish_def split: bind_splits prod.splits)
  have ok: "tb_ok b'" using s steps(6) by (simp add: tb_ok_def)
  note ok3 = finish_steps_ok(4) [OF steps(5) ok]
  note ok2 = finish_steps_ok(3) [OF steps(4) ok3]
  note ok1 = finish_steps_ok(2) [OF steps(3) ok2]
  have ok0: "tb_ok b0" using finish_steps_ok(1) [OF steps(2) ok1] by (simp add: tb_ok_def)
  have core: "tb_core sn opt valid bytes_of blks0 seps0 cur b" using inv by (simp add: tb_inv_def)
  have "tb_last_key b = fst (last cur)" if "cur \<noteq> []" using inv that by (simp add: tb_inv_def)
  with Flush_inv [OF core steps(1) ok0] inv obtain blks where inv0: "tb_inv sn opt valid bytes_of blks seps0 [] b0"
    and ents: "entries_of blks = entries_of blks0 @ cur" by blast
  have core0: "tb_core sn opt valid bytes_of blks seps0 [] b0" using inv0 by (simp add: tb_inv_def)
  have end0: "at_end_of bytes_of (b0\<lparr>tb_closed := True\<rparr>)" using core0 by (simp add: tb_core_def at_end_of_def)
  obtain fbk rest1 where same1: "b1 = b0\<lparr>tb_closed := True, tb_status := tb_status b1, tb_file := tb_file b1, tb_offset := tb_offset b1, tb_filter_block := fbk\<rparr>"
    "bytes_of (tb_file b1) = blocks_bytes blks @ rest1" "at_end_of bytes_of b1" "fbk = None \<longleftrightarrow> tb_filter_block b0 = None"
    and filt: "\<And>p fb. tb_filter_block b0 = Some (p, fb) \<Longrightarrow> holds_block sn (bytes_of (tb_file b1)) fh (fst (FilterBlock_Finish p fb))"
  proof (cases "tb_filter_block b0")
    case None
    then have "b1 = b0\<lparr>tb_closed := True\<rparr>" using write_filter_block_wrote(1) [OF steps(2) ok1] by simp
    then show ?thesis using None end0 core0 by (intro that [of None "[]"]) (simp_all add: tb_core_def)
  next
    case (Some pf)
    obtain p fb where pf: "pf = (p, fb)" by fastforce
    obtain fb' c where w: "c = fst (FilterBlock_Finish p fb)"
      "wrote bytes_of c kNoCompression (b0\<lparr>tb_closed := True, tb_filter_block := Some (p, fb')\<rparr>) fh b1"
      using write_filter_block_wrote(2) [OF steps(2) ok1] Some pf by auto
    have e: "at_end_of bytes_of (b0\<lparr>tb_closed := True, tb_filter_block := Some (p, fb')\<rparr>)" using end0 by (simp add: at_end_of_def)
    have "holds_block sn (bytes_of (tb_file b1)) fh c" by (rule wrote_holds [OF w(2) e]) (simp add: stores_def)
    moreover obtain s f where "b1 = b0\<lparr>tb_closed := True, tb_filter_block := Some (p, fb')\<rparr>\<lparr>tb_status := s, tb_file := f,
        tb_offset := tb_offset b0 + of_nat (length (raw_block c kNoCompression))\<rparr>" using w(2) unfolding wrote_def by auto
    ultimately show ?thesis
      using wrote_at_end [OF w(2) e] wrote_bytes [OF w(2)] core0 Some pf w(1)
      by (intro that [of "Some (p, fb')" "raw_block c kNoCompression"]) (simp_all add: tb_core_def)
  qed
  have opt1: "tb_options b1 = opt" "tb_filter_block b1 = fbk" "tb_index_block b1 = tb_index_block b0"
    "tb_pending_index_entry b1 = tb_pending_index_entry b0" "tb_pending_handle b1 = tb_pending_handle b0" "tb_last_key b1 = tb_last_key b0"
    using core0 by (subst same1(1), simp add: tb_core_def)+
  obtain c2 t2 meta where m: "stores sn (build_block (to_restart_interval opt) meta) c2 t2" "wrote bytes_of c2 t2 b1 mh b2"
    "case fbk of None \<Rightarrow> meta = [] | Some _ \<Rightarrow> \<exists>p. to_filter_policy opt = Some p \<and> meta = [(filter_key p, handle_bytes fh)]"
    using write_metaindex_block_wrote [OF steps(3) ok2] compression unfolding opt1 by blast
  note k2 = wrote_keeps [OF m(2)]
  have "tb_index_block b2 = foldl add_entry (BlockBuilder_new 1) (index_entries seps0 blks)" using k2 opt1 core0 by (simp add: tb_core_def)
  from write_index_block_wrote [OF steps(4) ok3 _ this] k2 opt1 compression obtain c3 t3 b4 b5 idx where
    i: "stores sn (build_block 1 idx) c3 t3" "wrote bytes_of c3 t3 b4 ih b5" "tb_file b4 = tb_file b2" "tb_offset b4 = tb_offset b2"
      "tb_file b3 = tb_file b5" "tb_offset b3 = tb_offset b5"
    and idx: "idx = (if tb_pending_index_entry b0 then index_entries seps0 blks @
        [(cmp_FindShortSuccessor (to_comparator opt) (tb_last_key b0), handle_bytes (tb_pending_handle b0))] else index_entries seps0 blks)"
    by auto
  have kvs': "sorted_entries valid opt (entries_of blks)" using kvs by (simp add: ents)
  obtain seps where seps: "length seps = length blks" "seps_ok valid (cmp_Compare (to_comparator opt)) seps blks []" "idx = index_entries seps blks"
    using index_complete [OF inv0 kvs' idx] .
  have end2: "at_end_of bytes_of b2" by (rule wrote_at_end [OF m(2) same1(3)])
  then have end4: "at_end_of bytes_of b4" using i by (simp add: at_end_of_def)
  have end3: "at_end_of bytes_of b3" using wrote_at_end [OF i(2) end4] i by (simp add: at_end_of_def)
  obtain e where e: "Footer_EncodeTo \<lparr>ft_metaindex_handle = mh, ft_index_handle = ih\<rparr> [] = Some e" "bytes_of (tb_file b') = bytes_of (tb_file b3) @ e"
    using write_footer_wrote(1) [OF steps(5) ok] by blast
  show "tb_offset b' = of_nat (length (bytes_of (tb_file b')))"
    using write_footer_wrote(2) [OF steps(5) ok end3] by (simp add: at_end_of_def)
  have grow: "bytes_of (tb_file b2) = bytes_of (tb_file b1) @ raw_block c2 t2" "bytes_of (tb_file b3) = bytes_of (tb_file b2) @ raw_block c3 t3"
    using wrote_bytes [OF m(2)] wrote_bytes [OF i(2)] i by simp_all
  have bytes: "bytes_of (tb_file b') = bytes_of (tb_file b1) @ raw_block c2 t2 @ raw_block c3 t3 @ e" using grow e by simp
  have "filter_stored sn opt handles blks meta (bytes_of (tb_file b'))"
  proof (cases "tb_filter_block b0")
    case None
    then show ?thesis using core0 m(3) same1(4) by (simp add: tb_core_def filter_inv_def filter_stored_def)
  next
    case (Some pf)
    obtain p fb where pf: "pf = (p, fb)" by fastforce
    have fi: "filter_inv opt blks [] b0" using core0 by (simp add: tb_core_def)
    then have "to_filter_policy opt = Some p" using Some pf by (simp add: filter_inv_def)
    then have "meta = [(filter_key p, handle_bytes fh)]" using m(3) same1(4) Some by (auto split: option.splits)
    moreover have "holds_block sn (bytes_of (tb_file b')) fh (fst (FilterBlock_Finish p fb))"
      unfolding bytes by (rule holds_block_append [OF filt]) (simp add: Some pf)
    ultimately show ?thesis using filter_stored_match [OF fi] Some pf by blast
  qed
  moreover have place: "\<forall>j<length blks. block_in_place sn (to_restart_interval opt) blks j"
    and starts: "\<exists>rest. bytes_of (tb_file b') = blocks_bytes blks @ rest" using core0 bytes same1(2) by (auto simp: tb_core_def)
  moreover have "holds_block sn (bytes_of (tb_file b')) mh (build_block (to_restart_interval opt) meta)"
    using wrote_holds [OF m(2) same1(3) m(1)] holds_block_append grow e(2) by (metis append.assoc)
  moreover have "holds_block sn (bytes_of (tb_file b')) ih (build_block 1 (index_entries seps blks))"
    using holds_block_append [OF wrote_holds [OF i(2) end4 i(1)]] e(2) i seps(3) by simp
  ultimately have "table_layout sn opt valid handles blks seps meta \<lparr>ft_metaindex_handle = mh, ft_index_handle = ih\<rparr> (bytes_of (tb_file b'))"
    unfolding table_layout_def footer.simps using place starts seps(1,2) e by blast
  with ents show "\<exists>blks seps meta foot. table_layout sn opt valid handles blks seps meta foot (bytes_of (tb_file b'))
    \<and> entries_of blks = entries_of blks0 @ cur" by blast
qed

lemma build_table_layout:
  assumes run: "build_table ops sn opt kvs file = Some (s, b)" and "status_ok s" and "bytes_of file = []" and "sorted_entries valid opt kvs"
  shows "\<exists>blks seps meta foot. table_layout sn opt valid handles blks seps meta foot (bytes_of (tb_file b)) \<and> entries_of blks = kvs"
    and "TableBuilder_FileSize b = of_nat (length (bytes_of (tb_file b)))"
proof -
  obtain b0 b1 where steps: "TableBuilder_new opt file = Some b0" "add_all ops sn kvs b0 = Some b1" "TableBuilder_Finish ops sn b1 = Some (s, b)"
    using run by (auto simp: build_table_def split: bind_splits)
  have fail: "TableBuilder_Finish ops sn c = Some (s', c') \<Longrightarrow> \<not> tb_ok c \<Longrightarrow> \<not> status_ok s'" for c s' c'
    by (auto simp: TableBuilder_Finish_def TableBuilder_Flush_def write_filter_block_def write_metaindex_block_def write_index_block_def
        write_footer_def tb_ok_def split: bind_splits if_splits)
  have "tb_ok b1" using fail [OF steps(3)] assms(2) by blast
  with add_all_inv [OF tb_inv_new [OF steps(1) assms(3)] steps(2)] assms(4) obtain blks seps cur where
    inv: "tb_inv sn opt valid bytes_of blks seps cur b1" and e: "entries_of blks @ cur = kvs" by (auto simp: entries_of_def)
  from Finish_layout [OF inv steps(3) assms(2)] assms(4)
  show "\<exists>blks seps meta foot. table_layout sn opt valid handles blks seps meta foot (bytes_of (tb_file b)) \<and> entries_of blks = kvs"
    and "TableBuilder_FileSize b = of_nat (length (bytes_of (tb_file b)))" by (simp_all add: e TableBuilder_FileSize_def)
qed

end

end
