(* ===== verification/Spec2Isabelle.thy ===== *)
theory Spec2Isabelle
  imports Pb_Encode_Props Pb_Decode_Props Pb_Roundtrip_Props Base64_Props Ldb_Props Ldb_Log_Props
    Ldb_Skiplist_Props Ldb_Memtable_Props Ldb_Block_Props Ldb_VersionEdit Ldb_Merger_Props Ldb_DBIter_Props
    Ldb_Table Ldb_TableBuilder_Props
begin

text \<open>
  \<^bold>\<open>A verification of the C and C++ code of HateBlocker.\<close>

  The application is written in Swift; the code of it that is written in C and C++ comes with its
  pods: the protocol-buffer library \<^verbatim>\<open>nanopb\<close>, the key-value store \<^verbatim>\<open>leveldb-library\<close> and the base-64
  coder of SocketRocket inside \<^verbatim>\<open>FirebaseDatabase\<close>, all under \<^verbatim>\<open>src/HateBlocker/Pods/\<close>. Firebase encodes its
  messages with nanopb, sends frames whose handshake uses the base-64 coder, and keeps its
  offline data in leveldb. The theories model these parts as they are built for the application
  (little-endian, 64-bit, nanopb with 32-bit field descriptors and without \<^verbatim>\<open>malloc\<close>, leveldb on POSIX
  without SSE 4.2).

  \<^bold>\<open>Foundations.\<close> \<open>Prelude\<close> holds the machine types, byte-addressed memory, little-endian words and the
  lemmas on lists, words and bytes that all components use, with the collection \<open>mem_simps\<close>.

  \<^bold>\<open>nanopb.\<close>
  \<^item> \<open>Pb_Types\<close>: \<^verbatim>\<open>pb.h\<close>. Type codes, field descriptors as the record \<open>pb_field\<close>, and the family of
    \<^verbatim>\<open>PB_FIELD\<close> macros as functions that build descriptors from the layout of a struct.
  \<^item> \<open>Pb_Common\<close>: \<^verbatim>\<open>pb_common.c\<close>, the field iterator.
  \<^item> \<open>Pb_Ostream\<close>, \<open>Pb_Encode\<close>: \<^verbatim>\<open>pb_encode.c\<close>. The state of a stream is a record with its callback, its
    counter, its limit and the target memory; an operation maps a state to a result and a state.
    \<open>Pb_Encode_Spec\<close> gives the bytes of a message by recursion over the descriptors and shows that the
    encoder refines it; \<open>Pb_Encode_Fuel\<close> that the fuel does not matter; \<open>Pb_Encode_Props\<close> the properties.
  \<^item> \<open>Pb_Istream\<close>, \<open>Pb_Decode\<close>: \<^verbatim>\<open>pb_decode.c\<close>, likewise, with the message in the memory of the state.
    \<open>Pb_Decode_Safe\<close> shows by the locale \<open>consumer\<close> that decoders stay in their input and write only where they may,
    \<open>Pb_Decode_Total\<close> that they come back, \<open>Pb_Decode_Run\<close> which inputs are accepted, \<open>Pb_Decode_Layout\<close>
    that descriptors of a struct lead inside it; \<open>Pb_Decode_Props\<close> has the properties.
  \<^item> \<open>Pb_Codec\<close>, \<open>Pb_Roundtrip\<close>, \<open>Pb_Roundtrip_Props\<close>: the primitive codecs as instances of the locale \<open>stream_codec\<close>,
    and that decoding restores every scalar value that was encoded.
  \<^item> \<open>Pb_Example\<close>: a message type on which the theorems are instantiated.

  Application callbacks, nested descriptors and extension types are parameters, in the records \<open>oenv\<close> and
  \<open>ienv\<close>. The recursion through submessages has fuel for the depth of nesting and for rounds of loops; the value \<open>None\<close> stands for
  undefined behaviour or exhausted fuel. \<open>encode_returns\<close> and \<open>decode_comes_back\<close> show that a fuel above the
  depth of the descriptors, and for the decoder above the number of input bytes, is enough; of the callbacks of callback
  fields (\<open>callback_fields\<close>) the decoder needs that they come back and take input, which \<open>decode_comes_back\<close> shows to be necessary.

  \<^bold>\<open>Base-64.\<close> \<open>Base64\<close> models \<^verbatim>\<open>fbase64.c\<close> (\<^verbatim>\<open>f_b64_ntop\<close>, \<^verbatim>\<open>f_b64_pton\<close>), \<open>Base64_Props\<close> compares it with the
  encoding of RFC 1521 by groups of six bits: the encoder computes it, the decoder inverts it and
  accepts nothing else, and neither writes outside its target.

  \<^bold>\<open>leveldb.\<close>
  \<^item> \<open>Ldb_Coding\<close>: \<^verbatim>\<open>util/coding.cc\<close>, \<^verbatim>\<open>util/coding.h\<close>; the locale \<open>prefix_codec\<close> is the contract of its encodings.
  \<^item> \<open>Ldb_Crc\<close>: \<^verbatim>\<open>util/crc32c.cc\<close>, \<^verbatim>\<open>util/crc32c.h\<close>, with the four tables of the source, which are shown to
    hold the remainders by the Castagnoli polynomial.
  \<^item> \<open>Ldb_Status\<close>: \<^verbatim>\<open>slice.h\<close>, \<^verbatim>\<open>status.h\<close>, \<^verbatim>\<open>util/status.cc\<close>.
  \<^item> \<open>Ldb_Comparator\<close>: \<^verbatim>\<open>util/comparator.cc\<close> and its contract, the locale \<open>comparator\<close> with the laws that \<^verbatim>\<open>comparator.h\<close>
    documents; it extends \<open>key_order\<close>, the order alone, and the locale \<open>compare_order\<close> is what ordered containers use of it.
  \<^item> \<open>Ldb_Bloom\<close>: \<^verbatim>\<open>util/hash.cc\<close>, \<^verbatim>\<open>util/bloom.cc\<close>.
  \<^item> \<open>Ldb_Log\<close>: the write-ahead log, \<^verbatim>\<open>db/log_format.h\<close>, \<^verbatim>\<open>db/log_writer.cc\<close>, \<^verbatim>\<open>db/log_reader.cc\<close>.
  \<^item> \<open>Ldb_Env\<close>: the files, the limiter and the lock table of \<^verbatim>\<open>util/env_posix.cc\<close>, over a model of C streams;
    the locales \<open>log_dest\<close> and \<open>log_source\<close> say what the log relies on, and the POSIX files keep it.
  \<^item> \<open>Ldb_Log_Spec\<close>: the format of a log as relations \<open>fragments\<close> and \<open>log_of\<close> between bytes and records, the proofs that
    the writer produces it, also when the device fails, and that the reader recovers the records from it, also
    from a file that was cut off.
  \<^item> \<open>Ldb_Props\<close>, \<open>Ldb_Log_Props\<close>: the properties.
  \<^item> \<open>Ldb_Logging\<close>: \<^verbatim>\<open>util/logging.cc\<close> and the names of files, \<^verbatim>\<open>db/filename.cc\<close>.
  \<^item> \<open>Ldb_Dbformat\<close>: internal keys, \<^verbatim>\<open>db/dbformat.cc\<close>. The locale \<open>user_comparator\<close> is the contract of the user's comparator;
    its sublocale \<open>ikey\<close> says that internal keys are ordered too. That their separators keep the contract needs a user's comparator that
    leaves equal keys alone, the locale \<open>steady_comparator\<close> with its sublocale \<open>ikey_full\<close>; the bytewise one does. \<open>filter_policy\<close> does the same for filters.
  \<^item> \<open>Ldb_Skiplist\<close>: \<^verbatim>\<open>db/skiplist.h\<close>, \<^verbatim>\<open>util/random.h\<close>. Nodes are the elements of a list, pointers their indices; accesses are
    checked, and the loops are partial functions in the option monad, so \<open>Some\<close> means that there is no bad access and that
    they end. \<open>Ldb_Skiplist_Inv\<close> has the invariant: on every level a sorted chain, nested in the one below;
    \<open>Ldb_Skiplist_Ops\<close> the refinement to sorted lists; \<open>Ldb_Skiplist_Conc\<close> the interleaved steps \<open>sl_step\<close> of an insertion
    and a search without a lock, where the two stores of a level, \<open>link_new\<close> and \<open>publish_new\<close>, are steps of their own and a
    link is not initialised before its first store; \<open>Ldb_Skiplist_Props\<close> the properties.
  \<^item> \<open>Ldb_Memtable\<close>, \<open>Ldb_Memtable_Spec\<close>: \<^verbatim>\<open>db/memtable.cc\<close>, a client of the skip list by the sublocale \<open>mem\<close> of
    \<open>user_comparator\<close>, and the writes that a table stands for. \<open>Ldb_WriteBatch\<close>: \<^verbatim>\<open>db/write_batch.cc\<close>.
    \<open>Ldb_Memtable_Props\<close>: the properties, up to the write and read path of the memtable.
  \<^item> \<open>Ldb_Block\<close>: the blocks of tables, \<^verbatim>\<open>table/block_builder.cc\<close>, \<^verbatim>\<open>table/block.cc\<close>. \<open>Ldb_Block_Spec\<close> says by \<open>laid\<close> and \<open>block_ok\<close>
    which entries a block holds and where an iterator stands; \<open>Ldb_Block_Build\<close> shows that finished blocks are of this
    form, \<open>Ldb_Block_Safe\<close> that iterators also keep their shape on damaged blocks, where an operation may only read behind the
    block (the inner \<open>None\<close> of its result) when the lengths of an entry wrap; \<open>Ldb_Block_Props\<close> has the properties.
  \<^item> \<open>Ldb_Iterator\<close>: the interface of iterators, \<^verbatim>\<open>include/leveldb/iterator.h\<close>, as a record of operations; the locale \<open>iterator_contract\<close>
    says what every client relies on, the iterators of blocks keep it (interpretation \<open>block_entries\<close>), and so does what
    \<^verbatim>\<open>table/iterator_wrapper.h\<close> wraps around an iterator.
  \<^item> \<open>Ldb_Merger\<close>, \<open>Ldb_Merger_Props\<close>: \<^verbatim>\<open>table/merger.cc\<close>, for any children with the contract, which may share keys. The locale
    \<open>directed_contract\<close> (interpretation \<open>merged_entries\<close>) says where the iterator goes in and against its direction;
    without shared keys it gives the contract of iterators.
  \<^item> \<open>Ldb_DBIter\<close>: the iterator of the database, \<^verbatim>\<open>db/db_iter.cc\<close>. \<open>Ldb_DBIter_Spec\<close> defines the view \<open>db_view\<close> of a snapshot and shows where
    the forward loop stops; \<open>Ldb_DBIter_Props\<close> does the backward loops and the contract over the view (\<open>db_entries\<close>).
  \<^item> \<open>Ldb_VersionEdit\<close>: the records of a manifest, \<^verbatim>\<open>db/version_edit.cc\<close>, their round trip, and the grammar \<open>edit_fields\<close> of what
    the decoder accepts.
  \<^item> \<open>Ldb_FilterBlock\<close>: the filters of a table, \<^verbatim>\<open>table/filter_block.cc\<close>. The locale \<open>appending_filter_policy\<close> is what it relies on
    (interpretation \<open>bloom_append\<close>); \<open>fb_holds\<close> says which groups of keys a builder holds.
  \<^item> \<open>Ldb_Format\<close>: handles, footers and the reading of blocks, \<^verbatim>\<open>table/format.cc\<close>. Files that are read at random are functions with the
    contract \<open>random_access\<close>, which the two kinds of POSIX files keep; \<open>snappy\<close> is the contract of the compression.
  \<^item> \<open>Ldb_TwoLevel\<close>, \<open>Ldb_TwoLevel_Props\<close>: \<^verbatim>\<open>table/two_level_iterator.cc\<close>. For an index that separates its blocks (\<open>two_level_source\<close>)
    a two-level iterator keeps the contract of iterators over the concatenation of the blocks (\<open>two_level_entries\<close>).
  \<^item> \<open>Ldb_TableBuilder\<close>: \<^verbatim>\<open>table/table_builder.cc\<close>. \<open>Ldb_TableBuilder_Spec\<close> has the invariant \<open>tb_inv\<close>: which blocks stand in the file, what
    the index and the filters hold, and \<open>Ldb_TableBuilder_Props\<close> the layout \<open>table_layout\<close> of a finished file, in the locale \<open>table_writer\<close> that \<open>default_tables\<close> instantiates with the options' defaults.
  \<^item> \<open>Ldb_Table\<close>: \<^verbatim>\<open>table/table.cc\<close>; the block cache is a record of operations.

  The loop of the log reader has fuel for its rounds, since a file may never end; each round consumes at least a header of
  seven bytes, so a fuel above the length of the file is enough (\<open>log_roundtrip\<close>, \<open>log_crash_safe\<close>).

  \<^bold>\<open>Not modelled.\<close> Of leveldb: the database itself (\<^verbatim>\<open>db_impl\<close>, \<^verbatim>\<open>version_set\<close>, \<^verbatim>\<open>repair\<close>),
  the block cache itself and the release of its handles, the memory of the arena, \<^verbatim>\<open>SetCurrentFile\<close>, the C interface, and of \<^verbatim>\<open>PosixEnv\<close> the
  wrappers of directory calls, locks of the operating system and threads. The loads and stores of the skip list are
  taken in the order of the program; that the barriers of the code ensure it for other processors is not shown. Of nanopb: the
  configuration with \<^verbatim>\<open>PB_ENABLE_MALLOC\<close>, which
  the application does not build. The Objective-C code of Firebase, SocketRocket and
  GoogleToolboxForMac, and the Swift application, are not C code; headers of binary frameworks only declare.
\<close>

section \<open>nanopb and leveldb\<close>

text \<open>
  C24. The two libraries read each other's variable-length integers: nanopb's decoder reads what leveldb's encoder makes,
  consuming exactly these bytes; and what nanopb's encoder writes into a buffer, as many bytes as leveldb computes for the
  number, leveldb's decoder reads, up to whatever follows.
\<close>
theorem varint_agreement:
  assumes "holds (EncodeVarint64 v) s" and "10 \<le> unat bufsize"
  shows "pb_decode_varint env s = (Some v, is_skip (length (EncodeVarint64 v)) s)
    \<and> (\<exists>t. pb_encode_varint oenv v (buffer_state buf bufsize out w) = (True, t)
         \<and> GetVarint64 (mem_read (omem t) buf (unat (os_bytes_written (os t))) @ rest) = Some (v, rest)
         \<and> unat (os_bytes_written (os t)) = VarintLength v)"
proof
  show "pb_decode_varint env s = (Some v, is_skip (length (EncodeVarint64 v)) s)"
    using varint_roundtrip [of v s env] assms(1) by (simp add: EncodeVarint64_bytes)
  have le: "length (varint_bytes v) \<le> 10" by (rule varint_bytes_le_10)
  obtain t where t: "ret_opt (pb_encode_varint oenv v) (buffer_state buf bufsize out w) = Some (True, t)"
      "omem t = mem_write out buf (varint_bytes v)" "os_bytes_written (os t) = of_nat (length (varint_bytes v))"
    using emit_into_buffer [OF varint.emitter_axioms [of oenv v] order_trans [OF le assms(2)], of buf out w] by blast
  have "unat (of_nat (length (varint_bytes v)) :: u64) = length (varint_bytes v)" using le by (simp add: unat_of_nat)
  with t GetVarint64_Encode [of v rest] show "\<exists>t. pb_encode_varint oenv v (buffer_state buf bufsize out w) = (True, t)
      \<and> GetVarint64 (mem_read (omem t) buf (unat (os_bytes_written (os t))) @ rest) = Some (v, rest)
      \<and> unat (os_bytes_written (os t)) = VarintLength v"
    by (simp add: ret_opt_def EncodeVarint64_bytes VarintLength_correct mem_read_write_same)
qed

theorem varint_agreement_witness:
  "pb_decode_varint plain_ienv (input_state [0xAC, 2] (\<lambda>_. 0)) = (Some 300, is_skip 2 (input_state [0xAC, 2] (\<lambda>_. 0)))
   \<and> (\<exists>t. pb_encode_varint plain_oenv 300 (buffer_state 500 16 (\<lambda>_. 0) ()) = (True, t)
        \<and> GetVarint64 (mem_read (omem t) 500 (unat (os_bytes_written (os t))) @ [7]) = Some (300, [7]))"
proof -
  have e: "EncodeVarint64 300 = [0xAC, 2]" by (simp add: EncodeVarint64.simps)
  have "holds (EncodeVarint64 300) (input_state [0xAC, 2] (\<lambda>_. 0))" unfolding e by (rule holds_input) simp
  from varint_agreement [OF this, of 16 plain_ienv plain_oenv 500 "\<lambda>_. 0" "()" "[7]"] e
  show ?thesis by (auto simp flip: numeral_2_eq_2)
qed

end
